(* ===== verification/Prelude.thy ===== *)
theory Prelude
  imports Main "HOL-Library.Word" "HOL-Library.Monad_Syntax"
begin

text \<open>
  What every theory of the development shares.

  Types: pointers, machine integers.  Conventions: a C function that can stop the process (a failed
  \<open>CILK_ASSERT\<close> or \<open>assert\<close>, \<open>__cilkrts_bug\<close>, \<open>abort\<close>, the dereference of \<open>NULL\<close> or of freed
  memory) returns an \<open>option\<close>, and \<open>None\<close> is the stopped process.  State is passed explicitly.

  Lemmas: the option monad (collection \<open>monad_simps\<close>), and reading 64-bit words as natural numbers.
\<close>

type_synonym u64 = "64 word"
type_synonym u32 = "32 word"
type_synonym ptr = "nat option"

named_theorems monad_simps \<open>inversion of successful runs in the option monad\<close>

subsection \<open>Assertions\<close>

definition check :: "bool \<Rightarrow> unit option" where
  "check b = (if b then Some () else None)"

lemma check_simps [simp]: "check True = Some ()" "check False = None"
  by (simp_all add: check_def)

lemma check_eq_Some [simp, monad_simps]: "check b = Some u \<longleftrightarrow> b"
  by (simp add: check_def)

lemma bind_check [simp]: "Option.bind (check b) f = (if b then f () else None)"
  by (simp add: check_def)

lemma bind_Some_iff [monad_simps]:
  "Option.bind m f = Some y \<longleftrightarrow> (\<exists>x. m = Some x \<and> f x = Some y)"
  by (cases m) auto

lemma if_None_eq_Some [monad_simps]: "(if b then m else None) = Some y \<longleftrightarrow> b \<and> m = Some y"
  by simp

subsection \<open>Pointers\<close>

text \<open>Reading through a pointer: \<open>NULL\<close> and a freed address both stop the process.\<close>

definition deref :: "(nat \<Rightarrow> 'a option) \<Rightarrow> ptr \<Rightarrow> 'a option" where
  "deref m p = Option.bind p m"

lemma deref_simps [simp]: "deref m None = None" "deref m (Some a) = m a"
  by (simp_all add: deref_def)

lemma deref_eq_Some [monad_simps]: "deref m p = Some x \<longleftrightarrow> (\<exists>a. p = Some a \<and> m a = Some x)"
  by (cases p) auto

definition last_opt :: "ptr \<Rightarrow> nat list \<Rightarrow> ptr" where
  "last_opt p xs = (if xs = [] then p else Some (last xs))"

lemma last_opt_simps [simp]:
  "last_opt p [] = p" "last_opt p (xs @ [x]) = Some x" "last_opt p (x # xs) = last_opt (Some x) xs"
  by (simp_all add: last_opt_def)

lemma last_opt_append [simp]: "last_opt p (xs @ ys) = last_opt (last_opt p xs) ys"
  by (induction xs arbitrary: p) simp_all

subsection \<open>Maps with keys removed\<close>

definition without :: "('a \<Rightarrow> 'b option) \<Rightarrow> 'a set \<Rightarrow> 'a \<Rightarrow> 'b option" where
  "without m A = (\<lambda>x. if x \<in> A then None else m x)"

lemma without_apply: "without m A x = (if x \<in> A then None else m x)"
  by (simp add: without_def)

lemma without_in [simp]: "x \<in> A \<Longrightarrow> without m A x = None"
  by (simp add: without_def)

lemma without_notin [simp]: "x \<notin> A \<Longrightarrow> without m A x = m x"
  by (simp add: without_def)

lemma without_empty [simp]: "without m {} = m"
  by (simp add: without_def)

lemma without_insert: "(without m A)(p := None) = without m (insert p A)"
  by (auto simp: without_def fun_eq_iff)

lemma without_upd_None: "without (m(p := None)) A = without m (insert p A)"
  by (auto simp: without_def fun_eq_iff)

lemma without_without [simp]: "without (without m A) B = without m (A \<union> B)"
  by (auto simp: without_def fun_eq_iff)

subsection \<open>Lists\<close>

lemma last_notin_butlast: "distinct xs \<Longrightarrow> xs \<noteq> [] \<Longrightarrow> last xs \<notin> set (butlast xs)"
  by (induction xs) (auto split: if_splits)

lemma butlast_last_set: "xs \<noteq> [] \<Longrightarrow> insert (last xs) (set (butlast xs)) = set xs"
  by (metis append_butlast_last_id list.simps(15) rotate1.simps(2) set_rotate1)

lemma sorted_wrt_append_Cons:
  "sorted_wrt R (us @ x # vs) \<longleftrightarrow>
     sorted_wrt R us \<and> sorted_wrt R vs \<and> (\<forall>u\<in>set us. R u x) \<and> (\<forall>v\<in>set vs. R x v) \<and>
     (\<forall>u\<in>set us. \<forall>v\<in>set vs. R u v)"
  by (auto simp: sorted_wrt_append)

lemma sorted_wrt_nth_iff:
  "transp R \<Longrightarrow> irreflp R \<Longrightarrow> sorted_wrt R xs \<Longrightarrow> i < length xs \<Longrightarrow> j < length xs \<Longrightarrow>
     R (xs ! i) (xs ! j) \<longleftrightarrow> i < j"
  by (metis irreflpD linorder_neqE_nat sorted_wrt_nth_less transpD)

subsection \<open>Words read as numbers\<close>

lemma unat_lt64 [simp]: "unat (w :: u64) < 18446744073709551616"
  using unsigned_less [of w] by simp

lemma unat_of_nat64: "n < 18446744073709551616 \<Longrightarrow> unat (of_nat n :: u64) = n"
  by (simp only: unsigned_of_nat) (simp add: take_bit_nat_eq_self)

lemma unat_half [simp]: "unat (drop_bit (Suc 0) (w :: u64)) = unat w div 2"
proof -
  have "unat (drop_bit (Suc 0) w) = drop_bit (Suc 0) (unat w)"
    by (rule unat_drop_bit_eq)
  also have "\<dots> = unat w div 2"
    by (simp only: drop_bit_eq_div power_Suc power_0 mult_1_right)
  finally show ?thesis .
qed

lemma wrap_once: "x < m \<Longrightarrow> y < m \<Longrightarrow> (x + y) mod m = (if x + y < m then x + y else x + y - m)"
  for m :: nat
  by (simp add: mod_if)

lemma u64_add_unat:
  "unat (a + b :: u64) = (if unat a + unat b < 18446744073709551616 then unat a + unat b
                          else unat a + unat b - 18446744073709551616)"
proof -
  have "unat (a + b) = (unat a + unat b) mod 18446744073709551616"
    by (simp add: unat_word_ariths)
  also have "\<dots> = (if unat a + unat b < 18446744073709551616 then unat a + unat b
                          else unat a + unat b - 18446744073709551616)"
    by (rule wrap_once) (rule unat_lt64)+
  finally show ?thesis .
qed

lemma u64_less_unat: "(a :: u64) < b \<longleftrightarrow> unat a < unat b"
  by (rule word_less_nat_alt)

lemma u64_eq_unat: "(a :: u64) = b \<longleftrightarrow> unat a = unat b"
  by (simp add: word_unat_eq_iff)

end
