(* ===== verification/Om_Labels.thy ===== *)
theory Om_Labels
  imports Prelude
begin

text \<open>
  The labels of the order-maintenance structure (\<open>rdtool/src/om/om_common.h\<close>) and the arithmetic on
  them: the label of a node inserted between two others (\<open>get_new_label\<close> of \<open>blist.c\<close>).

  Labels are 64-bit words as in the code; the additions below wrap, and the lemmas show that the
  only wrap that happens is the one the code relies on to report that there is no room.
\<close>

unbundle bit_operations_syntax

subsection \<open>Constants\<close>

definition MAX_LABEL :: u64 where
  "MAX_LABEL = - 1"

definition NODE_INTERVAL :: u64 where
  "NODE_INTERVAL = push_bit 58 1"

definition SUBLIST_SIZE :: nat where
  "SUBLIST_SIZE = 64"

definition MAX_LEVEL :: nat where
  "MAX_LEVEL = 8 * 8"

lemma MAX_LABEL_eq: "MAX_LABEL = 18446744073709551615"
  by (simp add: MAX_LABEL_def)

lemma unat_MAX_LABEL [simp]: "unat MAX_LABEL = 18446744073709551615"
  by (simp add: MAX_LABEL_eq)

lemma NODE_INTERVAL_eq: "NODE_INTERVAL = 288230376151711744"
  by (simp add: NODE_INTERVAL_def push_bit_eq_mult)

lemma MAX_LEVEL_eq [simp]: "MAX_LEVEL = 64"
  by (simp add: MAX_LEVEL_def)

subsection \<open>The label of a new node\<close>

text \<open>
  The arithmetic of \<open>get_new_label\<close>: the mean of the base's label and its successor's, corrected
  when both are odd; then the correction at the end of the list.  The result 0 means that there is
  no room.
\<close>

definition mean_label :: "u64 \<Rightarrow> u64 \<Rightarrow> u64" where
  "mean_label base_label next_label =
     (let lab = drop_bit 1 base_label + drop_bit 1 next_label
      in if (base_label AND next_label) AND 1 = 1 then lab + 1 else lab)"

definition new_label :: "u64 \<Rightarrow> u64 option \<Rightarrow> u64" where
  "new_label base_label nxt =
     (let next_label = (case nxt of Some l \<Rightarrow> l | None \<Rightarrow> MAX_LABEL);
          lab = mean_label base_label next_label;
          lab = (if nxt = None then lab + 1 else lab)
      in if base_label = lab then 0 else lab)"

lemma odd_unat_iff: "odd (unat a) \<longleftrightarrow> odd (a :: u64)"
proof -
  have "unat a mod 2 = unat (a mod 2)"
    by (simp add: unat_mod_distrib)
  then show ?thesis
    by (simp add: odd_iff_mod_2_eq_one u64_eq_unat)
qed

lemma both_odd_iff: "((a AND b) AND 1 = (1 :: u64)) \<longleftrightarrow> odd (unat a) \<and> odd (unat b)"
proof -
  have "((a AND b) AND 1 = (1 :: u64)) \<longleftrightarrow> (a AND b) mod 2 = 1"
    by (simp only: and_one_eq)
  also have "\<dots> \<longleftrightarrow> odd (a AND b)"
    by (rule odd_iff_mod_2_eq_one [symmetric])
  also have "\<dots> \<longleftrightarrow> odd a \<and> odd b"
    by (simp only: even_and_iff de_Morgan_disj)
  also have "\<dots> \<longleftrightarrow> odd (unat a) \<and> odd (unat b)"
    by (simp only: odd_unat_iff)
  finally show ?thesis .
qed

lemma half_sum:
  "(x :: nat) div 2 + y div 2 + (if odd x \<and> odd y then 1 else 0) = (x + y) div 2"
  by (cases "even x"; cases "even y") (auto elim!: evenE oddE)

lemma unat_mean:
  fixes a b :: u64
  shows "unat (mean_label a b) = (unat a + unat b) div 2"
proof -
  let ?s = "drop_bit 1 a + drop_bit 1 b"
  let ?h = "unat a div 2 + unat b div 2"
  have "unat a < 18446744073709551616" "unat b < 18446744073709551616"
    by (rule unat_lt64)+
  then have bnd: "?h < 18446744073709551615"
    by presburger
  then have sum: "unat ?s = ?h"
    using u64_add_unat [of "drop_bit 1 a" "drop_bit 1 b"] by simp
  with bnd have "unat (?s + 1) = ?h + 1"
    using u64_add_unat [of ?s 1] by simp
  with sum show ?thesis
    unfolding mean_label_def Let_def both_odd_iff half_sum [symmetric] by simp
qed

text \<open>Between two nodes: the mean of the two labels, or 0 when they are adjacent.\<close>

lemma new_label_between:
  assumes "a < b"
  shows "unat (new_label a (Some b)) = (if unat b = Suc (unat a) then 0 else (unat a + unat b) div 2)"
proof -
  from assms have lt: "unat a < unat b"
    by (simp add: u64_less_unat)
  then have "a = mean_label a b \<longleftrightarrow> unat b = Suc (unat a)"
    by (simp add: u64_eq_unat unat_mean) presburger
  then show ?thesis
    by (simp add: new_label_def unat_mean)
qed

text \<open>After the last node: the middle of what is left, or 0 when the last label is the greatest.\<close>

lemma new_label_after:
  "unat (new_label a None) = (if a = MAX_LABEL then 0 else (unat a + unat MAX_LABEL) div 2 + 1)"
proof -
  let ?m = "mean_label a MAX_LABEL"
  have le: "unat a \<le> 18446744073709551615"
    using unat_lt64 [of a] by linarith
  have max: "a = MAX_LABEL \<longleftrightarrow> unat a = 18446744073709551615"
    by (simp add: u64_eq_unat)
  have m1: "unat (?m + 1) = (if a = MAX_LABEL then 0 else (unat a + unat MAX_LABEL) div 2 + 1)"
    using le max unat_mean [of a MAX_LABEL] u64_add_unat [of ?m 1] by auto
  then have ne: "a \<noteq> ?m + 1"
    using le max by (auto simp: u64_eq_unat)
  then have "new_label a None = ?m + 1"
    by (simp add: new_label_def)
  with m1 show ?thesis by simp
qed

text \<open>The two contracts that the list code relies on.\<close>

lemma new_label_above:
  assumes "new_label a nxt \<noteq> 0" "\<And>b. nxt = Some b \<Longrightarrow> a < b"
  shows "a < new_label a nxt"
proof (cases nxt)
  case None
  have "unat a \<le> 18446744073709551615"
    using unat_lt64 [of a] by linarith
  with None assms(1) new_label_after [of a] show ?thesis
    by (auto simp: u64_less_unat u64_eq_unat split: if_splits)
next
  case (Some b)
  with assms have "unat a < unat b" "unat (new_label a nxt) \<noteq> 0"
    by (simp_all add: u64_less_unat u64_eq_unat)
  with Some assms(2) new_label_between [of a b] show ?thesis
    by (auto simp: u64_less_unat split: if_splits)
qed

lemma new_label_below:
  assumes "a < b"
  shows "new_label a (Some b) < b"
  using new_label_between [OF assms] assms by (auto simp: u64_less_unat split: if_splits)

lemma new_label_full_iff:
  assumes "a < b"
  shows "new_label a (Some b) = 0 \<longleftrightarrow> unat b = Suc (unat a)"
  using new_label_between [OF assms] assms by (auto simp: u64_eq_unat u64_less_unat)

lemma new_label_full_end_iff: "new_label a None = 0 \<longleftrightarrow> a = MAX_LABEL"
  using new_label_after [of a] by (auto simp: u64_eq_unat split: if_splits)

end
