(* ===== verification/Blist.thy ===== *)
theory Blist
  imports Om_Labels
begin

text \<open>
  The bottom lists of the order-maintenance structure (\<open>rdtool/src/om/blist.h\<close>, \<open>blist.c\<close>):
  doubly linked lists of labelled nodes in an explicit store, because the lists share nodes with the
  client and are cut up by relabelling.

  \<open>malloc\<close> is a counter of addresses never used before; like the code, the model does not test
  its result for \<open>NULL\<close>.  A freed address is absent from the store, so reading it stops the process.
  Loops over the links take a bound on their iterations; the lemmas show that the length of the list
  is enough.

  The abstraction is \<open>blist_rep h l xs\<close>: the list at address \<open>l\<close> links exactly the nodes \<open>xs\<close>, in
  this order, with strictly increasing labels.  The field \<open>tls\<close> of the store holds the live addresses of
  the nodes of the tree above the lists.
\<close>

subsection \<open>Data\<close>

record bl_node =
  nd_label :: u64
  nd_next :: ptr
  nd_prev :: ptr
  nd_list :: ptr
  nd_in_use :: int
  nd_active_insert :: int
  nd_last_insert_id :: int

record blist =
  bl_head :: ptr
  bl_tail :: ptr
  bl_above :: ptr
  bl_heavy :: "8 word"

record bheap =
  nodes :: "nat \<Rightarrow> bl_node option"
  blists :: "nat \<Rightarrow> blist option"
  tls :: "nat set"
  brk :: nat

definition empty_bheap :: bheap where
  "empty_bheap = \<lparr>nodes = Map.empty, blists = Map.empty, tls = {}, brk = 0\<rparr>"

subsection \<open>Writing and freeing\<close>

definition upd_node :: "nat \<Rightarrow> (bl_node \<Rightarrow> bl_node) \<Rightarrow> bheap \<Rightarrow> bheap option" where
  "upd_node a f h =
     do { nd \<leftarrow> nodes h a; Some (h\<lparr>nodes := (nodes h)(a \<mapsto> f nd)\<rparr>) }"

definition upd_blist :: "nat \<Rightarrow> (blist \<Rightarrow> blist) \<Rightarrow> bheap \<Rightarrow> bheap option" where
  "upd_blist l f h =
     do { L \<leftarrow> blists h l; Some (h\<lparr>blists := (blists h)(l \<mapsto> f L)\<rparr>) }"

definition free_node :: "nat \<Rightarrow> bheap \<Rightarrow> bheap option" where
  "free_node a h = do { nd \<leftarrow> nodes h a; Some (h\<lparr>nodes := (nodes h)(a := None)\<rparr>) }"

definition free_blist :: "nat \<Rightarrow> bheap \<Rightarrow> bheap option" where
  "free_blist l h = do { L \<leftarrow> blists h l; Some (h\<lparr>blists := (blists h)(l := None)\<rparr>) }"

subsection \<open>Operations of blist.c\<close>

definition get_new_label :: "bheap \<Rightarrow> nat \<Rightarrow> u64 option" where
  "get_new_label h base =
     do { b \<leftarrow> nodes h base;
          nxt \<leftarrow> (case nd_next b of
                   None \<Rightarrow> Some None
                 | Some p \<Rightarrow> do { q \<leftarrow> nodes h p;
                                  check (nd_label q > nd_label b);
                                  Some (Some (nd_label q)) });
          let lab = new_label (nd_label b) nxt;
          check (lab = 0 \<or> lab > nd_label b);
          Some lab }"

definition insert_internal :: "nat \<Rightarrow> ptr \<Rightarrow> nat \<Rightarrow> bheap \<Rightarrow> bheap option" where
  "insert_internal self base n h =
     do { L \<leftarrow> blists h self;
          h \<leftarrow> (case base of
                  None \<Rightarrow>
                    do { h \<leftarrow> upd_blist self (\<lambda>L. L\<lparr>bl_head := Some n, bl_tail := Some n\<rparr>) h;
                         upd_node n (\<lambda>nd. nd\<lparr>nd_next := None, nd_prev := None, nd_label := 0\<rparr>) h }
                | Some b \<Rightarrow>
                    do { nn \<leftarrow> nodes h n;
                         bb \<leftarrow> nodes h b;
                         check (nd_label nn > nd_label bb);
                         h \<leftarrow> (if Some b = bl_tail L
                               then do { h \<leftarrow> upd_blist self (\<lambda>L. L\<lparr>bl_tail := Some n\<rparr>) h;
                                         upd_node n (\<lambda>nd. nd\<lparr>nd_next := None\<rparr>) h }
                               else do { h \<leftarrow> upd_node n (\<lambda>nd. nd\<lparr>nd_next := nd_next bb\<rparr>) h;
                                         v \<leftarrow> nd_next bb;
                                         upd_node v (\<lambda>nd. nd\<lparr>nd_prev := Some n\<rparr>) h });
                         h \<leftarrow> upd_node b (\<lambda>nd. nd\<lparr>nd_next := Some n\<rparr>) h;
                         upd_node n (\<lambda>nd. nd\<lparr>nd_prev := Some b\<rparr>) h });
          upd_node n (\<lambda>nd. nd\<lparr>nd_list := Some self\<rparr>) h }"

text \<open>Fields that \<open>node_new\<close> leaves uninitialised start as 0 and \<open>NULL\<close>; every caller writes
  them before they are read.\<close>

definition node_new :: "bheap \<Rightarrow> nat \<times> bheap" where
  "node_new h =
     (brk h, h\<lparr>nodes := (nodes h)(brk h \<mapsto> \<lparr>nd_label = 0, nd_next = None, nd_prev = None, nd_list = None,
                                         nd_in_use = 42, nd_active_insert = 0, nd_last_insert_id = -1\<rparr>),
               brk := Suc (brk h)\<rparr>)"

definition bl_create :: blist where
  "bl_create = \<lparr>bl_head = None, bl_tail = None, bl_above = None, bl_heavy = 0\<rparr>"

definition bl_new :: "bheap \<Rightarrow> nat \<times> bheap" where
  "bl_new h = (brk h, h\<lparr>blists := (blists h)(brk h \<mapsto> bl_create), brk := Suc (brk h)\<rparr>)"

definition bl_insert_initial :: "nat \<Rightarrow> bheap \<Rightarrow> (nat \<times> bheap) option" where
  "bl_insert_initial self h =
     do { L \<leftarrow> blists h self;
          check (bl_head L = None);
          let (n, h) = node_new h;
          h \<leftarrow> insert_internal self None n h;
          Some (n, h) }"

text \<open>The result \<open>None\<close> inside the pair is the \<open>NULL\<close> that reports a full list.\<close>

definition bl_insert :: "nat \<Rightarrow> nat \<Rightarrow> bheap \<Rightarrow> (ptr \<times> bheap) option" where
  "bl_insert self base h =
     do { b \<leftarrow> nodes h base;
          check (nd_active_insert b = 0 \<and> nd_last_insert_id b = -1);
          h \<leftarrow> upd_node base (\<lambda>nd. nd\<lparr>nd_active_insert := nd_active_insert nd + 1\<rparr>) h;
          lab \<leftarrow> get_new_label h base;
          (r, h) \<leftarrow> (if lab > 0
                     then let (n, h) = node_new h in
                          do { h \<leftarrow> upd_node n (\<lambda>nd. nd\<lparr>nd_label := lab\<rparr>) h;
                               h \<leftarrow> insert_internal self (Some base) n h;
                               Some (Some n, h) }
                     else Some (None, h));
          h \<leftarrow> upd_node base (\<lambda>nd. nd\<lparr>nd_active_insert := nd_active_insert nd - 1\<rparr>) h;
          b \<leftarrow> nodes h base;
          check (nd_active_insert b = 0);
          h \<leftarrow> upd_node base (\<lambda>nd. nd\<lparr>nd_last_insert_id := -1\<rparr>) h;
          Some (r, h) }"

definition bl_precedes :: "bheap \<Rightarrow> nat \<Rightarrow> nat \<Rightarrow> bool option" where
  "bl_precedes h x y =
     do { nx \<leftarrow> nodes h x; ny \<leftarrow> nodes h y;
          check (nd_list nx = nd_list ny);
          Some (nd_label nx < nd_label ny) }"

fun bl_size_loop :: "nat \<Rightarrow> bheap \<Rightarrow> ptr \<Rightarrow> nat \<Rightarrow> nat option" where
  "bl_size_loop fuel h None count = Some count"
| "bl_size_loop 0 h (Some c) count = None"
| "bl_size_loop (Suc fuel) h (Some c) count =
     do { nd \<leftarrow> nodes h c; bl_size_loop fuel h (nd_next nd) (Suc count) }"

definition bl_size :: "nat \<Rightarrow> bheap \<Rightarrow> nat \<Rightarrow> nat option" where
  "bl_size fuel h self = do { L \<leftarrow> blists h self; bl_size_loop fuel h (bl_head L) 0 }"

definition sizeof_bl_node :: nat where "sizeof_bl_node = 48"
definition sizeof_blist :: nat where "sizeof_blist = 32"

definition bl_memsize :: "nat \<Rightarrow> bheap \<Rightarrow> nat \<Rightarrow> nat option" where
  "bl_memsize fuel h self =
     do { n \<leftarrow> bl_size fuel h self; Some (n * sizeof_bl_node + sizeof_blist) }"

text \<open>What \<open>bl_fprint\<close> writes, one item per call of \<open>fprintf\<close> (\<open>bl_print\<close> writes it to \<open>stdout\<close>).\<close>

datatype bl_output = OutBlistAt nat | OutLabel u64 | OutSize nat

fun bl_fprint_loop :: "nat \<Rightarrow> bheap \<Rightarrow> ptr \<Rightarrow> nat \<Rightarrow> bl_output list option" where
  "bl_fprint_loop fuel h None sz = Some [OutSize sz]"
| "bl_fprint_loop 0 h (Some c) sz = None"
| "bl_fprint_loop (Suc fuel) h (Some c) sz =
     do { nd \<leftarrow> nodes h c;
          out \<leftarrow> bl_fprint_loop fuel h (nd_next nd) (Suc sz);
          Some (OutLabel (nd_label nd) # out) }"

definition bl_fprint :: "nat \<Rightarrow> bheap \<Rightarrow> nat \<Rightarrow> bl_output list option" where
  "bl_fprint fuel h self =
     do { L \<leftarrow> blists h self;
          out \<leftarrow> bl_fprint_loop fuel h (bl_head L) 0;
          Some (OutBlistAt self # out) }"

text \<open>The three assertions on a node's debugging fields, made twice in \<open>bl_verify\<close>.\<close>

definition node_idle :: "bl_node \<Rightarrow> bool" where
  "node_idle nd \<longleftrightarrow> nd_in_use nd = 42 \<and> nd_active_insert nd = 0 \<and> nd_last_insert_id nd = -1"

fun bl_verify_loop :: "nat \<Rightarrow> bheap \<Rightarrow> nat \<Rightarrow> nat \<Rightarrow> nat option" where
  "bl_verify_loop 0 h self n = None"
| "bl_verify_loop (Suc fuel) h self n =
     do { nd \<leftarrow> nodes h n;
          (case nd_next nd of
             None \<Rightarrow> Some n
           | Some m \<Rightarrow>
               do { check (node_idle nd);
                    check (m \<noteq> n);
                    nm \<leftarrow> nodes h m;
                    check (nd_label nd < nd_label nm);
                    check (nd_list nd = Some self);
                    check (nd_prev nm = Some n);
                    bl_verify_loop fuel h self m }) }"

definition bl_verify :: "nat \<Rightarrow> bheap \<Rightarrow> nat \<Rightarrow> int option" where
  "bl_verify fuel h self =
     do { L \<leftarrow> blists h self;
          (case bl_head L of
             None \<Rightarrow> do { check (bl_tail L = None); check (bl_heavy L = 0); Some 0 }
           | Some n \<Rightarrow>
               do { nd \<leftarrow> nodes h n;
                    check (nd_prev nd = None);
                    m \<leftarrow> bl_verify_loop fuel h self n;
                    nm \<leftarrow> nodes h m;
                    check (node_idle nm);
                    check (nd_list nm = Some self);
                    check (bl_tail L = Some m);
                    Some 0 }) }"

fun bl_destroy_loop :: "nat \<Rightarrow> bheap \<Rightarrow> ptr \<Rightarrow> bheap option" where
  "bl_destroy_loop fuel h None = Some h"
| "bl_destroy_loop 0 h (Some it) = None"
| "bl_destroy_loop (Suc fuel) h (Some it) =
     do { nd \<leftarrow> nodes h it;
          p \<leftarrow> nd_prev nd;
          h \<leftarrow> upd_node p (\<lambda>nd. nd\<lparr>nd_in_use := 69\<rparr>) h;
          h \<leftarrow> free_node p h;
          nd \<leftarrow> nodes h it;
          bl_destroy_loop fuel h (nd_next nd) }"

definition bl_destroy :: "nat \<Rightarrow> bheap \<Rightarrow> nat \<Rightarrow> bheap option" where
  "bl_destroy fuel h self =
     do { L \<leftarrow> blists h self;
          (case bl_head L of
             None \<Rightarrow> Some h
           | Some n \<Rightarrow> do { nd \<leftarrow> nodes h n;
                           h \<leftarrow> bl_destroy_loop fuel h (nd_next nd);
                           t \<leftarrow> bl_tail L;
                           free_node t h }) }"

definition bl_free :: "nat \<Rightarrow> bheap \<Rightarrow> nat \<Rightarrow> bheap option" where
  "bl_free fuel h self =
     do { L \<leftarrow> blists h self;
          h \<leftarrow> (if bl_head L \<noteq> None then bl_destroy fuel h self else Some h);
          free_blist self h }"

subsection \<open>The abstraction: a segment of linked nodes\<close>

text \<open>
  \<open>lseg ns l pv cur nx xs\<close>: following \<open>next\<close> from \<open>cur\<close> visits \<open>xs\<close> and ends at \<open>nx\<close>; the
  \<open>prev\<close> links go back to \<open>pv\<close>; every node belongs to list \<open>l\<close>.
\<close>

fun lseg :: "(nat \<Rightarrow> bl_node option) \<Rightarrow> nat \<Rightarrow> ptr \<Rightarrow> ptr \<Rightarrow> ptr \<Rightarrow> nat list \<Rightarrow> bool" where
  "lseg ns l pv cur nx [] \<longleftrightarrow> cur = nx"
| "lseg ns l pv cur nx (x # xs) \<longleftrightarrow>
     cur = Some x \<and>
     (\<exists>nd. ns x = Some nd \<and> nd_prev nd = pv \<and> nd_list nd = Some l \<and> node_idle nd \<and>
           lseg ns l (Some x) (nd_next nd) nx xs)"

definition label_of :: "(nat \<Rightarrow> bl_node option) \<Rightarrow> nat \<Rightarrow> u64" where
  "label_of ns x = (case ns x of Some nd \<Rightarrow> nd_label nd | None \<Rightarrow> 0)"

definition labels_inc :: "(nat \<Rightarrow> bl_node option) \<Rightarrow> nat list \<Rightarrow> bool" where
  "labels_inc ns xs \<longleftrightarrow> sorted_wrt (\<lambda>x y. label_of ns x < label_of ns y) xs"

definition blist_rep :: "bheap \<Rightarrow> nat \<Rightarrow> nat list \<Rightarrow> bool" where
  "blist_rep h l xs \<longleftrightarrow>
     (\<exists>L. blists h l = Some L \<and> lseg (nodes h) l None (bl_head L) None xs \<and>
          bl_tail L = last_opt None xs) \<and>
     labels_inc (nodes h) xs"

definition brk_ok :: "bheap \<Rightarrow> bool" where
  "brk_ok h \<longleftrightarrow> (\<forall>a\<ge>brk h. nodes h a = None \<and> blists h a = None \<and> a \<notin> tls h)"

lemma brk_ok_node: "brk_ok h \<Longrightarrow> nodes h a = Some nd \<Longrightarrow> a < brk h"
  by (rule ccontr) (auto simp: brk_ok_def)

lemma brk_ok_blist: "brk_ok h \<Longrightarrow> blists h l = Some L \<Longrightarrow> l < brk h"
  by (rule ccontr) (auto simp: brk_ok_def)

lemma label_of_Some [simp]: "ns x = Some nd \<Longrightarrow> label_of ns x = nd_label nd"
  by (simp add: label_of_def)

lemma label_of_upd [simp]: "label_of (ns(x := Some nd)) x = nd_label nd"
  by (simp add: label_of_def)

lemma label_of_other [simp]: "y \<noteq> x \<Longrightarrow> label_of (ns(x := r)) y = label_of ns y"
  by (simp add: label_of_def)

lemma lseg_append [simp]:
  "lseg ns l pv cur nx (us @ vs) \<longleftrightarrow>
     (\<exists>mid. lseg ns l pv cur mid us \<and> lseg ns l (last_opt pv us) mid nx vs)"
  by (induction us arbitrary: pv cur) auto

lemma lseg_cong:
  "(\<And>x. x \<in> set xs \<Longrightarrow> ns' x = ns x) \<Longrightarrow> lseg ns' l pv cur nx xs \<longleftrightarrow> lseg ns l pv cur nx xs"
  by (induction xs arbitrary: pv cur) auto

lemma lseg_update [simp]:
  "a \<notin> set xs \<Longrightarrow> lseg (ns(a := r)) l pv cur nx xs \<longleftrightarrow> lseg ns l pv cur nx xs"
  by (rule lseg_cong) auto

lemma lseg_allocated:
  "lseg ns l pv cur nx xs \<Longrightarrow> x \<in> set xs \<Longrightarrow> \<exists>nd. ns x = Some nd \<and> nd_list nd = Some l \<and> node_idle nd"
  by (induction xs arbitrary: pv cur) auto

lemma labels_inc_distinct: "labels_inc ns xs \<Longrightarrow> distinct xs"
  unfolding labels_inc_def by (induction xs) auto

lemma labels_inc_cong:
  "(\<And>x. x \<in> set xs \<Longrightarrow> label_of ns' x = label_of ns x) \<Longrightarrow> labels_inc ns' xs = labels_inc ns xs"
  unfolding labels_inc_def by (induction xs) auto

lemma blist_rep_distinct: "blist_rep h l xs \<Longrightarrow> distinct xs"
  by (auto simp: blist_rep_def dest: labels_inc_distinct)

lemma blist_rep_cong:
  assumes "\<And>x. x \<in> set xs \<Longrightarrow> nodes h' x = nodes h x" "blists h' l = blists h l"
  shows "blist_rep h' l xs = blist_rep h l xs"
  using lseg_cong [of xs "nodes h'" "nodes h", OF assms(1)]
    labels_inc_cong [of xs "nodes h'" "nodes h"] assms
  by (simp add: blist_rep_def label_of_def)

lemma blist_rep_node:
  assumes "blist_rep h l xs" "x \<in> set xs"
  obtains nd where "nodes h x = Some nd" "nd_list nd = Some l" "node_idle nd"
  using assms lseg_allocated unfolding blist_rep_def by blast


subsection \<open>Insertion\<close>

definition nxt_label :: "(nat \<Rightarrow> bl_node option) \<Rightarrow> nat list \<Rightarrow> u64 option" where
  "nxt_label ns vs = (case vs of [] \<Rightarrow> None | v # _ \<Rightarrow> Some (label_of ns v))"

lemma blist_rep_at:
  assumes "blist_rep h l (us @ b # vs)"
  obtains L B where "blists h l = Some L" "nodes h b = Some B" "nd_list B = Some l" "node_idle B"
    "nd_prev B = last_opt None us" "lseg (nodes h) l None (bl_head L) (Some b) us"
    "lseg (nodes h) l (Some b) (nd_next B) None vs" "bl_tail L = last_opt (Some b) vs"
    "labels_inc (nodes h) (us @ b # vs)" "distinct (us @ b # vs)"
  using assms blist_rep_distinct [OF assms] by (auto simp: blist_rep_def)

lemma labels_inc_split:
  "labels_inc ns (us @ b # vs) \<longleftrightarrow>
     labels_inc ns us \<and> labels_inc ns vs \<and> (\<forall>u\<in>set us. label_of ns u < label_of ns b) \<and>
     (\<forall>v\<in>set vs. label_of ns b < label_of ns v) \<and>
     (\<forall>u\<in>set us. \<forall>v\<in>set vs. label_of ns u < label_of ns v)"
  unfolding labels_inc_def by (rule sorted_wrt_append_Cons)

lemma labels_inc_Cons:
  "labels_inc ns (b # vs) \<longleftrightarrow> labels_inc ns vs \<and> (\<forall>v\<in>set vs. label_of ns b < label_of ns v)"
  by (auto simp: labels_inc_def)

lemma nxt_label_above:
  assumes "labels_inc ns (us @ b # vs)" "nxt_label ns vs = Some c"
  shows "label_of ns b < c"
  using assms by (cases vs) (auto simp: nxt_label_def labels_inc_split)

lemma get_new_label_rep:
  assumes "blist_rep h l (us @ b # vs)"
  shows "get_new_label h b = Some (new_label (label_of (nodes h) b) (nxt_label (nodes h) vs))"
proof -
  obtain B where B: "nodes h b = Some B" "lseg (nodes h) l (Some b) (nd_next B) None vs"
    and inc: "labels_inc (nodes h) (us @ b # vs)"
    using blist_rep_at [OF assms] by metis
  let ?lab = "new_label (nd_label B) (nxt_label (nodes h) vs)"
  have "?lab = 0 \<or> nd_label B < ?lab"
    using new_label_above [of "nd_label B" "nxt_label (nodes h) vs"] nxt_label_above [OF inc] B(1)
    by auto
  with B inc show ?thesis
    by (cases vs) (auto simp: get_new_label_def nxt_label_def labels_inc_split)
qed

text \<open>The room test depends on the two labels only.\<close>

definition has_room :: "bheap \<Rightarrow> nat \<Rightarrow> nat list \<Rightarrow> bool" where
  "has_room h b vs \<longleftrightarrow> new_label (label_of (nodes h) b) (nxt_label (nodes h) vs) \<noteq> 0"

lemma bl_insert_full:
  assumes "blist_rep h l (us @ b # vs)" "\<not> has_room h b vs"
  shows "bl_insert l b h = Some (None, h)"
proof -
  obtain B where B: "nodes h b = Some B" "node_idle B"
    using blist_rep_at [OF assms(1)] by metis
  let ?h = "h\<lparr>nodes := (nodes h)(b \<mapsto> B\<lparr>nd_active_insert := nd_active_insert B + 1\<rparr>)\<rparr>"
  have "get_new_label ?h b = get_new_label h b"
    using B(1) by (cases "nd_next B") (auto simp: get_new_label_def split: if_splits)
  also have "\<dots> = Some 0"
    using get_new_label_rep [OF assms(1)] assms(2) by (simp add: has_room_def)
  finally show ?thesis
    using B by (auto simp: bl_insert_def upd_node_def node_idle_def fun_upd_idem)
qed

definition linked_node :: "u64 \<Rightarrow> ptr \<Rightarrow> ptr \<Rightarrow> nat \<Rightarrow> bl_node" where
  "linked_node lab nx pv l = \<lparr>nd_label = lab, nd_next = nx, nd_prev = pv, nd_list = Some l,
     nd_in_use = 42, nd_active_insert = 0, nd_last_insert_id = -1\<rparr>"

definition after_insert :: "bheap \<Rightarrow> nat \<Rightarrow> nat \<Rightarrow> nat list \<Rightarrow> u64 \<Rightarrow> bheap" where
  "after_insert h l b vs lab =
     (let n = brk h;
          ns = (nodes h)(n \<mapsto> linked_node lab (case vs of [] \<Rightarrow> None | v # _ \<Rightarrow> Some v) (Some b) l,
                         b := map_option (\<lambda>B. B\<lparr>nd_next := Some n\<rparr>) (nodes h b))
      in h\<lparr>nodes := (case vs of [] \<Rightarrow> ns
                     | v # _ \<Rightarrow> ns(v := map_option (\<lambda>V. V\<lparr>nd_prev := Some n\<rparr>) (nodes h v))),
           blists := (if vs = [] then (blists h)(l := map_option (\<lambda>L. L\<lparr>bl_tail := Some n\<rparr>) (blists h l))
                      else blists h),
           brk := Suc n\<rparr>)"

lemma bl_insert_room:
  assumes rep: "blist_rep h l (us @ b # vs)" and ok: "brk_ok h" and room: "has_room h b vs"
  shows "bl_insert l b h = Some (Some (brk h), after_insert h l b vs
           (new_label (label_of (nodes h) b) (nxt_label (nodes h) vs)))"
proof -
  obtain L B where B: "blists h l = Some L" "nodes h b = Some B" "node_idle B"
    "lseg (nodes h) l (Some b) (nd_next B) None vs" "bl_tail L = last_opt (Some b) vs"
    and inc: "labels_inc (nodes h) (us @ b # vs)" and dist: "distinct (us @ b # vs)"
    using blist_rep_at [OF rep] by metis
  let ?h = "h\<lparr>nodes := (nodes h)(b \<mapsto> B\<lparr>nd_active_insert := nd_active_insert B + 1\<rparr>)\<rparr>"
  let ?lab = "new_label (nd_label B) (nxt_label (nodes h) vs)"
  have fresh: "nodes h (brk h) = None"
    using ok by (simp add: brk_ok_def)
  with B have neb: "brk h \<noteq> b" by auto
  have "get_new_label ?h b = get_new_label h b"
    using B by (cases "nd_next B") (auto simp: get_new_label_def split: if_splits)
  also have "\<dots> = Some ?lab"
    using get_new_label_rep [OF rep] B by simp
  finally have g: "get_new_label ?h b = Some ?lab" .
  have pos: "?lab \<noteq> 0" "0 < ?lab"
    using room B by (auto simp: has_room_def word_gt_0)
  have above: "nd_label B < ?lab"
    using new_label_above [OF pos(1)] nxt_label_above [OF inc] B(2) by simp
  show ?thesis
  proof (cases vs)
    case Nil
    with B g pos above fresh neb show ?thesis
      by (simp add: bl_insert_def upd_node_def upd_blist_def node_idle_def node_new_def
          insert_internal_def after_insert_def linked_node_def Let_def) (auto simp: fun_eq_iff)
  next
    case (Cons v vs')
    with B obtain V where V: "nodes h v = Some V" "nd_next B = Some v" by auto
    from dist Cons have ne: "v \<noteq> b" "b \<notin> set vs'" by auto
    from V fresh have nev: "v \<noteq> brk h" by auto
    have "bl_tail L \<noteq> Some b"
      using B(5) Cons ne by (auto simp: last_opt_def split: if_splits)
    with Cons B g pos above fresh neb V ne nev show ?thesis
      by (simp add: bl_insert_def upd_node_def upd_blist_def node_idle_def node_new_def
          insert_internal_def after_insert_def linked_node_def Let_def) (auto simp: fun_eq_iff)
  qed
qed


lemma after_insert_frame:
  assumes "b \<noteq> brk h"
  shows "x \<noteq> b \<Longrightarrow> x \<noteq> brk h \<Longrightarrow> x \<notin> set vs \<Longrightarrow> nodes (after_insert h l b vs lab) x = nodes h x"
    and "l' \<noteq> l \<Longrightarrow> blists (after_insert h l b vs lab) l' = blists h l'"
    and "brk (after_insert h l b vs lab) = Suc (brk h)"
    and "tls (after_insert h l b vs lab) = tls h"
  by (auto simp: after_insert_def Let_def split: list.split)

lemma after_insert_labels:
  assumes "nodes h (brk h) = None" "b \<noteq> brk h" "distinct (b # vs)" "brk h \<notin> set vs"
  shows "label_of (nodes (after_insert h l b vs lab)) x = (if x = brk h then lab else label_of (nodes h) x)"
  using assms by (auto simp: after_insert_def Let_def label_of_def linked_node_def
      split: list.split option.split)

lemma after_insert_heavy:
  assumes "blists h l = Some L"
  shows "\<exists>L'. blists (after_insert h l b vs lab) l = Some L' \<and> bl_heavy L' = bl_heavy L \<and>
           bl_above L' = bl_above L \<and> bl_head L' = bl_head L"
  using assms by (auto simp: after_insert_def Let_def split: list.split)

lemma blist_rep_fresh:
  assumes "blist_rep h l xs" "brk_ok h"
  shows "brk h \<notin> set xs"
  using assms by (metis blist_rep_node brk_ok_def option.distinct(1) order_refl)

lemma after_insert_rep:
  assumes rep: "blist_rep h l (us @ b # vs)" and ok: "brk_ok h" and room: "has_room h b vs"
  defines "lab \<equiv> new_label (label_of (nodes h) b) (nxt_label (nodes h) vs)"
  shows "blist_rep (after_insert h l b vs lab) l (us @ b # brk h # vs)"
proof -
  let ?h = "after_insert h l b vs lab"
  obtain L B where B: "blists h l = Some L" "nodes h b = Some B" "nd_list B = Some l" "node_idle B"
    "nd_prev B = last_opt None us" "lseg (nodes h) l None (bl_head L) (Some b) us"
    "lseg (nodes h) l (Some b) (nd_next B) None vs" "bl_tail L = last_opt (Some b) vs"
    and inc: "labels_inc (nodes h) (us @ b # vs)" and dist: "distinct (us @ b # vs)"
    using blist_rep_at [OF rep] by metis
  have new: "brk h \<notin> set (us @ b # vs)" "nodes h (brk h) = None"
    using blist_rep_fresh [OF rep ok] ok by (auto simp: brk_ok_def)
  have lo: "label_of (nodes h) b < lab"
    unfolding lab_def using room nxt_label_above [OF inc] new_label_above unfolding has_room_def by blast
  have hi: "lab < label_of (nodes h) v" if "v \<in> set vs" for v
  proof -
    from that obtain w ws where vs: "vs = w # ws" by (cases vs) auto
    have "lab < label_of (nodes h) w"
      unfolding lab_def vs nxt_label_def using inc vs by (simp add: new_label_below labels_inc_split)
    moreover have "v = w \<or> label_of (nodes h) w < label_of (nodes h) v"
      using that inc vs by (auto simp: labels_inc_def sorted_wrt_append)
    ultimately show ?thesis by auto
  qed
  have lab: "label_of (nodes ?h) x = (if x = brk h then lab else label_of (nodes h) x)" for x
    by (rule after_insert_labels) (use new dist in auto)
  have keep: "labels_inc (nodes ?h) xs = labels_inc (nodes h) xs" if "brk h \<notin> set xs" for xs
    by (rule labels_inc_cong) (use that lab in auto)
  have "labels_inc (nodes ?h) (us @ b # brk h # vs)"
    unfolding labels_inc_split labels_inc_Cons
    using inc lo hi new(1) keep [of us] keep [of vs] unfolding labels_inc_split
    by (auto simp: lab intro: order.strict_trans)
  moreover have "\<exists>L'. blists ?h l = Some L' \<and> lseg (nodes ?h) l None (bl_head L') None (us @ b # brk h # vs) \<and>
      bl_tail L' = last_opt None (us @ b # brk h # vs)"
  proof (cases vs)
    case Nil
    with B new dist show ?thesis
      by (auto simp: after_insert_def Let_def linked_node_def node_idle_def)
  next
    case (Cons v vs')
    with B obtain V where V: "nodes h v = Some V" by auto
    with Cons B new dist show ?thesis
      by (auto simp: after_insert_def Let_def linked_node_def node_idle_def)
  qed
  ultimately show ?thesis
    by (simp add: blist_rep_def)
qed


lemma blist_rep_owner: "blist_rep h l xs \<Longrightarrow> x \<in> set xs \<Longrightarrow> map_option nd_list (nodes h x) = Some (Some l)"
  by (erule blist_rep_node) auto

lemma blist_rep_disjoint:
  assumes "blist_rep h l xs" "blist_rep h l' ys" "l \<noteq> l'"
  shows "set xs \<inter> set ys = {}"
  using blist_rep_owner [OF assms(1)] blist_rep_owner [OF assms(2)] assms(3) by force

lemma after_insert_other:
  assumes "blist_rep h l (us @ b # vs)" "brk_ok h" "blist_rep h l' ys" "l' \<noteq> l"
  shows "blist_rep (after_insert h l b vs lab) l' ys"
proof -
  have "b \<noteq> brk h" "brk h \<notin> set ys"
    using blist_rep_fresh [OF assms(1,2)] blist_rep_fresh [OF assms(3,2)] by auto
  moreover have "set (us @ b # vs) \<inter> set ys = {}"
    using blist_rep_disjoint [OF assms(1,3)] assms(4) by blast
  ultimately have "blist_rep (after_insert h l b vs lab) l' ys = blist_rep h l' ys"
    by (intro blist_rep_cong) (use assms(4) in \<open>auto intro!: after_insert_frame\<close>)
  with assms(3) show ?thesis by simp
qed

lemma blist_rep_below: "blist_rep h l xs \<Longrightarrow> brk_ok h \<Longrightarrow> x \<in> set xs \<Longrightarrow> x < brk h"
  by (erule blist_rep_node) (auto intro: brk_ok_node)

lemma after_insert_brk_ok:
  assumes "blist_rep h l (us @ b # vs)" "brk_ok h"
  shows "brk_ok (after_insert h l b vs lab)"
  unfolding brk_ok_def
proof (intro allI impI)
  fix a assume a: "brk (after_insert h l b vs lab) \<le> a"
  have b: "b \<noteq> brk h" and bv: "\<forall>x\<in>set (b # vs). x < brk h"
    using blist_rep_below [OF assms] by auto
  obtain L where "blists h l = Some L"
    using blist_rep_at [OF assms(1)] by metis
  then have "l < brk h" by (rule brk_ok_blist [OF assms(2)])
  with a b bv have "a \<noteq> b" "a \<noteq> brk h" "a \<notin> set vs" "a \<noteq> l" "brk h \<le> a"
    by (auto simp: after_insert_frame(3) [OF b])
  then show "nodes (after_insert h l b vs lab) a = None \<and> blists (after_insert h l b vs lab) a = None \<and>
      a \<notin> tls (after_insert h l b vs lab)"
    using assms(2) by (simp add: after_insert_frame [OF b] brk_ok_def)
qed

subsection \<open>The first node\<close>

lemma bl_new_rep:
  assumes "brk_ok h" "bl_new h = (l, h')"
  shows "l = brk h \<and> blist_rep h' l [] \<and> brk_ok h' \<and> nodes h' = nodes h \<and> tls h' = tls h \<and>
         (\<forall>l'. l' \<noteq> l \<longrightarrow> blists h' l' = blists h l')"
  using assms by (auto simp: bl_new_def bl_create_def blist_rep_def labels_inc_def brk_ok_def)

lemma bl_insert_initial_rep:
  assumes "blist_rep h l []" "brk_ok h"
  shows "\<exists>h'. bl_insert_initial l h = Some (brk h, h') \<and> blist_rep h' l [brk h] \<and> brk_ok h' \<and>
           label_of (nodes h') (brk h) = 0 \<and> brk h' = Suc (brk h) \<and> tls h' = tls h \<and>
           (\<forall>x. x \<noteq> brk h \<longrightarrow> nodes h' x = nodes h x) \<and> (\<forall>l'. l' \<noteq> l \<longrightarrow> blists h' l' = blists h l')"
proof -
  obtain L where "blists h l = Some L" "bl_head L = None"
    using assms(1) by (auto simp: blist_rep_def)
  moreover from this(1) have "l < brk h"
    by (rule brk_ok_blist [OF assms(2)])
  ultimately show ?thesis
    using assms(2)
    by (auto simp: bl_insert_initial_def node_new_def insert_internal_def upd_blist_def upd_node_def
        blist_rep_def labels_inc_def node_idle_def brk_ok_def)
qed

subsection \<open>Queries\<close>

lemma bl_precedes_rep:
  assumes "blist_rep h l xs" "i < length xs" "j < length xs"
  shows "bl_precedes h (xs ! i) (xs ! j) = Some (i < j)"
proof -
  obtain a b where ab: "nodes h (xs ! i) = Some a" "nd_list a = Some l"
    "nodes h (xs ! j) = Some b" "nd_list b = Some l"
    using blist_rep_node [OF assms(1)] assms(2,3) by (metis nth_mem)
  have "sorted_wrt (\<lambda>x y. label_of (nodes h) x < label_of (nodes h) y) xs"
    using assms(1) by (simp add: blist_rep_def labels_inc_def)
  then have "label_of (nodes h) (xs ! i) < label_of (nodes h) (xs ! j) \<longleftrightarrow> i < j"
    using assms(2,3) by (intro sorted_wrt_nth_iff) (auto simp: transp_def irreflp_def)
  with ab show ?thesis
    by (simp add: bl_precedes_def)
qed

lemma bl_size_loop_lseg:
  "lseg (nodes h) l pv cur None xs \<Longrightarrow> length xs \<le> fuel \<Longrightarrow>
     bl_size_loop fuel h cur count = Some (count + length xs)"
  by (induction xs arbitrary: fuel pv cur count) (auto simp: Suc_le_eq elim!: less_SucE dest!: gr0_implies_Suc
      less_imp_Suc_add)

lemma bl_size_rep:
  "blist_rep h l xs \<Longrightarrow> length xs \<le> fuel \<Longrightarrow> bl_size fuel h l = Some (length xs)"
  by (auto simp: blist_rep_def bl_size_def bl_size_loop_lseg)

lemma bl_memsize_rep:
  "blist_rep h l xs \<Longrightarrow> length xs \<le> fuel \<Longrightarrow> bl_memsize fuel h l = Some (48 * length xs + 32)"
  by (simp add: bl_memsize_def bl_size_rep sizeof_bl_node_def sizeof_blist_def)

lemma bl_fprint_loop_lseg:
  "lseg (nodes h) l pv cur None xs \<Longrightarrow> length xs \<le> fuel \<Longrightarrow>
     bl_fprint_loop fuel h cur sz =
       Some (List.map (OutLabel \<circ> label_of (nodes h)) xs @ [OutSize (sz + length xs)])"
  by (induction xs arbitrary: fuel pv cur sz) (auto simp: Suc_le_eq dest!: less_imp_Suc_add)

lemma bl_verify_loop_lseg:
  "lseg (nodes h) l pv (Some x) None (x # xs) \<Longrightarrow> labels_inc (nodes h) (x # xs) \<Longrightarrow>
     length xs < fuel \<Longrightarrow> bl_verify_loop fuel h l x = Some (last (x # xs))"
proof (induction xs arbitrary: fuel pv x)
  case Nil
  then show ?case by (cases fuel) auto
next
  case (Cons y ys)
  then obtain f where f: "fuel = Suc f" by (cases fuel) auto
  from Cons.prems have "labels_inc (nodes h) (y # ys)" "x \<noteq> y"
    by (auto simp: labels_inc_Cons)
  with Cons.prems Cons.IH [of "Some x" y f] f show ?case
    by (auto simp: labels_inc_Cons)
qed

lemma bl_verify_rep:
  assumes "blist_rep h l xs" "length xs \<le> fuel" "xs = [] \<Longrightarrow> \<forall>L. blists h l = Some L \<longrightarrow> bl_heavy L = 0"
  shows "bl_verify fuel h l = Some 0"
proof (cases xs)
  case Nil
  with assms show ?thesis by (auto simp: bl_verify_def blist_rep_def)
next
  case (Cons x ys)
  with assms(1) obtain L B where L: "blists h l = Some L" "bl_head L = Some x" "nodes h x = Some B"
    "nd_prev B = None" "bl_tail L = Some (last (x # ys))" "lseg (nodes h) l None (Some x) None (x # ys)"
    "labels_inc (nodes h) (x # ys)"
    by (auto simp: blist_rep_def last_opt_def split: if_splits)
  moreover have "bl_verify_loop fuel h l x = Some (last (x # ys))"
    using bl_verify_loop_lseg [OF L(6,7)] assms(2) Cons by simp
  moreover obtain C where "nodes h (last (x # ys)) = Some C" "nd_list C = Some l" "node_idle C"
    using blist_rep_node [OF assms(1), of "last (x # ys)"] Cons by (metis last_in_set list.distinct(1))
  ultimately show ?thesis
    by (simp add: bl_verify_def)
qed


subsection \<open>Destruction\<close>

lemma bl_destroy_loop_lseg:
  "lseg (nodes h) l (Some p) cur None xs \<Longrightarrow> nodes h p \<noteq> None \<Longrightarrow> distinct (p # xs) \<Longrightarrow>
     length xs \<le> fuel \<Longrightarrow>
     bl_destroy_loop fuel h cur = Some (h\<lparr>nodes := without (nodes h) (set (butlast (p # xs)))\<rparr>)"
proof (induction xs arbitrary: h p cur fuel)
  case Nil
  then show ?case by simp
next
  case (Cons x xs)
  then obtain f where f: "fuel = Suc f" by (cases fuel) auto
  from Cons.prems obtain P X where P: "nodes h p = Some P" "cur = Some x" "nodes h x = Some X"
    "nd_prev X = Some p" "lseg (nodes h) l (Some x) (nd_next X) None xs" "x \<noteq> p" "p \<notin> set xs"
    "distinct (x # xs)"
    by auto
  let ?h = "h\<lparr>nodes := (nodes h)(p := None)\<rparr>"
  have "bl_destroy_loop f ?h (nd_next X) = Some (?h\<lparr>nodes := without (nodes ?h) (set (butlast (x # xs)))\<rparr>)"
  proof (rule Cons.IH)
    show "lseg (nodes ?h) l (Some x) (nd_next X) None xs"
      using P(5,7) by simp
  qed (use P Cons.prems f in auto)
  with P f show ?case
    by (simp add: upd_node_def free_node_def without_upd_None del: butlast.simps) simp
qed

lemma bl_destroy_rep:
  assumes "blist_rep h l xs" "length xs \<le> fuel"
  shows "bl_destroy fuel h l = Some (h\<lparr>nodes := without (nodes h) (set xs)\<rparr>)"
proof (cases xs)
  case Nil
  with assms show ?thesis by (auto simp: bl_destroy_def blist_rep_def)
next
  case (Cons x ys)
  with assms(1) obtain L X where L: "blists h l = Some L" "bl_head L = Some x" "nodes h x = Some X"
    "bl_tail L = Some (last (x # ys))" "lseg (nodes h) l (Some x) (nd_next X) None ys"
    "distinct (x # ys)"
    using blist_rep_distinct [OF assms(1)]
    by (auto simp: blist_rep_def last_opt_def split: if_splits)
  let ?h = "h\<lparr>nodes := without (nodes h) (set (butlast (x # ys)))\<rparr>"
  have loop: "bl_destroy_loop fuel h (nd_next X) = Some ?h"
    by (rule bl_destroy_loop_lseg) (use L assms(2) Cons in auto)
  have notin: "last (x # ys) \<notin> set (butlast (x # ys))"
    using L(6) by (rule last_notin_butlast) simp
  have "nodes h (last (x # ys)) \<noteq> None"
    using blist_rep_node [OF assms(1), of "last (x # ys)"] Cons by (metis last_in_set list.distinct(1) option.distinct(1))
  with notin obtain Z where "nodes ?h (last (x # ys)) = Some Z"
    by (auto simp del: butlast.simps last.simps)
  moreover have "(nodes ?h)(last (x # ys) := None) = without (nodes h) (set (x # ys))"
    by (simp add: without_insert butlast_last_set del: butlast.simps last.simps)
  ultimately show ?thesis
    using L loop Cons by (simp add: bl_destroy_def free_node_def)
qed

lemma bl_free_rep:
  assumes "blist_rep h l xs" "length xs \<le> fuel"
  shows "bl_free fuel h l =
           Some (h\<lparr>nodes := without (nodes h) (set xs), blists := (blists h)(l := None)\<rparr>)"
proof -
  obtain L where L: "blists h l = Some L" "bl_head L = None \<longleftrightarrow> xs = []"
    using assms(1) by (cases xs) (auto simp: blist_rep_def)
  from L bl_destroy_rep [OF assms] show ?thesis
    by (cases xs) (auto simp: bl_free_def free_blist_def)
qed

subsection \<open>How many insertions a gap admits\<close>

text \<open>
  The distance from a node's label to the next one's; after the last node the labels end at
  \<open>MAX_LABEL\<close>, one past which counts as the next label.  An insertion after the node halves it.
\<close>

definition gap :: "bheap \<Rightarrow> nat \<Rightarrow> nat list \<Rightarrow> nat" where
  "gap h b vs = (case nxt_label (nodes h) vs of None \<Rightarrow> 18446744073709551616 | Some c \<Rightarrow> unat c) -
                unat (label_of (nodes h) b)"

lemma has_room_iff:
  assumes "labels_inc (nodes h) (us @ b # vs)"
  shows "has_room h b vs \<longleftrightarrow> 2 \<le> gap h b vs"
proof (cases "nxt_label (nodes h) vs")
  case None
  have "has_room h b vs \<longleftrightarrow> unat (label_of (nodes h) b) \<noteq> 18446744073709551615"
    by (simp add: has_room_def None new_label_full_end_iff u64_eq_unat [symmetric] flip: unat_MAX_LABEL)
  also have "\<dots> \<longleftrightarrow> 2 \<le> 18446744073709551616 - unat (label_of (nodes h) b)"
    using unat_lt64 [of "label_of (nodes h) b"] by linarith
  finally show ?thesis
    by (simp add: gap_def None)
next
  case (Some c)
  with assms have "label_of (nodes h) b < c" by (rule nxt_label_above)
  with Some show ?thesis
    by (auto simp: has_room_def gap_def new_label_full_iff u64_less_unat)
qed

lemma half_of_rest: "(a :: nat) < 2 * M \<Longrightarrow> (2 * M - a) div 2 \<le> (a + (2 * M - 1)) div 2 + 1 - a"
  by linarith

lemma gap_after_insert:
  assumes rep: "blist_rep h l (us @ b # vs)" and ok: "brk_ok h" and room: "has_room h b vs"
  defines "lab \<equiv> new_label (label_of (nodes h) b) (nxt_label (nodes h) vs)"
  shows "gap h b vs div 2 \<le> gap (after_insert h l b vs lab) b (brk h # vs)"
proof -
  have inc: "labels_inc (nodes h) (us @ b # vs)" and dist: "distinct (us @ b # vs)"
    using blist_rep_at [OF rep] by metis+
  have new: "brk h \<notin> set (us @ b # vs)" "nodes h (brk h) = None"
    using blist_rep_fresh [OF rep ok] ok by (auto simp: brk_ok_def)
  have labs: "label_of (nodes (after_insert h l b vs lab)) x =
      (if x = brk h then lab else label_of (nodes h) x)" for x
    by (rule after_insert_labels) (use new dist in auto)
  have g: "gap (after_insert h l b vs lab) b (brk h # vs) = unat lab - unat (label_of (nodes h) b)"
    using new by (auto simp: gap_def nxt_label_def labs)
  have room2: "2 \<le> gap h b vs"
    using room has_room_iff [OF inc] by simp
  let ?a = "unat (label_of (nodes h) b)"
  show ?thesis
  proof (cases "nxt_label (nodes h) vs")
    case None
    with room2 have a: "?a \<noteq> 18446744073709551615" by (simp add: gap_def)
    then have "unat lab = (?a + 18446744073709551615) div 2 + 1"
      unfolding lab_def None new_label_after by (auto simp: u64_eq_unat)
    moreover have "(18446744073709551616 - ?a) div 2 \<le> (?a + 18446744073709551615) div 2 + 1 - ?a"
      using half_of_rest [of ?a 9223372036854775808] unat_lt64 [of "label_of (nodes h) b"] by simp
    ultimately show ?thesis by (simp only: g gap_def [of h] None option.case)
  next
    case (Some c)
    with inc have lt: "label_of (nodes h) b < c" by (rule nxt_label_above)
    from room2 Some have "unat c \<noteq> Suc ?a" by (simp add: gap_def)
    then have "unat lab = (?a + unat c) div 2"
      unfolding lab_def Some new_label_between [OF lt] by simp
    moreover have "(?a + unat c) div 2 - ?a = (unat c - ?a) div 2"
      using lt unfolding u64_less_unat by presburger
    ultimately show ?thesis by (simp only: g gap_def [of h] Some option.case)
  qed
qed

lemma bl_insert_gap:
  assumes rep: "blist_rep h l (us @ b # vs)" and ok: "brk_ok h" and gap: "2 \<le> gap h b vs"
  shows "\<exists>n h'. bl_insert l b h = Some (Some n, h') \<and> blist_rep h' l (us @ b # n # vs) \<and>
     gap h b vs div 2 \<le> gap h' b (n # vs)"
proof -
  have "has_room h b vs" using gap has_room_iff [of h us b vs] rep by (simp add: blist_rep_def)
  from bl_insert_room [OF rep ok this] after_insert_rep [OF rep ok this] gap_after_insert [OF rep ok this]
  show ?thesis by blast
qed

end
