(* ===== verification/Blist_Split.thy ===== *)
theory Blist_Split
  imports Blist
begin

text \<open>
  Relabelling a full list (\<open>rdtool/src/om/blist_split.c\<close>): \<open>split\<close> cuts it into sublists of at most
  \<open>SUBLIST_SIZE\<close> nodes, gives the nodes of each the labels 0, \<open>NODE_INTERVAL\<close>, 2 \<open>NODE_INTERVAL\<close>, ...,
  allocates a node of the tree above for each, and frees the old list but not its nodes.

  The result is the list of pairs (tree node, sublist) that the links of the split nodes make; the
  length of that list is the number the C function returns.
\<close>

subsection \<open>Nodes of the tree above: allocation\<close>

definition tl_node_new :: "bheap \<Rightarrow> nat \<times> bheap" where
  "tl_node_new h = (brk h, h\<lparr>tls := insert (brk h) (tls h), brk := Suc (brk h)\<rparr>)"

definition tl_node_free :: "nat \<Rightarrow> bheap \<Rightarrow> bheap option" where
  "tl_node_free a h = do { check (a \<in> tls h); Some (h\<lparr>tls := tls h - {a}\<rparr>) }"

subsection \<open>The loops of split\<close>

function split_inner :: "nat \<Rightarrow> ptr \<Rightarrow> u64 \<Rightarrow> nat \<Rightarrow> bheap \<Rightarrow> (ptr \<times> bheap) option" where
  "split_inner lst cur lab sz h =
     (case cur of
        None \<Rightarrow> Some (None, h)
      | Some c \<Rightarrow>
          if sz < SUBLIST_SIZE
          then do { nd \<leftarrow> nodes h c;
                    h \<leftarrow> upd_node c (\<lambda>nd. nd\<lparr>nd_label := lab\<rparr>) h;
                    h \<leftarrow> insert_internal lst (nd_prev nd) c h;
                    split_inner lst (nd_next nd) (lab + NODE_INTERVAL) (Suc sz) h }
          else Some (Some c, h))"
  by pat_completeness auto
termination
  by (relation "measure (\<lambda>(_, _, _, sz, _). SUBLIST_SIZE - sz)") auto

declare split_inner.simps [simp del]

fun split_outer :: "nat \<Rightarrow> ptr \<Rightarrow> bheap \<Rightarrow> ((nat \<times> nat) list \<times> bheap) option" where
  "split_outer fuel None h = Some ([], h)"
| "split_outer 0 (Some c) h = None"
| "split_outer (Suc fuel) (Some c) h =
     (let (n, h) = tl_node_new h;
          (lst, h) = bl_new h
      in do { h \<leftarrow> upd_blist lst (\<lambda>L. L\<lparr>bl_above := Some n\<rparr>) h;
              h \<leftarrow> upd_node c (\<lambda>nd. nd\<lparr>nd_prev := None\<rparr>) h;
              (cur, h) \<leftarrow> split_inner lst (Some c) 0 0 h;
              (rest, h) \<leftarrow> split_outer fuel cur h;
              Some ((n, lst) # rest, h) })"

text \<open>\<open>below\<close> reads the field of a tree node, \<open>self->above->below\<close> in the first assertion.\<close>

definition split :: "nat \<Rightarrow> (nat \<Rightarrow> ptr) \<Rightarrow> nat \<Rightarrow> bheap \<Rightarrow> ((nat \<times> nat) list \<times> bheap) option" where
  "split fuel below self h =
     do { L \<leftarrow> blists h self;
          ab \<leftarrow> bl_above L;
          check (below ab = Some self);
          check (bl_head L \<noteq> None);
          (sn, h) \<leftarrow> split_outer fuel (bl_head L) h;
          h \<leftarrow> upd_blist self (\<lambda>L. L\<lparr>bl_head := None, bl_tail := None\<rparr>) h;
          h \<leftarrow> free_blist self h;
          Some (sn, h) }"

subsection \<open>One node moved to the end of a list\<close>

lemma insert_internal_first:
  assumes "blists h lst = Some L" "nodes h n = Some N"
  shows "insert_internal lst None n h =
    Some (h\<lparr>blists := (blists h)(lst \<mapsto> L\<lparr>bl_head := Some n, bl_tail := Some n\<rparr>),
            nodes := (nodes h)(n \<mapsto> N\<lparr>nd_next := None, nd_prev := None, nd_label := 0, nd_list := Some lst\<rparr>)\<rparr>)"
  using assms by (simp add: insert_internal_def upd_blist_def upd_node_def)

lemma insert_internal_last:
  assumes "blists h lst = Some L" "nodes h n = Some N" "nodes h b = Some B" "bl_tail L = Some b"
    "nd_label B < nd_label N" "b \<noteq> n"
  shows "insert_internal lst (Some b) n h =
    Some (h\<lparr>blists := (blists h)(lst \<mapsto> L\<lparr>bl_tail := Some n\<rparr>),
            nodes := (nodes h)(b \<mapsto> B\<lparr>nd_next := Some n\<rparr>,
                               n \<mapsto> N\<lparr>nd_next := None, nd_prev := Some b, nd_list := Some lst\<rparr>)\<rparr>)"
  using assms by (simp add: insert_internal_def upd_blist_def upd_node_def fun_upd_twist)

text \<open>The new sublist, while it is filled: its nodes and their labels.\<close>

definition filled :: "bheap \<Rightarrow> nat \<Rightarrow> nat \<Rightarrow> nat list \<Rightarrow> bool" where
  "filled h lst n xs \<longleftrightarrow>
     (\<exists>L. blists h lst = Some L \<and> bl_above L = Some n \<and> bl_heavy L = 0 \<and>
          lseg (nodes h) lst None (bl_head L) None xs \<and> bl_tail L = last_opt None xs) \<and>
     (\<forall>i<length xs. label_of (nodes h) (xs ! i) = of_nat i * NODE_INTERVAL)"

definition same_but :: "nat set \<Rightarrow> bheap \<Rightarrow> bheap \<Rightarrow> bool" where
  "same_but A h h' \<longleftrightarrow> (\<forall>x. x \<notin> A \<longrightarrow> nodes h' x = nodes h x) \<and> brk h' = brk h \<and> tls h' = tls h"

lemma unat_interval:
  assumes "i < 64"
  shows "unat (of_nat i * NODE_INTERVAL) = i * 288230376151711744"
proof -
  have "unat (of_nat (i * 288230376151711744) :: u64) = i * 288230376151711744"
    using assms by (intro unat_of_nat64) simp
  then show ?thesis
    by (simp only: NODE_INTERVAL_eq of_nat_mult of_nat_numeral)
qed

lemma filled_labels_inc:
  assumes "filled h lst n xs" "length xs \<le> 64"
  shows "labels_inc (nodes h) xs"
proof -
  have "label_of (nodes h) (xs ! i) < label_of (nodes h) (xs ! j)" if "i < j" "j < length xs" for i j
    using that assms by (simp add: filled_def u64_less_unat unat_interval)
  then show ?thesis
    by (simp add: labels_inc_def sorted_wrt_iff_nth_less)
qed

lemma filled_rep: "filled h lst n xs \<Longrightarrow> length xs \<le> 64 \<Longrightarrow> blist_rep h lst xs"
  using filled_labels_inc [of h lst n xs] by (auto simp: filled_def blist_rep_def)


definition first_opt :: "nat list \<Rightarrow> ptr" where
  "first_opt xs = (case xs of [] \<Rightarrow> None | x # _ \<Rightarrow> Some x)"

lemma first_opt_simps [simp]: "first_opt [] = None" "first_opt (x # xs) = Some x"
  by (simp_all add: first_opt_def)

lemma lseg_first: "lseg ns l pv cur None xs \<Longrightarrow> cur = first_opt xs"
  by (cases xs) auto

lemma filled_snoc:
  assumes "lseg ns lst None fst_p None ds" "ns c = Some C" "distinct (ds @ [c])" "ds = us @ [b]" "ns b = Some B"
    "nd_next C = None" "nd_prev C = Some b" "nd_list C = Some lst" "node_idle C"
  shows "lseg (ns(b \<mapsto> B\<lparr>nd_next := Some c\<rparr>)) lst None fst_p None (ds @ [c])"
  using assms by (auto simp: node_idle_def)

lemma split_inner_step:
  assumes sz: "sz < 64" "length ds = sz" and c: "nodes h c = Some nd" "nd_prev nd = last_opt None ds" "node_idle nd"
    and fil: "filled h lst n ds" and dist: "distinct (ds @ [c])"
  shows "\<exists>h'. split_inner lst (Some c) (of_nat sz * NODE_INTERVAL) sz h =
           split_inner lst (nd_next nd) (of_nat (Suc sz) * NODE_INTERVAL) (Suc sz) h' \<and>
         filled h' lst n (ds @ [c]) \<and> same_but (set (ds @ [c])) h h' \<and>
         (\<forall>l. l \<noteq> lst \<longrightarrow> blists h' l = blists h l)"
proof -
  let ?lab = "of_nat sz * NODE_INTERVAL"
  let ?nd = "nd\<lparr>nd_label := ?lab\<rparr>"
  let ?h = "h\<lparr>nodes := (nodes h)(c \<mapsto> ?nd)\<rparr>"
  obtain L where L: "blists h lst = Some L" "bl_above L = Some n" "bl_heavy L = 0"
    "lseg (nodes h) lst None (bl_head L) None ds" "bl_tail L = last_opt None ds"
    and labs: "\<And>i. i < sz \<Longrightarrow> label_of (nodes h) (ds ! i) = of_nat i * NODE_INTERVAL"
    using fil sz by (auto simp: filled_def)
  show ?thesis
  proof (cases ds rule: rev_cases)
    case Nil
    with sz c L show ?thesis
      by (subst split_inner.simps)
         (auto simp: SUBLIST_SIZE_def upd_node_def insert_internal_first filled_def same_but_def
           node_idle_def label_of_def intro!: exI)
  next
    case (snoc us b)
    then have "b \<in> set ds" and ne: "b \<noteq> c" using dist by auto
    with L(4) obtain B where B: "nodes h b = Some B" "nd_list B = Some lst"
      using lseg_allocated by metis
    have "nd_label B = of_nat (length us) * NODE_INTERVAL"
      using labs [of "length us"] B snoc sz(2) by (simp add: nth_append)
    moreover have "length us < sz" using sz snoc by simp
    ultimately have lt: "nd_label B < nd_label ?nd"
      using sz(1) by (simp add: u64_less_unat unat_interval)
    let ?C = "?nd\<lparr>nd_next := None, nd_prev := Some b, nd_list := Some lst\<rparr>"
    let ?h' = "?h\<lparr>blists := (blists h)(lst \<mapsto> L\<lparr>bl_tail := Some c\<rparr>),
                 nodes := ((nodes h)(c \<mapsto> ?C))(b \<mapsto> B\<lparr>nd_next := Some c\<rparr>)\<rparr>"
    have ins: "insert_internal lst (Some b) c ?h = Some ?h'"
      by (subst insert_internal_last [where L = L and N = ?nd and B = B])
         (use L snoc B ne lt in \<open>auto simp: fun_upd_twist\<close>)
    have run: "split_inner lst (Some c) ?lab sz h =
        split_inner lst (nd_next nd) (of_nat (Suc sz) * NODE_INTERVAL) (Suc sz) ?h'"
      by (subst split_inner.simps)
         (use sz c snoc ins in \<open>simp add: SUBLIST_SIZE_def upd_node_def algebra_simps\<close>)
    have "lseg (nodes ?h') lst None (bl_head L) None (ds @ [c])"
      using filled_snoc [of "(nodes h)(c \<mapsto> ?C)" lst "bl_head L" ds c ?C us b B] L(4) dist snoc B ne c(3)
      by (simp add: node_idle_def)
    moreover have "label_of (nodes ?h') ((ds @ [c]) ! i) = of_nat i * NODE_INTERVAL" if "i < Suc sz" for i
    proof (cases "i = sz")
      case True
      then show ?thesis using sz(2) ne by (simp add: nth_append label_of_def)
    next
      case False
      with that have i: "i < sz" by simp
      have "label_of (nodes ?h') x = label_of (nodes h) x" if "x \<noteq> c" for x
        using that B by (simp add: label_of_def)
      moreover have "ds ! i \<noteq> c" using i sz(2) dist by (metis distinct_append disjoint_insert(1) list.simps(15) nth_mem)
      ultimately show ?thesis using labs [OF i] i sz(2) by (simp add: nth_append)
    qed
    ultimately have "filled ?h' lst n (ds @ [c])"
      using L sz(2) by (simp add: filled_def)
    with run show ?thesis
      using snoc by (auto simp: same_but_def intro!: exI [of _ ?h'])
  qed
qed


lemma same_but_mono: "same_but A h h' \<Longrightarrow> A \<subseteq> B \<Longrightarrow> same_but B h h'"
  by (auto simp: same_but_def)

lemma same_but_trans: "same_but A h h' \<Longrightarrow> same_but A h' h'' \<Longrightarrow> same_but A h h''"
  by (auto simp: same_but_def)

lemma lseg_congD:
  "lseg ns l pv cur nx xs \<Longrightarrow> \<forall>x\<in>set xs. ns' x = ns x \<Longrightarrow> lseg ns' l pv cur nx xs"
  using lseg_cong [of xs ns' ns] by blast

lemma split_inner_run:
  "filled h lst n ds \<Longrightarrow> lseg (nodes h) l0 (last_opt None ds) cur None rest \<Longrightarrow> distinct (ds @ rest) \<Longrightarrow>
   length ds = sz \<Longrightarrow> sz \<le> 64 \<Longrightarrow>
   \<exists>h'. split_inner lst cur (of_nat sz * NODE_INTERVAL) sz h = Some (first_opt (drop (64 - sz) rest), h') \<and>
     filled h' lst n (ds @ take (64 - sz) rest) \<and> same_but (set (ds @ take (64 - sz) rest)) h h' \<and>
     (\<forall>l. l \<noteq> lst \<longrightarrow> blists h' l = blists h l)"
proof (induction rest arbitrary: ds cur sz h)
  case Nil
  then show ?case
    by (subst split_inner.simps) (auto simp: same_but_def)
next
  case (Cons c rest)
  from Cons.prems obtain nd where c: "cur = Some c" "nodes h c = Some nd" "nd_prev nd = last_opt None ds"
    "node_idle nd" "lseg (nodes h) l0 (Some c) (nd_next nd) None rest"
    by auto
  show ?case
  proof (cases "sz < 64")
    case False
    with Cons.prems c(1) show ?thesis
      by (subst split_inner.simps) (auto simp: same_but_def SUBLIST_SIZE_def)
  next
    case True
    then obtain h1 where step: "split_inner lst (Some c) (of_nat sz * NODE_INTERVAL) sz h =
           split_inner lst (nd_next nd) (of_nat (Suc sz) * NODE_INTERVAL) (Suc sz) h1"
      "filled h1 lst n (ds @ [c])" "same_but (set (ds @ [c])) h h1" "\<forall>l. l \<noteq> lst \<longrightarrow> blists h1 l = blists h l"
      using split_inner_step [OF True Cons.prems(4) c(2-4) Cons.prems(1)] Cons.prems(3) by auto
    have "lseg (nodes h1) l0 (Some c) (nd_next nd) None rest"
    proof (rule lseg_congD [OF c(5)], intro ballI)
      fix x assume "x \<in> set rest"
      then have "x \<notin> set (ds @ [c])" using Cons.prems(3) by auto
      then show "nodes h1 x = nodes h x" using step(3) by (simp add: same_but_def)
    qed
    with Cons.IH [of h1 "ds @ [c]" "nd_next nd" "Suc sz"] step(2) Cons.prems(3,4) True
    obtain h' where h': "split_inner lst (nd_next nd) (of_nat (Suc sz) * NODE_INTERVAL) (Suc sz) h1 =
        Some (first_opt (drop (64 - Suc sz) rest), h')"
      "filled h' lst n ((ds @ [c]) @ take (64 - Suc sz) rest)"
      "same_but (set ((ds @ [c]) @ take (64 - Suc sz) rest)) h1 h'" "\<forall>l. l \<noteq> lst \<longrightarrow> blists h' l = blists h1 l"
      by auto
    have eq: "64 - sz = Suc (64 - Suc sz)" using True by simp
    have "same_but (set ((ds @ [c]) @ take (64 - Suc sz) rest)) h h1"
      by (rule same_but_mono [OF step(3)]) auto
    then have "same_but (set ((ds @ [c]) @ take (64 - Suc sz) rest)) h h'"
      using h'(3) by (rule same_but_trans)
    with h' step c(1) show ?thesis
      by (auto simp: eq)
  qed
qed

subsection \<open>The whole split\<close>

text \<open>The order cut into pieces of at most \<open>k\<close>.\<close>

function chunks :: "nat \<Rightarrow> 'a list \<Rightarrow> 'a list list" where
  "chunks k xs = (if xs = [] \<or> k = 0 then [] else take k xs # chunks k (drop k xs))"
  by pat_completeness auto
termination
  by (relation "measure (\<lambda>(_, xs). length xs)") auto

declare chunks.simps [simp del]

lemma chunks_Nil [simp]: "chunks k [] = []"
  by (simp add: chunks.simps)

lemma chunks_step: "xs \<noteq> [] \<Longrightarrow> 0 < k \<Longrightarrow> chunks k xs = take k xs # chunks k (drop k xs)"
  by (simp add: chunks.simps)

lemma concat_chunks: "0 < k \<Longrightarrow> concat (chunks k xs) = xs"
proof (induction k xs rule: chunks.induct)
  case (1 k xs)
  then show ?case
    by (cases "xs = []") (simp_all add: chunks_step)
qed

lemma chunks_sizes: "c \<in> set (chunks k xs) \<Longrightarrow> c \<noteq> [] \<and> length c \<le> k"
proof (induction k xs rule: chunks.induct)
  case (1 k xs)
  then show ?case
    by (cases "xs = [] \<or> k = 0") (auto simp: chunks.simps [of k xs])
qed

lemma length_chunks: "0 < k \<Longrightarrow> length (chunks k xs) = (length xs + k - 1) div k"
proof (induction k xs rule: chunks.induct)
  case (1 k xs)
  show ?case
  proof (cases "xs = []")
    case False
    have suc: "(length xs + k - Suc 0) div k = Suc ((length xs - 1) div k)"
      using False 1(2) by (cases "length xs") (simp_all add: div_add_self2)
    show ?thesis
    proof (cases "k \<le> length xs")
      case True
      have "length (chunks k (drop k xs)) = (length (drop k xs) + k - 1) div k"
        using 1 False by simp
      also have "length (drop k xs) + k - 1 = length xs - 1"
        using True by simp
      finally show ?thesis
        using False 1(2) by (simp add: suc chunks_step)
    next
      case F: False
      then show ?thesis
        using False 1(2) by (simp add: suc chunks_step)
    qed
  qed (use 1(2) in \<open>simp\<close>)
qed


lemma filled_cong:
  assumes "filled h lst n xs" "\<forall>x\<in>set xs. nodes h' x = nodes h x" "blists h' lst = blists h lst"
  shows "filled h' lst n xs"
  using assms lseg_congD [of "nodes h" lst None _ None xs "nodes h'"]
  by (auto simp: filled_def label_of_def)

text \<open>What \<open>split_outer\<close> has made of the nodes \<open>rest\<close>.\<close>

definition cut_up :: "bheap \<Rightarrow> nat list \<Rightarrow> (nat \<times> nat) list \<Rightarrow> bheap \<Rightarrow> bool" where
  "cut_up h rest sn h' \<longleftrightarrow>
     list_all2 (\<lambda>(a, b) c. filled h' b a c) sn (chunks 64 rest) \<and>
     (\<forall>(a, b)\<in>set sn. brk h \<le> a \<and> a < brk h' \<and> brk h \<le> b \<and> b < brk h') \<and>
     distinct (map fst sn) \<and> distinct (map snd sn) \<and>
     tls h' = tls h \<union> fst ` set sn \<and> brk h \<le> brk h' \<and> brk_ok h' \<and>
     (\<forall>x. x \<notin> set rest \<longrightarrow> nodes h' x = nodes h x) \<and>
     (\<forall>l. l \<notin> snd ` set sn \<longrightarrow> blists h' l = blists h l)"

lemma cut_up_Nil: "brk_ok h \<Longrightarrow> cut_up h [] [] h"
  by (simp add: cut_up_def)

lemma cut_up_Cons:
  assumes tk: "rest \<noteq> []" and ok: "brk_ok h" and below: "\<forall>x\<in>set rest. x < brk h" and dist: "distinct rest"
    and fil: "filled h2 (Suc (brk h)) (brk h) (take 64 rest)"
    and h2: "brk h2 = Suc (Suc (brk h))" "tls h2 = insert (brk h) (tls h)" "brk_ok h2"
      "\<forall>x. x \<notin> set (take 64 rest) \<longrightarrow> nodes h2 x = nodes h x"
      "\<forall>l. l \<noteq> Suc (brk h) \<longrightarrow> blists h2 l = blists h l"
    and IH: "cut_up h2 (drop 64 rest) sn h'"
  shows "cut_up h rest ((brk h, Suc (brk h)) # sn) h'"
proof -
  have disj: "set (take 64 rest) \<inter> set (drop 64 rest) = {}"
    using dist by (metis append_take_drop_id distinct_append)
  have sub: "set (take 64 rest) \<subseteq> set rest" "set (drop 64 rest) \<subseteq> set rest"
    by (auto dest: in_set_takeD in_set_dropD)
  have new: "Suc (Suc (brk h)) \<le> a \<and> a < brk h' \<and> Suc (Suc (brk h)) \<le> b \<and> b < brk h'" if "(a, b) \<in> set sn" for a b
    using IH that h2(1) by (auto simp: cut_up_def)
  have le: "Suc (Suc (brk h)) \<le> brk h'" 
    using IH h2(1) by (simp add: cut_up_def)
  have fr: "brk h \<notin> fst ` set sn" "Suc (brk h) \<notin> snd ` set sn" "brk h \<notin> snd ` set sn"
    using new by force+
  have "filled h' (Suc (brk h)) (brk h) (take 64 rest)"
  proof (rule filled_cong [OF fil])
    show "\<forall>x\<in>set (take 64 rest). nodes h' x = nodes h2 x"
      using IH disj by (auto simp: cut_up_def)
    show "blists h' (Suc (brk h)) = blists h2 (Suc (brk h))"
      using IH fr by (simp add: cut_up_def)
  qed
  moreover have "\<forall>x. x \<notin> set rest \<longrightarrow> nodes h' x = nodes h x"
    using IH h2(4) sub unfolding cut_up_def by (metis subsetD)
  moreover have "\<forall>l. l \<noteq> Suc (brk h) \<and> l \<notin> snd ` set sn \<longrightarrow> blists h' l = blists h l"
    using IH h2(5) by (auto simp: cut_up_def)
  moreover have "\<forall>(a, b)\<in>set ((brk h, Suc (brk h)) # sn). brk h \<le> a \<and> a < brk h' \<and> brk h \<le> b \<and> b < brk h'"
    using new le by fastforce
  ultimately show ?thesis
    using IH h2(2) fr le unfolding cut_up_def by (simp add: chunks_step [OF tk])
qed

lemma split_outer_run:
  "brk_ok h \<Longrightarrow> lseg (nodes h) l0 pv cur None rest \<Longrightarrow> distinct rest \<Longrightarrow> length rest \<le> fuel \<Longrightarrow>
     \<exists>sn h'. split_outer fuel cur h = Some (sn, h') \<and> cut_up h rest sn h'"
proof (induction fuel arbitrary: h pv cur rest)
  case 0
  then show ?case by (auto simp: cut_up_Nil)
next
  case (Suc fuel)
  show ?case
  proof (cases rest)
    case Nil
    with Suc.prems show ?thesis by (auto simp: cut_up_Nil)
  next
    case (Cons c cs)
    with Suc.prems obtain nd where c: "cur = Some c" "nodes h c = Some nd" "nd_list nd = Some l0" "node_idle nd"
      "lseg (nodes h) l0 (Some c) (nd_next nd) None cs" by auto
    let ?n = "brk h" and ?lst = "Suc (brk h)"
    let ?h1 = "h\<lparr>tls := insert ?n (tls h), brk := Suc (Suc (brk h)),
                 blists := (blists h)(?lst \<mapsto> bl_create\<lparr>bl_above := Some ?n\<rparr>),
                 nodes := (nodes h)(c \<mapsto> nd\<lparr>nd_prev := None\<rparr>)\<rparr>"
    have below: "\<forall>x\<in>set rest. x < brk h"
      using Suc.prems(1,2) by (metis brk_ok_node lseg_allocated)
    have ne: "rest \<noteq> []" using Cons by simp
    have fil1: "filled ?h1 ?lst ?n []"
      by (simp add: filled_def bl_create_def)
    have lseg1: "lseg (nodes ?h1) l0 (last_opt None []) (Some c) None rest"
      using Cons c Suc.prems(3) by (auto simp: node_idle_def)
    from split_inner_run [OF fil1 lseg1, of 0] Suc.prems(3)
    obtain h2 where h2: "split_inner ?lst (Some c) 0 0 ?h1 = Some (first_opt (drop 64 rest), h2)"
      "filled h2 ?lst ?n (take 64 rest)" "same_but (set (take 64 rest)) ?h1 h2"
      "\<forall>l. l \<noteq> ?lst \<longrightarrow> blists h2 l = blists ?h1 l"
      by auto
    have ctake: "c \<in> set (take 64 rest)" using Cons by simp
    have nodes2: "\<forall>x. x \<notin> set (take 64 rest) \<longrightarrow> nodes h2 x = nodes h x"
      using h2(3) ctake by (auto simp: same_but_def)
    have brk2: "brk h2 = Suc (Suc (brk h))" "tls h2 = insert ?n (tls h)"
      using h2(3) by (auto simp: same_but_def)
    have "x < brk h" if "x \<in> set (take 64 rest)" for x
      using that below in_set_takeD by fast
    then have "a \<notin> set (take 64 rest)" if "brk h2 \<le> a" for a
      using that brk2(1) by fastforce
    then have ok2: "brk_ok h2"
      using Suc.prems(1) nodes2 brk2 h2(4) unfolding brk_ok_def by (auto simp: Suc_le_eq)
    have "lseg (nodes ?h1) l0 None (Some c) None (take 64 rest @ drop 64 rest)"
      using lseg1 by simp
    then obtain pv' mid where "lseg (nodes ?h1) l0 pv' mid None (drop 64 rest)" 
      unfolding lseg_append by blast
    then have "lseg (nodes ?h1) l0 pv' (first_opt (drop 64 rest)) None (drop 64 rest)"
      using lseg_first by blast
    then have lseg2: "lseg (nodes h2) l0 pv' (first_opt (drop 64 rest)) None (drop 64 rest)"
    proof (rule lseg_congD, intro ballI)
      fix x assume "x \<in> set (drop 64 rest)"
      then have "x \<notin> set (take 64 rest)"
        using Suc.prems(3) by (metis append_take_drop_id disjoint_iff distinct_append)
      then show "nodes h2 x = nodes ?h1 x" using h2(3) by (simp add: same_but_def)
    qed
    have dd: "distinct (drop 64 rest)" "length (drop 64 rest) \<le> fuel"
      using Suc.prems(3,4) Cons by auto
    obtain sn h' where IH: "split_outer fuel (first_opt (drop 64 rest)) h2 = Some (sn, h')"
      "cut_up h2 (drop 64 rest) sn h'"
      using Suc.IH [OF ok2 lseg2 dd] by blast
    have "cut_up h rest ((?n, ?lst) # sn) h'"
      by (rule cut_up_Cons [OF ne Suc.prems(1) below Suc.prems(3) h2(2) brk2 ok2 nodes2 _ IH(2)])
         (use h2(4) in simp)
    moreover have "split_outer (Suc fuel) cur h = Some ((?n, ?lst) # sn, h')"
      using c h2(1) IH(1) by (simp add: tl_node_new_def bl_new_def upd_blist_def upd_node_def)
    ultimately show ?thesis by blast
  qed
qed


text \<open>
  \<open>split\<close> on a list that is linked to the node above it: the sublists, in order, hold the nodes of
  the list in order, the list itself is freed, and no other list is touched.
\<close>

theorem split_rep:
  assumes rep: "blist_rep h l xs" and ok: "brk_ok h" and ne: "xs \<noteq> []" and fuel: "length xs \<le> fuel"
    and ab: "blists h l = Some L" "bl_above L = Some a" "below a = Some l"
  shows "\<exists>sn h'. split fuel below l h = Some (sn, h') \<and>
     list_all2 (\<lambda>(a, b) c. filled h' b a c) sn (chunks 64 xs) \<and>
     (\<forall>(a, b)\<in>set sn. brk h \<le> a \<and> a < brk h' \<and> brk h \<le> b \<and> b < brk h') \<and>
     distinct (map fst sn) \<and> distinct (map snd sn) \<and>
     tls h' = tls h \<union> fst ` set sn \<and> brk h \<le> brk h' \<and> brk_ok h' \<and>
     (\<forall>x. x \<notin> set xs \<longrightarrow> nodes h' x = nodes h x) \<and>
     (\<forall>l'. l' \<noteq> l \<and> l' \<notin> snd ` set sn \<longrightarrow> blists h' l' = blists h l') \<and> blists h' l = None"
proof -
  have ls: "lseg (nodes h) l None (bl_head L) None xs" and hd: "bl_head L \<noteq> None"
    using rep ab(1) ne by (cases xs; auto simp: blist_rep_def)+
  obtain sn h1 where run: "split_outer fuel (bl_head L) h = Some (sn, h1)" and cut: "cut_up h xs sn h1"
    using split_outer_run [OF ok ls blist_rep_distinct [OF rep] fuel] by blast
  have "l < brk h" by (rule brk_ok_blist [OF ok ab(1)])
  then have nl: "l \<notin> snd ` set sn" using cut by (fastforce simp: cut_up_def)
  then have L1: "blists h1 l = Some L" using cut ab(1) by (simp add: cut_up_def)
  let ?h' = "h1\<lparr>blists := (blists h1)(l := None)\<rparr>"
  have "split fuel below l h = Some (sn, ?h')"
    using ab hd run L1 by (simp add: split_def upd_blist_def free_blist_def)
  moreover have "list_all2 (\<lambda>(a, b) c. filled ?h' b a c) sn (chunks 64 xs)"
  proof (rule list.rel_mono_strong)
    show "list_all2 (\<lambda>(a, b) c. filled h1 b a c) sn (chunks 64 xs)"
      using cut by (simp add: cut_up_def)
    fix p c assume p: "p \<in> set sn" and f: "(case p of (a, b) \<Rightarrow> \<lambda>c. filled h1 b a c) c"
    have "snd p \<noteq> l" using nl p by force
    with f show "(case p of (a, b) \<Rightarrow> \<lambda>c. filled ?h' b a c) c"
      by (auto simp: case_prod_unfold intro: filled_cong)
  qed
  ultimately show ?thesis
    using cut unfolding cut_up_def by (intro exI [of _ sn] exI [of _ ?h']) (auto simp: brk_ok_def)
qed

end
