(* ===== verification/Om_Tree.thy ===== *)
theory Om_Tree
  imports Blist_Split Complex_Main
begin

text \<open>
  The tree over the lists and its relabelling (\<open>rdtool/src/om/om_relabel.c\<close>, and the node helpers of
  \<open>om.c\<close>).

  A tree node is reached only through its parent, so the tree is a datatype.  The constructors are
  the uses of the union in \<open>struct tl_node_s\<close>: a leaf with its list (\<open>below\<close>), a leaf whose list has been
  split (\<open>split_nodes\<close>, the linked nodes as a list), an internal node (\<open>left\<close>, \<open>right\<close>).  Every node keeps
  its address, because lists point to leaves (\<open>above\<close>) and relabelling frees nodes.  What the code reads
  through \<open>parent\<close> is passed down as an argument.  The parallel loops and calls run in program
  order.

  \<open>capacity\<close> shifts the \<open>int\<close> 1 by up to 63: undefined from 31 on.  The shift is a parameter, \<open>shl\<close>.
  The floating-point comparison of \<open>too_heavy\<close> is made on rational numbers, with the infinities of a division
  by 0 written out; rounding is not modelled.
\<close>

subsection \<open>Data\<close>

record tl_hdr =
  tl_label :: u64
  tl_level :: nat
  tl_num_leaves :: u64
  tl_needs :: bool

datatype tl =
    Leaf nat tl_hdr nat
  | SplitLeaf nat tl_hdr "(nat \<times> nat) list"
  | Node nat tl_hdr tl tl

fun hdr :: "tl \<Rightarrow> tl_hdr" where
  "hdr (Leaf a hr b) = hr"
| "hdr (SplitLeaf a hr sn) = hr"
| "hdr (Node a hr l r) = hr"

fun upd_hdr :: "(tl_hdr \<Rightarrow> tl_hdr) \<Rightarrow> tl \<Rightarrow> tl" where
  "upd_hdr f (Leaf a hr b) = Leaf a (f hr) b"
| "upd_hdr f (SplitLeaf a hr sn) = SplitLeaf a (f hr) sn"
| "upd_hdr f (Node a hr l r) = Node a (f hr) l r"

fun addr :: "tl \<Rightarrow> nat" where
  "addr (Leaf a hr b) = a"
| "addr (SplitLeaf a hr sn) = a"
| "addr (Node a hr l r) = a"

text \<open>What a node reads of its parent.\<close>

record tl_parent =
  par_label :: u64
  par_level :: nat
  par_root :: bool
  par_right :: bool

subsection \<open>Helpers\<close>

fun is_leaf :: "tl \<Rightarrow> bool" where
  "is_leaf (Node a hr l r) \<longleftrightarrow> tl_level hr = MAX_LEVEL"
| "is_leaf _ \<longleftrightarrow> True"

definition range_right :: "u64 \<Rightarrow> u64" where
  "range_right lab = lab"

text \<open>\<open>MAX_LABEL\<close> is shifted left, then right as a signed number, which keeps the sign.\<close>

definition range_left :: "bool \<Rightarrow> u64 \<Rightarrow> nat \<Rightarrow> u64" where
  "range_left is_root label level =
     (if is_root then 0
      else let lab = push_bit (MAX_LEVEL - 1) MAX_LABEL;
               lab = signed_drop_bit (level - 1) lab
           in lab AND range_right label)"

definition height_of :: "nat \<Rightarrow> nat" where
  "height_of level = MAX_LEVEL - level"

definition capacity :: "(nat \<Rightarrow> u64) \<Rightarrow> tl_hdr \<Rightarrow> u64" where
  "capacity shl hr = (if tl_level hr = 0 then MAX_LABEL else shl (height_of (tl_level hr)))"

text \<open>\<open>None\<close> is infinity.\<close>

definition density :: "(nat \<Rightarrow> u64) \<Rightarrow> tl_hdr \<Rightarrow> rat option" where
  "density shl hr =
     (if capacity shl hr = 0 then None
      else Some (of_nat (unat (tl_num_leaves hr)) / of_nat (unat (capacity shl hr))))"

definition heavy_threshold :: "tl_hdr \<Rightarrow> nat \<Rightarrow> rat option" where
  "heavy_threshold hr height =
     (if height = 0 then None else Some (3/4 + 1/4 * (of_nat (tl_level hr) / of_nat height)))"

definition too_heavy :: "(nat \<Rightarrow> u64) \<Rightarrow> tl_hdr \<Rightarrow> nat \<Rightarrow> bool" where
  "too_heavy shl hr height =
     (if \<not> tl_needs hr then False
      else (case (density shl hr, heavy_threshold hr height) of
              (Some d, Some t) \<Rightarrow> d \<ge> t
            | (Some d, None) \<Rightarrow> False
            | (None, _) \<Rightarrow> True))"

fun fast_log2 :: "nat \<Rightarrow> nat" where
  "fast_log2 x = (if x < 2 then 0 else Suc (fast_log2 (x div 2)))"

declare fast_log2.simps [simp del]

definition fast_log2_ceil :: "(nat \<Rightarrow> u64) \<Rightarrow> nat \<Rightarrow> nat" where
  "fast_log2_ceil shl x =
     (if (of_nat x :: u64) - shl (fast_log2 x) \<noteq> 0 then fast_log2 x + 1 else fast_log2 x)"

subsection \<open>Collecting the leaves\<close>

definition free_if :: "bool \<Rightarrow> nat \<Rightarrow> bheap \<Rightarrow> bheap option" where
  "free_if c a h = (if c then tl_node_free a h else Some h)"

text \<open>
  The entries \<open>left_index\<close> to \<open>right_index - 1\<close> of the array, in order.  A leaf that counts several leaves reads
  \<open>split_nodes\<close>; where the union holds the other member the model stops.
\<close>

fun build_array_of_leaves :: "tl \<Rightarrow> nat \<Rightarrow> nat \<Rightarrow> bheap \<Rightarrow> ((nat \<times> nat) list \<times> bheap) option" where
  "build_array_of_leaves (Leaf a hr b) left_index right_index h =
     do { check (tl_num_leaves hr = 1);
          check (left_index + 1 = right_index);
          h \<leftarrow> free_if (tl_needs hr) a h;
          Some ([(a, b)], h) }"
| "build_array_of_leaves (SplitLeaf a hr sn) left_index right_index h =
     do { check (tl_num_leaves hr \<noteq> 1);
          check (left_index + length sn = right_index);
          h \<leftarrow> free_if (tl_needs hr) a h;
          Some (sn, h) }"
| "build_array_of_leaves (Node a hr l r) left_index right_index h =
     do { check (tl_level hr \<noteq> MAX_LEVEL);
          let mid = left_index + unat (tl_num_leaves (hdr l));
          (xs, h) \<leftarrow> build_array_of_leaves l left_index mid h;
          (ys, h) \<leftarrow> build_array_of_leaves r mid right_index h;
          h \<leftarrow> free_if (tl_needs hr) a h;
          Some (xs @ ys, h) }"

subsection \<open>Building the balanced tree\<close>

text \<open>Without an entry the recursion of the code does not end; the model stops.\<close>

function rebuild_recursive ::
  "nat \<Rightarrow> (nat \<times> nat) list \<Rightarrow> nat \<Rightarrow> nat \<Rightarrow> u64 \<Rightarrow> u64 \<Rightarrow> bheap \<Rightarrow> (tl \<times> bheap) option" where
  "rebuild_recursive parent_level array lindex rindex llab rlab h =
     (let size' = rindex - lindex in
      if size' = 0 \<or> length array < rindex then None
      else if size' = 1 then
        do { check (llab \<le> rlab);
             let (a, b) = array ! lindex;
             Some (Leaf a \<lparr>tl_label = llab, tl_level = MAX_LEVEL, tl_num_leaves = 1, tl_needs = False\<rparr> b, h) }
      else
        let (n, h) = tl_node_new h in
        do { check (llab \<le> rlab);
             let level = parent_level + 1;
             let mindex = lindex + (size' - size' div 2);
             let mlab = llab + ((rlab - llab) div 2 + 1) - 1;
             (l, h) \<leftarrow> rebuild_recursive level array lindex mindex llab mlab h;
             (r, h) \<leftarrow> rebuild_recursive level array mindex rindex (mlab + 1) rlab h;
             check (rlab mod 2 = 1);
             Some (Node n \<lparr>tl_label = rlab, tl_level = level, tl_num_leaves = of_nat size',
                           tl_needs = False\<rparr> l r, h) })"
  by pat_completeness auto
termination
  by (relation "measure (\<lambda>(_, _, l, r, _). r - l)") auto

declare rebuild_recursive.simps [simp del]

text \<open>The label and level of the rebuilt node: a split leaf becomes an internal node.\<close>

definition rebuilt_hdr :: "tl_parent option \<Rightarrow> tl \<Rightarrow> tl_hdr" where
  "rebuilt_hdr par n =
     (case n of
        Node a hr l r \<Rightarrow> hr
      | _ \<Rightarrow>
        (case par of
           None \<Rightarrow> (hdr n)\<lparr>tl_level := 0, tl_label := MAX_LABEL\<rparr>
         | Some p \<Rightarrow>
             let left = range_left (par_root p) (par_label p) (par_level p);
                 lab = (if par_right p then par_label p
                        else (range_right (par_label p) - left) div 2 + left)
             in (hdr n)\<lparr>tl_label := lab, tl_level := par_level p + 1\<rparr>))"

definition rebuild :: "tl_parent option \<Rightarrow> tl \<Rightarrow> bheap \<Rightarrow> (tl \<times> bheap) option" where
  "rebuild par n h =
     do { let array_size = unat (tl_num_leaves (hdr n));
          (array, h) \<leftarrow> build_array_of_leaves n 0 array_size h;
          let hr = rebuilt_hdr par n;
          let llab = range_left (par = None) (tl_label hr) (tl_level hr);
          let rlab = tl_label hr;
          check (rlab mod 2 = 1);
          let mindex = array_size - array_size div 2;
          let mlab = llab + ((rlab - llab) div 2 + 1) - 1;
          (l, h) \<leftarrow> rebuild_recursive (tl_level hr) array 0 mindex llab mlab h;
          (r, h) \<leftarrow> rebuild_recursive (tl_level hr) array mindex array_size (mlab + 1) rlab h;
          Some (Node (addr n) hr l r, h) }"

subsection \<open>Finding the subtrees to rebuild\<close>

definition child_of :: "tl_parent option \<Rightarrow> tl_hdr \<Rightarrow> bool \<Rightarrow> tl_parent" where
  "child_of par hr right =
     \<lparr>par_label = tl_label hr, par_level = tl_level hr, par_root = (par = None), par_right = right\<rparr>"

fun rebalance :: "(nat \<Rightarrow> u64) \<Rightarrow> tl_parent option \<Rightarrow> tl \<Rightarrow> nat \<Rightarrow> bheap \<Rightarrow> (tl \<times> bheap) option" where
  "rebalance shl par (Node a hr l r) height h =
     (if \<not> tl_needs hr then Some (Node a hr l r, h)
      else let hr = hr\<lparr>tl_needs := False\<rparr> in
        if is_leaf (Node a hr l r) then rebuild par (Node a hr l r) h
        else do { check (capacity shl hr \<ge> tl_num_leaves hr);
                  if too_heavy shl (hdr l) height \<or> too_heavy shl (hdr r) height
                  then rebuild par (Node a hr l r) h
                  else do { (l, h) \<leftarrow> rebalance shl (Some (child_of par hr False)) l height h;
                            (r, h) \<leftarrow> rebalance shl (Some (child_of par hr True)) r height h;
                            Some (Node a hr l r, h) } })"
| "rebalance shl par n height h =
     (if \<not> tl_needs (hdr n) then Some (n, h)
      else rebuild par (upd_hdr (\<lambda>hr. hr\<lparr>tl_needs := False\<rparr>) n) h)"

subsection \<open>Marking the path to a split leaf\<close>

fun find_leaf :: "nat \<Rightarrow> tl \<Rightarrow> tl option" where
  "find_leaf a (Node a' hr l r) =
     (case find_leaf a l of Some n \<Rightarrow> Some n | None \<Rightarrow> find_leaf a r)"
| "find_leaf a n = (if addr n = a then Some n else None)"

definition bump :: "nat \<Rightarrow> tl_hdr \<Rightarrow> tl_hdr" where
  "bump k hr = hr\<lparr>tl_num_leaves := tl_num_leaves hr + (of_nat k - 1), tl_needs := True\<rparr>"

text \<open>The loop up the parents, with the number of its iterations.\<close>

fun mark :: "nat \<Rightarrow> (nat \<times> nat) list \<Rightarrow> tl \<Rightarrow> (tl \<times> nat) option" where
  "mark a sn (Node a' hr l r) =
     (case mark a sn l of
        Some (l', n) \<Rightarrow> Some (Node a' (bump (length sn) hr) l' r, Suc n)
      | None \<Rightarrow>
         (case mark a sn r of
            Some (r', n) \<Rightarrow> Some (Node a' (bump (length sn) hr) l r', Suc n)
          | None \<Rightarrow> None))"
| "mark a sn n =
     (if addr n = a then Some (SplitLeaf a (bump (length sn) (hdr n)) sn, 1) else None)"

fun set_below :: "nat \<Rightarrow> nat \<Rightarrow> tl \<Rightarrow> tl" where
  "set_below a b (Node a' hr l r) = Node a' hr (set_below a b l) (set_below a b r)"
| "set_below a b n = (if addr n = a then Leaf a ((hdr n)\<lparr>tl_needs := False\<rparr>) b else n)"

end
