(* ===== verification/Om.thy ===== *)
theory Om
  imports Om_Tree
begin

text \<open>
  The order-maintenance structure (\<open>rdtool/src/om/om.c\<close>, and \<open>om_relabel\<close> of \<open>om_relabel.c\<close>): the tree
  with its height, over the lists in the store.  Nodes of the lists are what the client holds and
  compares.
\<close>

record om =
  om_root :: tl
  om_head :: nat
  om_tail :: nat
  om_height :: nat

subsection \<open>Creation\<close>

definition om_create :: "bheap \<Rightarrow> (om \<times> bheap) option" where
  "om_create h =
     (let (rt, h) = tl_node_new h;
          (b, h) = bl_new h
      in do { h \<leftarrow> upd_blist b (\<lambda>L. L\<lparr>bl_above := Some rt\<rparr>) h;
              let hr = \<lparr>tl_label = 0, tl_level = MAX_LEVEL, tl_num_leaves = 1, tl_needs = False\<rparr>;
              Some (\<lparr>om_root = Leaf rt hr b, om_head = rt, om_tail = rt, om_height = 0\<rparr>, h) })"

subsection \<open>Destruction\<close>

fun tl_node_free_recursive :: "tl \<Rightarrow> bheap \<Rightarrow> bheap option" where
  "tl_node_free_recursive (Node a hr l r) h =
     do { h \<leftarrow> (if tl_level hr < MAX_LEVEL
                then do { h \<leftarrow> tl_node_free_recursive l h; tl_node_free_recursive r h }
                else Some h);
          tl_node_free a h }"
| "tl_node_free_recursive n h = tl_node_free (addr n) h"

fun destroy :: "nat \<Rightarrow> tl \<Rightarrow> bheap \<Rightarrow> bheap option" where
  "destroy fuel (Node a hr l r) h =
     do { check (tl_level hr < MAX_LEVEL);
          h \<leftarrow> destroy fuel l h;
          h \<leftarrow> destroy fuel r h;
          tl_node_free a h }"
| "destroy fuel (Leaf a hr b) h =
     do { h \<leftarrow> (if tl_level hr < MAX_LEVEL then Some h else bl_free fuel h b);
          tl_node_free a h }"
| "destroy fuel (SplitLeaf a hr sn) h = None"

definition om_destroy :: "nat \<Rightarrow> om \<Rightarrow> bheap \<Rightarrow> bheap option" where
  "om_destroy fuel self h = destroy fuel (om_root self) h"

subsection \<open>Insertion and comparison\<close>

definition leaf_below :: "tl \<Rightarrow> nat \<Rightarrow> ptr" where
  "leaf_below t a = (case find_leaf a t of Some (Leaf a' hr b) \<Rightarrow> Some b | _ \<Rightarrow> None)"

text \<open>The tree node that a list points to.\<close>

definition above_of :: "om \<Rightarrow> bheap \<Rightarrow> nat \<Rightarrow> tl option" where
  "above_of self h l = do { L \<leftarrow> blists h l; a \<leftarrow> bl_above L; find_leaf a (om_root self) }"

definition om_get_tl :: "om \<Rightarrow> bheap \<Rightarrow> nat \<Rightarrow> nat option" where
  "om_get_tl self h n =
     do { nd \<leftarrow> nodes h n;
          l \<leftarrow> nd_list nd;
          t \<leftarrow> above_of self h l;
          check (tl_level (hdr t) = MAX_LEVEL);
          Some (addr t) }"

definition om_insert_initial :: "om \<Rightarrow> bheap \<Rightarrow> (nat \<times> bheap) option" where
  "om_insert_initial self h =
     do { check (tl_num_leaves (hdr (om_root self)) = 1);
          (case om_root self of
             Leaf a hr b \<Rightarrow>
               do { (n, h) \<leftarrow> bl_insert_initial b h;
                    nd \<leftarrow> nodes h n;
                    check (nd_list nd = Some b);
                    Some (n, h) }
           | _ \<Rightarrow> None) }"

definition om_insert :: "om \<Rightarrow> nat \<Rightarrow> bheap \<Rightarrow> (ptr \<times> bheap) option" where
  "om_insert self base h =
     do { nd \<leftarrow> nodes h base;
          l \<leftarrow> nd_list nd;
          t \<leftarrow> above_of self h l;
          check (tl_level (hdr t) = MAX_LEVEL);
          check (leaf_below (om_root self) (addr t) = Some l);
          (r, h) \<leftarrow> bl_insert l base h;
          (case r of
             None \<Rightarrow> Some (None, h)
           | Some n \<Rightarrow> do { nn \<leftarrow> nodes h n;
                           nb \<leftarrow> nodes h base;
                           check (nd_label nn > nd_label nb);
                           Some (Some n, h) }) }"

definition om_precedes :: "om \<Rightarrow> bheap \<Rightarrow> ptr \<Rightarrow> ptr \<Rightarrow> bool option" where
  "om_precedes self h px py =
     (case px of
        None \<Rightarrow> Some True
      | Some x \<Rightarrow>
        (case py of
           None \<Rightarrow> Some False
         | Some y \<Rightarrow>
             do { nx \<leftarrow> nodes h x; ny \<leftarrow> nodes h y;
                  if nd_list nx = nd_list ny then Some (nd_label nx < nd_label ny)
                  else do { lx \<leftarrow> nd_list nx; ly \<leftarrow> nd_list ny;
                            tx \<leftarrow> above_of self h lx; ty \<leftarrow> above_of self h ly;
                            Some (tl_label (hdr tx) < tl_label (hdr ty)) } }))"

subsection \<open>Size\<close>

definition sizeof_tl_node :: nat where "sizeof_tl_node = 64"
definition sizeof_om :: nat where "sizeof_om = 32"

fun node_memsize :: "nat \<Rightarrow> bheap \<Rightarrow> tl \<Rightarrow> nat option" where
  "node_memsize fuel h (Leaf a hr b) =
     do { n \<leftarrow> bl_memsize fuel h b; Some (sizeof_tl_node + n) }"
| "node_memsize fuel h (SplitLeaf a hr sn) = None"
| "node_memsize fuel h (Node a hr l r) =
     do { check (tl_level hr \<noteq> MAX_LEVEL);
          m \<leftarrow> node_memsize fuel h l; n \<leftarrow> node_memsize fuel h r;
          Some (sizeof_tl_node + (m + n)) }"

definition om_memsize :: "nat \<Rightarrow> om \<Rightarrow> bheap \<Rightarrow> nat option" where
  "om_memsize fuel self h = do { n \<leftarrow> node_memsize fuel h (om_root self); Some (n + sizeof_om) }"

subsection \<open>Relabelling\<close>

text \<open>
  One iteration of the first loop: the list of leaf \<open>a\<close> is split.  A split into one list puts it back
  under the same leaf.
\<close>

definition relabel_one :: "nat \<Rightarrow> (nat \<Rightarrow> u64) \<Rightarrow> nat \<Rightarrow> om \<times> bheap \<Rightarrow> (om \<times> bheap) option" where
  "relabel_one fuel shl a s =
     (let (self, h) = s in
      do { current \<leftarrow> find_leaf a (om_root self);
           check (tl_level (hdr current) = MAX_LEVEL);
           (case current of
              Leaf a' hr b \<Rightarrow>
                do { (sn, h) \<leftarrow> split fuel (leaf_below (om_root self)) b h;
                     if length sn > 1
                     then do { (rt, n) \<leftarrow> mark a sn (om_root self);
                               let height = fast_log2_ceil shl (length sn) - 1 + n;
                               Some (self\<lparr>om_root := rt, om_height := max (om_height self) height\<rparr>, h) }
                     else (case sn of
                             [(sa, sb)] \<Rightarrow>
                               do { h \<leftarrow> tl_node_free sa h;
                                    h \<leftarrow> upd_blist sb (\<lambda>L. L\<lparr>bl_above := Some a\<rparr>) h;
                                    Some (self\<lparr>om_root := set_below a sb (om_root self)\<rparr>, h) }
                           | _ \<Rightarrow> None) }
            | _ \<Rightarrow> None) })"

fun relabel_lists :: "nat \<Rightarrow> (nat \<Rightarrow> u64) \<Rightarrow> nat list \<Rightarrow> om \<times> bheap \<Rightarrow> (om \<times> bheap) option" where
  "relabel_lists fuel shl [] s = Some s"
| "relabel_lists fuel shl (a # as) s = do { s \<leftarrow> relabel_one fuel shl a s; relabel_lists fuel shl as s }"

text \<open>A full structure ends in \<open>exit(1)\<close>.\<close>

definition om_relabel :: "nat \<Rightarrow> (nat \<Rightarrow> u64) \<Rightarrow> nat list \<Rightarrow> om \<times> bheap \<Rightarrow> (om \<times> bheap) option" where
  "om_relabel fuel shl heavy_lists s =
     do { let old_size = tl_num_leaves (hdr (om_root (fst s)));
          (self, h) \<leftarrow> relabel_lists fuel shl heavy_lists s;
          let new_size = tl_num_leaves (hdr (om_root self));
          check (\<not> (new_size < old_size \<or> (MAX_LABEL + 1 \<noteq> 0 \<and> new_size > MAX_LABEL + 1)));
          (rt, h) \<leftarrow> rebalance shl None (om_root self) (om_height self) h;
          Some (self\<lparr>om_root := rt\<rparr>, h) }"

text \<open>What x86-64 computes for \<open>1 << h\<close> as an \<open>int\<close>: the count is taken modulo 32 and the sign is extended.\<close>

definition x86_shl :: "nat \<Rightarrow> u64" where
  "x86_shl h = (if h mod 32 = 31 then - (2 ^ 31) else 2 ^ (h mod 32))"

end
