(* ===== verification/Om_Tree_Inv.thy ===== *)
theory Om_Tree_Inv
  imports Om_Tree
begin

text \<open>
  The invariant of the tree over the lists and what relabelling does to it.

  A node at depth \<open>d\<close> owns the \<open>2 ^ (64 - d)\<close> labels from \<open>lo\<close> on: a leaf has the label \<open>lo\<close>, an internal node the
  greatest label of its range, its children the two halves.  \<open>leaf_seq\<close> is the order of the leaves that
  the tree stands for, a split leaf counting as its pieces.
\<close>

subsection \<open>Ranges of labels\<close>

definition width :: "nat \<Rightarrow> nat" where
  "width d = 2 ^ (64 - d)"

lemma width_pos [simp]: "0 < width d"
  by (simp add: width_def)

lemma width_half: "d < 64 \<Longrightarrow> width d = 2 * width (Suc d)"
proof -
  assume "d < 64"
  then have "64 - d = Suc (64 - Suc d)" by simp
  then show ?thesis by (simp add: width_def)
qed

lemma width_0: "width 0 = 18446744073709551616"
  by (simp add: width_def)

lemma width_64 [simp]: "width 64 = 1"
  by (simp add: width_def)

lemma keep_high_bits:
  assumes "1 \<le> d" "d \<le> 64"
  shows "signed_drop_bit (d - 1) (push_bit 63 (- 1 :: u64)) = NOT (mask (64 - d))"
proof (rule bit_eqI)
  fix n assume "possible_bit TYPE(u64) n"
  then have "n < 64" by (simp add: possible_bit_word)
  with assms show "bit (signed_drop_bit (d - 1) (push_bit 63 (- 1 :: u64))) n = bit (NOT (mask (64 - d)) :: u64) n"
    by (auto simp: bit_signed_drop_bit_iff bit_push_bit_iff bit_not_iff bit_mask_iff bit_minus_1_iff)
qed

lemma high_bits: "(w :: u64) AND NOT (mask n) = push_bit n (drop_bit n w)"
  by (rule bit_eqI) (auto simp: bit_simps)

lemma unat_high_bits: "unat ((w :: u64) AND NOT (mask n)) = 2 ^ n * (unat w div 2 ^ n)"
proof -
  have "2 ^ n * (unat w div 2 ^ n) \<le> unat w"
    by (simp add: mult.commute)
  also have "unat w < 2 ^ 64"
    using unat_lt64 [of w] by simp
  finally have "2 ^ n * (unat w div 2 ^ n) < 2 ^ 64" .
  then have "take_bit 64 (2 ^ n * (unat w div 2 ^ n)) = 2 ^ n * (unat w div 2 ^ n)"
    by (rule take_bit_nat_eq_self)
  moreover have "unat (push_bit n (drop_bit n w)) = take_bit 64 (push_bit n (unat (drop_bit n w)))"
    by (simp add: unsigned_push_bit_eq)
  moreover have "push_bit n (unat (drop_bit n w)) = 2 ^ n * (unat w div 2 ^ n)"
    by (simp only: unat_drop_bit_eq) (simp add: push_bit_eq_mult drop_bit_eq_div mult.commute)
  ultimately show ?thesis
    by (simp only: high_bits)
qed

lemma last_of_block: "0 < (w :: nat) \<Longrightarrow> (w * q + w - 1) div w = q"
  by (cases w) (auto intro!: div_nat_eqI)

lemma range_left_eq:
  assumes "unat lab = lo + width d - 1" "width d dvd lo" "\<not> rt \<Longrightarrow> 1 \<le> d \<and> d \<le> 64" "rt \<Longrightarrow> lo = 0"
  shows "unat (range_left rt lab d) = lo"
proof (cases rt)
  case True
  with assms show ?thesis by (simp add: range_left_def)
next
  case False
  with assms(3) have d: "1 \<le> d" "d \<le> 64" by auto
  from assms(2) obtain q where q: "lo = width d * q" by (auto elim: dvdE)
  have "range_left rt lab d = lab AND NOT (mask (64 - d))"
    using False keep_high_bits [OF d] by (simp add: range_left_def range_right_def MAX_LABEL_def ac_simps)
  then have "unat (range_left rt lab d) = width d * (unat lab div width d)"
    by (simp add: unat_high_bits width_def)
  moreover have "unat lab div width d = q"
    unfolding assms(1) q by (rule last_of_block) simp
  ultimately show ?thesis using q by simp
qed

text \<open>The middle label of a range, as \<open>rebuild\<close> and \<open>rebuild_recursive\<close> compute it.\<close>

definition mid_label :: "u64 \<Rightarrow> u64 \<Rightarrow> u64" where
  "mid_label llab rlab = llab + ((rlab - llab) div 2 + 1) - 1"

lemma unat_mid_label:
  assumes "unat rlab = unat llab + 2 * s - 1" "0 < s"
  shows "unat (mid_label llab rlab) = unat llab + s - 1" "unat (mid_label llab rlab + 1) = unat llab + s"
proof -
  have le: "llab \<le> rlab" using assms by (simp add: word_le_nat_alt)
  have "unat ((rlab - llab) div 2) = unat (rlab - llab) div 2"
    by (simp add: unat_div_distrib)
  also have "unat (rlab - llab) = 2 * s - 1"
    using assms unat_sub [OF le] by simp
  also have "(2 * s - 1) div 2 = s - 1"
    using assms(2) by (cases s) auto
  finally have half: "unat ((rlab - llab) div 2) = s - 1" .
  have eq: "mid_label llab rlab = llab + (rlab - llab) div 2"
    by (simp add: mid_label_def)
  have bound: "unat llab + 2 * s - 1 < 18446744073709551616"
    using unat_lt64 [of rlab] assms(1) by simp
  then show m: "unat (mid_label llab rlab) = unat llab + s - 1"
    using half assms(2) by (simp add: eq u64_add_unat)
  then show "unat (mid_label llab rlab + 1) = unat llab + s"
    using bound assms(2) by (subst u64_add_unat) simp
qed

lemma odd_right_end:
  fixes rlab :: u64
  assumes "unat rlab = lo + width d - 1" "width d dvd lo" "d < 64"
  shows "rlab mod 2 = 1"
proof -
  have "even (width d)" using width_half [OF assms(3)] by simp
  then have "even lo" using assms(2) dvd_trans by blast
  with \<open>even (width d)\<close> assms(1) have "odd (unat rlab)"
    using width_pos [of d] by (metis Suc_pred add_Suc_right diff_Suc_1 even_Suc even_add)
  then have "odd rlab"
    by (rule odd_unat_iff [THEN iffD1])
  then show ?thesis
    by (rule odd_iff_mod_2_eq_one [THEN iffD1])
qed

subsection \<open>What a tree stands for\<close>

fun leaf_seq :: "tl \<Rightarrow> (nat \<times> nat) list" where
  "leaf_seq (Leaf a hr b) = [(a, b)]"
| "leaf_seq (SplitLeaf a hr sn) = sn"
| "leaf_seq (Node a hr l r) = leaf_seq l @ leaf_seq r"

text \<open>The addresses of the nodes that relabelling may free: all but leaves.\<close>

fun inodes :: "tl \<Rightarrow> nat list" where
  "inodes (Leaf a hr b) = []"
| "inodes (SplitLeaf a hr sn) = [a]"
| "inodes (Node a hr l r) = a # inodes l @ inodes r"

text \<open>The depth the tree will have when each split leaf is a balanced tree: at most \<open>k\<close>.\<close>

fun fits :: "nat \<Rightarrow> tl \<Rightarrow> bool" where
  "fits k (Leaf a hr b) \<longleftrightarrow> True"
| "fits k (SplitLeaf a hr sn) \<longleftrightarrow> length sn \<le> 2 ^ k"
| "fits 0 (Node a hr l r) \<longleftrightarrow> False"
| "fits (Suc k) (Node a hr l r) \<longleftrightarrow> fits k l \<and> fits k r"

lemma fits_length: "fits k t \<Longrightarrow> length (leaf_seq t) \<le> 2 ^ k"
  by (induction k t rule: fits.induct) auto

lemma fits_mono: "fits k t \<Longrightarrow> k \<le> k' \<Longrightarrow> fits k' t"
proof (induction k t arbitrary: k' rule: fits.induct)
  case (2 k a hr sn)
  then show ?case using power_increasing [of k k' "2 :: nat"] by (simp add: order_trans)
next
  case (4 k a hr l r)
  then show ?case by (cases k') auto
qed auto

fun tl_inv :: "nat \<Rightarrow> nat \<Rightarrow> tl \<Rightarrow> bool" where
  "tl_inv d lo (Leaf a hr b) \<longleftrightarrow>
     d \<le> 64 \<and> tl_level hr = 64 \<and> unat (tl_label hr) = lo \<and> tl_num_leaves hr = 1 \<and> \<not> tl_needs hr"
| "tl_inv d lo (SplitLeaf a hr sn) \<longleftrightarrow>
     d \<le> 64 \<and> tl_level hr = 64 \<and> unat (tl_label hr) = lo \<and> unat (tl_num_leaves hr) = length sn \<and>
     2 \<le> length sn \<and> tl_needs hr"
| "tl_inv d lo (Node a hr l r) \<longleftrightarrow>
     d < 64 \<and> tl_level hr = d \<and> unat (tl_label hr) = lo + width d - 1 \<and>
     unat (tl_num_leaves hr) = length (leaf_seq l) + length (leaf_seq r) \<and>
     tl_needs hr = (tl_needs (hdr l) \<or> tl_needs (hdr r)) \<and>
     tl_inv (Suc d) lo l \<and> tl_inv (Suc d) (lo + width (Suc d)) r"

definition clean :: "tl \<Rightarrow> bool" where
  "clean t \<longleftrightarrow> \<not> tl_needs (hdr t)"

lemma tl_inv_num_leaves: "tl_inv d lo t \<Longrightarrow> unat (tl_num_leaves (hdr t)) = length (leaf_seq t)"
  by (cases t) auto

lemma tl_inv_nonempty: "tl_inv d lo t \<Longrightarrow> leaf_seq t \<noteq> []"
  by (induction t arbitrary: d lo) auto

lemma tl_inv_depth: "tl_inv d lo t \<Longrightarrow> d \<le> 64"
  by (cases t) auto

lemma clean_Node: "tl_inv d lo (Node a hr l r) \<Longrightarrow> clean (Node a hr l r) \<longleftrightarrow> clean l \<and> clean r"
  by (simp add: clean_def)

subsection \<open>Allocation of tree nodes\<close>

definition tl_alloc :: "nat \<Rightarrow> bheap \<Rightarrow> bheap" where
  "tl_alloc m h = h\<lparr>tls := tls h \<union> {brk h..<brk h + m}, brk := brk h + m\<rparr>"

lemma tl_alloc_0 [simp]: "tl_alloc 0 h = h"
  by (simp add: tl_alloc_def)

lemma tl_alloc_add [simp]: "tl_alloc m (tl_alloc k h) = tl_alloc (k + m) h"
  by (auto simp: tl_alloc_def Un_assoc ivl_disj_un_two add.assoc intro!: arg_cong2 [of _ _ _ _ "(\<union>)"])

lemma tl_node_new_alloc: "tl_node_new h = (brk h, tl_alloc 1 h)"
  by (auto simp: tl_node_new_def tl_alloc_def)

lemma tl_alloc_sel [simp]:
  "brk (tl_alloc m h) = brk h + m" "tls (tl_alloc m h) = tls h \<union> {brk h..<brk h + m}"
  "nodes (tl_alloc m h) = nodes h" "blists (tl_alloc m h) = blists h"
  by (simp_all add: tl_alloc_def)


subsection \<open>The balanced tree\<close>

text \<open>What \<open>rebuild_recursive\<close> promises for the entries \<open>xs\<close> at depth \<open>d\<close>, first label \<open>lo\<close>.\<close>

definition balanced_over :: "nat \<Rightarrow> nat \<Rightarrow> (nat \<times> nat) list \<Rightarrow> bheap \<Rightarrow> tl \<times> bheap \<Rightarrow> bool" where
  "balanced_over d lo xs h res \<longleftrightarrow>
     (case res of (t, h') \<Rightarrow>
        tl_inv d lo t \<and> clean t \<and> leaf_seq t = xs \<and> (\<forall>k. length xs \<le> 2 ^ k \<longrightarrow> fits k t) \<and>
        h' = tl_alloc (length xs - 1) h \<and>
        distinct (inodes t) \<and> set (inodes t) = {brk h..<brk h + (length xs - 1)})"

lemma balanced_over_single:
  assumes "d \<le> 64" "unat llab = lo"
  shows "balanced_over d lo [(a, b)] h
    (Leaf a \<lparr>tl_label = llab, tl_level = MAX_LEVEL, tl_num_leaves = 1, tl_needs = False\<rparr> b, h)"
  using assms by (simp add: balanced_over_def clean_def)

lemma balanced_over_Node:
  assumes "balanced_over (Suc d) lo xs (tl_alloc 1 h) (l, h1)"
    and "balanced_over (Suc d) (lo + width (Suc d)) ys h1 (r, h2)"
    and "d < 64" "unat rlab = lo + width d - 1" "length xs = n - n div 2" "length ys = n div 2" "2 \<le> n"
      "n < 18446744073709551616"
  shows "balanced_over d lo (xs @ ys) h
    (Node (brk h) \<lparr>tl_label = rlab, tl_level = d, tl_num_leaves = of_nat n, tl_needs = False\<rparr> l r, h2)"
proof -
  obtain x y where xy: "length xs = Suc x" "length ys = Suc y"
  proof (rule that)
    show "length xs = Suc (length xs - 1)" "length ys = Suc (length ys - 1)"
      using assms(5-7) by simp_all
  qed
  have n: "n = Suc (Suc (x + y))" using xy assms(5,6) by simp
  have "fits k (Node (brk h) hr l r)" if "n \<le> 2 ^ k" for k and hr :: tl_hdr
  proof (cases k)
    case 0
    with that assms(7) show ?thesis by simp
  next
    case (Suc k')
    with that have "length xs \<le> 2 ^ k'" "length ys \<le> 2 ^ k'" using assms(5,6) by auto
    with Suc assms(1,2) show ?thesis by (simp add: balanced_over_def)
  qed
  moreover have "unat (of_nat n :: u64) = n"
    using assms(8) by (rule unat_of_nat64)
  moreover have "distinct (brk h # inodes l @ inodes r)"
    and "set (brk h # inodes l @ inodes r) = {brk h..<brk h + Suc (x + y)}"
    and "h2 = tl_alloc (Suc (x + y)) h"
    using assms(1,2) xy by (auto simp: balanced_over_def)
  ultimately show ?thesis
    using assms(1-4,8) xy n by (simp add: balanced_over_def clean_def)
qed

lemma rebuild_recursive_ok:
  "n = r - l \<Longrightarrow> 1 \<le> n \<Longrightarrow> r \<le> length arr \<Longrightarrow> n \<le> width d \<Longrightarrow> d = Suc p \<Longrightarrow> d \<le> 64 \<Longrightarrow> width d dvd lo \<Longrightarrow>
   unat llab = lo \<Longrightarrow> unat rlab = lo + width d - 1 \<Longrightarrow>
   \<exists>res. rebuild_recursive p arr l r llab rlab h = Some res \<and> balanced_over d lo (take n (drop l arr)) h res"
proof (induction n arbitrary: l r d p lo llab rlab h rule: less_induct)
  case (less n)
  have le: "llab \<le> rlab" using less.prems by (simp add: word_le_nat_alt Suc_leI)
  show ?case
  proof (cases "n = 1")
    case True
    then have "take n (drop l arr) = [arr ! l]" 
      using less.prems by (simp add: take_Suc_conv_app_nth hd_drop_conv_nth take_Suc)
    moreover obtain a b where "arr ! l = (a, b)" by (cases "arr ! l")
    ultimately show ?thesis
      using True le less.prems balanced_over_single [OF less.prems(6,8)]
      by (subst rebuild_recursive.simps) (auto simp: Let_def not_less)
  next
    case False
    with less.prems have n2: "2 \<le> n" by simp
    then have d: "d < 64" using less.prems(4,6) by (cases "d = 64") auto
    let ?m = "l + (n - n div 2)"
    have halves: "n - n div 2 \<le> width (Suc d)" "n div 2 \<le> width (Suc d)"
      using less.prems(4) width_half [OF d] by auto
    have mid: "unat (mid_label llab rlab) = lo + width (Suc d) - 1" "unat (mid_label llab rlab + 1) = lo + width (Suc d)"
      using unat_mid_label [of rlab llab "width (Suc d)"] less.prems(8,9) width_half [OF d] by simp_all
    have dvd: "width (Suc d) dvd lo"
      using less.prems(7) width_half [OF d] by (metis dvd_mult_right)
    have "\<exists>res. rebuild_recursive d arr l ?m llab (mid_label llab rlab) (tl_alloc 1 h) = Some res \<and>
      balanced_over (Suc d) lo (take (n - n div 2) (drop l arr)) (tl_alloc 1 h) res"
    proof (rule less.IH)
      show "n - n div 2 < n" "n - n div 2 = ?m - l" "1 \<le> n - n div 2" "?m \<le> length arr"
        using n2 less.prems(1,3) by linarith+
    qed (use less.prems(8) halves mid dvd d in \<open>simp_all\<close>)
    then obtain lt h1 where L: "rebuild_recursive d arr l ?m llab (mid_label llab rlab) (tl_alloc 1 h) = Some (lt, h1)"
      "balanced_over (Suc d) lo (take (n - n div 2) (drop l arr)) (tl_alloc 1 h) (lt, h1)"
      by auto
    have "\<exists>res. rebuild_recursive d arr ?m r (mid_label llab rlab + 1) rlab h1 = Some res \<and>
      balanced_over (Suc d) (lo + width (Suc d)) (take (n div 2) (drop ?m arr)) h1 res"
    proof (rule less.IH)
      show "n div 2 = r - ?m" "n div 2 < n" "1 \<le> n div 2" using n2 less.prems(1) by simp_all
      show "unat rlab = lo + width (Suc d) + width (Suc d) - 1"
        using less.prems(9) width_half [OF d] by simp
    qed (use less.prems(3) halves mid dvd d in \<open>simp_all\<close>)
    then obtain rt' h2 where R: "rebuild_recursive d arr ?m r (mid_label llab rlab + 1) rlab h1 = Some (rt', h2)"
      "balanced_over (Suc d) (lo + width (Suc d)) (take (n div 2) (drop ?m arr)) h1 (rt', h2)"
      by auto
    have odd: "rlab mod 2 = 1" by (rule odd_right_end [OF less.prems(9,7) d])
    have "n < 18446744073709551616"
      using less.prems(4) power_increasing [of "64 - d" 63 "2 :: nat"] less.prems(5) by (simp add: width_def)
    then have "balanced_over d lo (take (n - n div 2) (drop l arr) @ take (n div 2) (drop ?m arr)) h
        (Node (brk h) \<lparr>tl_label = rlab, tl_level = d, tl_num_leaves = of_nat n, tl_needs = False\<rparr> lt rt', h2)"
    proof (intro balanced_over_Node [OF L(2) R(2) d less.prems(9)])
      have "n div 2 \<le> length arr - ?m" "n - n div 2 \<le> length arr - l"
        using less.prems(1-3) n2 by linarith+
      then show "length (take (n div 2) (drop ?m arr)) = n div 2"
        "length (take (n - n div 2) (drop l arr)) = n - n div 2"
        by (simp_all only: length_take length_drop min_absorb2)
    qed (use n2 in simp_all)
    moreover have "take (n - n div 2) (drop l arr) @ take (n div 2) (drop ?m arr) = take n (drop l arr)"
      using take_add [of "n - n div 2" "n div 2" "drop l arr"] by (simp add: add.commute)
    moreover have "rebuild_recursive p arr l r llab rlab h = Some
        (Node (brk h) \<lparr>tl_label = rlab, tl_level = d, tl_num_leaves = of_nat n, tl_needs = False\<rparr> lt rt', h2)"
      using n2 less.prems le L(1) R(1) odd
      by (subst rebuild_recursive.simps)
         (simp add: Let_def tl_node_new_alloc mid_label_def [symmetric])
    ultimately show ?thesis by auto
  qed
qed


subsection \<open>Collecting the leaves\<close>

fun counted :: "tl \<Rightarrow> bool" where
  "counted (Leaf a hr b) \<longleftrightarrow> tl_num_leaves hr = 1 \<and> \<not> tl_needs hr"
| "counted (SplitLeaf a hr sn) \<longleftrightarrow> unat (tl_num_leaves hr) = length sn \<and> 2 \<le> length sn"
| "counted (Node a hr l r) \<longleftrightarrow>
     tl_level hr \<noteq> 64 \<and> unat (tl_num_leaves (hdr l)) = length (leaf_seq l) \<and> counted l \<and> counted r"

lemma tl_inv_counted: "tl_inv d lo t \<Longrightarrow> counted t"
  by (induction t arbitrary: d lo) (auto simp: tl_inv_num_leaves)

text \<open>The nodes that go: those marked.  An internal node that is not marked stays allocated.\<close>

fun freed :: "tl \<Rightarrow> nat set" where
  "freed (Leaf a hr b) = {}"
| "freed (SplitLeaf a hr sn) = (if tl_needs hr then {a} else {})"
| "freed (Node a hr l r) = freed l \<union> freed r \<union> (if tl_needs hr then {a} else {})"

lemma freed_subset: "freed t \<subseteq> set (inodes t)"
  by (induction t) auto

lemma build_array_of_leaves_ok:
  "counted t \<Longrightarrow> set (inodes t) \<subseteq> tls h \<Longrightarrow> distinct (inodes t) \<Longrightarrow> j = i + length (leaf_seq t) \<Longrightarrow>
     build_array_of_leaves t i j h = Some (leaf_seq t, h\<lparr>tls := tls h - freed t\<rparr>)"
proof (induction t arbitrary: i j h)
  case (Node a hr l r)
  let ?h1 = "h\<lparr>tls := tls h - freed l\<rparr>"
  let ?h2 = "?h1\<lparr>tls := tls ?h1 - freed r\<rparr>"
  from Node.prems have l: "build_array_of_leaves l i (i + length (leaf_seq l)) h = Some (leaf_seq l, ?h1)"
    by (intro Node.IH(1)) auto
  have sub: "set (inodes r) \<subseteq> tls ?h1"
    using Node.prems(2,3) freed_subset [of l] by auto
  then have r: "build_array_of_leaves r (i + length (leaf_seq l)) j ?h1 = Some (leaf_seq r, ?h2)"
    using Node.prems by (intro Node.IH(2)) auto
  have "a \<in> tls ?h2"
    using Node.prems(2,3) freed_subset [of l] freed_subset [of r] by auto
  moreover have "tls h - freed l - freed r = tls h - (freed l \<union> freed r)"
    "tls h - freed l - freed r - {a} = tls h - insert a (freed l \<union> freed r)"
    by blast+
  ultimately show ?case
    using Node.prems(1) l r by (simp add: free_if_def tl_node_free_def Let_def)
qed (auto simp: free_if_def tl_node_free_def)

subsection \<open>Rebuilding a subtree\<close>

text \<open>The parent of a node at depth \<open>d\<close> whose range starts at \<open>lo\<close>.\<close>

definition par_ok :: "tl_parent option \<Rightarrow> nat \<Rightarrow> nat \<Rightarrow> bool" where
  "par_ok par d lo \<longleftrightarrow>
     (case par of
        None \<Rightarrow> d = 0 \<and> lo = 0
      | Some p \<Rightarrow> 1 \<le> d \<and> par_level p = d - 1 \<and> (par_root p \<longleftrightarrow> d = 1) \<and>
          (\<exists>plo. unat (par_label p) = plo + width (d - 1) - 1 \<and> width (d - 1) dvd plo \<and>
                 (d = 1 \<longrightarrow> plo = 0) \<and> lo = (if par_right p then plo + width d else plo)))"

lemma par_ok_child:
  assumes "par_ok par d lo" "tl_inv d lo (Node a hr l r)" "width d dvd lo"
  shows "par_ok (Some (child_of par (hr\<lparr>tl_needs := b\<rparr>) False)) (Suc d) lo"
    "par_ok (Some (child_of par (hr\<lparr>tl_needs := b\<rparr>) True)) (Suc d) (lo + width (Suc d))"
proof -
  have "par = None \<longleftrightarrow> d = 0" "d = 0 \<longrightarrow> lo = 0"
    using assms(1) by (auto simp: par_ok_def split: option.splits)
  with assms show "par_ok (Some (child_of par (hr\<lparr>tl_needs := b\<rparr>) False)) (Suc d) lo"
    "par_ok (Some (child_of par (hr\<lparr>tl_needs := b\<rparr>) True)) (Suc d) (lo + width (Suc d))"
    by (auto simp: par_ok_def child_of_def)
qed

lemma par_ok_dvd:
  assumes "par_ok par d lo" "d \<le> 64"
  shows "width d dvd lo"
proof (cases par)
  case None
  with assms show ?thesis by (simp add: par_ok_def)
next
  case (Some p)
  with assms obtain plo where p: "1 \<le> d" "width (d - 1) dvd plo" "lo = (if par_right p then plo + width d else plo)"
    by (auto simp: par_ok_def)
  then have "width d dvd plo"
    using width_half [of "d - 1"] assms(2) by (simp add: dvd_mult_right)
  with p(3) show ?thesis by simp
qed

lemma rebuilt_hdr_split:
  assumes "par_ok par d lo" "d < 64"
  shows "unat (tl_label (rebuilt_hdr par (SplitLeaf a hr sn))) = lo + width d - 1 \<and>
         tl_level (rebuilt_hdr par (SplitLeaf a hr sn)) = d \<and>
         tl_num_leaves (rebuilt_hdr par (SplitLeaf a hr sn)) = tl_num_leaves hr \<and>
         tl_needs (rebuilt_hdr par (SplitLeaf a hr sn)) = tl_needs hr"
proof (cases par)
  case None
  with assms show ?thesis by (simp add: rebuilt_hdr_def par_ok_def width_0)
next
  case (Some p)
  with assms obtain plo where p: "1 \<le> d" "par_level p = d - 1" "par_root p \<longleftrightarrow> d = 1"
    "unat (par_label p) = plo + width (d - 1) - 1" "width (d - 1) dvd plo"
    "d = 1 \<longrightarrow> plo = 0" "lo = (if par_right p then plo + width d else plo)"
    by (auto simp: par_ok_def)
  have w: "width (d - 1) = 2 * width d" using width_half [of "d - 1"] p(1) assms(2) by simp
  let ?left = "range_left (par_root p) (par_label p) (par_level p)"
  have left: "unat ?left = plo"
  proof (intro range_left_eq)
    show "1 \<le> par_level p \<and> par_level p \<le> 64" if "\<not> par_root p" using that p(1-3) assms(2) by auto
  qed (use p in auto)
  have "unat ((par_label p - ?left) div 2 + ?left) = plo + width d - 1"
  proof -
    have le: "?left \<le> par_label p"
      unfolding word_le_nat_alt using left p(4) w width_pos [of d] by linarith
    have "unat ((par_label p - ?left) div 2) = (2 * width d - 1) div 2"
      using unat_sub [OF le] left p(4) w width_pos [of d] by (simp add: unat_div_distrib)
    also have "\<dots> = width d - 1"
      using width_pos [of d] by (cases "width d") auto
    finally have half: "unat ((par_label p - ?left) div 2) = width d - 1" .
    have "width d - 1 + plo < 18446744073709551616"
      using unat_lt64 [of "par_label p"] width_pos [of d] unfolding p(4) w by linarith
    moreover have "width d - 1 + plo = plo + width d - 1"
      using width_pos [of d] by linarith
    ultimately show ?thesis
      unfolding u64_add_unat half left by simp
  qed
  with Some p w show ?thesis
    by (auto simp: rebuilt_hdr_def Let_def range_right_def)
qed


definition clear :: "tl \<Rightarrow> tl" where
  "clear t = upd_hdr (\<lambda>hr. hr\<lparr>tl_needs := False\<rparr>) t"

lemma clear_simps [simp]:
  "clear (Leaf a hr b) = Leaf a (hr\<lparr>tl_needs := False\<rparr>) b"
  "clear (SplitLeaf a hr sn) = SplitLeaf a (hr\<lparr>tl_needs := False\<rparr>) sn"
  "clear (Node a hr l r) = Node a (hr\<lparr>tl_needs := False\<rparr>) l r"
  by (simp_all add: clear_def)

text \<open>What relabelling a subtree promises.\<close>

definition relabelled :: "nat \<Rightarrow> nat \<Rightarrow> tl \<Rightarrow> bheap \<Rightarrow> tl \<times> bheap \<Rightarrow> bool" where
  "relabelled d lo t h res \<longleftrightarrow>
     (case res of (t', h') \<Rightarrow>
        tl_inv d lo t' \<and> clean t' \<and> leaf_seq t' = leaf_seq t \<and> (\<forall>k. fits k t \<longrightarrow> fits k t') \<and>
        nodes h' = nodes h \<and> blists h' = blists h \<and> brk h \<le> brk h' \<and>
        tls h - set (inodes t) \<subseteq> tls h' \<and> tls h' \<subseteq> tls h \<union> {brk h..<brk h'} \<and>
        distinct (inodes t') \<and> set (inodes t') \<subseteq> tls h' \<and>
        set (inodes t') \<subseteq> set (inodes t) \<union> {brk h..<brk h'})"

lemma relabelled_refl:
  "tl_inv d lo t \<Longrightarrow> clean t \<Longrightarrow> distinct (inodes t) \<Longrightarrow> set (inodes t) \<subseteq> tls h \<Longrightarrow>
     relabelled d lo t h (t, h)"
  by (auto simp: relabelled_def)

lemma marked_length:
  assumes "tl_inv d lo t" "tl_needs (hdr t)"
  shows "2 \<le> length (leaf_seq t)"
proof (cases t)
  case (Node a hr l r)
  with assms(1) have "leaf_seq l \<noteq> []" "leaf_seq r \<noteq> []"
    by (auto dest: tl_inv_nonempty)
  then have "1 \<le> length (leaf_seq l)" "1 \<le> length (leaf_seq r)"
    by (simp_all add: Suc_leI)
  with Node show ?thesis by simp
qed (use assms in auto)

lemma rebuilt_hdr_ok:
  assumes "tl_inv d lo t" "tl_needs (hdr t)" "par_ok par d lo" "d < 64"
  shows "unat (tl_label (rebuilt_hdr par (clear t))) = lo + width d - 1"
    "tl_level (rebuilt_hdr par (clear t)) = d"
    "unat (tl_num_leaves (rebuilt_hdr par (clear t))) = length (leaf_seq t)"
    "\<not> tl_needs (rebuilt_hdr par (clear t))"
  using assms rebuilt_hdr_split [OF assms(3,4)]
  by (cases t; auto simp: rebuilt_hdr_def)+

lemma rebuilt_node:
  assumes L: "balanced_over (Suc d) lo xs (h\<lparr>tls := tls h - F\<rparr>) (l, h1)"
    and R: "balanced_over (Suc d) (lo + width (Suc d)) ys h1 (r, h2)"
    and seq: "leaf_seq t = xs @ ys" "length xs = Suc x" "length ys = Suc y" "x \<le> Suc y" "y \<le> x"
    and hr: "unat (tl_label hr) = lo + width d - 1" "tl_level hr = d"
      "unat (tl_num_leaves hr) = length (leaf_seq t)" "\<not> tl_needs hr" "d < 64"
    and live: "F \<subseteq> set (inodes t)" "a \<in> set (inodes t)" "a \<notin> F" "set (inodes t) \<subseteq> tls h" "tls h \<subseteq> {..<brk h}"
  shows "relabelled d lo t h (Node a hr l r, h2)"
    and "\<forall>k. length (leaf_seq t) \<le> 2 ^ k \<longrightarrow> fits k (Node a hr l r)"
proof -
  have l: "leaf_seq l = xs" "tl_inv (Suc d) lo l" "clean l" "distinct (inodes l)"
    "set (inodes l) = {brk h..<brk h + x}" "\<And>k. Suc x \<le> 2 ^ k \<Longrightarrow> fits k l"
    and h1: "h1 = tl_alloc x (h\<lparr>tls := tls h - F\<rparr>)"
    using L seq(2) by (simp_all add: balanced_over_def)
  have r: "leaf_seq r = ys" "tl_inv (Suc d) (lo + width (Suc d)) r" "clean r" "distinct (inodes r)"
    "set (inodes r) = {brk h + x..<brk h + x + y}" "\<And>k. Suc y \<le> 2 ^ k \<Longrightarrow> fits k r"
    and h2: "h2 = tl_alloc (x + y) (h\<lparr>tls := tls h - F\<rparr>)"
    using R seq(3) h1 by (simp_all add: balanced_over_def)
  have fits: "fits k (Node a hr l r)" if "length (leaf_seq t) \<le> 2 ^ k" for k
  proof (cases k)
    case 0
    with that seq show ?thesis by simp
  next
    case (Suc k')
    with that seq have "Suc x + Suc y \<le> 2 * 2 ^ k'" by simp
    with seq(4,5) have "Suc y \<le> 2 ^ k'" "Suc x \<le> 2 ^ k'" by linarith+
    with Suc l(6) r(6) show ?thesis by simp
  qed
  then show "\<forall>k. length (leaf_seq t) \<le> 2 ^ k \<longrightarrow> fits k (Node a hr l r)" by blast
  have "tl_inv d lo (Node a hr l r)"
    using hr l r seq by (simp add: clean_def)
  moreover have "fits k (Node a hr l r)" if "fits k t" for k
    using fits fits_length [OF that] by blast
  moreover have "a < brk h" "a \<in> tls h" using live by auto
  ultimately show "relabelled d lo t h (Node a hr l r, h2)"
    using hr(4) l r h2 seq(1) live by (auto simp: relabelled_def clean_def)
qed

lemma rebuild_ok:
  assumes inv: "tl_inv d lo t" and needs: "tl_needs (hdr t)" and par: "par_ok par d lo" and d: "d < 64"
    and len: "length (leaf_seq t) \<le> width d"
    and live: "set (inodes t) \<subseteq> tls h" "distinct (inodes t)" "tls h \<subseteq> {..<brk h}"
  shows "\<exists>res. rebuild par (clear t) h = Some res \<and> relabelled d lo t h res \<and>
           (\<forall>k. length (leaf_seq t) \<le> 2 ^ k \<longrightarrow> fits k (fst res))"
proof -
  let ?xs = "leaf_seq t" and ?n = "length (leaf_seq t)"
  let ?hr = "rebuilt_hdr par (clear t)"
  note hr = rebuilt_hdr_ok [OF inv needs par d]
  have dvd: "width d dvd lo" using par d by (intro par_ok_dvd) auto
  have n2: "2 \<le> ?n" by (rule marked_length [OF inv needs])
  let ?F = "freed (clear t)"
  let ?h0 = "h\<lparr>tls := tls h - ?F\<rparr>"
  have same: "leaf_seq (clear t) = ?xs" "inodes (clear t) = inodes t" "addr (clear t) = addr t"
    "tl_num_leaves (hdr (clear t)) = tl_num_leaves (hdr t)"
    by (cases t; simp)+
  have cnt: "counted (clear t)"
    using tl_inv_counted [OF inv] by (cases t) auto
  have arr: "build_array_of_leaves (clear t) 0 ?n h = Some (?xs, ?h0)"
    using build_array_of_leaves_ok [OF cnt, of h ?n 0] live same by simp
  have F: "?F \<subseteq> set (inodes t)"
    using freed_subset [of "clear t"] same by simp
  have root_addr: "addr t \<in> set (inodes t)" "addr t \<notin> ?F"
  proof -
    show "addr t \<in> set (inodes t)" using needs inv by (cases t) auto
    show "addr t \<notin> ?F"
    proof (cases t)
      case (Node a hr l r)
      with live(2) show ?thesis using freed_subset [of l] freed_subset [of r] by auto
    qed auto
  qed
  let ?m = "?n - ?n div 2"
  let ?llab = "range_left (par = None) (tl_label ?hr) (tl_level ?hr)" and ?rlab = "tl_label ?hr"
  have llab: "unat ?llab = lo"
    by (rule range_left_eq) (use hr par d dvd in \<open>auto simp: par_ok_def split: option.splits\<close>)
  have mid: "unat (mid_label ?llab ?rlab) = lo + width (Suc d) - 1" "unat (mid_label ?llab ?rlab + 1) = lo + width (Suc d)"
    using unat_mid_label [of ?rlab ?llab "width (Suc d)"] llab hr(1) width_half [OF d] by simp_all
  have dvd': "width (Suc d) dvd lo"
    using dvd width_half [OF d] by (metis dvd_mult_right)
  have halves: "?m \<le> width (Suc d)" "?n div 2 \<le> width (Suc d)"
    using len width_half [OF d] by auto
  have "\<exists>res. rebuild_recursive d ?xs 0 ?m ?llab (mid_label ?llab ?rlab) ?h0 = Some res \<and>
      balanced_over (Suc d) lo (take ?m (drop 0 ?xs)) ?h0 res"
  proof (rule rebuild_recursive_ok)
    show "?m = ?m - 0" "1 \<le> ?m" "?m \<le> length ?xs" using n2 by linarith+
  qed (use halves d dvd' llab mid in simp_all)
  then obtain l h1 where L: "rebuild_recursive d ?xs 0 ?m ?llab (mid_label ?llab ?rlab) ?h0 = Some (l, h1)"
    "balanced_over (Suc d) lo (take ?m ?xs) ?h0 (l, h1)" by auto
  have "\<exists>res. rebuild_recursive d ?xs ?m ?n (mid_label ?llab ?rlab + 1) ?rlab h1 = Some res \<and>
      balanced_over (Suc d) (lo + width (Suc d)) (take (?n div 2) (drop ?m ?xs)) h1 res"
  proof (rule rebuild_recursive_ok)
    show "?n div 2 = ?n - ?m" "1 \<le> ?n div 2" using n2 by linarith+
    show "unat ?rlab = lo + width (Suc d) + width (Suc d) - 1" using hr(1) width_half [OF d] by simp
  qed (use halves d dvd' mid in simp_all)
  then obtain r h2 where R: "rebuild_recursive d ?xs ?m ?n (mid_label ?llab ?rlab + 1) ?rlab h1 = Some (r, h2)"
    "balanced_over (Suc d) (lo + width (Suc d)) (take (?n div 2) (drop ?m ?xs)) h1 (r, h2)" by auto
  have odd: "?rlab mod 2 = 1" by (rule odd_right_end [OF hr(1) dvd d])
  let ?res = "(Node (addr t) ?hr l r, h2)"
  have run: "rebuild par (clear t) h = Some ?res"
    using arr L(1) R(1) odd hr(2) tl_inv_num_leaves [OF inv]
    by (simp add: rebuild_def same Let_def mid_label_def [symmetric])
  have split_seq: "leaf_seq t = take ?m ?xs @ take (?n div 2) (drop ?m ?xs)" by simp
  have sizes: "length (take ?m ?xs) = Suc (?m - 1)" "length (take (?n div 2) (drop ?m ?xs)) = Suc (?n div 2 - 1)"
    "?m - 1 \<le> Suc (?n div 2 - 1)" "?n div 2 - 1 \<le> ?m - 1"
    using n2 unfolding length_take length_drop by linarith+
  note node = rebuilt_node [OF L(2) R(2) split_seq sizes hr d F root_addr live(1,3)]
  with run show ?thesis by auto
qed

subsection \<open>Rebalancing\<close>

lemma light_capacity:
  assumes "tl_needs hr" "\<not> too_heavy shl hr H" "tl_level hr \<le> H" "0 < H"
  shows "tl_num_leaves hr \<le> capacity shl hr"
proof -
  from assms(1,2,4) have c: "capacity shl hr \<noteq> 0"
    by (auto simp: too_heavy_def density_def split: if_splits option.splits)
  let ?n = "of_nat (unat (tl_num_leaves hr)) :: rat" and ?c = "of_nat (unat (capacity shl hr)) :: rat"
  let ?t = "3/4 + 1/4 * (of_nat (tl_level hr) / of_nat H) :: rat"
  have "0 < unat (capacity shl hr)" using c by (simp add: unat_gt_0)
  then have pos: "0 < ?c" by (simp only: of_nat_0_less_iff)
  have "?n / ?c < ?t"
    using assms c by (auto simp: too_heavy_def density_def heavy_threshold_def)
  also have "?t \<le> 1"
    using assms(3,4) by (simp add: field_simps)
  finally have "?n < ?c" using pos by simp
  then have "unat (tl_num_leaves hr) < unat (capacity shl hr)"
    by (simp only: of_nat_less_iff)
  then show ?thesis by (simp add: word_le_nat_alt)
qed

lemma fresh_disjoint:
  "A' \<subseteq> A \<union> {m..<n} \<Longrightarrow> A \<inter> B = {} \<Longrightarrow> B \<subseteq> {..<m} \<Longrightarrow> A' \<inter> B = {}" for m n :: nat
  by fastforce

lemma fresh_disjoint2:
  "A' \<subseteq> A \<union> {m..<n} \<Longrightarrow> B' \<subseteq> B \<union> {n..<p} \<Longrightarrow> m \<le> n \<Longrightarrow> A \<inter> B = {} \<Longrightarrow> A \<subseteq> {..<m} \<Longrightarrow>
     B \<subseteq> {..<m} \<Longrightarrow> A' \<inter> B' = {}" for m n p :: nat
  by fastforce

lemma relabelled_frame:
  assumes "relabelled d lo t h (t', h')" "A \<inter> set (inodes t) = {}" "A \<subseteq> tls h"
  shows "A \<subseteq> tls h'"
  using assms by (auto simp: relabelled_def)

lemma relabelled_live:
  assumes "relabelled d lo t h (t', h')" "tls h \<subseteq> {..<brk h}"
  shows "tls h' \<subseteq> {..<brk h'}" "set (inodes t) \<subseteq> tls h \<Longrightarrow> set (inodes t') \<subseteq> {..<brk h'}"
    "brk h \<le> brk h'"
proof -
  have "tls h' \<subseteq> tls h \<union> {brk h..<brk h'}" and le: "brk h \<le> brk h'" and "set (inodes t') \<subseteq> tls h'"
    using assms(1) by (simp_all add: relabelled_def)
  moreover have "tls h \<union> {brk h..<brk h'} \<subseteq> {..<brk h'}"
    using assms(2) le by fastforce
  ultimately show "tls h' \<subseteq> {..<brk h'}" "set (inodes t') \<subseteq> {..<brk h'}" by blast+
  show "brk h \<le> brk h'" by (rule le)
qed

lemma relabelled_Node:
  assumes L: "relabelled (Suc d) lo l h (l', h1)" and R: "relabelled (Suc d) (lo + width (Suc d)) r h1 (r', h2)"
    and inv: "tl_inv d lo (Node a hr l r)" and live: "distinct (inodes (Node a hr l r))"
      "set (inodes (Node a hr l r)) \<subseteq> tls h" "tls h \<subseteq> {..<brk h}"
  shows "relabelled d lo (Node a hr l r) h (Node a (hr\<lparr>tl_needs := False\<rparr>) l' r', h2)"
proof -
  note l = L [unfolded relabelled_def split_conv] and r = R [unfolded relabelled_def split_conv]
  have fits: "fits k (Node a hr' l' r')" if "fits k (Node a hr l r)" for k and hr' :: tl_hdr
    using that l r by (cases k) auto
  have le: "brk h \<le> brk h1" "brk h1 \<le> brk h2" using l r by blast+
  have new: "set (inodes l') \<subseteq> set (inodes l) \<union> {brk h..<brk h1}"
    "set (inodes r') \<subseteq> set (inodes r) \<union> {brk h1..<brk h2}"
    using l r by blast+
  have old: "x < brk h" if "x \<in> set (inodes (Node a hr l r))" for x
    using that live(2,3) by blast
  have old': "set (inodes l) \<subseteq> {..<brk h}" "set (inodes r) \<subseteq> {..<brk h}" "a < brk h" "a < brk h1"
    using old le by force+
  have disj: "set (inodes l') \<inter> set (inodes r) = {}" "set (inodes l') \<inter> set (inodes r') = {}"
    "a \<notin> set (inodes l')" "a \<notin> set (inodes r')"
    using fresh_disjoint [OF new(1), of "set (inodes r)"] fresh_disjoint [OF new(1), of "{a}"]
      fresh_disjoint [OF new(2), of "{a}"] fresh_disjoint2 [OF new le(1)] live(1) old' le(1)
    by (simp_all add: Int_commute)
  have sub: "set (inodes l') \<subseteq> tls h2" "a \<in> tls h2"
  proof -
    show "set (inodes l') \<subseteq> tls h2" using relabelled_frame [OF R disj(1)] l by blast
    have "a \<in> tls h1" using relabelled_frame [OF L, of "{a}"] live by auto
    then show "a \<in> tls h2" using relabelled_frame [OF R, of "{a}"] live by auto
  qed
  have dist: "distinct (a # inodes l' @ inodes r')"
    using disj l r by simp
  have keep: "tls h - set (inodes (Node a hr l r)) \<subseteq> tls h2"
    using l r by auto
  have "tls h1 \<subseteq> tls h \<union> {brk h..<brk h1}" "tls h2 \<subseteq> tls h1 \<union> {brk h1..<brk h2}"
    using l r by blast+
  then have grow: "tls h2 \<subseteq> tls h \<union> {brk h..<brk h2}"
    using le by fastforce
  have inodes: "set (inodes (Node a hr' l' r')) \<subseteq> set (inodes (Node a hr l r)) \<union> {brk h..<brk h2}" for hr' :: tl_hdr
    using new le by fastforce
  have "tl_inv d lo (Node a (hr\<lparr>tl_needs := False\<rparr>) l' r')"
    using inv l r by (simp add: clean_def)
  then show ?thesis
    using l r fits dist sub keep grow inodes [of "hr\<lparr>tl_needs := False\<rparr>"] le
    by (simp add: relabelled_def clean_def)
qed

lemma rebalance_ok:
  "tl_inv d lo t \<Longrightarrow> par_ok par d lo \<Longrightarrow> fits k t \<Longrightarrow> d + k \<le> H \<Longrightarrow> H \<le> 64 \<Longrightarrow>
   par = None \<or> \<not> too_heavy shl (hdr t) H \<Longrightarrow>
   set (inodes t) \<subseteq> tls h \<Longrightarrow> distinct (inodes t) \<Longrightarrow> tls h \<subseteq> {..<brk h} \<Longrightarrow>
   \<exists>res. rebalance shl par t H h = Some res \<and> relabelled d lo t h res"
proof (induction t arbitrary: d lo par k h)
  case (Leaf a hr b)
  then show ?case by (auto intro!: relabelled_refl simp: clean_def)
next
  case (SplitLeaf a hr sn)
  have "k \<noteq> 0" using SplitLeaf.prems(1,3) by (cases k) auto
  then have d: "d < 64" using SplitLeaf.prems(4,5) by simp
  have "(2 :: nat) ^ k \<le> width d"
    unfolding width_def using SplitLeaf.prems(4,5) by (intro power_increasing) auto
  then have "length (leaf_seq (SplitLeaf a hr sn)) \<le> width d"
    using SplitLeaf.prems(3) by simp
  with rebuild_ok [OF SplitLeaf.prems(1) _ SplitLeaf.prems(2) d, of h] SplitLeaf.prems show ?case
    by (auto simp: clear_def)
next
  case (Node a hr l r)
  let ?t = "Node a hr l r" and ?hr = "hr\<lparr>tl_needs := False\<rparr>"
  from Node.prems(3) obtain k' where k': "k = Suc k'" "fits k' l" "fits k' r" by (cases k) auto
  have d: "d < 64" "tl_level hr = d" using Node.prems(1) by auto
  show ?case
  proof (cases "tl_needs hr")
    case False
    with Node.prems show ?thesis by (auto intro!: relabelled_refl simp: clean_def)
  next
    case True
    have cap: "tl_num_leaves ?hr \<le> capacity shl ?hr"
    proof (cases "d = 0")
      case True
      then show ?thesis using d(2) by (simp add: capacity_def MAX_LABEL_def)
    next
      case False
      with Node.prems(2) have "par \<noteq> None" by (auto simp: par_ok_def split: option.splits)
      with Node.prems(6) have "\<not> too_heavy shl hr H" by simp
      moreover have "capacity shl ?hr = capacity shl hr" by (simp add: capacity_def)
      ultimately show ?thesis
        using light_capacity [OF True, of shl H] d(2) Node.prems(4) k'(1) by simp
    qed
    have nl: "\<not> is_leaf (Node a ?hr l r)" using d by simp
    have dvd: "width d dvd lo" using Node.prems(2) d by (intro par_ok_dvd) auto
    show ?thesis
    proof (cases "too_heavy shl (hdr l) H \<or> too_heavy shl (hdr r) H")
      case heavy: True
      have "(2 :: nat) ^ k \<le> width d"
        unfolding width_def using Node.prems(4,5) by (intro power_increasing) auto
      with fits_length [OF Node.prems(3)] have len: "length (leaf_seq ?t) \<le> width d" by linarith
      have "\<exists>res. rebuild par (clear ?t) h = Some res \<and> relabelled d lo ?t h res"
        using rebuild_ok [OF Node.prems(1) _ Node.prems(2) d(1) len, of h] True Node.prems(7-9) by auto
      with True heavy cap nl show ?thesis by (simp add: Let_def)
    next
      case light: False
      note par = par_ok_child [OF Node.prems(2,1) dvd, of False]
      have "\<exists>res. rebalance shl (Some (child_of par ?hr False)) l H h = Some res \<and> relabelled (Suc d) lo l h res"
        by (rule Node.IH(1) [where k = k']) (use Node.prems k' par light in auto)
      then obtain l' h1 where L: "rebalance shl (Some (child_of par ?hr False)) l H h = Some (l', h1)"
        "relabelled (Suc d) lo l h (l', h1)" by auto
      have live1: "tls h1 \<subseteq> {..<brk h1}" "set (inodes r) \<subseteq> tls h1"
        using relabelled_live [OF L(2) Node.prems(9)] relabelled_frame [OF L(2), of "set (inodes r)"] Node.prems(7,8)
        by (auto simp: Int_commute)
      have "\<exists>res. rebalance shl (Some (child_of par ?hr True)) r H h1 = Some res \<and>
          relabelled (Suc d) (lo + width (Suc d)) r h1 res"
        by (rule Node.IH(2) [where k = k']) (use Node.prems k' par light live1 in auto)
      then obtain r' h2 where R: "rebalance shl (Some (child_of par ?hr True)) r H h1 = Some (r', h2)"
        "relabelled (Suc d) (lo + width (Suc d)) r h1 (r', h2)" by auto
      have "relabelled d lo ?t h (Node a ?hr l' r', h2)"
        by (rule relabelled_Node [OF L(2) R(2) Node.prems(1,8,7,9)])
      with True light cap nl L(1) R(1) show ?thesis by (simp add: Let_def)
    qed
  qed
qed

end
