(* ===== verification/Om_Order.thy ===== *)
theory Om_Order
  imports Om Om_Tree_Inv
begin

text \<open>
  The order-maintenance structure keeps an order: \<open>om_rep\<close> relates its state to the list of its sublists,
  whose concatenation is the order.  Insertion puts the new node after its base, relabelling changes no
  order, and \<open>om_precedes\<close> compares positions.
\<close>

subsection \<open>The logarithm\<close>

lemma fast_log2_bounds: "1 \<le> x \<Longrightarrow> 2 ^ fast_log2 x \<le> x \<and> x < 2 * 2 ^ fast_log2 x"
proof (induction x rule: fast_log2.induct)
  case (1 x)
  show ?case
  proof (cases "x < 2")
    case True
    with 1 show ?thesis by (simp add: fast_log2.simps [of x])
  next
    case False
    then have IH: "2 ^ fast_log2 (x div 2) \<le> x div 2" "x div 2 < 2 * 2 ^ fast_log2 (x div 2)"
      using 1 by auto
    have eq: "fast_log2 x = Suc (fast_log2 (x div 2))" using False by (simp add: fast_log2.simps [of x])
    from IH show ?thesis unfolding eq power_Suc by linarith
  qed
qed

locale int_shift =
  fixes shl :: "nat \<Rightarrow> u64"
  assumes shl_int: "h < 31 \<Longrightarrow> shl h = 2 ^ h"
begin

lemma fast_log2_ceil_bound:
  assumes "1 \<le> x" "x < 2 ^ 31"
  shows "x \<le> 2 ^ fast_log2_ceil shl x"
proof -
  let ?k = "fast_log2 x"
  have b: "2 ^ ?k \<le> x" "x < 2 * 2 ^ ?k" using fast_log2_bounds [OF assms(1)] by auto
  have "(2 :: nat) ^ ?k < 2 ^ 31" using b(1) assms(2) by linarith
  then have k: "?k < 31" by (rule power_less_imp_less_exp [rotated]) simp
  show ?thesis
  proof (cases "(of_nat x :: u64) - shl ?k = 0")
    case True
    then have "(of_nat x :: u64) = of_nat (2 ^ ?k)" by (simp add: shl_int [OF k])
    then have "unat (of_nat x :: u64) = unat (of_nat (2 ^ ?k) :: u64)" by (rule arg_cong)
    moreover have "unat (of_nat x :: u64) = x" using assms(2) by (intro unat_of_nat64) simp
    moreover have "unat (of_nat (2 ^ ?k) :: u64) = 2 ^ ?k"
      using \<open>(2 :: nat) ^ ?k < 2 ^ 31\<close> by (intro unat_of_nat64) simp
    ultimately have "x = 2 ^ ?k" by (simp only:)
    with True show ?thesis by (simp add: fast_log2_ceil_def)
  next
    case False
    with b(2) show ?thesis by (simp add: fast_log2_ceil_def)
  qed
qed

end

interpretation x86: int_shift x86_shl
  by unfold_locales (simp add: x86_shl_def)

subsection \<open>Leaves and their addresses\<close>

fun leaf_addrs :: "tl \<Rightarrow> nat list" where
  "leaf_addrs (Leaf a hr b) = [a]"
| "leaf_addrs (SplitLeaf a hr sn) = [a]"
| "leaf_addrs (Node a hr l r) = leaf_addrs l @ leaf_addrs r"

fun plain :: "tl \<Rightarrow> (nat \<times> nat) list" where
  "plain (Leaf a hr b) = [(a, b)]"
| "plain (SplitLeaf a hr sn) = []"
| "plain (Node a hr l r) = plain l @ plain r"

lemma plain_addr: "(a, b) \<in> set (plain t) \<Longrightarrow> a \<in> set (leaf_addrs t)"
  by (induction t) auto

lemma plain_leaf_seq: "set (plain t) \<subseteq> set (leaf_seq t)"
  by (induction t) auto

lemma clean_plain: "tl_inv d lo t \<Longrightarrow> clean t \<Longrightarrow> plain t = leaf_seq t \<and> leaf_addrs t = List.map fst (leaf_seq t)"
proof (induction t arbitrary: d lo)
  case (Node a hr l r)
  then show ?case by (auto simp: clean_def)
qed (auto simp: clean_def)

lemma find_leaf_None: "a \<notin> set (leaf_addrs t) \<Longrightarrow> find_leaf a t = None"
  by (induction t) auto

lemma mark_None: "a \<notin> set (leaf_addrs t) \<Longrightarrow> mark a sn t = None"
  by (induction t) auto

lemma set_below_id: "a \<notin> set (leaf_addrs t) \<Longrightarrow> set_below a b t = t"
  by (induction t) auto

lemma find_leaf_plain:
  "(a, b) \<in> set (plain t) \<Longrightarrow> distinct (leaf_addrs t) \<Longrightarrow> \<exists>hr. find_leaf a t = Some (Leaf a hr b)"
proof (induction t)
  case (Node a' hr l r)
  show ?case
  proof (cases "(a, b) \<in> set (plain l)")
    case True
    with Node show ?thesis by auto
  next
    case False
    with Node.prems have "a \<notin> set (leaf_addrs l)" by (auto dest: plain_addr)
    with False Node show ?thesis by (auto simp: find_leaf_None)
  qed
qed auto

lemma leaf_below_plain:
  "(a, b) \<in> set (plain t) \<Longrightarrow> distinct (leaf_addrs t) \<Longrightarrow> leaf_below t a = Some b"
  using find_leaf_plain [of a b t] by (auto simp: leaf_below_def)

lemma find_leaf_level:
  "tl_inv d lo t \<Longrightarrow> find_leaf a t = Some n \<Longrightarrow> tl_level (hdr n) = 64 \<and> addr n = a"
  by (induction t arbitrary: d lo) (auto split: option.splits if_splits)

subsection \<open>Labels of the leaves\<close>

fun leaf_labels :: "tl \<Rightarrow> u64 list" where
  "leaf_labels (Leaf a hr b) = [tl_label hr]"
| "leaf_labels (SplitLeaf a hr sn) = []"
| "leaf_labels (Node a hr l r) = leaf_labels l @ leaf_labels r"

lemma leaf_labels_range:
  "tl_inv d lo t \<Longrightarrow> x \<in> set (leaf_labels t) \<Longrightarrow> lo \<le> unat x \<and> unat x < lo + width d"
proof (induction t arbitrary: d lo)
  case (Node a hr l r)
  then have "width d = 2 * width (Suc d)" by (simp add: width_half)
  with Node show ?case by fastforce
qed auto

lemma leaf_labels_sorted: "tl_inv d lo t \<Longrightarrow> sorted_wrt (<) (leaf_labels t)"
proof (induction t arbitrary: d lo)
  case (Node a hr l r)
  have "x < y" if "x \<in> set (leaf_labels l)" "y \<in> set (leaf_labels r)" for x y
    using leaf_labels_range [of "Suc d" lo l x] leaf_labels_range [of "Suc d" "lo + width (Suc d)" r y] that Node.prems
    by (auto simp: u64_less_unat)
  with Node show ?case by (auto simp: sorted_wrt_append)
qed auto

lemma leaf_labels_length: "tl_inv d lo t \<Longrightarrow> clean t \<Longrightarrow> length (leaf_labels t) = length (leaf_seq t)"
proof (induction t arbitrary: d lo)
  case (Node a hr l r)
  then show ?case by (auto simp: clean_def)
qed (auto simp: clean_def)

lemma find_leaf_label:
  "tl_inv d lo t \<Longrightarrow> clean t \<Longrightarrow> distinct (leaf_addrs t) \<Longrightarrow> i < length (leaf_seq t) \<Longrightarrow>
     \<exists>n. find_leaf (fst (leaf_seq t ! i)) t = Some n \<and> tl_label (hdr n) = leaf_labels t ! i"
proof (induction t arbitrary: d lo i)
  case (Node a hr l r)
  have cl: "clean l" "clean r" "tl_inv (Suc d) lo l" "tl_inv (Suc d) (lo + width (Suc d)) r"
    using Node.prems by (auto simp: clean_def)
  note ll = leaf_labels_length [OF cl(3,1)]
  have addrs: "leaf_addrs l = List.map fst (leaf_seq l)" "leaf_addrs r = List.map fst (leaf_seq r)"
    using clean_plain cl by blast+
  show ?case
  proof (cases "i < length (leaf_seq l)")
    case True
    with Node.IH(1) [OF cl(3,1), of i] Node.prems(3) ll show ?thesis
      by (auto simp: nth_append)
  next
    case False
    let ?i = "i - length (leaf_seq l)"
    have i: "?i < length (leaf_seq r)" using False Node.prems(4) by simp
    then have "fst (leaf_seq r ! ?i) \<in> set (leaf_addrs r)" by (simp add: addrs)
    then have "fst (leaf_seq r ! ?i) \<notin> set (leaf_addrs l)" using Node.prems(3) by auto
    with Node.IH(2) [OF cl(4,2) _ i] Node.prems(3) ll False show ?thesis
      by (auto simp: nth_append find_leaf_None)
  qed
qed (auto simp: clean_def)


subsection \<open>The order\<close>

definition leaf_rep :: "bheap \<Rightarrow> nat \<times> nat \<Rightarrow> nat list \<Rightarrow> bool" where
  "leaf_rep h p xs \<longleftrightarrow> blist_rep h (snd p) xs \<and>
     (\<exists>L. blists h (snd p) = Some L \<and> bl_above L = Some (fst p) \<and> (xs = [] \<longrightarrow> bl_heavy L = 0))"

text \<open>Between and during relabellings: leaves may be split.\<close>

definition om_mid :: "om \<Rightarrow> bheap \<Rightarrow> nat list list \<Rightarrow> bool" where
  "om_mid self h xss \<longleftrightarrow>
     tl_inv 0 0 (om_root self) \<and> fits (om_height self) (om_root self) \<and> brk_ok h \<and>
     distinct (leaf_addrs (om_root self)) \<and> distinct (inodes (om_root self)) \<and>
     distinct (List.map fst (leaf_seq (om_root self))) \<and>
     set (inodes (om_root self)) \<inter> set (List.map fst (leaf_seq (om_root self))) = {} \<and>
     set (inodes (om_root self)) \<union> set (List.map fst (leaf_seq (om_root self))) \<subseteq> tls h \<and>
     list_all2 (leaf_rep h) (leaf_seq (om_root self)) xss \<and>
     (length xss = 1 \<or> (\<forall>xs\<in>set xss. xs \<noteq> []))"

definition om_rep :: "om \<Rightarrow> bheap \<Rightarrow> nat list list \<Rightarrow> bool" where
  "om_rep self h xss \<longleftrightarrow> om_mid self h xss \<and> clean (om_root self)"

lemma om_rep_leaf:
  assumes "om_rep self h xss" "i < length xss"
  obtains a b L where "leaf_seq (om_root self) ! i = (a, b)" "(a, b) \<in> set (plain (om_root self))"
    "blist_rep h b (xss ! i)" "blists h b = Some L" "bl_above L = Some a"
    "length (leaf_seq (om_root self)) = length xss"
proof -
  from assms have mid: "om_mid self h xss" "clean (om_root self)" by (auto simp: om_rep_def)
  obtain a b where ab: "leaf_seq (om_root self) ! i = (a, b)" by (cases "leaf_seq (om_root self) ! i")
  have all: "list_all2 (leaf_rep h) (leaf_seq (om_root self)) xss" using mid by (simp add: om_mid_def)
  then have len: "length (leaf_seq (om_root self)) = length xss" by (rule list_all2_lengthD)
  have "leaf_rep h (a, b) (xss ! i)" using list_all2_nthD2 [OF all assms(2)] ab by simp
  moreover have "(a, b) \<in> set (plain (om_root self))"
    using clean_plain [of 0 0 "om_root self"] mid ab len assms(2) nth_mem [of i "leaf_seq (om_root self)"]
    by (simp add: om_mid_def)
  ultimately show thesis using that ab len by (auto simp: leaf_rep_def)
qed

lemma above_of_leaf:
  assumes "om_rep self h xss" "i < length xss" "leaf_seq (om_root self) ! i = (a, b)"
  shows "\<exists>n. above_of self h b = Some n \<and> addr n = a \<and> tl_level (hdr n) = 64 \<and>
     tl_label (hdr n) = leaf_labels (om_root self) ! i \<and> leaf_below (om_root self) a = Some b"
proof -
  from assms(1) have mid: "om_mid self h xss" "clean (om_root self)" by (auto simp: om_rep_def)
  from om_rep_leaf [OF assms(1,2)] assms(3) obtain L where
    L: "(a, b) \<in> set (plain (om_root self))" "blists h b = Some L" "bl_above L = Some a"
      "length (leaf_seq (om_root self)) = length xss" by (metis prod.inject)
  have inv: "tl_inv 0 0 (om_root self)" "distinct (leaf_addrs (om_root self))"
    using mid by (auto simp: om_mid_def)
  obtain n where "find_leaf a (om_root self) = Some n" "tl_label (hdr n) = leaf_labels (om_root self) ! i"
    using find_leaf_label [OF inv(1) mid(2) inv(2), of i] L(4) assms(2,3) by auto
  with L find_leaf_level [OF inv(1)] leaf_below_plain [OF L(1) inv(2)] show ?thesis
    by (auto simp: above_of_def)
qed

text \<open>Two positions of the concatenation, by list and index.\<close>

definition pos :: "'a list list \<Rightarrow> nat \<Rightarrow> nat \<Rightarrow> nat" where
  "pos xss i j = length (concat (take i xss)) + j"

lemma pos_nth: "i < length xss \<Longrightarrow> j < length (xss ! i) \<Longrightarrow> concat xss ! pos xss i j = xss ! i ! j"
proof (induction xss arbitrary: i)
  case (Cons xs xss)
  then show ?case by (cases i) (auto simp: pos_def nth_append)
qed simp

lemma pos_ex: "k < length (concat xss) \<Longrightarrow> \<exists>i j. i < length xss \<and> j < length (xss ! i) \<and> k = pos xss i j"
proof (induction xss arbitrary: k)
  case (Cons xs xss)
  show ?case
  proof (cases "k < length xs")
    case True
    then show ?thesis by (intro exI [of _ 0] exI [of _ k]) (simp add: pos_def)
  next
    case False
    with Cons obtain i j where "i < length xss" "j < length (xss ! i)" "k - length xs = pos xss i j"
      by (metis (no_types, lifting) add_diff_inverse_nat concat.simps(2) length_append nat_add_left_cancel_less)
    with False show ?thesis by (intro exI [of _ "Suc i"] exI [of _ j]) (simp add: pos_def)
  qed
qed simp

lemma pos_less_list:
  "i < i' \<Longrightarrow> i' < length xss \<Longrightarrow> j < length (xss ! i) \<Longrightarrow> pos xss i j < pos xss i' j'"
proof (induction xss arbitrary: i i')
  case (Cons xs xss)
  then obtain k' where k': "i' = Suc k'" by (cases i') auto
  show ?case
  proof (cases i)
    case 0
    with k' Cons.prems show ?thesis by (simp add: pos_def)
  next
    case (Suc k)
    with k' Cons show ?thesis by (simp add: pos_def)
  qed
qed simp

lemma pos_less_iff:
  assumes "i < length xss" "i' < length xss" "j < length (xss ! i)" "j' < length (xss ! i')"
  shows "pos xss i j < pos xss i' j' \<longleftrightarrow> i < i' \<or> i = i' \<and> j < j'"
proof (cases i i' rule: linorder_cases)
  case less
  with pos_less_list [OF less assms(2,3)] show ?thesis by auto
next
  case equal
  then show ?thesis by (simp add: pos_def)
next
  case greater
  from pos_less_list [OF greater assms(1,4), of j] greater show ?thesis by auto
qed

lemma om_precedes_pos:
  assumes rep: "om_rep self h xss" and i: "i < length xss" "j < length (xss ! i)"
    and i': "i' < length xss" "j' < length (xss ! i')"
  shows "om_precedes self h (Some (xss ! i ! j)) (Some (xss ! i' ! j')) = Some (i < i' \<or> i = i' \<and> j < j')"
proof -
  obtain a b L where ab: "leaf_seq (om_root self) ! i = (a, b)" "blist_rep h b (xss ! i)" "blists h b = Some L" "bl_above L = Some a"
    "length (leaf_seq (om_root self)) = length xss"
    using om_rep_leaf [OF rep i(1)] by metis
  obtain a' b' L' where ab': "leaf_seq (om_root self) ! i' = (a', b')" "blist_rep h b' (xss ! i')" "blists h b' = Some L'" "bl_above L' = Some a'"
    using om_rep_leaf [OF rep i'(1)] by metis
  from ab(2) i(2) obtain x where x: "nodes h (xss ! i ! j) = Some x" "nd_list x = Some b"
    by (metis blist_rep_node nth_mem)
  from ab'(2) i'(2) obtain y where y: "nodes h (xss ! i' ! j') = Some y" "nd_list y = Some b'"
    by (metis blist_rep_node nth_mem)
  have inv: "tl_inv 0 0 (om_root self)" "clean (om_root self)" "distinct (List.map fst (leaf_seq (om_root self)))"
    using rep by (auto simp: om_rep_def om_mid_def)
  show ?thesis
  proof (cases "i = i'")
    case True
    then have "b = b'" using ab(1) ab'(1) by simp
    with bl_precedes_rep [OF ab(2) i(2), of j'] i'(2) True x y show ?thesis
      by (auto simp: om_precedes_def bl_precedes_def)
  next
    case False
    have "b \<noteq> b'"
    proof
      assume "b = b'"
      with ab ab' have "a = a'" by simp
      with ab(1,5) ab'(1) i(1) i'(1) False inv(3) show False
        by (metis fst_conv length_map nth_eq_iff_index_eq nth_map)
    qed
    moreover obtain n n' where n: "above_of self h b = Some n" "tl_label (hdr n) = leaf_labels (om_root self) ! i"
      "above_of self h b' = Some n'" "tl_label (hdr n') = leaf_labels (om_root self) ! i'"
      using above_of_leaf [OF rep i(1) ab(1)] above_of_leaf [OF rep i'(1) ab'(1)] by auto
    moreover have "leaf_labels (om_root self) ! i < leaf_labels (om_root self) ! i' \<longleftrightarrow> i < i'"
      using leaf_labels_sorted [OF inv(1)] leaf_labels_length [OF inv(1,2)] ab(5) i(1) i'(1)
      by (intro sorted_wrt_nth_iff) (auto simp: transp_def irreflp_def)
    ultimately show ?thesis
      using x y False by (simp add: om_precedes_def)
  qed
qed

theorem om_precedes_order:
  assumes "om_rep self h xss" "k < length (concat xss)" "k' < length (concat xss)"
  shows "om_precedes self h (Some (concat xss ! k)) (Some (concat xss ! k')) = Some (k < k')"
proof -
  obtain i j where i: "i < length xss" "j < length (xss ! i)" "k = pos xss i j" using pos_ex [OF assms(2)] by blast
  obtain i' j' where i': "i' < length xss" "j' < length (xss ! i')" "k' = pos xss i' j'" using pos_ex [OF assms(3)] by blast
  show ?thesis
    using om_precedes_pos [OF assms(1) i(1,2) i'(1,2)] pos_less_iff [OF i(1) i'(1) i(2) i'(2)]
      pos_nth [OF i(1,2)] pos_nth [OF i'(1,2)] i(3) i'(3) by simp
qed

end
