(* ===== verification/Om_Update.thy ===== *)
theory Om_Update
  imports Om_Order
begin

text \<open>
  Insertion and relabelling keep the order: \<open>om_insert\<close> puts the new node after its base, or reports that
  there is no room and changes nothing; \<open>om_relabel\<close> gives every list room and leaves the order as it was.
\<close>

subsection \<open>Insertion\<close>

lemma leaf_rep_after_insert:
  assumes rep: "blist_rep h l (us @ b # vs)" "brk_ok h" and q: "leaf_rep h q ys" "snd q \<noteq> l"
  shows "leaf_rep (after_insert h l b vs lab) q ys"
proof -
  have "b \<noteq> brk h" using blist_rep_fresh [OF rep] by auto
  then show ?thesis
    using after_insert_other [OF rep _ q(2), of ys] q after_insert_frame(2) [of b h "snd q" l vs lab]
    by (simp add: leaf_rep_def)
qed

lemma leaf_seq_lists_distinct:
  assumes "om_mid self h xss"
  shows "distinct (List.map snd (leaf_seq (om_root self)))"
proof -
  let ?ls = "leaf_seq (om_root self)"
  have all: "list_all2 (leaf_rep h) ?ls xss" and dist: "distinct (List.map fst ?ls)"
    using assms by (auto simp: om_mid_def)
  have "\<exists>L. blists h (snd p) = Some L \<and> bl_above L = Some (fst p)" if "p \<in> set ?ls" for p
    using that list_all2_nthD [OF all] by (metis in_set_conv_nth leaf_rep_def)
  then have "fst p = fst q" if "p \<in> set ?ls" "q \<in> set ?ls" "snd p = snd q" for p q
    using that by (metis option.inject)
  then have "inj_on snd (set ?ls)"
    by (intro inj_onI prod_eqI)
  with dist show ?thesis by (simp add: distinct_map)
qed

lemma om_insert_full:
  assumes rep: "om_rep self h xss" and i: "i < length xss" "xss ! i = us @ b # vs" and full: "\<not> has_room h b vs"
  shows "om_insert self b h = Some (None, h)"
proof -
  obtain a l L where ab: "leaf_seq (om_root self) ! i = (a, l)" "blist_rep h l (us @ b # vs)"
    using om_rep_leaf [OF rep i(1)] i(2) by metis
  obtain nd where "nodes h b = Some nd" "nd_list nd = Some l"
    using blist_rep_node [OF ab(2), of b] by auto
  moreover obtain n where "above_of self h l = Some n" "addr n = a" "tl_level (hdr n) = 64" "leaf_below (om_root self) a = Some l"
    using above_of_leaf [OF rep i(1) ab(1)] by auto
  ultimately show ?thesis
    using bl_insert_full [OF ab(2) full] by (simp add: om_insert_def)
qed

lemma om_insert_room:
  assumes rep: "om_rep self h xss" and i: "i < length xss" "xss ! i = us @ b # vs" and room: "has_room h b vs"
  shows "\<exists>n h'. om_insert self b h = Some (Some n, h') \<and> om_rep self h' (xss[i := us @ b # n # vs]) \<and>
           nodes h n = None"
proof -
  have mid: "om_mid self h xss" and ok: "brk_ok h" using rep by (auto simp: om_rep_def om_mid_def)
  obtain a l L where ab: "leaf_seq (om_root self) ! i = (a, l)" "blist_rep h l (us @ b # vs)"
    "blists h l = Some L" "bl_above L = Some a" "length (leaf_seq (om_root self)) = length xss"
    using om_rep_leaf [OF rep i(1)] i(2) by metis
  obtain nd where nd: "nodes h b = Some nd" "nd_list nd = Some l"
    using blist_rep_node [OF ab(2), of b] by auto
  let ?lab = "new_label (label_of (nodes h) b) (nxt_label (nodes h) vs)"
  let ?h = "after_insert h l b vs ?lab"
  have new: "brk h \<notin> set (us @ b # vs)" by (rule blist_rep_fresh [OF ab(2) ok])
  have run: "bl_insert l b h = Some (Some (brk h), ?h)" by (rule bl_insert_room [OF ab(2) ok room])
  have rep': "blist_rep ?h l (us @ b # brk h # vs)" by (rule after_insert_rep [OF ab(2) ok room])
  obtain nb where nb: "nodes ?h b = Some nb" by (rule blist_rep_node [OF rep', of b]) simp_all
  obtain nn where nn: "nodes ?h (brk h) = Some nn" by (rule blist_rep_node [OF rep', of "brk h"]) simp_all
  have "labels_inc (nodes ?h) (us @ b # brk h # vs)" using rep' by (simp add: blist_rep_def)
  then have "nd_label nb < nd_label nn" using nb nn by (simp add: labels_inc_split)
  moreover obtain n where "above_of self h l = Some n" "addr n = a" "tl_level (hdr n) = 64" "leaf_below (om_root self) a = Some l"
    using above_of_leaf [OF rep i(1) ab(1)] by auto
  ultimately have ins: "om_insert self b h = Some (Some (brk h), ?h)"
    using run nd nb nn by (simp add: om_insert_def)
  have all: "list_all2 (leaf_rep h) (leaf_seq (om_root self)) xss" using mid by (simp add: om_mid_def)
  have "list_all2 (leaf_rep ?h) (leaf_seq (om_root self)) (xss[i := us @ b # brk h # vs])"
    unfolding list_all2_conv_all_nth
  proof (intro conjI allI impI)
    show "length (leaf_seq (om_root self)) = length (xss[i := us @ b # brk h # vs])" using ab(5) by simp
    fix k assume k: "k < length (leaf_seq (om_root self))"
    show "leaf_rep ?h (leaf_seq (om_root self) ! k) (xss[i := us @ b # brk h # vs] ! k)"
    proof (cases "k = i")
      case True
      obtain L0 where "blists h l = Some L0" "bl_above L0 = Some a"
        using list_all2_nthD [OF all k] True ab(1) by (auto simp: leaf_rep_def)
      with after_insert_heavy [OF this(1), of b vs ?lab] rep' True ab(1,5) i(1) show ?thesis
        by (auto simp: leaf_rep_def)
    next
      case False
      have "snd (leaf_seq (om_root self) ! k) \<noteq> l"
        using leaf_seq_lists_distinct [OF mid] False k ab(1,5) i(1)
        by (metis length_map nth_eq_iff_index_eq nth_map snd_conv)
      with leaf_rep_after_insert [OF ab(2) ok list_all2_nthD [OF all k]] False show ?thesis by simp
    qed
  qed
  moreover have "tls ?h = tls h" using after_insert_frame(4) [of b h] new by auto
  moreover have "brk_ok ?h" by (rule after_insert_brk_ok [OF ab(2) ok])
  moreover have "length (xss[i := us @ b # brk h # vs]) = 1 \<or> (\<forall>xs\<in>set (xss[i := us @ b # brk h # vs]). xs \<noteq> [])"
    using mid by (auto simp: om_mid_def dest!: set_update_subset_insert [THEN subsetD])
  ultimately have "om_rep self ?h (xss[i := us @ b # brk h # vs])"
    using rep by (simp add: om_rep_def om_mid_def)
  with ins ok show ?thesis by (auto simp: brk_ok_def)
qed

lemma concat_update:
  "i < length xss \<Longrightarrow> xss ! i = us @ vs \<Longrightarrow>
     concat xss = (concat (take i xss) @ us) @ (vs @ concat (drop (Suc i) xss)) \<and>
     concat (xss[i := us @ ws @ vs]) = (concat (take i xss) @ us) @ ws @ (vs @ concat (drop (Suc i) xss))"
  by (simp add: upd_conv_take_nth_drop) (metis append.assoc concat.simps(2) concat_append id_take_nth_drop)

lemma in_concat_split:
  assumes "concat xss = pre @ b # post" 
  shows "\<exists>i us vs. i < length xss \<and> xss ! i = us @ b # vs \<and> pre = concat (take i xss) @ us \<and>
     post = vs @ concat (drop (Suc i) xss)"
proof -
  have "length pre < length (concat xss)" using assms by simp
  then obtain i j where ij: "i < length xss" "j < length (xss ! i)" "length pre = pos xss i j"
    using pos_ex by blast
  let ?us = "take j (xss ! i)" and ?vs = "drop (Suc j) (xss ! i)"
  have split: "xss ! i = ?us @ xss ! i ! j # ?vs" using ij(2) by (simp add: id_take_nth_drop)
  then have c: "concat xss = (concat (take i xss) @ ?us) @ (xss ! i ! j # ?vs @ concat (drop (Suc i) xss))"
    using concat_update [OF ij(1), of ?us "xss ! i ! j # ?vs" "[]"] by simp
  have "length (concat (take i xss) @ ?us) = length pre" using ij by (simp add: pos_def)
  with c assms have "pre = concat (take i xss) @ ?us \<and> b = xss ! i ! j \<and> post = ?vs @ concat (drop (Suc i) xss)"
    by (metis append_eq_append_conv list.inject)
  with ij split show ?thesis by metis
qed

theorem om_insert_order:
  assumes rep: "om_rep self h xss" and order: "concat xss = pre @ b # post"
  shows "om_insert self b h = Some (None, h) \<or>
    (\<exists>n h' xss'. om_insert self b h = Some (Some n, h') \<and> om_rep self h' xss' \<and>
       concat xss' = pre @ b # n # post \<and> nodes h n = None)"
proof -
  obtain i us vs where i: "i < length xss" "xss ! i = us @ b # vs" "pre = concat (take i xss) @ us"
    "post = vs @ concat (drop (Suc i) xss)"
    using in_concat_split [OF order] by blast
  show ?thesis
  proof (cases "has_room h b vs")
    case False
    with om_insert_full [OF rep i(1,2)] show ?thesis by blast
  next
    case True
    then obtain n h' where "om_insert self b h = Some (Some n, h')" "om_rep self h' (xss[i := us @ b # n # vs])" "nodes h n = None"
      using om_insert_room [OF rep i(1,2)] by blast
    moreover have "concat (xss[i := us @ b # n # vs]) = pre @ b # n # post"
      using concat_update [OF i(1), of "us @ [b]" vs "[n]"] i(2-4) by simp
    ultimately show ?thesis by blast
  qed
qed


subsection \<open>Marking\<close>

lemma unat_bump:
  assumes "1 \<le> k" "unat w + k < 18446744073709551616"
  shows "unat (w + (of_nat k - 1) :: u64) = unat w + k - 1"
proof -
  have "(of_nat k - 1 :: u64) = of_nat (k - 1)" using assms(1) by simp
  moreover have "unat (of_nat (k - 1) :: u64) = k - 1" using assms by (intro unat_of_nat64) simp
  ultimately show ?thesis using assms by (simp add: u64_add_unat)
qed

text \<open>Leaf \<open>a\<close> of \<open>t\<close> with its list \<open>b\<close> has become the leaves \<open>sn\<close>; \<open>n\<close> nodes are on its path.\<close>

definition grown :: "nat \<Rightarrow> nat \<Rightarrow> (nat \<times> nat) list \<Rightarrow> tl \<Rightarrow> tl \<Rightarrow> bool" where
  "grown a b sn t t' \<longleftrightarrow>
     (\<exists>us vs. leaf_seq t = us @ (a, b) # vs \<and> leaf_seq t' = us @ sn @ vs) \<and>
     leaf_addrs t' = leaf_addrs t \<and> (\<forall>p. p \<in> set (plain t) \<and> fst p \<noteq> a \<longrightarrow> p \<in> set (plain t'))"

lemma grown_leaf: "grown a b sn (Leaf a hr b) (SplitLeaf a hr' sn)"
  unfolding grown_def by (intro conjI exI [of _ "[]"]) auto

lemma grown_left: "grown a b sn l l' \<Longrightarrow> grown a b sn (Node x hr l r) (Node x hr' l' r)"
  by (fastforce simp: grown_def)

lemma grown_right: "grown a b sn r r' \<Longrightarrow> grown a b sn (Node x hr l r) (Node x hr' l r')"
  unfolding grown_def
proof (elim conjE exE, intro conjI)
  fix us vs assume "leaf_seq r = us @ (a, b) # vs" "leaf_seq r' = us @ sn @ vs"
  then show "\<exists>us vs. leaf_seq (Node x hr l r) = us @ (a, b) # vs \<and> leaf_seq (Node x hr' l r') = us @ sn @ vs"
    by (intro exI [of _ "leaf_seq l @ us"] exI [of _ vs]) simp
qed auto

lemma grown_length: "grown a b sn t t' \<Longrightarrow> length (leaf_seq t') + 1 = length (leaf_seq t) + length sn"
  by (auto simp: grown_def)

lemma mark_ok:
  "tl_inv d lo t \<Longrightarrow> (a, b) \<in> set (plain t) \<Longrightarrow> distinct (leaf_addrs t) \<Longrightarrow> 2 \<le> length sn \<Longrightarrow>
   length (leaf_seq t) + length sn < 18446744073709551616 \<Longrightarrow>
   \<exists>t' n. mark a sn t = Some (t', n) \<and> 1 \<le> n \<and> tl_inv d lo t' \<and> tl_needs (hdr t') \<and> grown a b sn t t' \<and>
     set (inodes t') = insert a (set (inodes t)) \<and>
     (a \<notin> set (inodes t) \<longrightarrow> distinct (inodes t) \<longrightarrow> distinct (inodes t')) \<and>
     (\<forall>H c. fits H t \<longrightarrow> n - 1 + c \<le> H \<longrightarrow> length sn \<le> 2 ^ c \<longrightarrow> fits H t')"
proof (induction t arbitrary: d lo)
  case (Leaf a' hr b')
  have "length sn \<le> 2 ^ H" if "c \<le> H" "length sn \<le> 2 ^ c" for H c
    using that by (meson le_trans one_le_numeral power_increasing)
  moreover have "(1 :: u64) + (of_nat (length sn) - 1) = of_nat (length sn)" by simp
  ultimately show ?case
    using Leaf by (auto simp: bump_def grown_leaf unat_of_nat64)
next
  case (Node a' hr l r)
  have inv: "tl_inv (Suc d) lo l" "tl_inv (Suc d) (lo + width (Suc d)) r" "d < 64" "tl_level hr = d"
    "unat (tl_label hr) = lo + width d - 1" "unat (tl_num_leaves hr) = length (leaf_seq l) + length (leaf_seq r)"
    using Node.prems(1) by auto
  have num: "unat (tl_num_leaves (bump (length sn) hr)) = length (leaf_seq l) + length (leaf_seq r) + length sn - 1"
    using unat_bump [of "length sn" "tl_num_leaves hr"] inv(6) Node.prems(4,5) by (simp add: bump_def)
  show ?case
  proof (cases "(a, b) \<in> set (plain l)")
    case True
    then obtain l' n where l: "mark a sn l = Some (l', n)" "1 \<le> n" "tl_inv (Suc d) lo l'" "tl_needs (hdr l')"
      "grown a b sn l l'" "set (inodes l') = insert a (set (inodes l))"
      "a \<notin> set (inodes l) \<longrightarrow> distinct (inodes l) \<longrightarrow> distinct (inodes l')"
      "\<And>H c. fits H l \<Longrightarrow> n - 1 + c \<le> H \<Longrightarrow> length sn \<le> 2 ^ c \<Longrightarrow> fits H l'"
      using Node.IH(1) [OF inv(1)] Node.prems(3-5) by auto
    have "tl_inv d lo (Node a' (bump (length sn) hr) l' r)"
      using inv l(3,4) num grown_length [OF l(5)] Node.prems(4) by (simp add: bump_def)
    moreover have "fits H (Node a' (bump (length sn) hr) l' r)"
      if "fits H (Node a' hr l r)" "n + c \<le> H" "length sn \<le> 2 ^ c" for H c
    proof (cases H)
      case (Suc k)
      with that l(2) have "fits k l" "fits k r" "n - 1 + c \<le> k" by auto
      with l(8) that(3) Suc show ?thesis by simp
    qed (use that in simp)
    ultimately show ?thesis
      using l grown_left [OF l(5), of a' hr r "bump (length sn) hr"] by (auto simp: bump_def)
  next
    case False
    with Node.prems(2) have inr: "(a, b) \<in> set (plain r)" by auto
    then have "a \<notin> set (leaf_addrs l)" using Node.prems(3) by (auto dest: plain_addr)
    then have none: "mark a sn l = None" by (rule mark_None)
    from inr obtain r' n where r: "mark a sn r = Some (r', n)" "1 \<le> n" "tl_inv (Suc d) (lo + width (Suc d)) r'" "tl_needs (hdr r')"
      "grown a b sn r r'" "set (inodes r') = insert a (set (inodes r))"
      "a \<notin> set (inodes r) \<longrightarrow> distinct (inodes r) \<longrightarrow> distinct (inodes r')"
      "\<And>H c. fits H r \<Longrightarrow> n - 1 + c \<le> H \<Longrightarrow> length sn \<le> 2 ^ c \<Longrightarrow> fits H r'"
      using Node.IH(2) [OF inv(2)] Node.prems(3-5) by auto
    have "tl_inv d lo (Node a' (bump (length sn) hr) l r')"
      using inv r(3,4) num grown_length [OF r(5)] Node.prems(4) by (simp add: bump_def)
    moreover have "fits H (Node a' (bump (length sn) hr) l r')"
      if "fits H (Node a' hr l r)" "n + c \<le> H" "length sn \<le> 2 ^ c" for H c
    proof (cases H)
      case (Suc k)
      with that r(2) have "fits k r" "fits k l" "n - 1 + c \<le> k" by auto
      with r(8) that(3) Suc show ?thesis by simp
    qed (use that in simp)
    ultimately show ?thesis
      using r none grown_right [OF r(5), of a' hr l "bump (length sn) hr"] by (auto simp: bump_def)
  qed
qed auto

lemma set_below_ok:
  "tl_inv d lo t \<Longrightarrow> (a, b) \<in> set (plain t) \<Longrightarrow> distinct (leaf_addrs t) \<Longrightarrow>
   tl_inv d lo (set_below a c t) \<and> grown a b [(a, c)] t (set_below a c t) \<and> inodes (set_below a c t) = inodes t \<and>
   (\<forall>H. fits H (set_below a c t) = fits H t) \<and> tl_needs (hdr (set_below a c t)) = tl_needs (hdr t)"
proof (induction t arbitrary: d lo)
  case (Node a' hr l r)
  have fits_iff: "fits H (Node a' hr l' r') = fits H (Node a' hr l r)"
    if "\<And>H. fits H l' = fits H l" "\<And>H. fits H r' = fits H r" for H l' r'
    using that by (cases H) auto
  show ?case
  proof (cases "(a, b) \<in> set (plain l)")
    case True
    then have "a \<notin> set (leaf_addrs r)" using Node.prems(3) by (auto dest: plain_addr)
    then have r: "set_below a c r = r" by (rule set_below_id)
    have l: "tl_inv (Suc d) lo (set_below a c l)" "grown a b [(a, c)] l (set_below a c l)" "inodes (set_below a c l) = inodes l"
      "\<And>H. fits H (set_below a c l) = fits H l" "tl_needs (hdr (set_below a c l)) = tl_needs (hdr l)"
      using Node.IH(1) [of "Suc d" lo] Node.prems True by auto
    with r grown_left [OF l(2), of a' hr r hr] grown_length [OF l(2)] Node.prems(1) fits_iff [of "set_below a c l" r] show ?thesis
      by simp
  next
    case False
    with Node.prems(2) have inr: "(a, b) \<in> set (plain r)" by auto
    then have "a \<notin> set (leaf_addrs l)" using Node.prems(3) by (auto dest: plain_addr)
    then have l: "set_below a c l = l" by (rule set_below_id)
    have r: "tl_inv (Suc d) (lo + width (Suc d)) (set_below a c r)" "grown a b [(a, c)] r (set_below a c r)" "inodes (set_below a c r) = inodes r"
      "\<And>H. fits H (set_below a c r) = fits H r" "tl_needs (hdr (set_below a c r)) = tl_needs (hdr r)"
      using Node.IH(2) [of "Suc d" "lo + width (Suc d)"] Node.prems inr by auto
    with l grown_right [OF r(2), of a' hr l hr] grown_length [OF r(2)] Node.prems(1) fits_iff [of l "set_below a c r"] show ?thesis
      by simp
  qed
qed (auto simp: grown_def)


subsection \<open>Splitting one list\<close>

lemma leaf_rep_cong:
  assumes "leaf_rep h q ys" "\<forall>x\<in>set ys. nodes h' x = nodes h x" "blists h' (snd q) = blists h (snd q)"
  shows "leaf_rep h' q ys"
  using assms blist_rep_cong [of ys h' h "snd q"] by (auto simp: leaf_rep_def)

lemma filled_leaf_rep:
  "filled h b a c \<Longrightarrow> length c \<le> 64 \<Longrightarrow> leaf_rep h (a, b) c"
  using filled_rep [of h b a c] by (auto simp: leaf_rep_def filled_def)

lemma leaf_rep_lt: "leaf_rep h q ys \<Longrightarrow> brk_ok h \<Longrightarrow> snd q < brk h"
  by (auto simp: leaf_rep_def intro: brk_ok_blist)

text \<open>The labels that a split gives.\<close>

definition spread :: "bheap \<Rightarrow> nat list \<Rightarrow> bool" where
  "spread h c \<longleftrightarrow> (\<forall>i<length c. label_of (nodes h) (c ! i) = of_nat i * NODE_INTERVAL)"

lemma filled_spread: "filled h b a c \<Longrightarrow> spread h c"
  by (simp add: filled_def spread_def)

lemma spread_gap:
  assumes "spread h (us @ b # vs)" "length (us @ b # vs) \<le> 64"
  shows "2 ^ 58 \<le> gap h b vs"
proof -
  let ?c = "us @ b # vs"
  have lab: "unat (label_of (nodes h) (?c ! i)) = i * 288230376151711744" if "i < length ?c" for i
    using assms that by (simp only: spread_def) (simp add: unat_interval)
  have b: "unat (label_of (nodes h) b) = length us * 288230376151711744"
    using lab [of "length us"] by (simp add: nth_append)
  show ?thesis
  proof (cases vs)
    case Nil
    with assms(2) have "length us \<le> 63" by simp
    with Nil b show ?thesis by (simp add: gap_def nxt_label_def)
  next
    case (Cons v ws)
    then have "unat (label_of (nodes h) v) = Suc (length us) * 288230376151711744"
      using lab [of "Suc (length us)"] by (simp add: nth_append)
    with Cons b show ?thesis by (simp add: gap_def nxt_label_def)
  qed
qed

text \<open>The leaf \<open>p\<close> has its list marked as heavy.\<close>

definition marked :: "bheap \<Rightarrow> nat \<times> nat \<Rightarrow> bool" where
  "marked h p \<longleftrightarrow> (\<exists>L. blists h (snd p) = Some L \<and> bl_heavy L \<noteq> 0)"

definition cut_at :: "nat \<Rightarrow> 'a list list \<Rightarrow> 'a list list" where
  "cut_at i xss = take i xss @ chunks 64 (xss ! i) @ drop (Suc i) xss"

lemma concat_cut_at: "i < length xss \<Longrightarrow> concat (cut_at i xss) = concat xss"
  by (simp add: cut_at_def concat_chunks) (metis concat.simps(2) concat_append id_take_nth_drop)

lemma nonempty_lists_length: "\<forall>xs\<in>set xss. xs \<noteq> [] \<Longrightarrow> length xss \<le> length (concat xss)"
proof (induction xss)
  case (Cons xs xss)
  then have "1 \<le> length xs" by (simp add: Suc_leI)
  with Cons show ?case by simp
qed simp

lemma om_mid_leaves:
  assumes "om_mid self h xss" "length (concat xss) < 2 ^ 31"
  shows "length (leaf_seq (om_root self)) = length xss" "length xss < 2 ^ 31"
proof -
  show "length (leaf_seq (om_root self)) = length xss"
    using assms(1) by (auto simp: om_mid_def dest: list_all2_lengthD)
  show "length xss < 2 ^ 31"
    using assms nonempty_lists_length [of xss] by (auto simp: om_mid_def)
qed

text \<open>What a split does to the leaves, before the tree is updated.\<close>

lemma split_leaf:
  assumes mid: "om_mid self h xss" and i: "i < length xss" "leaf_seq (om_root self) ! i = (a, b)"
    and plain: "(a, b) \<in> set (plain (om_root self))" and ne: "xss ! i \<noteq> []" and fuel: "length (xss ! i) \<le> fuel"
  shows "\<exists>sn h'. split fuel (leaf_below (om_root self)) b h = Some (sn, h') \<and>
     length sn = length (chunks 64 (xss ! i)) \<and>
     list_all2 (leaf_rep h') (take i (leaf_seq (om_root self)) @ sn @ drop (Suc i) (leaf_seq (om_root self))) (cut_at i xss) \<and>
     (\<forall>(a, b)\<in>set sn. brk h \<le> a \<and> brk h \<le> b) \<and> distinct (List.map fst sn) \<and>
     tls h' = tls h \<union> fst ` set sn \<and> brk_ok h' \<and>
     (\<forall>x. x \<notin> set (xss ! i) \<longrightarrow> nodes h' x = nodes h x) \<and> (\<forall>c\<in>set (chunks 64 (xss ! i)). spread h' c) \<and>
     (\<forall>l. l \<noteq> b \<and> l < brk h \<longrightarrow> blists h' l = blists h l) \<and> (\<forall>p\<in>set sn. \<not> marked h' p)"
proof -
  let ?ls = "leaf_seq (om_root self)" and ?xs = "xss ! i"
  have ok: "brk_ok h" and dist: "distinct (leaf_addrs (om_root self))" and all: "list_all2 (leaf_rep h) ?ls xss"
    using mid by (auto simp: om_mid_def)
  have len: "length ?ls = length xss" using all by (rule list_all2_lengthD)
  have "leaf_rep h (a, b) ?xs" using list_all2_nthD2 [OF all i(1)] i(2) by simp
  then obtain L where L: "blist_rep h b ?xs" "blists h b = Some L" "bl_above L = Some a"
    by (auto simp: leaf_rep_def)
  obtain sn h' where sp: "split fuel (leaf_below (om_root self)) b h = Some (sn, h')"
    "list_all2 (\<lambda>(a, b) c. filled h' b a c) sn (chunks 64 ?xs)"
    "\<forall>(a, b)\<in>set sn. brk h \<le> a \<and> a < brk h' \<and> brk h \<le> b \<and> b < brk h'"
    "distinct (List.map fst sn)" "tls h' = tls h \<union> fst ` set sn" "brk_ok h'"
    "\<forall>x. x \<notin> set ?xs \<longrightarrow> nodes h' x = nodes h x"
    "\<forall>l'. l' \<noteq> b \<and> l' \<notin> snd ` set sn \<longrightarrow> blists h' l' = blists h l'"
    using split_rep [where below = "leaf_below (om_root self)",
        OF L(1) ok ne fuel L(2,3) leaf_below_plain [OF plain dist]] by blast
  have new: "list_all2 (leaf_rep h') sn (chunks 64 ?xs)"
  proof (rule list.rel_mono_strong [OF sp(2)])
    fix p c assume "p \<in> set sn" "c \<in> set (chunks 64 ?xs)" "(case p of (a, b) \<Rightarrow> \<lambda>c. filled h' b a c) c"
    then show "leaf_rep h' p c"
      using chunks_sizes [of c 64 ?xs] by (cases p) (auto intro: filled_leaf_rep)
  qed
  have old: "leaf_rep h' (?ls ! k) (xss ! k)" if k: "k < length xss" "k \<noteq> i" for k
  proof (rule leaf_rep_cong)
    show q: "leaf_rep h (?ls ! k) (xss ! k)" by (rule list_all2_nthD2 [OF all k(1)])
    have nb: "snd (?ls ! k) \<noteq> b"
      using leaf_seq_lists_distinct [OF mid] k i len by (metis length_map nth_eq_iff_index_eq nth_map snd_conv)
    have "blist_rep h (snd (?ls ! k)) (xss ! k)" using q by (simp add: leaf_rep_def)
    from blist_rep_disjoint [OF this L(1) nb] sp(7) show "\<forall>x\<in>set (xss ! k). nodes h' x = nodes h x" by blast
    have "snd (?ls ! k) \<notin> snd ` set sn" using sp(3) leaf_rep_lt [OF q ok] by fastforce
    with sp(8) nb show "blists h' (snd (?ls ! k)) = blists h (snd (?ls ! k))" by blast
  qed
  have "list_all2 (leaf_rep h') (take i ?ls) (take i xss)" "list_all2 (leaf_rep h') (drop (Suc i) ?ls) (drop (Suc i) xss)"
    using old len i(1) by (auto simp: list_all2_conv_all_nth)
  with new have "list_all2 (leaf_rep h') (take i ?ls @ sn @ drop (Suc i) ?ls) (cut_at i xss)"
    unfolding cut_at_def by (intro list_all2_appendI)
  moreover have "\<not> marked h' p" if pin: "p \<in> set sn" for p
  proof -
    obtain k where k: "k < length sn" "p = sn ! k" using pin by (metis in_set_conv_nth)
    have "filled h' (snd p) (fst p) (chunks 64 ?xs ! k)"
      using list_all2_nthD [OF sp(2) k(1)] k(2) by (simp add: case_prod_unfold)
    then show ?thesis by (auto simp: marked_def filled_def)
  qed
  moreover have "spread h' c" if "c \<in> set (chunks 64 ?xs)" for c
  proof -
    from that obtain k where k: "k < length (chunks 64 ?xs)" "c = chunks 64 ?xs ! k" by (auto simp: in_set_conv_nth)
    show ?thesis using list_all2_nthD2 [OF sp(2) k(1)] k(2) by (auto simp: case_prod_unfold intro: filled_spread)
  qed
  moreover have "blists h' l = blists h l" if "l \<noteq> b" "l < brk h" for l
  proof -
    have "l \<notin> snd ` set sn" using sp(3) that(2) by force
    with sp(8) that(1) show ?thesis by blast
  qed
  ultimately show ?thesis
    using sp(1,3,4-7) list_all2_lengthD [OF sp(2)] by (intro exI [of _ sn] exI [of _ h'] conjI) auto
qed


lemma grown_at:
  assumes "grown a b sn t t'" "leaf_seq t ! i = (a, b)" "i < length (leaf_seq t)" "distinct (List.map fst (leaf_seq t))"
  shows "leaf_seq t' = take i (leaf_seq t) @ sn @ drop (Suc i) (leaf_seq t)"
proof -
  from assms(1) obtain us vs where uv: "leaf_seq t = us @ (a, b) # vs" "leaf_seq t' = us @ sn @ vs"
    by (auto simp: grown_def)
  have "List.map fst (leaf_seq t) ! i = a"
    using assms(2,3) by simp
  moreover have "List.map fst (leaf_seq t) ! length us = a"
    by (simp add: uv(1) nth_append)
  ultimately have "length us = i"
    using nth_eq_iff_index_eq [OF assms(4), of i "length us"] assms(3) uv(1) by simp
  with uv show ?thesis by auto
qed

lemma distinct_replace:
  assumes "distinct (xs @ x # ys)" "distinct zs" "set zs \<inter> (set xs \<union> set ys) = {}"
  shows "distinct (xs @ zs @ ys)"
  using assms by auto

text \<open>What one iteration of the loop promises.\<close>

definition relabel_step :: "nat \<Rightarrow> nat \<Rightarrow> om \<times> bheap \<Rightarrow> nat list list \<Rightarrow> om \<times> bheap \<Rightarrow> nat list list \<Rightarrow> bool" where
  "relabel_step i a s0 xss s xss' \<longleftrightarrow>
     (case (s0, s) of ((self, h), (self', h')) \<Rightarrow>
        (\<forall>x. x \<notin> set (xss ! i) \<longrightarrow> nodes h' x = nodes h x) \<and>
        (\<forall>c\<in>set (chunks 64 (xss ! i)). spread h' c) \<and>
        (\<forall>l. l \<noteq> snd (leaf_seq (om_root self) ! i) \<and> l < brk h \<longrightarrow> blists h' l = blists h l) \<and>
        om_mid self' h' xss' \<and> concat xss' = concat xss \<and>
        (\<forall>p. p \<in> set (plain (om_root self)) \<and> fst p \<noteq> a \<longrightarrow> p \<in> set (plain (om_root self'))) \<and>
        length (leaf_seq (om_root self)) \<le> length (leaf_seq (om_root self')) \<and>
        om_height self \<le> om_height self' \<and>
        (\<forall>p\<in>set (leaf_seq (om_root self')). marked h' p \<longrightarrow>
           p \<in> set (leaf_seq (om_root self)) \<and> marked h p \<and> fst p \<noteq> a))"

lemma cut_at_nonempty:
  assumes "length xss = 1 \<or> (\<forall>xs\<in>set xss. xs \<noteq> [])" "i < length xss" "xss ! i \<noteq> []"
  shows "\<forall>xs\<in>set (cut_at i xss). xs \<noteq> []"
proof
  fix xs assume "xs \<in> set (cut_at i xss)"
  then consider "xs \<in> set (take i xss) \<union> set (drop (Suc i) xss)" | "xs \<in> set (chunks 64 (xss ! i))"
    by (auto simp: cut_at_def)
  then show "xs \<noteq> []"
  proof cases
    case 1
    then have "xs \<in> set xss"
      using in_set_takeD in_set_dropD by fast
    moreover have "length xss \<noteq> 1"
    proof
      assume "length xss = 1"
      with assms(2) have "take i xss = [] \<and> drop (Suc i) xss = []" by simp
      with 1 show False by simp
    qed
    ultimately show ?thesis using assms(1) by blast
  next
    case 2
    then show ?thesis using chunks_sizes [of xs 64 "xss ! i"] by blast
  qed
qed

lemma om_midI:
  "om_root self = t \<Longrightarrow> om_height self = H \<Longrightarrow> tl_inv 0 0 t \<Longrightarrow> fits H t \<Longrightarrow> brk_ok h \<Longrightarrow>
   distinct (leaf_addrs t) \<Longrightarrow> distinct (inodes t) \<Longrightarrow> distinct (List.map fst (leaf_seq t)) \<Longrightarrow>
   set (inodes t) \<inter> set (List.map fst (leaf_seq t)) = {} \<Longrightarrow>
   set (inodes t) \<union> set (List.map fst (leaf_seq t)) \<subseteq> tls h \<Longrightarrow> list_all2 (leaf_rep h) (leaf_seq t) xss \<Longrightarrow>
   length xss = 1 \<or> (\<forall>xs\<in>set xss. xs \<noteq> []) \<Longrightarrow> om_mid self h xss"
  by (simp add: om_mid_def)

lemma grow_sets:
  "F' \<subseteq> F \<union> S \<Longrightarrow> a \<notin> F' \<Longrightarrow> I' = insert a I \<Longrightarrow> I \<inter> F = {} \<Longrightarrow> I \<union> F \<subseteq> T \<Longrightarrow> S \<inter> T = {} \<Longrightarrow> a \<in> T \<Longrightarrow>
     I' \<inter> F' = {} \<and> I' \<union> F' \<subseteq> T \<union> S"
  by blast

lemma other_leaf:
  assumes mid: "om_mid self h xss" and i: "i < length xss" "leaf_seq (om_root self) ! i = (a, b)"
    and p: "p \<in> set (take i (leaf_seq (om_root self))) \<union> set (drop (Suc i) (leaf_seq (om_root self)))"
    and same: "\<forall>l. l \<noteq> b \<and> l < brk h \<longrightarrow> blists h1 l = blists h l"
  shows "p \<in> set (leaf_seq (om_root self)) \<and> marked h1 p = marked h p \<and> snd p < brk h \<and> fst p \<noteq> a"
proof -
  let ?ls = "leaf_seq (om_root self)"
  have all: "list_all2 (leaf_rep h) ?ls xss" and ok: "brk_ok h" and dist: "distinct (List.map fst ?ls)"
    using mid by (auto simp: om_mid_def)
  have len: "length ?ls = length xss" using all by (rule list_all2_lengthD)
  have ls: "?ls = take i ?ls @ (a, b) # drop (Suc i) ?ls" using i len by (metis id_take_nth_drop)
  have "fst p \<noteq> a" "snd p \<noteq> b"
  proof -
    have "distinct (List.map f (take i ?ls) @ f (a, b) # List.map f (drop (Suc i) ?ls))"
      if "distinct (List.map f ?ls)" for f :: "nat \<times> nat \<Rightarrow> nat"
      using that by (subst (asm) ls) simp
    from this [OF dist] this [OF leaf_seq_lists_distinct [OF mid]] p show "fst p \<noteq> a" "snd p \<noteq> b" by auto
  qed
  moreover have pin: "p \<in> set ?ls" using p by (auto dest: in_set_takeD in_set_dropD)
  moreover have "snd p < brk h"
    using list_all2_nthD [OF all] pin leaf_rep_lt [OF _ ok] by (metis in_set_conv_nth)
  ultimately show ?thesis using same by (auto simp: marked_def)
qed

lemma relabel_one_ok:
  assumes shl: "int_shift shl" and mid: "om_mid self h xss" and small: "length (concat xss) < 2 ^ 31"
    and i: "i < length xss" "leaf_seq (om_root self) ! i = (a, b)" and plain: "(a, b) \<in> set (plain (om_root self))"
    and ne: "xss ! i \<noteq> []" and fuel: "length (concat xss) \<le> fuel"
  shows "\<exists>s. relabel_one fuel shl a (self, h) = Some s \<and> relabel_step i a (self, h) xss s (cut_at i xss)"
proof -
  let ?t = "om_root self" and ?ls = "leaf_seq (om_root self)" and ?xs = "xss ! i"
  have ok: "brk_ok h" and inv: "tl_inv 0 0 ?t" "fits (om_height self) ?t" "distinct (leaf_addrs ?t)" "distinct (inodes ?t)"
    "distinct (List.map fst ?ls)" "set (inodes ?t) \<inter> set (List.map fst ?ls) = {}"
    "set (inodes ?t) \<union> set (List.map fst ?ls) \<subseteq> tls h"
    and nonempty: "length xss = 1 \<or> (\<forall>xs\<in>set xss. xs \<noteq> [])"
    using mid by (auto simp: om_mid_def)
  have len: "length ?ls = length xss" "length xss < 2 ^ 31" using om_mid_leaves [OF mid small] by auto
  have lx: "length ?xs \<le> length (concat xss)"
    using concat_update [OF i(1), of "[]" ?xs "[]"] by simp
  obtain hr where find: "find_leaf a ?t = Some (Leaf a hr b)"
    using find_leaf_plain [OF plain inv(3)] by blast
  then have level: "tl_level hr = 64" using find_leaf_level [OF inv(1) find] by simp
  obtain sn h1 where sp: "split fuel (leaf_below ?t) b h = Some (sn, h1)"
    "length sn = length (chunks 64 ?xs)" "list_all2 (leaf_rep h1) (take i ?ls @ sn @ drop (Suc i) ?ls) (cut_at i xss)"
    "\<forall>(a, b)\<in>set sn. brk h \<le> a \<and> brk h \<le> b" "distinct (List.map fst sn)"
    "tls h1 = tls h \<union> fst ` set sn" "brk_ok h1"
    and spn: "\<forall>x. x \<notin> set ?xs \<longrightarrow> nodes h1 x = nodes h x" "\<forall>c\<in>set (chunks 64 ?xs). spread h1 c"
      "\<forall>l. l \<noteq> b \<and> l < brk h \<longrightarrow> blists h1 l = blists h l" "\<forall>p\<in>set sn. \<not> marked h1 p"
    using split_leaf [OF mid i plain ne, of fuel] lx fuel by auto
  have others: "p \<in> set ?ls \<and> marked h1 p = marked h p \<and> snd p < brk h \<and> fst p \<noteq> a"
    if "p \<in> set (take i ?ls) \<union> set (drop (Suc i) ?ls)" for p
    by (rule other_leaf [OF mid i that spn(3)])
  have fresh: "x < brk h" if "x \<in> tls h" for x
    using that ok by (meson brk_ok_def not_le_imp_less)
  have snew: "fst ` set sn \<inter> tls h = {}" using sp(4) fresh by fastforce
  have ls: "?ls = take i ?ls @ (a, b) # drop (Suc i) ?ls"
    using i len by (metis id_take_nth_drop)
  have dist': "distinct (List.map fst (take i ?ls @ sn @ drop (Suc i) ?ls))"
  proof -
    have "distinct (List.map fst (take i ?ls) @ a # List.map fst (drop (Suc i) ?ls))"
      using inv(5) ls by (metis fst_conv list.simps(9) map_append)
    moreover have "set (List.map fst sn) \<inter> (set (List.map fst (take i ?ls)) \<union> set (List.map fst (drop (Suc i) ?ls))) = {}"
      using snew inv(7) by (fastforce dest: in_set_takeD in_set_dropD)
    ultimately show ?thesis
      using distinct_replace [OF _ sp(5) [unfolded], of "List.map fst (take i ?ls)" a "List.map fst (drop (Suc i) ?ls)"]
      by simp
  qed
  show ?thesis
  proof (cases "length sn > 1")
    case True
    have "length sn \<le> length ?xs"
      using nonempty_lists_length [of "chunks 64 ?xs"] chunks_sizes [of _ 64 ?xs] concat_chunks [of 64 ?xs] sp(2) by fastforce
    then have small': "length sn < 2 ^ 31" using lx small by linarith
    then have bound: "length ?ls + length sn < 18446744073709551616" using len by simp
    have two: "2 \<le> length sn" using True by simp
    obtain t' n where t': "mark a sn ?t = Some (t', n)" "1 \<le> n" "tl_inv 0 0 t'" "tl_needs (hdr t')" "grown a b sn ?t t'"
      "set (inodes t') = insert a (set (inodes ?t))" "a \<notin> set (inodes ?t) \<longrightarrow> distinct (inodes ?t) \<longrightarrow> distinct (inodes t')"
      "\<And>H c. fits H ?t \<Longrightarrow> n - 1 + c \<le> H \<Longrightarrow> length sn \<le> 2 ^ c \<Longrightarrow> fits H t'"
      using mark_ok [OF inv(1) plain inv(3) two bound] by auto
    let ?c = "fast_log2_ceil shl (length sn)"
    let ?H = "max (om_height self) (?c - 1 + n)"
    let ?self = "self\<lparr>om_root := t', om_height := ?H\<rparr>"
    have run: "relabel_one fuel shl a (self, h) = Some (?self, h1)"
      using find level sp(1) True t'(1) by (simp add: relabel_one_def)
    have c: "length sn \<le> 2 ^ ?c"
      using int_shift.fast_log2_ceil_bound [OF shl, of "length sn"] two small' by simp
    then have c1: "1 \<le> ?c" using two by (cases ?c) auto
    have fits: "fits ?H t'"
      by (rule t'(8) [OF fits_mono [OF inv(2)] _ c]) (use c1 t'(2) in auto)
    have seq: "leaf_seq t' = take i ?ls @ sn @ drop (Suc i) ?ls"
      by (rule grown_at [OF t'(5) i(2) _ inv(5)]) (use i(1) len in simp)
    have a_in: "a \<in> set (List.map fst ?ls)" using i len by (metis fst_conv length_map nth_map nth_mem)
    then have a: "a \<notin> set (inodes ?t)" "a \<in> tls h" using inv(6,7) by auto
    have a_new: "a \<notin> set (List.map fst (leaf_seq t'))"
    proof -
      have "a \<notin> fst ` set sn" using a(2) snew by auto
      moreover have "distinct (List.map fst (take i ?ls) @ a # List.map fst (drop (Suc i) ?ls))"
        using inv(5) ls by (metis fst_conv list.simps(9) map_append)
      ultimately show ?thesis unfolding seq by simp
    qed
    have sub: "set (List.map fst (leaf_seq t')) \<subseteq> set (List.map fst ?ls) \<union> fst ` set sn"
      unfolding seq by (auto dest: in_set_takeD in_set_dropD)
    note sets = grow_sets [OF sub a_new t'(6) inv(6,7) snew a(2)]
    have disj: "set (inodes t') \<inter> set (List.map fst (leaf_seq t')) = {}"
      and live: "set (inodes t') \<union> set (List.map fst (leaf_seq t')) \<subseteq> tls h1"
      using sets unfolding sp(6) by (rule conjunct1, rule conjunct2)
    have la: "leaf_addrs t' = leaf_addrs ?t" and "\<forall>p. p \<in> set (plain ?t) \<and> fst p \<noteq> a \<longrightarrow> p \<in> set (plain t')"
      using t'(5) by (auto simp: grown_def)
    moreover have "distinct (List.map fst (leaf_seq t'))" "list_all2 (leaf_rep h1) (leaf_seq t') (cut_at i xss)"
      unfolding seq by (rule dist', rule sp(3))
    moreover have "length ?ls \<le> length (leaf_seq t')" using grown_length [OF t'(5)] two by simp
    moreover have "distinct (inodes t')" using t'(7) a(1) inv(4) by blast
    moreover from la inv(3) have "distinct (leaf_addrs t')" by simp
    moreover have "\<forall>p\<in>set (leaf_seq t'). marked h1 p \<longrightarrow> p \<in> set ?ls \<and> marked h p \<and> fst p \<noteq> a"
      unfolding seq using others spn(4) by auto
    ultimately have "om_mid ?self h1 (cut_at i xss)" "length ?ls \<le> length (leaf_seq t')"
      "\<forall>p\<in>set (leaf_seq t'). marked h1 p \<longrightarrow> p \<in> set ?ls \<and> marked h p \<and> fst p \<noteq> a"
      "\<forall>p. p \<in> set (plain ?t) \<and> fst p \<noteq> a \<longrightarrow> p \<in> set (plain t')"
      using om_midI [of ?self t' ?H h1 "cut_at i xss"] t'(3) fits sp(7) disj live
        cut_at_nonempty [OF nonempty i(1) ne] by simp_all
    then have "relabel_step i a (self, h) xss (?self, h1) (cut_at i xss)"
      using concat_cut_at [OF i(1)] spn i(2) by (simp add: relabel_step_def)
    with run show ?thesis by blast
  next
    case False
    have "sn \<noteq> []" using sp(2) ne chunks_step [of ?xs 64] by auto
    with False obtain sa sb where sn: "sn = [(sa, sb)]"
      by (cases sn) (auto simp: Suc_leI)
    let ?t' = "set_below a sb ?t" and ?self = "self\<lparr>om_root := set_below a sb ?t\<rparr>"
    note sb = set_below_ok [OF inv(1) plain inv(3), of sb]
    have chunk: "chunks 64 ?xs = [?xs]"
      using sp(2) sn concat_chunks [of 64 ?xs] by (cases "chunks 64 ?xs") auto
    have cut: "cut_at i xss = xss" unfolding cut_at_def chunk using i(1) by (simp add: id_take_nth_drop [symmetric])
    have seq1: "take i ?ls @ sn @ drop (Suc i) ?ls = ?ls[i := (sa, sb)]"
      using i(1) len by (simp add: sn upd_conv_take_nth_drop)
    have rep1: "leaf_rep h1 (?ls[i := (sa, sb)] ! k) (xss ! k)" if "k < length xss" for k
      using list_all2_nthD [OF sp(3), of k] that len cut unfolding seq1 by simp
    obtain L where L: "blists h1 sb = Some L" "bl_above L = Some sa" "bl_heavy L = 0" "blist_rep h1 sb ?xs"
      using rep1 [OF i(1)] i(1) len spn(4) sn by (auto simp: leaf_rep_def marked_def)
    let ?h2 = "h1\<lparr>tls := tls h1 - {sa}, blists := (blists h1)(sb \<mapsto> L\<lparr>bl_above := Some a\<rparr>)\<rparr>"
    have run: "relabel_one fuel shl a (self, h) = Some (?self, ?h2)"
      using find level sp(1) sn sp(6) L by (simp add: relabel_one_def tl_node_free_def upd_blist_def)
    have seq: "leaf_seq ?t' = ?ls[i := (a, sb)]"
    proof -
      have "grown a b [(a, sb)] ?t ?t'" using sb by blast
      from grown_at [OF this i(2) _ inv(5)] i(1) len show ?thesis by (simp add: upd_conv_take_nth_drop)
    qed
    have fsts: "List.map fst (leaf_seq ?t') = List.map fst ?ls"
      unfolding seq using i len by (metis fst_conv list_update_id map_update nth_map)
    have tls2: "tls ?h2 = tls h" using sp(6) sn snew by auto
    have "leaf_rep ?h2 (leaf_seq ?t' ! k) (xss ! k)" if k: "k < length xss" for k
    proof (cases "k = i")
      case True
      have "blist_rep ?h2 sb ?xs"
        using L by (simp add: blist_rep_def)
      with True L i(1) len show ?thesis by (simp add: seq leaf_rep_def)
    next
      case False
      have "leaf_rep h (?ls ! k) (xss ! k)"
        using mid k by (auto simp: om_mid_def dest: list_all2_nthD2)
      then have "snd (?ls ! k) < brk h" using ok by (rule leaf_rep_lt)
      moreover have "brk h \<le> sb" using sp(4) sn by simp
      ultimately have ne: "snd (?ls ! k) \<noteq> sb" by linarith
      have eq: "leaf_seq ?t' ! k = ?ls ! k" using False by (simp add: seq)
      have "leaf_rep h1 (?ls ! k) (xss ! k)" using rep1 [OF k] False by simp
      then show ?thesis
        unfolding eq by (rule leaf_rep_cong) (use ne in simp_all)
    qed
    then have reps: "list_all2 (leaf_rep ?h2) (leaf_seq ?t') xss"
      using len by (simp add: list_all2_conv_all_nth seq)
    have brk2: "brk_ok ?h2"
      using sp(7) L(1) by (auto simp: brk_ok_def)
    have keep: "leaf_addrs ?t' = leaf_addrs ?t" "\<forall>p. p \<in> set (plain ?t) \<and> fst p \<noteq> a \<longrightarrow> p \<in> set (plain ?t')"
      using sb by (auto simp: grown_def)
    have marks: "p \<in> set ?ls \<and> marked h p \<and> fst p \<noteq> a" if "p \<in> set (leaf_seq ?t')" "marked ?h2 p" for p
    proof -
      have "p \<noteq> (a, sb)" using that(2) L(3) by (auto simp: marked_def)
      with that(1) have p: "p \<in> set (take i ?ls) \<union> set (drop (Suc i) ?ls)"
        unfolding seq using i(1) len by (simp add: upd_conv_take_nth_drop)
      from others [OF p] sp(4) sn have "snd p \<noteq> sb" by fastforce
      with others [OF p] that(2) show ?thesis by (auto simp: marked_def)
    qed
    have "fits (om_height self) ?t'" using sb inv(2) by blast
    then have "om_mid ?self ?h2 xss"
    proof (intro om_midI [of ?self ?t' "om_height self" ?h2 xss])
      show "tl_inv 0 0 ?t'" "distinct (inodes ?t')" using sb inv(4) by simp_all
      show "set (inodes ?t') \<inter> set (List.map fst (leaf_seq ?t')) = {}" using sb inv(6) fsts by (simp only:)
      show "set (inodes ?t') \<union> set (List.map fst (leaf_seq ?t')) \<subseteq> tls ?h2" using sb inv(7) fsts tls2 by (simp only:)
    qed (use inv(3,5) nonempty fsts reps brk2 keep(1) in \<open>simp_all only: om.select_convs om.update_convs\<close>, simp_all)
    then have "relabel_step i a (self, h) xss (?self, ?h2) (cut_at i xss)"
      using keep(2) len spn(1-3) i(2) sp(4) sn marks by (simp add: relabel_step_def cut seq spread_def)
    with run show ?thesis by blast
  qed
qed


subsection \<open>The whole relabelling\<close>

definition roomy :: "bheap \<Rightarrow> nat list list \<Rightarrow> nat \<Rightarrow> bool" where
  "roomy h xss b \<longleftrightarrow> (\<exists>i us vs. i < length xss \<and> xss ! i = us @ b # vs \<and> 2 ^ 58 \<le> gap h b vs)"

lemma roomyI: "xs \<in> set xss \<Longrightarrow> xs = us @ b # vs \<Longrightarrow> 2 ^ 58 \<le> gap h b vs \<Longrightarrow> roomy h xss b"
  by (auto simp: roomy_def in_set_conv_nth)

lemma gap_cong:
  assumes "\<forall>x\<in>set (b # vs). nodes h' x = nodes h x"
  shows "gap h' b vs = gap h b vs"
  using assms by (auto simp: gap_def nxt_label_def label_of_def split: list.split)

lemma om_mid_disjoint:
  assumes "om_mid self h xss" "i < length xss" "k < length xss" "i \<noteq> k"
  shows "set (xss ! i) \<inter> set (xss ! k) = {}"
proof -
  let ?ls = "leaf_seq (om_root self)"
  have all: "list_all2 (leaf_rep h) ?ls xss" using assms(1) by (simp add: om_mid_def)
  then have len: "length ?ls = length xss" by (rule list_all2_lengthD)
  have "snd (?ls ! i) \<noteq> snd (?ls ! k)"
    using leaf_seq_lists_distinct [OF assms(1)] assms(2-4) len by (metis length_map nth_eq_iff_index_eq nth_map)
  moreover have "blist_rep h (snd (?ls ! i)) (xss ! i)" "blist_rep h (snd (?ls ! k)) (xss ! k)"
    using list_all2_nthD2 [OF all assms(2)] list_all2_nthD2 [OF all assms(3)] by (auto simp: leaf_rep_def)
  ultimately show ?thesis using blist_rep_disjoint by blast
qed

lemma relabel_step_room:
  assumes mid: "om_mid self h xss" and i: "i < length xss"
    and step: "relabel_step i a (self, h) xss (self', h') (cut_at i xss)"
  shows "b \<in> set (xss ! i) \<or> roomy h xss b \<Longrightarrow> roomy h' (cut_at i xss) b"
proof -
  have in_piece: "roomy h' (cut_at i xss) b" if "b \<in> set (xss ! i)"
  proof -
    from that have "b \<in> set (concat (chunks 64 (xss ! i)))" by (simp add: concat_chunks)
    then obtain c where c: "c \<in> set (chunks 64 (xss ! i))" "b \<in> set c" by auto
    then obtain us vs where uv: "c = us @ b # vs" by (meson split_list)
    have "spread h' c" "length c \<le> 64"
      using step c(1) chunks_sizes [OF c(1)] by (auto simp: relabel_step_def)
    then have "2 ^ 58 \<le> gap h' b vs" unfolding uv by (rule spread_gap)
    moreover have "c \<in> set (cut_at i xss)" using c(1) by (simp add: cut_at_def)
    ultimately show ?thesis using uv by (intro roomyI)
  qed
  have other: "roomy h' (cut_at i xss) b" if "roomy h xss b" "b \<notin> set (xss ! i)"
  proof -
    from that(1) obtain k us vs where k: "k < length xss" "xss ! k = us @ b # vs" "2 ^ 58 \<le> gap h b vs"
      by (auto simp: roomy_def)
    with that(2) have ki: "i \<noteq> k" by auto
    then have "set (xss ! i) \<inter> set (xss ! k) = {}" by (rule om_mid_disjoint [OF mid i k(1)])
    then have "\<forall>x\<in>set (b # vs). nodes h' x = nodes h x"
      using step k(2) by (auto simp: relabel_step_def)
    then have "2 ^ 58 \<le> gap h' b vs" using gap_cong [of b vs h' h] k(3) by simp
    moreover have "xss ! k \<in> set (take i xss) \<union> set (drop (Suc i) xss)"
    proof (cases "k < i")
      case True
      with i show ?thesis by (auto simp: in_set_conv_nth intro!: exI [of _ k])
    next
      case False
      with ki k(1) show ?thesis by (auto simp: in_set_conv_nth intro!: exI [of _ "k - Suc i"])
    qed
    ultimately show ?thesis using k(2) by (intro roomyI [where xs = "xss ! k"]) (auto simp: cut_at_def)
  qed
  show "b \<in> set (xss ! i) \<or> roomy h xss b \<Longrightarrow> roomy h' (cut_at i xss) b"
    using in_piece other by blast
qed

lemma plain_index:
  assumes "om_mid self h xss" "(a, b) \<in> set (plain (om_root self))"
  obtains i where "i < length xss" "leaf_seq (om_root self) ! i = (a, b)"
proof -
  have "(a, b) \<in> set (leaf_seq (om_root self))" using assms(2) plain_leaf_seq by blast
  moreover have "length (leaf_seq (om_root self)) = length xss"
    using assms(1) by (auto simp: om_mid_def dest: list_all2_lengthD)
  ultimately show thesis using that by (auto simp: in_set_conv_nth)
qed

lemma om_mid_nonempty:
  assumes "om_mid self h xss" "concat xss \<noteq> []" "i < length xss"
  shows "xss ! i \<noteq> []"
proof (cases "length xss = 1")
  case True
  then obtain xs where "xss = [xs]" by (cases xss) auto
  with assms(2,3) show ?thesis by simp
next
  case False
  with assms(1,3) show ?thesis by (auto simp: om_mid_def)
qed

definition listed :: "om \<Rightarrow> bheap \<Rightarrow> nat \<Rightarrow> nat list \<Rightarrow> bool" where
  "listed self h a xs \<longleftrightarrow> (\<exists>b. (a, b) \<in> set (plain (om_root self)) \<and> blist_rep h b xs)"

lemma blist_rep_unique:
  assumes "blist_rep h l xs" "blist_rep h l ys"
  shows "xs = ys"
proof -
  have "lseg ns l pv cur None xs \<Longrightarrow> lseg ns l pv cur None ys \<Longrightarrow> xs = ys" for ns pv cur
  proof (induction xs arbitrary: pv cur ys)
    case Nil
    then show ?case by (cases ys) auto
  next
    case (Cons x xs)
    then show ?case by (cases ys) auto
  qed
  with assms show ?thesis by (auto simp: blist_rep_def)
qed

lemma relabel_step_listed:
  assumes mid: "om_mid self h xss" and i: "i < length xss" "leaf_seq (om_root self) ! i = (a, b)"
    and step: "relabel_step i a (self, h) xss (self', h') xss'" and l: "listed self h a' xs" "a' \<noteq> a"
  shows "listed self' h' a' xs"
proof -
  from l(1) obtain b' where b': "(a', b') \<in> set (plain (om_root self))" "blist_rep h b' xs" by (auto simp: listed_def)
  obtain k where k: "k < length xss" "leaf_seq (om_root self) ! k = (a', b')" by (rule plain_index [OF mid b'(1)])
  have all: "list_all2 (leaf_rep h) (leaf_seq (om_root self)) xss" and ok: "brk_ok h" using mid by (auto simp: om_mid_def)
  have "leaf_rep h (a', b') (xss ! k)" using list_all2_nthD2 [OF all k(1)] k(2) by simp
  then have "xss ! k = xs" "b' < brk h"
    using b'(2) blist_rep_unique leaf_rep_lt [OF _ ok, of "(a', b')" "xss ! k"] by (auto simp: leaf_rep_def)
  have ki: "k \<noteq> i" using k(2) i(2) l(2) by auto
  have len: "length (leaf_seq (om_root self)) = length xss" using all by (rule list_all2_lengthD)
  have "b' \<noteq> b"
    using leaf_seq_lists_distinct [OF mid] ki k i len by (metis length_map nth_eq_iff_index_eq nth_map snd_conv)
  then have "blists h' b' = blists h b'" using step \<open>b' < brk h\<close> i(2) by (auto simp: relabel_step_def)
  moreover have "\<forall>x\<in>set xs. nodes h' x = nodes h x"
    using step om_mid_disjoint [OF mid k(1) i(1) ki] \<open>xss ! k = xs\<close> by (auto simp: relabel_step_def)
  ultimately have "blist_rep h' b' xs" using b'(2) blist_rep_cong [of xs h' h b'] by simp
  moreover have "(a', b') \<in> set (plain (om_root self'))" using step b'(1) l(2) by (auto simp: relabel_step_def)
  ultimately show ?thesis by (auto simp: listed_def)
qed

text \<open>A further property of the structure that each iteration keeps.\<close>

definition kept :: "nat \<Rightarrow> (nat \<Rightarrow> u64) \<Rightarrow> (om \<Rightarrow> bool) \<Rightarrow> bool" where
  "kept fuel shl P \<longleftrightarrow>
     (\<forall>a self h self' h' xss'. P self \<longrightarrow> relabel_one fuel shl a (self, h) = Some (self', h') \<longrightarrow>
        om_mid self' h' xss' \<longrightarrow> length (concat xss') < 2 ^ 31 \<longrightarrow> P self')"

lemma relabel_lists_ok:
  assumes shl: "int_shift shl"
    and P: "kept fuel shl P"
  shows "om_mid self h xss \<Longrightarrow> concat xss \<noteq> [] \<Longrightarrow> length (concat xss) < 2 ^ 31 \<Longrightarrow> length (concat xss) \<le> fuel \<Longrightarrow>
    distinct as \<Longrightarrow> (\<And>a. a \<in> set as \<Longrightarrow> \<exists>xs. listed self h a xs) \<Longrightarrow>
    \<exists>self' h' xss'. relabel_lists fuel shl as (self, h) = Some (self', h') \<and> om_mid self' h' xss' \<and>
      concat xss' = concat xss \<and> length (leaf_seq (om_root self)) \<le> length (leaf_seq (om_root self')) \<and>
      om_height self \<le> om_height self' \<and> (P self \<longrightarrow> P self') \<and>
      (\<forall>b. roomy h xss b \<or> (\<exists>a\<in>set as. \<exists>xs. listed self h a xs \<and> b \<in> set xs) \<longrightarrow> roomy h' xss' b) \<and>
      (\<forall>p\<in>set (leaf_seq (om_root self')). marked h' p \<longrightarrow>
         p \<in> set (leaf_seq (om_root self)) \<and> marked h p \<and> fst p \<notin> set as)"
proof (induction as arbitrary: self h xss)
  case (Cons a as)
  obtain xs b where b: "(a, b) \<in> set (plain (om_root self))" "blist_rep h b xs"
    using Cons.prems(6) [of a] by (auto simp: listed_def)
  obtain i where i: "i < length xss" "leaf_seq (om_root self) ! i = (a, b)" by (rule plain_index [OF Cons.prems(1) b(1)])
  have all: "list_all2 (leaf_rep h) (leaf_seq (om_root self)) xss" using Cons.prems(1) by (simp add: om_mid_def)
  have "leaf_rep h (a, b) (xss ! i)" using list_all2_nthD2 [OF all i(1)] i(2) by simp
  then have xs: "xss ! i = xs" using b(2) blist_rep_unique by (auto simp: leaf_rep_def)
  obtain self1 h1 where one: "relabel_one fuel shl a (self, h) = Some (self1, h1)"
    "relabel_step i a (self, h) xss (self1, h1) (cut_at i xss)"
    using relabel_one_ok [OF shl Cons.prems(1,3) i b(1) om_mid_nonempty [OF Cons.prems(1,2) i(1)] Cons.prems(4)] by auto
  have keep: "listed self1 h1 a' ys" if "listed self h a' ys" "a' \<in> set as" for a' ys
    using relabel_step_listed [OF Cons.prems(1) i one(2) that(1)] that(2) Cons.prems(5) by auto
  have c: "concat (cut_at i xss) = concat xss" "om_mid self1 h1 (cut_at i xss)"
    "length (leaf_seq (om_root self)) \<le> length (leaf_seq (om_root self1))" "om_height self \<le> om_height self1"
    using one(2) by (auto simp: relabel_step_def)
  obtain self2 h2 xss2 where rest: "relabel_lists fuel shl as (self1, h1) = Some (self2, h2)" "om_mid self2 h2 xss2"
      "concat xss2 = concat (cut_at i xss)" "length (leaf_seq (om_root self1)) \<le> length (leaf_seq (om_root self2))"
      "om_height self1 \<le> om_height self2" "P self1 \<longrightarrow> P self2"
      "\<forall>b. roomy h1 (cut_at i xss) b \<or> (\<exists>a\<in>set as. \<exists>xs. listed self1 h1 a xs \<and> b \<in> set xs) \<longrightarrow> roomy h2 xss2 b"
      "\<forall>p\<in>set (leaf_seq (om_root self2)). marked h2 p \<longrightarrow>
         p \<in> set (leaf_seq (om_root self1)) \<and> marked h1 p \<and> fst p \<notin> set as"
  proof -
    have "\<exists>xs. listed self1 h1 a' xs" if "a' \<in> set as" for a'
      using keep that Cons.prems(6) [of a'] by auto
    moreover have "concat (cut_at i xss) \<noteq> []" "length (concat (cut_at i xss)) < 2 ^ 31" "length (concat (cut_at i xss)) \<le> fuel"
      "distinct as"
      using c(1) Cons.prems(2-5) by simp_all
    ultimately show thesis using Cons.IH [OF c(2)] that by blast
  qed
  have "roomy h2 xss2 x" if "roomy h xss x \<or> (\<exists>a'\<in>set (a # as). \<exists>ys. listed self h a' ys \<and> x \<in> set ys)" for x
  proof -
    have "roomy h1 (cut_at i xss) x \<or> (\<exists>a\<in>set as. \<exists>xs. listed self1 h1 a xs \<and> x \<in> set xs)"
    proof (cases "roomy h xss x \<or> x \<in> set (xss ! i)")
      case True
      then show ?thesis using relabel_step_room [OF Cons.prems(1) i(1) one(2)] by blast
    next
      case False
      with that obtain a' ys where a': "a' \<in> set (a # as)" "listed self h a' ys" "x \<in> set ys" by blast
      have "a' \<noteq> a"
      proof
        assume "a' = a"
        with a'(2) obtain b' where "(a, b') \<in> set (plain (om_root self))" "blist_rep h b' ys" by (auto simp: listed_def)
        moreover from this(1) have "b' = b"
          using leaf_below_plain [of a b' "om_root self"] leaf_below_plain [OF b(1)] Cons.prems(1)
          by (auto simp: om_mid_def)
        ultimately have "ys = xs" using b(2) blist_rep_unique by blast
        with False a'(3) xs show False by simp
      qed
      with a' keep show ?thesis by auto
    qed
    with rest(7) show ?thesis by blast
  qed
  moreover have "P self \<longrightarrow> P self2"
  proof
    assume "P self"
    then have "P self1" using P one(1) c(1,2) Cons.prems(3) unfolding kept_def by metis
    with rest(6) show "P self2" by blast
  qed
  moreover have "\<forall>p\<in>set (leaf_seq (om_root self2)). marked h2 p \<longrightarrow>
      p \<in> set (leaf_seq (om_root self)) \<and> marked h p \<and> fst p \<notin> set (a # as)"
    using rest(8) one(2) by (auto simp: relabel_step_def)
  ultimately show ?case using one(1) rest(1-6) c by (intro exI [of _ self2] exI [of _ h2] exI [of _ xss2]) auto
qed auto


text \<open>Of the marked leaves only those outside \<open>heavy\<close> are left.\<close>

definition unmarks :: "nat list \<Rightarrow> om \<times> bheap \<Rightarrow> om \<times> bheap \<Rightarrow> bool" where
  "unmarks heavy s s' \<longleftrightarrow>
     (\<forall>p\<in>set (leaf_seq (om_root (fst s'))). marked (snd s') p \<longrightarrow>
        p \<in> set (leaf_seq (om_root (fst s))) \<and> marked (snd s) p \<and> fst p \<notin> set heavy)"

text \<open>
  The loop over the heavy lists always ends well; then, as long as the height it has computed stays
  within the labels, the tree is rebalanced, the order is as before, and every node of a
  heavy list has room after it.
\<close>

lemma om_relabel_ok:
  assumes shl: "int_shift shl" and rep: "om_rep self h xss" and ne: "concat xss \<noteq> []"
    and small: "length (concat xss) < 2 ^ 31" and fuel: "length (concat xss) \<le> fuel"
    and heavy: "distinct heavy" "set heavy \<subseteq> set (leaf_addrs (om_root self))"
    and P: "kept fuel shl P"
  shows "\<exists>self1 h1 xss1. relabel_lists fuel shl heavy (self, h) = Some (self1, h1) \<and>
    om_mid self1 h1 xss1 \<and> concat xss1 = concat xss \<and> (P self \<longrightarrow> P self1) \<and>
    (om_height self1 \<le> 64 \<longrightarrow>
      (\<exists>self' h' xss'. om_relabel fuel shl heavy (self, h) = Some (self', h') \<and> om_rep self' h' xss' \<and>
         concat xss' = concat xss \<and> om_height self' = om_height self1 \<and>
         (\<exists>d. rebalance shl None (om_root self1) (om_height self1) h1 = Some (om_root self', d)) \<and>
         (\<forall>a\<in>set heavy. \<forall>xs. listed self h a xs \<longrightarrow> (\<forall>b\<in>set xs. roomy h' xss' b)) \<and>
         unmarks heavy (self, h) (self', h')))"
proof -
  have mid: "om_mid self h xss" and cl: "clean (om_root self)" using rep by (auto simp: om_rep_def)
  have listed: "\<exists>xs. listed self h a xs" if "a \<in> set heavy" for a
  proof -
    have "a \<in> set (leaf_addrs (om_root self))" using that heavy(2) by blast
    then obtain b where b: "(a, b) \<in> set (plain (om_root self))"
      using clean_plain [of 0 0 "om_root self"] mid cl by (auto simp: om_mid_def)
    obtain i where "i < length xss" "leaf_seq (om_root self) ! i = (a, b)" by (rule plain_index [OF mid b])
    moreover have "list_all2 (leaf_rep h) (leaf_seq (om_root self)) xss" using mid by (simp add: om_mid_def)
    ultimately have "leaf_rep h (a, b) (xss ! i)" using list_all2_nthD2 by fastforce
    with b show ?thesis by (auto simp: listed_def leaf_rep_def)
  qed
  obtain self1 h1 xss1 where lists: "relabel_lists fuel shl heavy (self, h) = Some (self1, h1)" "om_mid self1 h1 xss1"
    "concat xss1 = concat xss" "length (leaf_seq (om_root self)) \<le> length (leaf_seq (om_root self1))"
    and room: "\<forall>b. roomy h xss b \<or> (\<exists>a\<in>set heavy. \<exists>xs. listed self h a xs \<and> b \<in> set xs) \<longrightarrow> roomy h1 xss1 b"
    and P1: "P self \<longrightarrow> P self1" and un: "unmarks heavy (self, h) (self1, h1)"
    unfolding unmarks_def fst_conv snd_conv using relabel_lists_ok [where P = P, OF shl P mid ne small fuel heavy(1) listed] by blast
  let ?t = "om_root self1"
  have mid1: "tl_inv 0 0 ?t" "fits (om_height self1) ?t" "brk_ok h1" "distinct (leaf_addrs ?t)" "distinct (inodes ?t)"
    "distinct (List.map fst (leaf_seq ?t))" "set (inodes ?t) \<inter> set (List.map fst (leaf_seq ?t)) = {}"
    "set (inodes ?t) \<union> set (List.map fst (leaf_seq ?t)) \<subseteq> tls h1" "list_all2 (leaf_rep h1) (leaf_seq ?t) xss1"
    "length xss1 = 1 \<or> (\<forall>xs\<in>set xss1. xs \<noteq> [])"
    using lists(2) by (auto simp: om_mid_def)
  have below: "tls h1 \<subseteq> {..<brk h1}"
  proof
    fix x assume "x \<in> tls h1"
    with mid1(3) show "x \<in> {..<brk h1}" by (meson brk_ok_def lessThan_iff not_le_imp_less)
  qed
  have grow: "tl_num_leaves (hdr (om_root self)) \<le> tl_num_leaves (hdr ?t)"
    using lists(4) tl_inv_num_leaves [of 0 0 "om_root self"] tl_inv_num_leaves [OF mid1(1)] mid
    by (simp add: om_mid_def word_le_nat_alt)
  have main: "\<exists>self' h' xss'. om_relabel fuel shl heavy (self, h) = Some (self', h') \<and> om_rep self' h' xss' \<and>
         concat xss' = concat xss \<and> om_height self' = om_height self1 \<and>
         (\<exists>d. rebalance shl None (om_root self1) (om_height self1) h1 = Some (om_root self', d)) \<and>
         (\<forall>a\<in>set heavy. \<forall>xs. listed self h a xs \<longrightarrow> (\<forall>b\<in>set xs. roomy h' xss' b)) \<and>
         unmarks heavy (self, h) (self', h')"
    if H: "om_height self1 \<le> 64"
  proof -
    have "\<exists>res. rebalance shl None ?t (om_height self1) h1 = Some res \<and> relabelled 0 0 ?t h1 res"
      by (rule rebalance_ok [OF mid1(1) _ mid1(2)]) (use mid1(5,8) below H in \<open>auto simp: par_ok_def\<close>)
    then obtain t' h2 where reb: "rebalance shl None ?t (om_height self1) h1 = Some (t', h2)"
      "relabelled 0 0 ?t h1 (t', h2)" by auto
    note r = reb(2) [unfolded relabelled_def split_conv]
    let ?self = "self1\<lparr>om_root := t'\<rparr>"
    have run: "om_relabel fuel shl heavy (self, h) = Some (?self, h2)"
      using lists(1) reb(1) grow by (simp add: om_relabel_def not_less MAX_LABEL_def)
    have seq: "leaf_seq t' = leaf_seq ?t" using r by blast
    have addrs: "leaf_addrs t' = List.map fst (leaf_seq ?t)"
      using clean_plain [of 0 0 t'] r seq by simp
    have fst_below: "set (List.map fst (leaf_seq ?t)) \<subseteq> {..<brk h1}" using mid1(8) below by blast
    have disj: "set (inodes t') \<inter> set (List.map fst (leaf_seq ?t)) = {}"
      by (rule fresh_disjoint [OF _ mid1(7) fst_below]) (use r in blast)
    have live: "set (List.map fst (leaf_seq ?t)) \<subseteq> tls h2"
      by (rule relabelled_frame [OF reb(2)]) (use mid1(7,8) in blast)+
    have leaf_same: "leaf_rep h2 = leaf_rep h1"
      using r by (intro ext) (simp add: leaf_rep_def blist_rep_def)
    have tls2: "tls h2 \<subseteq> tls h1 \<union> {brk h1..<brk h2}" and le2: "brk h1 \<le> brk h2"
      and same2: "nodes h2 = nodes h1" "blists h2 = blists h1"
      using r by blast+
    have "brk_ok h2"
      unfolding brk_ok_def same2
    proof (intro allI impI)
      fix a assume "brk h2 \<le> a"
      then have "brk h1 \<le> a" "a \<notin> {brk h1..<brk h2}" using le2 by auto
      then show "nodes h1 a = None \<and> blists h1 a = None \<and> a \<notin> tls h2"
        using mid1(3) tls2 by (auto simp: brk_ok_def)
    qed
    moreover have "fits (om_height self1) t'" using r mid1(2) by blast
    ultimately have "om_mid ?self h2 xss1"
      using r mid1(6,9,10) disj live by (simp add: om_mid_def addrs seq leaf_same)
    moreover have un': "unmarks heavy (self, h) (?self, h2)"
      using un by (simp add: unmarks_def marked_def seq same2)
    moreover have "clean t'" using r by blast
    moreover have "roomy h2 xss1 b = roomy h1 xss1 b" for b
      using r by (simp add: roomy_def gap_def)
    ultimately show ?thesis
      using run reb(1) lists(3) room un' by (intro exI [of _ ?self] exI [of _ h2] exI [of _ xss1]) (auto simp: om_rep_def)
  qed
  with lists(1-3) P1 show ?thesis by blast
qed

end
