(* ===== verification/Om_X86.thy ===== *)
theory Om_X86
  imports Om_Update
begin

text \<open>
  Relabelling on x86-64, where \<open>1 << h\<close> takes \<open>h\<close> modulo 32: an internal node at level 32 has the
  capacity 1, so no leaf comes to lie deeper than 32, the height stays below 64, and relabelling a structure of
  fewer than \<open>2 ^ 31\<close> nodes always succeeds.
\<close>

subsection \<open>Capacities\<close>

lemma unat_pow2: "k < 64 \<Longrightarrow> unat ((2 :: u64) ^ k) = 2 ^ k"
proof -
  assume "k < 64"
  then have "(2 :: nat) ^ k < 2 ^ 64" by (rule power_strict_increasing) simp
  then have "unat (of_nat (2 ^ k) :: u64) = 2 ^ k" by (intro unat_of_nat64) simp
  then show ?thesis by simp
qed

lemma x86_capacity:
  assumes "2 \<le> tl_level hr" "tl_level hr \<le> 32"
  shows "unat (capacity x86_shl hr) = 2 ^ (32 - tl_level hr)"
proof -
  let ?h = "64 - tl_level hr"
  have "?h mod 32 = 32 - tl_level hr"
  proof (cases "tl_level hr = 32")
    case False
    with assms show ?thesis by (simp add: mod_if)
  qed simp
  with assms show ?thesis
    by (simp add: capacity_def height_of_def x86_shl_def unat_pow2)
qed

lemma x86_capacity_leaf: "tl_level hr = 64 \<Longrightarrow> capacity x86_shl hr = 1"
  by (simp add: capacity_def height_of_def x86_shl_def)

text \<open>A split leaf that is left alone is under a low tree.\<close>

lemma light_leaf:
  assumes "tl_level hr = 64" "tl_needs hr" "2 \<le> unat (tl_num_leaves hr)" "\<not> too_heavy x86_shl hr H" "0 < H"
  shows "H \<le> 12"
proof (rule ccontr)
  assume "\<not> H \<le> 12"
  then have H: "13 \<le> H" by simp
  have "density x86_shl hr = Some (of_nat (unat (tl_num_leaves hr)))"
    using assms(1) by (simp add: density_def x86_capacity_leaf)
  then have "(of_nat (unat (tl_num_leaves hr)) :: rat) < 3/4 + 1/4 * (64 / of_nat H)"
    using assms by (simp add: too_heavy_def heavy_threshold_def)
  moreover have "(2 :: rat) \<le> of_nat (unat (tl_num_leaves hr))"
    using assms(3) of_nat_le_iff [of 2 "unat (tl_num_leaves hr)", where ?'a = rat] by simp
  moreover have "(64 :: rat) / of_nat H \<le> 64 / 13"
    using H by (intro divide_left_mono) simp_all
  ultimately show False by simp
qed

subsection \<open>Shallow trees\<close>

fun shallow :: "nat \<Rightarrow> tl \<Rightarrow> bool" where
  "shallow d (Leaf a hr b) \<longleftrightarrow> d \<le> 32"
| "shallow d (SplitLeaf a hr sn) \<longleftrightarrow> d \<le> 32"
| "shallow d (Node a hr l r) \<longleftrightarrow> shallow (Suc d) l \<and> shallow (Suc d) r"

lemma shallow_depth: "shallow d t \<Longrightarrow> d \<le> 32"
  by (induction t arbitrary: d) (fastforce dest: Suc_leD)+

lemma fits_shallow: "fits k t \<Longrightarrow> d + k \<le> 32 \<Longrightarrow> shallow d t"
  by (induction k t arbitrary: d rule: fits.induct) auto

lemma mark_shallow: "mark a sn t = Some (t', n) \<Longrightarrow> shallow d t \<Longrightarrow> shallow d t' \<and> d + n \<le> 33"
  by (induction t arbitrary: d t' n) (fastforce split: option.splits if_splits)+

lemma mark_length: "mark a sn t = Some (t', n) \<Longrightarrow> length sn \<le> length (leaf_seq t')"
  by (induction t arbitrary: t' n) (fastforce split: option.splits if_splits)+

lemma set_below_shallow: "shallow d t \<Longrightarrow> shallow d (set_below a b t)"
  by (induction t arbitrary: d) auto

lemma rebalance_shallow:
  "rebalance x86_shl par t H h = Some (t', h') \<Longrightarrow>
   tl_inv d lo t \<Longrightarrow> par_ok par d lo \<Longrightarrow> fits k t \<Longrightarrow> d + k \<le> H \<Longrightarrow> H \<le> 64 \<Longrightarrow>
   par = None \<or> \<not> too_heavy x86_shl (hdr t) H \<Longrightarrow>
   set (inodes t) \<subseteq> tls h \<Longrightarrow> distinct (inodes t) \<Longrightarrow> tls h \<subseteq> {..<brk h} \<Longrightarrow>
   shallow d t \<Longrightarrow> length (leaf_seq t) < 2 ^ 31 \<Longrightarrow> shallow d t'"
proof (induction t arbitrary: d lo par k h t' h')
  case (Leaf a hr b)
  then show ?case by auto
next
  case (SplitLeaf a hr sn)
  let ?t = "SplitLeaf a hr sn"
  have k0: "k \<noteq> 0" using SplitLeaf.prems(2,4) by (cases k) auto
  then have d: "d < 64" using SplitLeaf.prems(5,6) by simp
  have "(2 :: nat) ^ k \<le> width d"
    unfolding width_def using SplitLeaf.prems(5,6) by (intro power_increasing) auto
  then have len: "length (leaf_seq ?t) \<le> width d" using SplitLeaf.prems(4) by simp
  have res: "rebuild par (clear ?t) h = Some (t', h')"
    using SplitLeaf.prems(1,2) by (simp add: clear_def)
  have fits: "\<forall>k. length (leaf_seq ?t) \<le> 2 ^ k \<longrightarrow> fits k t'"
    using rebuild_ok [OF SplitLeaf.prems(2) _ SplitLeaf.prems(3) d len, of h] SplitLeaf.prems res by auto
  show ?case
  proof (cases "par = None")
    case True
    then have "d = 0" using SplitLeaf.prems(3) by (auto simp: par_ok_def)
    moreover have "fits 31 t'" using fits SplitLeaf.prems(12) by simp
    ultimately show ?thesis by (intro fits_shallow) auto
  next
    case False
    with SplitLeaf.prems(7) have "\<not> too_heavy x86_shl hr H" by simp
    then have "H \<le> 12"
      using light_leaf [of hr H] SplitLeaf.prems(2,5) k0 by auto
    moreover have "fits k t'" using fits SplitLeaf.prems(4) by simp
    ultimately show ?thesis using SplitLeaf.prems(5) by (intro fits_shallow) auto
  qed
next
  case (Node a hr l r)
  let ?t = "Node a hr l r" and ?hr = "hr\<lparr>tl_needs := False\<rparr>"
  from Node.prems(4) obtain k' where k': "k = Suc k'" "fits k' l" "fits k' r" by (cases k) auto
  have d: "d < 64" "tl_level hr = d" "tl_inv (Suc d) lo l" "tl_inv (Suc d) (lo + width (Suc d)) r"
    using Node.prems(2) by auto
  have sh: "shallow (Suc d) l" "shallow (Suc d) r" using Node.prems(11) by auto
  then have d31: "d \<le> 31" using shallow_depth by fastforce
  show ?case
  proof (cases "tl_needs hr")
    case False
    with Node.prems show ?thesis by auto
  next
    case needs: True
    have nl: "\<not> is_leaf (Node a ?hr l r)" using d by simp
    have dvd: "width d dvd lo" using Node.prems(3) d by (intro par_ok_dvd) auto
    show ?thesis
    proof (cases "too_heavy x86_shl (hdr l) H \<or> too_heavy x86_shl (hdr r) H")
      case heavy: True
      have "(2 :: nat) ^ k \<le> width d"
        unfolding width_def using Node.prems(5,6) by (intro power_increasing) auto
      with fits_length [OF Node.prems(4)] have len: "length (leaf_seq ?t) \<le> width d" by linarith
      have res: "rebuild par (clear ?t) h = Some (t', h')"
        using Node.prems(1) needs heavy nl by (simp add: Let_def split: if_splits)
      have fits: "\<forall>k. length (leaf_seq ?t) \<le> 2 ^ k \<longrightarrow> fits k t'"
        using rebuild_ok [OF Node.prems(2) _ Node.prems(3) d(1) len, of h] needs Node.prems(8-10) res by auto
      show ?thesis
      proof (cases "d < 2")
        case True
        have "fits 31 t'" using fits Node.prems(12) by simp
        with True show ?thesis by (intro fits_shallow) auto
      next
        case False
        with Node.prems(3) have "par \<noteq> None" by (auto simp: par_ok_def split: option.splits)
        with Node.prems(7) have "\<not> too_heavy x86_shl hr H" by simp
        then have "tl_num_leaves hr \<le> capacity x86_shl hr"
          using light_capacity [OF needs, of x86_shl H] d(2) Node.prems(5) k'(1) by simp
        then have "unat (tl_num_leaves hr) \<le> 2 ^ (32 - d)"
          using x86_capacity [of hr] d(2) d31 False by (simp add: word_le_nat_alt)
        then have "fits (32 - d) t'" using fits tl_inv_num_leaves [OF Node.prems(2)] by simp
        with d31 show ?thesis by (intro fits_shallow) auto
      qed
    next
      case light: False
      note par = par_ok_child [OF Node.prems(3,2) dvd, of False]
      obtain l' h1 r' where L: "rebalance x86_shl (Some (child_of par ?hr False)) l H h = Some (l', h1)"
        and R: "rebalance x86_shl (Some (child_of par ?hr True)) r H h1 = Some (r', h')"
        and t': "t' = Node a ?hr l' r'"
        using Node.prems(1) needs light nl by (auto simp: Let_def bind_Some_iff split: if_splits)
      have dk: "Suc d + k' \<le> H" "Suc d + k' \<le> 64" using Node.prems(5,6) k'(1) by auto
      have "\<exists>res. rebalance x86_shl (Some (child_of par ?hr False)) l H h = Some res \<and> relabelled (Suc d) lo l h res"
        by (rule rebalance_ok [OF d(3) par(1) k'(2) dk(1) Node.prems(6)]) (use Node.prems light in auto)
      with L have relL: "relabelled (Suc d) lo l h (l', h1)" by auto
      have live1: "tls h1 \<subseteq> {..<brk h1}" "set (inodes r) \<subseteq> tls h1"
        using relabelled_live [OF relL Node.prems(10)] relabelled_frame [OF relL, of "set (inodes r)"] Node.prems(8,9)
        by (auto simp: Int_commute)
      have "shallow (Suc d) l'"
        by (rule Node.IH(1) [OF L d(3) par(1) k'(2) dk(1) Node.prems(6)]) (use Node.prems light in auto)
      moreover have "shallow (Suc d) r'"
        by (rule Node.IH(2) [OF R d(4) par(2) k'(3) dk(1) Node.prems(6)]) (use Node.prems light live1 in auto)
      ultimately show ?thesis using t' by simp
    qed
  qed
qed


subsection \<open>The invariant on x86-64\<close>

definition om_x86 :: "om \<Rightarrow> bheap \<Rightarrow> nat list list \<Rightarrow> bool" where
  "om_x86 self h xss \<longleftrightarrow> om_rep self h xss \<and> shallow 0 (om_root self) \<and> om_height self \<le> 63"

lemma fast_log2_ceil_le:
  assumes "1 \<le> k" "k < 2 ^ 31"
  shows "fast_log2_ceil shl k \<le> 31"
proof -
  have "2 ^ fast_log2 k \<le> k" using fast_log2_bounds [OF assms(1)] by blast
  then have "(2 :: nat) ^ fast_log2 k < 2 ^ 31" using assms(2) by linarith
  then have "fast_log2 k < 31" by (rule power_less_imp_less_exp [rotated]) simp
  then show ?thesis by (simp add: fast_log2_ceil_def)
qed

lemma relabel_one_x86:
  assumes run: "relabel_one fuel x86_shl a (self, h) = Some (self', h')"
    and inv: "shallow 0 (om_root self)" "om_height self \<le> 63" and small: "length (leaf_seq (om_root self')) < 2 ^ 31"
  shows "shallow 0 (om_root self') \<and> om_height self' \<le> 63"
proof -
  obtain cur where cur: "find_leaf a (om_root self) = Some cur"
    using run by (auto simp: relabel_one_def bind_Some_iff)
  obtain a' hr b where leaf: "cur = Leaf a' hr b"
    using run cur by (cases cur) (auto simp: relabel_one_def split: if_splits)
  obtain sn h1 where "split fuel (leaf_below (om_root self)) b h = Some (sn, h1)"
    using run cur leaf by (auto simp: relabel_one_def bind_Some_iff split: if_splits)
  note sp = cur [unfolded leaf] this
  show ?thesis
  proof (cases "length sn > 1")
    case True
    with run sp obtain t' n where m: "mark a sn (om_root self) = Some (t', n)"
      "self' = self\<lparr>om_root := t', om_height := max (om_height self) (fast_log2_ceil x86_shl (length sn) - 1 + n)\<rparr>"
      by (auto simp: relabel_one_def bind_Some_iff split: if_splits)
    have "length sn < 2 ^ 31" using mark_length [OF m(1)] small m(2) by simp
    then have "fast_log2_ceil x86_shl (length sn) \<le> 31" using True by (intro fast_log2_ceil_le) auto
    with mark_shallow [OF m(1) inv(1)] inv(2) m(2) show ?thesis by auto
  next
    case False
    with run sp have "\<exists>sb. self' = self\<lparr>om_root := set_below a sb (om_root self)\<rparr>"
      by (auto simp: relabel_one_def bind_Some_iff split: if_splits list.splits)
    with inv show ?thesis by (auto intro: set_below_shallow)
  qed
qed

theorem om_relabel_x86:
  assumes rep: "om_x86 self h xss" and ne: "concat xss \<noteq> []"
    and small: "length (concat xss) < 2 ^ 31" and fuel: "length (concat xss) \<le> fuel"
    and heavy: "distinct heavy" "set heavy \<subseteq> set (leaf_addrs (om_root self))"
  shows "\<exists>self' h' xss'. om_relabel fuel x86_shl heavy (self, h) = Some (self', h') \<and> om_x86 self' h' xss' \<and>
     concat xss' = concat xss \<and>
     (\<forall>a\<in>set heavy. \<forall>xs. listed self h a xs \<longrightarrow> (\<forall>b\<in>set xs. roomy h' xss' b)) \<and>
     unmarks heavy (self, h) (self', h')"
proof -
  let ?P = "\<lambda>self. shallow 0 (om_root self) \<and> om_height self \<le> 63"
  have shl: "int_shift x86_shl" by (rule x86.int_shift_axioms)
  have step: "kept fuel x86_shl ?P"
    unfolding kept_def using relabel_one_x86 om_mid_leaves by (metis (no_types, lifting))
  from rep have rep': "om_rep self h xss" "?P self" by (auto simp: om_x86_def)
  obtain self1 h1 xss1 where one: "om_mid self1 h1 xss1" "concat xss1 = concat xss" "?P self1"
    and main: "om_height self1 \<le> 64 \<longrightarrow>
      (\<exists>self' h' xss'. om_relabel fuel x86_shl heavy (self, h) = Some (self', h') \<and> om_rep self' h' xss' \<and>
         concat xss' = concat xss \<and> om_height self' = om_height self1 \<and>
         (\<exists>d. rebalance x86_shl None (om_root self1) (om_height self1) h1 = Some (om_root self', d)) \<and>
         (\<forall>a\<in>set heavy. \<forall>xs. listed self h a xs \<longrightarrow> (\<forall>b\<in>set xs. roomy h' xss' b)) \<and>
         unmarks heavy (self, h) (self', h'))"
    using om_relabel_ok [where P = ?P, OF shl rep'(1) ne small fuel heavy step] rep'(2) by blast
  from main one(3) obtain self' h' xss' d where r: "om_relabel fuel x86_shl heavy (self, h) = Some (self', h')"
    "om_rep self' h' xss'" "concat xss' = concat xss" "om_height self' = om_height self1"
    "rebalance x86_shl None (om_root self1) (om_height self1) h1 = Some (om_root self', d)"
    "\<forall>a\<in>set heavy. \<forall>xs. listed self h a xs \<longrightarrow> (\<forall>b\<in>set xs. roomy h' xss' b)"
    "unmarks heavy (self, h) (self', h')"
    by auto
  have mid1: "tl_inv 0 0 (om_root self1)" "fits (om_height self1) (om_root self1)" "brk_ok h1"
    "set (inodes (om_root self1)) \<subseteq> tls h1" "distinct (inodes (om_root self1))"
    using one(1) by (auto simp: om_mid_def)
  have below: "tls h1 \<subseteq> {..<brk h1}"
  proof
    fix x assume "x \<in> tls h1"
    with mid1(3) show "x \<in> {..<brk h1}" by (meson brk_ok_def lessThan_iff not_le_imp_less)
  qed
  have leaves: "length (leaf_seq (om_root self1)) < 2 ^ 31"
    using om_mid_leaves [OF one(1)] one(2) small by simp
  have par: "par_ok None 0 0" by (simp add: par_ok_def)
  have H: "om_height self1 \<le> 64" using one(3) by simp
  have "shallow 0 (om_root self')"
    by (rule rebalance_shallow [OF r(5) mid1(1) par mid1(2) _ H]) (use mid1 below one(3) leaves in auto)
  with r one(3) show ?thesis by (auto simp: om_x86_def)
qed

end
