(* ===== verification/Om_Life.thy ===== *)
theory Om_Life
  imports Om_X86 "HOL-Library.Sublist"
begin

text \<open>
  The life of an order-maintenance structure: creation, the first node, the check of its lists, size, destruction.
  The step relation at the end is a client that inserts and relabels in any order; every state it
  reaches represents the list that the abstract insertions build.
\<close>

subsection \<open>Creation\<close>

lemma om_create_ok:
  assumes "brk_ok h"
  shows "\<exists>self h'. om_create h = Some (self, h') \<and> om_x86 self h' [[]]"
proof -
  let ?hr = "\<lparr>tl_label = 0, tl_level = MAX_LEVEL, tl_num_leaves = 1, tl_needs = False\<rparr> :: tl_hdr"
  let ?self = "\<lparr>om_root = Leaf (brk h) ?hr (Suc (brk h)), om_head = brk h, om_tail = brk h, om_height = 0\<rparr>"
  let ?h = "h\<lparr>tls := insert (brk h) (tls h), brk := Suc (Suc (brk h)),
              blists := (blists h)(Suc (brk h) \<mapsto> bl_create\<lparr>bl_above := Some (brk h)\<rparr>)\<rparr>"
  have "om_create h = Some (?self, ?h)"
    by (simp add: om_create_def tl_node_new_def bl_new_def upd_blist_def)
  moreover have "leaf_rep ?h (brk h, Suc (brk h)) []"
    by (simp add: leaf_rep_def blist_rep_def labels_inc_def bl_create_def)
  then have "om_x86 ?self ?h [[]]"
    using assms by (simp add: om_x86_def om_rep_def om_mid_def clean_def brk_ok_def)
  ultimately show ?thesis by blast
qed

lemma om_insert_initial_ok:
  assumes rep: "om_x86 self h [[]]"
  shows "\<exists>n h'. om_insert_initial self h = Some (n, h') \<and> om_x86 self h' [[n]] \<and> nodes h n = None"
proof -
  have mid: "om_mid self h [[]]" "clean (om_root self)" using rep by (auto simp: om_x86_def om_rep_def)
  have all: "list_all2 (leaf_rep h) (leaf_seq (om_root self)) [[]]" and ok: "brk_ok h"
    and inv: "tl_inv 0 0 (om_root self)" using mid by (auto simp: om_mid_def)
  obtain p where p: "leaf_seq (om_root self) = [p]" "leaf_rep h p []"
    using all by (auto simp: list_all2_Cons2)
  obtain a hr b where root_eq: "om_root self = Leaf a hr b"
  proof (cases "om_root self")
    case (SplitLeaf a hr sn)
    with inv p(1) show ?thesis by simp
  next
    case (Node a hr l r)
    with inv have "leaf_seq l \<noteq> []" "leaf_seq r \<noteq> []" by (auto dest: tl_inv_nonempty)
    with Node p(1) show ?thesis by (auto simp: append_eq_Cons_conv)
  qed auto
  with p have pb: "p = (a, b)" by simp
  obtain L where L: "blist_rep h b []" "blists h b = Some L" "bl_above L = Some a" "bl_heavy L = 0"
    using p(2) pb by (auto simp: leaf_rep_def)
  obtain h' where ins: "bl_insert_initial b h = Some (brk h, h')" "blist_rep h' b [brk h]" "brk_ok h'"
    "tls h' = tls h" using bl_insert_initial_rep [OF L(1) ok] by blast
  have "\<exists>L'. blists h' b = Some L' \<and> bl_above L' = Some a \<and> bl_heavy L' = 0"
    using ins(1) L by (auto simp: bl_insert_initial_def node_new_def insert_internal_def upd_blist_def
        upd_node_def bind_Some_iff split: if_splits)
  with ins(2) have "leaf_rep h' (a, b) [brk h]" by (auto simp: leaf_rep_def)
  then have "om_x86 self h' [[brk h]]"
    using rep ins root_eq by (simp add: om_x86_def om_rep_def om_mid_def)
  moreover obtain nd where "nodes h' (brk h) = Some nd" "nd_list nd = Some b"
    using blist_rep_node [OF ins(2)] by auto
  then have "om_insert_initial self h = Some (brk h, h')"
    using ins(1) root_eq inv by (simp add: om_insert_initial_def)
  ultimately show ?thesis using ok by (auto simp: brk_ok_def)
qed

subsection \<open>The check of the lists, and the size\<close>

lemma bl_verify_all:
  assumes "om_rep self h xss" "length (concat xss) \<le> fuel" "p \<in> set (leaf_seq (om_root self))"
  shows "bl_verify fuel h (snd p) = Some 0 \<and> (\<exists>L. blists h (snd p) = Some L \<and> bl_above L = Some (fst p))"
proof -
  have "list_all2 (leaf_rep h) (leaf_seq (om_root self)) xss" using assms(1) by (simp add: om_rep_def om_mid_def)
  then obtain xs where xs: "xs \<in> set xss" "leaf_rep h p xs" using assms(3) by (metis in_set_conv_nth list_all2_conv_all_nth)
  then have "length xs \<le> length (concat xss)" by (simp add: length_concat member_le_sum_list)
  then have "bl_verify fuel h (snd p) = Some 0"
    using xs(2) assms(2) by (intro bl_verify_rep [of _ _ xs]) (auto simp: leaf_rep_def)
  with xs(2) show ?thesis by (auto simp: leaf_rep_def)
qed

fun node_count :: "tl \<Rightarrow> nat" where
  "node_count (Leaf a hr b) = 1"
| "node_count (SplitLeaf a hr sn) = 1"
| "node_count (Node a hr l r) = 1 + node_count l + node_count r"

lemma node_count_leaves: "tl_inv d lo t \<Longrightarrow> clean t \<Longrightarrow> node_count t + 1 = 2 * length (leaf_seq t)"
proof (induction t arbitrary: d lo)
  case (Node a hr l r)
  have "clean l" "clean r" using clean_Node [OF Node.prems(1)] Node.prems(2) by auto
  with Node show ?case by fastforce
qed (auto simp: clean_def)

lemma node_memsize_ok:
  "tl_inv d lo t \<Longrightarrow> clean t \<Longrightarrow> list_all2 (leaf_rep h) (leaf_seq t) xss \<Longrightarrow> length (concat xss) \<le> fuel \<Longrightarrow>
     node_memsize fuel h t = Some (64 * node_count t + 48 * length (concat xss) + 32 * length xss)"
proof (induction t arbitrary: d lo xss)
  case (Leaf a hr b)
  then obtain xs where xs: "xss = [xs]" "leaf_rep h (a, b) xs" by (auto simp: list_all2_Cons1)
  then show ?case
    using Leaf.prems(4) bl_memsize_rep [of h b xs fuel] by (simp add: leaf_rep_def sizeof_tl_node_def)
next
  case (SplitLeaf a hr sn)
  then show ?case by (simp add: clean_def)
next
  case (Node a hr l r)
  obtain ls rs where sp: "xss = ls @ rs" "list_all2 (leaf_rep h) (leaf_seq l) ls" "list_all2 (leaf_rep h) (leaf_seq r) rs"
    using Node.prems(3) by (auto simp: list_all2_append1)
  have cl: "clean l" "clean r" using clean_Node [OF Node.prems(1)] Node.prems(2) by auto
  have "node_memsize fuel h l = Some (64 * node_count l + 48 * length (concat ls) + 32 * length ls)"
    using Node.IH(1) [of "Suc d" lo ls] Node.prems cl sp by auto
  moreover have "node_memsize fuel h r = Some (64 * node_count r + 48 * length (concat rs) + 32 * length rs)"
    using Node.IH(2) [of "Suc d" "lo + width (Suc d)" rs] Node.prems cl sp by auto
  ultimately show ?case using Node.prems(1) sp(1) by (simp add: sizeof_tl_node_def)
qed

theorem om_memsize_ok:
  assumes rep: "om_rep self h xss" and fuel: "length (concat xss) \<le> fuel"
  shows "om_memsize fuel self h = Some (160 * length xss + 48 * length (concat xss) - 32)"
proof -
  let ?t = "om_root self"
  have t: "tl_inv 0 0 ?t" "clean ?t" "list_all2 (leaf_rep h) (leaf_seq ?t) xss"
    using rep by (auto simp: om_rep_def om_mid_def)
  have "node_count ?t + 1 = 2 * length xss"
    using node_count_leaves [OF t(1,2)] list_all2_lengthD [OF t(3)] by simp
  then have "64 * node_count ?t + 64 = 128 * length xss" by simp
  with node_memsize_ok [OF t fuel] show ?thesis
    by (simp add: om_memsize_def sizeof_om_def)
qed


subsection \<open>Destruction\<close>

definition all_addrs :: "tl \<Rightarrow> nat list" where
  "all_addrs t = inodes t @ List.map fst (leaf_seq t)"

definition after_destroy :: "tl \<Rightarrow> nat list list \<Rightarrow> bheap \<Rightarrow> bheap" where
  "after_destroy t xss h =
     h\<lparr>nodes := without (nodes h) (set (concat xss)), blists := without (blists h) (snd ` set (leaf_seq t)),
       tls := tls h - set (all_addrs t)\<rparr>"

definition separate :: "(nat \<times> nat) list \<Rightarrow> nat list list \<Rightarrow> bool" where
  "separate ls xss \<longleftrightarrow> distinct (List.map snd ls) \<and> distinct (concat xss)"

lemma om_mid_separate:
  assumes "om_mid self h xss"
  shows "separate (leaf_seq (om_root self)) xss"
proof -
  have all: "list_all2 (leaf_rep h) (leaf_seq (om_root self)) xss" using assms by (simp add: om_mid_def)
  have d: "distinct (xss ! i)" if "i < length xss" for i
    using list_all2_nthD2 [OF all that] by (auto simp: leaf_rep_def dest: blist_rep_distinct)
  have "distinct (concat xss)"
  proof -
    have "j < length (xss ! i) \<Longrightarrow> i < length xss \<Longrightarrow> j' < length (xss ! i') \<Longrightarrow> i' < length xss \<Longrightarrow>
        xss ! i ! j = xss ! i' ! j' \<Longrightarrow> i = i' \<and> j = j'" for i j i' j'
      using om_mid_disjoint [OF assms, of i i'] d [of i] nth_mem [of j "xss ! i"] nth_mem [of j' "xss ! i'"]
      by (cases "i = i'") (auto simp: nth_eq_iff_index_eq)
    then have "k = k'" if "k < length (concat xss)" "k' < length (concat xss)" "concat xss ! k = concat xss ! k'" for k k'
      using pos_ex [OF that(1)] pos_ex [OF that(2)] that(3) pos_nth by metis
    then show ?thesis by (auto simp: distinct_conv_nth)
  qed
  with leaf_seq_lists_distinct [OF assms] show ?thesis by (simp add: separate_def)
qed

lemma leaf_rep_after_destroy:
  assumes "leaf_rep h q ys" "snd q \<notin> snd ` set (leaf_seq t)" "set ys \<inter> set (concat xss) = {}"
  shows "leaf_rep (after_destroy t xss h) q ys"
proof (rule leaf_rep_cong [OF assms(1)])
  show "\<forall>x\<in>set ys. nodes (after_destroy t xss h) x = nodes h x"
    using assms(3) by (auto simp: after_destroy_def disjoint_iff)
  show "blists (after_destroy t xss h) (snd q) = blists h (snd q)"
    using assms(2) by (auto simp: after_destroy_def)
qed

lemma after_destroy_Node:
  "tl_node_free a (after_destroy r rs (after_destroy l ls h)) =
     (if a \<in> tls h - set (all_addrs l) - set (all_addrs r)
      then Some (after_destroy (Node a hr l r) (ls @ rs) h) else None)"
proof -
  have "tls h - set (all_addrs l) - set (all_addrs r) - {a} = tls h - set (all_addrs (Node a hr l r))"
    by (auto simp: all_addrs_def)
  then show ?thesis
    by (auto simp: tl_node_free_def after_destroy_def image_Un)
qed

lemma destroy_ok:
  "tl_inv d lo t \<Longrightarrow> clean t \<Longrightarrow> list_all2 (leaf_rep h) (leaf_seq t) xss \<Longrightarrow> separate (leaf_seq t) xss \<Longrightarrow>
   length (concat xss) \<le> fuel \<Longrightarrow> distinct (all_addrs t) \<Longrightarrow> set (all_addrs t) \<subseteq> tls h \<Longrightarrow>
     destroy fuel t h = Some (after_destroy t xss h)"
proof (induction t arbitrary: d lo xss h)
  case (Leaf a hr b)
  then obtain xs where xs: "xss = [xs]" "blist_rep h b xs" by (auto simp: list_all2_Cons1 leaf_rep_def)
  have "bl_free fuel h b = Some (h\<lparr>nodes := without (nodes h) (set xs), blists := (blists h)(b := None)\<rparr>)"
    using bl_free_rep [OF xs(2), of fuel] Leaf.prems(5) xs(1) by simp
  moreover have "(blists h)(b := None) = without (blists h) {b}"
    by (auto simp: without_def)
  ultimately show ?case
    using Leaf.prems xs(1) by (simp add: tl_node_free_def after_destroy_def all_addrs_def)
next
  case (SplitLeaf a hr sn)
  then show ?case by (simp add: clean_def)
next
  case (Node a hr l r)
  obtain ls rs where sp: "xss = ls @ rs" "list_all2 (leaf_rep h) (leaf_seq l) ls" "list_all2 (leaf_rep h) (leaf_seq r) rs"
    using Node.prems(3) by (auto simp: list_all2_append1)
  have cl: "clean l" "clean r" using clean_Node [OF Node.prems(1)] Node.prems(2) by auto
  have sep: "separate (leaf_seq l) ls" "separate (leaf_seq r) rs"
    "snd ` set (leaf_seq r) \<inter> snd ` set (leaf_seq l) = {}" "set (concat rs) \<inter> set (concat ls) = {}"
    using Node.prems(4) sp(1) by (auto simp: separate_def)
  have addrs: "distinct (all_addrs l)" "distinct (all_addrs r)" "set (all_addrs l) \<subseteq> tls h" "set (all_addrs r) \<subseteq> tls h"
    "set (all_addrs r) \<inter> set (all_addrs l) = {}" "a \<notin> set (all_addrs l)" "a \<notin> set (all_addrs r)" "a \<in> tls h"
    using Node.prems(6,7) by (auto simp: all_addrs_def)
  let ?h1 = "after_destroy l ls h"
  have L: "destroy fuel l h = Some ?h1"
    using Node.IH(1) [OF _ cl(1) sp(2) sep(1)] Node.prems(1,5) sp(1) addrs by auto
  have "list_all2 (leaf_rep ?h1) (leaf_seq r) rs"
  proof (rule list.rel_mono_strong [OF sp(3)])
    fix q ys assume "q \<in> set (leaf_seq r)" "ys \<in> set rs" "leaf_rep h q ys"
    then show "leaf_rep ?h1 q ys"
      using sep(3,4) by (intro leaf_rep_after_destroy) auto
  qed
  then have R: "destroy fuel r ?h1 = Some (after_destroy r rs ?h1)"
    using Node.IH(2) [OF _ cl(2) _ sep(2), of "Suc d" "lo + width (Suc d)" ?h1] Node.prems(1,5) sp(1) addrs
    by (auto simp: after_destroy_def)
  show ?case
    using L R Node.prems(1) addrs(6-8) sp(1) by (simp add: after_destroy_Node [where hr = hr])
qed

text \<open>After \<open>om_destroy\<close> every node, list and tree node of the structure is free, and nothing else.\<close>

theorem om_destroy_ok:
  assumes rep: "om_rep self h xss" and fuel: "length (concat xss) \<le> fuel"
  shows "om_destroy fuel self h = Some (after_destroy (om_root self) xss h)"
proof -
  have mid: "om_mid self h xss" and cl: "clean (om_root self)" using rep by (auto simp: om_rep_def)
  show ?thesis
    unfolding om_destroy_def
    by (rule destroy_ok [OF _ cl _ om_mid_separate [OF mid] fuel]) (use mid in \<open>auto simp: om_mid_def all_addrs_def\<close>)
qed

subsection \<open>A client\<close>

text \<open>
  The client holds nodes (\<open>hs\<close>); it inserts after one of them, and relabels any of the lists, in any order.
  The abstract state is the order itself, to which an abstract step adds a node after another or nothing.
\<close>

inductive om_step :: "nat set \<times> om \<times> bheap \<Rightarrow> nat set \<times> om \<times> bheap \<Rightarrow> bool" where
  full: "b \<in> hs \<Longrightarrow> om_insert self b h = Some (None, h') \<Longrightarrow> om_step (hs, self, h) (hs, self, h')"
| insert: "b \<in> hs \<Longrightarrow> om_insert self b h = Some (Some n, h') \<Longrightarrow> om_step (hs, self, h) (insert n hs, self, h')"
| relabel: "distinct heavy \<Longrightarrow> set heavy \<subseteq> set (leaf_addrs (om_root self)) \<Longrightarrow> card hs < 2 ^ 31 \<Longrightarrow>
    om_relabel (card hs) x86_shl heavy (self, h) = Some (self', h') \<Longrightarrow> om_step (hs, self, h) (hs, self', h')"

inductive_cases om_stepE: "om_step (hs, self, h) s'"

definition order_step :: "nat list \<Rightarrow> nat list \<Rightarrow> bool" where
  "order_step xs ys \<longleftrightarrow> ys = xs \<or> (\<exists>pre b n post. xs = pre @ b # post \<and> n \<notin> set xs \<and> ys = pre @ b # n # post)"

definition client_rep :: "nat set \<times> om \<times> bheap \<Rightarrow> nat list \<Rightarrow> bool" where
  "client_rep s xs \<longleftrightarrow>
     (case s of (hs, self, h) \<Rightarrow> \<exists>xss. om_x86 self h xss \<and> xs = concat xss \<and> set xs = hs \<and> xs \<noteq> [])"

lemma client_rep_distinct: "client_rep s xs \<Longrightarrow> distinct xs"
  by (auto simp: client_rep_def om_x86_def om_rep_def separate_def dest: om_mid_separate)

lemma om_rep_allocated:
  assumes "om_rep self h xss" "x \<in> set (concat xss)"
  shows "nodes h x \<noteq> None"
proof -
  obtain ys where "ys \<in> set xss" "x \<in> set ys" using assms(2) by auto
  then obtain i where i: "i < length xss" "x \<in> set (xss ! i)" by (metis in_set_conv_nth)
  obtain b where "blist_rep h b (xss ! i)" using om_rep_leaf [OF assms(1) i(1)] by metis
  with i(2) show ?thesis by (metis blist_rep_node option.distinct(1))
qed

lemma om_step_simulation:
  assumes rep: "client_rep s xs" and step: "om_step s s'"
  shows "\<exists>ys. client_rep s' ys \<and> order_step xs ys"
proof -
  obtain hs self h where s: "s = (hs, self, h)" by (cases s)
  obtain xss where r: "om_x86 self h xss" "xs = concat xss" "set xs = hs" "xs \<noteq> []"
    using rep by (auto simp: client_rep_def s)
  have rep': "om_rep self h xss" using r(1) by (simp add: om_x86_def)
  have dist: "distinct xs" using rep by (rule client_rep_distinct)
  from step [unfolded s] consider
      (full) b h' where "s' = (hs, self, h')" "b \<in> hs" "om_insert self b h = Some (None, h')"
    | (insert) b n h' where "s' = (insert n hs, self, h')" "b \<in> hs" "om_insert self b h = Some (Some n, h')"
    | (relabel) heavy self' h' where "s' = (hs, self', h')" "distinct heavy"
        "set heavy \<subseteq> set (leaf_addrs (om_root self))" "card hs < 2 ^ 31"
        "om_relabel (card hs) x86_shl heavy (self, h) = Some (self', h')"
    by (auto elim: om_stepE)
  then show ?thesis
  proof cases
    case (full b h')
    then obtain pre post where "concat xss = pre @ b # post" using r by (metis split_list)
    from om_insert_order [OF rep' this] full(3) have "h' = h" by auto
    with rep s full(1) show ?thesis by (auto simp: order_step_def)
  next
    case (insert b n h')
    then obtain pre post where c: "concat xss = pre @ b # post" using r by (metis split_list)
    from om_insert_order [OF rep' c] insert(3) obtain xss' where x: "om_rep self h' xss'"
      "concat xss' = pre @ b # n # post" "nodes h n = None" by auto
    have "n \<notin> set (concat xss)" using om_rep_allocated [OF rep'] x(3) by blast
    then have "order_step xs (concat xss')" using c x(2) r(2) by (auto simp: order_step_def)
    moreover have "client_rep s' (concat xss')"
      using x(1,2) r c insert(1) by (auto simp: client_rep_def om_x86_def)
    ultimately show ?thesis by blast
  next
    case (relabel heavy self' h')
    have "length (concat xss) = card hs" using r(2,3) dist by (simp add: distinct_card [symmetric])
    then obtain xss' where "om_x86 self' h' xss'" "concat xss' = concat xss"
      using om_relabel_x86 [OF r(1), of "card hs" heavy] relabel r by auto
    then have "client_rep s' xs" using r relabel(1) by (auto simp: client_rep_def)
    then show ?thesis by (auto simp: order_step_def)
  qed
qed

text \<open>In the order, \<open>x\<close> before \<open>y\<close>.\<close>

definition before :: "nat list \<Rightarrow> nat \<Rightarrow> nat \<Rightarrow> bool" where
  "before xs x y \<longleftrightarrow> subseq [x, y] xs"

lemma before_iff: "before xs x y \<longleftrightarrow> (\<exists>us vs. xs = us @ x # vs \<and> y \<in> set vs)"
proof
  assume "before xs x y"
  then have "subseq (x # [y]) xs" by (simp only: before_def)
  then obtain us vs where "xs = us @ x # vs" "subseq [y] vs"
    by (auto dest!: list_emb_ConsD)
  then show "\<exists>us vs. xs = us @ x # vs \<and> y \<in> set vs" by (auto simp: subseq_singleton_left)
next
  assume "\<exists>us vs. xs = us @ x # vs \<and> y \<in> set vs"
  then obtain us vs where "xs = us @ x # vs" "y \<in> set vs" by blast
  then show "before xs x y"
    unfolding before_def by (auto simp: subseq_singleton_left intro!: list_emb_append2)
qed

lemma before_nth:
  assumes "distinct xs" "i < length xs" "j < length xs"
  shows "before xs (xs ! i) (xs ! j) \<longleftrightarrow> i < j"
proof
  assume "before xs (xs ! i) (xs ! j)"
  then obtain us vs where uv: "xs = us @ xs ! i # vs" "xs ! j \<in> set vs" by (auto simp: before_iff)
  then obtain k where k: "k < length vs" "vs ! k = xs ! j" by (auto simp: in_set_conv_nth)
  have len: "length xs = length us + Suc (length vs)" using uv(1) by (metis length_append length_Cons)
  have "xs ! length us = xs ! i" using uv(1) by (metis nth_append_length)
  then have i: "i = length us" using assms len by (simp add: nth_eq_iff_index_eq)
  have "xs ! (Suc (length us) + k) = vs ! k"
    by (subst uv(1)) (simp add: nth_append)
  then have "j = Suc (length us) + k" using assms len k by (simp add: nth_eq_iff_index_eq)
  with i show "i < j" by simp
next
  assume "i < j"
  then have "xs = take i xs @ xs ! i # drop (Suc i) xs" "xs ! j \<in> set (drop (Suc i) xs)"
    using assms by (auto simp: id_take_nth_drop in_set_conv_nth intro!: exI [of _ "j - Suc i"])
  then show "before xs (xs ! i) (xs ! j)" by (auto simp: before_iff)
qed

lemma client_precedes:
  assumes "client_rep (hs, self, h) xs" "x \<in> hs" "y \<in> hs"
  shows "om_precedes self h (Some x) (Some y) = Some (before xs x y)"
proof -
  obtain xss where r: "om_rep self h xss" "xs = concat xss" "set xs = hs"
    using assms(1) by (auto simp: client_rep_def om_x86_def)
  obtain i j where "i < length xs" "xs ! i = x" "j < length xs" "xs ! j = y"
    using assms(2,3) r(3) by (metis in_set_conv_nth)
  with om_precedes_order [OF r(1), of i j] r(2) before_nth [OF client_rep_distinct [OF assms(1)], of i j]
  show ?thesis by simp
qed

lemma order_step_before:
  assumes "order_step xs ys" "x \<in> set xs" "y \<in> set xs"
  shows "before ys x y \<longleftrightarrow> before xs x y"
proof (cases "ys = xs")
  case False
  then obtain pre b n post where s: "xs = pre @ b # post" "n \<notin> set xs" "ys = pre @ b # n # post"
    using assms(1) False unfolding order_step_def by blast
  have "filter (\<lambda>z. z \<noteq> n) xs = xs" using s(2) by (auto simp: filter_id_conv)
  then have f: "filter (\<lambda>z. z \<noteq> n) ys = xs" using s by (simp add: filter_id_conv)
  have ne: "x \<noteq> n" "y \<noteq> n" using assms(2,3) s(2) by auto
  show ?thesis
  proof
    assume "before ys x y"
    then have "subseq (filter (\<lambda>z. z \<noteq> n) [x, y]) (filter (\<lambda>z. z \<noteq> n) ys)"
      unfolding before_def by (rule subseq_filter)
    with f ne show "before xs x y" by (simp add: before_def)
  next
    assume "before xs x y"
    moreover have "subseq xs ys" unfolding f [symmetric] by (rule subseq_filter_left)
    ultimately show "before ys x y" unfolding before_def by (rule subseq_order.order_trans)
  qed
qed simp

text \<open>An answer of \<open>om_precedes\<close> about two nodes never changes, whatever the client does.\<close>

theorem om_precedes_stable:
  assumes rep: "client_rep (hs, self, h) xs" and run: "om_step\<^sup>*\<^sup>* (hs, self, h) (hs', self', h')"
    and x: "x \<in> hs" and y: "y \<in> hs"
  shows "om_precedes self' h' (Some x) (Some y) = om_precedes self h (Some x) (Some y)"
proof -
  have "\<exists>ys. client_rep s ys \<and> set xs \<subseteq> set ys \<and> (\<forall>x\<in>set xs. \<forall>y\<in>set xs. before ys x y \<longleftrightarrow> before xs x y)"
    if "om_step\<^sup>*\<^sup>* (hs, self, h) s" for s
    using that
  proof (induction rule: rtranclp_induct)
    case base
    then show ?case using rep by blast
  next
    case (step s1 s2)
    then obtain ys where ys: "client_rep s1 ys" "set xs \<subseteq> set ys" "\<forall>x\<in>set xs. \<forall>y\<in>set xs. before ys x y \<longleftrightarrow> before xs x y"
      by blast
    obtain zs where zs: "client_rep s2 zs" "order_step ys zs" using om_step_simulation [OF ys(1) step.hyps(2)] by blast
    moreover have "set ys \<subseteq> set zs" using zs(2) by (auto simp: order_step_def)
    ultimately show ?case using ys(2,3) order_step_before [OF zs(2)] by (meson subsetD subset_trans)
  qed
  from this [OF run] obtain ys where ys: "client_rep (hs', self', h') ys" "set xs \<subseteq> set ys"
    "\<forall>x\<in>set xs. \<forall>y\<in>set xs. before ys x y \<longleftrightarrow> before xs x y" by blast
  have hs: "set xs = hs" "set ys = hs'" using rep ys(1) by (auto simp: client_rep_def)
  then have "x \<in> hs'" "y \<in> hs'" using x y ys(2) by auto
  with client_precedes [OF rep x y] client_precedes [OF ys(1)] ys(3) x y hs show ?thesis by simp
qed

text \<open>Whatever the client does, the lists stay such that \<open>bl_verify\<close> accepts them.\<close>

lemma client_rep_steps:
  assumes "client_rep s xs" and "om_step\<^sup>*\<^sup>* s s'" shows "\<exists>ys. client_rep s' ys"
  using assms(2)
proof (induction rule: rtranclp_induct)
  case base
  then show ?case using assms(1) by blast
next
  case (step s1 s2)
  then show ?case using om_step_simulation by blast
qed

lemma client_lists_ok:
  assumes "client_rep s xs" and "om_step\<^sup>*\<^sup>* s (hs, self, h)" and "card hs \<le> fuel" and "(a, b) \<in> set (leaf_seq (om_root self))"
  shows "bl_verify fuel h b = Some 0 \<and> (\<exists>L. blists h b = Some L \<and> bl_above L = Some a)"
proof -
  obtain ys where ys: "client_rep (hs, self, h) ys" using client_rep_steps [OF assms(1,2)] by blast
  then obtain xss where x: "om_rep self h xss" "ys = concat xss" "set ys = hs" by (auto simp: client_rep_def om_x86_def)
  have "card hs = length (concat xss)" using distinct_card [OF client_rep_distinct [OF ys]] x(2,3) by simp
  then show ?thesis using bl_verify_all [OF x(1) _ assms(4), of fuel] assms(3) by simp
qed

end
