(* ===== verification/Arrays.thy ===== *)
theory Arrays
  imports Prelude
begin

text \<open>
  The growing arrays of the detector: the stack of \<open>rdtool/src/stack.h\<close> (doubling and halving, 32-bit
  indices that start one below zero) and the list of \<open>rdtool/src/list.cpp\<close> (growing by 100 cells, with a
  bounds check that throws).

  A cell is \<open>None\<close> while it holds no value: after \<open>new\<close>, or after the debugging \<open>memset\<close> of a reset.
  Reading such a cell stops, as does an index outside the array.
  \<open>stk_list\<close> and \<open>arr_list\<close> are the elements; the operations are those of lists.
\<close>

subsection \<open>The stack\<close>

definition DEFAULT_CAPACITY :: u32 where "DEFAULT_CAPACITY = 128"

record 'a stk =
  stk_cells :: "'a option list"
  stk_capacity :: u32
  stk_head :: u32
  stk_tail :: u32

definition stk_new :: "'a stk" where
  "stk_new = \<lparr>stk_cells = replicate (unat DEFAULT_CAPACITY) None, stk_capacity = DEFAULT_CAPACITY,
              stk_head = -1, stk_tail = 0\<rparr>"

definition stk_resize :: "u32 \<Rightarrow> 'a stk \<Rightarrow> 'a stk" where
  "stk_resize new_capacity s =
     (let copy_end = (if stk_capacity s > new_capacity then new_capacity else stk_capacity s)
      in s\<lparr>stk_cells := take (unat copy_end) (stk_cells s) @ replicate (unat new_capacity - unat copy_end) None,
           stk_capacity := new_capacity\<rparr>)"

definition stk_double_cap :: "'a stk \<Rightarrow> 'a stk" where
  "stk_double_cap s = stk_resize (stk_capacity s * 2) s"

definition stk_halve_cap :: "'a stk \<Rightarrow> 'a stk" where
  "stk_halve_cap s = stk_resize (stk_capacity s div 2) s"

definition stk_reset :: "'a stk \<Rightarrow> 'a stk" where
  "stk_reset s = s\<lparr>stk_head := -1, stk_tail := 0\<rparr>"

definition stk_push :: "'a stk \<Rightarrow> 'a stk" where
  "stk_push s =
     (let s = s\<lparr>stk_head := stk_head s + 1\<rparr>
      in if stk_head s = stk_capacity s then stk_double_cap s else s)"

definition stk_pop :: "'a stk \<Rightarrow> 'a stk" where
  "stk_pop s =
     (let s = s\<lparr>stk_head := stk_head s - 1\<rparr>
      in if stk_capacity s > DEFAULT_CAPACITY \<and> stk_head s < stk_capacity s div 2 then stk_halve_cap s else s)"

definition stk_read :: "'a stk \<Rightarrow> u32 \<Rightarrow> 'a option" where
  "stk_read s i = (if unat i < length (stk_cells s) then stk_cells s ! unat i else None)"

definition stk_ancestor :: "'a stk \<Rightarrow> u32 \<Rightarrow> 'a option" where
  "stk_ancestor s i =
     do { check (i \<le> stk_head s); check (stk_head s < stk_capacity s); stk_read s (stk_head s - i) }"

definition stk_at :: "'a stk \<Rightarrow> u32 \<Rightarrow> 'a option" where
  "stk_at s i = do { check (i \<le> stk_head s); check (stk_head s < stk_capacity s); stk_read s i }"

definition stk_top :: "'a stk \<Rightarrow> 'a option" where
  "stk_top s = stk_ancestor s 0"

definition stk_size :: "'a stk \<Rightarrow> u32" where
  "stk_size s = stk_head s + 1"

definition stk_empty :: "'a stk \<Rightarrow> bool" where
  "stk_empty s \<longleftrightarrow> stk_size s = 0"

text \<open>The operations of \<open>AtomicStack_t\<close>; each holds the spin lock throughout, so each is one step.\<close>

definition astk_add :: "'a \<Rightarrow> 'a stk \<Rightarrow> 'a stk option" where
  "astk_add item s =
     (let s = stk_push s
      in do { check (stk_head s < stk_capacity s);
              Some (s\<lparr>stk_cells := (stk_cells s)[unat (stk_head s) := Some item]\<rparr>) })"

definition astk_reset :: "'a stk \<Rightarrow> 'a stk" where
  "astk_reset s =
     stk_reset (s\<lparr>stk_cells := replicate (unat (stk_size s)) None @ drop (unat (stk_size s)) (stk_cells s)\<rparr>)"

definition astk_pop :: "'a stk \<Rightarrow> 'a stk option" where
  "astk_pop s =
     do { check (stk_head s \<ge> stk_tail s);
          let s = stk_pop s;
          if stk_head s < stk_tail s
          then do { let s = s\<lparr>stk_tail := stk_tail s - 1\<rparr>;
                    check (stk_tail s = stk_head s);
                    Some (s\<lparr>stk_cells := (stk_cells s)[unat (stk_head s + 1) := None]\<rparr>) }
          else Some s }"

definition astk_memsize :: "nat \<Rightarrow> nat \<Rightarrow> 'a stk \<Rightarrow> nat" where
  "astk_memsize sizeof_T sizeof_this s = unat (stk_capacity s) * sizeof_T + sizeof_this"

subsection \<open>The stack is a list\<close>

definition stk_list :: "'a stk \<Rightarrow> 'a option list" where
  "stk_list s = take (unat (stk_size s)) (stk_cells s)"

text \<open>The elements \<open>xs\<close>, the oldest first; the capacity stays a power of two above the default.\<close>

definition stk_rep :: "'a stk \<Rightarrow> 'a list \<Rightarrow> bool" where
  "stk_rep s xs \<longleftrightarrow>
     stk_list s = map Some xs \<and> unat (stk_size s) = length xs \<and> length (stk_cells s) = unat (stk_capacity s) \<and>
     length xs \<le> unat (stk_capacity s) \<and> (\<exists>k\<le>24. unat (stk_capacity s) = 128 * 2 ^ k) \<and> stk_tail s = 0"

lemma unat_lt32 [simp]: "unat (w :: u32) < 4294967296"
  using unsigned_less [of w] by simp

lemma u32_add_unat:
  "unat a + unat b < 4294967296 \<Longrightarrow> unat (a + b :: u32) = unat a + unat b"
  by (simp add: unat_word_ariths)

lemma stk_rep_new: "stk_rep stk_new []"
  by (auto simp: stk_rep_def stk_new_def stk_list_def stk_size_def DEFAULT_CAPACITY_def intro: exI [of _ 0])

lemma unat_eq_of_nat: "unat (w :: 'a :: len word) = n \<Longrightarrow> w = of_nat n"
  by auto

lemma of_nat_pred: "0 < n \<Longrightarrow> (of_nat n :: 'a :: len word) - 1 = of_nat (n - 1)"
  by (cases n) simp_all

lemma stk_rep_head:
  assumes "stk_rep s xs"
  shows "stk_head s + 1 = of_nat (length xs)" "stk_head s = of_nat (length xs) - 1"
proof -
  have "unat (stk_size s) = length xs" using assms by (simp add: stk_rep_def)
  then have "stk_size s = of_nat (length xs)" by (rule unat_eq_of_nat)
  then show "stk_head s + 1 = of_nat (length xs)" "stk_head s = of_nat (length xs) - 1"
    by (simp_all add: stk_size_def eq_diff_eq)
qed

lemma unat_of_nat32: "n < 4294967296 \<Longrightarrow> unat (of_nat n :: u32) = n"
  by (simp only: unsigned_of_nat) (simp add: take_bit_nat_eq_self)

lemma power2_room: "128 * 2 ^ k \<le> n \<Longrightarrow> n < 2 ^ 31 \<Longrightarrow> k < (24 :: nat)" for n :: nat
proof (rule ccontr)
  assume "128 * 2 ^ k \<le> n" "n < 2 ^ 31" "\<not> k < 24"
  moreover have "(2 :: nat) ^ 24 \<le> 2 ^ k" using calculation(3) by (intro power_increasing) auto
  ultimately show False by simp
qed

lemma stk_push_rep:
  assumes rep: "stk_rep s xs" and small: "length xs < 2 ^ 31"
  shows "unat (stk_head (stk_push s)) = length xs" "take (length xs) (stk_cells (stk_push s)) = map Some xs"
    "length (stk_cells (stk_push s)) = unat (stk_capacity (stk_push s))" "length xs < unat (stk_capacity (stk_push s))"
    "\<exists>k\<le>24. unat (stk_capacity (stk_push s)) = 128 * 2 ^ k" "stk_tail (stk_push s) = 0"
proof -
  let ?n = "length xs" and ?s = "s\<lparr>stk_head := stk_head s + 1\<rparr>"
  obtain k where k: "k \<le> 24" "unat (stk_capacity s) = 128 * 2 ^ k" using rep by (auto simp: stk_rep_def)
  have r: "take ?n (stk_cells s) = map Some xs" "length (stk_cells s) = unat (stk_capacity s)"
    "?n \<le> unat (stk_capacity s)" "stk_tail s = 0"
    using rep by (auto simp: stk_rep_def stk_list_def)
  have hd': "stk_head ?s = of_nat ?n" "unat (of_nat ?n :: u32) = ?n"
    using stk_rep_head [OF rep] small by (auto intro: unat_of_nat32)
  have "unat (stk_head (stk_push s)) = ?n \<and> take ?n (stk_cells (stk_push s)) = map Some xs \<and>
    length (stk_cells (stk_push s)) = unat (stk_capacity (stk_push s)) \<and> ?n < unat (stk_capacity (stk_push s)) \<and>
    (\<exists>k\<le>24. unat (stk_capacity (stk_push s)) = 128 * 2 ^ k) \<and> stk_tail (stk_push s) = 0"
  proof (cases "of_nat ?n = stk_capacity s")
    case False
    then have "?n \<noteq> unat (stk_capacity s)" using unat_eq_of_nat [of "stk_capacity s" ?n] by auto
    with False r hd' k show ?thesis by (auto simp: stk_push_def Let_def)
  next
    case True
    then have cap: "unat (stk_capacity s) = ?n" using hd'(2) by metis
    then have k24: "k < 24" using k(2) small power2_room [of k ?n] by simp
    have dbl: "unat (stk_capacity s * 2) = 2 * ?n" "\<not> stk_capacity s > stk_capacity s * 2"
      using u32_add_unat [of "stk_capacity s" "stk_capacity s"] cap small
      by (simp_all add: mult_2_right word_less_nat_alt)
    have "?n \<noteq> 0" using cap k(2) by (metis mult_eq_0_iff power_not_zero zero_neq_numeral)
    moreover have "2 * ?n = 128 * 2 ^ Suc k" using cap k(2) by simp
    ultimately show ?thesis
      using True r hd' dbl cap k24
      by (auto simp: stk_push_def stk_double_cap_def stk_resize_def Let_def intro!: exI [of _ "Suc k"])
  qed
  then show "unat (stk_head (stk_push s)) = length xs" "take (length xs) (stk_cells (stk_push s)) = map Some xs"
    "length (stk_cells (stk_push s)) = unat (stk_capacity (stk_push s))" "length xs < unat (stk_capacity (stk_push s))"
    "\<exists>k\<le>24. unat (stk_capacity (stk_push s)) = 128 * 2 ^ k" "stk_tail (stk_push s) = 0" by blast+
qed

lemma astk_add_rep:
  assumes rep: "stk_rep s xs" and small: "length xs < 2 ^ 31"
  shows "\<exists>s'. astk_add x s = Some s' \<and> stk_rep s' (xs @ [x])"
proof -
  note p = stk_push_rep [OF rep small]
  let ?s = "(stk_push s)\<lparr>stk_cells := (stk_cells (stk_push s))[unat (stk_head (stk_push s)) := Some x]\<rparr>"
  have "astk_add x s = Some ?s"
    using p(1,4) by (simp add: astk_add_def Let_def word_less_nat_alt)
  moreover have "unat (stk_head (stk_push s) + 1) = Suc (length xs)"
    using u32_add_unat [of "stk_head (stk_push s)" 1] p(1) small by simp
  then have "stk_rep ?s (xs @ [x])"
    using p by (simp add: stk_rep_def stk_list_def stk_size_def take_Suc_conv_app_nth)
  ultimately show ?thesis by blast
qed

lemma stk_at_rep:
  assumes "stk_rep s xs" "unat i < length xs" "length xs < 2 ^ 31"
  shows "stk_at s i = Some (xs ! unat i)"
proof -
  have n: "0 < length xs" using assms(2) by linarith
  have h: "unat (stk_head s) = length xs - 1"
  proof -
    have "stk_head s = of_nat (length xs - 1)" using stk_rep_head(2) [OF assms(1)] of_nat_pred [OF n] by metis
    then show ?thesis using assms(3) by (simp add: unat_of_nat32)
  qed
  have r: "length (stk_cells s) = unat (stk_capacity s)" "length xs \<le> unat (stk_capacity s)"
    "take (length xs) (stk_cells s) = map Some xs"
    using assms(1) by (auto simp: stk_rep_def stk_list_def)
  have "stk_cells s ! unat i = take (length xs) (stk_cells s) ! unat i" using assms(2) by (simp only: nth_take)
  also have "\<dots> = Some (xs ! unat i)" using r(3) assms(2) by simp
  finally have "stk_cells s ! unat i = Some (xs ! unat i)" .
  moreover have "unat i \<le> length xs - 1" "length xs - 1 < unat (stk_capacity s)" using n assms(2) r(2) by linarith+
  ultimately show ?thesis
    using h r(1) by (simp add: stk_at_def stk_read_def word_le_nat_alt word_less_nat_alt)
qed

lemma stk_size_rep: "stk_rep s xs \<Longrightarrow> unat (stk_size s) = length xs"
  by (simp add: stk_rep_def)

lemma stk_empty_rep: "stk_rep s xs \<Longrightarrow> stk_empty s \<longleftrightarrow> xs = []"
  by (auto simp: stk_rep_def stk_empty_def stk_size_def unat_eq_0)

lemma astk_reset_rep: "stk_rep s xs \<Longrightarrow> stk_rep (astk_reset s) []"
  by (auto simp: stk_rep_def astk_reset_def stk_reset_def stk_list_def stk_size_def)

lemma astk_pop_rep:
  assumes rep: "stk_rep s (xs @ [x])" and small: "length xs < 2 ^ 31"
  shows "\<exists>s'. astk_pop s = Some s' \<and> stk_rep s' xs"
proof -
  let ?n = "length xs" and ?s = "s\<lparr>stk_head := stk_head s - 1\<rparr>"
  have r: "take (Suc ?n) (stk_cells s) = map Some (xs @ [x])" "length (stk_cells s) = unat (stk_capacity s)"
    "Suc ?n \<le> unat (stk_capacity s)" "stk_tail s = 0" and h: "stk_head s = of_nat ?n"
    using rep stk_rep_head(2) [OF rep] by (auto simp: stk_rep_def stk_list_def)
  obtain k where k: "k \<le> 24" "unat (stk_capacity s) = 128 * 2 ^ k" using rep by (auto simp: stk_rep_def)
  have un: "unat (of_nat ?n :: u32) = ?n" using small by (simp add: unat_of_nat32)
  have t: "take ?n (stk_cells s) = map Some xs"
    using arg_cong [OF r(1), of "take ?n"] by simp
  have "stk_rep (stk_pop s) xs"
  proof (cases "stk_capacity s > DEFAULT_CAPACITY \<and> stk_head ?s < stk_capacity s div 2")
    case False
    then have "stk_pop s = ?s" by (auto simp: stk_pop_def Let_def)
    with r t h un k show ?thesis by (auto simp: stk_rep_def stk_list_def stk_size_def)
  next
    case True
    let ?c = "stk_capacity s div 2"
    have c: "unat ?c = unat (stk_capacity s) div 2" by (simp add: unat_div)
    have pop: "stk_pop s = stk_halve_cap ?s" using True by (simp add: stk_pop_def Let_def)
    obtain k' where k': "k = Suc k'"
      using True k(2) by (cases k) (auto simp: DEFAULT_CAPACITY_def word_less_nat_alt)
    then have cap: "unat ?c = 128 * 2 ^ k'" using c k(2) by simp
    have "?n \<le> unat ?c"
    proof (cases "?n = 0")
      case False
      then have "stk_head ?s = of_nat (?n - 1)" using h of_nat_pred [of ?n] by simp
      then have "unat (stk_head ?s) = ?n - 1" using small by (simp add: unat_of_nat32)
      moreover have "unat (stk_head ?s) < unat ?c" using True unfolding word_less_nat_alt by blast
      ultimately show ?thesis by linarith
    qed simp
    moreover have "stk_capacity s > ?c" using c cap k(2) k' by (simp add: word_less_nat_alt)
    ultimately show ?thesis
      using pop r t h un cap k(1) k' c
      by (auto simp: stk_rep_def stk_list_def stk_size_def stk_halve_cap_def stk_resize_def Let_def take_map min_def
          intro!: exI [of _ k'])
  qed
  then show ?thesis
    using r(4) by (auto simp: astk_pop_def stk_rep_def Let_def)
qed

subsection \<open>The list of the stages\<close>

record 'a arr =
  arr_cells :: "'a option list"
  arr_top :: int
  arr_size :: int

definition arr_new :: "'a arr" where
  "arr_new = \<lparr>arr_cells = replicate 100 None, arr_top = -1, arr_size = 100\<rparr>"

definition arr_extend :: "'a arr \<Rightarrow> 'a arr" where
  "arr_extend a = a\<lparr>arr_cells := arr_cells a @ replicate 100 None, arr_size := arr_size a + 100\<rparr>"

definition arr_length :: "'a arr \<Rightarrow> int" where
  "arr_length a = arr_top a + 1"

definition arr_append :: "'a \<Rightarrow> 'a arr \<Rightarrow> 'a arr" where
  "arr_append x a =
     (let a = (if arr_top a + 1 = arr_size a then arr_extend a else a);
          a = a\<lparr>arr_top := arr_top a + 1\<rparr>
      in a\<lparr>arr_cells := (arr_cells a)[nat (arr_top a) := Some x]\<rparr>)"

text \<open>Outside the list the code throws a \<open>ListException\<close> that nothing catches.\<close>

definition arr_get :: "int \<Rightarrow> 'a arr \<Rightarrow> 'a option" where
  "arr_get index a =
     (if index \<ge> 0 \<and> index < arr_length a then arr_cells a ! nat index else None)"

definition arr_rep :: "'a arr \<Rightarrow> 'a list \<Rightarrow> bool" where
  "arr_rep a xs \<longleftrightarrow> arr_top a = int (length xs) - 1 \<and> arr_size a = int (length (arr_cells a)) \<and>
     length xs \<le> length (arr_cells a) \<and> take (length xs) (arr_cells a) = map Some xs"

lemma arr_new_rep: "arr_rep arr_new []"
  by (simp add: arr_rep_def arr_new_def)

lemma arr_append_rep: "arr_rep a xs \<Longrightarrow> arr_rep (arr_append x a) (xs @ [x])"
  by (auto simp: arr_rep_def arr_append_def arr_extend_def Let_def take_Suc_conv_app_nth)

lemma arr_length_rep: "arr_rep a xs \<Longrightarrow> arr_length a = int (length xs)"
  by (simp add: arr_rep_def arr_length_def)

lemma arr_get_rep:
  assumes "arr_rep a xs"
  shows "arr_get i a = (if 0 \<le> i \<and> i < int (length xs) then Some (xs ! nat i) else None)"
proof (cases "0 \<le> i \<and> i < int (length xs)")
  case True
  then have i: "nat i < length xs" by linarith
  then have "arr_cells a ! nat i = take (length xs) (arr_cells a) ! nat i" by (simp only: nth_take)
  also have "\<dots> = Some (xs ! nat i)" using assms i by (simp add: arr_rep_def)
  finally show ?thesis using True arr_length_rep [OF assms] by (simp add: arr_get_def)
qed (auto simp: arr_get_def arr_length_rep [OF assms])

end
