(* ===== verification/Omrd.thy ===== *)
theory Omrd
  imports Om_Life Arrays
begin

text \<open>
  The order-maintenance structure with the list of its heavy leaves (\<open>rdtool/src/omrd.h\<close>, \<open>omrd.cpp\<close>): insertion
  that marks a list as heavy before it is full, and the batch that relabels the heavy lists of both orders.

  Each structure has a store of its own.  The functions of this theory are the code of one worker between two
  acquisitions of its lock; a batch runs while no worker holds one.  \<open>Omrd_Batch\<close> has the locks and the interleaving.
\<close>

subsection \<open>State\<close>

record omrd =
  m_ds :: om
  m_heap :: bheap
  m_base :: ptr
  m_heavy_nodes :: "nat stk"

text \<open>The globals of \<open>omrd.cpp\<close> that the functions of a worker use.\<close>

record rd_globals =
  g_heavy_threshold :: u64
  g_batch_in_progress :: int
  g_relabel_id :: u64

definition HALF_BITS :: u64 where "HALF_BITS = (8 * 8) div 2"
definition DEFAULT_HEAVY_THRESHOLD :: u64 where "DEFAULT_HEAVY_THRESHOLD = HALF_BITS"

definition rd_globals_init :: rd_globals where
  "rd_globals_init = \<lparr>g_heavy_threshold = DEFAULT_HEAVY_THRESHOLD, g_batch_in_progress = 0, g_relabel_id = 0\<rparr>"

subsection \<open>Operations\<close>

definition is_heavy :: "rd_globals \<Rightarrow> bheap \<Rightarrow> nat \<Rightarrow> bool option" where
  "is_heavy g h n =
     do { nd \<leftarrow> nodes h n;
          next_lab \<leftarrow> (case nd_next nd of None \<Rightarrow> Some MAX_LABEL | Some m \<Rightarrow> map_option nd_label (nodes h m));
          Some (next_lab - nd_label nd < push_bit (unat (64 - g_heavy_threshold g)) 1) }"

definition add_heavy :: "rd_globals \<Rightarrow> nat \<Rightarrow> omrd \<Rightarrow> omrd option" where
  "add_heavy g base d =
     do { check (g_batch_in_progress g = 0);
          t \<leftarrow> om_get_tl (m_ds d) (m_heap d) base;
          s \<leftarrow> astk_add t (m_heavy_nodes d);
          Some (d\<lparr>m_heavy_nodes := s\<rparr>) }"

text \<open>\<open>CAS(&base->list->heavy, 0, 1)\<close>: whether it was 0, and the store with 1.\<close>

definition cas_heavy :: "nat \<Rightarrow> bheap \<Rightarrow> (bool \<times> bheap) option" where
  "cas_heavy base h =
     do { nd \<leftarrow> nodes h base; l \<leftarrow> nd_list nd; L \<leftarrow> blists h l;
          if bl_heavy L = 0 then do { h \<leftarrow> upd_blist l (\<lambda>L. L\<lparr>bl_heavy := 1\<rparr>) h; Some (True, h) }
          else Some (False, h) }"

definition list_heavy :: "bheap \<Rightarrow> nat \<Rightarrow> bool option" where
  "list_heavy h n = do { nd \<leftarrow> nodes h n; l \<leftarrow> nd_list nd; L \<leftarrow> blists h l; Some (bl_heavy L \<noteq> 0) }"

text \<open>\<open>if (!base->list->heavy && CAS(...)) add_heavy(base)\<close>.\<close>

definition mark_base :: "rd_globals \<Rightarrow> nat \<Rightarrow> omrd \<Rightarrow> omrd option" where
  "mark_base g base d =
     do { heavy \<leftarrow> list_heavy (m_heap d) base;
          if heavy then Some d
          else do { (won, h) \<leftarrow> cas_heavy base (m_heap d);
                    let d = d\<lparr>m_heap := h\<rparr>;
                    if won then add_heavy g base d else Some d } }"

definition try_insert :: "rd_globals \<Rightarrow> ptr \<Rightarrow> omrd \<Rightarrow> (ptr \<times> omrd) option" where
  "try_insert g base d =
     do { check (g_batch_in_progress g = 0);
          (case base of
             None \<Rightarrow> do { (n, h) \<leftarrow> om_insert_initial (m_ds d) (m_heap d); Some (Some n, d\<lparr>m_heap := h\<rparr>) }
           | Some b \<Rightarrow> do { (n, h) \<leftarrow> om_insert (m_ds d) b (m_heap d); Some (n, d\<lparr>m_heap := h\<rparr>) }) }"

definition omrd_new :: "rd_globals \<Rightarrow> omrd option" where
  "omrd_new g =
     do { (self, h) \<leftarrow> om_create empty_bheap;
          (n, d) \<leftarrow> try_insert g None \<lparr>m_ds = self, m_heap = h, m_base = None, m_heavy_nodes = stk_new\<rparr>;
          Some (d\<lparr>m_base := n\<rparr>) }"

definition omrd_delete :: "nat \<Rightarrow> omrd \<Rightarrow> bheap option" where
  "omrd_delete fuel d = om_destroy fuel (m_ds d) (m_heap d)"

text \<open>The end of \<open>insert\<close>, after a node was inserted: is the list heavy now?\<close>

definition finish_insert :: "rd_globals \<Rightarrow> nat \<Rightarrow> nat \<Rightarrow> omrd \<Rightarrow> omrd option" where
  "finish_insert g base n d =
     do { nn \<leftarrow> nodes (m_heap d) n; nb \<leftarrow> nodes (m_heap d) base;
          check (nd_list nn = nd_list nb);
          heavy \<leftarrow> list_heavy (m_heap d) n;
          if heavy then Some d
          else do { b \<leftarrow> is_heavy g (m_heap d) n;
                    if b then do { (won, h) \<leftarrow> cas_heavy base (m_heap d);
                                   let d = d\<lparr>m_heap := h\<rparr>;
                                   if won then add_heavy g base d else Some d }
                    else Some d } }"

definition set_heavy_threshold :: "u64 \<Rightarrow> rd_globals \<Rightarrow> u64 \<times> rd_globals" where
  "set_heavy_threshold new_threshold g = (g_heavy_threshold g, g\<lparr>g_heavy_threshold := new_threshold\<rparr>)"

definition sizeof_ptr :: nat where "sizeof_ptr = 8"
definition sizeof_omrd :: nat where "sizeof_omrd = 48"

definition omrd_memsize :: "nat \<Rightarrow> nat \<Rightarrow> omrd \<Rightarrow> nat option" where
  "omrd_memsize fuel sizeof_stack d =
     do { ds_size \<leftarrow> om_memsize fuel (m_ds d) (m_heap d);
          let hnode_size = astk_memsize sizeof_ptr sizeof_stack (m_heavy_nodes d);
          Some (ds_size + hnode_size + sizeof_ptr + sizeof_omrd) }"

text \<open>\<open>heavy_nodes->at(0)\<close> and \<open>size()\<close>: the array that \<open>om_relabel\<close> walks.\<close>

fun heavy_array :: "nat \<Rightarrow> u32 \<Rightarrow> nat stk \<Rightarrow> nat list option" where
  "heavy_array 0 i s = Some []"
| "heavy_array (Suc n) i s = do { a \<leftarrow> stk_at s i; as \<leftarrow> heavy_array n (i + 1) s; Some (a # as) }"

definition relabel :: "nat \<Rightarrow> omrd \<Rightarrow> omrd option" where
  "relabel fuel d =
     (if \<not> stk_empty (m_heavy_nodes d)
      then do { heavy \<leftarrow> heavy_array (unat (stk_size (m_heavy_nodes d))) 0 (m_heavy_nodes d);
                (self, h) \<leftarrow> om_relabel fuel x86_shl heavy (m_ds d, m_heap d);
                Some (d\<lparr>m_ds := self, m_heap := h, m_heavy_nodes := astk_reset (m_heavy_nodes d)\<rparr>) }
      else Some d)"

text \<open>The two relabellings are spawned; they share nothing, so their order does not matter.\<close>

definition batch_relabel :: "nat \<Rightarrow> rd_globals \<times> omrd \<times> omrd \<Rightarrow> (rd_globals \<times> omrd \<times> omrd) option" where
  "batch_relabel fuel s =
     (case s of (g, english, hebrew) \<Rightarrow>
        do { let g = g\<lparr>g_relabel_id := g_relabel_id g + 1\<rparr>;
             english \<leftarrow> relabel fuel english;
             hebrew \<leftarrow> relabel fuel hebrew;
             Some (g\<lparr>g_relabel_id := g_relabel_id g + 1\<rparr>, english, hebrew) })"

subsection \<open>The invariant\<close>

text \<open>The heavy nodes are the leaves whose list is marked, each once; the order is \<open>xs\<close>.\<close>

definition omrd_rep :: "omrd \<Rightarrow> nat list \<Rightarrow> bool" where
  "omrd_rep d xs \<longleftrightarrow> xs \<noteq> [] \<and> length xs < 2 ^ 31 \<and>
     (\<exists>xss hs. om_x86 (m_ds d) (m_heap d) xss \<and> concat xss = xs \<and> stk_rep (m_heavy_nodes d) hs \<and> distinct hs \<and>
        set hs = fst ` {p \<in> set (leaf_seq (om_root (m_ds d))). marked (m_heap d) p})"

lemma om_x86_rep: "om_x86 self h xss \<Longrightarrow> om_rep self h xss"
  by (simp add: om_x86_def)

lemma om_insert_bl:
  assumes "om_insert self b h = Some (Some n, h')" "nodes h b = Some nd" "nd_list nd = Some l"
  shows "bl_insert l b h = Some (Some n, h')"
  using assms by (auto simp: om_insert_def bind_Some_iff split: option.splits if_splits)

lemma gap_new_node:
  assumes rep: "blist_rep h l (us @ b # vs)" and ok: "brk_ok h" and room: "has_room h b vs"
  defines "lab \<equiv> new_label (label_of (nodes h) b) (nxt_label (nodes h) vs)"
  shows "gap h b vs div 2 \<le> gap (after_insert h l b vs lab) (brk h) vs"
proof -
  have inc: "labels_inc (nodes h) (us @ b # vs)" and dist: "distinct (us @ b # vs)"
    using blist_rep_at [OF rep] by metis+
  have new: "brk h \<notin> set (us @ b # vs)" "nodes h (brk h) = None"
    using blist_rep_fresh [OF rep ok] ok by (auto simp: brk_ok_def)
  have labs: "label_of (nodes (after_insert h l b vs lab)) x =
      (if x = brk h then lab else label_of (nodes h) x)" for x
    by (rule after_insert_labels) (use new dist in auto)
  have nx: "nxt_label (nodes (after_insert h l b vs lab)) vs = nxt_label (nodes h) vs"
    using new labs by (cases vs) (auto simp: nxt_label_def)
  have g: "gap (after_insert h l b vs lab) (brk h) vs =
      (case nxt_label (nodes h) vs of None \<Rightarrow> 18446744073709551616 | Some c \<Rightarrow> unat c) - unat lab"
    by (simp add: gap_def nx labs)
  have room2: "2 \<le> gap h b vs"
    using room has_room_iff [OF inc] by simp
  let ?a = "unat (label_of (nodes h) b)"
  show ?thesis
  proof (cases "nxt_label (nodes h) vs")
    case None
    with room2 have a: "?a \<noteq> 18446744073709551615" by (simp add: gap_def)
    then have "unat lab = (?a + 18446744073709551615) div 2 + 1"
      unfolding lab_def None new_label_after by (auto simp: u64_eq_unat)
    moreover have "(18446744073709551616 - ?a) div 2 \<le> 18446744073709551616 - ((?a + 18446744073709551615) div 2 + 1)"
      using unat_lt64 [of "label_of (nodes h) b"] by linarith
    ultimately show ?thesis by (simp only: g gap_def [of h] None option.case)
  next
    case (Some c)
    with inc have lt: "label_of (nodes h) b < c" by (rule nxt_label_above)
    from room2 Some have "unat c \<noteq> Suc ?a" by (simp add: gap_def)
    then have "unat lab = (?a + unat c) div 2"
      unfolding lab_def Some new_label_between [OF lt] by simp
    moreover have "(unat c - ?a) div 2 \<le> unat c - (?a + unat c) div 2"
      using lt unfolding u64_less_unat by presburger
    ultimately show ?thesis by (simp only: g gap_def [of h] Some option.case)
  qed
qed

text \<open>Everything an insertion does that the wrapper relies on.\<close>

lemma om_insert_effect:
  assumes rep: "om_x86 self h xss" and i: "i < length xss" "xss ! i = us @ b # vs" "leaf_seq (om_root self) ! i = (a, l)"
    and ins: "om_insert self b h = Some (Some n, h')"
  shows "om_x86 self h' (xss[i := us @ b # n # vs])" and "nodes h n = None"
    and "marked h' p \<longleftrightarrow> marked h p" and "gap h b vs div 2 \<le> gap h' n vs"
proof -
  have rep': "om_rep self h xss" using rep by (rule om_x86_rep)
  then have ok: "brk_ok h" by (simp add: om_rep_def om_mid_def)
  have l: "blist_rep h l (us @ b # vs)" using om_rep_leaf [OF rep' i(1)] i(2,3) by (metis prod.inject)
  have room: "has_room h b vs" using om_insert_full [OF rep' i(1,2)] ins by auto
  obtain n1 h1 where "om_insert self b h = Some (Some n1, h1)" "om_rep self h1 (xss[i := us @ b # n1 # vs])" "nodes h n1 = None"
    using om_insert_room [OF rep' i(1,2) room] by blast
  with ins have x: "om_rep self h' (xss[i := us @ b # n # vs])" "nodes h n = None" by auto
  then show "om_x86 self h' (xss[i := us @ b # n # vs])" "nodes h n = None" using rep by (simp_all add: om_x86_def)
  obtain nd where nd: "nodes h b = Some nd" "nd_list nd = Some l" using blist_rep_node [OF l, of b] by auto
  from om_insert_bl [OF ins nd] bl_insert_room [OF l ok room]
  have h': "n = brk h" "h' = after_insert h l b vs (new_label (label_of (nodes h) b) (nxt_label (nodes h) vs))" by auto
  show "gap h b vs div 2 \<le> gap h' n vs" using gap_new_node [OF l ok room] by (simp add: h')
  have fresh: "b \<noteq> brk h" using blist_rep_fresh [OF l ok] by auto
  obtain L where L: "blists h l = Some L" using l by (auto simp: blist_rep_def)
  show "marked h' p \<longleftrightarrow> marked h p"
  proof (cases "snd p = l")
    case True
    with after_insert_heavy [OF L, of b vs "new_label (label_of (nodes h) b) (nxt_label (nodes h) vs)"] L
    show ?thesis by (auto simp: marked_def h')
  next
    case False
    with after_insert_frame(2) [OF fresh False] show ?thesis by (simp add: marked_def h')
  qed
qed

lemma om_leaf_of:
  assumes rep: "om_x86 self h xss" and x: "x \<in> set (concat xss)"
  obtains i us vs a l L nd where "i < length xss" "xss ! i = us @ x # vs" "leaf_seq (om_root self) ! i = (a, l)"
    "(a, l) \<in> set (leaf_seq (om_root self))" "blist_rep h l (us @ x # vs)" "blists h l = Some L" "bl_above L = Some a"
    "nodes h x = Some nd" "nd_list nd = Some l"
    "concat xss = (concat (take i xss) @ us) @ x # vs @ concat (drop (Suc i) xss)"
proof -
  obtain pre post where "concat xss = pre @ x # post" using x by (metis split_list)
  then obtain i us vs where i: "i < length xss" "xss ! i = us @ x # vs" "pre = concat (take i xss) @ us"
     "post = vs @ concat (drop (Suc i) xss)" "concat xss = pre @ x # post"
    using in_concat_split by metis
  obtain a l L where l: "leaf_seq (om_root self) ! i = (a, l)" "blist_rep h l (us @ x # vs)" "blists h l = Some L"
     "bl_above L = Some a" "length (leaf_seq (om_root self)) = length xss"
    using om_rep_leaf [OF om_x86_rep [OF rep] i(1)] i(2) by metis
  obtain nd where "nodes h x = Some nd" "nd_list nd = Some l" using blist_rep_node [OF l(2), of x] by auto
  moreover have "(a, l) \<in> set (leaf_seq (om_root self))" using l(1,5) i(1) by (metis nth_mem)
  ultimately show thesis using that [OF i(1,2) l(1) _ l(2-4)] i by simp
qed

subsection \<open>Insertion keeps the invariant\<close>

text \<open>The place after \<open>b\<close> is as wide as relabelling makes it.\<close>

definition wide :: "omrd \<Rightarrow> nat \<Rightarrow> bool" where
  "wide d b \<longleftrightarrow> (\<exists>l us vs. blist_rep (m_heap d) l (us @ b # vs) \<and> 2 ^ 58 \<le> gap (m_heap d) b vs)"

lemma wide_roomy:
  assumes "om_x86 (m_ds d) (m_heap d) xss" "roomy (m_heap d) xss b" shows "wide d b"
proof -
  obtain i us vs where i: "i < length xss" "xss ! i = us @ b # vs" "2 ^ 58 \<le> gap (m_heap d) b vs"
    using assms(2) by (auto simp: roomy_def)
  obtain a l where "blist_rep (m_heap d) l (xss ! i)" using om_rep_leaf [OF om_x86_rep [OF assms(1)] i(1)] by metis
  with i show ?thesis by (auto simp: wide_def)
qed

text \<open>What \<open>is_heavy\<close> measures; behind the last node it misses the last label.\<close>

lemma is_heavy_gap:
  assumes rep: "blist_rep h l (us @ n # vs)"
  shows "is_heavy g h n =
    Some ((if vs = [] then gap h n vs - 1 else gap h n vs) < unat (push_bit (unat (64 - g_heavy_threshold g)) 1 :: u64))"
proof -
  obtain N where N: "nodes h n = Some N" "lseg (nodes h) l (Some n) (nd_next N) None vs" and inc: "labels_inc (nodes h) (us @ n # vs)"
    using blist_rep_at [OF rep] by metis
  have lab: "label_of (nodes h) n = nd_label N" using N(1) by (simp add: label_of_def)
  show ?thesis
  proof (cases vs)
    case Nil
    have "unat (MAX_LABEL - nd_label N) = 18446744073709551615 - unat (nd_label N)"
      by (simp add: unat_sub_if' u64_less_unat word_le_nat_alt)
        (use unat_lt64 [of "nd_label N"] in linarith)
    then show ?thesis using N Nil lab
      by (simp add: is_heavy_def gap_def nxt_label_def word_less_nat_alt)
  next
    case (Cons v ws)
    with N obtain V where V: "nodes h v = Some V" "nd_next N = Some v" by auto
    have lt: "unat (nd_label N) < unat (nd_label V)"
      using nxt_label_above [OF inc, of "nd_label V"] Cons V N(1) by (simp add: nxt_label_def label_of_def u64_less_unat)
    then have "unat (nd_label V - nd_label N) = unat (nd_label V) - unat (nd_label N)"
      by (simp add: unat_sub_if' word_le_nat_alt)
    then show ?thesis using N V Cons lab
      by (simp add: is_heavy_def gap_def nxt_label_def word_less_nat_alt label_of_def)
  qed
qed

lemma not_heavy:
  assumes "blist_rep h l (us @ n # vs)" "2 ^ 57 \<le> gap h n vs" "g_heavy_threshold g = DEFAULT_HEAVY_THRESHOLD"
  shows "is_heavy g h n = Some False"
proof -
  have t: "unat (push_bit (unat (64 - g_heavy_threshold g)) 1 :: u64) = 2 ^ 32"
    unfolding assms(3) DEFAULT_HEAVY_THRESHOLD_def HALF_BITS_def by (simp add: push_bit_eq_mult)
  have "\<not> (if vs = [] then gap h n vs - 1 else gap h n vs) < 2 ^ 32"
    using assms(2) by (cases "vs = []") simp_all
  then show ?thesis unfolding is_heavy_gap [OF assms(1)] t by simp
qed

text \<open>What holds of the new node \<open>n\<close> after \<open>b\<close> right after \<open>try_insert\<close>.\<close>

definition inserted :: "rd_globals \<Rightarrow> omrd \<Rightarrow> nat \<Rightarrow> nat \<Rightarrow> omrd \<Rightarrow> bool" where
  "inserted g d b n d' \<longleftrightarrow>
     (\<exists>l us vs. blist_rep (m_heap d') l (us @ b # n # vs) \<and>
        (wide d b \<longrightarrow> g_heavy_threshold g = DEFAULT_HEAVY_THRESHOLD \<longrightarrow> is_heavy g (m_heap d') n = Some False))"

lemma try_insert_ok:
  assumes rep: "omrd_rep d xs" and xs: "xs = pre @ b # post" and room: "Suc (length xs) < 2 ^ 31"
    and idle: "g_batch_in_progress g = 0"
  shows "try_insert g (Some b) d = Some (None, d) \<and> \<not> wide d b \<or>
    (\<exists>n d'. try_insert g (Some b) d = Some (Some n, d') \<and> n \<notin> set xs \<and> omrd_rep d' (pre @ b # n # post) \<and>
       inserted g d b n d')"
proof -
  obtain xss hs where d: "om_x86 (m_ds d) (m_heap d) xss" "concat xss = xs" "stk_rep (m_heavy_nodes d) hs" "distinct hs"
    "set hs = fst ` {p \<in> set (leaf_seq (om_root (m_ds d))). marked (m_heap d) p}"
    using rep by (auto simp: omrd_rep_def)
  obtain i us vs where i: "i < length xss" "xss ! i = us @ b # vs"
    "pre = concat (take i xss) @ us" "post = vs @ concat (drop (Suc i) xss)"
    using in_concat_split [of xss pre b post] d(2) xs by metis
  obtain a l where l: "leaf_seq (om_root (m_ds d)) ! i = (a, l)" "blist_rep (m_heap d) l (us @ b # vs)"
    "length (leaf_seq (om_root (m_ds d))) = length xss"
    using om_rep_leaf [OF om_x86_rep [OF d(1)] i(1)] i(2) by metis
  have wide: "2 ^ 58 \<le> gap (m_heap d) b vs" if wd: "wide d b"
  proof -
    obtain l' us' vs' where w: "blist_rep (m_heap d) l' (us' @ b # vs')" "2 ^ 58 \<le> gap (m_heap d) b vs'"
      using wd unfolding wide_def by blast
    have "l' = l" using blist_rep_node [OF w(1), of b] blist_rep_node [OF l(2), of b]
      by (metis in_set_conv_decomp option.inject)
    then have "us' @ b # vs' = us @ b # vs" using blist_rep_unique w(1) l(2) by blast
    moreover have "distinct (us @ b # vs)" by (rule blist_rep_distinct [OF l(2)])
    ultimately have "vs' = vs" by (metis append_Cons_eq_iff distinct.simps(2) distinct_append not_distinct_conv_prefix
          distinct_append disjoint_iff list.set_intros(1))
    with w(2) show ?thesis by simp
  qed
  consider "om_insert (m_ds d) b (m_heap d) = Some (None, m_heap d)"
    | n h' where "om_insert (m_ds d) b (m_heap d) = Some (Some n, h')"
    using om_insert_order [OF om_x86_rep [OF d(1)], of pre b post] d(2) xs by blast
  then show ?thesis
  proof cases
    case 1
    have "\<not> has_room (m_heap d) b vs"
      using om_insert_room [OF om_x86_rep [OF d(1)] i(1,2)] 1 by auto
    then have "\<not> wide d b" using wide has_room_iff [of "m_heap d" us b vs] l(2) by (force simp: blist_rep_def)
    with 1 show ?thesis by (simp add: try_insert_def idle)
  next
    case (2 n h')
    note e = om_insert_effect [OF d(1) i(1,2) l(1) 2]
    have n: "n \<notin> set xs" using om_rep_allocated [OF om_x86_rep [OF d(1)]] e(2) d(2) by blast
    have "concat (xss[i := us @ b # n # vs]) = pre @ b # n # post"
      using concat_update [OF i(1), of "us @ [b]" vs "[n]"] i by simp
    then have "omrd_rep (d\<lparr>m_heap := h'\<rparr>) (pre @ b # n # post)"
      using e(1,3) d(3-5) room xs unfolding omrd_rep_def by (intro conjI exI [of _ "xss[i := us @ b # n # vs]"] exI [of _ hs]) auto
    moreover have "blist_rep h' l (us @ b # n # vs)"
      using om_rep_leaf [OF om_x86_rep [OF e(1)], of i] i(1) l(1) by (metis length_list_update nth_list_update_eq prod.inject)
    moreover from this have "is_heavy g h' n = Some False" if "wide d b" "g_heavy_threshold g = DEFAULT_HEAVY_THRESHOLD"
      using not_heavy [of h' l "us @ [b]" n vs g] that wide [OF that(1)] e(4) by simp
    ultimately show ?thesis using 2 n by (auto simp: try_insert_def idle inserted_def)
  qed
qed

subsection \<open>Marking keeps the invariant\<close>

text \<open>The store with the list \<open>l\<close> marked.\<close>

definition with_mark :: "bheap \<Rightarrow> nat \<Rightarrow> bheap" where
  "with_mark h l = h\<lparr>blists := (blists h)(l := map_option (\<lambda>L. L\<lparr>bl_heavy := 1\<rparr>) (blists h l))\<rparr>"

lemma with_mark_simps [simp]:
  "nodes (with_mark h l) = nodes h" "tls (with_mark h l) = tls h" "brk (with_mark h l) = brk h"
  by (simp_all add: with_mark_def)

lemma marked_with_mark:
  "blists h l = Some L \<Longrightarrow> marked (with_mark h l) p \<longleftrightarrow> marked h p \<or> snd p = l"
  by (auto simp: marked_def with_mark_def)

lemma blist_rep_with_mark: "blist_rep (with_mark h l) k xs = blist_rep h k xs"
  by (auto simp: blist_rep_def with_mark_def split: option.splits)

lemma om_x86_with_mark:
  assumes rep: "om_x86 self h xss" and i: "i < length xss" "leaf_seq (om_root self) ! i = (a, l)" "xss ! i \<noteq> []"
  shows "om_x86 self (with_mark h l) xss"
proof -
  have mid: "om_mid self h xss" using rep by (simp add: om_x86_def om_rep_def)
  have all: "list_all2 (leaf_rep h) (leaf_seq (om_root self)) xss" using mid by (simp add: om_mid_def)
  have "list_all2 (leaf_rep (with_mark h l)) (leaf_seq (om_root self)) xss"
    unfolding list_all2_conv_all_nth
  proof (intro conjI allI impI)
    show "length (leaf_seq (om_root self)) = length xss" using all by (rule list_all2_lengthD)
    fix k assume k: "k < length (leaf_seq (om_root self))"
    have r: "leaf_rep h (leaf_seq (om_root self) ! k) (xss ! k)" using list_all2_nthD [OF all k] .
    have "xss ! k \<noteq> [] \<or> snd (leaf_seq (om_root self) ! k) \<noteq> l"
    proof (cases "k = i")
      case False
      have "length (leaf_seq (om_root self)) = length xss" using all by (rule list_all2_lengthD)
      then show ?thesis using leaf_seq_lists_distinct [OF mid] False k i(1,2)
        by (metis length_map nth_eq_iff_index_eq nth_map snd_conv)
    qed (use i(3) in simp)
    with r show "leaf_rep (with_mark h l) (leaf_seq (om_root self) ! k) (xss ! k)"
      by (auto simp: leaf_rep_def blist_rep_with_mark) (auto simp: with_mark_def)
  qed
  moreover have "brk_ok (with_mark h l) = brk_ok h" by (auto simp: brk_ok_def with_mark_def)
  ultimately show ?thesis using rep by (simp add: om_x86_def om_rep_def om_mid_def)
qed

lemma list_heavy_leaf:
  assumes "nodes h b = Some nd" "nd_list nd = Some l" "blists h l = Some L"
  shows "list_heavy h b = Some (marked h (a, l))"
  using assms by (simp add: list_heavy_def marked_def)

lemma om_get_tl_leaf:
  assumes "om_x86 self h xss" "i < length xss" "leaf_seq (om_root self) ! i = (a, l)"
    "nodes h b = Some nd" "nd_list nd = Some l"
  shows "om_get_tl self h b = Some a"
  using above_of_leaf [OF om_x86_rep [OF assms(1)] assms(2,3)] assms(4,5) by (auto simp: om_get_tl_def)

lemma cas_heavy_marks:
  assumes "nodes h b = Some nd" "nd_list nd = Some l" "blists h l = Some L" "\<not> marked h (a, l)"
  shows "cas_heavy b h = Some (True, with_mark h l)"
  using assms by (simp add: cas_heavy_def marked_def upd_blist_def with_mark_def)

lemma marked_leaves_small:
  assumes "om_x86 self h xss" "length (concat xss) < 2 ^ 31" "distinct hs"
    "set hs \<subseteq> fst ` set (leaf_seq (om_root self))"
  shows "length hs < 2 ^ 31"
proof -
  have mid: "om_mid self h xss" using assms(1) by (simp add: om_x86_def om_rep_def)
  have "length hs = card (set hs)" using assms(3) by (simp add: distinct_card)
  also have "\<dots> \<le> card (fst ` set (leaf_seq (om_root self)))" using assms(4) by (intro card_mono) auto
  also have "\<dots> \<le> length (leaf_seq (om_root self))"
    by (metis card_length length_map list.set_map)
  also have "\<dots> < 2 ^ 31" using om_mid_leaves [OF mid assms(2)] by simp
  finally show ?thesis .
qed

text \<open>A list that is not marked is marked and its leaf becomes a heavy node.\<close>

lemma omrd_mark_ok:
  assumes rep: "omrd_rep d xs" and b: "b \<in> set xs" and light: "list_heavy (m_heap d) b = Some False"
    and idle: "g_batch_in_progress g = 0"
  shows "\<exists>h' d'. cas_heavy b (m_heap d) = Some (True, h') \<and> add_heavy g b (d\<lparr>m_heap := h'\<rparr>) = Some d' \<and>
     omrd_rep d' xs \<and> list_heavy (m_heap d') b = Some True"
proof -
  obtain xss hs where d: "om_x86 (m_ds d) (m_heap d) xss" "concat xss = xs" "stk_rep (m_heavy_nodes d) hs" "distinct hs"
    "set hs = fst ` {p \<in> set (leaf_seq (om_root (m_ds d))). marked (m_heap d) p}" and xs: "xs \<noteq> []" "length xs < 2 ^ 31"
    using rep by (auto simp: omrd_rep_def)
  obtain i us vs a l L nd where i: "i < length xss" "xss ! i = us @ b # vs" "leaf_seq (om_root (m_ds d)) ! i = (a, l)"
    "(a, l) \<in> set (leaf_seq (om_root (m_ds d)))" "blists (m_heap d) l = Some L"
    "nodes (m_heap d) b = Some nd" "nd_list nd = Some l"
    using om_leaf_of [OF d(1)] b d(2) by metis
  have nm: "\<not> marked (m_heap d) (a, l)" using light list_heavy_leaf [OF i(6,7,5)] by simp
  let ?h = "with_mark (m_heap d) l" and ?ls = "leaf_seq (om_root (m_ds d))"
  have x: "om_x86 (m_ds d) ?h xss" by (rule om_x86_with_mark [OF d(1) i(1,3)]) (simp add: i(2))
  have mid: "om_mid (m_ds d) (m_heap d) xss" using d(1) by (simp add: om_x86_def om_rep_def)
  have inj: "p = (a, l)" if "p \<in> set ?ls" "snd p = l" for p
    using leaf_seq_lists_distinct [OF mid] that i(4) by (metis distinct_map inj_onD snd_conv)
  have inj': "p = (a, l)" if "p \<in> set ?ls" "fst p = a" for p
  proof -
    have "distinct (map fst ?ls)" using mid by (simp add: om_mid_def)
    with that i(4) show ?thesis by (metis distinct_map inj_onD fst_conv)
  qed
  have marks: "{p \<in> set ?ls. marked ?h p} = insert (a, l) {p \<in> set ?ls. marked (m_heap d) p}"
  proof (rule set_eqI)
    fix p show "p \<in> {p \<in> set ?ls. marked ?h p} \<longleftrightarrow> p \<in> insert (a, l) {p \<in> set ?ls. marked (m_heap d) p}"
      using inj [of p] i(4) by (cases "p = (a, l)") (auto simp only: mem_Collect_eq insert_iff marked_with_mark [OF i(5)] snd_conv)
  qed
  have "a \<notin> set hs" using d(5) nm inj' by auto
  have small: "length hs < 2 ^ 31" by (rule marked_leaves_small [OF d(1)]) (use d xs in auto)
  obtain s where s: "astk_add a (m_heavy_nodes d) = Some s" "stk_rep s (hs @ [a])"
    using astk_add_rep [OF d(3) small] by blast
  have t: "om_get_tl (m_ds d) ?h b = Some a" using om_get_tl_leaf [OF x i(1,3), of b nd] i(6,7) by simp
  let ?d = "d\<lparr>m_heap := ?h, m_heavy_nodes := s\<rparr>"
  have "add_heavy g b (d\<lparr>m_heap := ?h\<rparr>) = Some ?d" using t s(1) idle by (simp add: add_heavy_def)
  moreover have "omrd_rep ?d xs"
    unfolding omrd_rep_def using x d(2,4) s(2) xs \<open>a \<notin> set hs\<close>
    by (intro conjI exI [of _ xss] exI [of _ "hs @ [a]"]) (simp_all add: marks d(5))
  moreover have "list_heavy ?h b = Some True"
  proof -
    obtain L' where "blists ?h l = Some L'" using i(5) by (auto simp: with_mark_def)
    from list_heavy_leaf [of ?h, OF _ i(7) this, of b a] i(6) marked_with_mark [OF i(5)] show ?thesis by simp
  qed
  ultimately show ?thesis using cas_heavy_marks [OF i(6,7,5) nm] by (intro exI conjI) auto
qed

lemma list_heavy_total:
  assumes "omrd_rep d xs" "b \<in> set xs" shows "\<exists>v. list_heavy (m_heap d) b = Some v"
proof -
  obtain xss where d: "om_x86 (m_ds d) (m_heap d) xss" "concat xss = xs" using assms(1) by (auto simp: omrd_rep_def)
  obtain l L nd where "blists (m_heap d) l = Some L" "nodes (m_heap d) b = Some nd" "nd_list nd = Some l"
    using om_leaf_of [OF d(1)] assms(2) d(2) by metis
  then show ?thesis by (simp add: list_heavy_def)
qed

lemma mark_base_ok:
  assumes rep: "omrd_rep d xs" and b: "b \<in> set xs" and idle: "g_batch_in_progress g = 0"
  shows "\<exists>d'. mark_base g b d = Some d' \<and> omrd_rep d' xs \<and> list_heavy (m_heap d') b = Some True"
proof -
  obtain v where v: "list_heavy (m_heap d) b = Some v" using list_heavy_total [OF rep b] by blast
  show ?thesis
  proof (cases v)
    case True
    then show ?thesis using v rep by (simp add: mark_base_def)
  next
    case False
    then obtain h' d' where "cas_heavy b (m_heap d) = Some (True, h')" "add_heavy g b (d\<lparr>m_heap := h'\<rparr>) = Some d'"
     "omrd_rep d' xs" "list_heavy (m_heap d') b = Some True"
      using omrd_mark_ok [OF rep b _ idle] v by (metis (full_types))
    then show ?thesis using v False by (simp add: mark_base_def)
  qed
qed

subsection \<open>The batch\<close>

lemma heavy_array_ok:
  assumes rep: "stk_rep s hs" and small: "length hs < 2 ^ 31"
  shows "k + n \<le> length hs \<Longrightarrow> heavy_array n (of_nat k) s = Some (take n (drop k hs))"
proof (induction n arbitrary: k)
  case (Suc n)
  have k: "k < length hs" using Suc.prems by simp
  then have u: "unat (of_nat k :: u32) = k" using small by (intro unat_of_nat32) simp
  have "stk_at s (of_nat k) = Some (hs ! k)"
    using stk_at_rep [OF rep, of "of_nat k"] k small u by simp
  moreover have "heavy_array n (of_nat k + 1) s = Some (take n (drop (Suc k) hs))"
    using Suc.IH [of "Suc k"] Suc.prems by (simp add: add.commute)
  ultimately show ?case using k by (simp add: Cons_nth_drop_Suc [symmetric])
qed simp

lemma relabel_ok:
  assumes rep: "omrd_rep d xs" and fuel: "length xs \<le> fuel"
  shows "\<exists>d'. relabel fuel d = Some d' \<and> omrd_rep d' xs \<and>
     (\<forall>b\<in>set xs. list_heavy (m_heap d) b = Some True \<longrightarrow> wide d' b)"
proof -
  obtain xss hs where d: "om_x86 (m_ds d) (m_heap d) xss" "concat xss = xs" "stk_rep (m_heavy_nodes d) hs" "distinct hs"
    "set hs = fst ` {p \<in> set (leaf_seq (om_root (m_ds d))). marked (m_heap d) p}" and xs: "xs \<noteq> []" "length xs < 2 ^ 31"
    using rep by (auto simp: omrd_rep_def)
  have mid: "om_mid (m_ds d) (m_heap d) xss" "clean (om_root (m_ds d))" using d(1) by (simp_all add: om_x86_def om_rep_def)
  have small: "length hs < 2 ^ 31" by (rule marked_leaves_small [OF d(1)]) (use d xs in auto)
  have inv: "tl_inv 0 0 (om_root (m_ds d))" using mid(1) by (simp add: om_mid_def)
  note cp = clean_plain [OF inv mid(2)]
  show ?thesis
  proof (cases "hs = []")
    case True
    have "list_heavy (m_heap d) b \<noteq> Some True" if b: "b \<in> set xs" for b
    proof -
      obtain a l L nd where i: "(a, l) \<in> set (leaf_seq (om_root (m_ds d)))" "blists (m_heap d) l = Some L"
        "nodes (m_heap d) b = Some nd" "nd_list nd = Some l"
        using om_leaf_of [OF d(1)] b d(2) by metis
      then show ?thesis using list_heavy_leaf [OF i(3,4,2), of a] d(5) True by auto
    qed
    then show ?thesis using rep stk_empty_rep [OF d(3)] True by (auto simp: relabel_def)
  next
    case False
    have arr: "heavy_array (unat (stk_size (m_heavy_nodes d))) 0 (m_heavy_nodes d) = Some hs"
      using heavy_array_ok [OF d(3) small, of 0 "length hs"] stk_size_rep [OF d(3)] by simp
    have sub: "set hs \<subseteq> set (leaf_addrs (om_root (m_ds d)))" using d(5) cp by auto
    obtain self' h' xss' where r: "om_relabel fuel x86_shl hs (m_ds d, m_heap d) = Some (self', h')"
      "om_x86 self' h' xss'" "concat xss' = concat xss"
      "\<forall>a\<in>set hs. \<forall>ys. listed (m_ds d) (m_heap d) a ys \<longrightarrow> (\<forall>b\<in>set ys. roomy h' xss' b)"
      "unmarks hs (m_ds d, m_heap d) (self', h')"
      using om_relabel_x86 [OF d(1) _ _ _ d(4) sub, of fuel] d(2) xs fuel by auto
    let ?d = "d\<lparr>m_ds := self', m_heap := h', m_heavy_nodes := astk_reset (m_heavy_nodes d)\<rparr>"
    have none: "{p \<in> set (leaf_seq (om_root self')). marked h' p} = {}"
      using r(5) d(5) by (auto simp: unmarks_def)
    have "omrd_rep ?d xs"
      unfolding omrd_rep_def using r(2,3) d(2) xs astk_reset_rep [OF d(3)] none
      by (intro conjI exI [of _ xss'] exI [of _ "[]"]) auto
    moreover have "wide ?d b" if b: "b \<in> set xs" "list_heavy (m_heap d) b = Some True" for b
    proof -
      obtain us vs a l L nd where i: "(a, l) \<in> set (leaf_seq (om_root (m_ds d)))" "blist_rep (m_heap d) l (us @ b # vs)"
        "blists (m_heap d) l = Some L" "nodes (m_heap d) b = Some nd" "nd_list nd = Some l"
        using om_leaf_of [OF d(1)] b(1) d(2) by metis
      have m: "marked (m_heap d) (a, l)" using list_heavy_leaf [OF i(4,5,3), of a] b(2) by simp
      then have "a \<in> set hs" using d(5) i(1) by force
      moreover have "listed (m_ds d) (m_heap d) a (us @ b # vs)" using i(1,2) cp by (auto simp: listed_def)
      ultimately have "roomy h' xss' b" using r(4) by auto
      with r(2) show ?thesis by (intro wide_roomy) simp_all
    qed
    ultimately show ?thesis using r(1) arr stk_empty_rep [OF d(3)] False by (auto simp: relabel_def)
  qed
qed

lemma batch_relabel_ok:
  assumes "omrd_rep e xs" "omrd_rep h ys" "length xs \<le> fuel" "length ys \<le> fuel"
  shows "\<exists>e' h'. batch_relabel fuel (g, e, h) = Some (g\<lparr>g_relabel_id := g_relabel_id g + 2\<rparr>, e', h') \<and>
     omrd_rep e' xs \<and> omrd_rep h' ys \<and>
     (\<forall>b\<in>set xs. list_heavy (m_heap e) b = Some True \<longrightarrow> wide e' b) \<and>
     (\<forall>b\<in>set ys. list_heavy (m_heap h) b = Some True \<longrightarrow> wide h' b)"
proof -
  obtain e' where e: "relabel fuel e = Some e'" "omrd_rep e' xs"
    "\<forall>b\<in>set xs. list_heavy (m_heap e) b = Some True \<longrightarrow> wide e' b"
    using relabel_ok [OF assms(1,3)] by blast
  obtain h' where h: "relabel fuel h = Some h'" "omrd_rep h' ys"
    "\<forall>b\<in>set ys. list_heavy (m_heap h) b = Some True \<longrightarrow> wide h' b"
    using relabel_ok [OF assms(2,4)] by blast
  from e h show ?thesis by (simp add: batch_relabel_def)
qed

subsection \<open>The end of an insertion\<close>

text \<open>After it the list of the new node is marked, or the node has room after it.\<close>

lemma finish_insert_ok:
  assumes rep: "omrd_rep d' ys" and n: "n \<in> set ys" "b \<in> set ys" and ins: "inserted g d b n d'"
    and idle: "g_batch_in_progress g = 0"
  shows "\<exists>d''. finish_insert g b n d' = Some d'' \<and> omrd_rep d'' ys \<and>
     (list_heavy (m_heap d'') n = Some True \<or> is_heavy g (m_heap d'') n = Some False)"
proof -
  obtain l us vs where l: "blist_rep (m_heap d') l (us @ b # n # vs)" using ins by (auto simp: inserted_def)
  obtain nb where nb: "nodes (m_heap d') b = Some nb" "nd_list nb = Some l" by (rule blist_rep_node [OF l, of b]) simp_all
  obtain nn where nn: "nodes (m_heap d') n = Some nn" "nd_list nn = Some l" by (rule blist_rep_node [OF l, of n]) simp_all
  note nd = nb nn
  obtain v where v: "list_heavy (m_heap d') n = Some v" using list_heavy_total [OF rep n(1)] by blast
  have same: "list_heavy h' b = list_heavy h' n" if "nodes h' = nodes (m_heap d')" for h'
    using nd that by (simp add: list_heavy_def)
  obtain hv where hv: "is_heavy g (m_heap d') n = Some hv" using is_heavy_gap [of "m_heap d'" l "us @ [b]" n vs g] l by simp
  show ?thesis
  proof (cases "v \<or> \<not> hv")
    case True
    then show ?thesis using v hv nd rep by (auto simp: finish_insert_def)
  next
    case False
    then obtain h' d'' where m: "cas_heavy b (m_heap d') = Some (True, h')" "add_heavy g b (d'\<lparr>m_heap := h'\<rparr>) = Some d''"
      "omrd_rep d'' ys" "list_heavy (m_heap d'') b = Some True"
      using omrd_mark_ok [OF rep n(2) _ idle] v same [of "m_heap d'"] by auto
    have "nodes h' = nodes (m_heap d')" using m(1) nd by (auto simp: cas_heavy_def upd_blist_def bind_Some_iff split: if_splits)
    moreover have "m_heap d'' = h'" using m(2) by (auto simp: add_heavy_def bind_Some_iff split: if_splits)
    ultimately have "list_heavy (m_heap d'') n = Some True" using m(4) same by simp
    with m v hv nd False show ?thesis by (auto simp: finish_insert_def)
  qed
qed

subsection \<open>An insertion without contention\<close>

text \<open>
  The code of \<open>insert\<close> and \<open>slow_path\<close> for a worker whose lock nobody else takes: each \<open>pthread_spin_trylock\<close> on it succeeds,
  and \<open>join_batch\<close>, called with \<open>insert_failed\<close> set, gets all locks and runs the batch.  The flag \<open>english\<close> says in which order
  the node is inserted; \<open>rounds\<close> bounds the iterations of \<open>slow_path\<close>.
\<close>

type_synonym rd_state = "rd_globals \<times> omrd \<times> omrd"

definition ds_of :: "bool \<Rightarrow> rd_state \<Rightarrow> omrd" where
  "ds_of english s = (if english then fst (snd s) else snd (snd s))"

definition set_ds :: "bool \<Rightarrow> omrd \<Rightarrow> rd_state \<Rightarrow> rd_state" where
  "set_ds english d s = (if english then (fst s, d, snd (snd s)) else (fst s, fst (snd s), d))"

lemma ds_simps [simp]:
  "ds_of e (set_ds e d s) = d" "ds_of (\<not> e) (set_ds e d s) = ds_of (\<not> e) s" "fst (set_ds e d s) = fst s"
  "ds_of e (set_ds (\<not> e) d s) = ds_of e s"
  by (auto simp: ds_of_def set_ds_def)

fun slow_path :: "nat \<Rightarrow> nat \<Rightarrow> bool \<Rightarrow> nat \<Rightarrow> rd_state \<Rightarrow> (nat \<times> rd_state) option" where
  "slow_path 0 fuel english base s = None"
| "slow_path (Suc rounds) fuel english base s =
     do { d \<leftarrow> mark_base (fst s) base (ds_of english s);
          s \<leftarrow> batch_relabel fuel (set_ds english d s);
          (n, d) \<leftarrow> try_insert (fst s) (Some base) (ds_of english s);
          let s = set_ds english d s;
          (case n of None \<Rightarrow> slow_path rounds fuel english base s | Some n \<Rightarrow> Some (n, s)) }"

definition omrd_insert :: "nat \<Rightarrow> nat \<Rightarrow> bool \<Rightarrow> nat \<Rightarrow> rd_state \<Rightarrow> (nat \<times> rd_state) option" where
  "omrd_insert rounds fuel english base s =
     do { (n, d) \<leftarrow> try_insert (fst s) (Some base) (ds_of english s);
          let s = set_ds english d s;
          (n, s) \<leftarrow> (case n of
             Some n \<Rightarrow> Some (n, s)
           | None \<Rightarrow> do { (n, s) \<leftarrow> slow_path rounds fuel english base s;
                         heavy \<leftarrow> is_heavy (fst s) (m_heap (ds_of english s)) n;
                         check (\<not> heavy);
                         Some (n, s) });
          d \<leftarrow> finish_insert (fst s) base n (ds_of english s);
          Some (n, set_ds english d s) }"

text \<open>The orders of both structures.\<close>

definition rd_rep :: "rd_state \<Rightarrow> (bool \<Rightarrow> nat list) \<Rightarrow> bool" where
  "rd_rep s xs \<longleftrightarrow> g_heavy_threshold (fst s) = DEFAULT_HEAVY_THRESHOLD \<and> g_batch_in_progress (fst s) = 0 \<and>
     omrd_rep (ds_of True s) (xs True) \<and> omrd_rep (ds_of False s) (xs False)"

lemma rd_rep_ds: "rd_rep s xs \<Longrightarrow> omrd_rep (ds_of e s) (xs e)"
  by (cases e) (simp_all add: rd_rep_def)

lemma rd_rep_set: "rd_rep s xs \<Longrightarrow> omrd_rep d ys \<Longrightarrow> rd_rep (set_ds e d s) (xs(e := ys))"
  by (cases e) (simp_all add: rd_rep_def ds_of_def set_ds_def)

lemma batch_rep:
  assumes "rd_rep s xs" "length (xs True) \<le> fuel" "length (xs False) \<le> fuel"
  shows "\<exists>s'. batch_relabel fuel s = Some s' \<and> rd_rep s' xs \<and>
     (\<forall>b\<in>set (xs e). list_heavy (m_heap (ds_of e s)) b = Some True \<longrightarrow> wide (ds_of e s') b)"
proof -
  obtain g d h where s: "s = (g, d, h)" by (metis surj_pair)
  have r: "omrd_rep d (xs True)" "omrd_rep h (xs False)" using assms(1) by (simp_all add: rd_rep_def ds_of_def s)
  from batch_relabel_ok [OF r assms(2,3), of g] obtain d' h' where
    b: "batch_relabel fuel (g, d, h) = Some (g\<lparr>g_relabel_id := g_relabel_id g + 2\<rparr>, d', h')"
    "omrd_rep d' (xs True)" "omrd_rep h' (xs False)"
    "\<forall>b\<in>set (xs True). list_heavy (m_heap d) b = Some True \<longrightarrow> wide d' b"
    "\<forall>b\<in>set (xs False). list_heavy (m_heap h) b = Some True \<longrightarrow> wide h' b" by blast
  then show ?thesis using assms(1) by (cases e) (simp_all add: s rd_rep_def ds_of_def)
qed

text \<open>An insertion needs at most one batch; it puts the new node right after its base and changes nothing else in the orders.\<close>

lemma omrd_insert_ok:
  assumes rep: "rd_rep s xs" and xs: "xs e = pre @ b # post"
    and room: "Suc (length (xs e)) < 2 ^ 31" and fuel: "length (xs True) \<le> fuel" "length (xs False) \<le> fuel"
  shows "\<exists>n s'. omrd_insert 1 fuel e b s = Some (n, s') \<and> n \<notin> set (xs e) \<and> rd_rep s' (xs(e := pre @ b # n # post)) \<and>
     (list_heavy (m_heap (ds_of e s')) n = Some True \<or> is_heavy (fst s') (m_heap (ds_of e s')) n = Some False)"
proof -
  have idle: "g_batch_in_progress (fst s) = 0" "g_heavy_threshold (fst s) = DEFAULT_HEAVY_THRESHOLD" using rep by (simp_all add: rd_rep_def)
  have finish: ?thesis
    if n: "n \<notin> set (xs e)" "omrd_rep d' (pre @ b # n # post)" "inserted (fst s1) d b n d'" "rd_rep s1 xs"
      and run: "\<And>d''. finish_insert (fst s1) b n d' = Some d'' \<Longrightarrow> omrd_insert 1 fuel e b s = Some (n, set_ds e d'' s1)"
    for n d d' s1
  proof -
    have "g_batch_in_progress (fst s1) = 0" using n(4) by (simp add: rd_rep_def)
    from finish_insert_ok [OF n(2) _ _ n(3) this] obtain d'' where d'': "finish_insert (fst s1) b n d' = Some d''"
      "omrd_rep d'' (pre @ b # n # post)" "list_heavy (m_heap d'') n = Some True \<or> is_heavy (fst s1) (m_heap d'') n = Some False"
      by auto
    show ?thesis using run [OF d''(1)] n(1) d''(2,3) rd_rep_set [OF n(4) d''(2), of e] by auto
  qed
  consider (full) "try_insert (fst s) (Some b) (ds_of e s) = Some (None, ds_of e s)"
    | (ok) n d' where "try_insert (fst s) (Some b) (ds_of e s) = Some (Some n, d')" "n \<notin> set (xs e)"
        "omrd_rep d' (pre @ b # n # post)" "inserted (fst s) (ds_of e s) b n d'"
    using try_insert_ok [OF rd_rep_ds [OF rep] xs room idle(1)] by blast
  then show ?thesis
  proof cases
    case (ok n d')
    show ?thesis
      by (rule finish [OF ok(2-4) rep]) (simp add: omrd_insert_def ok(1), simp add: set_ds_def)
  next
    case full
    have same: "set_ds e (ds_of e s) s = s" by (simp add: set_ds_def ds_of_def)
    obtain d1 where d1: "mark_base (fst s) b (ds_of e s) = Some d1" "omrd_rep d1 (xs e)" "list_heavy (m_heap d1) b = Some True"
      using mark_base_ok [OF rd_rep_ds [OF rep] _ idle(1), of b e] xs by auto
    have rep1: "rd_rep (set_ds e d1 s) xs" using rd_rep_set [OF rep d1(2), of e] by simp
    obtain s2 where s2: "batch_relabel fuel (set_ds e d1 s) = Some s2" "rd_rep s2 xs" "wide (ds_of e s2) b"
      using batch_rep [OF rep1 fuel, of e] d1(3) xs by auto
    have idle2: "g_batch_in_progress (fst s2) = 0" "g_heavy_threshold (fst s2) = DEFAULT_HEAVY_THRESHOLD"
      using s2(2) by (simp_all add: rd_rep_def)
    obtain n d' where n: "try_insert (fst s2) (Some b) (ds_of e s2) = Some (Some n, d')" "n \<notin> set (xs e)"
        "omrd_rep d' (pre @ b # n # post)" "inserted (fst s2) (ds_of e s2) b n d'"
      using try_insert_ok [OF rd_rep_ds [OF s2(2)] xs room idle2(1)] s2(3) by blast
    have "is_heavy (fst s2) (m_heap d') n = Some False" using n(4) s2(3) idle2(2) by (auto simp: inserted_def)
    then show ?thesis
      by (intro finish [OF n(2-4) s2(2)])
        (simp add: omrd_insert_def full same d1(1) s2(1) n(1), simp add: set_ds_def)
  qed
qed

text \<open>The two structures at the start.\<close>

definition rd_new :: "rd_state option" where
  "rd_new = do { e \<leftarrow> omrd_new rd_globals_init; h \<leftarrow> omrd_new rd_globals_init; Some (rd_globals_init, e, h) }"

lemma omrd_new_ok: "\<exists>d n. omrd_new rd_globals_init = Some d \<and> m_base d = Some n \<and> omrd_rep d [n]"
proof -
  obtain self h where c: "om_create empty_bheap = Some (self, h)" "om_x86 self h [[]]"
    using om_create_ok [of empty_bheap] by (auto simp: brk_ok_def empty_bheap_def)
  obtain n h1 where i: "om_insert_initial self h = Some (n, h1)" "om_x86 self h1 [[n]]"
    using om_insert_initial_ok [OF c(2)] by blast
  have m: "{p \<in> set (leaf_seq (om_root self)). marked h1 p} = {}"
    using c(1) i(1)
    by (auto simp: om_create_def om_insert_initial_def empty_bheap_def tl_node_new_def bl_new_def
        bl_create_def upd_blist_def bl_insert_initial_def node_new_def insert_internal_def upd_node_def
        bind_Some_iff marked_def)
  let ?d = "\<lparr>m_ds = self, m_heap = h1, m_base = Some n, m_heavy_nodes = stk_new\<rparr>"
  have "omrd_rep ?d [n]"
    unfolding omrd_rep_def using i(2) stk_rep_new m by (intro conjI exI [of _ "[[n]]"] exI [of _ "[]"]) simp_all
  moreover have "omrd_new rd_globals_init = Some ?d"
    using c(1) i(1) by (simp add: omrd_new_def try_insert_def rd_globals_init_def)
  ultimately show ?thesis by (intro exI [of _ ?d]) simp
qed

lemma rd_new_ok: "\<exists>s a b. rd_new = Some s \<and> m_base (ds_of True s) = Some a \<and> m_base (ds_of False s) = Some b \<and>
   rd_rep s (\<lambda>e. if e then [a] else [b])"
proof -
  obtain d n where "omrd_new rd_globals_init = Some d" "m_base d = Some n" "omrd_rep d [n]" using omrd_new_ok by blast
  then show ?thesis by (simp add: rd_new_def rd_rep_def ds_of_def rd_globals_init_def)
qed

end
