(* ===== verification/Pipe_Rd.thy ===== *)
theory Pipe_Rd
  imports Omrd "HOL-Library.Signed_Division"
begin

text \<open>
  The race detector's view of a pipeline (\<open>rdtool/include/piper_rd.h\<close>): the stages of the last iterations in a ring, with the
  places that each stage has in the two orders, and the hooks that the pipeline macros call when a stage begins.

  The insertions into the orders are those of a worker without contention (\<open>omrd_insert\<close>), one round of relabelling at most.
  A hook is one step; \<open>None\<close> is a failed assertion, an exception or an access out of bounds.
\<close>

subsection \<open>State\<close>

record order =
  o_current :: ptr
  o_rightCont :: ptr
  o_downCont :: ptr

record stage_frame =
  sf_iterNum :: int
  sf_stageNum :: int
  sf_downFirst :: order
  sf_rightFirst :: order

text \<open>A \<open>List<StageFrame>\<close> with the fields that the hooks keep in it.\<close>

record stage_list =
  sl_items :: "stage_frame arr"
  sl_cachedLeftStage :: int
  sl_latestWaitStage :: int
  sl_iterNum :: int
  sl_stageNum :: int
  sl_index :: int

definition stage_list_new :: stage_list where
  "stage_list_new = \<lparr>sl_items = arr_new, sl_cachedLeftStage = 0, sl_latestWaitStage = 0, sl_iterNum = 0, sl_stageNum = 0, sl_index = 0\<rparr>"

record iterations =
  it_p :: "stage_list option list"
  it_iterNumList :: "int list"
  it_throttleLimit :: int
  it_head :: int
  it_tail :: int
  it_low :: "u64 list"
  it_high :: "u64 list"

record pipe_rd =
  pr_orders :: rd_state
  pr_iterations :: iterations
  pr_curIterNum :: int
  pr_curStageNum :: int
  pr_curRight :: ptr
  pr_curDown :: ptr

subsection \<open>Arrays of a fixed size\<close>

definition cell :: "'a list \<Rightarrow> int \<Rightarrow> 'a option" where
  "cell xs i = (if 0 \<le> i \<and> i < int (length xs) then Some (xs ! nat i) else None)"

definition set_cell :: "int \<Rightarrow> 'a \<Rightarrow> 'a list \<Rightarrow> 'a list option" where
  "set_cell i x xs = (if 0 \<le> i \<and> i < int (length xs) then Some (xs[nat i := x]) else None)"

lemma cell_set_cell: "set_cell i x xs = Some ys \<Longrightarrow> cell ys j = (if j = i then Some x else cell xs j)"
  by (auto simp: cell_def set_cell_def split: if_splits)

lemma length_set_cell: "set_cell i x xs = Some ys \<Longrightarrow> length ys = length xs"
  by (auto simp: set_cell_def split: if_splits)

lemma set_cell_in: "0 \<le> i \<Longrightarrow> i < int (length xs) \<Longrightarrow> \<exists>ys. set_cell i x xs = Some ys"
  by (simp add: set_cell_def)

lemma cell_in: "0 \<le> i \<Longrightarrow> i < int (length xs) \<Longrightarrow> cell xs i = Some (xs ! nat i)"
  by (simp add: cell_def)

subsection \<open>The ring of iterations\<close>

definition iterations_new :: "int \<Rightarrow> iterations option" where
  "iterations_new limit =
     (if limit + 1 < 0 then None
      else let n = nat (limit + 1) in
           Some \<lparr>it_p = replicate n None, it_iterNumList = replicate n (-1), it_throttleLimit = limit,
                 it_head = -1, it_tail = -1, it_low = replicate n (-1), it_high = replicate n (-1)\<rparr>)"

definition getIndex :: "int \<Rightarrow> iterations \<Rightarrow> int option" where
  "getIndex iterNum it =
     (if it_throttleLimit it + 1 = 0 then None
      else let m = iterNum smod (it_throttleLimit it + 1) in
           Some (if m = 0 then it_throttleLimit it else m - 1))"

definition getStageFrameList :: "int \<Rightarrow> iterations \<Rightarrow> stage_list option" where
  "getStageFrameList iterNum it = do { index \<leftarrow> getIndex iterNum it; l \<leftarrow> cell (it_p it) index; l }"

definition setStageFrameList :: "int \<Rightarrow> stage_list \<Rightarrow> iterations \<Rightarrow> iterations option" where
  "setStageFrameList iterNum l it =
     do { index \<leftarrow> getIndex iterNum it; p \<leftarrow> set_cell index (Some l) (it_p it); Some (it\<lparr>it_p := p\<rparr>) }"

text \<open>The slot of the next iteration, and the new head and tail; \<open>index\<close> may stay uninitialised.\<close>

definition next_slot :: "iterations \<Rightarrow> (int \<times> int \<times> int) option" where
  "next_slot it =
     (let n = it_throttleLimit it + 1 in
      if it_tail it \<le> it_head it \<and> it_head it + 1 < n then Some (it_head it + 1, it_head it + 1, it_tail it)
      else if it_tail it < it_head it then Some (0, 0, 1)
      else if it_head it < it_tail it
      then (if n = 0 then None else Some (it_head it + 1, it_head it + 1, (it_tail it + 1) smod n))
      else None)"

definition insertStageFrameList :: "int \<Rightarrow> iterations \<Rightarrow> (int \<times> iterations) option" where
  "insertStageFrameList iterNum it =
     do { (index, head, tail) \<leftarrow> next_slot it;
          p \<leftarrow> set_cell index (Some stage_list_new) (it_p it);
          nums \<leftarrow> set_cell index iterNum (it_iterNumList it);
          Some (index, it\<lparr>it_head := head, it_tail := tail, it_p := p, it_iterNumList := nums\<rparr>) }"

definition getLowWatermark :: "int \<Rightarrow> iterations \<Rightarrow> u64 option" where
  "getLowWatermark iterNum it =
     do { index \<leftarrow> getIndex iterNum it; n \<leftarrow> cell (it_iterNumList it) index;
          if n = iterNum then cell (it_low it) index else Some (-1) }"

definition getHighWatermark :: "int \<Rightarrow> iterations \<Rightarrow> u64 option" where
  "getHighWatermark iterNum it =
     do { index \<leftarrow> getIndex iterNum it; n \<leftarrow> cell (it_iterNumList it) index;
          if n = iterNum then cell (it_high it) index else Some (-1) }"

definition setLowWatermark :: "int \<Rightarrow> u64 \<Rightarrow> iterations \<Rightarrow> iterations option" where
  "setLowWatermark iterNum watermark it =
     do { index \<leftarrow> getIndex iterNum it; w \<leftarrow> set_cell index watermark (it_low it); Some (it\<lparr>it_low := w\<rparr>) }"

definition setHighWatermark :: "int \<Rightarrow> u64 \<Rightarrow> iterations \<Rightarrow> iterations option" where
  "setHighWatermark iterNum watermark it =
     do { index \<leftarrow> getIndex iterNum it; w \<leftarrow> set_cell index watermark (it_high it); Some (it\<lparr>it_high := w\<rparr>) }"

definition getLowWatermarkFast :: "int \<Rightarrow> iterations \<Rightarrow> u64 option" where
  "getLowWatermarkFast index it = cell (it_low it) index"

definition getHighWatermarkFast :: "int \<Rightarrow> iterations \<Rightarrow> u64 option" where
  "getHighWatermarkFast index it = cell (it_high it) index"

definition setLowWatermarkFast :: "int \<Rightarrow> u64 \<Rightarrow> iterations \<Rightarrow> iterations option" where
  "setLowWatermarkFast index watermark it = do { w \<leftarrow> set_cell index watermark (it_low it); Some (it\<lparr>it_low := w\<rparr>) }"

definition setHighWatermarkFast :: "int \<Rightarrow> u64 \<Rightarrow> iterations \<Rightarrow> iterations option" where
  "setHighWatermarkFast index watermark it = do { w \<leftarrow> set_cell index watermark (it_high it); Some (it\<lparr>it_high := w\<rparr>) }"

subsection \<open>The hooks\<close>

definition no_order :: order where
  "no_order = \<lparr>o_current = None, o_rightCont = None, o_downCont = None\<rparr>"

definition createOrder :: "nat \<Rightarrow> stage_frame \<Rightarrow> rd_state \<Rightarrow> (stage_frame \<times> rd_state) option" where
  "createOrder fuel sf s =
     do { h \<leftarrow> o_current (sf_rightFirst sf);
          (hr, s) \<leftarrow> omrd_insert 1 fuel False h s;
          (hdn, s) \<leftarrow> omrd_insert 1 fuel False hr s;
          e \<leftarrow> o_current (sf_downFirst sf);
          (ed, s) \<leftarrow> omrd_insert 1 fuel True e s;
          (er, s) \<leftarrow> omrd_insert 1 fuel True ed s;
          Some (sf\<lparr>sf_rightFirst := (sf_rightFirst sf)\<lparr>o_rightCont := Some hr, o_downCont := Some hdn\<rparr>,
                   sf_downFirst := (sf_downFirst sf)\<lparr>o_downCont := Some ed, o_rightCont := Some er\<rparr>\<rparr>, s) }"

definition createOrderFast :: "nat \<Rightarrow> stage_frame \<Rightarrow> rd_state \<Rightarrow> (stage_frame \<times> rd_state) option" where
  "createOrderFast fuel sf s =
     do { h \<leftarrow> o_current (sf_rightFirst sf);
          (hr, s) \<leftarrow> omrd_insert 1 fuel False h s;
          (hdn, s) \<leftarrow> omrd_insert 1 fuel False hr s;
          e \<leftarrow> o_current (sf_downFirst sf);
          (ed, s) \<leftarrow> omrd_insert 1 fuel True e s;
          Some (sf\<lparr>sf_rightFirst := (sf_rightFirst sf)\<lparr>o_rightCont := Some hr, o_downCont := Some hdn\<rparr>,
                   sf_downFirst := (sf_downFirst sf)\<lparr>o_downCont := Some ed, o_rightCont := None\<rparr>\<rparr>, s) }"

definition cilkPipeWhileBegin :: "int \<Rightarrow> pipe_rd option" where
  "cilkPipeWhileBegin limit =
     do { it \<leftarrow> iterations_new limit;
          s \<leftarrow> rd_new;
          Some \<lparr>pr_orders = s, pr_iterations = it, pr_curIterNum = 0, pr_curStageNum = 0, pr_curRight = None, pr_curDown = None\<rparr> }"

text \<open>The new stage with its current nodes, appended to the list of its iteration.\<close>

definition stage_frame_at :: "int \<Rightarrow> int \<Rightarrow> ptr \<Rightarrow> ptr \<Rightarrow> stage_frame" where
  "stage_frame_at iterNum stage right down =
     \<lparr>sf_iterNum = iterNum, sf_stageNum = stage, sf_downFirst = no_order\<lparr>o_current := down\<rparr>,
      sf_rightFirst = no_order\<lparr>o_current := right\<rparr>\<rparr>"

definition cilkStageFirst :: "nat \<Rightarrow> u64 \<Rightarrow> int \<Rightarrow> pipe_rd \<Rightarrow> pipe_rd option" where
  "cilkStageFirst fuel frame_address iterNum st =
     do { (right, down) \<leftarrow>
            (if iterNum > 1
             then do { pre \<leftarrow> getStageFrameList (iterNum - 1) (pr_iterations st);
                       sibling \<leftarrow> arr_get 0 (sl_items pre);
                       Some (o_rightCont (sf_rightFirst sibling), o_rightCont (sf_downFirst sibling)) }
             else Some (m_base (ds_of False (pr_orders st)), m_base (ds_of True (pr_orders st))));
          (sf, s) \<leftarrow> createOrder fuel (stage_frame_at iterNum 0 right down) (pr_orders st);
          (index, it) \<leftarrow> insertStageFrameList iterNum (pr_iterations st);
          l \<leftarrow> cell (it_p it) index;
          l \<leftarrow> l;
          p \<leftarrow> set_cell index (Some (l\<lparr>sl_items := arr_append sf (sl_items l), sl_cachedLeftStage := 0, sl_latestWaitStage := 0,
                 sl_stageNum := 0, sl_iterNum := iterNum, sl_index := 1\<rparr>)) (it_p it);
          it \<leftarrow> setHighWatermark iterNum frame_address (it\<lparr>it_p := p\<rparr>);
          it \<leftarrow> setLowWatermark iterNum (-1) it;
          Some (st\<lparr>pr_orders := s, pr_iterations := it, pr_curIterNum := iterNum, pr_curStageNum := 0,
                   pr_curRight := right, pr_curDown := down\<rparr>) }"

text \<open>The loop of \<open>getLeftDependency\<close>: it ends with \<open>ret\<close>, \<open>iPre\<close> and the new \<open>index\<close>.\<close>

function left_loop :: "stage_frame arr \<Rightarrow> int \<Rightarrow> int \<Rightarrow> int \<Rightarrow> int \<Rightarrow> int \<Rightarrow> (int \<times> int \<times> int) option" where
  "left_loop pre stage len index ret iPre =
     (if index < len
      then do { f \<leftarrow> arr_get index pre;
                if sf_stageNum f = stage then Some (index, iPre, index + 1)
                else if sf_stageNum f < stage then left_loop pre stage len (index + 1) ret index
                else Some (iPre, iPre, index) }
      else Some (ret, iPre, index))"
  by pat_completeness auto
termination
  by (relation "measure (\<lambda>(pre, stage, len, index, ret, iPre). nat (len - index))") auto

declare left_loop.simps [simp del]

definition getLeftDependency :: "int \<Rightarrow> int \<Rightarrow> iterations \<Rightarrow> (int \<times> iterations) option" where
  "getLeftDependency iterNum stage it =
     do { cur \<leftarrow> getStageFrameList iterNum it;
          pre \<leftarrow> getStageFrameList (iterNum - 1) it;
          (ret, iPre, index) \<leftarrow> left_loop (sl_items pre) stage (arr_length (sl_items pre)) (sl_index cur) 0 0;
          it \<leftarrow> setStageFrameList iterNum (cur\<lparr>sl_index := index\<rparr>) it;
          Some (if ret > iPre then ret else iPre, it) }"

text \<open>The end of the two other hooks: the orders of the stage, and its place in the list.\<close>

definition append_stage :: "nat \<Rightarrow> int \<Rightarrow> int \<Rightarrow> ptr \<Rightarrow> ptr \<Rightarrow> pipe_rd \<Rightarrow> pipe_rd option" where
  "append_stage fuel iterNum userStage right down st =
     do { (sf, s) \<leftarrow> createOrder fuel (stage_frame_at iterNum userStage right down) (pr_orders st);
          cur \<leftarrow> getStageFrameList iterNum (pr_iterations st);
          it \<leftarrow> setStageFrameList iterNum (cur\<lparr>sl_items := arr_append sf (sl_items cur), sl_stageNum := userStage\<rparr>)
                  (pr_iterations st);
          Some (st\<lparr>pr_orders := s, pr_iterations := it, pr_curIterNum := iterNum, pr_curStageNum := userStage,
                   pr_curRight := right, pr_curDown := down\<rparr>) }"

definition cilkStageWait :: "nat \<Rightarrow> int \<Rightarrow> int \<Rightarrow> pipe_rd \<Rightarrow> pipe_rd option" where
  "cilkStageWait fuel iterNum userStage st =
     do { cur \<leftarrow> getStageFrameList iterNum (pr_iterations st);
          parent \<leftarrow> arr_get (arr_length (sl_items cur) - 1) (sl_items cur);
          let right = o_downCont (sf_rightFirst parent);
          let down = o_downCont (sf_downFirst parent);
          (right, it) \<leftarrow>
            (if iterNum > 1
             then do { (leftIndex, it) \<leftarrow> getLeftDependency iterNum userStage (pr_iterations st);
                       if leftIndex \<noteq> 0
                       then do { pre \<leftarrow> getStageFrameList (iterNum - 1) it;
                                 sibling \<leftarrow> arr_get leftIndex (sl_items pre);
                                 Some (o_rightCont (sf_rightFirst sibling), it) }
                       else Some (right, it) }
             else Some (right, pr_iterations st));
          append_stage fuel iterNum userStage right down (st\<lparr>pr_iterations := it\<rparr>) }"

definition cilkStage :: "nat \<Rightarrow> int \<Rightarrow> int \<Rightarrow> pipe_rd \<Rightarrow> pipe_rd option" where
  "cilkStage fuel iterNum userStage st =
     do { cur \<leftarrow> getStageFrameList iterNum (pr_iterations st);
          parent \<leftarrow> arr_get (arr_length (sl_items cur) - 1) (sl_items cur);
          append_stage fuel iterNum userStage (o_downCont (sf_rightFirst parent)) (o_downCont (sf_downFirst parent)) st }"

definition cilkPipeWhileEnd :: "nat \<Rightarrow> pipe_rd \<Rightarrow> (bheap \<times> bheap) option" where
  "cilkPipeWhileEnd fuel st =
     do { e \<leftarrow> omrd_delete fuel (ds_of True (pr_orders st));
          h \<leftarrow> omrd_delete fuel (ds_of False (pr_orders st));
          Some (e, h) }"

subsection \<open>Queries\<close>

definition getDownFirstNode :: "int \<Rightarrow> int \<Rightarrow> pipe_rd \<Rightarrow> ptr option" where
  "getDownFirstNode iterNum userStage st =
     do { l \<leftarrow> getStageFrameList iterNum (pr_iterations st); f \<leftarrow> arr_get userStage (sl_items l); Some (o_current (sf_downFirst f)) }"

definition getRightFirstNode :: "int \<Rightarrow> int \<Rightarrow> pipe_rd \<Rightarrow> ptr option" where
  "getRightFirstNode iterNum userStage st =
     do { l \<leftarrow> getStageFrameList iterNum (pr_iterations st); f \<leftarrow> arr_get userStage (sl_items l); Some (o_current (sf_rightFirst f)) }"

text \<open>\<open>count\<close> walks a list, \<open>om_count\<close> the tree.\<close>

fun count :: "nat \<Rightarrow> bheap \<Rightarrow> ptr \<Rightarrow> u64 option" where
  "count fuel h None = Some 0"
| "count 0 h (Some n) = None"
| "count (Suc fuel) h (Some n) = do { nd \<leftarrow> nodes h n; c \<leftarrow> count fuel h (nd_next nd); Some (c + 1) }"

fun om_count :: "nat \<Rightarrow> bheap \<Rightarrow> tl \<Rightarrow> u64 option" where
  "om_count fuel h (Node a hr l r) =
     (if tl_level hr < MAX_LEVEL then do { x \<leftarrow> om_count fuel h l; y \<leftarrow> om_count fuel h r; Some (x + y) } else None)"
| "om_count fuel h (Leaf a hr b) =
     (if tl_level hr < MAX_LEVEL then None else do { L \<leftarrow> blists h b; count fuel h (bl_head L) })"
| "om_count fuel h (SplitLeaf a hr sn) = None"

text \<open>The two loops of \<open>isSerial\<close> and its test.\<close>

function find_stage :: "stage_frame arr \<Rightarrow> int \<Rightarrow> int \<Rightarrow> stage_frame option" where
  "find_stage l stage index =
     (if arr_length l \<le> index then arr_get index l
      else do { sf \<leftarrow> arr_get index l; if sf_stageNum sf = stage then Some sf else find_stage l stage (index + 1) })"
  by pat_completeness auto
termination
  by (relation "measure (\<lambda>(l, stage, index). nat (arr_length l - index))") auto

declare find_stage.simps [simp del]

definition isSerial :: "int \<Rightarrow> int \<Rightarrow> int \<Rightarrow> int \<Rightarrow> pipe_rd \<Rightarrow> bool option" where
  "isSerial iterNumA stageA iterNumB stageB st =
     do { let E = ds_of True (pr_orders st);
          let H = ds_of False (pr_orders st);
          p \<leftarrow> getStageFrameList iterNumA (pr_iterations st);
          a \<leftarrow> find_stage (sl_items p) stageA 0;
          p \<leftarrow> getStageFrameList iterNumB (pr_iterations st);
          b \<leftarrow> find_stage (sl_items p) stageB 0;
          let before = (\<lambda>x y. do { r \<leftarrow> om_precedes (m_ds H) (m_heap H) (o_current (sf_rightFirst x)) (o_current (sf_rightFirst y));
                                  if r then om_precedes (m_ds E) (m_heap E) (o_current (sf_downFirst x)) (o_current (sf_downFirst y))
                                  else Some False });
          ab \<leftarrow> before a b;
          if ab then Some True else before b a }"

end
