(* ===== verification/Pipe_Ring.thy ===== *)
theory Pipe_Ring
  imports Pipe_Rd
begin

text \<open>
  The ring of \<open>Iterations\<close>: the slot that \<open>insertStageFrameList\<close> takes for the next iteration is the one in which
  \<open>getIndex\<close> looks for it, and the last \<open>throttleLimit + 1\<close> iterations are there.

  \<open>n\<close> is the number of slots, \<open>m\<close> the number of iterations that have begun; they count from 0, \<open>iterNum\<close> from 1.
\<close>

definition ring_rep :: "nat \<Rightarrow> nat \<Rightarrow> iterations \<Rightarrow> bool" where
  "ring_rep n m it \<longleftrightarrow> 2 \<le> n \<and> it_throttleLimit it = int n - 1 \<and> length (it_p it) = n \<and> length (it_iterNumList it) = n \<and>
     length (it_low it) = n \<and> length (it_high it) = n \<and>
     (if m \<le> n then it_head it = int m - 1 \<and> it_tail it = -1
      else it_head it = int ((m - 1) mod n) \<and> it_tail it = int (m mod n)) \<and>
     (\<forall>j. j < m \<longrightarrow> m \<le> j + n \<longrightarrow> it_iterNumList it ! (j mod n) = int j + 1)"

lemma smod_nat: "int a smod int b = int (a mod b)"
  by (auto simp: smod_int_alt_def sgn_if zmod_int)

lemma iterations_new_ring:
  assumes "1 \<le> limit"
  shows "\<exists>it. iterations_new limit = Some it \<and> ring_rep (nat limit + 1) 0 it"
  using assms by (simp add: iterations_new_def ring_rep_def Let_def nat_add_distrib)

lemma getIndex_ok:
  assumes "ring_rep n m it" shows "getIndex (int j + 1) it = Some (int (j mod n))"
proof -
  have n: "2 \<le> n" "it_throttleLimit it = int n - 1" using assms by (simp_all add: ring_rep_def)
  have "(int j + 1) smod int n = int (Suc j mod n)" using smod_nat [of "Suc j" n] by (simp add: add.commute)
  also have "\<dots> = int (if Suc (j mod n) = n then 0 else Suc (j mod n))" by (simp add: mod_Suc)
  finally show ?thesis using n by (auto simp: getIndex_def Let_def)
qed

lemma next_slot_ok:
  assumes "ring_rep n m it"
  shows "\<exists>t. next_slot it = Some (int (m mod n), int (m mod n), t) \<and>
     (if Suc m \<le> n then t = -1 else t = int (Suc m mod n))"
proof -
  have n: "2 \<le> n" "it_throttleLimit it = int n - 1" using assms by (simp_all add: ring_rep_def)
  consider (first) "m < n" | (full) "m = n" | (later) "n < m" by linarith
  then show ?thesis
  proof cases
    case first
    then have "it_head it = int m - 1" "it_tail it = -1" using assms by (simp_all add: ring_rep_def)
    with first n show ?thesis by (auto simp: next_slot_def Let_def)
  next
    case full
    then have "it_head it = int n - 1" "it_tail it = -1" using assms by (simp_all add: ring_rep_def)
    moreover have "Suc n mod n = 1" using n(1) by (simp add: mod_Suc)
    ultimately show ?thesis using full n by (auto simp: next_slot_def Let_def)
  next
    case later
    define h where "h = (m - 1) mod n"
    have ht: "it_head it = int h" "it_tail it = int (m mod n)" using assms later by (simp_all add: ring_rep_def h_def)
    have m: "m mod n = (if Suc h = n then 0 else Suc h)" using later mod_Suc [of "m - 1" n] by (simp add: h_def)
    have h: "h < n" using n(1) by (simp add: h_def)
    show ?thesis
    proof (cases "Suc h = n")
      case True
      then have "m mod n = 0" "Suc m mod n = 1" using m n(1) by (simp_all add: mod_Suc)
      with True ht n later show ?thesis by (auto simp: next_slot_def Let_def)
    next
      case False
      then have k: "m mod n = Suc h" "Suc h < n" using m h by simp_all
      have "(int (Suc h) + 1) smod int n = int (Suc (Suc h) mod n)"
        using smod_nat [of "Suc (Suc h)" n] by (simp add: add.commute)
      also have "Suc (Suc h) mod n = Suc m mod n" using k by (metis mod_Suc_eq)
      finally have "(int (Suc h) + 1) smod int n = int (Suc m mod n)" .
      with k ht n later show ?thesis by (auto simp: next_slot_def Let_def)
    qed
  qed
qed

text \<open>Two iterations in the ring are in different slots.\<close>

lemma slots_differ:
  fixes j k m n :: nat
  assumes "j < m" "m \<le> j + n" "k < m" "m \<le> k + n" "j \<noteq> k" shows "j mod n \<noteq> k mod n"
proof -
  have "False" if lt: "j < k" and lo: "m \<le> j + n" and hi: "k < m" and eq: "j mod n = k mod n" for j k :: nat
  proof -
    have "n dvd k - j" using eq lt by (metis less_imp_le mod_eq_dvd_iff_nat)
    then have "n \<le> k - j" using lt by (intro dvd_imp_le) auto
    then show False using lo hi lt by linarith
  qed
  then show ?thesis using assms by (metis linorder_neqE_nat)
qed

lemma getStageFrameList_ring:
  assumes "ring_rep n m it" shows "getStageFrameList (int j + 1) it = it_p it ! (j mod n)"
proof -
  have "cell (it_p it) (int (j mod n)) = Some (it_p it ! (j mod n))"
    using assms by (auto simp: ring_rep_def cell_def zmod_int [symmetric] intro: mod_less_divisor)
  then show ?thesis using getIndex_ok [OF assms, of j] by (simp add: getStageFrameList_def)
qed

lemma ring_rep_upd_p: "ring_rep n m it \<Longrightarrow> length p = n \<Longrightarrow> ring_rep n m (it\<lparr>it_p := p\<rparr>)"
  by (simp add: ring_rep_def)

lemma setStageFrameList_ring:
  assumes "ring_rep n m it"
  shows "setStageFrameList (int j + 1) l it = Some (it\<lparr>it_p := (it_p it)[j mod n := Some l]\<rparr>)"
proof -
  have "j mod n < length (it_p it)" using assms by (auto simp: ring_rep_def intro: mod_less_divisor)
  then show ?thesis using getIndex_ok [OF assms, of j] by (simp add: setStageFrameList_def set_cell_def)
qed

text \<open>The next iteration takes its slot; the oldest of a full ring is lost.\<close>

lemma insertStageFrameList_ring:
  assumes ring: "ring_rep n m it"
  shows "\<exists>it'. insertStageFrameList (int m + 1) it = Some (int (m mod n), it') \<and> ring_rep n (Suc m) it' \<and>
    it_p it' = (it_p it)[m mod n := Some stage_list_new]"
proof -
  have n: "2 \<le> n" "length (it_p it) = n" "length (it_iterNumList it) = n" using ring by (simp_all add: ring_rep_def)
  then have slot: "m mod n < n" by simp
  obtain t where t: "next_slot it = Some (int (m mod n), int (m mod n), t)" "if Suc m \<le> n then t = -1 else t = int (Suc m mod n)"
    using next_slot_ok [OF ring] by blast
  let ?it = "it\<lparr>it_head := int (m mod n), it_tail := t, it_p := (it_p it)[m mod n := Some stage_list_new],
                it_iterNumList := (it_iterNumList it)[m mod n := int m + 1]\<rparr>"
  have "insertStageFrameList (int m + 1) it = Some (int (m mod n), ?it)"
    using t(1) slot n by (simp add: insertStageFrameList_def set_cell_def)
  moreover have "it_iterNumList ?it ! (j mod n) = int j + 1" if j: "j < Suc m" "Suc m \<le> j + n" for j
  proof (cases "j = m")
    case False
    then have "j mod n \<noteq> m mod n" using j by (intro slots_differ [of _ "Suc m"]) auto
    then show ?thesis using ring j False by (auto simp: ring_rep_def)
  qed (use slot n in simp)
  then have "ring_rep n (Suc m) ?it" using ring t(2) n by (auto simp: ring_rep_def split: if_splits)
  ultimately show ?thesis by (intro exI [of _ ?it]) simp
qed

subsection \<open>Watermarks\<close>

text \<open>A watermark that is set for an iteration in the ring is the one that is read for it, and no other changes.\<close>

lemma setHighWatermark_ring:
  assumes ring: "ring_rep n m it" and j: "j < m" "m \<le> j + n"
  shows "\<exists>it'. setHighWatermark (int j + 1) w it = Some it' \<and> ring_rep n m it' \<and> it_p it' = it_p it \<and> it_low it' = it_low it \<and>
    getHighWatermark (int j + 1) it' = Some w \<and>
    (\<forall>k. k \<noteq> j \<longrightarrow> k < m \<longrightarrow> m \<le> k + n \<longrightarrow> getHighWatermark (int k + 1) it' = getHighWatermark (int k + 1) it)"
proof -
  have n: "2 \<le> n" "length (it_high it) = n" "length (it_iterNumList it) = n" using ring by (simp_all add: ring_rep_def)
  then have slot: "i mod n < n" for i by simp
  let ?it = "it\<lparr>it_high := (it_high it)[j mod n := w]\<rparr>"
  have set: "setHighWatermark (int j + 1) w it = Some ?it"
    using getIndex_ok [OF ring, of j] slot n by (simp add: setHighWatermark_def set_cell_def)
  have r: "ring_rep n m ?it" using ring by (simp add: ring_rep_def)
  have num: "it_iterNumList ?it ! (k mod n) = int k + 1" if "k < m" "m \<le> k + n" for k using r that by (simp add: ring_rep_def)
  have get: "getHighWatermark (int k + 1) ?it = Some (it_high ?it ! (k mod n))" if "k < m" "m \<le> k + n" for k
    using getIndex_ok [OF r, of k] num [OF that] slot n by (simp add: getHighWatermark_def cell_def)
  have get0: "getHighWatermark (int k + 1) it = Some (it_high it ! (k mod n))" if "k < m" "m \<le> k + n" for k
    using getIndex_ok [OF ring, of k] num [OF that] slot n by (simp add: getHighWatermark_def cell_def)
  have "getHighWatermark (int j + 1) ?it = Some w" using get [OF j] slot n by simp
  moreover have "getHighWatermark (int k + 1) ?it = getHighWatermark (int k + 1) it" if "k \<noteq> j" "k < m" "m \<le> k + n" for k
    using get [OF that(2,3)] get0 [OF that(2,3)] slots_differ [OF that(2,3) j that(1)] by simp
  ultimately show ?thesis using set r by (intro exI [of _ ?it]) simp
qed

lemma setLowWatermark_ring:
  assumes ring: "ring_rep n m it" and j: "j < m" "m \<le> j + n"
  shows "\<exists>it'. setLowWatermark (int j + 1) w it = Some it' \<and> ring_rep n m it' \<and> it_p it' = it_p it \<and> it_high it' = it_high it \<and>
    getLowWatermark (int j + 1) it' = Some w \<and>
    (\<forall>k. k \<noteq> j \<longrightarrow> k < m \<longrightarrow> m \<le> k + n \<longrightarrow> getLowWatermark (int k + 1) it' = getLowWatermark (int k + 1) it)"
proof -
  have n: "2 \<le> n" "length (it_low it) = n" "length (it_iterNumList it) = n" using ring by (simp_all add: ring_rep_def)
  then have slot: "i mod n < n" for i by simp
  let ?it = "it\<lparr>it_low := (it_low it)[j mod n := w]\<rparr>"
  have set: "setLowWatermark (int j + 1) w it = Some ?it"
    using getIndex_ok [OF ring, of j] slot n by (simp add: setLowWatermark_def set_cell_def)
  have r: "ring_rep n m ?it" using ring by (simp add: ring_rep_def)
  have num: "it_iterNumList ?it ! (k mod n) = int k + 1" if "k < m" "m \<le> k + n" for k using r that by (simp add: ring_rep_def)
  have get: "getLowWatermark (int k + 1) ?it = Some (it_low ?it ! (k mod n))" if "k < m" "m \<le> k + n" for k
    using getIndex_ok [OF r, of k] num [OF that] slot n by (simp add: getLowWatermark_def cell_def)
  have get0: "getLowWatermark (int k + 1) it = Some (it_low it ! (k mod n))" if "k < m" "m \<le> k + n" for k
    using getIndex_ok [OF ring, of k] num [OF that] slot n by (simp add: getLowWatermark_def cell_def)
  have "getLowWatermark (int j + 1) ?it = Some w" using get [OF j] slot n by simp
  moreover have "getLowWatermark (int k + 1) ?it = getLowWatermark (int k + 1) it" if "k \<noteq> j" "k < m" "m \<le> k + n" for k
    using get [OF that(2,3)] get0 [OF that(2,3)] slots_differ [OF that(2,3) j that(1)] by simp
  ultimately show ?thesis using set r by (intro exI [of _ ?it]) simp
qed

end
