(* ===== verification/Two_D_Order.thy ===== *)
theory Two_D_Order
  imports Prelude "HOL-Library.List_Lexorder"
begin

text \<open>
  Why two orders are enough.  The stages of a pipeline form a two-dimensional dag: stage \<open>k\<close> of iteration
  \<open>i\<close> precedes stage \<open>k + 1\<close> of the same iteration, and some stages also have a left dependency, a stage of
  the iteration before.  The detector (\<open>rdtool/include/piper_rd.h\<close>) gives every stage a place in two orders,
  by inserting after the stage's own node a place for the one neighbour and then a place for the other.

  A place is a path: the turns that lead to it, \<open>First\<close> for the neighbour inserted first.  In either order the
  places lie in the lexicographic order of their paths, whatever the order in which the stages were executed.
  The main theorem is \<open>two_d_order\<close>: a stage precedes another in the dag iff it does in both orders.
\<close>

subsection \<open>Paths\<close>

datatype turn = First | Second

instantiation turn :: linorder
begin

definition less_turn :: "turn \<Rightarrow> turn \<Rightarrow> bool" where
  "less_turn a b \<longleftrightarrow> a = First \<and> b = Second"

definition less_eq_turn :: "turn \<Rightarrow> turn \<Rightarrow> bool" where
  "less_eq_turn a b \<longleftrightarrow> a = First \<or> b = Second"

instance
proof
  fix x y z :: turn
  show "x < y \<longleftrightarrow> x \<le> y \<and> \<not> y \<le> x" "x \<le> x" "x \<le> y \<or> y \<le> x"
    by (cases x; cases y; simp add: less_turn_def less_eq_turn_def)+
  show "x \<le> y \<Longrightarrow> y \<le> z \<Longrightarrow> x \<le> z" "x \<le> y \<Longrightarrow> y \<le> x \<Longrightarrow> x = y"
    by (cases x; cases y; cases z; simp add: less_eq_turn_def)+
qed

end

type_synonym path = "turn list"

lemma First_less_Second [simp]: "First < Second" "\<not> Second < First"
  by (simp_all add: less_turn_def)

text \<open>The order of the paths: by the first difference, a prefix before its extensions.\<close>

lemma path_Nil_less [simp]: "[] < q \<longleftrightarrow> q \<noteq> []" for q :: path
  by (cases q) auto

lemma path_prefix_less [simp]: "p < p @ q \<longleftrightarrow> q \<noteq> []" for p :: path
  by (induction p) auto

lemma path_branch [simp]: "p @ q < p @ r \<longleftrightarrow> q < r" for p :: path
  by (induction p) auto

lemma path_less_extend: "p < q \<Longrightarrow> p < q @ r" for p :: path
  by (metis append_Nil2 order_less_trans path_prefix_less)

text \<open>If \<open>p\<close> is not a prefix of \<open>q\<close>, all extensions of \<open>p\<close> lie on the same side of \<open>q\<close>.\<close>

lemma path_less_subtree: "p < q \<Longrightarrow> (\<And>z. q \<noteq> p @ z) \<Longrightarrow> p @ r < q" for p :: path
proof (induction p arbitrary: q)
  case Nil
  then show ?case by (metis append_Nil)
next
  case (Cons a p)
  then obtain b q' where q: "q = b # q'" by (cases q) auto
  show ?case
  proof (cases "a = b")
    case True
    then have "p < q'" "\<And>z. q' \<noteq> p @ z" using Cons.prems q by auto
    then have "p @ r < q'" by (rule Cons.IH)
    with True q show ?thesis by simp
  next
    case False
    with Cons.prems(1) q show ?thesis by auto
  qed
qed

subsection \<open>Placing two neighbours\<close>

text \<open>A list of nodes with their paths, in order.\<close>

definition placed_by :: "(nat \<Rightarrow> path) \<Rightarrow> nat list \<Rightarrow> bool" where
  "placed_by key xs \<longleftrightarrow> sorted_wrt (\<lambda>x y. key x < key y) xs"

lemma placed_by_distinct: "placed_by key xs \<Longrightarrow> distinct xs"
  unfolding placed_by_def distinct_conv_nth sorted_wrt_iff_nth_less
  by (metis linorder_neqE_nat order_less_irrefl)

definition childless :: "(nat \<Rightarrow> path) \<Rightarrow> nat list \<Rightarrow> path \<Rightarrow> bool" where
  "childless key xs p \<longleftrightarrow> (\<forall>x\<in>set xs. \<forall>z. z \<noteq> [] \<longrightarrow> key x \<noteq> p @ z)"

lemma placed_by_upd:
  assumes "placed_by key xs" "a \<notin> set xs"
  shows "placed_by (key(a := q)) xs"
  using assms unfolding placed_by_def by (auto intro: sorted_wrt_mono_rel [rotated])

lemma placed_by_insert:
  assumes placed: "placed_by key (pre @ c # post)" and fresh: "a \<notin> set (pre @ c # post)"
    and key: "key c < q" "\<And>x. x \<in> set post \<Longrightarrow> q < key x"
  shows "placed_by (key(a := q)) (pre @ c # a # post)"
proof -
  have "key x < q" if "x \<in> set pre" for x
    using that placed key(1) by (fastforce simp: placed_by_def sorted_wrt_append)
  then show ?thesis
    using placed_by_upd [OF placed fresh, of q] fresh key by (auto simp: placed_by_def sorted_wrt_append)
qed

text \<open>The two insertions: \<open>a\<close> after \<open>c\<close>, then \<open>b\<close> after \<open>a\<close>.\<close>

lemma placed_by_children:
  assumes placed: "placed_by key (pre @ c # post)" and free: "childless key (pre @ c # post) (key c)"
    and fresh: "a \<notin> set (pre @ c # post)" "b \<notin> set (pre @ c # post)" "a \<noteq> b"
  shows "placed_by (key(a := key c @ [First], b := key c @ [Second])) (pre @ c # a # b # post)"
proof -
  have after: "key c @ r < key x" if "x \<in> set post" for x r
  proof (rule path_less_subtree)
    show "key c < key x" using placed that by (auto simp: placed_by_def sorted_wrt_append)
    fix z show "key x \<noteq> key c @ z"
      using free that \<open>key c < key x\<close> by (cases "z = []") (auto simp: childless_def)
  qed
  have one: "placed_by (key(a := key c @ [First])) (pre @ c # a # post)"
    using placed fresh after by (intro placed_by_insert) auto
  have "placed_by ((key(a := key c @ [First]))(b := key c @ [Second])) ((pre @ [c]) @ a # b # post)"
  proof (rule placed_by_insert)
    show "(key(a := key c @ [First])) x > key c @ [Second]" if "x \<in> set post" for x
      using after [OF that] fresh that by auto
  qed (use one fresh in auto)
  then show ?thesis by simp
qed

subsection \<open>The dag of a pipeline\<close>

text \<open>
  \<open>dep i k\<close> is the left dependency of stage \<open>k\<close> of iteration \<open>i\<close>: a stage of iteration \<open>i - 1\<close>.  Iterations count
  from 0.  The first stage of an iteration depends on the first stage of the one before, and later dependencies of an
  iteration are on later stages.
\<close>

type_synonym deps = "nat \<Rightarrow> nat \<Rightarrow> nat option"

definition deps_ok :: "deps \<Rightarrow> bool" where
  "deps_ok dep \<longleftrightarrow>
     (\<forall>k. dep 0 k = None) \<and> (\<forall>i. dep (Suc i) 0 = Some 0) \<and>
     (\<forall>i k m q r. k < m \<longrightarrow> dep i k = Some q \<longrightarrow> dep i m = Some r \<longrightarrow> q < r)"

inductive edge :: "deps \<Rightarrow> nat \<times> nat \<Rightarrow> nat \<times> nat \<Rightarrow> bool" for dep where
  down: "edge dep (i, k) (i, Suc k)"
| right: "dep (Suc i) k = Some q \<Longrightarrow> edge dep (i, q) (Suc i, k)"

inductive_cases edgeE: "edge dep x y"

abbreviation precedes :: "deps \<Rightarrow> nat \<times> nat \<Rightarrow> nat \<times> nat \<Rightarrow> bool" where
  "precedes dep \<equiv> (edge dep)\<^sup>+\<^sup>+"

text \<open>
  The paths.  In the down-first order (\<open>g_english\<close>) a stage is placed by the stage above it, and a first
  stage by its left neighbour; in the right-first order (\<open>g_hebrew\<close>) by its left dependency if it has one.
\<close>

definition epath :: "nat \<Rightarrow> nat \<Rightarrow> path" where
  "epath i k = replicate i Second @ replicate k First"

function hpath :: "deps \<Rightarrow> nat \<Rightarrow> nat \<Rightarrow> path" where
  "hpath dep i k =
     (case dep i k of
        Some q \<Rightarrow> if i = 0 then [] else hpath dep (i - 1) q @ [First]
      | None \<Rightarrow> if k = 0 then [] else hpath dep i (k - 1) @ [Second])"
  by pat_completeness auto
termination
  by (relation "inv_image (less_than <*lex*> less_than) (\<lambda>(dep, i, k). (i, k))") auto

declare hpath.simps [simp del]

lemma hpath_simps:
  "dep (Suc i) k = Some q \<Longrightarrow> hpath dep (Suc i) k = hpath dep i q @ [First]"
  "dep i (Suc k) = None \<Longrightarrow> hpath dep i (Suc k) = hpath dep i k @ [Second]"
  "dep 0 0 = None \<Longrightarrow> hpath dep 0 0 = []"
  by (simp_all add: hpath.simps [of dep _ k] hpath.simps [of dep _ "Suc k"] hpath.simps [of dep 0])

text \<open>The last left dependency of the stages up to \<open>k\<close>.\<close>

fun last_dep :: "deps \<Rightarrow> nat \<Rightarrow> nat \<Rightarrow> nat" where
  "last_dep dep i 0 = (case dep i 0 of Some q \<Rightarrow> q | None \<Rightarrow> 0)"
| "last_dep dep i (Suc k) = (case dep i (Suc k) of Some q \<Rightarrow> q | None \<Rightarrow> last_dep dep i k)"

lemma last_dep_is:
  assumes "deps_ok dep"
  shows "\<exists>k'\<le>k. dep (Suc i) k' = Some (last_dep dep (Suc i) k)"
proof (induction k)
  case 0
  then show ?case using assms by (simp add: deps_ok_def)
next
  case (Suc k)
  then show ?case by (cases "dep (Suc i) (Suc k)") (auto intro: le_SucI)
qed

lemma last_dep_less:
  assumes "deps_ok dep" "dep (Suc i) (Suc k) = Some q"
  shows "last_dep dep (Suc i) k < q"
  using last_dep_is [OF assms(1), of k i] assms unfolding deps_ok_def by (meson le_imp_less_Suc)

lemma hpath_last:
  assumes "deps_ok dep"
  shows "\<exists>z. hpath dep (Suc i) k = hpath dep i (last_dep dep (Suc i) k) @ First # z"
proof (induction k)
  case 0
  then show ?case using assms by (simp add: deps_ok_def hpath_simps)
next
  case (Suc k)
  then show ?case by (cases "dep (Suc i) (Suc k)") (auto simp: hpath_simps)
qed

text \<open>In the right-first order, all that is placed to the right of a stage comes before the stages below it.\<close>

lemma hpath_below:
  assumes ok: "deps_ok dep"
  shows "k < m \<Longrightarrow> hpath dep i k @ First # z < hpath dep i m"
proof (induction i arbitrary: k m z)
  case outer: (0 k m z)
  have step: "hpath dep 0 k @ First # z < hpath dep 0 (Suc k)" for k z
    using ok by (simp add: hpath_simps deps_ok_def)
  from outer show ?case
  proof (induction m)
    case (Suc m)
    show ?case
    proof (cases "k = m")
      case False
      with Suc have "hpath dep 0 k @ First # z < hpath dep 0 m" by simp
      also have "\<dots> < hpath dep 0 m @ [First]" by simp
      also have "\<dots> < hpath dep 0 (Suc m)" by (rule step)
      finally show ?thesis .
    qed (use step in auto)
  qed simp
next
  case outer: (Suc i k m z)
  have step: "hpath dep (Suc i) k @ First # z < hpath dep (Suc i) (Suc k)" for k z
  proof (cases "dep (Suc i) (Suc k)")
    case None
    then show ?thesis by (simp add: hpath_simps)
  next
    case (Some q)
    obtain y where y: "hpath dep (Suc i) k = hpath dep i (last_dep dep (Suc i) k) @ First # y"
      using hpath_last [OF ok] by blast
    have "hpath dep i (last_dep dep (Suc i) k) @ First # (y @ First # z) < hpath dep i q"
      by (rule outer.IH) (rule last_dep_less [OF ok Some])
    then show ?thesis unfolding y hpath_simps(1) [where dep = dep, OF Some] by (simp add: path_less_extend)
  qed
  from outer.prems show ?case
  proof (induction m)
    case (Suc m)
    show ?case
    proof (cases "k = m")
      case False
      with Suc have "hpath dep (Suc i) k @ First # z < hpath dep (Suc i) m" by simp
      also have "\<dots> < hpath dep (Suc i) m @ [First]" by simp
      also have "\<dots> < hpath dep (Suc i) (Suc m)" by (rule step)
      finally show ?thesis .
    qed (use step in auto)
  qed simp
qed

lemma hpath_column: "deps_ok dep \<Longrightarrow> k < m \<Longrightarrow> hpath dep i k < hpath dep i m"
proof -
  assume "deps_ok dep" "k < m"
  then have "hpath dep i k @ [First] < hpath dep i m" by (rule hpath_below)
  moreover have "hpath dep i k < hpath dep i k @ [First]" by simp
  ultimately show ?thesis by (rule order_less_trans [rotated])
qed

lemma epath_less: "epath i k < epath j m \<longleftrightarrow> i < j \<or> i = j \<and> k < m"
proof -
  have up: "epath i k < epath j m" if "i < j" for i j k m
  proof -
    have "epath j m = replicate i Second @ Second # (replicate (j - i - 1) Second @ replicate m First)"
      using that by (simp add: epath_def flip: replicate_Suc append_Cons) (simp add: replicate_add [symmetric] del: replicate_Suc)
    then show ?thesis by (cases k) (simp_all add: epath_def)
  qed
  have eq: "epath i k < epath i m \<longleftrightarrow> k < m" for i k m
  proof -
    have "replicate k First < replicate m First \<longleftrightarrow> k < m"
      by (induction k m rule: diff_induct) auto
    then show ?thesis by (simp add: epath_def)
  qed
  show ?thesis using up [of i j k m] up [of j i m k] eq [of j k m] by (cases i j rule: linorder_cases) auto
qed

subsection \<open>Reachability\<close>

lemma down_chain: "(edge dep)\<^sup>*\<^sup>* (i, k) (i, k + n)"
  by (induction n) (auto intro: rtranclp.rtrancl_into_rtrancl edge.down)

lemma down_le: "k \<le> m \<Longrightarrow> (edge dep)\<^sup>*\<^sup>* (i, k) (i, m)"
  using down_chain [of dep i k "m - k"] by simp

text \<open>The last stage of iteration \<open>j - d\<close> that precedes stage \<open>m\<close> of iteration \<open>j\<close>.\<close>

fun reach_pos :: "deps \<Rightarrow> nat \<Rightarrow> nat \<Rightarrow> nat \<Rightarrow> nat" where
  "reach_pos dep j 0 m = m"
| "reach_pos dep j (Suc d) m = reach_pos dep (j - 1) d (last_dep dep j m)"

lemma reach_pos_reaches:
  assumes ok: "deps_ok dep"
  shows "d \<le> j \<Longrightarrow> k \<le> reach_pos dep j d m \<Longrightarrow> (edge dep)\<^sup>*\<^sup>* (j - d, k) (j, m)"
proof (induction d arbitrary: j m)
  case 0
  then show ?case by (simp add: down_le)
next
  case (Suc d)
  then obtain i where j: "j = Suc i" by (cases j) auto
  obtain k' where k': "k' \<le> m" "dep (Suc i) k' = Some (last_dep dep (Suc i) m)" using last_dep_is [OF ok] by blast
  have "(edge dep)\<^sup>*\<^sup>* (i - d, k) (i, last_dep dep j m)" using Suc j by simp
  also have "edge dep (i, last_dep dep j m) (j, k')" using edge.right [where dep = dep, OF k'(2)] j by simp
  also have "(edge dep)\<^sup>*\<^sup>* (j, k') (j, m)" using k'(1) by (rule down_le)
  finally show ?case using j by simp
qed

lemma reach_pos_path:
  assumes ok: "deps_ok dep"
  shows "d \<le> j \<Longrightarrow> \<exists>z. hpath dep j m = hpath dep (j - d) (reach_pos dep j d m) @ z \<and> (d \<noteq> 0 \<longrightarrow> (\<exists>y. z = First # y))"
proof (induction d arbitrary: j m)
  case (Suc d)
  then obtain i where j: "j = Suc i" by (cases j) auto
  obtain y where y: "hpath dep j m = hpath dep i (last_dep dep j m) @ First # y"
    using hpath_last [OF ok] j by blast
  obtain z where z: "hpath dep i (last_dep dep j m) = hpath dep (i - d) (reach_pos dep i d (last_dep dep j m)) @ z"
    "d \<noteq> 0 \<longrightarrow> (\<exists>y. z = First # y)"
    using Suc.IH [of i "last_dep dep j m"] Suc.prems j by auto
  show ?case
  proof (cases "d = 0")
    case True
    with y j show ?thesis by simp
  next
    case False
    with y z j show ?thesis by auto
  qed
qed simp

lemma edge_orders:
  assumes ok: "deps_ok dep" and edge: "edge dep (i, k) (j, m)"
  shows "epath i k < epath j m \<and> hpath dep i k < hpath dep j m"
  using edge
proof (cases rule: edge.cases)
  case down
  then show ?thesis using hpath_column [OF ok] by (simp add: epath_less)
next
  case right
  then show ?thesis by (simp add: epath_less hpath_simps)
qed

lemma precedes_orders:
  assumes ok: "deps_ok dep"
  shows "precedes dep x y \<Longrightarrow> epath (fst x) (snd x) < epath (fst y) (snd y) \<and> hpath dep (fst x) (snd x) < hpath dep (fst y) (snd y)"
proof (induction rule: tranclp_induct)
  case (base y)
  then show ?case using edge_orders [OF ok] by (metis prod.collapse)
next
  case (step y z)
  then show ?case using edge_orders [OF ok, of "fst y" "snd y" "fst z" "snd z"] by (auto intro: order_less_trans)
qed

theorem two_d_order:
  assumes ok: "deps_ok dep"
  shows "precedes dep (i, k) (j, m) \<longleftrightarrow> epath i k < epath j m \<and> hpath dep i k < hpath dep j m"
proof
  assume "precedes dep (i, k) (j, m)"
  from precedes_orders [OF ok this] show "epath i k < epath j m \<and> hpath dep i k < hpath dep j m" by simp
next
  assume less: "epath i k < epath j m \<and> hpath dep i k < hpath dep j m"
  then consider "i = j" "k < m" | "i < j" by (auto simp: epath_less)
  then have "(edge dep)\<^sup>*\<^sup>* (i, k) (j, m)"
  proof cases
    case 1
    then show ?thesis by (simp add: down_le)
  next
    case 2
    let ?d = "j - i"
    have d: "?d \<le> j" "j - ?d = i" "?d \<noteq> 0" using 2 by auto
    obtain y where y: "hpath dep j m = hpath dep i (reach_pos dep j ?d m) @ First # y"
      using reach_pos_path [OF ok d(1), of m] d by auto
    have "k \<le> reach_pos dep j ?d m"
    proof (rule ccontr)
      assume "\<not> k \<le> reach_pos dep j ?d m"
      then have "hpath dep j m < hpath dep i k" unfolding y by (intro hpath_below [OF ok]) simp
      with less show False using order_less_asym by blast
    qed
    from reach_pos_reaches [OF ok d(1) this] d(2) show ?thesis by simp
  qed
  moreover have "(i, k) \<noteq> (j, m)" using less by auto
  ultimately show "precedes dep (i, k) (j, m)" by (metis rtranclpD)
qed

text \<open>The paths tell the stages apart, and no order is lost: two stages are always ordered.\<close>

lemma epath_inj: "epath i k = epath j m \<longleftrightarrow> i = j \<and> k = m"
  using epath_less [of i k j m] epath_less [of j m i k] by (metis linorder_neqE_nat order_less_irrefl)

lemma hpath_neq:
  assumes ok: "deps_ok dep" and "(i, k) \<noteq> (j, m)"
  shows "hpath dep i k \<noteq> hpath dep j m"
proof
  assume eq: "hpath dep i k = hpath dep j m"
  have "False" if lt: "i < j" and same: "hpath dep i k = hpath dep j m" for i j k m
  proof -
    obtain y where y: "hpath dep j m = hpath dep i (reach_pos dep j (j - i) m) @ First # y"
      using reach_pos_path [OF ok, of "j - i" j m] lt by auto
    have "hpath dep i (reach_pos dep j (j - i) m) < hpath dep i (reach_pos dep j (j - i) m) @ First # y"
      by (simp only: path_prefix_less) simp
    then have "hpath dep i (reach_pos dep j (j - i) m) < hpath dep i k" by (simp only: same y)
    then have "\<not> k < reach_pos dep j (j - i) m" "k \<noteq> reach_pos dep j (j - i) m"
      using hpath_column [OF ok, of k "reach_pos dep j (j - i) m" i] order_less_asym by auto
    then have "reach_pos dep j (j - i) m < k" by simp
    from hpath_below [OF ok this, of i y] have "hpath dep j m < hpath dep i k" by (simp only: y)
    then show False by (simp only: same order_less_irrefl)
  qed
  from this [of i j k m] this [of j i m k] eq have ij: "i = j" by (metis linorder_neqE_nat)
  then consider "k < m" | "m < k" using assms(2) by (metis linorder_neqE_nat)
  then show False
    using eq ij hpath_column [OF ok, of k m j] hpath_column [OF ok, of m k j] by cases simp_all
qed

end
