(* ===== verification/Pipe_Dag.thy ===== *)
theory Pipe_Dag
  imports Two_D_Order Pipe_Rd
begin

text \<open>
  The dag of a pipeline program, and the left dependencies that \<open>getLeftDependency\<close> finds.

  A program gives for every iteration its stages: their numbers, increasing from 0, and whether the stage waits
  (\<open>CILK_STAGE_WAIT\<close>) for the iteration before.  A waiting stage depends on the last stage of the iteration before whose
  number is not greater.  The hook leaves out dependencies that an earlier one of the iteration implies.
\<close>

type_synonym pipeline = "nat \<Rightarrow> (int \<times> bool) list"

definition pipeline_ok :: "pipeline \<Rightarrow> bool" where
  "pipeline_ok prog \<longleftrightarrow> (\<forall>i. prog i \<noteq> [] \<and> fst (prog i ! 0) = 0 \<and> sorted_wrt (<) (map fst (prog i)))"

definition upto_stage :: "int \<Rightarrow> int list \<Rightarrow> nat" where
  "upto_stage s ns = length (takeWhile (\<lambda>n. n \<le> s) ns)"

definition full_dep :: "pipeline \<Rightarrow> deps" where
  "full_dep prog i k =
     (if i = 0 then None else if k = 0 then Some 0
      else if k < length (prog i) \<and> snd (prog i ! k) then Some (upto_stage (fst (prog i ! k)) (map fst (prog (i - 1))) - 1)
      else None)"

text \<open>The last dependency of the stages up to \<open>k\<close>, and the dependencies without the implied ones.\<close>

fun seen :: "pipeline \<Rightarrow> nat \<Rightarrow> nat \<Rightarrow> nat" where
  "seen prog i 0 = 0"
| "seen prog i (Suc k) = (case full_dep prog i (Suc k) of None \<Rightarrow> seen prog i k | Some q \<Rightarrow> max q (seen prog i k))"

definition pdep :: "pipeline \<Rightarrow> deps" where
  "pdep prog i k =
     (case full_dep prog i k of None \<Rightarrow> None | Some q \<Rightarrow> if k = 0 \<or> seen prog i (k - 1) < q then Some q else None)"

lemma seen_mono: "k \<le> m \<Longrightarrow> seen prog i k \<le> seen prog i m"
proof (induction m)
  case (Suc m)
  then show ?case by (cases "k = Suc m"; cases "full_dep prog i (Suc m)") (auto simp: le_max_iff_disj)
qed simp

lemma full_dep_seen: "full_dep prog i k = Some q \<Longrightarrow> q \<le> seen prog i k"
  by (cases k) (auto simp: full_dep_def split: if_splits)

lemma pdep_full: "pdep prog i k = Some q \<Longrightarrow> full_dep prog i k = Some q"
  by (auto simp: pdep_def split: option.splits if_splits)

lemma last_dep_seen: "last_dep (pdep prog) i k = seen prog i k"
proof (induction k)
  case 0
  then show ?case by (simp add: pdep_def full_dep_def)
next
  case (Suc k)
  then show ?case by (cases "full_dep prog i (Suc k)") (auto simp: pdep_def max_def)
qed

lemma pdep_ok: "deps_ok (pdep prog)"
  unfolding deps_ok_def
proof (intro conjI allI impI)
  fix i k m q r assume km: "k < m" "pdep prog i k = Some q" "pdep prog i m = Some r"
  have "q \<le> seen prog i k" by (rule full_dep_seen [OF pdep_full [OF km(2)]])
  also have "\<dots> \<le> seen prog i (m - 1)" using km(1) by (intro seen_mono) simp
  also have "\<dots> < r" using km(1,3) by (auto simp: pdep_def split: option.splits if_splits)
  finally show "q < r" .
qed (simp_all add: pdep_def full_dep_def)

text \<open>The dag is the same.\<close>

lemma full_edge:
  assumes "edge (full_dep prog) x y" shows "precedes (pdep prog) x y"
  using assms
proof (cases rule: edge.cases)
  case (down i k)
  then show ?thesis using edge.down [of "pdep prog" i k] by blast
next
  case (right i k q)
  have q: "q \<le> last_dep (pdep prog) (Suc i) k" using full_dep_seen [OF right(3)] by (simp add: last_dep_seen)
  obtain k' where k': "k' \<le> k" "pdep prog (Suc i) k' = Some (last_dep (pdep prog) (Suc i) k)"
    using last_dep_is [OF pdep_ok] by blast
  have "(edge (pdep prog))\<^sup>*\<^sup>* (i, q) (i, last_dep (pdep prog) (Suc i) k)" using q by (rule down_le)
  moreover have "edge (pdep prog) (i, last_dep (pdep prog) (Suc i) k) (Suc i, k')" by (rule edge.right) (rule k'(2))
  moreover have "(edge (pdep prog))\<^sup>*\<^sup>* (Suc i, k') (Suc i, k)" using k'(1) by (rule down_le)
  ultimately show ?thesis unfolding right(1,2) by (meson rtranclp_into_tranclp1 tranclp_rtranclp_tranclp)
qed

lemma reduced_precedes: "precedes (full_dep prog) x y \<longleftrightarrow> precedes (pdep prog) x y"
proof
  assume "precedes (full_dep prog) x y"
  then show "precedes (pdep prog) x y"
  proof (induction rule: tranclp_induct)
    case (base y)
    then show ?case by (rule full_edge)
  next
    case (step y z)
    then show ?case using full_edge by (meson tranclp_trans)
  qed
next
  have e: "edge (full_dep prog) x y" if "edge (pdep prog) x y" for x y
    using that by cases (auto intro: edge.intros pdep_full)
  assume "precedes (pdep prog) x y"
  then show "precedes (full_dep prog) x y"
  proof (induction rule: tranclp_induct)
    case (base y)
    then show ?case using e by blast
  next
    case (step y z)
    then show ?case using e by (meson tranclp.trancl_into_trancl)
  qed
qed

subsection \<open>The search for the left dependency\<close>

lemma upto_stage_take: "upto_stage s ns \<le> d \<Longrightarrow> upto_stage s (take d ns) = upto_stage s ns"
proof (induction ns arbitrary: d)
  case (Cons n ns)
  then show ?case by (cases d) (auto simp: upto_stage_def)
qed simp

lemma upto_stage_le: "upto_stage s ns \<le> length ns"
  by (simp add: upto_stage_def length_takeWhile_le)

lemma upto_stage_nth:
  assumes "sorted_wrt (<) ns" "k < length ns" shows "ns ! k \<le> s \<longleftrightarrow> k < upto_stage s ns"
  using assms
proof (induction ns arbitrary: k)
  case (Cons n ns)
  show ?case
  proof (cases k)
    case 0
    then show ?thesis by (simp add: upto_stage_def)
  next
    case (Suc j)
    then have "ns ! j \<le> s \<longleftrightarrow> j < upto_stage s ns" "n < ns ! j" using Cons by auto
    then show ?thesis using Suc by (auto simp: upto_stage_def)
  qed
qed simp

lemma left_loop_ok:
  fixes s :: int
  defines "c fs \<equiv> upto_stage s (map sf_stageNum fs)"
  assumes rep: "arr_rep a fs" and inc: "sorted_wrt (<) (map sf_stageNum fs)"
  shows "idx \<le> length fs \<Longrightarrow> iPre \<le> idx \<Longrightarrow> \<exists>r i.
     left_loop a s (int (length fs)) (int idx) 0 (int iPre) = Some (r, i, int (if idx < c fs then c fs else idx)) \<and>
     (if r > i then r else i) = int (if idx < c fs then c fs - 1 else iPre)"
proof (induction "length fs - idx" arbitrary: idx iPre)
  case 0
  moreover have "c fs \<le> length fs" using upto_stage_le [of s "map sf_stageNum fs"] by (simp add: c_def)
  ultimately show ?case by (simp add: left_loop.simps)
next
  case (Suc x)
  then have idx: "idx < length fs" by linarith
  have get: "arr_get (int idx) a = Some (fs ! idx)" using arr_get_rep [OF rep, of "int idx"] idx by simp
  have le: "sf_stageNum (fs ! j) \<le> s \<longleftrightarrow> j < c fs" if "j < length fs" for j
    using upto_stage_nth [OF inc, of j s] that by (simp add: c_def)
  have mono: "sf_stageNum (fs ! idx) < sf_stageNum (fs ! j)" if "idx < j" "j < length fs" for j
    using sorted_wrt_nth_less [OF inc, of idx j] that by simp
  have cl: "c fs \<le> length fs" using upto_stage_le [of s "map sf_stageNum fs"] by (simp add: c_def)
  consider (eq) "sf_stageNum (fs ! idx) = s" | (less) "sf_stageNum (fs ! idx) < s" | (gt) "s < sf_stageNum (fs ! idx)" by linarith
  then show ?case
  proof cases
    case eq
    have "c fs = Suc idx"
    proof (rule ccontr)
      assume "c fs \<noteq> Suc idx"
      then have "Suc idx < c fs" using le [OF idx] eq by linarith
      then have "Suc idx < length fs" "sf_stageNum (fs ! Suc idx) \<le> s" using le [of "Suc idx"] cl by auto
      then show False using mono [of "Suc idx"] eq by simp
    qed
    then show ?thesis using get eq idx Suc.prems by (subst left_loop.simps) auto
  next
    case less
    have c: "idx < c fs" using le [OF idx] less by simp
    have h: "x = length fs - Suc idx" using Suc.hyps(2) by linarith
    obtain r i where ri: "left_loop a s (int (length fs)) (int (Suc idx)) 0 (int idx) =
        Some (r, i, int (if Suc idx < c fs then c fs else Suc idx))"
      "(if r > i then r else i) = int (if Suc idx < c fs then c fs - 1 else idx)"
      using Suc.hyps(1) [of "Suc idx" idx, OF h] idx by auto
    have "left_loop a s (int (length fs)) (int idx) 0 (int iPre) = left_loop a s (int (length fs)) (int (Suc idx)) 0 (int idx)"
      using get less idx by (subst left_loop.simps) (simp add: add.commute)
    moreover have "Suc idx = c fs" if "\<not> Suc idx < c fs" using c that by linarith
    ultimately show ?thesis using ri c by (cases "Suc idx < c fs") auto
  next
    case gt
    then have "\<not> idx < c fs" using le [OF idx] by simp
    then show ?thesis using get gt idx by (subst left_loop.simps) auto
  qed
qed

end
