(* ===== verification/Pipe_Order.thy ===== *)
theory Pipe_Order
  imports Pipe_Ring Pipe_Dag
begin

text \<open>
  The hooks of the pipeline implement the paths of \<open>Two_D_Order\<close>: when the stages of a program have been executed in an order
  that respects its dag, each stage has in both orders the place that its path says, whatever the order was.
\<close>

subsection \<open>Placing the neighbours of a stage\<close>

definition node_at :: "nat list \<Rightarrow> (nat \<Rightarrow> path) \<Rightarrow> ptr \<Rightarrow> path \<Rightarrow> bool" where
  "node_at ys key p q \<longleftrightarrow> (\<exists>x. p = Some x \<and> x \<in> set ys \<and> key x = q)"

text \<open>The nodes \<open>ys\<close> with their paths grow.\<close>

definition grows :: "nat list \<Rightarrow> (nat \<Rightarrow> path) \<Rightarrow> nat list \<Rightarrow> (nat \<Rightarrow> path) \<Rightarrow> bool" where
  "grows ys key ys' key' \<longleftrightarrow> set ys \<subseteq> set ys' \<and> (\<forall>x\<in>set ys. key' x = key x)"

lemma node_at_grows: "node_at ys key p q \<Longrightarrow> grows ys key ys' key' \<Longrightarrow> node_at ys' key' p q"
  by (auto simp: node_at_def grows_def)

lemma insert_two:
  assumes rep: "rd_rep s xs" and xs: "xs e = pre @ c # post" and room: "length (xs e) + 2 < 2 ^ 31"
    and fuel: "length (xs True) + 1 \<le> fuel" "length (xs False) + 1 \<le> fuel"
  shows "\<exists>a b s1 s2. omrd_insert 1 fuel e c s = Some (a, s1) \<and> omrd_insert 1 fuel e a s1 = Some (b, s2) \<and>
     a \<notin> set (xs e) \<and> b \<notin> set (xs e) \<and> a \<noteq> b \<and> rd_rep s2 (xs(e := pre @ c # a # b # post))"
proof -
  obtain a s1 where a: "omrd_insert 1 fuel e c s = Some (a, s1)" "a \<notin> set (xs e)" "rd_rep s1 (xs(e := pre @ c # a # post))"
    using omrd_insert_ok [OF rep xs, of fuel] room fuel by auto
  let ?xs = "xs(e := pre @ c # a # post)"
  have xs1: "?xs e = (pre @ [c]) @ a # post" by simp
  have room1: "Suc (length (?xs e)) < 2 ^ 31" using room xs by simp
  have len: "length (?xs d) \<le> fuel" for d using fuel xs by (cases d; cases e) auto
  obtain b s2 where b: "omrd_insert 1 fuel e a s1 = Some (b, s2)" "b \<notin> set (?xs e)"
    "rd_rep s2 (?xs(e := (pre @ [c]) @ a # b # post))"
    using omrd_insert_ok [OF a(3) xs1 room1 len len] by blast
  have "b \<notin> set (xs e)" "a \<noteq> b" using b(2) xs by auto
  moreover have "?xs(e := (pre @ [c]) @ a # b # post) = xs(e := pre @ c # a # b # post)" by simp
  ultimately show ?thesis using a(1,2) b(1,3) by metis
qed

text \<open>What \<open>createOrder\<close> makes of one order: the node \<open>c\<close> with its two new neighbours.\<close>

definition two_more :: "nat list \<Rightarrow> (nat \<Rightarrow> path) \<Rightarrow> nat \<Rightarrow> nat \<Rightarrow> nat \<Rightarrow> nat list \<Rightarrow> (nat \<Rightarrow> path) \<Rightarrow> bool" where
  "two_more ys key c a b ys' key' \<longleftrightarrow> a \<notin> set ys \<and> b \<notin> set ys \<and> a \<noteq> b \<and> set ys' = set ys \<union> {a, b} \<and>
     length ys' = length ys + 2 \<and> key' = key(a := key c @ [First], b := key c @ [Second]) \<and> placed_by key' ys'"

lemma two_moreI:
  assumes "placed_by key (pre @ c # post)" "childless key (pre @ c # post) (key c)"
    "a \<notin> set (pre @ c # post)" "b \<notin> set (pre @ c # post)" "a \<noteq> b"
  shows "two_more (pre @ c # post) key c a b (pre @ c # a # b # post) (key(a := key c @ [First], b := key c @ [Second]))"
  using placed_by_children [OF assms] assms(3-5) by (auto simp: two_more_def)

lemma two_more_grows: "two_more ys key c a b ys' key' \<Longrightarrow> grows ys key ys' key'"
  by (auto simp: two_more_def grows_def)

lemma createOrder_ok:
  assumes rep: "rd_rep s xs" and h: "o_current (sf_rightFirst sf) = Some h" "h \<in> set (xs False)"
    and e: "o_current (sf_downFirst sf) = Some e" "e \<in> set (xs True)"
    and placed: "placed_by ek (xs True)" "placed_by hk (xs False)"
    and free: "childless ek (xs True) (ek e)" "childless hk (xs False) (hk h)"
    and room: "\<And>d. length (xs d) + 2 < 2 ^ 31" and fuel: "\<And>d. length (xs d) + 4 \<le> fuel"
  shows "\<exists>s' ed er hr hdn xs' ek' hk'.
     createOrder fuel sf s = Some (sf\<lparr>sf_rightFirst := (sf_rightFirst sf)\<lparr>o_rightCont := Some hr, o_downCont := Some hdn\<rparr>,
        sf_downFirst := (sf_downFirst sf)\<lparr>o_downCont := Some ed, o_rightCont := Some er\<rparr>\<rparr>, s') \<and>
     rd_rep s' xs' \<and> two_more (xs True) ek e ed er (xs' True) ek' \<and> two_more (xs False) hk h hr hdn (xs' False) hk'"
proof -
  obtain pre post where hx: "xs False = pre @ h # post" using h(2) by (metis split_list)
  obtain pre2 post2 where ex: "xs True = pre2 @ e # post2" using e(2) by (metis split_list)
  have f: "length (xs True) + 1 \<le> fuel" "length (xs False) + 1 \<le> fuel" using fuel [of True] fuel [of False] by linarith+
  obtain hr hdn s1 s2 where hi: "omrd_insert 1 fuel False h s = Some (hr, s1)" "omrd_insert 1 fuel False hr s1 = Some (hdn, s2)"
    "hr \<notin> set (xs False)" "hdn \<notin> set (xs False)" "hr \<noteq> hdn" "rd_rep s2 (xs(False := pre @ h # hr # hdn # post))"
    using insert_two [where e = False, OF rep hx room [of False] f] by blast
  let ?xs = "xs(False := pre @ h # hr # hdn # post)"
  have len: "length (?xs True) = length (xs True)" "length (?xs False) = length (xs False) + 2" using hx by simp_all
  have ex2: "?xs True = pre2 @ e # post2" using ex by simp
  have same: "?xs True = xs True" by simp
  have room2: "length (?xs True) + 2 < 2 ^ 31" using room [of True] by simp
  have f2: "length (?xs True) + 1 \<le> fuel" "length (?xs False) + 1 \<le> fuel"
    unfolding len using fuel [of True] fuel [of False] by linarith+
  obtain ed er s3 s4 where ei: "omrd_insert 1 fuel True e s2 = Some (ed, s3)" "omrd_insert 1 fuel True ed s3 = Some (er, s4)"
    "ed \<notin> set (xs True)" "er \<notin> set (xs True)" "ed \<noteq> er" "rd_rep s4 (?xs(True := pre2 @ e # ed # er # post2))"
    using insert_two [where e = True, OF hi(6) ex2 room2 f2] unfolding same by blast
  let ?xs' = "?xs(True := pre2 @ e # ed # er # post2)"
  have "two_more (xs True) ek e ed er (?xs' True) (ek(ed := ek e @ [First], er := ek e @ [Second]))"
    using two_moreI [of ek pre2 e post2 ed er] placed(1) free(1) ei(3-5) unfolding ex by simp
  moreover have "two_more (xs False) hk h hr hdn (?xs' False) (hk(hr := hk h @ [First], hdn := hk h @ [Second]))"
    using two_moreI [of hk pre h post hr hdn] placed(2) free(2) hi(3-5) unfolding hx by simp
  moreover have "createOrder fuel sf s = Some (sf\<lparr>sf_rightFirst := (sf_rightFirst sf)\<lparr>o_rightCont := Some hr, o_downCont := Some hdn\<rparr>,
        sf_downFirst := (sf_downFirst sf)\<lparr>o_downCont := Some ed, o_rightCont := Some er\<rparr>\<rparr>, s4)"
    unfolding createOrder_def h(1) e(1) by (simp add: hi(1,2) [simplified] ei(1,2) [simplified])
  ultimately show ?thesis using ei(6) by blast
qed

subsection \<open>Executed stages\<close>

text \<open>\<open>done i\<close> stages of iteration \<open>i\<close> have begun; iterations and stages count from 0.\<close>

definition executed :: "(nat \<Rightarrow> nat) \<Rightarrow> (nat \<times> nat) set" where
  "executed d = {(i, k). k < d i}"

text \<open>
  When stage \<open>d i\<close> of iteration \<open>i\<close> may begin, with the throttling limit \<open>L\<close>: iterations begin in order; an iteration that goes on is
  one of the last \<open>L\<close>; a stage comes after its left dependency.
\<close>

definition legal :: "pipeline \<Rightarrow> nat \<Rightarrow> (nat \<Rightarrow> nat) \<Rightarrow> nat \<Rightarrow> bool" where
  "legal prog L d i \<longleftrightarrow> d i < length (prog i) \<and>
     (if d i = 0 then \<forall>j. 0 < d j \<longleftrightarrow> j < i else \<forall>j. 0 < d j \<longrightarrow> j < i + L) \<and>
     (\<forall>q. full_dep prog i (d i) = Some q \<longrightarrow> q < d (i - 1))"

definition keys_of :: "(nat \<times> nat) set \<Rightarrow> (nat \<Rightarrow> nat \<Rightarrow> path) \<Rightarrow> nat list \<Rightarrow> (nat \<Rightarrow> path) \<Rightarrow> bool" where
  "keys_of D path ys key \<longleftrightarrow> (\<forall>x\<in>set ys. key x = [] \<or> (\<exists>i k t. (i, k) \<in> D \<and> key x = path i k @ [t]))"

definition closed_paths :: "(nat \<times> nat) set \<Rightarrow> (nat \<Rightarrow> nat \<Rightarrow> path) \<Rightarrow> bool" where
  "closed_paths D path \<longleftrightarrow> (\<forall>i k. (i, k) \<in> D \<longrightarrow> path i k = [] \<or> (\<exists>j m t. (j, m) \<in> D \<and> path i k = path j m @ [t]))"

lemma closed_paths_prefix:
  assumes closed: "closed_paths D path" shows "(i, k) \<in> D \<Longrightarrow> path i k = p @ z \<Longrightarrow> p = [] \<or> (\<exists>j m. (j, m) \<in> D \<and> path j m = p)"
proof (induction z arbitrary: i k rule: rev_induct)
  case Nil
  then show ?case by auto
next
  case (snoc u z)
  then have "path i k \<noteq> []" by simp
  then obtain j m t where "(j, m) \<in> D" "path i k = path j m @ [t]" using closed snoc.prems(1) unfolding closed_paths_def by blast
  moreover from this have "path j m = p @ z" using snoc.prems(2) by (metis append.assoc butlast_snoc)
  ultimately show ?case using snoc.IH by blast
qed

text \<open>A stage that has not begun has no neighbours yet.\<close>

lemma childless_new:
  assumes keys: "keys_of D path ys key" and closed: "closed_paths D path" and new: "\<And>j m. (j, m) \<in> D \<Longrightarrow> path j m \<noteq> p"
    and root: "p = [] \<Longrightarrow> D = {}"
  shows "childless key ys p"
  unfolding childless_def
proof (intro ballI allI impI notI)
  fix x z assume x: "x \<in> set ys" "z \<noteq> []" "key x = p @ z"
  then obtain i k t where ik: "(i, k) \<in> D" "key x = path i k @ [t]" using keys unfolding keys_of_def by fastforce
  then have "path i k = p @ butlast z" using x(2,3) by (metis butlast_append butlast_snoc)
  from closed_paths_prefix [OF closed ik(1) this] show False using new root ik(1) by auto
qed

lemma epath_Suc: "epath i (Suc k) = epath i k @ [First]" "epath (Suc i) 0 = epath i 0 @ [Second]"
  by (simp_all add: epath_def replicate_append_same)

lemma epath_Nil: "epath i k = [] \<longleftrightarrow> i = 0 \<and> k = 0"
  by (auto simp: epath_def)

definition stages_ok :: "pipeline \<Rightarrow> nat \<Rightarrow> (nat \<Rightarrow> nat) \<Rightarrow> bool" where
  "stages_ok prog m d \<longleftrightarrow> (\<forall>i. 0 < d i \<longleftrightarrow> i < m) \<and> (\<forall>i. d i \<le> length (prog i)) \<and>
     (\<forall>i k q. k < d i \<longrightarrow> pdep prog i k = Some q \<longrightarrow> q < d (i - 1))"

lemma epaths_closed:
  assumes "stages_ok prog m d" shows "closed_paths (executed d) epath"
  unfolding closed_paths_def
proof (intro allI impI)
  fix i k assume ik: "(i, k) \<in> executed d"
  show "epath i k = [] \<or> (\<exists>j m t. (j, m) \<in> executed d \<and> epath i k = epath j m @ [t])"
  proof (cases k)
    case (Suc k')
    then have "(i, k') \<in> executed d" using ik by (simp add: executed_def)
    with Suc epath_Suc(1) show ?thesis by blast
  next
    case 0
    show ?thesis
    proof (cases i)
      case (Suc i')
      have "i < m" using ik assms by (auto simp: executed_def stages_ok_def)
      then have "0 < d i'" using Suc assms by (simp add: stages_ok_def)
      then have "(i', 0) \<in> executed d" by (simp add: executed_def)
      with Suc 0 epath_Suc(2) show ?thesis by blast
    qed (use 0 in \<open>simp add: epath_def\<close>)
  qed
qed

lemma hpaths_closed:
  assumes "stages_ok prog m d" shows "closed_paths (executed d) (hpath (pdep prog))"
  unfolding closed_paths_def
proof (intro allI impI)
  fix i k assume ik: "(i, k) \<in> executed d"
  show "hpath (pdep prog) i k = [] \<or> (\<exists>j m t. (j, m) \<in> executed d \<and> hpath (pdep prog) i k = hpath (pdep prog) j m @ [t])"
  proof (cases "pdep prog i k")
    case (Some q)
    then have "q < d (i - 1)" using ik assms unfolding stages_ok_def executed_def by blast
    then have "(i - 1, q) \<in> executed d" by (simp add: executed_def)
    moreover have "i \<noteq> 0" using pdep_full [OF Some] unfolding full_dep_def by (metis option.distinct(1))
    ultimately show ?thesis using hpath.simps [of "pdep prog" i k] Some by auto
  next
    case None
    show ?thesis
    proof (cases k)
      case 0
      then have "i = 0" using None by (auto simp: pdep_def full_dep_def split: if_splits)
      then show ?thesis using 0 None by (simp add: hpath_simps)
    next
      case (Suc k')
      then have "(i, k') \<in> executed d" using ik by (simp add: executed_def)
      then show ?thesis using hpath_simps(2) [where dep = "pdep prog"] None Suc by blast
    qed
  qed
qed

lemma hpath_Nil:
  assumes "hpath (pdep prog) i k = []" shows "i = 0 \<and> k = 0"
proof (rule ccontr)
  assume "\<not> ?thesis"
  then have "hpath (pdep prog) i k \<noteq> hpath (pdep prog) 0 0" using hpath_neq [OF pdep_ok, of i k 0 0] by blast
  moreover have "hpath (pdep prog) 0 0 = []" by (simp add: hpath_simps pdep_def full_dep_def)
  ultimately show False using assms by simp
qed

text \<open>The executed stages after one more.\<close>

definition one_more :: "(nat \<Rightarrow> nat) \<Rightarrow> nat \<Rightarrow> nat \<Rightarrow> nat" where
  "one_more d i = d(i := Suc (d i))"

lemma executed_more: "executed (one_more d i) = insert (i, d i) (executed d)"
  by (auto simp: executed_def one_more_def less_Suc_eq split: if_splits)

lemma stages_ok_more:
  assumes ok: "stages_ok prog m d" and legal: "legal prog L d i"
  shows "stages_ok prog (if d i = 0 then Suc m else m) (one_more d i)" "d i = 0 \<Longrightarrow> i = m"
proof -
  show im: "i = m" if "d i = 0"
  proof -
    have "0 < d j \<longleftrightarrow> j < i" "0 < d j \<longleftrightarrow> j < m" for j using legal that ok by (auto simp: legal_def stages_ok_def)
    then show ?thesis by (metis linorder_neqE_nat less_irrefl)
  qed
  have mono: "d j \<le> one_more d i j" for j by (simp add: one_more_def)
  have "q < one_more d i (j - 1)" if q: "k < one_more d i j" "pdep prog j k = Some q" for j k q
  proof (cases "k < d j")
    case True
    then have "q < d (j - 1)" using ok q(2) unfolding stages_ok_def by blast
    then show ?thesis using mono [of "j - 1"] by linarith
  next
    case False
    then have "j = i" "k = d i" using q(1) by (auto simp: one_more_def split: if_splits)
    then have "q < d (j - 1)" using legal pdep_full [OF q(2)] unfolding legal_def by blast
    then show ?thesis using mono [of "j - 1"] by linarith
  qed
  moreover have "0 < one_more d i j \<longleftrightarrow> j < (if d i = 0 then Suc m else m)" for j
    using ok im by (auto simp: stages_ok_def one_more_def)
  moreover have "one_more d i j \<le> length (prog j)" for j using ok legal by (auto simp: stages_ok_def one_more_def legal_def)
  ultimately show "stages_ok prog (if d i = 0 then Suc m else m) (one_more d i)" unfolding stages_ok_def by blast
qed

subsection \<open>The orders\<close>

definition order_inv :: "pipeline \<Rightarrow> nat \<Rightarrow> (nat \<Rightarrow> nat) \<Rightarrow> nat \<Rightarrow> rd_state \<Rightarrow> (bool \<Rightarrow> nat list) \<Rightarrow> (nat \<Rightarrow> path) \<Rightarrow> (nat \<Rightarrow> path) \<Rightarrow> bool" where
  "order_inv prog m d N s xs ek hk \<longleftrightarrow> stages_ok prog m d \<and> rd_rep s xs \<and> (\<forall>e. length (xs e) = 2 * N + 1) \<and>
     placed_by ek (xs True) \<and> placed_by hk (xs False) \<and>
     keys_of (executed d) epath (xs True) ek \<and> keys_of (executed d) (hpath (pdep prog)) (xs False) hk"

text \<open>The stage frame has the nodes of its stage.\<close>

definition frame_ok :: "pipeline \<Rightarrow> (bool \<Rightarrow> nat list) \<Rightarrow> (nat \<Rightarrow> path) \<Rightarrow> (nat \<Rightarrow> path) \<Rightarrow> stage_frame \<Rightarrow> nat \<Rightarrow> nat \<Rightarrow> bool" where
  "frame_ok prog xs ek hk f i k \<longleftrightarrow>
     node_at (xs True) ek (o_current (sf_downFirst f)) (epath i k) \<and>
     node_at (xs True) ek (o_downCont (sf_downFirst f)) (epath i k @ [First]) \<and>
     node_at (xs True) ek (o_rightCont (sf_downFirst f)) (epath i k @ [Second]) \<and>
     node_at (xs False) hk (o_current (sf_rightFirst f)) (hpath (pdep prog) i k) \<and>
     node_at (xs False) hk (o_rightCont (sf_rightFirst f)) (hpath (pdep prog) i k @ [First]) \<and>
     node_at (xs False) hk (o_downCont (sf_rightFirst f)) (hpath (pdep prog) i k @ [Second])"

definition both_grow :: "(bool \<Rightarrow> nat list) \<Rightarrow> (nat \<Rightarrow> path) \<Rightarrow> (nat \<Rightarrow> path) \<Rightarrow> (bool \<Rightarrow> nat list) \<Rightarrow> (nat \<Rightarrow> path) \<Rightarrow> (nat \<Rightarrow> path) \<Rightarrow> bool" where
  "both_grow xs ek hk xs' ek' hk' \<longleftrightarrow> grows (xs True) ek (xs' True) ek' \<and> grows (xs False) hk (xs' False) hk'"

lemma frame_ok_grows: "frame_ok prog xs ek hk f i k \<Longrightarrow> both_grow xs ek hk xs' ek' hk' \<Longrightarrow> frame_ok prog xs' ek' hk' f i k"
  unfolding frame_ok_def both_grow_def by (blast intro: node_at_grows)

lemma keys_of_more:
  assumes keys: "keys_of (executed d) path ys key" and two: "two_more ys key c a b ys' key'" and c: "key c = path i (d i)"
  shows "keys_of (executed (one_more d i)) path ys' key'"
  unfolding keys_of_def executed_more
proof
  fix x assume x: "x \<in> set ys'"
  show "key' x = [] \<or> (\<exists>j k t. (j, k) \<in> insert (i, d i) (executed d) \<and> key' x = path j k @ [t])"
  proof (cases "x \<in> set ys")
    case True
    then have "key' x = key x" using two_more_grows [OF two] by (simp add: grows_def)
    then show ?thesis using keys True unfolding keys_of_def by fastforce
  next
    case False
    then have "x = a \<or> x = b" using x two by (auto simp: two_more_def)
    then show ?thesis using two c unfolding two_more_def by auto
  qed
qed

lemma two_more_nodes:
  assumes "two_more ys key c a b ys' key'" "c \<in> set ys"
  shows "node_at ys' key' (Some c) (key c)" "node_at ys' key' (Some a) (key c @ [First])" "node_at ys' key' (Some b) (key c @ [Second])"
  using assms by (auto simp: two_more_def node_at_def)

text \<open>The next stage of an iteration, whose two nodes are in place, gets its neighbours.\<close>

lemma order_step:
  assumes inv: "order_inv prog m d N s xs ek hk" and legal: "legal prog L d i"
    and down: "node_at (xs True) ek dn (epath i (d i))" and right: "node_at (xs False) hk rt (hpath (pdep prog) i (d i))"
    and room: "2 * N + 3 < 2 ^ 31" "2 * N + 5 \<le> fuel"
  shows "\<exists>sf s' xs' ek' hk'. createOrder fuel (stage_frame_at iterNum stage rt dn) s = Some (sf, s') \<and> sf_stageNum sf = stage \<and>
     order_inv prog (if d i = 0 then Suc m else m) (one_more d i) (Suc N) s' xs' ek' hk' \<and> both_grow xs ek hk xs' ek' hk' \<and>
     frame_ok prog xs' ek' hk' sf i (d i)"
proof -
  have i: "stages_ok prog m d" "rd_rep s xs" "\<And>e. length (xs e) = 2 * N + 1" "placed_by ek (xs True)" "placed_by hk (xs False)"
    "keys_of (executed d) epath (xs True) ek" "keys_of (executed d) (hpath (pdep prog)) (xs False) hk"
    using inv by (auto simp: order_inv_def)
  note ok' = stages_ok_more [OF i(1) legal]
  obtain e where e: "dn = Some e" "e \<in> set (xs True)" "ek e = epath i (d i)" using down by (auto simp: node_at_def)
  obtain h where h: "rt = Some h" "h \<in> set (xs False)" "hk h = hpath (pdep prog) i (d i)" using right by (auto simp: node_at_def)
  have new: "(j, k) \<noteq> (i, d i)" if "(j, k) \<in> executed d" for j k using that by (auto simp: executed_def)
  have none: "executed d = {}" if "i = 0 \<and> d i = 0"
  proof -
    have "m = 0" using ok'(2) that by metis
    then have "d j = 0" for j using i(1) by (simp add: stages_ok_def)
    then show ?thesis by (simp add: executed_def)
  qed
  have ec: "childless ek (xs True) (ek e)" unfolding e(3)
    by (rule childless_new [OF i(6) epaths_closed [OF i(1)]])
      (use new none epath_inj epath_Nil in blast)+
  have hc: "childless hk (xs False) (hk h)" unfolding h(3)
  proof (rule childless_new [OF i(7) hpaths_closed [OF i(1)]])
    show "hpath (pdep prog) j k \<noteq> hpath (pdep prog) i (d i)" if "(j, k) \<in> executed d" for j k
      using hpath_neq [OF pdep_ok] new [OF that] by blast
    show "executed d = {}" if "hpath (pdep prog) i (d i) = []" using none hpath_Nil [OF that] by blast
  qed
  let ?sf = "stage_frame_at iterNum stage rt dn"
  have cur: "o_current (sf_rightFirst ?sf) = Some h" "o_current (sf_downFirst ?sf) = Some e"
    by (simp_all add: stage_frame_at_def no_order_def e(1) h(1))
  have r: "\<And>e. length (xs e) + 2 < 2 ^ 31" "\<And>e. length (xs e) + 4 \<le> fuel" unfolding i(3) using room by simp_all
  obtain s' ed er hr hdn xs' ek' hk' where c:
     "createOrder fuel ?sf s = Some (?sf\<lparr>sf_rightFirst := (sf_rightFirst ?sf)\<lparr>o_rightCont := Some hr, o_downCont := Some hdn\<rparr>,
        sf_downFirst := (sf_downFirst ?sf)\<lparr>o_downCont := Some ed, o_rightCont := Some er\<rparr>\<rparr>, s')"
     "rd_rep s' xs'" "two_more (xs True) ek e ed er (xs' True) ek'" "two_more (xs False) hk h hr hdn (xs' False) hk'"
    using createOrder_ok [OF i(2) cur(1) h(2) cur(2) e(2) i(4,5) ec hc r] by blast
  let ?f = "?sf\<lparr>sf_rightFirst := (sf_rightFirst ?sf)\<lparr>o_rightCont := Some hr, o_downCont := Some hdn\<rparr>,
        sf_downFirst := (sf_downFirst ?sf)\<lparr>o_downCont := Some ed, o_rightCont := Some er\<rparr>\<rparr>"
  have len: "length (xs' e) = 2 * Suc N + 1" for e
    using c(3,4) i(3) [of True] i(3) [of False] by (cases e) (simp_all add: two_more_def)
  have "order_inv prog (if d i = 0 then Suc m else m) (one_more d i) (Suc N) s' xs' ek' hk'"
    unfolding order_inv_def using ok'(1) c(2) len keys_of_more [OF i(6) c(3) e(3)] keys_of_more [OF i(7) c(4) h(3)] c(3,4)
    unfolding two_more_def by blast
  moreover have "both_grow xs ek hk xs' ek' hk'" using two_more_grows c(3,4) by (simp add: both_grow_def)
  moreover have "frame_ok prog xs' ek' hk' ?f i (d i)"
    using two_more_nodes [OF c(3) e(2)] two_more_nodes [OF c(4) h(2)] cur by (simp add: frame_ok_def e(3) h(3))
  moreover have "sf_stageNum ?f = stage" by (simp add: stage_frame_at_def)
  ultimately show ?thesis using c(1) by blast
qed

subsection \<open>The hooks\<close>

text \<open>The list \<open>l\<close> of iteration \<open>j\<close>, whose \<open>index\<close> is behind the last dependency of the stages up to \<open>k\<close>.\<close>

definition list_ok :: "pipeline \<Rightarrow> (nat \<Rightarrow> nat) \<Rightarrow> (bool \<Rightarrow> nat list) \<Rightarrow> (nat \<Rightarrow> path) \<Rightarrow> (nat \<Rightarrow> path) \<Rightarrow> nat \<Rightarrow> nat \<Rightarrow>
    stage_frame list \<Rightarrow> stage_list \<Rightarrow> bool" where
  "list_ok prog d xs ek hk j k fs l \<longleftrightarrow> arr_rep (sl_items l) fs \<and> map sf_stageNum fs = map fst (take (d j) (prog j)) \<and>
     length fs = d j \<and> sl_index l = int (seen prog j k) + 1 \<and> (\<forall>k<d j. frame_ok prog xs ek hk (fs ! k) j k)"

definition slot_ok :: "pipeline \<Rightarrow> (nat \<Rightarrow> nat) \<Rightarrow> (bool \<Rightarrow> nat list) \<Rightarrow> (nat \<Rightarrow> path) \<Rightarrow> (nat \<Rightarrow> path) \<Rightarrow> nat \<Rightarrow> iterations \<Rightarrow> nat \<Rightarrow> bool" where
  "slot_ok prog d xs ek hk n it j \<longleftrightarrow> (\<exists>l fs. it_p it ! (j mod n) = Some l \<and> list_ok prog d xs ek hk j (d j - 1) fs l)"

definition pipe_inv :: "pipeline \<Rightarrow> nat \<Rightarrow> nat \<Rightarrow> (nat \<Rightarrow> nat) \<Rightarrow> nat \<Rightarrow> (bool \<Rightarrow> nat list) \<Rightarrow> (nat \<Rightarrow> path) \<Rightarrow> (nat \<Rightarrow> path) \<Rightarrow> pipe_rd \<Rightarrow> bool" where
  "pipe_inv prog n m d N xs ek hk st \<longleftrightarrow> order_inv prog m d N (pr_orders st) xs ek hk \<and> ring_rep n m (pr_iterations st) \<and>
     (\<forall>j. j < m \<longrightarrow> m \<le> j + n \<longrightarrow> slot_ok prog d xs ek hk n (pr_iterations st) j) \<and>
     (m = 0 \<longrightarrow> node_at (xs True) ek (m_base (ds_of True (pr_orders st))) [] \<and>
               node_at (xs False) hk (m_base (ds_of False (pr_orders st))) [])"

lemma list_ok_grows:
  "list_ok prog d xs ek hk j k fs l \<Longrightarrow> both_grow xs ek hk xs' ek' hk' \<Longrightarrow> d' j = d j \<Longrightarrow> list_ok prog d' xs' ek' hk' j k fs l"
  unfolding list_ok_def by (auto intro: frame_ok_grows)

lemma slot_ok_grows:
  "slot_ok prog d xs ek hk n it j \<Longrightarrow> both_grow xs ek hk xs' ek' hk' \<Longrightarrow> d' j = d j \<Longrightarrow> it_p it' ! (j mod n) = it_p it ! (j mod n) \<Longrightarrow>
   slot_ok prog d' xs' ek' hk' n it' j"
  unfolding slot_ok_def using list_ok_grows by (metis (no_types, lifting))

lemma list_ok_append:
  assumes l: "list_ok prog d xs ek hk i (d i) fs l" and f: "frame_ok prog xs' ek' hk' f i (d i)" "sf_stageNum f = fst (prog i ! d i)"
    and grow: "both_grow xs ek hk xs' ek' hk'" and i: "d i < length (prog i)"
    and l': "sl_items l' = arr_append f (sl_items l)" "sl_index l' = sl_index l"
  shows "list_ok prog (one_more d i) xs' ek' hk' i (one_more d i i - 1) (fs @ [f]) l'"
proof -
  have o: "arr_rep (sl_items l) fs" "map sf_stageNum fs = map fst (take (d i) (prog i))" "length fs = d i"
    "sl_index l = int (seen prog i (d i)) + 1" "\<And>k. k < d i \<Longrightarrow> frame_ok prog xs ek hk (fs ! k) i k"
    using l by (auto simp: list_ok_def)
  have "frame_ok prog xs' ek' hk' ((fs @ [f]) ! k) i k" if "k < one_more d i i" for k
    using that o(3,5) f(1) frame_ok_grows [OF _ grow] by (cases "k < d i") (auto simp: one_more_def nth_append less_Suc_eq)
  then show ?thesis
    using o(1-4) f(2) i l' arr_append_rep [OF o(1), of f]
    by (simp add: list_ok_def one_more_def take_Suc_conv_app_nth)
qed

lemma append_stage_ok:
  assumes inv: "order_inv prog m d N (pr_orders st) xs ek hk" and legal: "legal prog L d i" and started: "0 < d i"
    and ring: "ring_rep n m (pr_iterations st)" and i: "i < m" "m \<le> i + n"
    and l: "it_p (pr_iterations st) ! (i mod n) = Some l" "list_ok prog d xs ek hk i (d i) fs l"
    and others: "\<And>j. j \<noteq> i \<Longrightarrow> j < m \<Longrightarrow> m \<le> j + n \<Longrightarrow> slot_ok prog d xs ek hk n (pr_iterations st) j"
    and down: "node_at (xs True) ek dn (epath i (d i))" and right: "node_at (xs False) hk rt (hpath (pdep prog) i (d i))"
    and room: "2 * N + 3 < 2 ^ 31" "2 * N + 5 \<le> fuel"
  shows "\<exists>st' xs' ek' hk'. append_stage fuel (int i + 1) (fst (prog i ! d i)) rt dn st = Some st' \<and>
     pipe_inv prog n m (one_more d i) (Suc N) xs' ek' hk' st' \<and> both_grow xs ek hk xs' ek' hk' \<and> pr_curDown st' = dn \<and> pr_curRight st' = rt"
proof -
  obtain sf s' xs' ek' hk' where c: "createOrder fuel (stage_frame_at (int i + 1) (fst (prog i ! d i)) rt dn) (pr_orders st) = Some (sf, s')"
    "sf_stageNum sf = fst (prog i ! d i)" "order_inv prog m (one_more d i) (Suc N) s' xs' ek' hk'"
    "both_grow xs ek hk xs' ek' hk'" "frame_ok prog xs' ek' hk' sf i (d i)"
    using order_step [OF inv legal down right room, of "int i + 1" "fst (prog i ! d i)"] started by auto
  let ?l = "l\<lparr>sl_items := arr_append sf (sl_items l), sl_stageNum := fst (prog i ! d i)\<rparr>"
  let ?it = "(pr_iterations st)\<lparr>it_p := (it_p (pr_iterations st))[i mod n := Some ?l]\<rparr>"
  let ?st = "st\<lparr>pr_orders := s', pr_iterations := ?it, pr_curIterNum := int i + 1, pr_curStageNum := fst (prog i ! d i),
                pr_curRight := rt, pr_curDown := dn\<rparr>"
  have p: "length (it_p (pr_iterations st)) = n" "2 \<le> n" using ring by (simp_all add: ring_rep_def)
  have "append_stage fuel (int i + 1) (fst (prog i ! d i)) rt dn st = Some ?st"
    using c(1) getStageFrameList_ring [OF ring, of i] setStageFrameList_ring [OF ring, of i ?l] l(1)
    by (simp add: append_stage_def)
  moreover have "pipe_inv prog n m (one_more d i) (Suc N) xs' ek' hk' ?st"
    unfolding pipe_inv_def
  proof (intro conjI allI impI)
    show "order_inv prog m (one_more d i) (Suc N) (pr_orders ?st) xs' ek' hk'" using c(3) by simp
    show "ring_rep n m (pr_iterations ?st)" using ring_rep_upd_p [OF ring, of "(it_p (pr_iterations st))[i mod n := Some ?l]"] p by simp
    show "slot_ok prog (one_more d i) xs' ek' hk' n (pr_iterations ?st) j" if j: "j < m" "m \<le> j + n" for j
    proof (cases "j = i")
      case True
      have "d i < length (prog i)" using legal by (simp add: legal_def)
      from list_ok_append [OF l(2) c(5,2,4) this, of ?l] p show ?thesis
        unfolding slot_ok_def True by (intro exI [of _ ?l] exI [of _ "fs @ [sf]"]) simp
    next
      case False
      from slots_differ [OF j i False] have "it_p (pr_iterations ?st) ! (j mod n) = it_p (pr_iterations st) ! (j mod n)" by simp
      from slot_ok_grows [OF others [OF False j] c(4) _ this] False show ?thesis by (simp add: one_more_def)
    qed
    assume "m = 0"
    with i(1) show "node_at (xs' True) ek' (m_base (ds_of True (pr_orders ?st))) []"
      "node_at (xs' False) hk' (m_base (ds_of False (pr_orders ?st))) []" by simp_all
  qed
  ultimately show ?thesis using c(4) by (intro exI [of _ ?st] exI conjI) simp_all
qed

text \<open>The parent of the next stage: the nodes that it offers below it.\<close>

lemma parent_nodes:
  assumes l: "list_ok prog d xs ek hk i k' fs l" and started: "0 < d i"
  shows "arr_get (arr_length (sl_items l) - 1) (sl_items l) = Some (fs ! (d i - 1))"
    and "node_at (xs True) ek (o_downCont (sf_downFirst (fs ! (d i - 1)))) (epath i (d i))"
    and "pdep prog i (d i) = None \<Longrightarrow>
         node_at (xs False) hk (o_downCont (sf_rightFirst (fs ! (d i - 1)))) (hpath (pdep prog) i (d i))"
proof -
  obtain k where k: "d i = Suc k" using started by (cases "d i") auto
  have o: "arr_rep (sl_items l) fs" "length fs = d i" "frame_ok prog xs ek hk (fs ! k) i k"
    using l k by (auto simp: list_ok_def)
  show "arr_get (arr_length (sl_items l) - 1) (sl_items l) = Some (fs ! (d i - 1))"
    using arr_get_rep [OF o(1)] arr_length_rep [OF o(1)] o(2) k by simp
  show "node_at (xs True) ek (o_downCont (sf_downFirst (fs ! (d i - 1)))) (epath i (d i))"
    using o(3) k by (simp add: frame_ok_def epath_Suc(1))
  show "node_at (xs False) hk (o_downCont (sf_rightFirst (fs ! (d i - 1)))) (hpath (pdep prog) i (d i))" if "pdep prog i (d i) = None"
    using o(3) k hpath_simps(2) [where dep = "pdep prog", of i k] that by (simp add: frame_ok_def)
qed

lemma legal_window:
  assumes "legal prog L d i" "0 < d i" "stages_ok prog m d" shows "i < m" "m \<le> i + L"
proof -
  show "i < m" using assms(2,3) by (simp add: stages_ok_def)
  then have "0 < d (m - 1)" using assms(3) by (simp add: stages_ok_def)
  then have "m - 1 < i + L" using assms(1,2) by (auto simp: legal_def)
  then show "m \<le> i + L" by linarith
qed

lemma cilkStage_ok:
  assumes inv: "pipe_inv prog (Suc L) m d N xs ek hk st" and legal: "legal prog L d i" and started: "0 < d i"
    and plain: "full_dep prog i (d i) = None" and room: "2 * N + 3 < 2 ^ 31" "2 * N + 5 \<le> fuel"
  shows "\<exists>st' xs' ek' hk'. cilkStage fuel (int i + 1) (fst (prog i ! d i)) st = Some st' \<and>
     pipe_inv prog (Suc L) m (one_more d i) (Suc N) xs' ek' hk' st' \<and> both_grow xs ek hk xs' ek' hk' \<and>
     node_at (xs True) ek (pr_curDown st') (epath i (d i)) \<and> node_at (xs False) hk (pr_curRight st') (hpath (pdep prog) i (d i))"
proof -
  have o: "order_inv prog m d N (pr_orders st) xs ek hk" "ring_rep (Suc L) m (pr_iterations st)"
    "\<And>j. j < m \<Longrightarrow> m \<le> j + Suc L \<Longrightarrow> slot_ok prog d xs ek hk (Suc L) (pr_iterations st) j"
    using inv by (auto simp: pipe_inv_def)
  have w: "i < m" "m \<le> i + L" using legal_window [OF legal started] o(1) by (auto simp: order_inv_def)
  obtain l fs where l: "it_p (pr_iterations st) ! (i mod Suc L) = Some l" "list_ok prog d xs ek hk i (d i - 1) fs l"
    using o(3) [of i] w by (auto simp: slot_ok_def)
  have none: "pdep prog i (d i) = None" using plain by (simp add: pdep_def)
  have "seen prog i (d i) = seen prog i (d i - 1)" using plain started by (cases "d i") simp_all
  then have l2: "list_ok prog d xs ek hk i (d i) fs l" using l(2) by (simp add: list_ok_def)
  note p = parent_nodes [OF l2 started]
  have "cilkStage fuel (int i + 1) (fst (prog i ! d i)) st =
      append_stage fuel (int i + 1) (fst (prog i ! d i)) (o_downCont (sf_rightFirst (fs ! (d i - 1)))) (o_downCont (sf_downFirst (fs ! (d i - 1)))) st"
    using getStageFrameList_ring [OF o(2), of i] l(1) p(1) by (simp add: cilkStage_def)
  moreover have "slot_ok prog d xs ek hk (Suc L) (pr_iterations st) j" if "j \<noteq> i" "j < m" "m \<le> j + Suc L" for j
    using o(3) that by blast
  moreover have "m \<le> i + Suc L" using w(2) by simp
  ultimately obtain st' xs' ek' hk' where "cilkStage fuel (int i + 1) (fst (prog i ! d i)) st = Some st'"
     "pipe_inv prog (Suc L) m (one_more d i) (Suc N) xs' ek' hk' st'" "both_grow xs ek hk xs' ek' hk'"
     "pr_curDown st' = o_downCont (sf_downFirst (fs ! (d i - 1)))" "pr_curRight st' = o_downCont (sf_rightFirst (fs ! (d i - 1)))"
    using append_stage_ok [OF o(1) legal started o(2) w(1) _ l(1) l2 _ p(2) p(3) [OF none] room] by metis
  then show ?thesis using p(2) p(3) [OF none] by metis
qed

text \<open>\<open>getLeftDependency\<close> finds the dependency, or 0 if an earlier one implies it.\<close>

lemma getLeftDependency_ok:
  assumes prog: "pipeline_ok prog" and ring: "ring_rep (Suc L) m it" and w: "Suc i < m" "m \<le> Suc i + L"
    and cur: "it_p it ! (Suc i mod Suc L) = Some l" "list_ok prog d xs ek hk (Suc i) k fs l"
    and pre: "it_p it ! (i mod Suc L) = Some l0" "list_ok prog d xs ek hk i k0 fs0 l0"
    and q: "full_dep prog (Suc i) (Suc k) = Some q" "q < d i"
  shows "getLeftDependency (int (Suc i) + 1) (fst (prog (Suc i) ! Suc k)) it =
    Some (int (case pdep prog (Suc i) (Suc k) of None \<Rightarrow> 0 | Some q \<Rightarrow> q),
          it\<lparr>it_p := (it_p it)[Suc i mod Suc L := Some (l\<lparr>sl_index := int (seen prog (Suc i) (Suc k)) + 1\<rparr>)]\<rparr>)"
proof -
  let ?s = "fst (prog (Suc i) ! Suc k)"
  have o: "arr_rep (sl_items l0) fs0" "map sf_stageNum fs0 = map fst (take (d i) (prog i))" "length fs0 = d i"
    using pre(2) by (auto simp: list_ok_def)
  have idx: "sl_index l = int (Suc (seen prog (Suc i) k))" using cur(2) by (simp add: list_ok_def)
  have inc: "sorted_wrt (<) (map fst (prog i))" and ne: "prog i \<noteq> []" using prog by (auto simp: pipeline_ok_def)
  have qc: "Suc k < length (prog (Suc i))" "q = upto_stage ?s (map fst (prog i)) - 1"
    using q(1) by (auto simp: full_dep_def split: if_splits)
  have s0: "0 \<le> ?s"
  proof -
    have so: "sorted_wrt (<) (map fst (prog (Suc i)))" and z: "fst (prog (Suc i) ! 0) = 0"
      using prog by (auto simp: pipeline_ok_def)
    show ?thesis using sorted_wrt_nth_less [OF so, of 0 "Suc k"] qc(1) z by (cases "prog (Suc i)") auto
  qed
  have c1: "0 < upto_stage ?s (map fst (prog i))"
  proof -
    have "fst (prog i ! 0) = 0" using prog by (simp add: pipeline_ok_def)
    then show ?thesis using s0 ne by (cases "prog i") (auto simp: upto_stage_def)
  qed
  have c: "upto_stage ?s (map sf_stageNum fs0) = Suc q"
  proof -
    have "upto_stage ?s (map fst (prog i)) \<le> d i" using q(2) c1 qc(2) by linarith
    then have "upto_stage ?s (take (d i) (map fst (prog i))) = upto_stage ?s (map fst (prog i))" by (rule upto_stage_take)
    then show ?thesis using o(2) c1 qc(2) by (simp add: take_map)
  qed
  have inc0: "sorted_wrt (<) (map sf_stageNum fs0)" unfolding o(2) take_map [symmetric] using inc by (rule sorted_wrt_take)
  have seen_lt: "seen prog (Suc i) k < d i \<or> d i \<le> seen prog (Suc i) k" by linarith
  let ?x = "Suc (seen prog (Suc i) k)"
  show ?thesis
  proof (cases "?x \<le> d i")
    case True
    obtain r p where lo: "left_loop (sl_items l0) ?s (int (length fs0)) (int ?x) 0 0 = Some (r, p, int (if ?x < Suc q then Suc q else ?x))"
      "(if r > p then r else p) = int (if ?x < Suc q then Suc q - 1 else 0)"
      using left_loop_ok [OF o(1) inc0, of ?x 0 ?s] True o(3) unfolding c by auto
    have "int (if ?x < Suc q then Suc q else ?x) = int (seen prog (Suc i) (Suc k)) + 1" using q(1) by auto
    moreover have "(if ?x < Suc q then Suc q - 1 else 0) = (case pdep prog (Suc i) (Suc k) of None \<Rightarrow> 0 | Some q \<Rightarrow> q)"
      using q(1) by (auto simp: pdep_def)
    moreover have "getStageFrameList (int (Suc i) + 1 - 1) it = Some l0"
      using getStageFrameList_ring [OF ring, of i] pre(1) by (simp add: add.commute)
    ultimately show ?thesis
      using lo idx cur(1) getStageFrameList_ring [OF ring, of "Suc i"]
        setStageFrameList_ring [OF ring, of "Suc i" "l\<lparr>sl_index := int (seen prog (Suc i) (Suc k)) + 1\<rparr>"]
        arr_length_rep [OF o(1)]
      by (simp add: getLeftDependency_def)
  next
    case False
    then have "\<not> ?x < Suc q" using q(2) by linarith
    then have s: "seen prog (Suc i) (Suc k) = seen prog (Suc i) k" "pdep prog (Suc i) (Suc k) = None" using q(1) by (auto simp: pdep_def)
    have comm: "1 + int (seen prog (Suc i) k) = int (seen prog (Suc i) k) + 1" by simp
    have lo: "left_loop (sl_items l0) ?s (int (length fs0)) (int ?x) 0 0 = Some (0, 0, int ?x)"
      using False o(3) by (subst left_loop.simps) simp
    moreover have "getStageFrameList (int (Suc i) + 1 - 1) it = Some l0"
      using getStageFrameList_ring [OF ring, of i] pre(1) by (simp add: add.commute)
    ultimately show ?thesis
      using s idx cur(1) getStageFrameList_ring [OF ring, of "Suc i"]
        setStageFrameList_ring [OF ring, of "Suc i" "l\<lparr>sl_index := int (seen prog (Suc i) (Suc k)) + 1\<rparr>"]
        arr_length_rep [OF o(1)]
      by (simp add: getLeftDependency_def comm del: seen.simps)
  qed
qed

lemma cilkStageWait_ok:
  assumes prog: "pipeline_ok prog" and inv: "pipe_inv prog (Suc L) m d N xs ek hk st" and legal: "legal prog L d i" and started: "0 < d i"
    and waits: "snd (prog i ! d i)" and room: "2 * N + 3 < 2 ^ 31" "2 * N + 5 \<le> fuel"
  shows "\<exists>st' xs' ek' hk'. cilkStageWait fuel (int i + 1) (fst (prog i ! d i)) st = Some st' \<and>
     pipe_inv prog (Suc L) m (one_more d i) (Suc N) xs' ek' hk' st' \<and> both_grow xs ek hk xs' ek' hk' \<and>
     node_at (xs True) ek (pr_curDown st') (epath i (d i)) \<and> node_at (xs False) hk (pr_curRight st') (hpath (pdep prog) i (d i))"
proof -
  have o: "order_inv prog m d N (pr_orders st) xs ek hk" "ring_rep (Suc L) m (pr_iterations st)"
    "\<And>j. j < m \<Longrightarrow> m \<le> j + Suc L \<Longrightarrow> slot_ok prog d xs ek hk (Suc L) (pr_iterations st) j"
    using inv by (auto simp: pipe_inv_def)
  have so: "stages_ok prog m d" using o(1) by (simp add: order_inv_def)
  have w: "i < m" "m \<le> i + L" using legal_window [OF legal started so] by simp_all
  then have w: "i < m" "m \<le> i + L" "m \<le> i + Suc L" by simp_all
  have plen: "length (it_p (pr_iterations st)) = Suc L" "1 \<le> L" using o(2) by (simp_all add: ring_rep_def)
  obtain l fs where l: "it_p (pr_iterations st) ! (i mod Suc L) = Some l" "list_ok prog d xs ek hk i (d i - 1) fs l"
    using o(3) [of i] w by (auto simp: slot_ok_def)
  note p = parent_nodes [OF l(2) started]
  let ?rt0 = "o_downCont (sf_rightFirst (fs ! (d i - 1)))" and ?dn = "o_downCont (sf_downFirst (fs ! (d i - 1)))"
  define it where "it = (pr_iterations st)\<lparr>it_p := (it_p (pr_iterations st))[i mod Suc L := Some (l\<lparr>sl_index := int (seen prog i (d i)) + 1\<rparr>)]\<rparr>"
  have slot_i: "it_p it ! (i mod Suc L) = Some (l\<lparr>sl_index := int (seen prog i (d i)) + 1\<rparr>)"
    using plen by (simp add: it_def)
  have l2: "list_ok prog d xs ek hk i (d i) fs (l\<lparr>sl_index := int (seen prog i (d i)) + 1\<rparr>)" using l(2) by (simp add: list_ok_def)
  have ring: "ring_rep (Suc L) m it" using ring_rep_upd_p [OF o(2)] plen by (simp add: it_def)
  have same: "it_p it ! (j mod Suc L) = it_p (pr_iterations st) ! (j mod Suc L)" if "j < m" "m \<le> j + Suc L" "j \<noteq> i" for j
    using slots_differ [OF that(1,2) w(1,3) that(3)] by (simp add: it_def)
  have others: "slot_ok prog d xs ek hk (Suc L) it j" if "j \<noteq> i" "j < m" "m \<le> j + Suc L" for j
    using o(3) [OF that(2,3)] same [OF that(2,3,1)] by (simp add: slot_ok_def)
  obtain rt where rt: "node_at (xs False) hk rt (hpath (pdep prog) i (d i))"
    "cilkStageWait fuel (int i + 1) (fst (prog i ! d i)) st =
       append_stage fuel (int i + 1) (fst (prog i ! d i)) rt ?dn (st\<lparr>pr_iterations := it\<rparr>)"
  proof (cases i)
    case 0
    have none: "full_dep prog i k = None" for k using 0 by (simp add: full_dep_def)
    have z: "seen prog 0 k = 0" for k by (induction k) (simp_all add: full_dep_def)
    have "sl_index l = 1" using l(2) 0 z by (simp add: list_ok_def)
    then have "l\<lparr>sl_index := int (seen prog i (d i)) + 1\<rparr> = l" using 0 z by simp
    then have "it = pr_iterations st" using l(1) unfolding it_def by (metis (no_types, lifting) iterations.surjective iterations.update_convs(1) list_update_id)
    moreover have "pdep prog i (d i) = None" using none by (simp add: pdep_def)
    ultimately show thesis
      using that [of ?rt0] p getStageFrameList_ring [OF o(2), of i] l(1) 0 by (simp add: cilkStageWait_def)
  next
    case (Suc i')
    obtain k where k: "d i = Suc k" using started by (cases "d i") auto
    have j: "i' < m" "m \<le> i' + Suc L" "i' \<noteq> i" using w Suc by simp_all
    obtain l0 fs0 where l0: "it_p (pr_iterations st) ! (i' mod Suc L) = Some l0" "list_ok prog d xs ek hk i' (d i' - 1) fs0 l0"
      using o(3) [OF j(1,2)] by (auto simp: slot_ok_def)
    obtain q where q: "full_dep prog (Suc i') (Suc k) = Some q" using legal waits k Suc by (auto simp: full_dep_def legal_def)
    have qd: "q < d i'" using legal q k Suc by (simp add: legal_def)
    have w': "Suc i' < m" "m \<le> Suc i' + L" using w(1,2) Suc by simp_all
    have cur: "it_p (pr_iterations st) ! (Suc i' mod Suc L) = Some l" "list_ok prog d xs ek hk (Suc i') k fs l"
      using l Suc k by simp_all
    note dep = getLeftDependency_ok [OF prog o(2) w' cur l0 q qd]
    have it: "it = (pr_iterations st)\<lparr>it_p := (it_p (pr_iterations st))[Suc i' mod Suc L := Some (l\<lparr>sl_index := int (seen prog (Suc i') (Suc k)) + 1\<rparr>)]\<rparr>"
      using Suc k by (simp add: it_def)
    have get: "getStageFrameList (int (Suc i') + 1) (pr_iterations st) = Some l"
      using getStageFrameList_ring [OF o(2), of "Suc i'"] cur(1) by simp
    have pre: "getStageFrameList (int (Suc i') + 1 - 1) it = Some l0"
      using getStageFrameList_ring [OF ring, of i'] same [OF j] l0(1) by (simp add: add.commute)
    show thesis
    proof (cases "pdep prog (Suc i') (Suc k)")
      case None
      have "cilkStageWait fuel (int (Suc i') + 1) (fst (prog (Suc i') ! Suc k)) st =
         append_stage fuel (int (Suc i') + 1) (fst (prog (Suc i') ! Suc k)) ?rt0 ?dn (st\<lparr>pr_iterations := it\<rparr>)"
        using dep get p(1) None unfolding cilkStageWait_def it by (simp del: seen.simps of_nat_Suc)
      then show thesis using that [of ?rt0] p(3) None Suc k by simp
    next
      case (Some q')
      then have "q' = q" using pdep_full q by fastforce
      have q0: "q \<noteq> 0" using Some q \<open>q' = q\<close> by (auto simp: pdep_def split: if_splits)
      have f0: "arr_rep (sl_items l0) fs0" "length fs0 = d i'" "frame_ok prog xs ek hk (fs0 ! q) i' q" using l0(2) qd by (auto simp: list_ok_def)
      have sib: "arr_get (int q) (sl_items l0) = Some (fs0 ! q)" using arr_get_rep [OF f0(1), of "int q"] f0(2) qd by simp
      have "cilkStageWait fuel (int (Suc i') + 1) (fst (prog (Suc i') ! Suc k)) st =
         append_stage fuel (int (Suc i') + 1) (fst (prog (Suc i') ! Suc k)) (o_rightCont (sf_rightFirst (fs0 ! q))) ?dn (st\<lparr>pr_iterations := it\<rparr>)"
        using dep get p(1) Some q0 \<open>q' = q\<close> sib pre unfolding cilkStageWait_def it by (simp del: seen.simps of_nat_Suc)
      moreover have "node_at (xs False) hk (o_rightCont (sf_rightFirst (fs0 ! q))) (hpath (pdep prog) (Suc i') (Suc k))"
        using f0(3) hpath_simps(1) [where dep = "pdep prog", OF Some] \<open>q' = q\<close> by (simp add: frame_ok_def)
      ultimately show thesis using that [of "o_rightCont (sf_rightFirst (fs0 ! q))"] Suc k by simp
    qed
  qed
  let ?st = "st\<lparr>pr_iterations := it\<rparr>"
  have o': "order_inv prog m d N (pr_orders ?st) xs ek hk" "ring_rep (Suc L) m (pr_iterations ?st)"
    "it_p (pr_iterations ?st) ! (i mod Suc L) = Some (l\<lparr>sl_index := int (seen prog i (d i)) + 1\<rparr>)"
    "\<And>j. j \<noteq> i \<Longrightarrow> j < m \<Longrightarrow> m \<le> j + Suc L \<Longrightarrow> slot_ok prog d xs ek hk (Suc L) (pr_iterations ?st) j"
    using o(1) ring slot_i others by simp_all
  have "\<exists>st' xs' ek' hk'. append_stage fuel (int i + 1) (fst (prog i ! d i)) rt ?dn ?st = Some st' \<and>
     pipe_inv prog (Suc L) m (one_more d i) (Suc N) xs' ek' hk' st' \<and> both_grow xs ek hk xs' ek' hk' \<and> pr_curDown st' = ?dn \<and> pr_curRight st' = rt"
    by (rule append_stage_ok [OF o'(1) legal started o'(2) w(1,3) o'(3) l2 _ p(2) rt(1) room]) (rule o'(4))
  then obtain st' xs' ek' hk' where "cilkStageWait fuel (int i + 1) (fst (prog i ! d i)) st = Some st'"
     "pipe_inv prog (Suc L) m (one_more d i) (Suc N) xs' ek' hk' st'" "both_grow xs ek hk xs' ek' hk'"
     "pr_curDown st' = ?dn" "pr_curRight st' = rt"
    using rt(2) by metis
  then show ?thesis using p(2) rt(1) by metis
qed

lemma cilkStageFirst_ok:
  assumes inv: "pipe_inv prog (Suc L) m d N xs ek hk st" and legal: "legal prog L d i" and first: "d i = 0" and prog: "pipeline_ok prog"
    and room: "2 * N + 3 < 2 ^ 31" "2 * N + 5 \<le> fuel"
  shows "\<exists>st' xs' ek' hk'. cilkStageFirst fuel frame_address (int i + 1) st = Some st' \<and>
     pipe_inv prog (Suc L) (Suc m) (one_more d i) (Suc N) xs' ek' hk' st' \<and> both_grow xs ek hk xs' ek' hk' \<and>
     node_at (xs True) ek (pr_curDown st') (epath i (d i)) \<and> node_at (xs False) hk (pr_curRight st') (hpath (pdep prog) i (d i))"
proof -
  have o: "order_inv prog m d N (pr_orders st) xs ek hk" "ring_rep (Suc L) m (pr_iterations st)"
    "\<And>j. j < m \<Longrightarrow> m \<le> j + Suc L \<Longrightarrow> slot_ok prog d xs ek hk (Suc L) (pr_iterations st) j"
    "m = 0 \<Longrightarrow> node_at (xs True) ek (m_base (ds_of True (pr_orders st))) [] \<and> node_at (xs False) hk (m_base (ds_of False (pr_orders st))) []"
    using inv by (auto simp: pipe_inv_def)
  have st: "stages_ok prog m d" using o(1) by (simp add: order_inv_def)
  have i: "i = m" using stages_ok_more(2) [OF st legal first] .
  have L: "1 \<le> L" using o(2) by (simp add: ring_rep_def)
  have zero: "fst (prog i ! 0) = 0" "prog i \<noteq> []" using prog by (auto simp: pipeline_ok_def)
  let ?src = "if int i + 1 > 1
             then do { pre \<leftarrow> getStageFrameList (int i + 1 - 1) (pr_iterations st);
                       sibling \<leftarrow> arr_get 0 (sl_items pre);
                       Some (o_rightCont (sf_rightFirst sibling), o_rightCont (sf_downFirst sibling)) }
             else Some (m_base (ds_of False (pr_orders st)), m_base (ds_of True (pr_orders st)))"
  obtain rt dn where src: "?src = Some (rt, dn)" "node_at (xs True) ek dn (epath i 0)" "node_at (xs False) hk rt (hpath (pdep prog) i 0)"
  proof (cases i)
    case 0
    then have "hpath (pdep prog) i 0 = []" "epath i 0 = []" by (simp_all add: hpath_simps pdep_def full_dep_def epath_def)
    then show thesis using that o(4) 0 i by simp
  next
    case (Suc i')
    have j: "i' < m" "m \<le> i' + Suc L" using Suc i by simp_all
    obtain l0 fs0 where l0: "it_p (pr_iterations st) ! (i' mod Suc L) = Some l0" "list_ok prog d xs ek hk i' (d i' - 1) fs0 l0"
      using o(3) [OF j] by (auto simp: slot_ok_def)
    have d0: "0 < d i'" using st j(1) by (simp add: stages_ok_def)
    have f0: "arr_rep (sl_items l0) fs0" "length fs0 = d i'" "frame_ok prog xs ek hk (fs0 ! 0) i' 0" using l0(2) d0 by (auto simp: list_ok_def)
    have sib: "arr_get 0 (sl_items l0) = Some (fs0 ! 0)" using arr_get_rep [OF f0(1), of 0] f0(2) d0 by simp
    have pre: "getStageFrameList (int i + 1 - 1) (pr_iterations st) = Some l0"
      using getStageFrameList_ring [OF o(2), of i'] l0(1) Suc by (simp add: add.commute)
    have "hpath (pdep prog) i 0 = hpath (pdep prog) i' 0 @ [First]"
      using hpath_simps(1) [where dep = "pdep prog", of i' 0 0] Suc by (simp add: pdep_def full_dep_def)
    moreover have "epath i 0 = epath i' 0 @ [Second]" using epath_Suc(2) Suc by simp
    ultimately show thesis
      using that [of "o_rightCont (sf_rightFirst (fs0 ! 0))" "o_rightCont (sf_downFirst (fs0 ! 0))"] sib pre f0(3) Suc
      by (simp add: frame_ok_def)
  qed
  have paths: "node_at (xs True) ek dn (epath i (d i))" "node_at (xs False) hk rt (hpath (pdep prog) i (d i))" using src(2,3) first by simp_all
  obtain sf s' xs' ek' hk' where c: "createOrder fuel (stage_frame_at (int i + 1) 0 rt dn) (pr_orders st) = Some (sf, s')"
    "sf_stageNum sf = 0" "order_inv prog (Suc m) (one_more d i) (Suc N) s' xs' ek' hk'"
    "both_grow xs ek hk xs' ek' hk'" "frame_ok prog xs' ek' hk' sf i (d i)"
    using order_step [OF o(1) legal paths room, of "int i + 1" 0] first by auto
  obtain it1 where it1: "insertStageFrameList (int i + 1) (pr_iterations st) = Some (int (i mod Suc L), it1)" "ring_rep (Suc L) (Suc m) it1"
    "it_p it1 = (it_p (pr_iterations st))[i mod Suc L := Some stage_list_new]"
    using insertStageFrameList_ring [OF o(2)] unfolding i by blast
  have len: "length (it_p (pr_iterations st)) = Suc L" using o(2) by (simp add: ring_rep_def)
  have slot: "i mod Suc L < Suc L" by simp
  then have slot_int: "int (i mod Suc L) < int (Suc L)" by (rule of_nat_less_iff [THEN iffD2])
  let ?l = "stage_list_new\<lparr>sl_items := arr_append sf (sl_items stage_list_new), sl_cachedLeftStage := 0, sl_latestWaitStage := 0,
                 sl_stageNum := 0, sl_iterNum := int i + 1, sl_index := 1\<rparr>"
  have cell: "cell (it_p it1) (int (i mod Suc L)) = Some (Some stage_list_new)" using it1(3) len slot slot_int by (simp add: cell_def del: of_nat_Suc)
  let ?p = "(it_p it1)[i mod Suc L := Some ?l]"
  have set: "set_cell (int (i mod Suc L)) (Some ?l) (it_p it1) = Some ?p" using it1(3) len slot_int by (simp add: set_cell_def del: of_nat_Suc)
  have r1: "ring_rep (Suc L) (Suc m) (it1\<lparr>it_p := ?p\<rparr>)" using ring_rep_upd_p [OF it1(2), of ?p] it1(3) len by simp
  have j: "i < Suc m" "Suc m \<le> i + Suc L" using i by simp_all
  obtain it2 where it2: "setHighWatermark (int i + 1) frame_address (it1\<lparr>it_p := ?p\<rparr>) = Some it2" "ring_rep (Suc L) (Suc m) it2"
    "it_p it2 = ?p" using setHighWatermark_ring [OF r1 j, of frame_address] by auto
  obtain it3 where it3: "setLowWatermark (int i + 1) (-1) it2 = Some it3" "ring_rep (Suc L) (Suc m) it3"
    "it_p it3 = ?p" using setLowWatermark_ring [OF it2(2) j, of "-1"] it2(3) by auto
  let ?st = "st\<lparr>pr_orders := s', pr_iterations := it3, pr_curIterNum := int i + 1, pr_curStageNum := 0, pr_curRight := rt, pr_curDown := dn\<rparr>"
  have "cilkStageFirst fuel frame_address (int i + 1) st = Some ?st"
    unfolding cilkStageFirst_def src(1) using c(1) it1(1) cell set it2(1) it3(1) by simp
  moreover have "pipe_inv prog (Suc L) (Suc m) (one_more d i) (Suc N) xs' ek' hk' ?st"
    unfolding pipe_inv_def
  proof (intro conjI allI impI)
    show "order_inv prog (Suc m) (one_more d i) (Suc N) (pr_orders ?st) xs' ek' hk'" using c(3) by simp
    show "ring_rep (Suc L) (Suc m) (pr_iterations ?st)" using it3(2) by simp
    show "slot_ok prog (one_more d i) xs' ek' hk' (Suc L) (pr_iterations ?st) k" if k: "k < Suc m" "Suc m \<le> k + Suc L" for k
    proof (cases "k = i")
      case True
      have "list_ok prog (one_more d i) xs' ek' hk' i (one_more d i i - 1) [sf] ?l"
        using c(2,5) first zero arr_append_rep [OF arr_new_rep, of sf]
        by (cases "prog i") (auto simp: list_ok_def one_more_def stage_list_new_def)
      moreover have "it_p (pr_iterations ?st) ! (i mod Suc L) = Some ?l" using it3(3) it1(3) len slot by simp
      ultimately show ?thesis unfolding slot_ok_def True by blast
    next
      case False
      then have km: "k < m" "m \<le> k + Suc L" using k i by simp_all
      from slots_differ [OF k j False] have "it_p (pr_iterations ?st) ! (k mod Suc L) = it_p (pr_iterations st) ! (k mod Suc L)"
        using it3(3) it1(3) by simp
      from slot_ok_grows [OF o(3) [OF km] c(4) _ this] False show ?thesis by (simp add: one_more_def)
    qed
  qed simp_all
  ultimately show ?thesis using c(4) paths by (intro exI [of _ ?st] exI conjI) simp_all
qed

subsection \<open>Runs\<close>

text \<open>The hook that begins stage \<open>k\<close> of iteration \<open>i\<close>, and a run: the list says which iteration
  goes on.  The result has the nodes \<open>curDown\<close> and \<open>curRight\<close> with which each stage was executed.\<close>

definition run_stage :: "nat \<Rightarrow> u64 \<Rightarrow> pipeline \<Rightarrow> nat \<Rightarrow> nat \<Rightarrow> pipe_rd \<Rightarrow> pipe_rd option" where
  "run_stage fuel frame_address prog i k st =
     (if k = 0 then cilkStageFirst fuel frame_address (int i + 1) st
      else if snd (prog i ! k) then cilkStageWait fuel (int i + 1) (fst (prog i ! k)) st
      else cilkStage fuel (int i + 1) (fst (prog i ! k)) st)"

fun run_stages :: "nat \<Rightarrow> u64 \<Rightarrow> pipeline \<Rightarrow> nat list \<Rightarrow> (nat \<Rightarrow> nat) \<Rightarrow> pipe_rd \<Rightarrow> (((nat \<times> nat) \<times> ptr \<times> ptr) list \<times> pipe_rd) option" where
  "run_stages fuel frame_address prog [] d st = Some ([], st)"
| "run_stages fuel frame_address prog (i # is) d st =
     do { st \<leftarrow> run_stage fuel frame_address prog i (d i) st;
          (nodes, st') \<leftarrow> run_stages fuel frame_address prog is (one_more d i) st;
          Some (((i, d i), (pr_curDown st, pr_curRight st)) # nodes, st') }"

fun legal_run :: "pipeline \<Rightarrow> nat \<Rightarrow> nat list \<Rightarrow> (nat \<Rightarrow> nat) \<Rightarrow> bool" where
  "legal_run prog L [] d \<longleftrightarrow> True"
| "legal_run prog L (i # is) d \<longleftrightarrow> legal prog L d i \<and> legal_run prog L is (one_more d i)"

fun stages_after :: "nat list \<Rightarrow> (nat \<Rightarrow> nat) \<Rightarrow> nat \<Rightarrow> nat" where
  "stages_after [] d = d"
| "stages_after (i # is) d = stages_after is (one_more d i)"

lemma run_stage_ok:
  assumes prog: "pipeline_ok prog" and inv: "pipe_inv prog (Suc L) m d N xs ek hk st" and legal: "legal prog L d i"
    and room: "2 * N + 3 < 2 ^ 31" "2 * N + 5 \<le> fuel"
  shows "\<exists>st' xs' ek' hk'. run_stage fuel frame_address prog i (d i) st = Some st' \<and>
     pipe_inv prog (Suc L) (if d i = 0 then Suc m else m) (one_more d i) (Suc N) xs' ek' hk' st' \<and> both_grow xs ek hk xs' ek' hk' \<and>
     node_at (xs True) ek (pr_curDown st') (epath i (d i)) \<and> node_at (xs False) hk (pr_curRight st') (hpath (pdep prog) i (d i))"
proof (cases "d i = 0")
  case True
  then show ?thesis using cilkStageFirst_ok [OF inv legal True prog room, of frame_address] by (simp add: run_stage_def)
next
  case started: False
  show ?thesis
  proof (cases "snd (prog i ! d i)")
    case True
    then show ?thesis using cilkStageWait_ok [OF prog inv legal _ True room] started by (simp add: run_stage_def)
  next
    case False
    then have "full_dep prog i (d i) = None" using started by (simp add: full_dep_def)
    then show ?thesis using cilkStage_ok [OF inv legal _ _ room] started False by (simp add: run_stage_def)
  qed
qed

definition nodes_ok :: "pipeline \<Rightarrow> (bool \<Rightarrow> nat list) \<Rightarrow> (nat \<Rightarrow> path) \<Rightarrow> (nat \<Rightarrow> path) \<Rightarrow> ((nat \<times> nat) \<times> ptr \<times> ptr) list \<Rightarrow> bool" where
  "nodes_ok prog xs ek hk ns \<longleftrightarrow>
     (\<forall>((i, k), dn, rt)\<in>set ns. node_at (xs True) ek dn (epath i k) \<and> node_at (xs False) hk rt (hpath (pdep prog) i k))"

lemma both_grow_trans: "both_grow xs ek hk ys el hl \<Longrightarrow> both_grow ys el hl zs em hm \<Longrightarrow> both_grow xs ek hk zs em hm"
  unfolding both_grow_def grows_def by (metis subsetD subset_trans)

lemma run_stages_ok:
  assumes prog: "pipeline_ok prog"
  shows "pipe_inv prog (Suc L) m d N xs ek hk st \<Longrightarrow> legal_run prog L is d \<Longrightarrow>
     2 * (N + length is) + 3 < 2 ^ 31 \<Longrightarrow> 2 * (N + length is) + 5 \<le> fuel \<Longrightarrow>
     \<exists>ns st' m' xs' ek' hk'. run_stages fuel frame_address prog is d st = Some (ns, st') \<and>
       pipe_inv prog (Suc L) m' (stages_after is d) (N + length is) xs' ek' hk' st' \<and> both_grow xs ek hk xs' ek' hk' \<and>
       nodes_ok prog xs' ek' hk' ns \<and> executed (stages_after is d) = executed d \<union> fst ` set ns"
proof (induction "is" arbitrary: m d N xs ek hk st)
  case Nil
  then show ?case by (auto simp: nodes_ok_def both_grow_def grows_def)
next
  case (Cons i "is")
  have l: "legal prog L d i" "legal_run prog L is (one_more d i)" using Cons.prems(2) by simp_all
  have r: "2 * N + 3 < 2 ^ 31" "2 * N + 5 \<le> fuel" using Cons.prems(3,4) by simp_all
  obtain st1 xs1 ek1 hk1 where s: "run_stage fuel frame_address prog i (d i) st = Some st1"
    "pipe_inv prog (Suc L) (if d i = 0 then Suc m else m) (one_more d i) (Suc N) xs1 ek1 hk1 st1"
    "both_grow xs ek hk xs1 ek1 hk1"
    "node_at (xs True) ek (pr_curDown st1) (epath i (d i))" "node_at (xs False) hk (pr_curRight st1) (hpath (pdep prog) i (d i))"
    using run_stage_ok [OF prog Cons.prems(1) l(1) r, of frame_address] by blast
  have r': "2 * (Suc N + length is) + 3 < 2 ^ 31" "2 * (Suc N + length is) + 5 \<le> fuel" using Cons.prems(3,4) by simp_all
  obtain ns st' m' xs' ek' hk' where t: "run_stages fuel frame_address prog is (one_more d i) st1 = Some (ns, st')"
    "pipe_inv prog (Suc L) m' (stages_after is (one_more d i)) (Suc N + length is) xs' ek' hk' st'" "both_grow xs1 ek1 hk1 xs' ek' hk'"
    "nodes_ok prog xs' ek' hk' ns" "executed (stages_after is (one_more d i)) = executed (one_more d i) \<union> fst ` set ns"
    using Cons.IH [OF s(2) l(2) r'] by blast
  have g: "both_grow xs ek hk xs' ek' hk'" by (rule both_grow_trans [OF s(3) t(3)])
  have "node_at (xs' True) ek' (pr_curDown st1) (epath i (d i))" "node_at (xs' False) hk' (pr_curRight st1) (hpath (pdep prog) i (d i))"
    using g s(4,5) unfolding both_grow_def by (blast intro: node_at_grows)+
  then have "nodes_ok prog xs' ek' hk' (((i, d i), (pr_curDown st1, pr_curRight st1)) # ns)" using t(4) by (simp add: nodes_ok_def)
  moreover have "run_stages fuel frame_address prog (i # is) d st = Some (((i, d i), (pr_curDown st1, pr_curRight st1)) # ns, st')"
    using s(1) t(1) by simp
  moreover have "pipe_inv prog (Suc L) m' (stages_after (i # is) d) (N + length (i # is)) xs' ek' hk' st'" using t(2) by simp
  moreover have "executed (stages_after (i # is) d) = executed d \<union> fst ` set (((i, d i), (pr_curDown st1, pr_curRight st1)) # ns)"
    using t(5) executed_more by auto
  ultimately show ?case using g by blast
qed

lemma pipe_start:
  assumes "1 \<le> L"
  shows "\<exists>st xs. cilkPipeWhileBegin (int L) = Some st \<and> pipe_inv prog (Suc L) 0 (\<lambda>_. 0) 0 xs (\<lambda>_. []) (\<lambda>_. []) st"
proof -
  obtain it where it: "iterations_new (int L) = Some it" "ring_rep (Suc L) 0 it"
    using iterations_new_ring [of "int L"] assms by auto
  obtain s a b where s: "rd_new = Some s" "m_base (ds_of True s) = Some a" "m_base (ds_of False s) = Some b"
    "rd_rep s (\<lambda>e. if e then [a] else [b])" using rd_new_ok by blast
  let ?xs = "\<lambda>e. if e then [a] else [b]"
  let ?st = "\<lparr>pr_orders = s, pr_iterations = it, pr_curIterNum = 0, pr_curStageNum = 0, pr_curRight = None, pr_curDown = None\<rparr>"
  have "order_inv prog 0 (\<lambda>_. 0) 0 s ?xs (\<lambda>_. []) (\<lambda>_. [])"
    using s(4) by (simp add: order_inv_def stages_ok_def placed_by_def keys_of_def executed_def)
  then have "pipe_inv prog (Suc L) 0 (\<lambda>_. 0) 0 ?xs (\<lambda>_. []) (\<lambda>_. []) ?st"
    using it(2) s(2,3) by (simp add: pipe_inv_def node_at_def)
  moreover have "cilkPipeWhileBegin (int L) = Some ?st" unfolding cilkPipeWhileBegin_def it(1) s(1) by simp
  ultimately show ?thesis by blast
qed

lemma pipe_run:
  assumes "pipeline_ok prog" "1 \<le> L" "legal_run prog L is (\<lambda>_. 0)" "2 * length is + 3 < 2 ^ 31" "2 * length is + 5 \<le> fuel"
  shows "\<exists>st0 ns st m xs ek hk. cilkPipeWhileBegin (int L) = Some st0 \<and> run_stages fuel frame_address prog is (\<lambda>_. 0) st0 = Some (ns, st) \<and>
     pipe_inv prog (Suc L) m (stages_after is (\<lambda>_. 0)) (length is) xs ek hk st \<and> nodes_ok prog xs ek hk ns \<and>
     executed (stages_after is (\<lambda>_. 0)) = fst ` set ns"
proof -
  obtain st0 xs where s: "cilkPipeWhileBegin (int L) = Some st0" "pipe_inv prog (Suc L) 0 (\<lambda>_. 0) 0 xs (\<lambda>_. []) (\<lambda>_. []) st0"
    using pipe_start [OF assms(2)] by blast
  have "executed (\<lambda>_. 0) = {}" by (simp add: executed_def)
  moreover have "2 * (0 + length is) + 3 < 2 ^ 31" "2 * (0 + length is) + 5 \<le> fuel" using assms(4,5) by simp_all
  note run_stages_ok [OF assms(1) s(2) assms(3) this, of frame_address]
  ultimately show ?thesis using s(1) by (metis (no_types, lifting) add_0 sup_bot_left)
qed

end
