(* ===== verification/Om_Demo.thy ===== *)
theory Om_Demo
  imports Om_Life
begin

text \<open>
  A short run of the order-maintenance structure: creation, the first node, one insertion after it.  The
  examples of the root theory start from the state it reaches.
\<close>

definition demo_run :: "(om \<times> nat \<times> nat option \<times> bheap) option" where
  "demo_run = do { (self, h) \<leftarrow> om_create empty_bheap; (a, h) \<leftarrow> om_insert_initial self h;
                   (b, h) \<leftarrow> om_insert self a h; Some (self, a, b, h) }"

lemma demo_one:
  "\<exists>self h0 h. om_create empty_bheap = Some (self, h0) \<and> om_insert_initial self h0 = Some (2, h) \<and> om_x86 self h [[2]] \<and>
     label_of (nodes h) 2 = 0"
proof -
  obtain self h where c: "om_create empty_bheap = Some (self, h)" "om_x86 self h [[]]"
    using om_create_ok [of empty_bheap] by (auto simp: brk_ok_def empty_bheap_def)
  obtain n h1 where i: "om_insert_initial self h = Some (n, h1)" "om_x86 self h1 [[n]]" "nodes h n = None"
    using om_insert_initial_ok [OF c(2)] by blast
  have "n = 2" "label_of (nodes h1) n = 0"
    using c(1) i(1) by (auto simp: om_create_def om_insert_initial_def empty_bheap_def tl_node_new_def bl_new_def
        bl_create_def upd_blist_def bl_insert_initial_def node_new_def insert_internal_def upd_node_def
        bind_Some_iff)
  with c i show ?thesis by blast
qed

lemma demo_x86: "\<exists>self h b. demo_run = Some (self, 2, Some b, h) \<and> om_x86 self h [[2, b]] \<and> b \<noteq> 2"
proof -
  obtain self h h1 where c: "om_create empty_bheap = Some (self, h)" "om_insert_initial self h = Some (2, h1)"
    "om_x86 self h1 [[2]]" "label_of (nodes h1) 2 = 0"
    using demo_one by blast
  have room: "has_room h1 2 []" unfolding has_room_def c(4) by (simp add: nxt_label_def) code_simp
  have rep: "om_rep self h1 [[2]]" using c(3) by (simp add: om_x86_def)
  obtain b h2 where b: "om_insert self 2 h1 = Some (Some b, h2)" "om_rep self h2 [[2, b]]"
    using om_insert_room [OF rep, of 0 "[]" 2 "[]"] room by auto
  then have "distinct (concat [[2, b]])" by (auto simp: om_rep_def separate_def dest: om_mid_separate)
  then show ?thesis using c b by (auto simp: demo_run_def om_x86_def)
qed

lemma demo_client: "\<exists>self h b. demo_run = Some (self, 2, Some b, h) \<and> client_rep ({2, b}, self, h) [2, b] \<and> b \<noteq> 2"
  using demo_x86 by (fastforce simp: client_rep_def)

lemma demo_relabel:
  assumes "client_rep ({2, b}, self, h) [2, b]" "b \<noteq> 2"
  shows "\<exists>self' h'. om_relabel 2 x86_shl (leaf_addrs (om_root self)) (self, h) = Some (self', h') \<and>
     om_step ({2, b}, self, h) ({2, b}, self', h')"
proof -
  obtain xss where r: "om_x86 self h xss" "[2, b] = concat xss" using assms(1) by (auto simp: client_rep_def)
  have c: "concat xss \<noteq> []" "length (concat xss) < 2 ^ 31" "length (concat xss) \<le> 2"
    by (simp_all flip: r(2))
  have d: "distinct (leaf_addrs (om_root self))" using r(1) by (simp add: om_x86_def om_rep_def om_mid_def)
  obtain self' h' where s: "om_relabel 2 x86_shl (leaf_addrs (om_root self)) (self, h) = Some (self', h')"
    using om_relabel_x86 [OF r(1) c d] by auto
  moreover have "card {2, b} = 2" using assms(2) by simp
  ultimately show ?thesis using om_step.relabel [OF d, of self "{2, b}" h self' h'] by auto
qed

lemma demo_gap:
  "\<exists>self h0 h l. om_create empty_bheap = Some (self, h0) \<and> om_insert_initial self h0 = Some (2, h) \<and>
     blist_rep h l [2] \<and> brk_ok h \<and> 2 \<le> gap h 2 []"
proof -
  obtain self h0 h where c: "om_create empty_bheap = Some (self, h0)" "om_insert_initial self h0 = Some (2, h)"
    "om_rep self h [[2]]" "label_of (nodes h) 2 = 0"
    using demo_one by (auto simp: om_x86_def)
  obtain a l where "blist_rep h l [2]" using om_rep_leaf [OF c(3), of 0] by auto
  moreover have "brk_ok h" using c(3) by (simp add: om_rep_def om_mid_def)
  moreover have "2 \<le> gap h 2 []" by (simp add: gap_def nxt_label_def c(4))
  ultimately show ?thesis using c(1,2) by blast
qed

end
