(* ===== verification/Race_Check.thy ===== *)
theory Race_Check
  imports Prelude
begin

text \<open>
  The access history of 16 bytes of memory (\<open>rdtool/src/mem_access.h\<close>, \<open>mem_access.cpp\<close>): for each of its four
  slots of four bytes the left-most and the right-most reader and the last writer, each with the places of its
  strand in the two orders.  A new access is checked against them and then takes its place.

  The queries to the two orders are the parameters \<open>qe\<close> (\<open>om_precedes\<close> on \<open>g_english\<close>) and \<open>qh\<close> (on \<open>g_hebrew\<close>); they can
  fail, as \<open>om_precedes\<close> does on nodes that are not live.  The code reports a race by a call of \<open>report_race\<close>, which
  is commented out; the model returns the races at which it stood.  The model is sequential: an access is
  checked as a whole, without the spin locks of the block.  A read or write outside the four slots stops the model (in the
  code it is out of bounds).  \<open>om_assert\<close> is empty unless the tool is built with \<open>TOOL_DEBUG\<close>, whose default is 0, so its
  assertions are not part of the functions; \<open>whole_slots_asserted\<close> shows the one on the bounds of an access for the accesses
  that the detector is made for.
\<close>

unbundle bit_operations_syntax

subsection \<open>Grains\<close>

definition LOG_KEY_SIZE :: nat where "LOG_KEY_SIZE = 4"
definition LOG_GRAIN_SIZE :: nat where "LOG_GRAIN_SIZE = 2"
definition MAX_GRAIN_SIZE :: u64 where "MAX_GRAIN_SIZE = 16"
definition NUM_SLOTS :: nat where "NUM_SLOTS = 4"

definition ALIGN_BY_PREV_MAX_GRAIN_SIZE :: "u64 \<Rightarrow> u64" where
  "ALIGN_BY_PREV_MAX_GRAIN_SIZE address = address AND NOT (MAX_GRAIN_SIZE - 1)"

definition ALIGN_BY_NEXT_MAX_GRAIN_SIZE :: "u64 \<Rightarrow> u64" where
  "ALIGN_BY_NEXT_MAX_GRAIN_SIZE address = (address + (MAX_GRAIN_SIZE - 1)) AND NOT (MAX_GRAIN_SIZE - 1)"

definition ADDR_TO_MEM_INDEX :: "u64 \<Rightarrow> u64" where
  "ADDR_TO_MEM_INDEX address = drop_bit LOG_GRAIN_SIZE (address AND (MAX_GRAIN_SIZE - 1))"

definition SIZE_TO_NUM_GRAINS :: "u64 \<Rightarrow> u64" where
  "SIZE_TO_NUM_GRAINS size' = drop_bit LOG_GRAIN_SIZE size'"

subsection \<open>Accesses\<close>

record mem_access =
  estrand :: ptr
  hstrand :: ptr
  rip :: u64

type_synonym query = "ptr \<Rightarrow> ptr \<Rightarrow> bool option"

definition races_with :: "query \<Rightarrow> query \<Rightarrow> mem_access \<Rightarrow> ptr \<Rightarrow> ptr \<Rightarrow> bool option" where
  "races_with qe qh a curr_estrand curr_hstrand =
     do { prec_in_english \<leftarrow> qe (estrand a) curr_estrand;
          prec_in_hebrew \<leftarrow> qh (hstrand a) curr_hstrand;
          Some (prec_in_english = (\<not> prec_in_hebrew)) }"

definition update_acc_info :: "ptr \<Rightarrow> ptr \<Rightarrow> u64 \<Rightarrow> mem_access \<Rightarrow> mem_access" where
  "update_acc_info e h r a = a\<lparr>estrand := e, hstrand := h, rip := r\<rparr>"

datatype race_kind = WR_RACE | WW_RACE | RW_RACE

text \<open>The arguments of \<open>report_race\<close>: the earlier and the current instruction, the address, the kind.\<close>

datatype race = Race u64 u64 u64 race_kind

record mem_list =
  start_addr :: u64
  lreaders :: "mem_access option list"
  rreaders :: "mem_access option list"
  writers :: "mem_access option list"

definition slot :: "'a option list \<Rightarrow> nat \<Rightarrow> 'a option option" where
  "slot xs i = (if i < length xs then Some (xs ! i) else None)"

text \<open>The check of one slot against one of the three histories.\<close>

definition check_slot ::
  "query \<Rightarrow> query \<Rightarrow> race_kind \<Rightarrow> u64 \<Rightarrow> mem_access option list \<Rightarrow> mem_access \<Rightarrow> nat \<Rightarrow> race list option" where
  "check_slot qe qh kind start xs cur i =
     do { a \<leftarrow> slot xs i;
          (case a of
             None \<Rightarrow> Some []
           | Some a \<Rightarrow>
               do { r \<leftarrow> races_with qe qh a (estrand cur) (hstrand cur);
                    Some (if r then [Race (rip a) (rip cur) (start + of_nat i) kind] else []) }) }"

fun check_slots ::
  "query \<Rightarrow> query \<Rightarrow> race_kind \<Rightarrow> u64 \<Rightarrow> mem_access option list \<Rightarrow> mem_access \<Rightarrow> nat list \<Rightarrow> race list option" where
  "check_slots qe qh kind start xs cur [] = Some []"
| "check_slots qe qh kind start xs cur (i # is) =
     do { r \<leftarrow> check_slot qe qh kind start xs cur i;
          rs \<leftarrow> check_slots qe qh kind start xs cur is;
          Some (r @ rs) }"

text \<open>The update of one slot of the left-most readers: \<open>||\<close> asks the second order only if needed.\<close>

definition update_lreader :: "query \<Rightarrow> query \<Rightarrow> mem_access \<Rightarrow> mem_access option \<Rightarrow> mem_access option" where
  "update_lreader qe qh cur a =
     (case a of
        None \<Rightarrow> Some cur
      | Some reader \<Rightarrow>
          do { b \<leftarrow> qe (estrand cur) (estrand reader);
               is_leftmost \<leftarrow> (if b then Some True else qh (hstrand reader) (hstrand cur));
               Some (if is_leftmost then update_acc_info (estrand cur) (hstrand cur) (rip cur) reader else reader) })"

definition update_rreader :: "query \<Rightarrow> mem_access \<Rightarrow> mem_access option \<Rightarrow> mem_access option" where
  "update_rreader qe cur a =
     (case a of
        None \<Rightarrow> Some cur
      | Some reader \<Rightarrow>
          do { is_rightmost \<leftarrow> qe (estrand reader) (estrand cur);
               Some (if is_rightmost then update_acc_info (estrand cur) (hstrand cur) (rip cur) reader else reader) })"

fun update_slots ::
  "(mem_access option \<Rightarrow> mem_access option) \<Rightarrow> mem_access option list \<Rightarrow> nat list \<Rightarrow> mem_access option list option" where
  "update_slots f xs [] = Some xs"
| "update_slots f xs (i # is) =
     do { a \<leftarrow> slot xs i; b \<leftarrow> f a; update_slots f (xs[i := Some b]) is }"

text \<open>The indices from \<open>start\<close> to \<open>start + grains\<close>.  Both are of type \<open>int\<close>, into which the numbers are cut; \<open>start + grains\<close>
  is taken to wrap around.  Neither happens to a size that comes in as an \<open>uint32_t\<close> (\<open>grains_of_eq\<close>).\<close>

definition grains_of :: "u64 \<Rightarrow> u64 \<Rightarrow> nat list" where
  "grains_of address mem_size =
     (let start = ucast (ADDR_TO_MEM_INDEX address) :: u32; grains = ucast (SIZE_TO_NUM_GRAINS mem_size) :: u32
      in [nat (sint start)..<nat (sint (start + grains))])"

definition check_races_and_update_with_read ::
  "query \<Rightarrow> query \<Rightarrow> u64 \<Rightarrow> u64 \<Rightarrow> u64 \<Rightarrow> ptr \<Rightarrow> ptr \<Rightarrow> mem_list \<Rightarrow> (race list \<times> mem_list) option" where
  "check_races_and_update_with_read qe qh inst_addr address mem_size curr_estrand curr_hstrand m =
     do { let cur = \<lparr>estrand = curr_estrand, hstrand = curr_hstrand, rip = inst_addr\<rparr>;
          let is = grains_of address mem_size;
          races \<leftarrow> check_slots qe qh WR_RACE (start_addr m) (writers m) cur is;
          ls \<leftarrow> update_slots (update_lreader qe qh cur) (lreaders m) is;
          rs \<leftarrow> update_slots (update_rreader qe cur) (rreaders m) is;
          Some (races, m\<lparr>lreaders := ls, rreaders := rs\<rparr>) }"

text \<open>A write checks a slot of the writers and replaces it in the same iteration.\<close>

fun write_slots ::
  "query \<Rightarrow> query \<Rightarrow> u64 \<Rightarrow> mem_access \<Rightarrow> mem_access option list \<Rightarrow> nat list \<Rightarrow> (race list \<times> mem_access option list) option" where
  "write_slots qe qh start cur xs [] = Some ([], xs)"
| "write_slots qe qh start cur xs (i # is) =
     do { a \<leftarrow> slot xs i;
          r \<leftarrow> check_slot qe qh WW_RACE start xs cur i;
          let b = (case a of None \<Rightarrow> cur
                   | Some writer \<Rightarrow> update_acc_info (estrand cur) (hstrand cur) (rip cur) writer);
          (rs, xs) \<leftarrow> write_slots qe qh start cur (xs[i := Some b]) is;
          Some (r @ rs, xs) }"

definition check_races_and_update_with_write ::
  "query \<Rightarrow> query \<Rightarrow> u64 \<Rightarrow> u64 \<Rightarrow> u64 \<Rightarrow> ptr \<Rightarrow> ptr \<Rightarrow> mem_list \<Rightarrow> (race list \<times> mem_list) option" where
  "check_races_and_update_with_write qe qh inst_addr address mem_size curr_estrand curr_hstrand m =
     do { let cur = \<lparr>estrand = curr_estrand, hstrand = curr_hstrand, rip = inst_addr\<rparr>;
          let is = grains_of address mem_size;
          (ww, ws) \<leftarrow> write_slots qe qh (start_addr m) cur (writers m) is;
          lw \<leftarrow> check_slots qe qh RW_RACE (start_addr m) (lreaders m) cur is;
          rw \<leftarrow> check_slots qe qh RW_RACE (start_addr m) (rreaders m) cur is;
          Some (ww @ lw @ rw, m\<lparr>writers := ws\<rparr>) }"

definition check_races_and_update ::
  "query \<Rightarrow> query \<Rightarrow> bool \<Rightarrow> u64 \<Rightarrow> u64 \<Rightarrow> u64 \<Rightarrow> ptr \<Rightarrow> ptr \<Rightarrow> mem_list \<Rightarrow> (race list \<times> mem_list) option" where
  "check_races_and_update qe qh is_read inst_addr address mem_size curr_estrand curr_hstrand m =
     (if is_read then check_races_and_update_with_read qe qh inst_addr address mem_size curr_estrand curr_hstrand m
      else check_races_and_update_with_write qe qh inst_addr address mem_size curr_estrand curr_hstrand m)"

text \<open>The constructor and the destructor; the latter with the number of access records it frees.\<close>

definition mem_list_new :: "u64 \<Rightarrow> bool \<Rightarrow> ptr \<Rightarrow> ptr \<Rightarrow> u64 \<Rightarrow> u64 \<Rightarrow> mem_list option" where
  "mem_list_new address is_read e h inst_addr mem_size =
     (let none = replicate NUM_SLOTS None;
          cur = \<lparr>estrand = e, hstrand = h, rip = inst_addr\<rparr>;
          is = grains_of address mem_size;
          m = \<lparr>start_addr = ALIGN_BY_PREV_MAX_GRAIN_SIZE address, lreaders = none, rreaders = none, writers = none\<rparr>
      in if is_read
         then do { ls \<leftarrow> update_slots (\<lambda>_. Some cur) none is;
                   rs \<leftarrow> update_slots (\<lambda>_. Some cur) none is;
                   Some (m\<lparr>lreaders := ls, rreaders := rs\<rparr>) }
         else do { ws \<leftarrow> update_slots (\<lambda>_. Some cur) none is;
                   Some (m\<lparr>writers := ws\<rparr>) })"

definition mem_list_delete :: "mem_list \<Rightarrow> nat \<times> mem_list" where
  "mem_list_delete m =
     (let freed = (\<lambda>xs. length (filter (\<lambda>a. a \<noteq> None) xs)); none = replicate NUM_SLOTS None
      in (freed (lreaders m) + freed (rreaders m) + freed (writers m),
          m\<lparr>lreaders := none, rreaders := none, writers := none\<rparr>))"

subsection \<open>The slots of an access\<close>

text \<open>A block without accesses.\<close>

definition mem_list_empty :: "u64 \<Rightarrow> mem_list" where
  "mem_list_empty start =
     \<lparr>start_addr = start, lreaders = replicate NUM_SLOTS None, rreaders = replicate NUM_SLOTS None,
      writers = replicate NUM_SLOTS None\<rparr>"

definition wf_list :: "mem_list \<Rightarrow> bool" where
  "wf_list m \<longleftrightarrow> length (lreaders m) = NUM_SLOTS \<and> length (rreaders m) = NUM_SLOTS \<and> length (writers m) = NUM_SLOTS"

lemma update_slots_ok:
  "\<forall>i\<in>set is. i < length xs \<and> f (xs ! i) \<noteq> None \<Longrightarrow> distinct is \<Longrightarrow>
   \<exists>ys. update_slots f xs is = Some ys \<and> length ys = length xs \<and>
     (\<forall>i<length xs. ys ! i = (if i \<in> set is then f (xs ! i) else xs ! i))"
proof (induction "is" arbitrary: xs)
  case (Cons i "is")
  then obtain b where b: "i < length xs" "f (xs ! i) = Some b" by auto
  have "\<forall>j\<in>set is. j < length (xs[i := Some b]) \<and> f (xs[i := Some b] ! j) \<noteq> None"
  proof
    fix j assume j: "j \<in> set is"
    then have "xs[i := Some b] ! j = xs ! j" using Cons.prems(2) by (metis distinct.simps(2) nth_list_update_neq)
    with Cons.prems(1) j show "j < length (xs[i := Some b]) \<and> f (xs[i := Some b] ! j) \<noteq> None" by simp
  qed
  then obtain ys where ys: "update_slots f (xs[i := Some b]) is = Some ys" "length ys = length xs"
    "\<forall>j<length xs. ys ! j = (if j \<in> set is then f (xs[i := Some b] ! j) else xs[i := Some b] ! j)"
    using Cons.IH [of "xs[i := Some b]"] Cons.prems(2) by auto
  have "ys ! j = (if j \<in> set (i # is) then f (xs ! j) else xs ! j)" if "j < length xs" for j
    using ys(3) that b Cons.prems(2) by (cases "j = i") auto
  with ys(1,2) b show ?case by (simp add: slot_def)
qed simp

lemma check_slots_ok:
  "\<forall>i\<in>set is. \<exists>r. check_slot qe qh kind start xs cur i = Some r \<Longrightarrow>
   \<exists>rs. check_slots qe qh kind start xs cur is = Some rs \<and>
     (rs \<noteq> [] \<longleftrightarrow> (\<exists>i\<in>set is. check_slot qe qh kind start xs cur i \<noteq> Some []))"
proof (induction "is")
  case (Cons i "is")
  then show ?case by fastforce
qed simp

lemma check_slot_upd: "j \<noteq> i \<Longrightarrow> check_slot qe qh kind start (xs[i := a]) cur j = check_slot qe qh kind start xs cur j"
  by (simp add: check_slot_def slot_def)

lemma write_slots_ok:
  "\<forall>i\<in>set is. i < length xs \<and> (\<exists>r. check_slot qe qh WW_RACE start xs cur i = Some r) \<Longrightarrow> distinct is \<Longrightarrow>
   \<exists>rs ys. write_slots qe qh start cur xs is = Some (rs, ys) \<and> length ys = length xs \<and>
     (\<forall>i<length xs. ys ! i = (if i \<in> set is then Some cur else xs ! i)) \<and>
     (rs \<noteq> [] \<longleftrightarrow> (\<exists>i\<in>set is. check_slot qe qh WW_RACE start xs cur i \<noteq> Some []))"
proof (induction "is" arbitrary: xs)
  case (Cons i "is")
  then obtain r where r: "i < length xs" "check_slot qe qh WW_RACE start xs cur i = Some r" by auto
  have new: "(case xs ! i of None \<Rightarrow> cur | Some a \<Rightarrow> update_acc_info (estrand cur) (hstrand cur) (rip cur) a) = cur"
    by (cases "xs ! i") (simp_all add: update_acc_info_def)
  have same: "check_slot qe qh WW_RACE start (xs[i := Some cur]) cur j = check_slot qe qh WW_RACE start xs cur j"
    if "j \<in> set is" for j
    using that Cons.prems(2) by (intro check_slot_upd) auto
  have "\<forall>j\<in>set is. j < length (xs[i := Some cur]) \<and>
      (\<exists>r. check_slot qe qh WW_RACE start (xs[i := Some cur]) cur j = Some r)"
    using Cons.prems same by auto
  then obtain rs ys where ys: "write_slots qe qh start cur (xs[i := Some cur]) is = Some (rs, ys)" "length ys = length xs"
    "\<forall>j<length xs. ys ! j = (if j \<in> set is then Some cur else xs[i := Some cur] ! j)"
    "rs \<noteq> [] \<longleftrightarrow> (\<exists>j\<in>set is. check_slot qe qh WW_RACE start (xs[i := Some cur]) cur j \<noteq> Some [])"
    using Cons.IH [of "xs[i := Some cur]"] Cons.prems(2) by auto
  have "ys ! j = (if j \<in> set (i # is) then Some cur else xs ! j)" if "j < length xs" for j
    using ys(3) that r(1) by (cases "j = i") auto
  then show ?case using ys r new same by (auto simp: slot_def)
qed simp

subsection \<open>The first access to a block\<close>

text \<open>The constructor does what a check of the same access does to an empty list, in which no race is found.\<close>

lemma update_slots_cong:
  "distinct is \<Longrightarrow> \<forall>i\<in>set is. i < length xs \<longrightarrow> f (xs ! i) = g (xs ! i) \<Longrightarrow> update_slots f xs is = update_slots g xs is"
proof (induction "is" arbitrary: xs)
  case (Cons i "is")
  have "update_slots f (xs[i := Some b]) is = update_slots g (xs[i := Some b]) is" for b
  proof (rule Cons.IH)
    show "\<forall>j\<in>set is. j < length (xs[i := Some b]) \<longrightarrow> f (xs[i := Some b] ! j) = g (xs[i := Some b] ! j)"
      using Cons.prems by (metis distinct.simps(2) length_list_update list.set_intros(2) nth_list_update_neq)
  qed (use Cons.prems in simp)
  then show ?case using Cons.prems(2) by (simp add: slot_def)
qed simp

lemma slot_none: "slot (replicate n None) i = (if i < n then Some None else None)"
  by (simp add: slot_def)

lemma check_slots_none:
  "check_slots qe qh kind start (replicate n None) cur is = (if \<forall>i\<in>set is. i < n then Some [] else None)"
  by (induction "is") (auto simp: check_slot_def slot_none)

lemma update_slots_out: "\<not> (\<forall>i\<in>set is. i < length xs) \<Longrightarrow> update_slots f xs is = None"
proof (induction "is" arbitrary: xs)
  case (Cons i "is")
  show ?case
  proof (cases "\<forall>j\<in>set is. j < length xs")
    case False
    then have "update_slots f (xs[i := Some b]) is = None" for b using Cons.IH [of "xs[i := Some b]"] by simp
    then show ?thesis by (simp add: slot_def)
  next
    case True
    with Cons.prems show ?thesis by (simp add: slot_def)
  qed
qed simp

lemma write_slots_out: "\<not> (\<forall>i\<in>set is. i < length xs) \<Longrightarrow> write_slots qe qh start cur xs is = None"
proof (induction "is" arbitrary: xs)
  case (Cons i "is")
  show ?case
  proof (cases "\<forall>j\<in>set is. j < length xs")
    case False
    then have "write_slots qe qh start cur (xs[i := Some b]) is = None" for b using Cons.IH [of "xs[i := Some b]"] by simp
    then show ?thesis by (simp add: slot_def Let_def)
  next
    case True
    with Cons.prems show ?thesis by (simp add: slot_def)
  qed
qed simp

lemma write_slots_none:
  "distinct is \<Longrightarrow> \<forall>i\<in>set is. i < length xs \<longrightarrow> xs ! i = None \<Longrightarrow>
   write_slots qe qh start cur xs is = map_option (Pair []) (update_slots (\<lambda>_. Some cur) xs is)"
proof (induction "is" arbitrary: xs)
  case (Cons i "is")
  have "write_slots qe qh start cur (xs[i := Some b]) is =
      map_option (Pair []) (update_slots (\<lambda>_. Some cur) (xs[i := Some b]) is)" for b
  proof (rule Cons.IH)
    show "\<forall>j\<in>set is. j < length (xs[i := Some b]) \<longrightarrow> xs[i := Some b] ! j = None"
      using Cons.prems by (metis distinct.simps(2) length_list_update list.set_intros(2) nth_list_update_neq)
  qed (use Cons.prems in simp)
  then show ?case
    using Cons.prems by (cases "update_slots (\<lambda>_. Some cur) (xs[i := Some cur]) is") (auto simp: slot_def check_slot_def)
qed simp

lemma distinct_grains_of [simp]: "distinct (grains_of address mem_size)"
  by (simp add: grains_of_def Let_def)

lemma mem_list_new_eq:
  "map_option (Pair []) (mem_list_new address is_read e h inst_addr mem_size) =
     check_races_and_update qe qh is_read inst_addr address mem_size e h
       (mem_list_empty (ALIGN_BY_PREV_MAX_GRAIN_SIZE address))"
proof -
  let ?cur = "\<lparr>estrand = e, hstrand = h, rip = inst_addr\<rparr>" and ?is = "grains_of address mem_size"
  let ?none = "replicate NUM_SLOTS (None :: mem_access option)"
  have l: "update_slots (update_lreader qe qh ?cur) ?none ?is = update_slots (\<lambda>_. Some ?cur) ?none ?is"
    by (rule update_slots_cong) (simp_all add: update_lreader_def)
  have r: "update_slots (update_rreader qe ?cur) ?none ?is = update_slots (\<lambda>_. Some ?cur) ?none ?is"
    by (rule update_slots_cong) (simp_all add: update_rreader_def)
  have w: "write_slots qe qh start ?cur ?none ?is = map_option (Pair []) (update_slots (\<lambda>_. Some ?cur) ?none ?is)" for start
    by (rule write_slots_none) simp_all
  show ?thesis
  proof (cases "\<forall>i\<in>set ?is. i < NUM_SLOTS")
    case True
    then have c: "check_slots qe qh kind start ?none ?cur ?is = Some []" for kind start by (simp add: check_slots_none)
    show ?thesis
    proof (cases "update_slots (\<lambda>_. Some ?cur) ?none ?is")
      case None
      then show ?thesis using l r w
        by (simp add: mem_list_new_def Let_def check_races_and_update_def check_races_and_update_with_read_def
            check_races_and_update_with_write_def mem_list_empty_def c)
    next
      case (Some xs)
      then show ?thesis using l r w
        by (simp add: mem_list_new_def Let_def check_races_and_update_def check_races_and_update_with_read_def
            check_races_and_update_with_write_def mem_list_empty_def c)
    qed
  next
    case False
    then have u: "update_slots f ?none ?is = None" for f by (intro update_slots_out) simp
    from False have c: "check_slots qe qh kind start ?none ?cur ?is = None" for kind start
      by (simp only: check_slots_none if_False)
    from u c w show ?thesis
      by (simp add: mem_list_new_def Let_def check_races_and_update_def check_races_and_update_with_read_def
          check_races_and_update_with_write_def mem_list_empty_def)
  qed
qed

subsection \<open>Which accesses are looked at\<close>

lemma unat_drop2: "unat (drop_bit 2 (w :: u64)) = unat w div 4"
proof -
  have "unat (drop_bit 2 w) = drop_bit 2 (unat w)" by (rule unat_drop_bit_eq)
  also have "\<dots> = unat w div 2 ^ 2" by (simp only: drop_bit_eq_div)
  finally show ?thesis by simp
qed

lemma ADDR_TO_MEM_INDEX_eq: "unat (ADDR_TO_MEM_INDEX address) = unat address mod 16 div 4"
proof -
  have "address AND (MAX_GRAIN_SIZE - 1) = take_bit 4 address"
    by (simp add: MAX_GRAIN_SIZE_def take_bit_eq_mask mask_eq_exp_minus_1)
  moreover have "unat (take_bit 4 address) = unat address mod 2 ^ 4"
    by (simp only: unsigned_take_bit_eq) (simp add: take_bit_eq_mod)
  ultimately show ?thesis by (simp only: ADDR_TO_MEM_INDEX_def LOG_GRAIN_SIZE_def unat_drop2) simp
qed

lemma SIZE_TO_NUM_GRAINS_eq: "unat (SIZE_TO_NUM_GRAINS size') = unat size' div 4"
  by (simp only: SIZE_TO_NUM_GRAINS_def LOG_GRAIN_SIZE_def unat_drop2)

lemma unat_to_int: "unat (w :: u64) < 2 ^ 32 \<Longrightarrow> unat (ucast w :: u32) = unat w"
  by (simp add: unsigned_ucast_eq take_bit_nat_eq_self)

lemma sint_small: "unat (w :: u32) < 2 ^ 31 \<Longrightarrow> nat (sint w) = unat w"
proof -
  assume "unat w < 2 ^ 31"
  then have "unat w < 2147483648" by simp
  moreover have "uint w = int (unat w)" by (rule uint_nat)
  ultimately have "uint w < 2147483648" by linarith
  then have "uint w < 2 ^ 31" by simp
  moreover have "- (2 ^ 31) \<le> uint w" by (rule order_trans [OF _ uint_ge_0]) simp
  ultimately have "signed_take_bit 31 (uint w) = uint w" by (intro signed_take_bit_int_eq_self)
  then show ?thesis by (simp add: sint_uint)
qed

lemma grains_of_eq:
  assumes "unat mem_size < 2 ^ 32"
  shows "grains_of address mem_size = [unat address mod 16 div 4..<unat address mod 16 div 4 + unat mem_size div 4]"
proof -
  let ?s = "ucast (ADDR_TO_MEM_INDEX address) :: u32" and ?g = "ucast (SIZE_TO_NUM_GRAINS mem_size) :: u32"
  have s: "unat ?s = unat address mod 16 div 4" by (subst unat_to_int) (simp_all add: ADDR_TO_MEM_INDEX_eq)
  have g: "unat ?g = unat mem_size div 4" using assms by (subst unat_to_int) (simp_all add: SIZE_TO_NUM_GRAINS_eq)
  have b: "unat ?s < 4" "unat ?g < 2 ^ 30" using assms unfolding s g by simp_all
  then have "unat (?s + ?g) = unat ?s + unat ?g" by (simp add: unat_add_lem [symmetric])
  then show ?thesis using b sint_small [of ?s] sint_small [of "?s + ?g"] by (simp add: grains_of_def Let_def s g)
qed

text \<open>An access within its block of 16 bytes uses slots that exist; an access of one or two bytes uses none.\<close>

lemma grains_fit:
  assumes "unat address mod 16 + unat mem_size \<le> 16" shows "set (grains_of address mem_size) \<subseteq> {..<NUM_SLOTS}"
  using assms by (subst grains_of_eq) (auto simp: NUM_SLOTS_def)

lemma grains_small: "unat mem_size < 4 \<Longrightarrow> grains_of address mem_size = []"
  by (simp add: grains_of_eq)

lemma small_access_ignored:
  assumes "unat mem_size < 4"
  shows "check_races_and_update qe qh is_read inst_addr address mem_size e h m = Some ([], m)"
  using assms by (simp add: check_races_and_update_def check_races_and_update_with_read_def
      check_races_and_update_with_write_def grains_small Let_def)

text \<open>An access of 8 or 16 bytes that is not aligned reaches past the last slot.\<close>

lemma unaligned_access_out:
  assumes "wf_list m" and "unat mem_size < 2 ^ 32" and "unat address mod 16 div 4 + unat mem_size div 4 > 4"
  shows "check_races_and_update qe qh is_read inst_addr address mem_size e h m = None"
proof -
  let ?cur = "\<lparr>estrand = e, hstrand = h, rip = inst_addr\<rparr>" and ?is = "grains_of address mem_size"
  have "unat address mod 16 div 4 + unat mem_size div 4 - 1 \<in> set ?is"
    using assms(3) by (simp add: grains_of_eq [OF assms(2)]) linarith
  then have out: "\<not> (\<forall>i\<in>set ?is. i < NUM_SLOTS)" using assms(3) by (fastforce simp: NUM_SLOTS_def)
  then have "update_slots (update_lreader qe qh ?cur) (lreaders m) ?is = None"
    using assms(1) by (intro update_slots_out) (simp add: wf_list_def)
  moreover have "write_slots qe qh (start_addr m) ?cur (writers m) ?is = None"
    using out assms(1) by (intro write_slots_out) (simp add: wf_list_def)
  ultimately show ?thesis
    by (cases is_read; cases "check_slots qe qh WR_RACE (start_addr m) (writers m) ?cur ?is")
      (simp_all add: check_races_and_update_def check_races_and_update_with_read_def check_races_and_update_with_write_def Let_def)
qed

text \<open>The bytes of an access.  An access of 4, 8 or 16 bytes that starts at a multiple of four and stays in its block takes
  whole slots; for these the assertion at the beginning of both checks (\<open>om_assert\<close>, empty without \<open>TOOL_DEBUG\<close>) holds, and
  two of them share a slot of a block exactly if they share a byte.\<close>

definition bytes_of :: "u64 \<Rightarrow> u64 \<Rightarrow> nat set" where
  "bytes_of address size' = {unat address..<unat address + unat size'}"

definition whole_slots :: "u64 \<Rightarrow> u64 \<Rightarrow> bool" where
  "whole_slots address size' \<longleftrightarrow> 4 dvd unat address \<and> 4 dvd unat size' \<and> 0 < unat size' \<and> unat address mod 16 + unat size' \<le> 16"

lemma ALIGN_BY_PREV_MAX_GRAIN_SIZE_eq: "unat (ALIGN_BY_PREV_MAX_GRAIN_SIZE address) = unat address div 16 * 16"
proof -
  have "NOT (MAX_GRAIN_SIZE - 1) = (NOT (mask 4) :: u64)" by (simp add: MAX_GRAIN_SIZE_def mask_eq_exp_minus_1)
  moreover have "address AND NOT (mask 4) = push_bit 4 (drop_bit 4 address)"
    by (rule bit_word_eqI) (auto simp: bit_simps)
  ultimately have "ALIGN_BY_PREV_MAX_GRAIN_SIZE address = push_bit 4 (drop_bit 4 address)"
    by (simp only: ALIGN_BY_PREV_MAX_GRAIN_SIZE_def)
  moreover have "unat (drop_bit 4 address) = drop_bit 4 (unat address)" by (rule unat_drop_bit_eq)
  then have "unat (drop_bit 4 address) = unat address div 16" by (simp only: drop_bit_eq_div) simp
  moreover have "unat address < 18446744073709551616" using unsigned_less [of address, where ?'a = nat] by simp
  then have "unat address div 16 < 1152921504606846976" by (intro less_mult_imp_div_less) simp
  moreover have "unat (push_bit 4 (drop_bit 4 address)) = take_bit 64 (push_bit 4 (unat (drop_bit 4 address)))"
    by (subst unsigned_push_bit_eq) simp
  ultimately show ?thesis by (simp only: push_bit_eq_mult) (simp add: take_bit_nat_eq_self)
qed

lemma whole_slots_asserted:
  assumes "whole_slots address size'"
  shows "unat (ALIGN_BY_PREV_MAX_GRAIN_SIZE address) \<le> unat address \<and>
    unat address + unat size' \<le> unat (ALIGN_BY_PREV_MAX_GRAIN_SIZE address) + unat MAX_GRAIN_SIZE"
proof -
  have e: "unat address div 16 * 16 + unat address mod 16 = unat address" by (rule div_mult_mod_eq)
  have "unat address mod 16 + unat size' \<le> 16" using assms by (simp add: whole_slots_def)
  moreover have "unat MAX_GRAIN_SIZE = 16" by (simp add: MAX_GRAIN_SIZE_def)
  ultimately show ?thesis using e unfolding ALIGN_BY_PREV_MAX_GRAIN_SIZE_eq by linarith
qed

lemma whole_slots_share:
  assumes "whole_slots a m" "whole_slots b n"
  shows "unat a div 16 = unat b div 16 \<and> (\<exists>i<NUM_SLOTS. i \<in> set (grains_of a m) \<and> i \<in> set (grains_of b n)) \<longleftrightarrow>
    bytes_of a m \<inter> bytes_of b n \<noteq> {}"
proof -
  obtain i j p q where s: "unat a mod 16 = 4 * i" "unat m = 4 * p" "unat b mod 16 = 4 * j" "unat n = 4 * q"
    using that [of "unat a mod 16 div 4" "unat m div 4" "unat b mod 16 div 4" "unat n div 4"] assms
    by (simp add: whole_slots_def dvd_mod)
  have k: "0 < p" "0 < q" "i + p \<le> 4" "j + q \<le> 4" using assms by (auto simp: whole_slots_def s)
  have a: "unat a = 16 * (unat a div 16) + 4 * i" and b: "unat b = 16 * (unat b div 16) + 4 * j"
    by (metis s(1) mult_div_mod_eq, metis s(3) mult_div_mod_eq)
  have "unat m < 2 ^ 32" "unat n < 2 ^ 32" using k by (simp_all add: s)
  then have g: "grains_of a m = [i..<i + p]" "grains_of b n = [j..<j + q]" by (simp_all add: grains_of_eq s)
  have "(\<exists>x. l \<le> x \<and> x < r \<and> l' \<le> x \<and> x < r') \<longleftrightarrow> l < r \<and> l' < r' \<and> l < r' \<and> l' < r" for l r l' r' :: nat
    by (rule iffI, linarith, intro exI [of _ "max l l'"]) auto
  note meet = this
  have "bytes_of a m \<inter> bytes_of b n \<noteq> {} \<longleftrightarrow> unat a < unat b + 4 * q \<and> unat b < unat a + 4 * p"
    using meet [of "unat a" "unat a + 4 * p" "unat b" "unat b + 4 * q"] k by (auto simp: bytes_of_def s)
  also have "\<dots> \<longleftrightarrow> unat a div 16 = unat b div 16 \<and> i < j + q \<and> j < i + p" (is "?l \<longleftrightarrow> ?r")
  proof
    assume ?l
    then have "unat a div 16 \<le> unat b div 16" "unat b div 16 \<le> unat a div 16" using a b k by linarith+
    then have e: "unat a div 16 = unat b div 16" by simp
    then show ?r using \<open>?l\<close> a b by linarith
  next
    assume ?r
    then show ?l using a b by linarith
  qed
  finally have bytes: "bytes_of a m \<inter> bytes_of b n \<noteq> {} \<longleftrightarrow> unat a div 16 = unat b div 16 \<and> i < j + q \<and> j < i + p" .
  have "x < NUM_SLOTS" if "x < i + p" for x using that k by (simp add: NUM_SLOTS_def)
  then have "(\<exists>x<NUM_SLOTS. x \<in> set (grains_of a m) \<and> x \<in> set (grains_of b n)) \<longleftrightarrow>
      (\<exists>x. i \<le> x \<and> x < i + p \<and> j \<le> x \<and> x < j + q)" unfolding g set_upt atLeastLessThan_iff by blast
  also have "\<dots> \<longleftrightarrow> i < j + q \<and> j < i + p" using meet [of i "i + p" j "j + q"] k by simp
  finally show ?thesis unfolding bytes by blast
qed

text \<open>The destructor leaves nothing behind.\<close>

lemma mem_list_delete_ok:
  "snd (mem_list_delete m) = mem_list_empty (start_addr m)"
  by (cases m) (simp add: mem_list_delete_def mem_list_empty_def Let_def)

subsection \<open>The orders\<close>

text \<open>
  The interface to the two orders.  A strand of \<open>S\<close> is a pair of places; \<open>posE\<close> and \<open>posH\<close> are the positions in the orders, in
  which no two strands coincide, and the queries compare positions.
\<close>

definition parallel :: "('s \<Rightarrow> nat) \<Rightarrow> ('s \<Rightarrow> nat) \<Rightarrow> 's \<Rightarrow> 's \<Rightarrow> bool" where
  "parallel posE posH s t \<longleftrightarrow> (posE s < posE t) \<noteq> (posH s < posH t)"

definition prec :: "('s \<Rightarrow> nat) \<Rightarrow> ('s \<Rightarrow> nat) \<Rightarrow> 's \<Rightarrow> 's \<Rightarrow> bool" where
  "prec posE posH s t \<longleftrightarrow> posE s < posE t \<and> posH s < posH t"

text \<open>The accesses to one slot, the oldest first: whether they read, and their strands.\<close>

type_synonym 's history = "(bool \<times> 's) list"

definition racy :: "('s \<Rightarrow> nat) \<Rightarrow> ('s \<Rightarrow> nat) \<Rightarrow> 's history \<Rightarrow> bool" where
  "racy posE posH hs \<longleftrightarrow>
     (\<exists>i j. i < j \<and> j < length hs \<and> \<not> (fst (hs ! i) \<and> fst (hs ! j)) \<and> parallel posE posH (snd (hs ! i)) (snd (hs ! j)))"

text \<open>The execution order respects the orders: no access precedes an earlier one.\<close>

definition in_order :: "('s \<Rightarrow> nat) \<Rightarrow> ('s \<Rightarrow> nat) \<Rightarrow> 's history \<Rightarrow> bool" where
  "in_order posE posH hs \<longleftrightarrow> sorted_wrt (\<lambda>a b. \<not> prec posE posH (snd b) (snd a)) hs"

definition reads_of :: "'s history \<Rightarrow> 's set" where "reads_of hs = {s. (True, s) \<in> set hs}"
definition writes_of :: "'s history \<Rightarrow> 's set" where "writes_of hs = {s. (False, s) \<in> set hs}"

lemma history_snoc [simp]:
  "reads_of (hs @ [(b, s)]) = (if b then insert s (reads_of hs) else reads_of hs)"
  "writes_of (hs @ [(b, s)]) = (if b then writes_of hs else insert s (writes_of hs))"
  "reads_of [] = {}" "writes_of [] = {}"
  by (auto simp: reads_of_def writes_of_def)

lemma racy_snoc:
  "racy posE posH (hs @ [(b, s)]) \<longleftrightarrow>
     racy posE posH hs \<or> (\<exists>t\<in>writes_of hs \<union> (if b then {} else reads_of hs). parallel posE posH t s)"
proof -
  let ?c = "\<lambda>x y. \<not> (fst x \<and> fst y) \<and> parallel posE posH (snd x) (snd y)"
  have "racy posE posH (hs @ [x]) \<longleftrightarrow> racy posE posH hs \<or> (\<exists>y\<in>set hs. ?c y x)" for x
    unfolding racy_def
  proof
    assume "\<exists>i j. i < j \<and> j < length (hs @ [x]) \<and> ?c ((hs @ [x]) ! i) ((hs @ [x]) ! j)"
    then obtain i j where ij: "i < j" "j < Suc (length hs)" "?c ((hs @ [x]) ! i) ((hs @ [x]) ! j)" by auto
    show "(\<exists>i j. i < j \<and> j < length hs \<and> ?c (hs ! i) (hs ! j)) \<or> (\<exists>y\<in>set hs. ?c y x)"
    proof (cases "j = length hs")
      case True
      with ij show ?thesis by (auto simp: nth_append)
    next
      case False
      with ij have "i < length hs" "j < length hs" by auto
      with ij show ?thesis by (auto simp: nth_append)
    qed
  next
    assume "(\<exists>i j. i < j \<and> j < length hs \<and> ?c (hs ! i) (hs ! j)) \<or> (\<exists>y\<in>set hs. ?c y x)"
    then consider i j where "i < j" "j < length hs" "?c (hs ! i) (hs ! j)" | i where "i < length hs" "?c (hs ! i) x"
      by (metis in_set_conv_nth)
    then show "\<exists>i j. i < j \<and> j < length (hs @ [x]) \<and> ?c ((hs @ [x]) ! i) ((hs @ [x]) ! j)"
    proof cases
      case 1
      then show ?thesis by (intro exI [of _ i] exI [of _ j]) (simp add: nth_append)
    next
      case 2
      then show ?thesis by (intro exI [of _ i] exI [of _ "length hs"]) (simp add: nth_append)
    qed
  qed
  moreover have "(\<exists>y\<in>set hs. ?c y (b, s)) \<longleftrightarrow> (\<exists>c t. (c, t) \<in> set hs \<and> \<not> (c \<and> b) \<and> parallel posE posH t s)"
    by force
  ultimately show ?thesis by (auto simp: reads_of_def writes_of_def ex_bool_eq)
qed

definition strand_of :: "mem_access \<Rightarrow> ptr \<times> ptr" where
  "strand_of a = (estrand a, hstrand a)"

text \<open>What the three histories of a slot say about the accesses so far.\<close>

definition tracks ::
  "(ptr \<times> ptr \<Rightarrow> nat) \<Rightarrow> (ptr \<times> ptr \<Rightarrow> nat) \<Rightarrow> mem_access option \<Rightarrow> mem_access option \<Rightarrow> mem_access option \<Rightarrow>
   (ptr \<times> ptr) history \<Rightarrow> bool" where
  "tracks posE posH l r w hs \<longleftrightarrow>
     (case l of None \<Rightarrow> reads_of hs = {}
      | Some a \<Rightarrow> strand_of a \<in> reads_of hs \<and> (\<forall>s\<in>reads_of hs. posH s \<le> posH (strand_of a))) \<and>
     (case r of None \<Rightarrow> reads_of hs = {}
      | Some a \<Rightarrow> strand_of a \<in> reads_of hs \<and> (\<forall>s\<in>reads_of hs. posE s \<le> posE (strand_of a))) \<and>
     (case w of None \<Rightarrow> writes_of hs = {}
      | Some a \<Rightarrow> strand_of a \<in> writes_of hs \<and>
          (\<not> racy posE posH hs \<longrightarrow> (\<forall>s\<in>writes_of hs. s = strand_of a \<or> prec posE posH s (strand_of a))))"

locale two_orders =
  fixes qe qh :: query and S :: "(ptr \<times> ptr) set" and posE posH :: "ptr \<times> ptr \<Rightarrow> nat"
  assumes inj: "inj_on posE S" "inj_on posH S"
    and ask_e: "s \<in> S \<Longrightarrow> t \<in> S \<Longrightarrow> qe (fst s) (fst t) = Some (posE s < posE t)"
    and ask_h: "s \<in> S \<Longrightarrow> t \<in> S \<Longrightarrow> qh (snd s) (snd t) = Some (posH s < posH t)"
begin

lemma races_with_eq:
  assumes "strand_of a \<in> S" "strand_of c \<in> S"
  shows "races_with qe qh a (estrand c) (hstrand c) = Some (parallel posE posH (strand_of a) (strand_of c))"
  using ask_e [OF assms] ask_h [OF assms] by (auto simp: races_with_def strand_of_def parallel_def)

lemma check_slot_eq:
  assumes "i < length xs" "\<And>a. xs ! i = Some a \<Longrightarrow> strand_of a \<in> S" "strand_of c \<in> S"
  shows "\<exists>r. check_slot qe qh kind start xs c i = Some r \<and>
     (r \<noteq> [] \<longleftrightarrow> (\<exists>a. xs ! i = Some a \<and> parallel posE posH (strand_of a) (strand_of c)))"
  using assms races_with_eq by (cases "xs ! i") (auto simp: check_slot_def slot_def)

lemma S_eq: "s \<in> S \<Longrightarrow> t \<in> S \<Longrightarrow> posE s = posE t \<Longrightarrow> s = t" "s \<in> S \<Longrightarrow> t \<in> S \<Longrightarrow> posH s = posH t \<Longrightarrow> s = t"
  using inj by (auto dest: inj_onD)

text \<open>What is not parallel and not later comes before.\<close>

lemma before_or_same:
  assumes "s \<in> S" "t \<in> S" "\<not> parallel posE posH s t" "\<not> prec posE posH t s"
  shows "s = t \<or> prec posE posH s t"
proof (cases "posE s = posE t \<or> posH s = posH t")
  case True
  then show ?thesis using S_eq assms(1,2) by blast
next
  case False
  with assms(3,4) show ?thesis unfolding parallel_def prec_def by linarith
qed

lemma prec_parallel:
  assumes "s = t \<or> prec posE posH s t" "t = u \<or> prec posE posH t u"
  shows "\<not> parallel posE posH s u"
  using assms unfolding parallel_def prec_def by auto

lemma in_order_snoc:
  "in_order posE posH (hs @ [(b, s)]) \<Longrightarrow>
     in_order posE posH hs \<and> (\<forall>t\<in>reads_of hs \<union> writes_of hs. \<not> prec posE posH s t)"
  by (auto simp: in_order_def sorted_wrt_append reads_of_def writes_of_def)

lemma update_lreader_eq:
  assumes "strand_of c \<in> S" "\<And>a. l = Some a \<Longrightarrow> strand_of a \<in> S \<and> \<not> prec posE posH (strand_of c) (strand_of a)"
  shows "\<exists>l'. update_lreader qe qh c l = Some l' \<and>
     strand_of l' = (case l of None \<Rightarrow> strand_of c
                     | Some a \<Rightarrow> if posH (strand_of a) < posH (strand_of c) then strand_of c else strand_of a)"
proof (cases l)
  case (Some a)
  let ?a = "strand_of a" and ?c = "strand_of c"
  have a: "?a \<in> S" "\<not> prec posE posH ?c ?a" using assms(2) [OF Some] by auto
  have "qe (estrand c) (estrand a) = Some (posE ?c < posE ?a)" "qh (hstrand a) (hstrand c) = Some (posH ?a < posH ?c)"
    using ask_e [OF assms(1) a(1)] ask_h [OF a(1) assms(1)] by (auto simp: strand_of_def)
  moreover have "posH ?a < posH ?c" if "posE ?c < posE ?a"
    using that a S_eq(2) [OF a(1) assms(1)] unfolding prec_def by fastforce
  ultimately show ?thesis
    using Some by (auto simp: update_lreader_def update_acc_info_def strand_of_def)
qed (simp add: update_lreader_def)

lemma update_rreader_eq:
  assumes "strand_of c \<in> S" "\<And>a. r = Some a \<Longrightarrow> strand_of a \<in> S"
  shows "\<exists>r'. update_rreader qe c r = Some r' \<and>
     strand_of r' = (case r of None \<Rightarrow> strand_of c
                     | Some a \<Rightarrow> if posE (strand_of a) < posE (strand_of c) then strand_of c else strand_of a)"
proof (cases r)
  case (Some a)
  have "qe (estrand a) (estrand c) = Some (posE (strand_of a) < posE (strand_of c))"
    using ask_e [OF assms(2) [OF Some] assms(1)] by (simp add: strand_of_def)
  with Some show ?thesis by (simp add: update_rreader_def update_acc_info_def strand_of_def)
qed (simp add: update_rreader_def)

text \<open>The left-most and the right-most reader stand for all readers.\<close>

lemma readers_represented:
  assumes t: "tracks posE posH l r w hs" and s: "s \<in> S" "reads_of hs \<subseteq> S"
    and later: "\<forall>t\<in>reads_of hs. \<not> prec posE posH s t"
  shows "(\<exists>t\<in>reads_of hs. parallel posE posH t s) \<longleftrightarrow>
     (\<exists>a. (l = Some a \<or> r = Some a) \<and> parallel posE posH (strand_of a) s)"
proof
  assume "\<exists>t\<in>reads_of hs. parallel posE posH t s"
  then obtain u where u: "u \<in> reads_of hs" "parallel posE posH u s" by blast
  then obtain a b where ab: "l = Some a" "r = Some b" using t by (auto simp: tracks_def split: option.splits)
  let ?a = "strand_of a" and ?b = "strand_of b"
  have a: "?a \<in> reads_of hs" "posH u \<le> posH ?a" and b: "?b \<in> reads_of hs" "posE u \<le> posE ?b"
    using t u(1) ab by (auto simp: tracks_def)
  have aS: "?a \<in> S" "?b \<in> S" "u \<in> S" using a b u(1) s(2) by auto
  have nu: "posE u \<noteq> posE s" "posH u \<noteq> posH s" using u(2) S_eq [OF aS(3) s(1)] unfolding parallel_def by auto
  show "\<exists>a. (l = Some a \<or> r = Some a) \<and> parallel posE posH (strand_of a) s"
  proof (cases "posE u < posE s")
    case True
    then have "posH s < posH u" using u(2) nu unfolding parallel_def by linarith
    then have "posH s < posH ?a" using a(2) by linarith
    moreover from this have "posE ?a < posE s"
      using later a(1) S_eq(1) [OF aS(1) s(1)] unfolding prec_def by (metis linorder_neqE_nat less_irrefl)
    ultimately have "parallel posE posH ?a s" unfolding parallel_def by linarith
    with ab show ?thesis by blast
  next
    case False
    then have "posE s < posE u" "posH u < posH s" using u(2) nu unfolding parallel_def by linarith+
    then have "posE s < posE ?b" using b(2) by linarith
    moreover from this have "posH ?b < posH s"
      using later b(1) S_eq(2) [OF aS(2) s(1)] unfolding prec_def by (metis linorder_neqE_nat less_irrefl)
    ultimately have "parallel posE posH ?b s" unfolding parallel_def by linarith
    with ab show ?thesis by blast
  qed
next
  assume "\<exists>a. (l = Some a \<or> r = Some a) \<and> parallel posE posH (strand_of a) s"
  then show "\<exists>t\<in>reads_of hs. parallel posE posH t s" using t by (auto simp: tracks_def)
qed

lemma writer_represented:
  assumes t: "tracks posE posH l r w hs" and s: "s \<in> S" "writes_of hs \<subseteq> S"
    and later: "\<forall>t\<in>writes_of hs. \<not> prec posE posH s t" and clean: "\<not> racy posE posH hs"
  shows "(\<exists>t\<in>writes_of hs. parallel posE posH t s) \<longleftrightarrow> (\<exists>a. w = Some a \<and> parallel posE posH (strand_of a) s)"
proof
  assume "\<exists>t\<in>writes_of hs. parallel posE posH t s"
  then obtain u where u: "u \<in> writes_of hs" "parallel posE posH u s" by blast
  then obtain a where a: "w = Some a" "strand_of a \<in> writes_of hs" "u = strand_of a \<or> prec posE posH u (strand_of a)"
    using t clean by (auto simp: tracks_def split: option.splits)
  have "parallel posE posH (strand_of a) s"
  proof (rule ccontr)
    assume "\<not> parallel posE posH (strand_of a) s"
    then have "strand_of a = s \<or> prec posE posH (strand_of a) s"
      using a(2) s later by (intro before_or_same) auto
    with a(3) have "\<not> parallel posE posH u s" by (rule prec_parallel)
    with u(2) show False by contradiction
  qed
  with a(1) show "\<exists>a. w = Some a \<and> parallel posE posH (strand_of a) s" by blast
next
  assume "\<exists>a. w = Some a \<and> parallel posE posH (strand_of a) s"
  then show "\<exists>t\<in>writes_of hs. parallel posE posH t s" using t by (auto simp: tracks_def)
qed

lemma tracks_read:
  assumes t: "tracks posE posH l r w hs"
    and l': "strand_of l' = (case l of None \<Rightarrow> s | Some a \<Rightarrow> if posH (strand_of a) < posH s then s else strand_of a)"
    and r': "strand_of r' = (case r of None \<Rightarrow> s | Some a \<Rightarrow> if posE (strand_of a) < posE s then s else strand_of a)"
  shows "tracks posE posH (Some l') (Some r') w (hs @ [(True, s)])"
  using assms by (auto simp: tracks_def racy_snoc split: option.splits if_splits)

lemma tracks_write:
  assumes t: "tracks posE posH l r w hs" and s: "strand_of c \<in> S" "writes_of hs \<subseteq> S"
    and later: "\<forall>t\<in>writes_of hs. \<not> prec posE posH (strand_of c) t"
  shows "tracks posE posH l r (Some c) (hs @ [(False, strand_of c)])"
proof -
  have "u = strand_of c \<or> prec posE posH u (strand_of c)"
    if "\<not> racy posE posH (hs @ [(False, strand_of c)])" "u \<in> writes_of hs" for u
    using that s later by (intro before_or_same) (auto simp: racy_snoc)
  then show ?thesis using t by (auto simp: tracks_def split: option.splits)
qed

lemma in_order_reads:
  "in_order posE posH (hs @ [(b, s)]) \<Longrightarrow> \<forall>t\<in>reads_of hs. \<not> prec posE posH s t"
  "in_order posE posH (hs @ [(b, s)]) \<Longrightarrow> \<forall>t\<in>writes_of hs. \<not> prec posE posH s t"
  using in_order_snoc by blast+

end

subsection \<open>A sequence of accesses\<close>

text \<open>An access as \<open>record_mem_helper\<close> hands it on.\<close>

record access =
  ac_read :: bool
  ac_inst :: u64
  ac_addr :: u64
  ac_size :: u64
  ac_estrand :: ptr
  ac_hstrand :: ptr

definition check_access :: "query \<Rightarrow> query \<Rightarrow> access \<Rightarrow> mem_list \<Rightarrow> (race list \<times> mem_list) option" where
  "check_access qe qh a =
     check_races_and_update qe qh (ac_read a) (ac_inst a) (ac_addr a) (ac_size a) (ac_estrand a) (ac_hstrand a)"

fun check_accesses :: "query \<Rightarrow> query \<Rightarrow> access list \<Rightarrow> mem_list \<Rightarrow> (race list \<times> mem_list) option" where
  "check_accesses qe qh [] m = Some ([], m)"
| "check_accesses qe qh (a # as) m =
     do { (r, m) \<leftarrow> check_access qe qh a m; (rs, m) \<leftarrow> check_accesses qe qh as m; Some (r @ rs, m) }"

lemma check_accesses_snoc:
  "check_accesses qe qh (as @ [a]) m =
     do { (r, m) \<leftarrow> check_accesses qe qh as m; (rs, m) \<leftarrow> check_access qe qh a m; Some (r @ rs, m) }"
  by (induction "as" arbitrary: m) (auto split: bind_splits)

definition ac_strand :: "access \<Rightarrow> ptr \<times> ptr" where "ac_strand a = (ac_estrand a, ac_hstrand a)"
definition ac_grains :: "access \<Rightarrow> nat list" where "ac_grains a = grains_of (ac_addr a) (ac_size a)"
definition ac_record :: "access \<Rightarrow> mem_access" where
  "ac_record a = \<lparr>estrand = ac_estrand a, hstrand = ac_hstrand a, rip = ac_inst a\<rparr>"

lemma strand_of_ac_record [simp]: "strand_of (ac_record a) = ac_strand a"
  by (simp add: strand_of_def ac_record_def ac_strand_def)

definition as_history :: "access list \<Rightarrow> (ptr \<times> ptr) history" where
  "as_history as = map (\<lambda>a. (ac_read a, ac_strand a)) as"

text \<open>The accesses to slot \<open>i\<close>.\<close>

definition slot_history :: "nat \<Rightarrow> access list \<Rightarrow> (ptr \<times> ptr) history" where
  "slot_history i as = as_history (filter (\<lambda>a. i \<in> set (ac_grains a)) as)"

lemma slot_history_snoc:
  "slot_history i (as @ [a]) =
     (if i \<in> set (ac_grains a) then slot_history i as @ [(ac_read a, ac_strand a)] else slot_history i as)"
  by (simp add: slot_history_def as_history_def)

definition fits :: "access \<Rightarrow> bool" where
  "fits a \<longleftrightarrow> set (ac_grains a) \<subseteq> {..<NUM_SLOTS}"

lemma whole_slots_fits: "whole_slots (ac_addr a) (ac_size a) \<Longrightarrow> fits a"
  unfolding fits_def ac_grains_def by (rule grains_fit) (simp add: whole_slots_def)

text \<open>A race, said without the detector: two accesses to a common byte, not both reads, of parallel strands.\<close>

definition racy_bytes :: "(ptr \<times> ptr \<Rightarrow> nat) \<Rightarrow> (ptr \<times> ptr \<Rightarrow> nat) \<Rightarrow> access list \<Rightarrow> bool" where
  "racy_bytes posE posH as \<longleftrightarrow>
     (\<exists>p q. p < q \<and> q < length as \<and> \<not> (ac_read (as ! p) \<and> ac_read (as ! q)) \<and>
        bytes_of (ac_addr (as ! p)) (ac_size (as ! p)) \<inter> bytes_of (ac_addr (as ! q)) (ac_size (as ! q)) \<noteq> {} \<and>
        parallel posE posH (ac_strand (as ! p)) (ac_strand (as ! q)))"

lemma distinct_grains [simp]: "distinct (ac_grains a)"
  by (simp add: ac_grains_def grains_of_def Let_def)

lemma in_order_slot: "in_order posE posH (as_history as) \<Longrightarrow> in_order posE posH (slot_history i as)"
  by (auto simp: in_order_def slot_history_def as_history_def sorted_wrt_map intro: sorted_wrt_filter)

lemma history_in:
  "\<forall>a\<in>set as. ac_strand a \<in> S \<Longrightarrow> reads_of (slot_history i as) \<subseteq> S \<and> writes_of (slot_history i as) \<subseteq> S"
  by (auto simp: reads_of_def writes_of_def slot_history_def as_history_def)

definition tracks_list ::
  "(ptr \<times> ptr \<Rightarrow> nat) \<Rightarrow> (ptr \<times> ptr \<Rightarrow> nat) \<Rightarrow> mem_list \<Rightarrow> access list \<Rightarrow> bool" where
  "tracks_list posE posH m as \<longleftrightarrow> wf_list m \<and>
     (\<forall>i<NUM_SLOTS. tracks posE posH (lreaders m ! i) (rreaders m ! i) (writers m ! i) (slot_history i as))"

lemma tracks_empty: "tracks_list posE posH (mem_list_empty start) []"
  by (simp add: tracks_list_def wf_list_def mem_list_empty_def slot_history_def as_history_def tracks_def)

lemma tracks_members:
  assumes "tracks posE posH l r w hs" "reads_of hs \<subseteq> S" "writes_of hs \<subseteq> S"
  shows "l = Some a \<Longrightarrow> strand_of a \<in> S \<and> strand_of a \<in> reads_of hs"
    and "r = Some a \<Longrightarrow> strand_of a \<in> S \<and> strand_of a \<in> reads_of hs" and "w = Some a \<Longrightarrow> strand_of a \<in> S"
  using assms by (auto simp: tracks_def)

context two_orders
begin

text \<open>What is known of one slot when an access to it comes.\<close>

lemma slot_facts:
  assumes m: "tracks_list posE posH m as" and i: "i < NUM_SLOTS" "i \<in> set (ac_grains a)"
    and S: "\<forall>b\<in>set as. ac_strand b \<in> S" and ord: "in_order posE posH (as_history (as @ [a]))"
  shows "tracks posE posH (lreaders m ! i) (rreaders m ! i) (writers m ! i) (slot_history i as)"
    and "reads_of (slot_history i as) \<subseteq> S" "writes_of (slot_history i as) \<subseteq> S"
    and "\<forall>t\<in>reads_of (slot_history i as). \<not> prec posE posH (ac_strand a) t"
    and "\<forall>t\<in>writes_of (slot_history i as). \<not> prec posE posH (ac_strand a) t"
    and "length (lreaders m) = NUM_SLOTS" "length (rreaders m) = NUM_SLOTS" "length (writers m) = NUM_SLOTS"
proof -
  have "in_order posE posH (slot_history i as @ [(ac_read a, ac_strand a)])"
    using in_order_slot [OF ord, of i] i(2) by (simp add: slot_history_snoc)
  then show "\<forall>t\<in>reads_of (slot_history i as). \<not> prec posE posH (ac_strand a) t"
    "\<forall>t\<in>writes_of (slot_history i as). \<not> prec posE posH (ac_strand a) t"
    by (rule in_order_reads)+
qed (use m i history_in [OF S] in \<open>auto simp: tracks_list_def wf_list_def\<close>)

lemma check_slots_exact:
  assumes len: "length xs = NUM_SLOTS" and a: "fits a" "ac_strand a \<in> S"
    and mem: "\<forall>i\<in>set (ac_grains a). \<forall>b. xs ! i = Some b \<longrightarrow> strand_of b \<in> S"
  shows "\<forall>i\<in>set (ac_grains a). \<exists>r. check_slot qe qh kind start xs (ac_record a) i = Some r"
    and "(\<exists>i\<in>set (ac_grains a). check_slot qe qh kind start xs (ac_record a) i \<noteq> Some []) \<longleftrightarrow>
       (\<exists>i\<in>set (ac_grains a). \<exists>b. xs ! i = Some b \<and> parallel posE posH (strand_of b) (ac_strand a))"
proof -
  have one: "\<exists>r. check_slot qe qh kind start xs (ac_record a) i = Some r \<and>
      (r \<noteq> [] \<longleftrightarrow> (\<exists>b. xs ! i = Some b \<and> parallel posE posH (strand_of b) (ac_strand a)))"
    if "i \<in> set (ac_grains a)" for i
    using check_slot_eq [of i xs "ac_record a" kind start] that a mem len by (auto simp: fits_def)
  from one show "\<forall>i\<in>set (ac_grains a). \<exists>r. check_slot qe qh kind start xs (ac_record a) i = Some r" by blast
  from one show "(\<exists>i\<in>set (ac_grains a). check_slot qe qh kind start xs (ac_record a) i \<noteq> Some []) \<longleftrightarrow>
       (\<exists>i\<in>set (ac_grains a). \<exists>b. xs ! i = Some b \<and> parallel posE posH (strand_of b) (ac_strand a))"
    by (metis option.inject)
qed

lemma racy_new:
  assumes clean: "\<forall>i<NUM_SLOTS. \<not> racy posE posH (slot_history i as)" and "fits a"
    and "\<And>i. i \<in> set (ac_grains a) \<Longrightarrow>
       P i \<longleftrightarrow> (\<exists>t\<in>writes_of (slot_history i as) \<union> (if ac_read a then {} else reads_of (slot_history i as)).
                 parallel posE posH t (ac_strand a))"
  shows "(\<exists>i\<in>set (ac_grains a). P i) \<longleftrightarrow> (\<exists>i<NUM_SLOTS. racy posE posH (slot_history i (as @ [a])))"
proof -
  have "racy posE posH (slot_history i (as @ [a])) \<longleftrightarrow> i \<in> set (ac_grains a) \<and> P i" if "i < NUM_SLOTS" for i
    using assms(3) [of i] clean that by (simp add: slot_history_snoc racy_snoc)
  with assms(2) show ?thesis by (auto simp: fits_def)
qed

text \<open>One access: it reports something exactly if it is the second of a race, and the histories keep track.\<close>

lemma read_step:
  assumes m: "tracks_list posE posH m as" and a: "fits a" "ac_read a" "ac_strand a \<in> S"
    and S: "\<forall>b\<in>set as. ac_strand b \<in> S" and ord: "in_order posE posH (as_history (as @ [a]))"
  shows "\<exists>rs m'. check_access qe qh a m = Some (rs, m') \<and> tracks_list posE posH m' (as @ [a]) \<and>
     ((\<forall>i<NUM_SLOTS. \<not> racy posE posH (slot_history i as)) \<longrightarrow>
        (rs \<noteq> [] \<longleftrightarrow> (\<exists>i<NUM_SLOTS. racy posE posH (slot_history i (as @ [a])))))"
proof -
  let ?c = "ac_record a" and ?is = "ac_grains a"
  note f = slot_facts [OF m _ _ S ord]
  have len: "length (lreaders m) = NUM_SLOTS" "length (rreaders m) = NUM_SLOTS" "length (writers m) = NUM_SLOTS"
    using m by (auto simp: tracks_list_def wf_list_def)
  have i: "i < NUM_SLOTS" if "i \<in> set ?is" for i using that a(1) by (auto simp: fits_def)
  have mem: "lreaders m ! j = Some b \<Longrightarrow> strand_of b \<in> S \<and> strand_of b \<in> reads_of (slot_history j as)"
    "rreaders m ! j = Some b \<Longrightarrow> strand_of b \<in> S" "writers m ! j = Some b \<Longrightarrow> strand_of b \<in> S"
    if "j \<in> set ?is" for j b
    using tracks_members [OF f(1-3)] i that by blast+
  have "\<forall>i\<in>set ?is. \<forall>b. writers m ! i = Some b \<longrightarrow> strand_of b \<in> S" using mem(3) by blast
  note w = check_slots_exact [OF len(3) a(1) a(3) this]
  obtain rs where rs: "check_slots qe qh WR_RACE (start_addr m) (writers m) ?c ?is = Some rs"
    "rs \<noteq> [] \<longleftrightarrow> (\<exists>i\<in>set ?is. \<exists>b. writers m ! i = Some b \<and> parallel posE posH (strand_of b) (ac_strand a))"
    using check_slots_ok [OF w(1)] w(2) by blast
  have L: "\<exists>l'. update_lreader qe qh ?c (lreaders m ! i) = Some l' \<and>
     strand_of l' = (case lreaders m ! i of None \<Rightarrow> ac_strand a
       | Some b \<Rightarrow> if posH (strand_of b) < posH (ac_strand a) then ac_strand a else strand_of b)" if "i \<in> set ?is" for i
  proof -
    have "strand_of b \<in> S \<and> \<not> prec posE posH (strand_of ?c) (strand_of b)" if "lreaders m ! i = Some b" for b
      using mem(1) [OF \<open>i \<in> set ?is\<close> that] f(4) [OF i [OF \<open>i \<in> set ?is\<close>] \<open>i \<in> set ?is\<close>] by simp
    from update_lreader_eq [OF _ this] a(3) show ?thesis by (simp only: strand_of_ac_record)
  qed
  have R: "\<exists>r'. update_rreader qe ?c (rreaders m ! i) = Some r' \<and>
     strand_of r' = (case rreaders m ! i of None \<Rightarrow> ac_strand a
       | Some b \<Rightarrow> if posE (strand_of b) < posE (ac_strand a) then ac_strand a else strand_of b)" if "i \<in> set ?is" for i
    using update_rreader_eq [of ?c "rreaders m ! i"] mem(2) [OF that] a(3) by (simp only: strand_of_ac_record)
  have "\<forall>i\<in>set ?is. i < length (lreaders m) \<and> update_lreader qe qh ?c (lreaders m ! i) \<noteq> None"
    "\<forall>i\<in>set ?is. i < length (rreaders m) \<and> update_rreader qe ?c (rreaders m ! i) \<noteq> None"
    using L R i len by fastforce+
  from this [THEN update_slots_ok, OF distinct_grains] obtain ls rr where
    ls: "update_slots (update_lreader qe qh ?c) (lreaders m) ?is = Some ls" "length ls = NUM_SLOTS"
      "\<forall>i<NUM_SLOTS. ls ! i = (if i \<in> set ?is then update_lreader qe qh ?c (lreaders m ! i) else lreaders m ! i)"
    and rr: "update_slots (update_rreader qe ?c) (rreaders m) ?is = Some rr" "length rr = NUM_SLOTS"
      "\<forall>i<NUM_SLOTS. rr ! i = (if i \<in> set ?is then update_rreader qe ?c (rreaders m ! i) else rreaders m ! i)"
    unfolding len by blast
  let ?m = "m\<lparr>lreaders := ls, rreaders := rr\<rparr>"
  have run: "check_access qe qh a m = Some (rs, ?m)"
    using rs(1) ls(1) rr(1) a(2)
    by (simp add: check_access_def check_races_and_update_def check_races_and_update_with_read_def Let_def
        ac_record_def ac_grains_def)
  have "tracks posE posH (ls ! i) (rr ! i) (writers m ! i) (slot_history i (as @ [a]))" if n: "i < NUM_SLOTS" for i
  proof (cases "i \<in> set ?is")
    case True
    obtain l' r' where "ls ! i = Some l'" "rr ! i = Some r'"
      and "strand_of l' = (case lreaders m ! i of None \<Rightarrow> ac_strand a
       | Some b \<Rightarrow> if posH (strand_of b) < posH (ac_strand a) then ac_strand a else strand_of b)"
      and "strand_of r' = (case rreaders m ! i of None \<Rightarrow> ac_strand a
       | Some b \<Rightarrow> if posE (strand_of b) < posE (ac_strand a) then ac_strand a else strand_of b)"
      using L [OF True] R [OF True] ls(3) rr(3) n True by auto
    then show ?thesis
      using tracks_read [OF f(1) [OF n True]] a(2) True by (simp add: slot_history_snoc)
  next
    case False
    then show ?thesis using ls(3) rr(3) n m by (simp add: slot_history_snoc tracks_list_def)
  qed
  then have "tracks_list posE posH ?m (as @ [a])" using ls(2) rr(2) len by (simp add: tracks_list_def wf_list_def)
  moreover have "rs \<noteq> [] \<longleftrightarrow> (\<exists>i<NUM_SLOTS. racy posE posH (slot_history i (as @ [a])))"
    if clean: "\<forall>i<NUM_SLOTS. \<not> racy posE posH (slot_history i as)"
    unfolding rs(2)
  proof (rule racy_new [OF clean a(1)])
    fix i assume "i \<in> set ?is"
    then show "(\<exists>b. writers m ! i = Some b \<and> parallel posE posH (strand_of b) (ac_strand a)) \<longleftrightarrow>
        (\<exists>t\<in>writes_of (slot_history i as) \<union> (if ac_read a then {} else reads_of (slot_history i as)).
           parallel posE posH t (ac_strand a))"
      using writer_represented [OF f(1) a(3) f(3) f(5)] i clean a(2) by simp
  qed
  ultimately show ?thesis using run by blast
qed

lemma write_step:
  assumes m: "tracks_list posE posH m as" and a: "fits a" "\<not> ac_read a" "ac_strand a \<in> S"
    and S: "\<forall>b\<in>set as. ac_strand b \<in> S" and ord: "in_order posE posH (as_history (as @ [a]))"
  shows "\<exists>rs m'. check_access qe qh a m = Some (rs, m') \<and> tracks_list posE posH m' (as @ [a]) \<and>
     ((\<forall>i<NUM_SLOTS. \<not> racy posE posH (slot_history i as)) \<longrightarrow>
        (rs \<noteq> [] \<longleftrightarrow> (\<exists>i<NUM_SLOTS. racy posE posH (slot_history i (as @ [a])))))"
proof -
  let ?c = "ac_record a" and ?is = "ac_grains a"
  let ?par = "\<lambda>xs i. \<exists>b. xs ! i = Some b \<and> parallel posE posH (strand_of b) (ac_strand a)"
  note f = slot_facts [OF m _ _ S ord]
  have len: "length (lreaders m) = NUM_SLOTS" "length (rreaders m) = NUM_SLOTS" "length (writers m) = NUM_SLOTS"
    using m by (auto simp: tracks_list_def wf_list_def)
  have i: "i < NUM_SLOTS" if "i \<in> set ?is" for i using that a(1) by (auto simp: fits_def)
  have mem: "lreaders m ! j = Some b \<Longrightarrow> strand_of b \<in> S"
    "rreaders m ! j = Some b \<Longrightarrow> strand_of b \<in> S" "writers m ! j = Some b \<Longrightarrow> strand_of b \<in> S"
    if "j \<in> set ?is" for j b
    using tracks_members [OF f(1-3)] i that by blast+
  have ms: "\<forall>i\<in>set ?is. \<forall>b. writers m ! i = Some b \<longrightarrow> strand_of b \<in> S"
    "\<forall>i\<in>set ?is. \<forall>b. lreaders m ! i = Some b \<longrightarrow> strand_of b \<in> S"
    "\<forall>i\<in>set ?is. \<forall>b. rreaders m ! i = Some b \<longrightarrow> strand_of b \<in> S"
    using mem by blast+
  note w = check_slots_exact [OF len(3) a(1) a(3) ms(1)]
  note l = check_slots_exact [OF len(1) a(1) a(3) ms(2)]
  note r = check_slots_exact [OF len(2) a(1) a(3) ms(3)]
  have "\<forall>i\<in>set ?is. i < length (writers m) \<and> (\<exists>r. check_slot qe qh WW_RACE (start_addr m) (writers m) ?c i = Some r)"
    using w(1) i len(3) by simp
  from write_slots_ok [OF this distinct_grains] obtain ww ws where
    ww: "write_slots qe qh (start_addr m) ?c (writers m) ?is = Some (ww, ws)" "length ws = NUM_SLOTS"
      "\<forall>i<NUM_SLOTS. ws ! i = (if i \<in> set ?is then Some ?c else writers m ! i)" "ww \<noteq> [] \<longleftrightarrow> (\<exists>i\<in>set ?is. ?par (writers m) i)"
    unfolding w(2) len by blast
  obtain lw where lw: "check_slots qe qh RW_RACE (start_addr m) (lreaders m) ?c ?is = Some lw"
    "lw \<noteq> [] \<longleftrightarrow> (\<exists>i\<in>set ?is. ?par (lreaders m) i)"
    using check_slots_ok [OF l(1)] unfolding l(2) by blast
  obtain rw where rw: "check_slots qe qh RW_RACE (start_addr m) (rreaders m) ?c ?is = Some rw"
    "rw \<noteq> [] \<longleftrightarrow> (\<exists>i\<in>set ?is. ?par (rreaders m) i)"
    using check_slots_ok [OF r(1)] unfolding r(2) by blast
  have run: "check_access qe qh a m = Some (ww @ lw @ rw, m\<lparr>writers := ws\<rparr>)"
    using ww(1) lw(1) rw(1) a(2)
    by (simp add: check_access_def check_races_and_update_def check_races_and_update_with_write_def Let_def
        ac_record_def ac_grains_def)
  have "tracks posE posH (lreaders m ! i) (rreaders m ! i) (ws ! i) (slot_history i (as @ [a]))" if n: "i < NUM_SLOTS" for i
  proof (cases "i \<in> set ?is")
    case True
    then show ?thesis
      using tracks_write [OF f(1), of i ?c] f(3,5) [OF n True] a ww(3) n by (simp add: slot_history_snoc)
  next
    case False
    then show ?thesis using ww(3) n m by (simp add: slot_history_snoc tracks_list_def)
  qed
  then have "tracks_list posE posH (m\<lparr>writers := ws\<rparr>) (as @ [a])"
    using ww(2) len by (simp add: tracks_list_def wf_list_def)
  moreover have "ww @ lw @ rw \<noteq> [] \<longleftrightarrow> (\<exists>i<NUM_SLOTS. racy posE posH (slot_history i (as @ [a])))"
    if clean: "\<forall>i<NUM_SLOTS. \<not> racy posE posH (slot_history i as)"
  proof -
    have "ww @ lw @ rw \<noteq> [] \<longleftrightarrow> (\<exists>i\<in>set ?is. ?par (writers m) i \<or> ?par (lreaders m) i \<or> ?par (rreaders m) i)"
      using ww(4) lw(2) rw(2) by blast
    also have "\<dots> \<longleftrightarrow> (\<exists>i<NUM_SLOTS. racy posE posH (slot_history i (as @ [a])))"
    proof (rule racy_new [OF clean a(1)])
      fix i assume si: "i \<in> set ?is"
      note n = i [OF si]
      have "?par (writers m) i \<longleftrightarrow> (\<exists>t\<in>writes_of (slot_history i as). parallel posE posH t (ac_strand a))"
        using writer_represented [OF f(1) a(3) f(3) f(5)] n si clean by simp
      moreover have "?par (lreaders m) i \<or> ?par (rreaders m) i \<longleftrightarrow>
          (\<exists>t\<in>reads_of (slot_history i as). parallel posE posH t (ac_strand a))"
        using readers_represented [OF f(1) a(3) f(2) f(4)] n si by blast
      ultimately show "(?par (writers m) i \<or> ?par (lreaders m) i \<or> ?par (rreaders m) i) \<longleftrightarrow>
        (\<exists>t\<in>writes_of (slot_history i as) \<union> (if ac_read a then {} else reads_of (slot_history i as)).
           parallel posE posH t (ac_strand a))"
        using a(2) by (simp add: bex_Un)
    qed
    finally show ?thesis .
  qed
  ultimately show ?thesis using run by blast
qed

lemma access_step:
  assumes "tracks_list posE posH m as" and "fits a" "ac_strand a \<in> S"
    and "\<forall>b\<in>set as. ac_strand b \<in> S" and "in_order posE posH (as_history (as @ [a]))"
  shows "\<exists>rs m'. check_access qe qh a m = Some (rs, m') \<and> tracks_list posE posH m' (as @ [a]) \<and>
     ((\<forall>i<NUM_SLOTS. \<not> racy posE posH (slot_history i as)) \<longrightarrow>
        (rs \<noteq> [] \<longleftrightarrow> (\<exists>i<NUM_SLOTS. racy posE posH (slot_history i (as @ [a])))))"
  using read_step [OF assms(1,2) _ assms(3-5)] write_step [OF assms(1,2) _ assms(3-5)] by (cases "ac_read a") simp_all

text \<open>The detector is exact: a block is reported exactly if two conflicting accesses to one slot are parallel.\<close>

lemma check_accesses_exact:
  assumes "\<forall>a\<in>set as. fits a \<and> ac_strand a \<in> S" and "in_order posE posH (as_history as)"
  shows "\<exists>rs m. check_accesses qe qh as (mem_list_empty start) = Some (rs, m) \<and> tracks_list posE posH m as \<and>
     (rs \<noteq> [] \<longleftrightarrow> (\<exists>i<NUM_SLOTS. racy posE posH (slot_history i as)))"
  using assms
proof (induction "as" rule: rev_induct)
  case Nil
  show ?case using tracks_empty by (simp add: slot_history_def as_history_def racy_def)
next
  case (snoc a "as")
  have "in_order posE posH (as_history as)"
    using snoc.prems(2) by (simp add: in_order_def as_history_def sorted_wrt_append)
  then obtain rs m where m: "check_accesses qe qh as (mem_list_empty start) = Some (rs, m)" "tracks_list posE posH m as"
    "rs \<noteq> [] \<longleftrightarrow> (\<exists>i<NUM_SLOTS. racy posE posH (slot_history i as))"
    using snoc.IH snoc.prems(1) by auto
  have S: "\<forall>b\<in>set as. ac_strand b \<in> S" "fits a" "ac_strand a \<in> S" using snoc.prems(1) by auto
  obtain r m' where r: "check_access qe qh a m = Some (r, m')" "tracks_list posE posH m' (as @ [a])"
    "(\<forall>i<NUM_SLOTS. \<not> racy posE posH (slot_history i as)) \<longrightarrow>
        (r \<noteq> [] \<longleftrightarrow> (\<exists>i<NUM_SLOTS. racy posE posH (slot_history i (as @ [a]))))"
    using access_step [OF m(2) S(2,3,1) snoc.prems(2)] by metis
  have mono: "racy posE posH (slot_history i (as @ [a]))" if "racy posE posH (slot_history i as)" for i
    using that by (simp add: slot_history_snoc racy_snoc)
  have "rs @ r \<noteq> [] \<longleftrightarrow> (\<exists>i<NUM_SLOTS. racy posE posH (slot_history i (as @ [a])))"
    using m(3) r(3) mono by (cases "rs = []") auto
  with m(1) r(1,2) show ?case by (simp add: check_accesses_snoc)
qed

end

end
