(* ===== verification/Shadow_Mem.thy ===== *)
theory Shadow_Mem
  imports Race_Check
begin

text \<open>
  The shadow memory (\<open>rdtool/src/shadow_mem.h\<close>): a directory of tables, indexed by the upper and the lower bits
  of a key, that hold a pointer per block of 16 bytes; and its use by the instrumentation
  (\<open>rdtool/src/instrumentation.cpp\<close>: \<open>record_mem_helper\<close>, \<open>tsan_read\<close>, \<open>tsan_write\<close>).

  A table entry is the object it points to.  Sequential operations first; then \<open>insert\<close> as the steps between
  which other threads run, with each compare-and-swap one step.
\<close>

unbundle bit_operations_syntax

subsection \<open>The table\<close>

definition LOG_TBL_SIZE :: nat where "LOG_TBL_SIZE = 20"

definition ADDR_TO_KEY :: "u64 \<Rightarrow> u64" where "ADDR_TO_KEY address = drop_bit LOG_KEY_SIZE address"

type_synonym 'a shadow_tbl = "nat \<Rightarrow> 'a option"
type_synonym 'a shadow_dir = "nat \<Rightarrow> 'a shadow_tbl option"

definition DIR_SIZE :: nat where "DIR_SIZE = 2 ^ (48 - LOG_TBL_SIZE - LOG_KEY_SIZE)"
definition dir_index :: "u64 \<Rightarrow> nat" where "dir_index key = unat (drop_bit LOG_TBL_SIZE key)"
definition entry_index :: "u64 \<Rightarrow> nat" where "entry_index key = unat (key AND (2 ^ LOG_TBL_SIZE - 1))"

definition shadow_new :: "'a shadow_dir" where "shadow_new = (\<lambda>_. None)"

text \<open>The address of a slot is its place in the directory and in the table.\<close>

definition find_slot :: "u64 \<Rightarrow> bool \<Rightarrow> 'a shadow_dir \<Rightarrow> ((nat \<times> nat) option \<times> 'a shadow_dir) option" where
  "find_slot key alloc s =
     do { let d = dir_index key;
          check (d < DIR_SIZE);
          (case s d of
             Some tbl \<Rightarrow> Some (Some (d, entry_index key), s)
           | None \<Rightarrow> if \<not> alloc then Some (None, s)
                     else Some (Some (d, entry_index key), s(d \<mapsto> (\<lambda>_. None)))) }"

definition slot_value :: "nat \<times> nat \<Rightarrow> 'a shadow_dir \<Rightarrow> 'a option" where
  "slot_value p s = do { tbl \<leftarrow> s (fst p); tbl (snd p) }"

definition set_slot :: "nat \<times> nat \<Rightarrow> 'a option \<Rightarrow> 'a shadow_dir \<Rightarrow> 'a shadow_dir" where
  "set_slot p v s = (case s (fst p) of None \<Rightarrow> s | Some tbl \<Rightarrow> s(fst p \<mapsto> tbl(snd p := v)))"

definition shadow_find :: "u64 \<Rightarrow> 'a shadow_dir \<Rightarrow> 'a option option" where
  "shadow_find key s =
     do { (slot, s) \<leftarrow> find_slot key False s;
          Some (case slot of None \<Rightarrow> None | Some p \<Rightarrow> slot_value p s) }"

text \<open>The value in the slot afterwards: the new one unless the slot was taken.\<close>

definition shadow_insert :: "u64 \<Rightarrow> 'a \<Rightarrow> 'a shadow_dir \<Rightarrow> ('a \<times> 'a shadow_dir) option" where
  "shadow_insert key val s =
     do { (slot, s) \<leftarrow> find_slot key True s;
          p \<leftarrow> slot;
          Some (case slot_value p s of None \<Rightarrow> (val, set_slot p (Some val) s) | Some v \<Rightarrow> (v, s)) }"

definition shadow_erase :: "u64 \<Rightarrow> 'a shadow_dir \<Rightarrow> 'a shadow_dir option" where
  "shadow_erase key s =
     do { (slot, s) \<leftarrow> find_slot key False s;
          Some (case slot of None \<Rightarrow> s
                | Some p \<Rightarrow> (case slot_value p s of None \<Rightarrow> s | Some v \<Rightarrow> set_slot p None s)) }"

subsection \<open>The table is a map\<close>

definition shadow_map :: "'a shadow_dir \<Rightarrow> u64 \<Rightarrow> 'a option" where
  "shadow_map s key = slot_value (dir_index key, entry_index key) s"

definition key_ok :: "u64 \<Rightarrow> bool" where "key_ok key \<longleftrightarrow> dir_index key < DIR_SIZE"

lemma entry_index_eq: "entry_index key = unat (take_bit 20 key)"
  by (simp add: entry_index_def LOG_TBL_SIZE_def take_bit_eq_mask mask_eq_exp_minus_1)

lemma key_parts: "dir_index k = dir_index k' \<Longrightarrow> entry_index k = entry_index k' \<Longrightarrow> k = k'"
proof -
  assume "dir_index k = dir_index k'" "entry_index k = entry_index k'"
  then have "drop_bit 20 k = drop_bit 20 k'" "take_bit 20 k = take_bit 20 k'"
    by (simp_all only: dir_index_def entry_index_eq LOG_TBL_SIZE_def word_unat_eq_iff)
  then show ?thesis by (metis bits_ident)
qed

lemma shadow_map_upd:
  "s (dir_index k) \<noteq> None \<Longrightarrow> shadow_map (set_slot (dir_index k, entry_index k) v s) = (shadow_map s)(k := v)"
proof
  fix k' assume "s (dir_index k) \<noteq> None"
  then show "shadow_map (set_slot (dir_index k, entry_index k) v s) k' = ((shadow_map s)(k := v)) k'"
    using key_parts [of k k'] by (auto simp: shadow_map_def slot_value_def set_slot_def)
qed

lemma find_slot_ok:
  assumes "key_ok k"
  shows "\<exists>slot s'. find_slot k alloc s = Some (slot, s') \<and> shadow_map s' = shadow_map s \<and>
     (slot = None \<longleftrightarrow> \<not> alloc \<and> s (dir_index k) = None) \<and> (\<not> alloc \<longrightarrow> s' = s) \<and>
     (slot \<noteq> None \<longrightarrow> slot = Some (dir_index k, entry_index k) \<and> s' (dir_index k) \<noteq> None)"
proof (cases "s (dir_index k)")
  case None
  have "shadow_map (s(dir_index k \<mapsto> \<lambda>_. None)) = shadow_map s"
    using None by (auto simp: shadow_map_def slot_value_def fun_eq_iff)
  with None assms show ?thesis by (cases alloc) (simp_all add: find_slot_def key_ok_def Let_def)
next
  case (Some tbl)
  with assms show ?thesis by (simp add: find_slot_def key_ok_def)
qed

lemma shadow_find_ok: "key_ok k \<Longrightarrow> shadow_find k s = Some (shadow_map s k)"
proof -
  assume "key_ok k"
  from find_slot_ok [OF this, of False s] show ?thesis
    by (auto simp: shadow_find_def shadow_map_def slot_value_def split: option.splits)
qed

lemma shadow_insert_ok:
  assumes "key_ok k"
  shows "\<exists>s'. shadow_insert k v s = Some (case shadow_map s k of None \<Rightarrow> v | Some u \<Rightarrow> u, s') \<and>
     shadow_map s' = (case shadow_map s k of None \<Rightarrow> (shadow_map s)(k \<mapsto> v) | Some u \<Rightarrow> shadow_map s)"
proof -
  obtain s1 where s1: "find_slot k True s = Some (Some (dir_index k, entry_index k), s1)"
    "shadow_map s1 = shadow_map s" "s1 (dir_index k) \<noteq> None"
    using find_slot_ok [OF assms, of True s] by auto
  have "slot_value (dir_index k, entry_index k) s1 = shadow_map s k" by (simp flip: s1(2) add: shadow_map_def)
  with s1 shadow_map_upd [of s1 k "Some v"] show ?thesis
    by (cases "shadow_map s k") (simp_all add: shadow_insert_def)
qed

lemma shadow_erase_ok:
  assumes "key_ok k" shows "\<exists>s'. shadow_erase k s = Some s' \<and> shadow_map s' = (shadow_map s)(k := None)"
proof (cases "s (dir_index k)")
  case None
  then have "shadow_map s k = None" by (simp add: shadow_map_def slot_value_def)
  then have "(shadow_map s)(k := None) = shadow_map s" by (metis fun_upd_triv)
  then show ?thesis using assms None by (simp add: shadow_erase_def find_slot_def key_ok_def)
next
  case (Some tbl)
  then have f: "find_slot k False s = Some (Some (dir_index k, entry_index k), s)"
    using assms by (simp add: find_slot_def key_ok_def)
  show ?thesis
  proof (cases "shadow_map s k")
    case None
    then have "(shadow_map s)(k := None) = shadow_map s" by (metis fun_upd_triv)
    with f None show ?thesis by (simp add: shadow_erase_def shadow_map_def)
  next
    case (Some v)
    with f shadow_map_upd [of s k None] \<open>s (dir_index k) = Some tbl\<close> show ?thesis
      by (simp add: shadow_erase_def shadow_map_def)
  qed
qed

lemma key_ok_addr: "unat address < 2 ^ 48 \<Longrightarrow> key_ok (ADDR_TO_KEY address)"
proof -
  assume a: "unat address < 2 ^ 48"
  have "dir_index (ADDR_TO_KEY address) = unat (drop_bit 24 address)"
    by (simp add: dir_index_def ADDR_TO_KEY_def LOG_TBL_SIZE_def LOG_KEY_SIZE_def drop_bit_drop_bit)
  also have "\<dots> = drop_bit 24 (unat address)" by (rule unat_drop_bit_eq)
  also have "\<dots> = unat address div 2 ^ 24" by (simp only: drop_bit_eq_div)
  also have "\<dots> < 2 ^ 24" using a by (simp add: less_mult_imp_div_less)
  finally show ?thesis by (simp add: key_ok_def DIR_SIZE_def LOG_TBL_SIZE_def LOG_KEY_SIZE_def)
qed

subsection \<open>Concurrent insertions\<close>

text \<open>
  A thread that runs \<open>insert\<close>: it loads the entry of the directory, tries to put a new table there until it reads one,
  loads the slot, tries to put its value there until it reads one, and returns what it read.  A key whose index is outside
  of the directory has no step, as it stops \<open>find_slot\<close>.
\<close>

datatype 'a pc = Load_Dir | Cas_Dir | Load_Slot | Cas_Slot | Returned 'a

inductive insert_step ::
  "u64 \<Rightarrow> 'a \<Rightarrow> 'a pc \<times> 'a shadow_dir \<Rightarrow> 'a pc \<times> 'a shadow_dir \<Rightarrow> bool" for key val where
  load_dir_null: "dir_index key < DIR_SIZE \<Longrightarrow> s (dir_index key) = None \<Longrightarrow> insert_step key val (Load_Dir, s) (Cas_Dir, s)"
| load_dir: "dir_index key < DIR_SIZE \<Longrightarrow> s (dir_index key) \<noteq> None \<Longrightarrow> insert_step key val (Load_Dir, s) (Load_Slot, s)"
| cas_dir_wins: "s (dir_index key) = None \<Longrightarrow>
    insert_step key val (Cas_Dir, s) (Cas_Dir, s(dir_index key \<mapsto> (\<lambda>_. None)))"
| cas_dir_reads: "s (dir_index key) \<noteq> None \<Longrightarrow> insert_step key val (Cas_Dir, s) (Load_Slot, s)"
| load_slot_null: "shadow_map s key = None \<Longrightarrow> insert_step key val (Load_Slot, s) (Cas_Slot, s)"
| load_slot: "shadow_map s key = Some v \<Longrightarrow> insert_step key val (Load_Slot, s) (Returned v, s)"
| cas_slot_wins: "shadow_map s key = None \<Longrightarrow>
    insert_step key val (Cas_Slot, s) (Cas_Slot, set_slot (dir_index key, entry_index key) (Some val) s)"
| cas_slot_reads: "shadow_map s key = Some v \<Longrightarrow> insert_step key val (Cas_Slot, s) (Returned v, s)"

inductive_cases insert_stepE: "insert_step key val c c'"

text \<open>Threads, each with the key and the value of its insertion.\<close>

inductive threads_step ::
  "(nat \<Rightarrow> u64 \<times> 'a) \<Rightarrow> (nat \<Rightarrow> 'a pc) \<times> 'a shadow_dir \<Rightarrow> (nat \<Rightarrow> 'a pc) \<times> 'a shadow_dir \<Rightarrow> bool" for arg where
  "insert_step (fst (arg t)) (snd (arg t)) (pcs t, s) (p, s') \<Longrightarrow> threads_step arg (pcs, s) (pcs(t := p), s')"

abbreviation threads_run ::
  "(nat \<Rightarrow> u64 \<times> 'a) \<Rightarrow> (nat \<Rightarrow> 'a pc) \<times> 'a shadow_dir \<Rightarrow> (nat \<Rightarrow> 'a pc) \<times> 'a shadow_dir \<Rightarrow> bool" where
  "threads_run arg \<equiv> (threads_step arg)\<^sup>*\<^sup>*"

text \<open>No step takes a table or a value away.\<close>

definition grows :: "'a shadow_dir \<Rightarrow> 'a shadow_dir \<Rightarrow> bool" where
  "grows s s' \<longleftrightarrow> (\<forall>d. s d \<noteq> None \<longrightarrow> s' d \<noteq> None) \<and> (\<forall>k v. shadow_map s k = Some v \<longrightarrow> shadow_map s' k = Some v)"

definition past_dir :: "'a pc \<Rightarrow> bool" where
  "past_dir p \<longleftrightarrow> p \<noteq> Load_Dir \<and> p \<noteq> Cas_Dir"

lemma insert_step_effect:
  assumes "insert_step key val (p, s) (p', s')" and "past_dir p \<longrightarrow> s (dir_index key) \<noteq> None"
  shows "grows s s'" and "past_dir p' \<longrightarrow> s' (dir_index key) \<noteq> None"
    and "p' = Returned v \<longrightarrow> shadow_map s' key = Some v"
    and "shadow_map s' k = Some v \<longrightarrow> shadow_map s k = Some v \<or> k = key \<and> v = val"
proof -
  have new_tbl: "shadow_map (s(dir_index key \<mapsto> \<lambda>_. None)) = shadow_map s" if "s (dir_index key) = None"
    using that by (auto simp: shadow_map_def slot_value_def fun_eq_iff)
  have new_val: "shadow_map (set_slot (dir_index key, entry_index key) (Some val) s) = (shadow_map s)(key \<mapsto> val)"
    if "p = Cas_Slot" using that assms(2) by (intro shadow_map_upd) (simp add: past_dir_def)
  show "grows s s'"
    using assms(1) new_tbl new_val by (cases rule: insert_step.cases) (auto simp: grows_def set_slot_def split: option.splits)
  show "past_dir p' \<longrightarrow> s' (dir_index key) \<noteq> None"
    using assms by (cases rule: insert_step.cases) (auto simp: past_dir_def set_slot_def split: option.splits)
  show "p' = Returned v \<longrightarrow> shadow_map s' key = Some v"
    using assms(1) by (cases rule: insert_step.cases) auto
  show "shadow_map s' k = Some v \<longrightarrow> shadow_map s k = Some v \<or> k = key \<and> v = val"
    using assms(1) new_tbl new_val by (cases rule: insert_step.cases) (auto split: if_splits)
qed

definition threads_inv ::
  "(nat \<Rightarrow> u64 \<times> 'a) \<Rightarrow> 'a shadow_dir \<Rightarrow> (nat \<Rightarrow> 'a pc) \<times> 'a shadow_dir \<Rightarrow> bool" where
  "threads_inv arg s0 c \<longleftrightarrow> grows s0 (snd c) \<and>
     (\<forall>t. past_dir (fst c t) \<longrightarrow> snd c (dir_index (fst (arg t))) \<noteq> None) \<and>
     (\<forall>t v. fst c t = Returned v \<longrightarrow> shadow_map (snd c) (fst (arg t)) = Some v) \<and>
     (\<forall>k v. shadow_map (snd c) k = Some v \<longrightarrow> shadow_map s0 k = Some v \<or> (\<exists>t. arg t = (k, v)))"

lemma grows_trans: "grows s s' \<Longrightarrow> grows s' s'' \<Longrightarrow> grows s s''"
  by (simp add: grows_def)

lemma threads_inv_step:
  assumes "threads_step arg c c'" "threads_inv arg s0 c" shows "threads_inv arg s0 c'"
  using assms(1)
proof cases
  case (1 t pcs s p s')
  note step = 1(3)
  have pd: "past_dir (pcs t) \<longrightarrow> s (dir_index (fst (arg t))) \<noteq> None" using assms(2) 1(1) by (simp add: threads_inv_def)
  note e = insert_step_effect [OF step pd]
  have inv: "grows s0 s" "\<And>u. past_dir (pcs u) \<Longrightarrow> s (dir_index (fst (arg u))) \<noteq> None"
    "\<And>u v. pcs u = Returned v \<Longrightarrow> shadow_map s (fst (arg u)) = Some v"
    "\<And>k v. shadow_map s k = Some v \<Longrightarrow> shadow_map s0 k = Some v \<or> (\<exists>t. arg t = (k, v))"
    using assms(2) 1(1) by (auto simp: threads_inv_def)
  have "grows s0 s'" using grows_trans [OF inv(1) e(1)] .
  moreover have "s' (dir_index (fst (arg u))) \<noteq> None" if "past_dir ((pcs(t := p)) u)" for u
    using that e(1,2) inv(2) [of u] by (cases "u = t") (auto simp: grows_def)
  moreover have "shadow_map s' (fst (arg u)) = Some v" if "(pcs(t := p)) u = Returned v" for u v
    using that e(1) e(3) [of v] inv(3) [of u v] by (cases "u = t") (auto simp: grows_def)
  moreover have "shadow_map s0 k = Some v \<or> (\<exists>t. arg t = (k, v))" if "shadow_map s' k = Some v" for k v
    using e(4) [of k v] that inv(4) [of k v] by (metis prod.collapse)
  ultimately show ?thesis using 1(2) by (simp add: threads_inv_def)
qed

lemma threads_run_inv: "threads_run arg ((\<lambda>_. Load_Dir), s0) c \<Longrightarrow> threads_inv arg s0 c"
proof (induction rule: rtranclp_induct)
  case base
  show ?case by (simp add: threads_inv_def grows_def past_dir_def)
next
  case (step c c')
  then show ?case using threads_inv_step by blast
qed

text \<open>All insertions of a key return the same value: the one that was there, or the value of one of them.\<close>

lemma threads_agree:
  assumes "threads_run arg ((\<lambda>_. Load_Dir), s0) (pcs, s)" and "pcs t = Returned v"
  shows "shadow_map s (fst (arg t)) = Some v"
    and "\<forall>u w. fst (arg u) = fst (arg t) \<longrightarrow> pcs u = Returned w \<longrightarrow> w = v"
    and "shadow_map s0 (fst (arg t)) = Some v \<or> shadow_map s0 (fst (arg t)) = None \<and> (\<exists>u. arg u = (fst (arg t), v))"
proof -
  note inv = threads_run_inv [OF assms(1)]
  show s: "shadow_map s (fst (arg t)) = Some v" using inv assms(2) by (simp add: threads_inv_def)
  show "\<forall>u w. fst (arg u) = fst (arg t) \<longrightarrow> pcs u = Returned w \<longrightarrow> w = v"
    using inv s unfolding threads_inv_def by (metis fst_conv option.inject snd_conv)
  show "shadow_map s0 (fst (arg t)) = Some v \<or> shadow_map s0 (fst (arg t)) = None \<and> (\<exists>u. arg u = (fst (arg t), v))"
  proof (cases "shadow_map s0 (fst (arg t))")
    case None
    have "\<forall>k v. shadow_map s k = Some v \<longrightarrow> shadow_map s0 k = Some v \<or> (\<exists>t. arg t = (k, v))"
      using inv by (simp add: threads_inv_def)
    with None s show ?thesis by (metis option.distinct(1))
  next
    case (Some w)
    then show ?thesis using inv s by (simp add: threads_inv_def grows_def)
  qed
qed

text \<open>
  An insertion is wait-free: a thread that has not returned can take a step, each of its steps lowers \<open>steps_left\<close>, and no
  step of another thread raises it.  So it has returned after six steps of its own, in every schedule.
\<close>

fun steps_left :: "u64 \<Rightarrow> 'a pc \<Rightarrow> 'a shadow_dir \<Rightarrow> nat" where
  "steps_left key Load_Dir s = 6"
| "steps_left key Cas_Dir s = (if s (dir_index key) = None then 5 else 4)"
| "steps_left key Load_Slot s = 3"
| "steps_left key Cas_Slot s = (if shadow_map s key = None then 2 else 1)"
| "steps_left key (Returned v) s = 0"

lemma insert_step_progress: "key_ok key \<Longrightarrow> (\<nexists>v. p = Returned v) \<Longrightarrow> \<exists>c. insert_step key val (p, s) c"
proof -
  assume k: "key_ok key" and "\<nexists>v. p = Returned v"
  then consider "p = Load_Dir" | "p = Cas_Dir" | "p = Load_Slot" | "p = Cas_Slot" by (cases p) auto
  then show ?thesis using k unfolding key_ok_def
    by cases (cases "s (dir_index key)"; cases "shadow_map s key"; blast intro: insert_step.intros)+
qed

lemma insert_step_own:
  assumes "insert_step key val (p, s) (p', s')" and "past_dir p \<longrightarrow> s (dir_index key) \<noteq> None"
  shows "steps_left key p' s' < steps_left key p s"
  using assms(1)
proof cases
  case cas_slot_wins
  then have "shadow_map s' key = Some val" using assms(2) by (simp add: shadow_map_upd past_dir_def)
  with cas_slot_wins show ?thesis by simp
qed auto

lemma steps_left_grows: "grows s s' \<Longrightarrow> steps_left key p s' \<le> steps_left key p s"
proof -
  assume "grows s s'"
  then have "s' d = None \<Longrightarrow> s d = None" "shadow_map s' key = None \<Longrightarrow> shadow_map s key = None" for d
    unfolding grows_def by (metis option.exhaust)+
  then show ?thesis by (cases p) auto
qed

text \<open>A run with the list of the threads that took its steps.\<close>

inductive threads_sched ::
  "(nat \<Rightarrow> u64 \<times> 'a) \<Rightarrow> (nat \<Rightarrow> 'a pc) \<times> 'a shadow_dir \<Rightarrow> nat list \<Rightarrow> (nat \<Rightarrow> 'a pc) \<times> 'a shadow_dir \<Rightarrow> bool" for arg c where
  start: "threads_sched arg c [] c"
| turn: "threads_sched arg c ts (pcs, s) \<Longrightarrow> insert_step (fst (arg t)) (snd (arg t)) (pcs t, s) (p, s') \<Longrightarrow>
    threads_sched arg c (ts @ [t]) (pcs(t := p), s')"

lemma threads_sched_run: "threads_sched arg c ts c' \<Longrightarrow> threads_run arg c c'"
  by (induction rule: threads_sched.induct) (auto intro: rtranclp.rtrancl_into_rtrancl threads_step.intros)

lemma threads_sched_dir:
  "threads_sched arg ((\<lambda>_. Load_Dir), s0) ts (pcs, s) \<Longrightarrow> past_dir (pcs u) \<longrightarrow> s (dir_index (fst (arg u))) \<noteq> None"
  by (drule threads_sched_run, drule threads_run_inv) (simp add: threads_inv_def)

lemma steps_left_bound: "steps_left key p s \<le> 6"
  by (cases p) auto

lemma threads_sched_count:
  "threads_sched arg ((\<lambda>_. Load_Dir), s0) ts c \<Longrightarrow>
   count_list ts t + steps_left (fst (arg t)) (fst c t) (snd c) \<le> 6"
proof (induction rule: threads_sched.induct)
  case (turn ts pcs s u p s')
  have pd: "past_dir (pcs u) \<longrightarrow> s (dir_index (fst (arg u))) \<noteq> None" by (rule threads_sched_dir [OF turn.hyps(1)])
  have "steps_left (fst (arg t)) (pcs t) s' \<le> steps_left (fst (arg t)) (pcs t) s"
    using insert_step_effect(1) [OF turn.hyps(2) pd] by (rule steps_left_grows)
  then show ?case using turn.IH insert_step_own [OF turn.hyps(2) pd] by (cases "u = t") auto
qed simp

lemma steps_left_0: "steps_left key p s = 0 \<longleftrightarrow> (\<exists>v. p = Returned v)"
  by (cases p) simp_all

lemma threads_sched_bounded:
  assumes "threads_sched arg ((\<lambda>_. Load_Dir), s0) ts (pcs, s)" and "key_ok (fst (arg t))"
  shows "count_list ts t \<le> 6 \<and> (count_list ts t = 6 \<longrightarrow> (\<exists>v. pcs t = Returned v)) \<and>
    ((\<nexists>v. pcs t = Returned v) \<longrightarrow> (\<exists>p s'. threads_sched arg ((\<lambda>_. Load_Dir), s0) (ts @ [t]) (pcs(t := p), s')))"
proof -
  have c: "count_list ts t + steps_left (fst (arg t)) (pcs t) s \<le> 6" using threads_sched_count [OF assms(1), of t] by simp
  then have "count_list ts t = 6 \<longrightarrow> steps_left (fst (arg t)) (pcs t) s = 0" by linarith
  moreover have "\<exists>p s'. threads_sched arg ((\<lambda>_. Load_Dir), s0) (ts @ [t]) (pcs(t := p), s')" if ret: "\<nexists>v. pcs t = Returned v"
  proof -
    obtain p s' where "insert_step (fst (arg t)) (snd (arg t)) (pcs t, s) (p, s')"
      using insert_step_progress [OF assms(2) ret] by (metis surj_pair)
    from turn [OF assms(1) this] show ?thesis by blast
  qed
  ultimately show ?thesis using c by (simp add: steps_left_0)
qed

text \<open>A thread that runs alone inserts its value into an empty memory.\<close>

lemma insert_alone_sched:
  assumes "key_ok (fst (arg t))"
  shows "\<exists>pcs s. threads_sched arg ((\<lambda>_. Load_Dir), shadow_new) [t, t, t, t, t, t] (pcs, s) \<and> pcs t = Returned (snd (arg t))"
proof -
  let ?k = "fst (arg t)" and ?v = "snd (arg t)" and ?p = "\<lambda>q. (\<lambda>_. Load_Dir)(t := q)"
  let ?s1 = "shadow_new(dir_index ?k \<mapsto> (\<lambda>_. None)) :: 'a shadow_dir"
  let ?s2 = "set_slot (dir_index ?k, entry_index ?k) (Some ?v) ?s1"
  let ?run = "threads_sched arg ((\<lambda>_. Load_Dir), shadow_new)"
  have m: "shadow_map ?s1 ?k = None" "shadow_map ?s2 ?k = Some ?v"
    by (simp_all add: shadow_map_def slot_value_def set_slot_def)
  have step: "?run (ts @ [t]) (?p q', s')" if "?run ts (?p q, s)" "insert_step ?k ?v (q, s) (q', s')" for ts q s q' s'
    using turn [OF that(1), of t q' s'] that(2) by simp
  have 0: "?run [] (?p Load_Dir, shadow_new)" by (subst fun_upd_idem) (simp_all add: threads_sched.start)
  have 1: "?run ([] @ [t]) (?p Cas_Dir, shadow_new)"
    using assms by (intro step [OF 0] load_dir_null) (simp_all add: shadow_new_def key_ok_def)
  have 2: "?run (([] @ [t]) @ [t]) (?p Cas_Dir, ?s1)" by (intro step [OF 1] cas_dir_wins) (simp add: shadow_new_def)
  have 3: "?run ((([] @ [t]) @ [t]) @ [t]) (?p Load_Slot, ?s1)" by (intro step [OF 2] cas_dir_reads) simp
  have 4: "?run (((([] @ [t]) @ [t]) @ [t]) @ [t]) (?p Cas_Slot, ?s1)" by (intro step [OF 3] load_slot_null m)
  have 5: "?run ((((([] @ [t]) @ [t]) @ [t]) @ [t]) @ [t]) (?p Cas_Slot, ?s2)" by (intro step [OF 4] cas_slot_wins m)
  have 6: "?run (((((([] @ [t]) @ [t]) @ [t]) @ [t]) @ [t]) @ [t]) (?p (Returned ?v), ?s2)" by (intro step [OF 5] cas_slot_reads m)
  then show ?thesis by (intro exI [of _ "?p (Returned ?v)"] exI [of _ ?s2]) simp
qed

lemma insert_alone:
  assumes "key_ok (fst (arg t))"
  shows "\<exists>pcs s. threads_run arg ((\<lambda>_. Load_Dir), shadow_new) (pcs, s) \<and> pcs t = Returned (snd (arg t))"
  using insert_alone_sched [of arg t, OF assms] threads_sched_run by blast

subsection \<open>The instrumented accesses\<close>

type_synonym shadow = "mem_list shadow_dir"

text \<open>\<open>val->check_races_and_update(...)\<close> on the list in the slot.\<close>

definition check_found :: "query \<Rightarrow> query \<Rightarrow> access \<Rightarrow> shadow \<Rightarrow> (race list \<times> shadow) option" where
  "check_found qe qh a s =
     do { let key = ADDR_TO_KEY (ac_addr a);
          m \<leftarrow> shadow_map s key;
          (rs, m) \<leftarrow> check_access qe qh a m;
          Some (rs, set_slot (dir_index key, entry_index key) (Some m) s) }"

text \<open>
  The part of \<open>record_mem_helper\<close> after a search that found nothing: a new list, its insertion into the
  memory as it is by then, and the check against the list of another thread that was faster.
\<close>

definition record_mem_insert :: "query \<Rightarrow> query \<Rightarrow> access \<Rightarrow> shadow \<Rightarrow> (race list \<times> shadow) option" where
  "record_mem_insert qe qh a s =
     do { let key = ADDR_TO_KEY (ac_addr a);
          mem_list \<leftarrow> mem_list_new (ac_addr a) (ac_read a) (ac_estrand a) (ac_hstrand a) (ac_inst a) (ac_size a);
          won \<leftarrow> map_option (\<lambda>v. v = None) (shadow_find key s);
          (val, s) \<leftarrow> shadow_insert key mem_list s;
          if won then Some ([], s) else check_found qe qh a s }"

definition record_mem_helper :: "query \<Rightarrow> query \<Rightarrow> bool \<Rightarrow> u64 \<Rightarrow> u64 \<Rightarrow> u32 \<Rightarrow> ptr \<Rightarrow> ptr \<Rightarrow> shadow \<Rightarrow> (race list \<times> shadow) option" where
  "record_mem_helper qe qh is_read inst_addr address mem_size curDown curRight s =
     do { let a = \<lparr>ac_read = is_read, ac_inst = inst_addr, ac_addr = address, ac_size = ucast mem_size,
                   ac_estrand = curDown, ac_hstrand = curRight\<rparr>;
          val \<leftarrow> shadow_find (ADDR_TO_KEY address) s;
          if val = None then record_mem_insert qe qh a s else check_found qe qh a s }"

text \<open>Both paths do to the block of the address what a check of the list there does, or of an empty list if there is none.\<close>

definition block_access ::
  "query \<Rightarrow> query \<Rightarrow> access \<Rightarrow> (u64 \<Rightarrow> mem_list option) \<Rightarrow> (race list \<times> (u64 \<Rightarrow> mem_list option)) option" where
  "block_access qe qh a M =
     do { let key = ADDR_TO_KEY (ac_addr a);
          (rs, m) \<leftarrow> check_access qe qh a
            (case M key of None \<Rightarrow> mem_list_empty (ALIGN_BY_PREV_MAX_GRAIN_SIZE (ac_addr a)) | Some m \<Rightarrow> m);
          Some (rs, M(key \<mapsto> m)) }"

definition key_of :: "access \<Rightarrow> u64" where "key_of a = ADDR_TO_KEY (ac_addr a)"

lemma key_of_eq: "key_of a = key_of b \<longleftrightarrow> unat (ac_addr a) div 16 = unat (ac_addr b) div 16"
proof -
  have "unat (drop_bit 4 w) = unat w div 16" for w :: u64
  proof -
    have "unat (drop_bit 4 w) = drop_bit 4 (unat w)" by (rule unat_drop_bit_eq)
    then show ?thesis by (simp only: drop_bit_eq_div) simp
  qed
  then show ?thesis unfolding key_of_def ADDR_TO_KEY_def LOG_KEY_SIZE_def word_unat_eq_iff by simp
qed

lemma check_new:
  "check_access qe qh a (mem_list_empty (ALIGN_BY_PREV_MAX_GRAIN_SIZE (ac_addr a))) =
     map_option (Pair []) (mem_list_new (ac_addr a) (ac_read a) (ac_estrand a) (ac_hstrand a) (ac_inst a) (ac_size a))"
  unfolding check_access_def by (rule mem_list_new_eq [symmetric])

lemma shadow_map_Some: "shadow_map s k = Some v \<Longrightarrow> s (dir_index k) \<noteq> None"
  by (auto simp: shadow_map_def slot_value_def monad_simps)

lemma check_found_eq:
  "shadow_map s (key_of a) = Some m \<Longrightarrow>
   map_option (map_prod id shadow_map) (check_found qe qh a s) = block_access qe qh a (shadow_map s)"
  using shadow_map_upd [of s "key_of a"] shadow_map_Some [of s "key_of a" m]
  by (cases "check_access qe qh a m") (auto simp: check_found_def block_access_def key_of_def Let_def)

lemma mem_list_new_fits:
  assumes "fits a"
  shows "\<exists>m. mem_list_new (ac_addr a) (ac_read a) (ac_estrand a) (ac_hstrand a) (ac_inst a) (ac_size a) = Some m"
proof -
  let ?none = "replicate NUM_SLOTS (None :: mem_access option)" and ?is = "grains_of (ac_addr a) (ac_size a)"
  have "\<forall>i\<in>set ?is. i < length ?none \<and> (\<lambda>_. Some c) (?none ! i) \<noteq> None" for c :: mem_access
    using assms by (auto simp: fits_def ac_grains_def)
  from update_slots_ok [OF this] have u: "\<exists>ys. update_slots (\<lambda>_. Some c) ?none ?is = Some ys" for c by fastforce
  obtain ys where "update_slots (\<lambda>_. Some \<lparr>estrand = ac_estrand a, hstrand = ac_hstrand a, rip = ac_inst a\<rparr>) ?none ?is = Some ys"
    using u by blast
  then show ?thesis by (simp add: mem_list_new_def Let_def)
qed

lemma record_mem_insert_eq:
  assumes k: "key_ok (key_of a)"
  shows "map_option (map_prod id shadow_map) (record_mem_insert qe qh a s) =
    (case mem_list_new (ac_addr a) (ac_read a) (ac_estrand a) (ac_hstrand a) (ac_inst a) (ac_size a) of
       None \<Rightarrow> None | Some _ \<Rightarrow> block_access qe qh a (shadow_map s))"
proof (cases "mem_list_new (ac_addr a) (ac_read a) (ac_estrand a) (ac_hstrand a) (ac_inst a) (ac_size a)")
  case None
  then show ?thesis by (simp add: record_mem_insert_def)
next
  case (Some m0)
  have find: "shadow_find (key_of a) s = Some (shadow_map s (key_of a))" by (rule shadow_find_ok [OF k])
  obtain s' where s': "shadow_insert (key_of a) m0 s = Some (case shadow_map s (key_of a) of None \<Rightarrow> m0 | Some u \<Rightarrow> u, s')"
    "shadow_map s' = (case shadow_map s (key_of a) of None \<Rightarrow> (shadow_map s)(key_of a \<mapsto> m0) | Some u \<Rightarrow> shadow_map s)"
    using shadow_insert_ok [OF k, of m0 s] by (elim exE conjE) (rule that)
  show ?thesis
  proof (cases "shadow_map s (key_of a)")
    case None
    have "check_access qe qh a (mem_list_empty (ALIGN_BY_PREV_MAX_GRAIN_SIZE (ac_addr a))) = Some ([], m0)"
      using Some by (simp add: check_new)
    with None s' Some find show ?thesis by (simp add: record_mem_insert_def block_access_def key_of_def Let_def)
  next
    case (Some m)
    then have "shadow_map s' (key_of a) = Some m" using s' by simp
    from check_found_eq [OF this] Some s' \<open>mem_list_new _ _ _ _ _ _ = Some m0\<close> find show ?thesis
      by (simp add: record_mem_insert_def key_of_def Let_def)
  qed
qed

lemma record_mem_helper_eq:
  assumes k: "key_ok (ADDR_TO_KEY address)"
    and a: "a = \<lparr>ac_read = is_read, ac_inst = inst_addr, ac_addr = address, ac_size = ucast mem_size,
                   ac_estrand = e, ac_hstrand = h\<rparr>"
  shows "map_option (map_prod id shadow_map) (record_mem_helper qe qh is_read inst_addr address mem_size e h s) =
     block_access qe qh a (shadow_map s)"
proof -
  have key: "key_of a = ADDR_TO_KEY address" by (simp add: a key_of_def)
  show ?thesis
  proof (cases "shadow_map s (key_of a)")
    case None
    have "block_access qe qh a (shadow_map s) = None" if
      "mem_list_new (ac_addr a) (ac_read a) (ac_estrand a) (ac_hstrand a) (ac_inst a) (ac_size a) = None"
      using None that by (simp add: block_access_def check_new key_of_def Let_def)
    then have "map_option (map_prod id shadow_map) (record_mem_insert qe qh a s) = block_access qe qh a (shadow_map s)"
      using record_mem_insert_eq [of a qe qh s] k key by (auto split: option.splits)
    then show ?thesis using None shadow_find_ok [OF k, of s] key by (simp add: record_mem_helper_def Let_def a)
  next
    case (Some m)
    then show ?thesis using check_found_eq [OF Some, of qe qh] shadow_find_ok [OF k, of s] key
      by (simp add: record_mem_helper_def Let_def a)
  qed
qed

text \<open>\<open>tsan_read\<close> and \<open>tsan_write\<close>: nothing happens while checking is disabled, as within the tool itself.\<close>

record tsan =
  checking_disabled :: int
  shadow_mem :: shadow

definition enable_checking :: "tsan \<Rightarrow> tsan option" where
  "enable_checking g = do { let g = g\<lparr>checking_disabled := 0\<rparr>; check (checking_disabled g \<ge> 0); Some g }"

definition disable_checking :: "tsan \<Rightarrow> tsan option" where
  "disable_checking g = do { check (checking_disabled g \<ge> 0); Some (g\<lparr>checking_disabled := 1\<rparr>) }"

definition should_check :: "tsan \<Rightarrow> bool" where
  "should_check g \<longleftrightarrow> checking_disabled g = 0"

definition tsan_read :: "query \<Rightarrow> query \<Rightarrow> u64 \<Rightarrow> u64 \<Rightarrow> u64 \<Rightarrow> ptr \<Rightarrow> ptr \<Rightarrow> tsan \<Rightarrow> (race list \<times> tsan) option" where
  "tsan_read qe qh address mem_size inst_addr curDown curRight g =
     (if should_check g then
        do { g \<leftarrow> disable_checking g;
             (rs, s) \<leftarrow> record_mem_helper qe qh True inst_addr address (ucast mem_size) curDown curRight (shadow_mem g);
             g \<leftarrow> enable_checking (g\<lparr>shadow_mem := s\<rparr>);
             Some (rs, g) }
      else Some ([], g))"

definition tsan_write :: "query \<Rightarrow> query \<Rightarrow> u64 \<Rightarrow> u64 \<Rightarrow> u64 \<Rightarrow> ptr \<Rightarrow> ptr \<Rightarrow> tsan \<Rightarrow> (race list \<times> tsan) option" where
  "tsan_write qe qh address mem_size inst_addr curDown curRight g =
     (if should_check g then
        do { g \<leftarrow> disable_checking g;
             (rs, s) \<leftarrow> record_mem_helper qe qh False inst_addr address (ucast mem_size) curDown curRight (shadow_mem g);
             g \<leftarrow> enable_checking (g\<lparr>shadow_mem := s\<rparr>);
             Some (rs, g) }
      else Some ([], g))"

text \<open>The entry points that the compiler calls: a size per function.\<close>

datatype tsan_call = Tsan_read1 | Tsan_read2 | Tsan_read4 | Tsan_read8 | Tsan_read16
  | Tsan_write1 | Tsan_write2 | Tsan_write4 | Tsan_write8 | Tsan_write16

fun tsan_entry :: "tsan_call \<Rightarrow> query \<Rightarrow> query \<Rightarrow> u64 \<Rightarrow> u64 \<Rightarrow> ptr \<Rightarrow> ptr \<Rightarrow> tsan \<Rightarrow> (race list \<times> tsan) option" where
  "tsan_entry Tsan_read1 qe qh address = tsan_read qe qh address 1"
| "tsan_entry Tsan_read2 qe qh address = tsan_read qe qh address 2"
| "tsan_entry Tsan_read4 qe qh address = tsan_read qe qh address 4"
| "tsan_entry Tsan_read8 qe qh address = tsan_read qe qh address 8"
| "tsan_entry Tsan_read16 qe qh address = tsan_read qe qh address 16"
| "tsan_entry Tsan_write1 qe qh address = tsan_write qe qh address 1"
| "tsan_entry Tsan_write2 qe qh address = tsan_write qe qh address 2"
| "tsan_entry Tsan_write4 qe qh address = tsan_write qe qh address 4"
| "tsan_entry Tsan_write8 qe qh address = tsan_write qe qh address 8"
| "tsan_entry Tsan_write16 qe qh address = tsan_write qe qh address 16"

fun tsan_is_read :: "tsan_call \<Rightarrow> bool" where
  "tsan_is_read Tsan_read1 = True" | "tsan_is_read Tsan_read2 = True" | "tsan_is_read Tsan_read4 = True"
| "tsan_is_read Tsan_read8 = True" | "tsan_is_read Tsan_read16 = True" | "tsan_is_read _ = False"

fun tsan_size :: "tsan_call \<Rightarrow> u64" where
  "tsan_size Tsan_read1 = 1" | "tsan_size Tsan_read2 = 2" | "tsan_size Tsan_read4 = 4" | "tsan_size Tsan_read8 = 8"
| "tsan_size Tsan_read16 = 16" | "tsan_size Tsan_write1 = 1" | "tsan_size Tsan_write2 = 2" | "tsan_size Tsan_write4 = 4"
| "tsan_size Tsan_write8 = 8" | "tsan_size Tsan_write16 = 16"

text \<open>One instrumented access of a strand, and the access that it is.\<close>

record call =
  call_entry :: tsan_call
  call_addr :: u64
  call_rip :: u64
  call_down :: ptr
  call_right :: ptr

definition run_call :: "query \<Rightarrow> query \<Rightarrow> call \<Rightarrow> tsan \<Rightarrow> (race list \<times> tsan) option" where
  "run_call qe qh c = tsan_entry (call_entry c) qe qh (call_addr c) (call_rip c) (call_down c) (call_right c)"

fun run_calls :: "query \<Rightarrow> query \<Rightarrow> call list \<Rightarrow> tsan \<Rightarrow> (race list \<times> tsan) option" where
  "run_calls qe qh [] g = Some ([], g)"
| "run_calls qe qh (c # cs) g =
     do { (r, g) \<leftarrow> run_call qe qh c g; (rs, g) \<leftarrow> run_calls qe qh cs g; Some (r @ rs, g) }"

definition call_access :: "call \<Rightarrow> access" where
  "call_access c = \<lparr>ac_read = tsan_is_read (call_entry c), ac_inst = call_rip c, ac_addr = call_addr c,
     ac_size = tsan_size (call_entry c), ac_estrand = call_down c, ac_hstrand = call_right c\<rparr>"

definition tsan_new :: tsan where
  "tsan_new = \<lparr>checking_disabled = 1, shadow_mem = shadow_new\<rparr>"

text \<open>Accesses are looked at from the first \<open>enable_checking\<close> of the thread on.\<close>

definition detector_run :: "query \<Rightarrow> query \<Rightarrow> call list \<Rightarrow> (race list \<times> tsan) option" where
  "detector_run qe qh cs = do { g \<leftarrow> enable_checking tsan_new; run_calls qe qh cs g }"

lemma run_call_enabled:
  assumes "checking_disabled g = 0" and "key_ok (ADDR_TO_KEY (call_addr c))"
  shows "(case run_call qe qh c g of None \<Rightarrow> block_access qe qh (call_access c) (shadow_map (shadow_mem g)) = None
     | Some (rs, g') \<Rightarrow> checking_disabled g' = 0 \<and>
         block_access qe qh (call_access c) (shadow_map (shadow_mem g)) = Some (rs, shadow_map (shadow_mem g')))"
proof -
  let ?h = "record_mem_helper qe qh (tsan_is_read (call_entry c)) (call_rip c) (call_addr c)
      (ucast (tsan_size (call_entry c))) (call_down c) (call_right c) (shadow_mem g)"
  have "run_call qe qh c g = map_option (\<lambda>(rs, s). (rs, g\<lparr>checking_disabled := 0, shadow_mem := s\<rparr>)) ?h"
    using assms(1)
    by (cases "call_entry c"; cases ?h)
      (auto simp: run_call_def tsan_read_def tsan_write_def should_check_def disable_checking_def enable_checking_def)
  moreover have "ucast (ucast (tsan_size (call_entry c)) :: u32) = tsan_size (call_entry c)"
    by (cases "call_entry c") simp_all
  then have "call_access c = \<lparr>ac_read = tsan_is_read (call_entry c), ac_inst = call_rip c, ac_addr = call_addr c,
      ac_size = ucast (ucast (tsan_size (call_entry c)) :: u32), ac_estrand = call_down c, ac_hstrand = call_right c\<rparr>"
    by (simp add: call_access_def)
  note record_mem_helper_eq [OF assms(2) this, of qe qh "shadow_mem g"]
  ultimately show ?thesis by (cases ?h) auto
qed

lemma run_call_disabled: "checking_disabled g \<noteq> 0 \<Longrightarrow> run_call qe qh c g = Some ([], g)"
  by (cases "call_entry c") (simp_all add: run_call_def tsan_read_def tsan_write_def should_check_def)

subsection \<open>Accesses to parts of slots\<close>

lemma check_slots_free: "\<forall>i\<in>set is. i < length xs \<and> xs ! i = None \<Longrightarrow> check_slots qe qh kind start xs cur is = Some []"
  by (induction "is") (simp_all add: check_slot_def slot_def)

text \<open>An access to slots without history: no query, no race, and only these slots change.\<close>

definition slot_free :: "mem_list \<Rightarrow> nat \<Rightarrow> bool" where
  "slot_free m i \<longleftrightarrow> lreaders m ! i = None \<and> rreaders m ! i = None \<and> writers m ! i = None"

lemma check_access_free:
  assumes "wf_list m" "fits a" "\<forall>i\<in>set (ac_grains a). slot_free m i"
  shows "\<exists>m'. check_access qe qh a m = Some ([], m') \<and> wf_list m' \<and>
    (\<forall>i<NUM_SLOTS. i \<notin> set (ac_grains a) \<longrightarrow> slot_free m i \<longrightarrow> slot_free m' i)"
proof -
  let ?c = "ac_record a" and ?is = "grains_of (ac_addr a) (ac_size a)"
  have len: "length (lreaders m) = NUM_SLOTS" "length (rreaders m) = NUM_SLOTS" "length (writers m) = NUM_SLOTS"
    using assms(1) by (auto simp: wf_list_def)
  have f: "i < NUM_SLOTS \<and> lreaders m ! i = None \<and> rreaders m ! i = None \<and> writers m ! i = None" if "i \<in> set ?is" for i
    using assms(2,3) that by (auto simp: fits_def ac_grains_def slot_free_def)
  show ?thesis
  proof (cases "ac_read a")
    case True
    have "\<forall>i\<in>set ?is. i < length (lreaders m) \<and> update_lreader qe qh ?c (lreaders m ! i) \<noteq> None"
      "\<forall>i\<in>set ?is. i < length (rreaders m) \<and> update_rreader qe ?c (rreaders m ! i) \<noteq> None"
      using f len by (simp_all add: update_lreader_def update_rreader_def)
    from this [THEN update_slots_ok, OF distinct_grains_of] obtain ls rs where
      "update_slots (update_lreader qe qh ?c) (lreaders m) ?is = Some ls" "length ls = NUM_SLOTS"
      "\<forall>i<NUM_SLOTS. ls ! i = (if i \<in> set ?is then update_lreader qe qh ?c (lreaders m ! i) else lreaders m ! i)"
      "update_slots (update_rreader qe ?c) (rreaders m) ?is = Some rs" "length rs = NUM_SLOTS"
      "\<forall>i<NUM_SLOTS. rs ! i = (if i \<in> set ?is then update_rreader qe ?c (rreaders m ! i) else rreaders m ! i)"
      unfolding len by blast
    moreover have "check_slots qe qh WR_RACE (start_addr m) (writers m) ?c ?is = Some []" by (rule check_slots_free) (use f len in simp)
    ultimately show ?thesis using True len
      by (simp add: check_access_def check_races_and_update_def check_races_and_update_with_read_def ac_record_def ac_grains_def
          wf_list_def slot_free_def Let_def)
  next
    case False
    have "\<forall>i\<in>set ?is. i < length (writers m) \<and> (\<lambda>_. Some ?c) (writers m ! i) \<noteq> None" using f len by simp
    from update_slots_ok [OF this distinct_grains_of] obtain ws where
      ws: "update_slots (\<lambda>_. Some ?c) (writers m) ?is = Some ws" "length ws = NUM_SLOTS"
        "\<forall>i<NUM_SLOTS. ws ! i = (if i \<in> set ?is then Some ?c else writers m ! i)"
      unfolding len by blast
    have "write_slots qe qh (start_addr m) ?c (writers m) ?is = Some ([], ws)"
      by (subst write_slots_none) (use f ws(1) in simp_all)
    moreover have "check_slots qe qh RW_RACE (start_addr m) (lreaders m) ?c ?is = Some []"
      "check_slots qe qh RW_RACE (start_addr m) (rreaders m) ?c ?is = Some []" by (rule check_slots_free; use f len in simp)+
    ultimately show ?thesis using False len ws(2,3)
      by (simp add: check_access_def check_races_and_update_def check_races_and_update_with_write_def ac_record_def ac_grains_def
          wf_list_def slot_free_def Let_def)
  qed
qed

text \<open>Four bytes that do not start at a multiple of four are checked in the slot of their first byte only: the next access, to the
  following slot, finds no history there, although the two have a byte in common.\<close>

lemma misaligned_missed:
  assumes size: "tsan_size (call_entry c) = 4" "tsan_size (call_entry d) = 4"
    and a: "\<not> 4 dvd unat (call_addr c)" "unat (call_addr c) mod 16 < 12" "unat (call_addr c) < 2 ^ 48 - 16"
    and d: "unat (call_addr d) = (unat (call_addr c) div 4 + 1) * 4"
  shows "bytes_of (call_addr c) 4 \<inter> bytes_of (call_addr d) 4 \<noteq> {} \<and> (\<exists>g. detector_run qe qh [c, d] = Some ([], g))"
proof
  let ?x = "unat (call_addr c)"
  let ?i = "?x mod 16 div 4"
  have x: "?x = 16 * (?x div 16) + ?x mod 16" by simp
  have i: "?i < 3" using a(2) by simp
  have "?x div 4 = 4 * (?x div 16) + ?i" by presburger
  then have dd: "unat (call_addr d) = 16 * (?x div 16) + 4 * (?i + 1)" using d by simp
  then have e: "unat (call_addr d) div 16 = ?x div 16" "unat (call_addr d) mod 16 = 4 * (?i + 1)" using i by simp_all
  have "?x < unat (call_addr d)" "unat (call_addr d) < ?x + 4" using a(1) unfolding d by presburger+
  then have "unat (call_addr d) \<in> bytes_of (call_addr c) 4 \<inter> bytes_of (call_addr d) 4" by (simp add: bytes_of_def)
  then show "bytes_of (call_addr c) 4 \<inter> bytes_of (call_addr d) 4 \<noteq> {}" by blast
  have g: "ac_grains (call_access c) = [?i]" "ac_grains (call_access d) = [?i + 1]"
    by (simp_all add: ac_grains_def call_access_def grains_of_eq size e upt_rec)
  have f: "fits (call_access c)" "fits (call_access d)" using i by (simp_all add: fits_def g NUM_SLOTS_def)
  have k: "key_ok (ADDR_TO_KEY (call_addr c))" "key_ok (ADDR_TO_KEY (call_addr d))"
    by (rule key_ok_addr; use a(3) d in simp)+
  have kk: "key_of (call_access d) = key_of (call_access c)" unfolding key_of_eq call_access_def by (simp add: e)
  let ?e = "mem_list_empty (ALIGN_BY_PREV_MAX_GRAIN_SIZE (call_addr c))"
  have emp: "wf_list ?e" "\<And>j. j < NUM_SLOTS \<Longrightarrow> slot_free ?e j" by (simp_all add: wf_list_def mem_list_empty_def slot_free_def)
  have "\<forall>j\<in>set (ac_grains (call_access c)). slot_free ?e j" "slot_free ?e (?i + 1)" "?i + 1 < NUM_SLOTS"
    using emp(2) i by (simp_all add: g NUM_SLOTS_def)
  with check_access_free [OF emp(1) f(1), of qe qh] obtain m where
    m: "check_access qe qh (call_access c) ?e = Some ([], m)" "wf_list m" "slot_free m (?i + 1)"
    unfolding g by auto
  obtain m' where m': "check_access qe qh (call_access d) m = Some ([], m')"
    using check_access_free [OF m(2) f(2), of qe qh] m(3) unfolding g by auto
  obtain g0 where g0: "enable_checking tsan_new = Some g0" "checking_disabled g0 = 0" "shadow_map (shadow_mem g0) = (\<lambda>_. None)"
    by (simp add: enable_checking_def tsan_new_def shadow_new_def shadow_map_def slot_value_def fun_eq_iff)
  have "block_access qe qh (call_access c) (shadow_map (shadow_mem g0)) = Some ([], [key_of (call_access c) \<mapsto> m])"
    using m(1) by (simp add: block_access_def g0(3) key_of_def Let_def call_access_def)
  then obtain g1 where g1: "run_call qe qh c g0 = Some ([], g1)" "checking_disabled g1 = 0"
    "shadow_map (shadow_mem g1) = [key_of (call_access c) \<mapsto> m]"
    using run_call_enabled [OF g0(2) k(1), of qe qh] by (auto split: option.splits)
  have "block_access qe qh (call_access d) (shadow_map (shadow_mem g1)) =
      Some ([], [key_of (call_access c) \<mapsto> m](key_of (call_access d) \<mapsto> m'))"
    using m'(1) kk by (simp add: block_access_def g1(3) key_of_def Let_def)
  then obtain g2 where "run_call qe qh d g1 = Some ([], g2)"
    using run_call_enabled [OF g1(2) k(2), of qe qh] by (auto split: option.splits)
  then show "\<exists>g. detector_run qe qh [c, d] = Some ([], g)" using g0(1) g1(1) by (simp add: detector_run_def)
qed

subsection \<open>All of the memory\<close>

definition on_key :: "u64 \<Rightarrow> access list \<Rightarrow> access list" where
  "on_key k as = filter (\<lambda>a. key_of a = k) as"

text \<open>The detector's own view of it: two conflicting parallel accesses to the same slot.\<close>

definition racy_memory :: "(ptr \<times> ptr \<Rightarrow> nat) \<Rightarrow> (ptr \<times> ptr \<Rightarrow> nat) \<Rightarrow> access list \<Rightarrow> bool" where
  "racy_memory posE posH as \<longleftrightarrow> (\<exists>k. \<exists>i<NUM_SLOTS. racy posE posH (slot_history i (on_key k as)))"

lemma ex2_cong:
  "(\<And>p q. P p q \<Longrightarrow> Q p q \<Longrightarrow> A p q \<longleftrightarrow> B p q) \<Longrightarrow> (\<exists>p q. P p q \<and> Q p q \<and> A p q) \<longleftrightarrow> (\<exists>p q. P p q \<and> Q p q \<and> B p q)"
  by blast

lemma not_sorted_wrt: "\<not> sorted_wrt R xs \<longleftrightarrow> (\<exists>p q. p < q \<and> q < length xs \<and> \<not> R (xs ! p) (xs ! q))"
  unfolding sorted_wrt_iff_nth_less by blast

lemma sorted_wrt_filter_iff: "sorted_wrt R (filter P xs) \<longleftrightarrow> sorted_wrt (\<lambda>x y. P x \<longrightarrow> P y \<longrightarrow> R x y) xs"
  by (induction xs) auto

lemma racy_sorted:
  "racy posE posH hs \<longleftrightarrow> \<not> sorted_wrt (\<lambda>x y. fst x \<and> fst y \<or> \<not> parallel posE posH (snd x) (snd y)) hs"
  unfolding racy_def not_sorted_wrt by blast

definition parallel_pair :: "(ptr \<times> ptr \<Rightarrow> nat) \<Rightarrow> (ptr \<times> ptr \<Rightarrow> nat) \<Rightarrow> access \<Rightarrow> access \<Rightarrow> bool" where
  "parallel_pair posE posH x y \<longleftrightarrow> \<not> (ac_read x \<and> ac_read y) \<and> parallel posE posH (ac_strand x) (ac_strand y)"

lemma racy_slot:
  "racy posE posH (slot_history i (on_key k as)) \<longleftrightarrow>
   \<not> sorted_wrt (\<lambda>x y. key_of x = k \<longrightarrow> key_of y = k \<longrightarrow> i \<in> set (ac_grains x) \<longrightarrow> i \<in> set (ac_grains y) \<longrightarrow>
       \<not> parallel_pair posE posH x y) as"
proof -
  have "(fst (ac_read x, ac_strand x) \<and> fst (ac_read y, ac_strand y) \<or>
      \<not> parallel posE posH (snd (ac_read x, ac_strand x)) (snd (ac_read y, ac_strand y))) = (\<not> parallel_pair posE posH x y)" for x y
    unfolding parallel_pair_def fst_conv snd_conv by blast
  then show ?thesis
    unfolding racy_sorted slot_history_def on_key_def as_history_def sorted_wrt_map sorted_wrt_filter_iff by (simp only: )
qed

lemma racy_memory_pairs:
  "racy_memory posE posH as \<longleftrightarrow> (\<exists>p q. p < q \<and> q < length as \<and> key_of (as ! p) = key_of (as ! q) \<and>
     (\<exists>i<NUM_SLOTS. i \<in> set (ac_grains (as ! p)) \<and> i \<in> set (ac_grains (as ! q))) \<and> parallel_pair posE posH (as ! p) (as ! q))"
  unfolding racy_memory_def racy_slot not_sorted_wrt by blast

text \<open>For accesses to whole slots this is a race on a byte.\<close>

lemma racy_memory_bytes:
  assumes "\<forall>a\<in>set as. whole_slots (ac_addr a) (ac_size a)"
  shows "racy_memory posE posH as \<longleftrightarrow> racy_bytes posE posH as"
proof -
  have share: "key_of x = key_of y \<and> (\<exists>i<NUM_SLOTS. i \<in> set (ac_grains x) \<and> i \<in> set (ac_grains y)) \<longleftrightarrow>
      bytes_of (ac_addr x) (ac_size x) \<inter> bytes_of (ac_addr y) (ac_size y) \<noteq> {}" if "x \<in> set as" "y \<in> set as" for x y
    unfolding key_of_eq ac_grains_def by (rule whole_slots_share) (use assms that in simp_all)
  show ?thesis unfolding racy_memory_pairs racy_bytes_def
  proof (rule ex2_cong)
    fix p q assume "p < q" "q < length as"
    then have "as ! p \<in> set as" "as ! q \<in> set as" by simp_all
    from share [OF this] show "(key_of (as ! p) = key_of (as ! q) \<and>
        (\<exists>i<NUM_SLOTS. i \<in> set (ac_grains (as ! p)) \<and> i \<in> set (ac_grains (as ! q))) \<and> parallel_pair posE posH (as ! p) (as ! q)) \<longleftrightarrow>
      (\<not> (ac_read (as ! p) \<and> ac_read (as ! q)) \<and>
        bytes_of (ac_addr (as ! p)) (ac_size (as ! p)) \<inter> bytes_of (ac_addr (as ! q)) (ac_size (as ! q)) \<noteq> {} \<and>
        parallel posE posH (ac_strand (as ! p)) (ac_strand (as ! q)))"
      unfolding parallel_pair_def by blast
  qed
qed

definition tracks_memory ::
  "(ptr \<times> ptr \<Rightarrow> nat) \<Rightarrow> (ptr \<times> ptr \<Rightarrow> nat) \<Rightarrow> (u64 \<Rightarrow> mem_list option) \<Rightarrow> access list \<Rightarrow> bool" where
  "tracks_memory posE posH M as \<longleftrightarrow>
     (\<forall>k. case M k of None \<Rightarrow> on_key k as = [] | Some m \<Rightarrow> tracks_list posE posH m (on_key k as))"

lemma on_key_snoc: "on_key k (as @ [a]) = (if k = key_of a then on_key k as @ [a] else on_key k as)"
  by (auto simp: on_key_def)

lemma in_order_on_key: "in_order posE posH (as_history as) \<Longrightarrow> in_order posE posH (as_history (on_key k as))"
  by (simp add: in_order_def as_history_def on_key_def sorted_wrt_map sorted_wrt_filter)

lemma run_calls_snoc:
  "run_calls qe qh (cs @ [c]) g =
     do { (r, g) \<leftarrow> run_calls qe qh cs g; (rs, g) \<leftarrow> run_call qe qh c g; Some (r @ rs, g) }"
  by (induction cs arbitrary: g) (auto split: bind_splits)

lemma racy_memory_mono: "racy_memory posE posH as \<Longrightarrow> racy_memory posE posH (as @ [a])"
proof -
  assume "racy_memory posE posH as"
  then obtain k i where k: "i < NUM_SLOTS" "racy posE posH (slot_history i (on_key k as))"
    unfolding racy_memory_def by blast
  then have "racy posE posH (slot_history i (on_key k (as @ [a])))"
    by (cases "k = key_of a") (simp_all add: on_key_snoc slot_history_snoc racy_snoc)
  with k(1) show ?thesis unfolding racy_memory_def by blast
qed

context two_orders
begin

lemma block_step:
  assumes m: "tracks_memory posE posH M as" and a: "fits a" "ac_strand a \<in> S" "\<forall>b\<in>set as. ac_strand b \<in> S"
    and ord: "in_order posE posH (as_history (as @ [a]))"
  shows "\<exists>rs M'. block_access qe qh a M = Some (rs, M') \<and> tracks_memory posE posH M' (as @ [a]) \<and>
     (\<not> racy_memory posE posH as \<longrightarrow> (rs \<noteq> [] \<longleftrightarrow> racy_memory posE posH (as @ [a])))"
proof -
  let ?k = "key_of a"
  let ?m = "case M ?k of None \<Rightarrow> mem_list_empty (ALIGN_BY_PREV_MAX_GRAIN_SIZE (ac_addr a)) | Some m \<Rightarrow> m"
  have t: "tracks_list posE posH ?m (on_key ?k as)"
  proof (cases "M ?k")
    case None
    then have "on_key ?k as = []" using m unfolding tracks_memory_def by (metis option.simps(4))
    with None tracks_empty show ?thesis by simp
  next
    case (Some m1)
    then show ?thesis using m unfolding tracks_memory_def by (metis option.simps(5))
  qed
  have S: "\<forall>b\<in>set (on_key ?k as). ac_strand b \<in> S" using a(3) by (simp add: on_key_def)
  have o: "in_order posE posH (as_history (on_key ?k as @ [a]))"
    using in_order_on_key [OF ord, of ?k] by (simp add: on_key_snoc)
  obtain rs m' where r: "check_access qe qh a ?m = Some (rs, m')" "tracks_list posE posH m' (on_key ?k as @ [a])"
    "(\<forall>i<NUM_SLOTS. \<not> racy posE posH (slot_history i (on_key ?k as))) \<longrightarrow>
        (rs \<noteq> [] \<longleftrightarrow> (\<exists>i<NUM_SLOTS. racy posE posH (slot_history i (on_key ?k as @ [a]))))"
    using access_step [OF t a(1,2) S o] by metis
  have "tracks_memory posE posH (M(?k \<mapsto> m')) (as @ [a])"
    unfolding tracks_memory_def
  proof
    fix k
    have "case M k of None \<Rightarrow> on_key k as = [] | Some m \<Rightarrow> tracks_list posE posH m (on_key k as)"
      using m unfolding tracks_memory_def by blast
    then show "case (M(?k \<mapsto> m')) k of None \<Rightarrow> on_key k (as @ [a]) = []
      | Some m \<Rightarrow> tracks_list posE posH m (on_key k (as @ [a]))"
      using r(2) by (cases "k = ?k"; cases "M k") (simp_all add: on_key_snoc)
  qed
  moreover have "rs \<noteq> [] \<longleftrightarrow> racy_memory posE posH (as @ [a])" if "\<not> racy_memory posE posH as"
  proof -
    have "racy_memory posE posH (as @ [a]) \<longleftrightarrow> (\<exists>i<NUM_SLOTS. racy posE posH (slot_history i (on_key ?k as @ [a])))"
    proof
      assume "racy_memory posE posH (as @ [a])"
      then obtain k i where k: "i < NUM_SLOTS" "racy posE posH (slot_history i (on_key k (as @ [a])))"
        unfolding racy_memory_def by blast
      moreover from this have "k = ?k" using that by (cases "k = ?k") (auto simp: racy_memory_def on_key_snoc)
      ultimately show "\<exists>i<NUM_SLOTS. racy posE posH (slot_history i (on_key ?k as @ [a]))"
        by (auto simp: on_key_snoc)
    next
      assume "\<exists>i<NUM_SLOTS. racy posE posH (slot_history i (on_key ?k as @ [a]))"
      then have "\<exists>i<NUM_SLOTS. racy posE posH (slot_history i (on_key ?k (as @ [a])))" by (simp add: on_key_snoc)
      then show "racy_memory posE posH (as @ [a])" unfolding racy_memory_def by blast
    qed
    moreover have "\<forall>i<NUM_SLOTS. \<not> racy posE posH (slot_history i (on_key ?k as))"
      using that unfolding racy_memory_def by blast
    ultimately show ?thesis using r(3) by simp
  qed
  ultimately show ?thesis using r(1) by (simp add: block_access_def key_of_def Let_def)
qed

text \<open>The detector reports something exactly if two conflicting accesses to the same slot are parallel.\<close>

lemma run_calls_exact:
  assumes "enable_checking tsan_new = Some g0"
    and "\<forall>c\<in>set cs. unat (call_addr c) < 2 ^ 48 \<and> fits (call_access c) \<and> ac_strand (call_access c) \<in> S"
    and "in_order posE posH (as_history (map call_access cs))"
  shows "\<exists>rs g. run_calls qe qh cs g0 = Some (rs, g) \<and> (rs \<noteq> [] \<longleftrightarrow> racy_memory posE posH (map call_access cs)) \<and>
     checking_disabled g = 0 \<and> tracks_memory posE posH (shadow_map (shadow_mem g)) (map call_access cs)"
  using assms(2,3)
proof (induction cs rule: rev_induct)
  case Nil
  have "g0 = \<lparr>checking_disabled = 0, shadow_mem = shadow_new\<rparr>" using assms(1) by (simp add: enable_checking_def tsan_new_def)
  then show ?case
    by (simp add: racy_memory_def tracks_memory_def on_key_def slot_history_def as_history_def racy_def
        shadow_map_def slot_value_def shadow_new_def)
next
  case (snoc c cs)
  let ?as = "map call_access cs" and ?a = "call_access c"
  have o: "in_order posE posH (as_history (?as @ [?a]))" using snoc.prems(2) by simp
  have "in_order posE posH (as_history ?as)" using o by (simp add: in_order_def as_history_def sorted_wrt_append)
  then obtain rs g where g: "run_calls qe qh cs g0 = Some (rs, g)" "rs \<noteq> [] \<longleftrightarrow> racy_memory posE posH ?as"
    "checking_disabled g = 0" "tracks_memory posE posH (shadow_map (shadow_mem g)) ?as"
    using snoc.IH snoc.prems(1) by auto
  have pre: "fits ?a" "ac_strand ?a \<in> S" "\<forall>b\<in>set ?as. ac_strand b \<in> S" "key_ok (ADDR_TO_KEY (call_addr c))"
    using snoc.prems(1) key_ok_addr by auto
  obtain r M where r: "block_access qe qh ?a (shadow_map (shadow_mem g)) = Some (r, M)" "tracks_memory posE posH M (?as @ [?a])"
    "\<not> racy_memory posE posH ?as \<longrightarrow> (r \<noteq> [] \<longleftrightarrow> racy_memory posE posH (?as @ [?a]))"
    using block_step [OF g(4) pre(1-3) o] by metis
  obtain g' where g': "run_call qe qh c g = Some (r, g')" "checking_disabled g' = 0" "M = shadow_map (shadow_mem g')"
    using run_call_enabled [OF g(3) pre(4), of qe qh] r(1) by (auto split: option.splits)
  have "rs @ r \<noteq> [] \<longleftrightarrow> racy_memory posE posH (?as @ [?a])"
    using g(2) r(3) racy_memory_mono [of posE posH ?as ?a] by (cases "rs = []") auto
  with g(1) g' r(2) show ?case by (simp add: run_calls_snoc)
qed

text \<open>In bytes, for accesses to whole slots.\<close>

lemma detector_run_exact:
  assumes "\<forall>c\<in>set cs. unat (call_addr c) < 2 ^ 48 \<and> whole_slots (call_addr c) (tsan_size (call_entry c)) \<and> ac_strand (call_access c) \<in> S"
    and "in_order posE posH (as_history (map call_access cs))"
  shows "\<exists>rs g. detector_run qe qh cs = Some (rs, g) \<and> (rs \<noteq> [] \<longleftrightarrow> racy_bytes posE posH (map call_access cs))"
proof -
  have w: "whole_slots (ac_addr (call_access c)) (ac_size (call_access c))" if "c \<in> set cs" for c
    using assms(1) that by (simp add: call_access_def)
  obtain g0 where g0: "enable_checking tsan_new = Some g0" by (simp add: enable_checking_def)
  have "\<forall>c\<in>set cs. unat (call_addr c) < 2 ^ 48 \<and> fits (call_access c) \<and> ac_strand (call_access c) \<in> S"
    using assms(1) w whole_slots_fits by blast
  from run_calls_exact [OF g0 this assms(2)] obtain rs g where
    "run_calls qe qh cs g0 = Some (rs, g)" "rs \<noteq> [] \<longleftrightarrow> racy_memory posE posH (map call_access cs)" by blast
  moreover have "racy_memory posE posH (map call_access cs) \<longleftrightarrow> racy_bytes posE posH (map call_access cs)"
    by (rule racy_memory_bytes) (use w in simp)
  ultimately show ?thesis using g0 by (simp add: detector_run_def)
qed

end

end
