(* ===== verification/Race_Om.thy ===== *)
theory Race_Om
  imports Om_Demo Shadow_Mem
begin

text \<open>
  The detector on the order-maintenance structures: the interface \<open>two_orders\<close> of the checks is met by \<open>om_precedes\<close>
  on two structures, one per order, for strands whose nodes are in them.
\<close>

definition om_query :: "om \<times> bheap \<Rightarrow> query" where
  "om_query s x y = om_precedes (fst s) (snd s) x y"

text \<open>The structure holds the nodes \<open>xs\<close> in this order.\<close>

definition om_orders :: "om \<times> bheap \<Rightarrow> nat list \<Rightarrow> bool" where
  "om_orders s xs \<longleftrightarrow> (\<exists>xss. om_rep (fst s) (snd s) xss \<and> concat xss = xs)"

definition place :: "nat list \<Rightarrow> ptr \<Rightarrow> nat" where
  "place xs p = length (takeWhile (\<lambda>x. Some x \<noteq> p) xs)"

text \<open>A set of strands with nodes of their own in both structures.\<close>

definition strands_ok :: "om \<times> bheap \<Rightarrow> om \<times> bheap \<Rightarrow> nat list \<Rightarrow> nat list \<Rightarrow> (ptr \<times> ptr) set \<Rightarrow> bool" where
  "strands_ok E H xs ys S \<longleftrightarrow> om_orders E xs \<and> om_orders H ys \<and> S \<subseteq> (Some ` set xs) \<times> (Some ` set ys) \<and>
     inj_on fst S \<and> inj_on snd S"

definition strands :: "om \<times> bheap \<Rightarrow> om \<times> bheap \<Rightarrow> nat list \<Rightarrow> nat list \<Rightarrow> (ptr \<times> ptr) set \<Rightarrow> (ptr \<times> ptr) set" where
  "strands E H xs ys S = (if strands_ok E H xs ys S then S else {})"

lemma om_orders_distinct: "om_orders s xs \<Longrightarrow> distinct xs"
  by (auto simp: om_orders_def om_rep_def separate_def dest: om_mid_separate)

lemma place_nth: "distinct xs \<Longrightarrow> k < length xs \<Longrightarrow> place xs (Some (xs ! k)) = k"
proof (induction xs arbitrary: k)
  case (Cons x xs)
  then show ?case by (cases k) (auto simp: place_def)
qed simp

lemma place_less: "x \<in> set xs \<Longrightarrow> place xs (Some x) < length xs \<and> xs ! place xs (Some x) = x"
  by (induction xs) (auto simp: place_def)

lemma place_inj: "x \<in> set xs \<Longrightarrow> y \<in> set xs \<Longrightarrow> place xs (Some x) = place xs (Some y) \<Longrightarrow> x = y"
  by (metis place_less)

lemma om_query_place:
  assumes "om_orders s xs" "x \<in> set xs" "y \<in> set xs"
  shows "om_query s (Some x) (Some y) = Some (place xs (Some x) < place xs (Some y))"
proof -
  obtain xss where xss: "om_rep (fst s) (snd s) xss" "concat xss = xs" using assms(1) by (auto simp: om_orders_def)
  from om_precedes_order [OF xss(1), of "place xs (Some x)" "place xs (Some y)"]
  show ?thesis using place_less [OF assms(2)] place_less [OF assms(3)] by (simp add: xss(2) om_query_def)
qed

lemma strands_in:
  assumes "s \<in> strands E H xs ys S"
  obtains x y where "s = (Some x, Some y)" "x \<in> set xs" "y \<in> set ys" "s \<in> S" "strands_ok E H xs ys S"
proof -
  have ok: "strands_ok E H xs ys S" "s \<in> S" using assms by (auto simp: strands_def split: if_splits)
  then have "s \<in> (Some ` set xs) \<times> (Some ` set ys)" unfolding strands_ok_def by blast
  with ok that show thesis by blast
qed

lemma strands_distinct:
  assumes "s \<in> strands E H xs ys S" "t \<in> strands E H xs ys S" "fst s = fst t \<or> snd s = snd t" shows "s = t"
proof -
  have "s \<in> S" "t \<in> S" "strands_ok E H xs ys S" using assms(1,2) by (auto elim: strands_in)
  with assms(3) show ?thesis unfolding strands_ok_def by (blast dest: inj_onD)
qed

interpretation om_two: two_orders "om_query E" "om_query H" "strands E H xs ys S"
    "\<lambda>s. place xs (fst s)" "\<lambda>s. place ys (snd s)" for E H xs ys S
proof
  show "inj_on (\<lambda>s. place xs (fst s)) (strands E H xs ys S)"
  proof (rule inj_onI)
    fix s t assume s: "s \<in> strands E H xs ys S" "t \<in> strands E H xs ys S" "place xs (fst s) = place xs (fst t)"
    then have "fst s = fst t" using place_inj by (elim strands_in) auto
    with s show "s = t" by (simp add: strands_distinct)
  qed
  show "inj_on (\<lambda>s. place ys (snd s)) (strands E H xs ys S)"
  proof (rule inj_onI)
    fix s t assume s: "s \<in> strands E H xs ys S" "t \<in> strands E H xs ys S" "place ys (snd s) = place ys (snd t)"
    then have "snd s = snd t" using place_inj by (elim strands_in) auto
    with s show "s = t" by (simp add: strands_distinct)
  qed
  fix s t assume st: "s \<in> strands E H xs ys S" "t \<in> strands E H xs ys S"
  show "om_query E (fst s) (fst t) = Some (place xs (fst s) < place xs (fst t))"
    using st by (elim strands_in) (simp add: om_query_place strands_ok_def)
  show "om_query H (snd s) (snd t) = Some (place ys (snd s) < place ys (snd t))"
    using st by (elim strands_in) (simp add: om_query_place strands_ok_def)
qed

text \<open>The calls of instrumented code on strands in the two structures.\<close>

lemma detector_on_om:
  assumes "strands_ok E H xs ys S"
    and "\<forall>c\<in>set cs. unat (call_addr c) < 2 ^ 48 \<and> whole_slots (call_addr c) (tsan_size (call_entry c)) \<and> (call_down c, call_right c) \<in> S"
    and "in_order (\<lambda>s. place xs (fst s)) (\<lambda>s. place ys (snd s)) (as_history (map call_access cs))"
  shows "\<exists>rs g. detector_run (om_query E) (om_query H) cs = Some (rs, g) \<and>
     (rs \<noteq> [] \<longleftrightarrow> racy_bytes (\<lambda>s. place xs (fst s)) (\<lambda>s. place ys (snd s)) (map call_access cs))"
proof -
  have "strands E H xs ys S = S" using assms(1) by (simp add: strands_def)
  moreover have "ac_strand (call_access c) = (call_down c, call_right c)" for c
    by (simp add: ac_strand_def call_access_def)
  ultimately have "\<forall>c\<in>set cs. unat (call_addr c) < 2 ^ 48 \<and> whole_slots (call_addr c) (tsan_size (call_entry c)) \<and>
      ac_strand (call_access c) \<in> strands E H xs ys S"
    using assms(2) by simp
  from om_two.detector_run_exact [OF this assms(3)] show ?thesis .
qed

end
