(* ===== verification/Pipe_Race.thy ===== *)
theory Pipe_Race
  imports Pipe_Order Race_Om
begin

text \<open>
  The whole detector: the hooks of the pipeline place the stages in the two order-maintenance structures, and the instrumented
  accesses ask these.  A race is found exactly if two conflicting accesses are by stages that the dag of the
  program does not order.
\<close>

subsection \<open>Asking the orders\<close>

definition english_of :: "pipe_rd \<Rightarrow> om \<times> bheap" where
  "english_of st = (m_ds (ds_of True (pr_orders st)), m_heap (ds_of True (pr_orders st)))"

definition hebrew_of :: "pipe_rd \<Rightarrow> om \<times> bheap" where
  "hebrew_of st = (m_ds (ds_of False (pr_orders st)), m_heap (ds_of False (pr_orders st)))"

lemma omrd_rep_orders: "omrd_rep d xs \<Longrightarrow> om_orders (m_ds d, m_heap d) xs"
  using om_x86_rep by (auto simp: omrd_rep_def om_orders_def)

lemma placed_by_place:
  assumes placed: "placed_by key xs" and x: "x \<in> set xs" and y: "y \<in> set xs"
  shows "place xs (Some x) < place xs (Some y) \<longleftrightarrow> key x < key y"
proof -
  have lt: "key (xs ! a) < key (xs ! b)" if "a < b" "b < length xs" for a b
    using placed that unfolding placed_by_def sorted_wrt_iff_nth_less by blast
  obtain i where i: "place xs (Some x) = i" "i < length xs" "xs ! i = x" using place_less [OF x] by blast
  obtain j where j: "place xs (Some y) = j" "j < length xs" "xs ! j = y" using place_less [OF y] by blast
  consider "i < j" | "i = j" | "j < i" by linarith
  then have "i < j \<longleftrightarrow> key (xs ! i) < key (xs ! j)"
  proof cases
    case 1
    with lt [OF 1 j(2)] show ?thesis by blast
  next
    case 2
    then show ?thesis by simp
  next
    case 3
    from lt [OF 3 i(2)] have "\<not> key (xs ! i) < key (xs ! j)" by (rule order_less_not_sym)
    with 3 show ?thesis by simp
  qed
  then show ?thesis unfolding i(1,3) j(1,3) .
qed

lemma placed_by_inj:
  assumes "placed_by key xs" "x \<in> set xs" "y \<in> set xs" "key x = key y" shows "x = y"
  using placed_by_place [OF assms(1-3)] placed_by_place [OF assms(1,3,2)] assms(4)
  by (metis assms(2,3) linorder_neqE_nat order_less_irrefl place_inj)

text \<open>What the positions of the nodes of two stages say.\<close>

lemma nodes_positions:
  assumes inv: "order_inv prog m d N s xs ek hk"
    and a: "node_at (xs True) ek e1 (epath i k)" "node_at (xs False) hk h1 (hpath (pdep prog) i k)"
    and b: "node_at (xs True) ek e2 (epath j n)" "node_at (xs False) hk h2 (hpath (pdep prog) j n)"
  shows "place (xs True) e1 < place (xs True) e2 \<longleftrightarrow> epath i k < epath j n"
    and "place (xs False) h1 < place (xs False) h2 \<longleftrightarrow> hpath (pdep prog) i k < hpath (pdep prog) j n"
  using a b placed_by_place inv unfolding node_at_def order_inv_def by (metis (no_types, lifting))+

lemma hpath_total: "(i, k) \<noteq> (j, n) \<Longrightarrow> hpath (pdep prog) i k < hpath (pdep prog) j n \<or> hpath (pdep prog) j n < hpath (pdep prog) i k"
  using hpath_neq [OF pdep_ok] by (metis linorder_neqE)

lemma epath_total: "(i, k) \<noteq> (j, n) \<Longrightarrow> epath i k < epath j n \<or> epath j n < epath i k"
  using epath_inj by (metis linorder_neqE)

text \<open>Two stages are unrelated in the dag if neither precedes the other.\<close>

definition unrelated :: "pipeline \<Rightarrow> nat \<times> nat \<Rightarrow> nat \<times> nat \<Rightarrow> bool" where
  "unrelated prog s t \<longleftrightarrow> s \<noteq> t \<and> \<not> precedes (full_dep prog) s t \<and> \<not> precedes (full_dep prog) t s"

lemma prec_precedes:
  assumes inv: "order_inv prog m d N s xs ek hk"
    and a: "node_at (xs True) ek e1 (epath i k)" "node_at (xs False) hk h1 (hpath (pdep prog) i k)"
    and b: "node_at (xs True) ek e2 (epath j n)" "node_at (xs False) hk h2 (hpath (pdep prog) j n)"
  shows "prec (\<lambda>s. place (xs True) (fst s)) (\<lambda>s. place (xs False) (snd s)) (e1, h1) (e2, h2) \<longleftrightarrow> precedes (full_dep prog) (i, k) (j, n)"
  using nodes_positions [OF inv a b] unfolding prec_def reduced_precedes two_d_order [OF pdep_ok] by simp

lemma parallel_unrelated:
  assumes inv: "order_inv prog m d N s xs ek hk"
    and a: "node_at (xs True) ek e1 (epath i k)" "node_at (xs False) hk h1 (hpath (pdep prog) i k)"
    and b: "node_at (xs True) ek e2 (epath j n)" "node_at (xs False) hk h2 (hpath (pdep prog) j n)"
  shows "parallel (\<lambda>s. place (xs True) (fst s)) (\<lambda>s. place (xs False) (snd s)) (e1, h1) (e2, h2) \<longleftrightarrow> unrelated prog (i, k) (j, n)"
proof (cases "(i, k) = (j, n)")
  case True
  then show ?thesis using nodes_positions [OF inv a b] by (auto simp: parallel_def unrelated_def)
next
  case False
  show ?thesis
    using nodes_positions [OF inv a b] epath_total [OF False] hpath_total [OF False, of prog] False
    unfolding parallel_def unrelated_def reduced_precedes two_d_order [OF pdep_ok]
    by (auto dest: order_less_asym)
qed

subsection \<open>The accesses of stages\<close>

record stage_access =
  sa_stage :: "nat \<times> nat"
  sa_entry :: tsan_call
  sa_addr :: u64
  sa_rip :: u64

definition sa_call :: "((nat \<times> nat) \<Rightarrow> ptr \<times> ptr) \<Rightarrow> stage_access \<Rightarrow> call" where
  "sa_call strand a = \<lparr>call_entry = sa_entry a, call_addr = sa_addr a, call_rip = sa_rip a,
     call_down = fst (strand (sa_stage a)), call_right = snd (strand (sa_stage a))\<rparr>"

text \<open>Two accesses with a byte in common, one of which writes.\<close>

definition conflict :: "stage_access \<Rightarrow> stage_access \<Rightarrow> bool" where
  "conflict a b \<longleftrightarrow> \<not> (tsan_is_read (sa_entry a) \<and> tsan_is_read (sa_entry b)) \<and>
     bytes_of (sa_addr a) (tsan_size (sa_entry a)) \<inter> bytes_of (sa_addr b) (tsan_size (sa_entry b)) \<noteq> {}"

definition dag_race :: "pipeline \<Rightarrow> stage_access list \<Rightarrow> bool" where
  "dag_race prog as \<longleftrightarrow> (\<exists>p q. p < q \<and> q < length as \<and> conflict (as ! p) (as ! q) \<and> unrelated prog (sa_stage (as ! p)) (sa_stage (as ! q)))"

subsection \<open>The result\<close>

definition strand_nodes :: "((nat \<times> nat) \<times> ptr \<times> ptr) list \<Rightarrow> nat \<times> nat \<Rightarrow> ptr \<times> ptr" where
  "strand_nodes ns s = (case map_of ns s of None \<Rightarrow> (None, None) | Some p \<Rightarrow> p)"

lemma strand_nodes_at:
  assumes "nodes_ok prog xs ek hk ns" "(i, k) \<in> fst ` set ns"
  shows "node_at (xs True) ek (fst (strand_nodes ns (i, k))) (epath i k)"
    and "node_at (xs False) hk (snd (strand_nodes ns (i, k))) (hpath (pdep prog) i k)"
proof -
  have "map_of ns (i, k) \<noteq> None" using assms(2) by (simp add: map_of_eq_None_iff)
  then obtain dn rt where m: "map_of ns (i, k) = Some (dn, rt)" by (cases "map_of ns (i, k)") auto
  then have "((i, k), dn, rt) \<in> set ns" by (rule map_of_SomeD)
  then have "node_at (xs True) ek dn (epath i k) \<and> node_at (xs False) hk rt (hpath (pdep prog) i k)"
    using assms(1) unfolding nodes_ok_def by blast
  then show "node_at (xs True) ek (fst (strand_nodes ns (i, k))) (epath i k)"
    "node_at (xs False) hk (snd (strand_nodes ns (i, k))) (hpath (pdep prog) i k)"
    using m by (simp_all add: strand_nodes_def)
qed

lemma inj_on_imageI3: "(\<And>s t. s \<in> A \<Longrightarrow> t \<in> A \<Longrightarrow> g (f s) = g (f t) \<Longrightarrow> s = t) \<Longrightarrow> inj_on g (f ` A)"
  by (rule inj_onI) blast

lemma strands_of_run:
  assumes inv: "order_inv prog m d N s xs ek hk" and ns: "nodes_ok prog xs ek hk ns"
  shows "strands_ok (m_ds (ds_of True s), m_heap (ds_of True s)) (m_ds (ds_of False s), m_heap (ds_of False s))
     (xs True) (xs False) (strand_nodes ns ` fst ` set ns)"
proof -
  have rep: "rd_rep s xs" using inv by (simp add: order_inv_def)
  have o: "om_orders (m_ds (ds_of e s), m_heap (ds_of e s)) (xs e)" for e using omrd_rep_orders [OF rd_rep_ds [OF rep]] .
  have sub: "strand_nodes ns x \<in> (Some ` set (xs True)) \<times> (Some ` set (xs False))" if "x \<in> fst ` set ns" for x
    using strand_nodes_at [OF ns, of "fst x" "snd x"] that unfolding node_at_def by (auto simp: mem_Times_iff)
  have e: "(i, k) = (j, n)" if "(i, k) \<in> fst ` set ns" "(j, n) \<in> fst ` set ns" "fst (strand_nodes ns (i, k)) = fst (strand_nodes ns (j, n))" for i k j n
  proof -
    have "epath i k = epath j n"
      using strand_nodes_at(1) [OF ns that(1)] strand_nodes_at(1) [OF ns that(2)] that(3) unfolding node_at_def by (metis option.inject)
    then show ?thesis by (simp add: epath_inj)
  qed
  have h: "(i, k) = (j, n)" if "(i, k) \<in> fst ` set ns" "(j, n) \<in> fst ` set ns" "snd (strand_nodes ns (i, k)) = snd (strand_nodes ns (j, n))" for i k j n
  proof -
    have "hpath (pdep prog) i k = hpath (pdep prog) j n"
      using strand_nodes_at(2) [OF ns that(1)] strand_nodes_at(2) [OF ns that(2)] that(3) unfolding node_at_def by (metis option.inject)
    then show ?thesis using hpath_neq [OF pdep_ok] by blast
  qed
  have "s = t" if "s \<in> fst ` set ns" "t \<in> fst ` set ns" "fst (strand_nodes ns s) = fst (strand_nodes ns t)" for s t
    using e [of "fst s" "snd s" "fst t" "snd t"] that by simp
  then have "inj_on fst (strand_nodes ns ` fst ` set ns)" by (rule inj_on_imageI3)
  moreover have "s = t" if "s \<in> fst ` set ns" "t \<in> fst ` set ns" "snd (strand_nodes ns s) = snd (strand_nodes ns t)" for s t
    using h [of "fst s" "snd s" "fst t" "snd t"] that by simp
  then have "inj_on snd (strand_nodes ns ` fst ` set ns)" by (rule inj_on_imageI3)
  moreover have "strand_nodes ns ` fst ` set ns \<subseteq> (Some ` set (xs True)) \<times> (Some ` set (xs False))"
    by (rule image_subsetI) (rule sub)
  ultimately show ?thesis using o unfolding strands_ok_def by blast
qed

lemma sa_call_simps [simp]:
  "ac_addr (call_access (sa_call f a)) = sa_addr a" "ac_read (call_access (sa_call f a)) = tsan_is_read (sa_entry a)"
  "ac_size (call_access (sa_call f a)) = tsan_size (sa_entry a)" "call_addr (sa_call f a) = sa_addr a" "call_entry (sa_call f a) = sa_entry a"
  "(call_down (sa_call f a), call_right (sa_call f a)) = f (sa_stage a)" "ac_strand (call_access (sa_call f a)) = f (sa_stage a)"
  by (simp_all add: call_access_def sa_call_def ac_strand_def)

text \<open>What the detector is made for: an access of 4, 8 or 16 bytes at a multiple of four, within a block of 16 bytes, to a
  48-bit address.\<close>

definition well_aligned :: "stage_access \<Rightarrow> bool" where
  "well_aligned a \<longleftrightarrow> unat (sa_addr a) < 2 ^ 48 \<and> whole_slots (sa_addr a) (tsan_size (sa_entry a))"

lemma detector_of_pipeline:
  assumes run: "pipeline_ok prog" "1 \<le> L" "legal_run prog L is (\<lambda>_. 0)" "2 * length is + 3 < 2 ^ 31" "2 * length is + 5 \<le> fuel"
    and accesses: "\<forall>a\<in>set as. sa_stage a \<in> executed (stages_after is (\<lambda>_. 0)) \<and> well_aligned a"
    and order: "sorted_wrt (\<lambda>a b. \<not> precedes (full_dep prog) (sa_stage b) (sa_stage a)) as"
  shows "\<exists>st0 ns st rs g. cilkPipeWhileBegin (int L) = Some st0 \<and> run_stages fuel frame_address prog is (\<lambda>_. 0) st0 = Some (ns, st) \<and>
    detector_run (om_query (english_of st)) (om_query (hebrew_of st)) (map (sa_call (strand_nodes ns)) as) = Some (rs, g) \<and>
    (rs \<noteq> [] \<longleftrightarrow> dag_race prog as)"
proof -
  obtain st0 ns st m xs ek hk where r: "cilkPipeWhileBegin (int L) = Some st0"
    "run_stages fuel frame_address prog is (\<lambda>_. 0) st0 = Some (ns, st)"
    "pipe_inv prog (Suc L) m (stages_after is (\<lambda>_. 0)) (length is) xs ek hk st" "nodes_ok prog xs ek hk ns"
    "executed (stages_after is (\<lambda>_. 0)) = fst ` set ns"
    using pipe_run [OF run, of frame_address] by (elim exE conjE) (rule that; assumption)
  have inv: "order_inv prog m (stages_after is (\<lambda>_. 0)) (length is) (pr_orders st) xs ek hk" using r(3) by (simp add: pipe_inv_def)
  let ?E = "\<lambda>s. place (xs True) (fst s)" and ?H = "\<lambda>s. place (xs False) (snd s)" and ?f = "strand_nodes ns"
  let ?cs = "map (sa_call ?f) as"
  have st: "sa_stage a \<in> fst ` set ns" if "a \<in> set as" for a using accesses that r(5) by blast
  note S = strands_of_run [OF inv r(4)]
  have nodes: "node_at (xs True) ek (fst (?f s)) (epath (fst s) (snd s))" "node_at (xs False) hk (snd (?f s)) (hpath (pdep prog) (fst s) (snd s))"
    if "s \<in> fst ` set ns" for s using strand_nodes_at [OF r(4), of "fst s" "snd s"] that by simp_all
  have prec: "prec ?E ?H (?f s) (?f t) \<longleftrightarrow> precedes (full_dep prog) s t" if "s \<in> fst ` set ns" "t \<in> fst ` set ns" for s t
    using prec_precedes [OF inv nodes [OF that(1)] nodes [OF that(2)]] by simp
  have par: "parallel ?E ?H (?f s) (?f t) \<longleftrightarrow> unrelated prog s t" if "s \<in> fst ` set ns" "t \<in> fst ` set ns" for s t
    using parallel_unrelated [OF inv nodes [OF that(1)] nodes [OF that(2)]] by simp
  have fit: "\<forall>c\<in>set ?cs. unat (call_addr c) < 2 ^ 48 \<and> whole_slots (call_addr c) (tsan_size (call_entry c)) \<and>
      (call_down c, call_right c) \<in> ?f ` fst ` set ns"
  proof
    fix c assume "c \<in> set ?cs"
    then obtain a where a: "a \<in> set as" "c = sa_call ?f a" by auto
    then have "well_aligned a" "sa_stage a \<in> fst ` set ns" using accesses st by blast+
    then show "unat (call_addr c) < 2 ^ 48 \<and> whole_slots (call_addr c) (tsan_size (call_entry c)) \<and>
        (call_down c, call_right c) \<in> ?f ` fst ` set ns"
      unfolding a(2) well_aligned_def by simp
  qed
  have ord: "in_order ?E ?H (as_history (map call_access ?cs))"
    unfolding in_order_def as_history_def sorted_wrt_map snd_conv sa_call_simps
  proof (rule sorted_wrt_mono_rel [OF _ order])
    fix a b assume ab: "a \<in> set as" "b \<in> set as" "\<not> precedes (full_dep prog) (sa_stage b) (sa_stage a)"
    show "\<not> prec ?E ?H (?f (sa_stage b)) (?f (sa_stage a))" unfolding prec [OF st [OF ab(2)] st [OF ab(1)]] by (rule ab(3))
  qed
  have race: "racy_bytes ?E ?H (map call_access ?cs) \<longleftrightarrow> dag_race prog as"
    unfolding racy_bytes_def dag_race_def length_map
  proof (rule ex2_cong)
    fix p q assume pq: "p < q" "q < length as"
    then have in_as: "as ! p \<in> set as" "as ! q \<in> set as" and p: "p < length as" by auto
    have nth: "map call_access ?cs ! p = call_access (sa_call ?f (as ! p))" "map call_access ?cs ! q = call_access (sa_call ?f (as ! q))"
      using pq by simp_all
    show "(\<not> (ac_read (map call_access ?cs ! p) \<and> ac_read (map call_access ?cs ! q)) \<and>
        bytes_of (ac_addr (map call_access ?cs ! p)) (ac_size (map call_access ?cs ! p)) \<inter>
          bytes_of (ac_addr (map call_access ?cs ! q)) (ac_size (map call_access ?cs ! q)) \<noteq> {} \<and>
        parallel ?E ?H (ac_strand (map call_access ?cs ! p)) (ac_strand (map call_access ?cs ! q))) \<longleftrightarrow>
      conflict (as ! p) (as ! q) \<and> unrelated prog (sa_stage (as ! p)) (sa_stage (as ! q))"
      unfolding nth conflict_def sa_call_simps par [OF st [OF in_as(1)] st [OF in_as(2)]] by blast
  qed
  from detector_on_om [OF S fit ord] r(1,2) race show ?thesis unfolding english_of_def hebrew_of_def by blast
qed

subsection \<open>Asking whether two stages are ordered\<close>

lemma find_stage_ok:
  assumes rep: "arr_rep a fs" and inc: "sorted_wrt (<) (map sf_stageNum fs)" and k: "k < length fs"
  shows "i \<le> k \<Longrightarrow> find_stage a (sf_stageNum (fs ! k)) (int i) = Some (fs ! k)"
proof (induction "k - i" arbitrary: i)
  case 0
  then have "i = k" by simp
  then show ?case
    using k arr_length_rep [OF rep] arr_get_rep [OF rep, of "int k"] by (subst find_stage.simps) simp
next
  case (Suc x)
  then have i: "i < k" by linarith
  have ne: "sf_stageNum (fs ! i) \<noteq> sf_stageNum (fs ! k)" using sorted_wrt_nth_less [OF inc, of i k] i k by simp
  have "find_stage a (sf_stageNum (fs ! k)) (int i) = find_stage a (sf_stageNum (fs ! k)) (int (Suc i))"
    using i k ne arr_length_rep [OF rep] arr_get_rep [OF rep, of "int i"] by (subst find_stage.simps) (simp add: add.commute)
  also have "\<dots> = Some (fs ! k)" by (rule Suc.hyps(1)) (use Suc.hyps(2) i in simp_all)
  finally show ?case .
qed

lemma stage_of_slot:
  assumes prog: "pipeline_ok prog" and ring: "ring_rep n m it" and slot: "slot_ok prog d xs ek hk n it i" and k: "k < d i" "d i \<le> length (prog i)"
  shows "\<exists>l f. getStageFrameList (int i + 1) it = Some l \<and> find_stage (sl_items l) (fst (prog i ! k)) 0 = Some f \<and> frame_ok prog xs ek hk f i k"
proof -
  obtain l fs where l: "it_p it ! (i mod n) = Some l" "arr_rep (sl_items l) fs" "map sf_stageNum fs = map fst (take (d i) (prog i))"
    "length fs = d i" "frame_ok prog xs ek hk (fs ! k) i k"
    using slot k(1) unfolding slot_ok_def list_ok_def by blast
  have inc: "sorted_wrt (<) (map sf_stageNum fs)"
    unfolding l(3) take_map [symmetric] using prog by (intro sorted_wrt_take) (simp add: pipeline_ok_def)
  have "map sf_stageNum fs ! k = map fst (take (d i) (prog i)) ! k" using l(3) by simp
  then have "sf_stageNum (fs ! k) = fst (prog i ! k)" using k l(4) by simp
  then have "find_stage (sl_items l) (fst (prog i ! k)) 0 = Some (fs ! k)"
    using find_stage_ok [OF l(2) inc, of k 0] k(1) l(4) by simp
  then show ?thesis using getStageFrameList_ring [OF ring, of i] l(1,5) by auto
qed

text \<open>What the two orders answer for the nodes of two stages.\<close>

lemma orders_answer:
  assumes inv: "order_inv prog m d N s xs ek hk"
    and x: "frame_ok prog xs ek hk x i k" and y: "frame_ok prog xs ek hk y j n"
  shows "om_precedes (m_ds (ds_of True s)) (m_heap (ds_of True s)) (o_current (sf_downFirst x)) (o_current (sf_downFirst y)) =
      Some (epath i k < epath j n)"
    and "om_precedes (m_ds (ds_of False s)) (m_heap (ds_of False s)) (o_current (sf_rightFirst x)) (o_current (sf_rightFirst y)) =
      Some (hpath (pdep prog) i k < hpath (pdep prog) j n)"
proof -
  have rep: "rd_rep s xs" and p: "placed_by ek (xs True)" "placed_by hk (xs False)" using inv by (simp_all add: order_inv_def)
  have o: "om_orders (m_ds (ds_of e s), m_heap (ds_of e s)) (xs e)" for e using omrd_rep_orders [OF rd_rep_ds [OF rep]] .
  obtain a b where ab: "o_current (sf_downFirst x) = Some a" "o_current (sf_downFirst y) = Some b" "a \<in> set (xs True)" "b \<in> set (xs True)"
    "ek a = epath i k" "ek b = epath j n" using x y unfolding frame_ok_def node_at_def by metis
  show "om_precedes (m_ds (ds_of True s)) (m_heap (ds_of True s)) (o_current (sf_downFirst x)) (o_current (sf_downFirst y)) =
      Some (epath i k < epath j n)"
    using om_query_place [OF o [of True] ab(3,4)] placed_by_place [OF p(1) ab(3,4)] by (simp add: om_query_def ab)
  obtain c e where ce: "o_current (sf_rightFirst x) = Some c" "o_current (sf_rightFirst y) = Some e" "c \<in> set (xs False)" "e \<in> set (xs False)"
    "hk c = hpath (pdep prog) i k" "hk e = hpath (pdep prog) j n" using x y unfolding frame_ok_def node_at_def by metis
  show "om_precedes (m_ds (ds_of False s)) (m_heap (ds_of False s)) (o_current (sf_rightFirst x)) (o_current (sf_rightFirst y)) =
      Some (hpath (pdep prog) i k < hpath (pdep prog) j n)"
    using om_query_place [OF o [of False] ce(3,4)] placed_by_place [OF p(2) ce(3,4)] by (simp add: om_query_def ce)
qed

lemma isSerial_of_pipeline:
  assumes run: "pipeline_ok prog" "1 \<le> L" "legal_run prog L is (\<lambda>_. 0)" "2 * length is + 3 < 2 ^ 31" "2 * length is + 5 \<le> fuel"
    and a: "k < stages_after is (\<lambda>_. 0) i" "\<forall>r. 0 < stages_after is (\<lambda>_. 0) r \<longrightarrow> r \<le> i + L"
    and b: "n < stages_after is (\<lambda>_. 0) j" "\<forall>r. 0 < stages_after is (\<lambda>_. 0) r \<longrightarrow> r \<le> j + L"
  shows "\<exists>st0 ns st. cilkPipeWhileBegin (int L) = Some st0 \<and> run_stages fuel frame_address prog is (\<lambda>_. 0) st0 = Some (ns, st) \<and>
    isSerial (int i + 1) (fst (prog i ! k)) (int j + 1) (fst (prog j ! n)) st =
      Some (precedes (full_dep prog) (i, k) (j, n) \<or> precedes (full_dep prog) (j, n) (i, k))"
proof -
  let ?d = "stages_after is (\<lambda>_. 0)"
  obtain st0 ns st m xs ek hk where r: "cilkPipeWhileBegin (int L) = Some st0"
    "run_stages fuel frame_address prog is (\<lambda>_. 0) st0 = Some (ns, st)" "pipe_inv prog (Suc L) m ?d (length is) xs ek hk st"
    using pipe_run [OF run, of frame_address] by (elim exE conjE) (rule that; assumption)
  have inv: "order_inv prog m ?d (length is) (pr_orders st) xs ek hk" and ring: "ring_rep (Suc L) m (pr_iterations st)"
    and slots: "\<And>j. j < m \<Longrightarrow> m \<le> j + Suc L \<Longrightarrow> slot_ok prog ?d xs ek hk (Suc L) (pr_iterations st) j"
    using r(3) by (auto simp: pipe_inv_def)
  have so: "\<And>i. 0 < ?d i \<longleftrightarrow> i < m" "\<And>i. ?d i \<le> length (prog i)" using inv by (auto simp: order_inv_def stages_ok_def)
  have win: "i < m \<and> m \<le> i + Suc L" if "0 < ?d i" "\<forall>r. 0 < ?d r \<longrightarrow> r \<le> i + L" for i
  proof -
    have "i < m" using so(1) that(1) by blast
    moreover from this have "0 < ?d (m - 1)" using so(1) by auto
    then have "m - 1 \<le> i + L" using that(2) by blast
    ultimately show ?thesis by linarith
  qed
  have ai: "i < m" "m \<le> i + Suc L" and bj: "j < m" "m \<le> j + Suc L" using win [of i] win [of j] a b by auto
  obtain lx x where x: "getStageFrameList (int i + 1) (pr_iterations st) = Some lx" "find_stage (sl_items lx) (fst (prog i ! k)) 0 = Some x"
    "frame_ok prog xs ek hk x i k" using stage_of_slot [OF run(1) ring slots [OF ai] a(1) so(2)] by blast
  obtain ly y where y: "getStageFrameList (int j + 1) (pr_iterations st) = Some ly" "find_stage (sl_items ly) (fst (prog j ! n)) 0 = Some y"
    "frame_ok prog xs ek hk y j n" using stage_of_slot [OF run(1) ring slots [OF bj] b(1) so(2)] by blast
  have "isSerial (int i + 1) (fst (prog i ! k)) (int j + 1) (fst (prog j ! n)) st =
      Some (precedes (full_dep prog) (i, k) (j, n) \<or> precedes (full_dep prog) (j, n) (i, k))"
    unfolding isSerial_def Let_def using x y orders_answer [OF inv x(3) y(3)] orders_answer [OF inv y(3) x(3)]
    unfolding reduced_precedes two_d_order [OF pdep_ok] by simp
  with r(1,2) show ?thesis by blast
qed

subsection \<open>A throttling limit of 0\<close>

text \<open>With a single slot the third iteration writes behind the end of the arrays.\<close>

lemma single_slot_overflow:
  "do { it \<leftarrow> iterations_new 0; (a, it) \<leftarrow> insertStageFrameList 1 it; (b, it) \<leftarrow> insertStageFrameList 2 it;
        Some (a, b, next_slot it, map_option fst (insertStageFrameList 3 it)) } = Some (0, 0, Some (1, 1, 0), None)"
  by (simp add: iterations_new_def insertStageFrameList_def next_slot_def set_cell_def Let_def smod_int_alt_def)

subsection \<open>Counting nodes\<close>

lemma count_lseg: "lseg (nodes h) l pv cur None xs \<Longrightarrow> length xs \<le> fuel \<Longrightarrow> count fuel h cur = Some (of_nat (length xs))"
proof (induction xs arbitrary: fuel pv cur)
  case Nil
  then show ?case by (cases fuel) simp_all
next
  case (Cons x xs)
  then obtain f nd where f: "fuel = Suc f" "length xs \<le> f" "cur = Some x" "nodes h x = Some nd" "lseg (nodes h) l (Some x) (nd_next nd) None xs"
    by (cases fuel) auto
  from Cons.IH [OF f(5,2)] show ?case by (simp add: f(1,3,4))
qed

lemma om_count_tree:
  "tl_inv d lo t \<Longrightarrow> clean t \<Longrightarrow> list_all2 (leaf_rep h) (leaf_seq t) xss \<Longrightarrow> length (concat xss) \<le> fuel \<Longrightarrow>
     om_count fuel h t = Some (of_nat (length (concat xss)))"
proof (induction t arbitrary: d lo xss)
  case (Leaf a hr b)
  then obtain xs where xs: "xss = [xs]" "leaf_rep h (a, b) xs" by (auto simp: list_all2_Cons1)
  then obtain L where "blists h b = Some L" "lseg (nodes h) b None (bl_head L) None xs" by (auto simp: leaf_rep_def blist_rep_def)
  with xs Leaf.prems(1,4) count_lseg show ?case by auto
next
  case (SplitLeaf a hr sn)
  then show ?case by (simp add: clean_def)
next
  case (Node a hr l r)
  obtain ls rs where sp: "xss = ls @ rs" "list_all2 (leaf_rep h) (leaf_seq l) ls" "list_all2 (leaf_rep h) (leaf_seq r) rs"
    using Node.prems(3) by (auto simp: list_all2_append1)
  have cl: "clean l" "clean r" using clean_Node [OF Node.prems(1)] Node.prems(2) by auto
  have "om_count fuel h l = Some (of_nat (length (concat ls)))"
    using Node.IH(1) [of "Suc d" lo ls] Node.prems cl sp by auto
  moreover have "om_count fuel h r = Some (of_nat (length (concat rs)))"
    using Node.IH(2) [of "Suc d" "lo + width (Suc d)" rs] Node.prems cl sp by auto
  moreover have "tl_level hr < MAX_LEVEL" using Node.prems(1) by simp
  ultimately show ?case using sp(1) by simp
qed

lemma om_count_ok:
  assumes "om_rep self h xss" "length (concat xss) \<le> fuel"
  shows "om_count fuel h (om_root self) = Some (of_nat (length (concat xss)))"
  using om_count_tree assms by (auto simp: om_rep_def om_mid_def)

end
