(* ===== verification/Omrd_Batch.thy ===== *)
theory Omrd_Batch
  imports Omrd
begin

text \<open>
  The locks of \<open>rdtool/src/omrd.cpp\<close> and the batches of \<open>runtime/batcher.c\<close>: workers insert under a lock of their own, and a
  worker whose insertion found no room starts a batch, which takes the locks of all workers, relabels both orders and
  gives the locks back; the other workers wait for it.

  The steps of the workers interleave.  The steps are the acquisitions and releases of locks, the
  critical section of an insertion as a whole (the sections of two workers that run at the same time touch different
  bases, lists are marked by a compare-and-swap, and the list of heavy nodes has a lock), the start and the end
  of relabelling, and the checks of the waiting loop.  The fibers that the code switches between are the program counter
  of the worker.  A failing assertion of the batch code leads to \<open>Failed\<close>, an error in
  the order-maintenance code to \<open>Crashed\<close>.
\<close>

subsection \<open>The critical section\<close>

text \<open>
  The code under the worker's lock, entered from \<open>insert\<close> or from the loop of \<open>slow_path\<close>: without a new node the
  list of the base is marked.
\<close>

datatype entry = Fast | Slow

definition section_code :: "entry \<Rightarrow> bool \<Rightarrow> nat \<Rightarrow> rd_state \<Rightarrow> (ptr \<times> rd_state) option" where
  "section_code k e base s =
     do { (n, d) \<leftarrow> try_insert (fst s) (Some base) (ds_of e s);
          (case n of
             None \<Rightarrow> do { d \<leftarrow> mark_base (fst s) base d; Some (None, set_ds e d s) }
           | Some n \<Rightarrow>
               do { check_heavy \<leftarrow> (if k = Slow then is_heavy (fst s) (m_heap d) n else Some False);
                    check (\<not> check_heavy);
                    d \<leftarrow> finish_insert (fst s) base n d;
                    Some (Some n, set_ds e d s) }) }"

subsection \<open>Workers\<close>

datatype wpc = Idle | Try_Lock entry | Section entry | Unlock | Slow_Unlock | Batchify entry | Lock_All entry nat
  | Relabel_Begin entry | Relabelling entry | Terminate entry | Wait entry | Joined entry
  | Unlock_All entry nat | Unlock_Relabel entry | Failed | Crashed

text \<open>A worker whose assertion has failed, or whose code has run into an error of the store: the program is over.\<close>

abbreviation stopped :: "wpc \<Rightarrow> bool" where
  "stopped q \<equiv> q = Failed \<or> q = Crashed"

text \<open>
  The shared state, and per worker the program counter, \<open>insert_failed\<close>, the batch it waits for and the pending insertion.
  \<open>handles\<close> are the nodes that the program has been given; it is no state of the code.
\<close>

record bstate =
  rd :: rd_state
  mut :: "nat \<Rightarrow> nat option"
  relabel_mutex :: "nat option"
  batch_lock :: "nat option"
  batch_owner :: "nat option"
  pending_id :: nat
  wpc_of :: "nat \<Rightarrow> wpc"
  insert_failed :: "nat \<Rightarrow> bool"
  batch_id :: "nat \<Rightarrow> nat option"
  base_of :: "nat \<Rightarrow> bool \<times> nat"
  handles :: "bool \<Rightarrow> nat set"

definition goto :: "nat \<Rightarrow> wpc \<Rightarrow> bstate \<Rightarrow> bstate" where
  "goto w p s = s\<lparr>wpc_of := (wpc_of s)(w := p)\<rparr>"

definition set_progress :: "int \<Rightarrow> bstate \<Rightarrow> bstate" where
  "set_progress v s = s\<lparr>rd := ((fst (rd s))\<lparr>g_batch_in_progress := v\<rparr>, snd (rd s))\<rparr>"

definition next_relabel_id :: "bstate \<Rightarrow> bstate" where
  "next_relabel_id s = s\<lparr>rd := ((fst (rd s))\<lparr>g_relabel_id := g_relabel_id (fst (rd s)) + 1\<rparr>, snd (rd s))\<rparr>"

definition relabel_both :: "rd_state \<Rightarrow> rd_state option" where
  "relabel_both r =
     do { e \<leftarrow> relabel (2 ^ 31) (ds_of True r); h \<leftarrow> relabel (2 ^ 31) (ds_of False r); Some (fst r, e, h) }"

text \<open>\<open>__cilkrts_set_batch_id\<close>, the choice of the batch in \<open>cilk_batchify\<close>, and its end in \<open>switch_to_core_deque\<close>; -1 is \<open>None\<close>.\<close>

definition set_batch_id :: "nat \<Rightarrow> bstate \<Rightarrow> bstate" where
  [simp]: "set_batch_id w s = s\<lparr>batch_id := (batch_id s)(w := Some (pending_id s))\<rparr>"

definition enter_batch :: "nat \<Rightarrow> bstate \<Rightarrow> bstate" where
  [simp]: "enter_batch w s = s\<lparr>batch_id := (batch_id s)(w := Some (case batch_id s w of None \<Rightarrow> pending_id s | Some i \<Rightarrow> i))\<rparr>"

definition leave_batch :: "nat \<Rightarrow> bstate \<Rightarrow> bstate" where
  [simp]: "leave_batch w s = s\<lparr>batch_id := (batch_id s)(w := None)\<rparr>"

text \<open>
  \<open>cilk_tool_om_try_lock_all\<close>: whether the worker contends for the batch and gets the relabel mutex, \<open>cilk_set_next_batch_owner\<close>,
  and the end, when all worker locks are taken.
\<close>

definition wins_batch :: "nat \<Rightarrow> bstate \<Rightarrow> bool" where
  [simp]: "wins_batch w s \<longleftrightarrow> insert_failed s w \<and> \<not> odd (g_relabel_id (fst (rd s))) \<and> relabel_mutex s = None"

definition set_next_batch_owner :: "nat \<Rightarrow> bstate \<Rightarrow> bool \<times> bstate" where
  [simp]: "set_next_batch_owner w s = (batch_lock s = None, s\<lparr>batch_lock := Some w\<rparr>)"

definition own_batch :: "nat \<Rightarrow> bstate \<Rightarrow> bool \<times> bstate" where
  [simp]: "own_batch w s = (batch_owner s = None, set_progress 1 (s\<lparr>batch_owner := Some w\<rparr>))"

text \<open>The loop condition of \<open>execute_batch\<close>, \<open>terminate_batch\<close>, and the owner's first step in \<open>join_batch\<close> after it.\<close>

definition batch_runs :: "nat \<Rightarrow> bstate \<Rightarrow> bool" where
  [simp]: "batch_runs i s \<longleftrightarrow> pending_id s \<le> i \<and> batch_lock s \<noteq> None"

definition end_batch :: "bstate \<Rightarrow> bstate" where
  [simp]: "end_batch s = s\<lparr>pending_id := Suc (pending_id s), batch_lock := None\<rparr>"

definition disown_batch :: "bstate \<Rightarrow> bstate" where
  [simp]: "disown_batch s = set_progress 0 (s\<lparr>batch_owner := None\<rparr>)"

text \<open>After a batch the worker tries its lock again, and \<open>slow_path\<close> clears \<open>insert_failed\<close>.\<close>

definition after_join :: "nat \<Rightarrow> entry \<Rightarrow> bstate \<Rightarrow> bstate" where
  "after_join w k s =
     goto w (Try_Lock k) (if k = Slow then s\<lparr>insert_failed := (insert_failed s)(w := False)\<rparr> else s)"

definition active :: "wpc \<Rightarrow> bool" where
  "active p \<longleftrightarrow> p \<noteq> Idle \<and> p \<noteq> Unlock"

text \<open>
  One step of worker \<open>w\<close> of \<open>p\<close> workers.  The client inserts after nodes it has been given, never twice at the same time after
  the same node, and runs out of memory before it has \<open>2 ^ 30\<close> objects.
\<close>

inductive wstep :: "nat \<Rightarrow> nat \<Rightarrow> bstate \<Rightarrow> bstate \<Rightarrow> bool" for p w where
  begin_insert: "wpc_of s w = Idle \<Longrightarrow> b \<in> handles s e \<Longrightarrow> (\<forall>v<p. active (wpc_of s v) \<longrightarrow> base_of s v \<noteq> (e, b)) \<Longrightarrow>
    brk (m_heap (ds_of e (rd s))) < 2 ^ 30 \<Longrightarrow>
    wstep p w s (goto w (Try_Lock Fast) (s\<lparr>base_of := (base_of s)(w := (e, b))\<rparr>))"
| try_lock: "wpc_of s w = Try_Lock k \<Longrightarrow> mut s w = None \<Longrightarrow>
    wstep p w s (goto w (Section k) (s\<lparr>mut := (mut s)(w := Some w)\<rparr>))"
| try_lock_busy: "wpc_of s w = Try_Lock k \<Longrightarrow> mut s w \<noteq> None \<Longrightarrow> wstep p w s (goto w (Batchify k) s)"
| section_fails: "wpc_of s w = Section k \<Longrightarrow> section_code k (fst (base_of s w)) (snd (base_of s w)) (rd s) = None \<Longrightarrow>
    wstep p w s (goto w Crashed s)"
| section_full: "wpc_of s w = Section k \<Longrightarrow> section_code k (fst (base_of s w)) (snd (base_of s w)) (rd s) = Some (None, r) \<Longrightarrow>
    wstep p w s (goto w Slow_Unlock (set_batch_id w (s\<lparr>rd := r, insert_failed := (insert_failed s)(w := True)\<rparr>)))"
| section_done: "wpc_of s w = Section k \<Longrightarrow> base_of s w = (e, b) \<Longrightarrow> section_code k e b (rd s) = Some (Some n, r) \<Longrightarrow>
    wstep p w s (goto w (if k = Slow \<and> insert_failed s w then Failed else Unlock)
      (s\<lparr>rd := r, handles := (handles s)(e := insert n (handles s e))\<rparr>))"
| unlock: "wpc_of s w = Unlock \<Longrightarrow> wstep p w s (goto w Idle (s\<lparr>mut := (mut s)(w := None)\<rparr>))"
| slow_unlock: "wpc_of s w = Slow_Unlock \<Longrightarrow> wstep p w s (goto w (Batchify Slow) (s\<lparr>mut := (mut s)(w := None)\<rparr>))"
| batchify_joins: "wpc_of s w = Batchify k \<Longrightarrow> \<not> wins_batch w s \<Longrightarrow> wstep p w s (goto w (Wait k) (enter_batch w s))"
| batchify_starts: "wpc_of s w = Batchify k \<Longrightarrow> wins_batch w s \<Longrightarrow>
    set_next_batch_owner w (enter_batch w (s\<lparr>relabel_mutex := Some w\<rparr>)) = (ok, t) \<Longrightarrow>
    wstep p w s (goto w (if ok then Lock_All k 0 else Failed) t)"
| lock_next: "wpc_of s w = Lock_All k i \<Longrightarrow> i < p \<Longrightarrow> mut s i = None \<Longrightarrow>
    wstep p w s (goto w (Lock_All k (Suc i)) (s\<lparr>mut := (mut s)(i := Some w)\<rparr>))"
| locked_all: "wpc_of s w = Lock_All k i \<Longrightarrow> \<not> i < p \<Longrightarrow> own_batch w s = (ok, t) \<Longrightarrow>
    wstep p w s (goto w (if ok then Relabel_Begin k else Failed) t)"
| relabel_begin: "wpc_of s w = Relabel_Begin k \<Longrightarrow> wstep p w s (goto w (Relabelling k) (next_relabel_id s))"
| relabel_fails: "wpc_of s w = Relabelling k \<Longrightarrow> relabel_both (rd s) = None \<Longrightarrow> wstep p w s (goto w Crashed s)"
| relabel_end: "wpc_of s w = Relabelling k \<Longrightarrow> relabel_both (rd s) = Some r \<Longrightarrow>
    wstep p w s (goto w (Terminate k) (next_relabel_id (s\<lparr>rd := r\<rparr>)))"
| terminate: "wpc_of s w = Terminate k \<Longrightarrow> wstep p w s (goto w (Wait k) (end_batch s))"
| wait_over: "wpc_of s w = Wait k \<Longrightarrow> batch_id s w = Some i \<Longrightarrow> \<not> batch_runs i s \<Longrightarrow>
    wstep p w s (goto w (Joined k) (leave_batch w s))"
| joined_owner: "wpc_of s w = Joined k \<Longrightarrow> batch_owner s = Some w \<Longrightarrow>
    wstep p w s (goto w (Unlock_All k 0) (disown_batch s))"
| joined: "wpc_of s w = Joined k \<Longrightarrow> batch_owner s \<noteq> Some w \<Longrightarrow> wstep p w s (after_join w k s)"
| unlock_next: "wpc_of s w = Unlock_All k i \<Longrightarrow> i < p \<Longrightarrow>
    wstep p w s (goto w (Unlock_All k (Suc i)) (s\<lparr>mut := (mut s)(i := None)\<rparr>))"
| unlocked_all: "wpc_of s w = Unlock_All k i \<Longrightarrow> \<not> i < p \<Longrightarrow> wstep p w s (goto w (Unlock_Relabel k) s)"
| unlock_relabel: "wpc_of s w = Unlock_Relabel k \<Longrightarrow> wstep p w s (after_join w k (s\<lparr>relabel_mutex := None\<rparr>))"

inductive bstep :: "nat \<Rightarrow> bstate \<Rightarrow> bstate \<Rightarrow> bool" for p where
  "w < p \<Longrightarrow> \<forall>v<p. \<not> stopped (wpc_of s v) \<Longrightarrow> wstep p w s s' \<Longrightarrow> bstep p s s'"

definition binit :: "rd_state \<Rightarrow> bstate" where
  "binit r = \<lparr>rd = r, mut = (\<lambda>_. None), relabel_mutex = None, batch_lock = None, batch_owner = None, pending_id = 0,
     wpc_of = (\<lambda>_. Idle), insert_failed = (\<lambda>_. False), batch_id = (\<lambda>_. None), base_of = (\<lambda>_. (True, 0)),
     handles = (\<lambda>e. case m_base (ds_of e r) of None \<Rightarrow> {} | Some n \<Rightarrow> {n})\<rparr>"

subsection \<open>Who holds which lock\<close>

fun owns :: "wpc \<Rightarrow> nat \<Rightarrow> bool \<Rightarrow> nat \<Rightarrow> bool" where
  "owns (Section k) w ow i = (i = w)" | "owns Unlock w ow i = (i = w)" | "owns Slow_Unlock w ow i = (i = w)"
| "owns (Lock_All k j) w ow i = (i < j)" | "owns (Relabel_Begin k) w ow i = True" | "owns (Relabelling k) w ow i = True"
| "owns (Terminate k) w ow i = True" | "owns (Wait k) w ow i = ow" | "owns (Joined k) w ow i = ow"
| "owns (Unlock_All k j) w ow i = (j \<le> i)" | "owns _ w ow i = False"

fun boss :: "wpc \<Rightarrow> bool \<Rightarrow> bool" where
  "boss (Lock_All k j) ow = True" | "boss (Relabel_Begin k) ow = True" | "boss (Relabelling k) ow = True"
| "boss (Terminate k) ow = True" | "boss (Wait k) ow = ow" | "boss (Joined k) ow = ow"
| "boss (Unlock_All k j) ow = True" | "boss (Unlock_Relabel k) ow = True" | "boss _ ow = False"

text \<open>The phases in which the batch lock is held, in which \<open>g_batch_owner_id\<close> is set, and in which it must be.\<close>

fun in_batch :: "wpc \<Rightarrow> bool" where
  "in_batch (Lock_All k j) = True" | "in_batch (Relabel_Begin k) = True" | "in_batch (Relabelling k) = True"
| "in_batch (Terminate k) = True" | "in_batch _ = False"

fun may_own :: "wpc \<Rightarrow> bool" where
  "may_own (Relabel_Begin k) = True" | "may_own (Relabelling k) = True" | "may_own (Terminate k) = True"
| "may_own (Wait k) = True" | "may_own (Joined k) = True" | "may_own _ = False"

fun must_own :: "wpc \<Rightarrow> bool" where
  "must_own (Relabel_Begin k) = True" | "must_own (Relabelling k) = True" | "must_own (Terminate k) = True"
| "must_own _ = False"

fun relabelling :: "wpc \<Rightarrow> bool" where
  "relabelling (Relabelling k) = True" | "relabelling _ = False"

text \<open>Where \<open>insert_failed\<close> may be set: in \<open>slow_path\<close> until the batch is over.\<close>

fun may_fail :: "wpc \<Rightarrow> bool" where
  "may_fail Slow_Unlock = True" | "may_fail (Batchify k) = (k = Slow)" | "may_fail (Lock_All k j) = (k = Slow)"
| "may_fail (Relabel_Begin k) = (k = Slow)" | "may_fail (Relabelling k) = (k = Slow)" | "may_fail (Terminate k) = (k = Slow)"
| "may_fail (Wait k) = (k = Slow)" | "may_fail (Joined k) = (k = Slow)" | "may_fail (Unlock_All k j) = (k = Slow)"
| "may_fail (Unlock_Relabel k) = (k = Slow)" | "may_fail _ = False"

text \<open>The mutexes of the workers, the relabel mutex, the batch lock, the owner of the batch, and the flags.\<close>

definition mut_inv :: "nat \<Rightarrow> bstate \<Rightarrow> bool" where
  "mut_inv p s \<longleftrightarrow>
     (\<forall>w<p. \<forall>i<p. mut s i = Some w \<longleftrightarrow> owns (wpc_of s w) w (batch_owner s = Some w) i) \<and>
     (\<forall>i<p. \<forall>w. mut s i = Some w \<longrightarrow> w < p)"

definition boss_inv :: "nat \<Rightarrow> bstate \<Rightarrow> bool" where
  "boss_inv p s \<longleftrightarrow>
     (\<forall>w<p. relabel_mutex s = Some w \<longleftrightarrow> boss (wpc_of s w) (batch_owner s = Some w)) \<and>
     (\<forall>w. relabel_mutex s = Some w \<longrightarrow> w < p)"

definition batch_inv :: "nat \<Rightarrow> bstate \<Rightarrow> bool" where
  "batch_inv p s \<longleftrightarrow>
     (\<forall>w<p. batch_lock s = Some w \<longleftrightarrow> in_batch (wpc_of s w)) \<and> (\<forall>w. batch_lock s = Some w \<longrightarrow> w < p)"

definition owner_inv :: "nat \<Rightarrow> bstate \<Rightarrow> bool" where
  "owner_inv p s \<longleftrightarrow>
     (\<forall>w. batch_owner s = Some w \<longrightarrow> w < p \<and> may_own (wpc_of s w)) \<and>
     (\<forall>w<p. must_own (wpc_of s w) \<longrightarrow> batch_owner s = Some w) \<and>
     g_batch_in_progress (fst (rd s)) = (if batch_owner s = None then 0 else 1)"

definition id_inv :: "nat \<Rightarrow> bstate \<Rightarrow> bool" where
  "id_inv p s \<longleftrightarrow> (odd (g_relabel_id (fst (rd s))) \<longleftrightarrow> (\<exists>w<p. relabelling (wpc_of s w)))"

definition flag_inv :: "nat \<Rightarrow> bstate \<Rightarrow> bool" where
  "flag_inv p s \<longleftrightarrow>
     (\<forall>w<p. insert_failed s w \<longrightarrow> may_fail (wpc_of s w)) \<and>
     (\<forall>w<p. \<forall>k i. wpc_of s w = Lock_All k i \<or> wpc_of s w = Unlock_All k i \<longrightarrow> i \<le> p) \<and>
     (\<forall>w<p. in_batch (wpc_of s w) \<or> (\<exists>k. wpc_of s w = Wait k) \<longrightarrow> batch_id s w \<noteq> None)"

definition lock_inv :: "nat \<Rightarrow> bstate \<Rightarrow> bool" where
  "lock_inv p s \<longleftrightarrow> mut_inv p s \<and> boss_inv p s \<and> batch_inv p s \<and> owner_inv p s \<and> id_inv p s \<and> flag_inv p s"

lemma goto_simps [simp]:
  "rd (goto w q s) = rd s" "mut (goto w q s) = mut s" "relabel_mutex (goto w q s) = relabel_mutex s"
  "batch_lock (goto w q s) = batch_lock s" "batch_owner (goto w q s) = batch_owner s" "pending_id (goto w q s) = pending_id s"
  "wpc_of (goto w q s) = (wpc_of s)(w := q)" "insert_failed (goto w q s) = insert_failed s" "batch_id (goto w q s) = batch_id s"
  "base_of (goto w q s) = base_of s" "handles (goto w q s) = handles s"
  by (simp_all add: goto_def)

lemma set_progress_simps [simp]:
  "fst (rd (set_progress v s)) = (fst (rd s))\<lparr>g_batch_in_progress := v\<rparr>" "snd (rd (set_progress v s)) = snd (rd s)"
  "mut (set_progress v s) = mut s" "relabel_mutex (set_progress v s) = relabel_mutex s"
  "batch_lock (set_progress v s) = batch_lock s" "batch_owner (set_progress v s) = batch_owner s"
  "pending_id (set_progress v s) = pending_id s" "wpc_of (set_progress v s) = wpc_of s"
  "insert_failed (set_progress v s) = insert_failed s" "batch_id (set_progress v s) = batch_id s"
  "base_of (set_progress v s) = base_of s" "handles (set_progress v s) = handles s"
  by (simp_all add: set_progress_def)

lemma next_relabel_id_simps [simp]:
  "fst (rd (next_relabel_id s)) = (fst (rd s))\<lparr>g_relabel_id := g_relabel_id (fst (rd s)) + 1\<rparr>"
  "snd (rd (next_relabel_id s)) = snd (rd s)"
  "mut (next_relabel_id s) = mut s" "relabel_mutex (next_relabel_id s) = relabel_mutex s"
  "batch_lock (next_relabel_id s) = batch_lock s" "batch_owner (next_relabel_id s) = batch_owner s"
  "pending_id (next_relabel_id s) = pending_id s" "wpc_of (next_relabel_id s) = wpc_of s"
  "insert_failed (next_relabel_id s) = insert_failed s" "batch_id (next_relabel_id s) = batch_id s"
  "base_of (next_relabel_id s) = base_of s" "handles (next_relabel_id s) = handles s"
  by (simp_all add: next_relabel_id_def)

lemma after_join_simps [simp]:
  "rd (after_join w k s) = rd s" "mut (after_join w k s) = mut s" "relabel_mutex (after_join w k s) = relabel_mutex s"
  "batch_lock (after_join w k s) = batch_lock s" "batch_owner (after_join w k s) = batch_owner s"
  "pending_id (after_join w k s) = pending_id s" "wpc_of (after_join w k s) = (wpc_of s)(w := Try_Lock k)"
  "insert_failed (after_join w k s) = (if k = Slow then (insert_failed s)(w := False) else insert_failed s)"
  "batch_id (after_join w k s) = batch_id s" "base_of (after_join w k s) = base_of s" "handles (after_join w k s) = handles s"
  by (simp_all add: after_join_def)

lemma fst_set_ds: "fst (set_ds e d r) = fst r"
  by simp

lemma section_code_globals:
  assumes "section_code k e b r = Some (n, r')" shows "fst r' = fst r"
proof -
  have "\<exists>d. r' = set_ds e d r"
  proof (cases "try_insert (fst r) (Some b) (ds_of e r)")
    case (Some x)
    then obtain n1 d where x: "try_insert (fst r) (Some b) (ds_of e r) = Some (n1, d)" by (cases x) simp
    show ?thesis
    proof (cases n1)
      case None
      with assms x show ?thesis by (auto simp: section_code_def bind_Some_iff)
    next
      case (Some m)
      with assms x show ?thesis unfolding section_code_def by (auto simp add: bind_Some_iff simp del: bind_check)
    qed
  qed (use assms in \<open>simp add: section_code_def\<close>)
  then show ?thesis by auto
qed

lemma relabel_both_globals: "relabel_both r = Some r' \<Longrightarrow> fst r' = fst r"
  by (auto simp: relabel_both_def bind_Some_iff)

text \<open>What a step of \<open>w\<close> leaves alone.\<close>

lemma wstep_others:
  assumes "wstep p w s s'" "v \<noteq> w"
  shows "wpc_of s' v = wpc_of s v" "insert_failed s' v = insert_failed s v" "batch_id s' v = batch_id s v" "base_of s' v = base_of s v"
proof -
  have "wpc_of s' v = wpc_of s v \<and> insert_failed s' v = insert_failed s v \<and> batch_id s' v = batch_id s v \<and> base_of s' v = base_of s v"
    using assms(1) by cases (use assms(2) in simp_all)
  then show "wpc_of s' v = wpc_of s v" "insert_failed s' v = insert_failed s v" "batch_id s' v = batch_id s v"
    "base_of s' v = base_of s v" by blast+
qed

lemma mut_invI:
  assumes "mut_inv p s" "w < p" "wstep p w s s'"
    and "\<And>v. v < p \<Longrightarrow> v \<noteq> w \<Longrightarrow> batch_owner s' = Some v \<longleftrightarrow> batch_owner s = Some v"
    and "\<And>i. i < p \<Longrightarrow> mut s' i = Some w \<longleftrightarrow> owns (wpc_of s' w) w (batch_owner s' = Some w) i"
    and "\<And>i v. i < p \<Longrightarrow> v \<noteq> w \<Longrightarrow> mut s' i = Some v \<longleftrightarrow> mut s i = Some v"
  shows "mut_inv p s'"
  unfolding mut_inv_def
proof (intro conjI allI impI)
  fix v i assume vi: "v < p" "i < p"
  show "mut s' i = Some v \<longleftrightarrow> owns (wpc_of s' v) v (batch_owner s' = Some v) i"
  proof (cases "v = w")
    case True
    then show ?thesis using assms(5) [OF vi(2)] by blast
  next
    case False
    have "mut s' i = Some v \<longleftrightarrow> owns (wpc_of s v) v (batch_owner s = Some v) i"
      using assms(1) vi unfolding mut_inv_def assms(6) [OF vi(2) False] by blast
    then show ?thesis unfolding wstep_others(1) [OF assms(3) False] assms(4) [OF vi(1) False] .
  qed
next
  fix i v assume i: "i < p" "mut s' i = Some v"
  show "v < p"
  proof (cases "v = w")
    case False
    then have "mut s i = Some v" using assms(6) [OF i(1) False] i(2) by blast
    then show ?thesis using assms(1) i(1) unfolding mut_inv_def by blast
  qed (use assms(2) in simp)
qed

lemma mut_step:
  assumes inv: "lock_inv p s" and w: "w < p" and step: "wstep p w s s'" and ok: "\<not> stopped (wpc_of s' w)" shows "mut_inv p s'"
proof -
  have i: "mut_inv p s" "owner_inv p s" "flag_inv p s" using inv by (auto simp: lock_inv_def)
  have mw: "mut s j = Some w \<longleftrightarrow> owns (wpc_of s w) w (batch_owner s = Some w) j" if "j < p" for j
    using i(1) w that unfolding mut_inv_def by blast
  have own: "may_own (wpc_of s w)" if "batch_owner s = Some w" using i(2) that unfolding owner_inv_def by blast
  have own': "must_own (wpc_of s w) \<Longrightarrow> batch_owner s = Some w" using i(2) w unfolding owner_inv_def by blast
  note I = mut_invI [OF i(1) w step]
  show ?thesis
    using step
  proof cases
    case (locked_all k j)
    have "batch_owner s = None" using ok locked_all by (auto split: if_splits)
    show ?thesis by (rule I) (use locked_all mw w ok \<open>batch_owner s = None\<close> in auto)
  next
    case (joined_owner k)
    show ?thesis by (rule I) (use joined_owner mw w in auto)
  next
    case (unlock_next k j)
    have "mut s j = Some w" using mw [of j] unlock_next by simp
    then have "\<forall>v. v \<noteq> w \<longrightarrow> mut s j \<noteq> Some v" by simp
    then show ?thesis by (intro I) (use unlock_next mw w in auto)
  next
    case (lock_next k j)
    show ?thesis by (rule I) (use lock_next mw w in auto)
  next
    case (unlocked_all k j)
    show ?thesis by (rule I) (use unlocked_all mw w in auto)
  next
    case (try_lock k)
    show ?thesis by (rule I) (use try_lock mw w in auto)
  next
    case (unlock)
    have "mut s w = Some w" using mw [of w] unlock w by simp
    then have "\<forall>v. v \<noteq> w \<longrightarrow> mut s w \<noteq> Some v" by simp
    then show ?thesis by (intro I) (use unlock mw w in auto)
  next
    case (slow_unlock)
    have "mut s w = Some w" using mw [of w] slow_unlock w by simp
    then have "\<forall>v. v \<noteq> w \<longrightarrow> mut s w \<noteq> Some v" by simp
    then show ?thesis by (intro I) (use slow_unlock mw w in auto)
  next
    case (batchify_joins k)
    have "batch_owner s \<noteq> Some w" using own batchify_joins(2) by auto
    then show ?thesis by (intro I) (use batchify_joins(1,2) mw w in auto)
  next
    case (terminate k)
    have "batch_owner s = Some w" using own' terminate(2) by simp
    then show ?thesis by (intro I) (use terminate mw w in auto)
  next
    case (batchify_starts k)
    show ?thesis by (rule I) (use batchify_starts mw w ok in \<open>auto split: if_splits\<close>)
  next
    case (section_done k e b n r)
    show ?thesis by (rule I) (use section_done mw w ok in \<open>auto split: if_splits\<close>)
  qed (rule I; use mw w ok in simp)+
qed

lemma wstep_relabel_mutex:
  assumes "wstep p w s s'" "\<not> stopped (wpc_of s' w)"
  shows "relabel_mutex s' = relabel_mutex s \<or> relabel_mutex s = None \<and> relabel_mutex s' = Some w \<or>
     relabel_mutex s' = None \<and> (\<exists>k. wpc_of s w = Unlock_Relabel k)"
  using assms(1) by cases auto

lemma boss_step:
  assumes inv: "lock_inv p s" and w: "w < p" and step: "wstep p w s s'" and ok: "\<not> stopped (wpc_of s' w)" shows "boss_inv p s'"
proof -
  have i: "boss_inv p s" "owner_inv p s" using inv by (auto simp: lock_inv_def)
  have b: "relabel_mutex s = Some v \<longleftrightarrow> boss (wpc_of s v) (batch_owner s = Some v)" if "v < p" for v
    using i(1) that unfolding boss_inv_def by blast
  have own: "may_own (wpc_of s w)" if "batch_owner s = Some w" using i(2) that unfolding owner_inv_def by blast
  have own': "must_own (wpc_of s w) \<Longrightarrow> batch_owner s = Some w" using i(2) w unfolding owner_inv_def by blast
  have mine: "relabel_mutex s' = Some w \<longleftrightarrow> boss (wpc_of s' w) (batch_owner s' = Some w)"
    using step by cases (use b [OF w] own own' ok in \<open>auto split: if_splits\<close>)
  have others: "relabel_mutex s' = Some v \<longleftrightarrow> relabel_mutex s = Some v"
    "batch_owner s' = Some v \<longleftrightarrow> batch_owner s = Some v" if "v \<noteq> w" "v < p" for v
    using step by (cases; use b [OF w] own own' that ok in \<open>auto split: if_splits\<close>)+
  show ?thesis
    unfolding boss_inv_def
  proof (intro conjI allI impI)
    fix v assume v: "v < p"
    show "relabel_mutex s' = Some v \<longleftrightarrow> boss (wpc_of s' v) (batch_owner s' = Some v)"
    proof (cases "v = w")
      case False
      show ?thesis
        unfolding others(1) [OF False v] others(2) [OF False v] wstep_others(1) [OF step False] by (rule b [OF v])
    qed (use mine in simp)
  next
    fix v assume "relabel_mutex s' = Some v"
    then show "v < p" using wstep_relabel_mutex [OF step ok] i(1) w unfolding boss_inv_def by auto
  qed
qed

lemma batch_step:
  assumes inv: "lock_inv p s" and w: "w < p" and step: "wstep p w s s'" and ok: "\<not> stopped (wpc_of s' w)" shows "batch_inv p s'"
proof -
  have i: "batch_inv p s" using inv by (simp add: lock_inv_def)
  have b: "batch_lock s = Some v \<longleftrightarrow> in_batch (wpc_of s v)" if "v < p" for v
    using i that unfolding batch_inv_def by blast
  have mine: "batch_lock s' = Some w \<longleftrightarrow> in_batch (wpc_of s' w)"
    using step by cases (use b [OF w] ok in \<open>auto split: if_splits\<close>)
  have others: "batch_lock s' = Some v \<longleftrightarrow> batch_lock s = Some v" if "v \<noteq> w" for v
    using step by (cases; use b [OF w] that ok in \<open>auto split: if_splits\<close>)
  show ?thesis
    unfolding batch_inv_def
  proof (intro conjI allI impI)
    fix v assume v: "v < p"
    show "batch_lock s' = Some v \<longleftrightarrow> in_batch (wpc_of s' v)"
    proof (cases "v = w")
      case False
      show ?thesis unfolding others [OF False] wstep_others(1) [OF step False] by (rule b [OF v])
    qed (use mine in simp)
  next
    fix v assume "batch_lock s' = Some v"
    then show "v < p" using others [of v] i w unfolding batch_inv_def by blast
  qed
qed

lemma owner_step:
  assumes inv: "lock_inv p s" and w: "w < p" and step: "wstep p w s s'" and ok: "\<not> stopped (wpc_of s' w)" shows "owner_inv p s'"
proof -
  have i: "owner_inv p s" using inv by (simp add: lock_inv_def)
  have own: "may_own (wpc_of s w)" if "batch_owner s = Some w" using i that unfolding owner_inv_def by blast
  have own': "must_own (wpc_of s w) \<Longrightarrow> batch_owner s = Some w" using i w unfolding owner_inv_def by blast
  have prog: "g_batch_in_progress (fst (rd s)) = (if batch_owner s = None then 0 else 1)"
    using i unfolding owner_inv_def by blast
  have mine: "(batch_owner s' = Some w \<longrightarrow> may_own (wpc_of s' w)) \<and> (must_own (wpc_of s' w) \<longrightarrow> batch_owner s' = Some w)"
    using step by cases (use own own' ok in \<open>auto split: if_splits\<close>)
  have others: "batch_owner s' = Some v \<longleftrightarrow> batch_owner s = Some v" if "v \<noteq> w" for v
    using step by (cases; use own own' that ok in \<open>auto split: if_splits\<close>)
  have flag: "g_batch_in_progress (fst (rd s')) = (if batch_owner s' = None then 0 else 1)"
    using step
  proof cases
    case (section_full k r)
    then show ?thesis using prog section_code_globals by simp
  next
    case (section_done k e b n r)
    then show ?thesis using prog section_code_globals by simp
  next
    case (relabel_end k r)
    then show ?thesis using prog relabel_both_globals by simp
  qed (use prog own in auto)
  have 1: "batch_owner s = Some v \<Longrightarrow> v < p \<and> may_own (wpc_of s v)" for v using i unfolding owner_inv_def by blast
  have 2: "v < p \<Longrightarrow> must_own (wpc_of s v) \<Longrightarrow> batch_owner s = Some v" for v using i unfolding owner_inv_def by blast
  have lt: "v < p \<and> may_own (wpc_of s' v)" if o: "batch_owner s' = Some v" for v
  proof (cases "v = w")
    case True
    then show ?thesis using mine o w by simp
  next
    case False
    have "batch_owner s = Some v" using others [OF False] o by blast
    from 1 [OF this] show ?thesis unfolding wstep_others(1) [OF step False] .
  qed
  have must: "batch_owner s' = Some v" if o: "v < p" "must_own (wpc_of s' v)" for v
  proof (cases "v = w")
    case True
    then show ?thesis using mine o by simp
  next
    case False
    have "must_own (wpc_of s v)" using o(2) unfolding wstep_others(1) [OF step False] .
    from 2 [OF o(1) this] show ?thesis using others [OF False] by blast
  qed
  show ?thesis
    unfolding owner_inv_def using lt must flag by blast
qed

lemma id_step:
  assumes inv: "lock_inv p s" and w: "w < p" and step: "wstep p w s s'" and ok: "\<not> stopped (wpc_of s' w)" shows "id_inv p s'"
proof -
  have i: "id_inv p s" "owner_inv p s" using inv by (simp_all add: lock_inv_def)
  have only: "v = w" if "v < p" "must_own (wpc_of s v)" "must_own (wpc_of s w)" for v
    using i(2) w that unfolding owner_inv_def by (metis option.inject)
  have rel: "must_own q" if "relabelling q" for q using that by (cases q) auto
  have id: "odd (g_relabel_id (fst (rd s))) \<longleftrightarrow> (\<exists>v<p. relabelling (wpc_of s v))" using i(1) by (simp add: id_inv_def)
  have ex: "(\<exists>v<p. relabelling (wpc_of s' v)) \<longleftrightarrow> relabelling (wpc_of s' w) \<or> (\<exists>v<p. v \<noteq> w \<and> relabelling (wpc_of s v))"
    using wstep_others(1) [OF step] w by metis
  have ex0: "(\<exists>v<p. relabelling (wpc_of s v)) \<longleftrightarrow> relabelling (wpc_of s w) \<or> (\<exists>v<p. v \<noteq> w \<and> relabelling (wpc_of s v))"
    using w by metis
  have none: "\<not> (\<exists>v<p. v \<noteq> w \<and> relabelling (wpc_of s v))" if "must_own (wpc_of s w)"
    using only rel that by blast
  have "odd (g_relabel_id (fst (rd s'))) \<longleftrightarrow> relabelling (wpc_of s' w) \<or> (\<exists>v<p. v \<noteq> w \<and> relabelling (wpc_of s v))"
    using step
  proof cases
    case (relabel_begin k)
    then show ?thesis using id ex0 none by simp
  next
    case (relabel_end k r)
    then show ?thesis using id ex0 none relabel_both_globals by simp
  next
    case (section_full k r)
    then show ?thesis using id ex0 section_code_globals by simp
  next
    case (section_done k e b n r)
    then show ?thesis using id ex0 section_code_globals by (simp split: if_splits)
  qed (use id ex0 ok in \<open>simp_all split: if_splits\<close>)
  then show ?thesis unfolding id_inv_def ex .
qed

lemma flag_step:
  assumes inv: "lock_inv p s" and w: "w < p" and step: "wstep p w s s'" and ok: "\<not> stopped (wpc_of s' w)" shows "flag_inv p s'"
proof -
  have i: "flag_inv p s" using inv by (simp add: lock_inv_def)
  have f: "insert_failed s w \<Longrightarrow> may_fail (wpc_of s w)" "wpc_of s w = Lock_All k j \<Longrightarrow> j \<le> p" "wpc_of s w = Unlock_All k j \<Longrightarrow> j \<le> p"
    "in_batch (wpc_of s w) \<Longrightarrow> batch_id s w \<noteq> None" for k j
    using i w unfolding flag_inv_def by blast+
  have 1: "insert_failed s' w \<longrightarrow> may_fail (wpc_of s' w)"
    using step by cases (use f ok in \<open>auto split: if_splits entry.splits\<close>)
  have 2: "\<forall>k j. wpc_of s' w = Lock_All k j \<or> wpc_of s' w = Unlock_All k j \<longrightarrow> j \<le> p"
    using step by cases (use f ok in \<open>auto split: if_splits\<close>)
  have 3: "in_batch (wpc_of s' w) \<or> (\<exists>k. wpc_of s' w = Wait k) \<longrightarrow> batch_id s' w \<noteq> None"
    using step by cases (use f ok in \<open>auto split: if_splits\<close>)
  have 4: "insert_failed s v \<longrightarrow> may_fail (wpc_of s v)" "\<forall>k j. wpc_of s v = Lock_All k j \<or> wpc_of s v = Unlock_All k j \<longrightarrow> j \<le> p"
    "in_batch (wpc_of s v) \<or> (\<exists>k. wpc_of s v = Wait k) \<longrightarrow> batch_id s v \<noteq> None" if "v < p" for v
    using i that unfolding flag_inv_def by blast+
  have "(insert_failed s' v \<longrightarrow> may_fail (wpc_of s' v)) \<and> (\<forall>k j. wpc_of s' v = Lock_All k j \<or> wpc_of s' v = Unlock_All k j \<longrightarrow> j \<le> p) \<and>
    (in_batch (wpc_of s' v) \<or> (\<exists>k. wpc_of s' v = Wait k) \<longrightarrow> batch_id s' v \<noteq> None)" if v: "v < p" for v
  proof (cases "v = w")
    case True
    with 1 2 3 show ?thesis by blast
  next
    case False
    show ?thesis unfolding wstep_others [OF step False] using 4 [OF v] by blast
  qed
  then show ?thesis unfolding flag_inv_def by blast
qed

lemma lock_step:
  "lock_inv p s \<Longrightarrow> w < p \<Longrightarrow> wstep p w s s' \<Longrightarrow> \<not> stopped (wpc_of s' w) \<Longrightarrow> lock_inv p s'"
  unfolding lock_inv_def [of p s']
  by (intro conjI) (erule mut_step boss_step batch_step owner_step id_step flag_step; assumption)+

lemma lock_init: "fst r = rd_globals_init \<Longrightarrow> lock_inv p (binit r)"
  by (simp add: lock_inv_def mut_inv_def boss_inv_def batch_inv_def owner_inv_def id_inv_def flag_inv_def binit_def
      rd_globals_init_def)

text \<open>The batch lock is free for the holder of the relabel mutex, and there is no owner left over.\<close>

lemma lock_asserts:
  assumes inv: "lock_inv p s" and w: "w < p"
  shows "relabel_mutex s = None \<Longrightarrow> batch_lock s = None" "wpc_of s w = Lock_All k i \<Longrightarrow> batch_owner s = None"
proof -
  have i: "boss_inv p s" "batch_inv p s" "owner_inv p s" using inv by (auto simp: lock_inv_def)
  have bb: "boss q ow" if "in_batch q" for q ow using that by (cases q) auto
  show "batch_lock s = None" if "relabel_mutex s = None"
  proof (rule ccontr)
    assume "batch_lock s \<noteq> None"
    then obtain v where "v < p" "in_batch (wpc_of s v)" using i(2) unfolding batch_inv_def by blast
    then show False using i(1) bb that unfolding boss_inv_def by (metis option.distinct(1))
  qed
  show "batch_owner s = None" if "wpc_of s w = Lock_All k i"
  proof (rule ccontr)
    assume "batch_owner s \<noteq> None"
    then obtain v where v: "batch_owner s = Some v" "v < p" "may_own (wpc_of s v)"
      using i(3) unfolding owner_inv_def by blast
    then have "boss (wpc_of s v) (batch_owner s = Some v)" by (cases "wpc_of s v") auto
    then have "relabel_mutex s = Some v" using i(1) v(2) unfolding boss_inv_def by blast
    moreover have "relabel_mutex s = Some w" using i(1) w that unfolding boss_inv_def by auto
    ultimately show False using v that by auto
  qed
qed

text \<open>While a worker is in its section there is no batch, and no other worker relabels.\<close>

lemma section_excludes:
  assumes inv: "lock_inv p s" and w: "w < p" "wpc_of s w = Section k"
  shows "g_batch_in_progress (fst (rd s)) = 0" and "\<forall>v<p. \<not> must_own (wpc_of s v)"
proof -
  have i: "mut_inv p s" "owner_inv p s" using inv by (auto simp: lock_inv_def)
  have mw: "mut s w = Some w" using i(1) w unfolding mut_inv_def by auto
  have none: "batch_owner s = None"
  proof (rule ccontr)
    assume "batch_owner s \<noteq> None"
    then obtain v where v: "batch_owner s = Some v" "v < p" "may_own (wpc_of s v)"
      using i(2) unfolding owner_inv_def by blast
    then have "owns (wpc_of s v) v (batch_owner s = Some v) w" by (cases "wpc_of s v") auto
    then have "mut s w = Some v" using i(1) v(2) w(1) unfolding mut_inv_def by blast
    with mw v w show False by auto
  qed
  then show "g_batch_in_progress (fst (rd s)) = 0" using i(2) by (simp add: owner_inv_def)
  show "\<forall>v<p. \<not> must_own (wpc_of s v)" using none i(2) unfolding owner_inv_def by (metis option.distinct(1))
qed

subsection \<open>Reachable states\<close>

text \<open>A step keeps the invariant unless the program is over, and it is over only through an error in the orders.\<close>

lemma wstep_not_failed:
  assumes inv: "lock_inv p s" and w: "w < p" and step: "wstep p w s s'" and ok: "wpc_of s w \<noteq> Failed"
  shows "wpc_of s' w \<noteq> Failed"
proof -
  have f: "\<not> insert_failed s w" if "wpc_of s w = Section k" for k
  proof -
    have "insert_failed s w \<longrightarrow> may_fail (wpc_of s w)" using inv w by (simp add: lock_inv_def flag_inv_def)
    then show ?thesis using that by simp
  qed
  have l: "batch_owner s = None" if "wpc_of s w = Lock_All k i" for k i using lock_asserts(2) [OF inv w that] .
  have b: "batch_lock s = None" if "relabel_mutex s = None" using lock_asserts(1) [OF inv w that] .
  show ?thesis using step by cases (use f l b ok in simp_all)
qed

lemma bstep_inv:
  assumes "lock_inv p s" "bstep p s s'"
  shows "lock_inv p s' \<or> (\<exists>w<p. wpc_of s' w = Crashed \<and> (\<forall>v. v \<noteq> w \<longrightarrow> wpc_of s' v = wpc_of s v) \<and> rd s' = rd s)"
proof -
  obtain w where w: "w < p" "wstep p w s s'" "\<not> stopped (wpc_of s w)" using assms(2) by cases auto
  show ?thesis
  proof (cases "wpc_of s' w = Crashed")
    case True
    have "rd s' = rd s" using w(2) by cases (use True w(3) in \<open>simp_all split: if_splits\<close>)
    then show ?thesis using True w(1) wstep_others(1) [OF w(2)] by blast
  next
    case False
    then show ?thesis using lock_step [OF assms(1) w(1,2)] wstep_not_failed [OF assms(1) w(1,2)] w(3) by blast
  qed
qed

definition breach :: "nat \<Rightarrow> rd_state \<Rightarrow> bstate \<Rightarrow> bool" where
  "breach p r s \<longleftrightarrow> (bstep p)\<^sup>*\<^sup>* (binit r) s"

lemma breach_inv:
  assumes "breach p r s" "fst r = rd_globals_init"
  shows "lock_inv p s \<and> (\<forall>w<p. \<not> stopped (wpc_of s w)) \<or>
    (\<exists>s0 w. lock_inv p s0 \<and> (\<forall>v<p. \<not> stopped (wpc_of s0 v)) \<and> w < p \<and> wpc_of s w = Crashed \<and>
       (\<forall>v. v \<noteq> w \<longrightarrow> wpc_of s v = wpc_of s0 v) \<and> rd s = rd s0)"
  using assms(1) unfolding breach_def
proof (induction rule: rtranclp_induct)
  case base
  then show ?case using lock_init [OF assms(2)] by (simp add: binit_def)
next
  case (step s s')
  obtain w where w: "w < p" "wstep p w s s'" "\<forall>v<p. \<not> stopped (wpc_of s v)" using step.hyps(2) by cases
  then have inv: "lock_inv p s" using step.IH by blast
  show ?case
  proof (cases "wpc_of s' w = Crashed")
    case True
    have ns: "\<not> stopped (wpc_of s w)" using w(1,3) by blast
    have "rd s' = rd s" using w(2) by cases (use True ns in \<open>simp_all split: if_splits\<close>)
    then show ?thesis using True inv w(1,3) wstep_others(1) [OF w(2)] by blast
  next
    case False
    have "\<not> stopped (wpc_of s' w)" using wstep_not_failed [OF inv w(1,2)] False w(1,3) by blast
    then have "\<forall>v<p. \<not> stopped (wpc_of s' v)" using w(3) wstep_others(1) [OF w(2)] by metis
    then show ?thesis using bstep_inv [OF inv step.hyps(2)] by blast
  qed
qed

lemma breach_not_failed:
  assumes "breach p r s" "fst r = rd_globals_init" "w < p" shows "wpc_of s w \<noteq> Failed"
proof
  assume f: "wpc_of s w = Failed"
  show False
    using breach_inv [OF assms(1,2)]
  proof (elim disjE conjE exE)
    assume "\<forall>w<p. \<not> stopped (wpc_of s w)" then show False using f assms(3) by blast
  next
    fix s0 u assume c: "\<forall>v<p. \<not> stopped (wpc_of s0 v)" "wpc_of s u = Crashed" "\<forall>v. v \<noteq> u \<longrightarrow> wpc_of s v = wpc_of s0 v"
    then have "w \<noteq> u" using f by auto
    then show False using c(1,3) f assms(3) by metis
  qed
qed

text \<open>While a worker relabels, the others are outside of their sections and of the batch.\<close>

lemma lock_relabelling:
  assumes inv: "lock_inv p s" and w: "w < p" "wpc_of s w = Relabelling k" and v: "v < p" "v \<noteq> w"
  shows "mut s v = Some w \<and> odd (g_relabel_id (fst (rd s))) \<and> \<not> must_own (wpc_of s v) \<and> wpc_of s v \<noteq> Section e"
proof -
  have i: "mut_inv p s" "owner_inv p s" "id_inv p s" using inv by (simp_all add: lock_inv_def)
  have "mut s v = Some w \<longleftrightarrow> owns (wpc_of s w) w (batch_owner s = Some w) v" using i(1) w(1) v unfolding mut_inv_def by blast
  then have m: "mut s v = Some w" using w(2) by simp
  have "mut s v = Some v \<longleftrightarrow> owns (wpc_of s v) v (batch_owner s = Some v) v" using i(1) v unfolding mut_inv_def by blast
  then have sec: "wpc_of s v \<noteq> Section e" using m v(2) by auto
  have ow: "must_own (wpc_of s u) \<Longrightarrow> batch_owner s = Some u" if "u < p" for u using i(2) that unfolding owner_inv_def by blast
  have "\<not> must_own (wpc_of s v)" using ow [OF w(1)] ow [OF v(1)] v(2) w(2) by auto
  moreover have "relabelling (wpc_of s w)" using w(2) by simp
  then have "odd (g_relabel_id (fst (rd s)))" using i(3) w(1) unfolding id_inv_def by blast
  ultimately show ?thesis using m sec by blast
qed

lemma breach_relabelling:
  assumes reach: "breach p r s" "fst r = rd_globals_init" and w: "w < p" "wpc_of s w = Relabelling k" and v: "v < p" "v \<noteq> w"
  shows "odd (g_relabel_id (fst (rd s))) \<and> \<not> must_own (wpc_of s v) \<and> wpc_of s v \<noteq> Section e"
  using breach_inv [OF reach]
proof (elim disjE conjE exE)
  assume "lock_inv p s" then show ?thesis using lock_relabelling [OF _ w v] by blast
next
  fix s0 u assume c: "lock_inv p s0" "wpc_of s u = Crashed" "\<forall>v. v \<noteq> u \<longrightarrow> wpc_of s v = wpc_of s0 v" "rd s = rd s0"
  then have "w \<noteq> u" using w by auto
  then have "wpc_of s0 w = Relabelling k" using c(3) w(2) by metis
  from lock_relabelling [OF c(1) w(1) this v] c show ?thesis by (cases "v = u") auto
qed

lemma breach_odd:
  assumes reach: "breach p r s" "fst r = rd_globals_init" and w: "w < p" "wpc_of s w = Relabelling k"
  shows "odd (g_relabel_id (fst (rd s)))"
  using breach_inv [OF reach]
proof (elim disjE conjE exE)
  assume "lock_inv p s" then show ?thesis using w by (auto simp: lock_inv_def id_inv_def)
next
  fix t u assume c: "lock_inv p t" "wpc_of s u = Crashed" "\<forall>v. v \<noteq> u \<longrightarrow> wpc_of s v = wpc_of t v" "rd s = rd t"
  then have "w \<noteq> u" using w by auto
  then have "relabelling (wpc_of t w)" using c(3) w by (metis relabelling.simps(1))
  then show ?thesis using c(1,4) w by (auto simp: lock_inv_def id_inv_def)
qed

subsection \<open>Queries\<close>

text \<open>
  \<open>QUERY_START\<close> and \<open>QUERY_END\<close> (\<open>mem_access.h\<close>): the query is repeated until \<open>g_relabel_id\<close> was even
  before it and is the same after it.  The id is a \<open>size_t\<close> and can come round again after \<open>2 ^ 64\<close> steps of relabelling; a
  query that runs for fewer steps of the workers is not fooled.
\<close>

definition query_valid :: "u64 \<Rightarrow> u64 \<Rightarrow> bool" where
  "query_valid relabel_id g_relabel_id' \<longleftrightarrow> \<not> (odd relabel_id \<or> relabel_id \<noteq> g_relabel_id')"

lemma of_nat_eq_0_small: "of_nat n = (0 :: u64) \<Longrightarrow> n < 2 ^ 64 \<Longrightarrow> n = 0"
proof -
  assume z: "of_nat n = (0 :: u64)" and "n < 2 ^ 64"
  then have "take_bit 64 n = n" by (intro take_bit_nat_eq_self)
  then have "unat (of_nat n :: u64) = n" by (simp add: unsigned_of_nat)
  with z show "n = 0" by simp
qed

lemma wstep_id:
  "wstep p w s s' \<Longrightarrow> g_relabel_id (fst (rd s')) = g_relabel_id (fst (rd s)) \<or> g_relabel_id (fst (rd s')) = g_relabel_id (fst (rd s)) + 1"
  by (cases rule: wstep.cases, assumption)
    (auto simp: section_code_globals relabel_both_globals dest: section_code_globals relabel_both_globals)

lemma bsteps_id:
  "(bstep p ^^ n) s s' \<Longrightarrow> \<exists>k\<le>n. g_relabel_id (fst (rd s')) = g_relabel_id (fst (rd s)) + of_nat k"
proof (induction n arbitrary: s')
  case (Suc n)
  then obtain t where t: "(bstep p ^^ n) s t" "bstep p t s'" by (elim relpowp_Suc_E)
  obtain k where k: "k \<le> n" "g_relabel_id (fst (rd t)) = g_relabel_id (fst (rd s)) + of_nat k" using Suc.IH [OF t(1)] by blast
  obtain w where "wstep p w t s'" using t(2) by (cases rule: bstep.cases) blast
  from wstep_id [OF this] show ?case
  proof
    assume "g_relabel_id (fst (rd s')) = g_relabel_id (fst (rd t))"
    with k show ?thesis by (intro exI [of _ k]) simp
  next
    assume "g_relabel_id (fst (rd s')) = g_relabel_id (fst (rd t)) + 1"
    with k show ?thesis by (intro exI [of _ "Suc k"]) (simp add: add.commute add.left_commute)
  qed
qed simp

lemma query_undisturbed:
  assumes reach: "breach p r s0" "fst r = rd_globals_init" and path: "(bstep p ^^ m) s0 s" "(bstep p ^^ n) s s1" "m + n < 2 ^ 64"
    and ok: "query_valid (g_relabel_id (fst (rd s0))) (g_relabel_id (fst (rd s1)))" and w: "w < p"
  shows "\<not> relabelling (wpc_of s w)"
proof
  assume rel: "relabelling (wpc_of s w)"
  then obtain k where k: "wpc_of s w = Relabelling k" by (cases "wpc_of s w") auto
  obtain a where a: "a \<le> m" "g_relabel_id (fst (rd s)) = g_relabel_id (fst (rd s0)) + of_nat a" using bsteps_id [OF path(1)] by blast
  obtain b where b: "b \<le> n" "g_relabel_id (fst (rd s1)) = g_relabel_id (fst (rd s)) + of_nat b" using bsteps_id [OF path(2)] by blast
  have "g_relabel_id (fst (rd s1)) = g_relabel_id (fst (rd s0))" "even (g_relabel_id (fst (rd s0)))"
    using ok by (auto simp: query_valid_def)
  then have "of_nat (a + b) = (0 :: u64)" using a(2) b(2) by (simp add: add.assoc)
  moreover have "a + b < 2 ^ 64" using a(1) b(1) path(3) by linarith
  ultimately have "a + b = 0" using of_nat_eq_0_small by blast
  then have "even (g_relabel_id (fst (rd s)))" using a(2) \<open>even _\<close> by simp
  moreover have "breach p r s" using reach(1) relpowp_imp_rtranclp [OF path(1)] unfolding breach_def by (rule rtranclp_trans)
  then have "odd (g_relabel_id (fst (rd s)))" using breach_odd reach(2) w k by blast
  ultimately show False by contradiction
qed

subsection \<open>No deadlock\<close>

definition can_step :: "nat \<Rightarrow> nat \<Rightarrow> bstate \<Rightarrow> bool" where
  "can_step p w s \<longleftrightarrow> wpc_of s w \<noteq> Idle \<and> (\<exists>s'. wstep p w s s')"

text \<open>Everything but waiting for a lock or for the end of a batch can be done at once.\<close>

lemma free_step:
  assumes "wpc_of s w \<noteq> Idle" "\<not> stopped (wpc_of s w)"
    and "\<And>k i. wpc_of s w = Lock_All k i \<Longrightarrow> i < p \<Longrightarrow> mut s i = None"
    and "\<And>k. wpc_of s w = Wait k \<Longrightarrow> \<exists>i. batch_id s w = Some i \<and> \<not> (pending_id s \<le> i \<and> batch_lock s \<noteq> None)"
  shows "can_step p w s"
proof -
  note intros = wstep.intros
  have sec: "\<exists>s'. wstep p w s s'" if k: "wpc_of s w = Section k" for k
  proof -
    obtain e b where b: "base_of s w = (e, b)" by (cases "base_of s w")
    show ?thesis
    proof (cases "section_code k e b (rd s)")
      case None
      then show ?thesis using wstep.section_fails [OF k, of p] b by auto
    next
      case (Some x)
      then show ?thesis using wstep.section_full [OF k, of _ p] wstep.section_done [OF k b, of _ _ p] b
        by (cases x; cases "fst x") auto
    qed
  qed
  have "\<exists>s'. wstep p w s s'"
  proof (cases "wpc_of s w")
    case (Try_Lock k) then show ?thesis using wstep.try_lock [OF Try_Lock] wstep.try_lock_busy [OF Try_Lock] by blast
  next
    case (Batchify k) then show ?thesis
      using wstep.batchify_joins [OF Batchify] wstep.batchify_starts [OF Batchify _ surjective_pairing] by blast
  next
    case (Lock_All k i) then show ?thesis using wstep.lock_next [OF Lock_All] wstep.locked_all [OF Lock_All _ surjective_pairing] assms(3) by blast
  next
    case (Relabelling k) then show ?thesis
      using wstep.relabel_fails [OF Relabelling] wstep.relabel_end [OF Relabelling] by (cases "relabel_both (rd s)") blast+
  next
    case (Wait k) then show ?thesis using wstep.wait_over [OF Wait] assms(4) [OF Wait] unfolding batch_runs_def by blast
  next
    case (Joined k) then show ?thesis using wstep.joined_owner [OF Joined] wstep.joined [OF Joined] by blast
  next
    case (Unlock_All k i) then show ?thesis using wstep.unlock_next [OF Unlock_All] wstep.unlocked_all [OF Unlock_All] by blast
  qed (use assms(1,2) sec wstep.unlock wstep.slow_unlock wstep.relabel_begin wstep.terminate wstep.unlock_relabel in blast)+
  with assms(1) show ?thesis by (simp add: can_step_def)
qed

lemma locker_progress:
  assumes inv: "lock_inv p s" and ok: "\<forall>v<p. \<not> stopped (wpc_of s v)" and w: "w < p" "wpc_of s w = Lock_All k i"
  shows "\<exists>v<p. can_step p v s"
proof (cases "i < p \<and> mut s i \<noteq> None")
  case False
  then show ?thesis using free_step [of s w p] w ok by auto
next
  case True
  have i: "mut_inv p s" "boss_inv p s" using inv by (simp_all add: lock_inv_def)
  obtain v where v: "mut s i = Some v" "v < p" using True i(1) unfolding mut_inv_def by blast
  then have o: "owns (wpc_of s v) v (batch_owner s = Some v) i" using i(1) True unfolding mut_inv_def by blast
  have "relabel_mutex s = Some w" using i(2) w unfolding boss_inv_def by auto
  moreover have "relabel_mutex s = Some v \<longleftrightarrow> boss (wpc_of s v) (batch_owner s = Some v)" using i(2) v(2) unfolding boss_inv_def by blast
  ultimately have b: "\<not> boss (wpc_of s v) (batch_owner s = Some v)" if "v \<noteq> w" using that by auto
  have "v \<noteq> w" using o w by auto
  then have "(\<exists>k. wpc_of s v = Section k) \<or> wpc_of s v = Unlock \<or> wpc_of s v = Slow_Unlock"
    using o b by (cases "wpc_of s v") auto
  then have "can_step p v s" using ok v(2) by (intro free_step) auto
  then show ?thesis using v(2) by blast
qed

lemma no_deadlock:
  assumes inv: "lock_inv p s" and ok: "\<forall>v<p. \<not> stopped (wpc_of s v)" and w: "w < p" "wpc_of s w \<noteq> Idle"
  shows "\<exists>v<p. can_step p v s"
proof (cases "\<exists>k i. wpc_of s w = Lock_All k i")
  case True
  then show ?thesis using locker_progress [OF inv ok w(1)] by blast
next
  case lock: False
  show ?thesis
  proof (cases "\<exists>k. wpc_of s w = Wait k")
    case False
    then show ?thesis using free_step [OF w(2), of p] lock ok w(1) by blast
  next
    case True
    have "batch_id s w \<noteq> None" using inv True w(1) unfolding lock_inv_def flag_inv_def by blast
    then obtain i where i: "batch_id s w = Some i" by blast
    show ?thesis
    proof (cases "batch_lock s")
      case None
      have "can_step p w s" using None i lock ok w by (intro free_step) auto
      then show ?thesis using w(1) by blast
    next
      case (Some v)
      then have v: "v < p" "in_batch (wpc_of s v)" using inv unfolding lock_inv_def batch_inv_def by blast+
      show ?thesis
      proof (cases "\<exists>k i. wpc_of s v = Lock_All k i")
        case True
        then show ?thesis using locker_progress [OF inv ok v(1)] by blast
      next
        case False
        then have "can_step p v s" using v ok by (intro free_step) auto
        then show ?thesis using v(1) by blast
      qed
    qed
  qed
qed

lemma breach_progress:
  assumes "breach p r s" "fst r = rd_globals_init" "\<forall>v<p. wpc_of s v \<noteq> Crashed" "w < p" "wpc_of s w \<noteq> Idle"
  shows "\<exists>v<p. can_step p v s"
  using breach_inv [OF assms(1,2)] no_deadlock [of p s w] assms(3-5) by blast

subsection \<open>A run\<close>

text \<open>A structure with one node, behind which there is no room, and the run of one worker into the relabelling.\<close>

definition full_omrd :: omrd where
  "full_omrd =
     \<lparr>m_ds = \<lparr>om_root = Leaf 0 \<lparr>tl_label = 0, tl_level = MAX_LEVEL, tl_num_leaves = 1, tl_needs = False\<rparr> 1,
              om_head = 0, om_tail = 0, om_height = 0\<rparr>,
      m_heap = \<lparr>nodes = [2 \<mapsto> \<lparr>nd_label = MAX_LABEL, nd_next = None, nd_prev = None, nd_list = Some 1, nd_in_use = 42,
                            nd_active_insert = 0, nd_last_insert_id = -1\<rparr>],
                blists = [1 \<mapsto> \<lparr>bl_head = Some 2, bl_tail = Some 2, bl_above = Some 0, bl_heavy = 0\<rparr>],
                tls = {0}, brk = 3\<rparr>,
      m_base = Some 2, m_heavy_nodes = stk_new\<rparr>"

definition full_state :: rd_state where
  "full_state = (rd_globals_init, full_omrd, full_omrd)"

lemma full_section: "\<exists>r. section_code Fast True 2 full_state = Some (None, r)"
proof -
  have l: "new_label MAX_LABEL None = 0" by (simp add: new_label_def MAX_LABEL_def mean_label_def mask_eq_exp_minus_1)
  let ?h = "m_heap full_omrd"
  have rep: "blist_rep ?h 1 ([] @ 2 # [])"
    by (simp add: full_omrd_def blist_rep_def labels_inc_def last_opt_def node_idle_def)
  have "\<not> has_room ?h 2 []" using l by (simp add: has_room_def full_omrd_def label_of_def nxt_label_def)
  then have ins: "bl_insert 1 2 ?h = Some (None, ?h)" using bl_insert_full [OF rep] by blast
  have t: "try_insert rd_globals_init (Some 2) full_omrd = Some (None, full_omrd)"
    using ins by (simp add: try_insert_def full_omrd_def rd_globals_init_def om_insert_def above_of_def leaf_below_def)
  obtain s where s: "astk_add (0 :: nat) stk_new = Some s" using astk_add_rep [OF stk_rep_new, of "0 :: nat"] by auto
  have m: "\<exists>d. mark_base rd_globals_init 2 full_omrd = Some d"
    by (simp add: mark_base_def full_omrd_def rd_globals_init_def list_heavy_def cas_heavy_def add_heavy_def om_get_tl_def
        above_of_def upd_blist_def s)
  from t m show ?thesis by (auto simp: section_code_def full_state_def ds_of_def set_ds_def)
qed

lemma run_to_begin:
  "\<exists>s. (bstep 1 ^^ 7) (binit full_state) s \<and> wpc_of s 0 = Relabel_Begin Slow \<and> fst (rd s) = rd_globals_init\<lparr>g_batch_in_progress := 1\<rparr>"
proof -
  obtain r where r: "section_code Fast True 2 full_state = Some (None, r)" using full_section by blast
  have g: "fst r = rd_globals_init" using section_code_globals [OF r] by (simp add: full_state_def)
  have one: "(bstep 1 ^^ Suc n) u t" if "(bstep 1 ^^ n) u s" "wstep 1 0 s t" "\<not> stopped (wpc_of s 0)" for n u s t
    using that by (auto intro: relpowp_Suc_I bstep.intros)
  let ?s0 = "binit full_state"
  let ?s1 = "goto 0 (Try_Lock Fast) (?s0\<lparr>base_of := (base_of ?s0)(0 := (True, 2))\<rparr>)"
  let ?s2 = "goto 0 (Section Fast) (?s1\<lparr>mut := (mut ?s1)(0 := Some 0)\<rparr>)"
  let ?s3 = "goto 0 Slow_Unlock (set_batch_id 0 (?s2\<lparr>rd := r, insert_failed := (insert_failed ?s2)(0 := True)\<rparr>))"
  let ?s4 = "goto 0 (Batchify Slow) (?s3\<lparr>mut := (mut ?s3)(0 := None)\<rparr>)"
  let ?s5 = "goto 0 (Lock_All Slow 0) (snd (set_next_batch_owner 0 (enter_batch 0 (?s4\<lparr>relabel_mutex := Some 0\<rparr>))))"
  let ?s6 = "goto 0 (Lock_All Slow (Suc 0)) (?s5\<lparr>mut := (mut ?s5)(0 := Some 0)\<rparr>)"
  let ?s7 = "goto 0 (Relabel_Begin Slow) (snd (own_batch 0 ?s6))"
  have 0: "(bstep 1 ^^ 0) ?s0 ?s0" by simp
  have 1: "(bstep 1 ^^ Suc 0) ?s0 ?s1"
    by (rule one [OF 0], rule wstep.begin_insert) (simp_all add: binit_def full_state_def full_omrd_def ds_of_def)
  have 2: "(bstep 1 ^^ Suc (Suc 0)) ?s0 ?s2" by (rule one [OF 1], rule wstep.try_lock) (simp_all add: binit_def)
  have 3: "(bstep 1 ^^ Suc (Suc (Suc 0))) ?s0 ?s3"
    by (rule one [OF 2]) (use wstep.section_full [of ?s2 0 Fast r 1] r in \<open>simp_all add: binit_def\<close>)
  have 4: "(bstep 1 ^^ Suc (Suc (Suc (Suc 0)))) ?s0 ?s4" by (rule one [OF 3], rule wstep.slow_unlock) simp_all
  have 5: "(bstep 1 ^^ Suc (Suc (Suc (Suc (Suc 0))))) ?s0 ?s5"
    by (rule one [OF 4]) (use wstep.batchify_starts [of ?s4 0 Slow True _ 1] in \<open>simp_all add: binit_def g rd_globals_init_def\<close>)
  have 6: "(bstep 1 ^^ Suc (Suc (Suc (Suc (Suc (Suc 0)))))) ?s0 ?s6" by (rule one [OF 5], rule wstep.lock_next) (simp_all add: binit_def)
  have "(bstep 1 ^^ Suc (Suc (Suc (Suc (Suc (Suc (Suc 0))))))) ?s0 ?s7"
    by (rule one [OF 6]) (use wstep.locked_all [of ?s6 0 Slow 1 1 True] in \<open>simp_all add: binit_def\<close>)
  moreover have "Suc (Suc (Suc (Suc (Suc (Suc (Suc 0)))))) = 7" by simp
  ultimately have "(bstep 1 ^^ 7) ?s0 ?s7" by (simp only: )
  then show ?thesis using g by (intro exI [of _ ?s7]) simp
qed

lemma run_to_relabelling: "\<exists>s. breach 1 full_state s \<and> wpc_of s 0 = Relabelling Slow"
proof -
  obtain s where s: "(bstep 1 ^^ 7) (binit full_state) s" "wpc_of s 0 = Relabel_Begin Slow" using run_to_begin by blast
  have "bstep 1 s (goto 0 (Relabelling Slow) (next_relabel_id s))"
    using s(2) by (auto intro: bstep.intros wstep.relabel_begin)
  then have "breach 1 full_state (goto 0 (Relabelling Slow) (next_relabel_id s))"
    using relpowp_imp_rtranclp [OF s(1)] unfolding breach_def by (rule rtranclp.rtrancl_into_rtrancl [rotated])
  then show ?thesis by (intro exI [of _ "goto 0 (Relabelling Slow) (next_relabel_id s)"]) simp
qed

end
