(* ===== verification/Frame_Malloc.thy ===== *)
theory Frame_Malloc
  imports Prelude "HOL-Library.Multiset"
begin

text \<open>
  The frame allocator (\<open>batched-piper/runtime/frame_malloc.c\<close>): six size classes, a free list per worker
  and class, a global pool that carves blocks out of chunks from \<open>malloc\<close>.

  Addresses are numbers of bytes; \<open>malloc\<close> returns memory above \<open>os_brk\<close>, the bound of all memory
  handed out before.  A free list is threaded through its blocks, so it is the list of their
  addresses.  The lock of the global pool is held around each use of it, so each use is one step.
  Sizes are unbounded but for \<open>allocated_from_global_pool\<close>, which is also decremented, and wraps.
\<close>

subsection \<open>Data\<close>

definition FRAME_MALLOC_NBUCKETS :: nat where "FRAME_MALLOC_NBUCKETS = 6"
definition FRAME_MALLOC_MAX_SIZE :: nat where "FRAME_MALLOC_MAX_SIZE = 2048"
definition FRAME_MALLOC_CHUNK :: nat where "FRAME_MALLOC_CHUNK = 32 * 1024 - 128"

definition bucket_sizes :: "nat list" where
  "bucket_sizes = [64, 128, 256, 512, 1024, 2048]"

definition bucket_to_size :: "nat \<Rightarrow> nat" where
  "bucket_to_size bucket = bucket_sizes ! bucket"

text \<open>The allocator's part of a worker's local state.\<close>

record wcache =
  free_lists :: "nat \<Rightarrow> nat list"
  bucket_potential :: "nat \<Rightarrow> nat"

record frame_cache =
  pool_list :: "nat list"
  pool_begin :: nat
  pool_end :: nat
  global_free_list :: "nat \<Rightarrow> nat list"
  batch_size :: nat
  potential_limit :: nat
  check_for_leaks :: bool
  allocated_from_os :: nat
  wasted :: nat
  allocated_from_global_pool :: u64
  caches :: "nat \<Rightarrow> wcache"
  os_brk :: nat

definition os_malloc :: "nat \<Rightarrow> frame_cache \<Rightarrow> nat \<times> frame_cache" where
  "os_malloc size' g = (os_brk g, g\<lparr>os_brk := os_brk g + size'\<rparr>)"

subsection \<open>Free lists\<close>

definition push :: "nat list \<Rightarrow> nat \<Rightarrow> nat list" where
  "push b p = p # b"

definition pop :: "nat list \<Rightarrow> (nat \<times> nat list) option" where
  "pop b = (case b of [] \<Rightarrow> None | p # cdr \<Rightarrow> Some (p, cdr))"

subsection \<open>The global pool\<close>

definition extend_global_pool :: "frame_cache \<Rightarrow> frame_cache" where
  "extend_global_pool g =
     (let (p, g) = os_malloc FRAME_MALLOC_CHUNK g
      in g\<lparr>pool_begin := p, pool_end := p + FRAME_MALLOC_CHUNK,
           allocated_from_os := allocated_from_os g + FRAME_MALLOC_CHUNK, pool_list := p # pool_list g\<rparr>)"

definition global_alloc :: "frame_cache \<Rightarrow> nat \<Rightarrow> (nat \<times> frame_cache) option" where
  "global_alloc g bucket =
     do { check (bucket < FRAME_MALLOC_NBUCKETS);
          let sz = bucket_to_size bucket;
          let g = g\<lparr>allocated_from_global_pool := allocated_from_global_pool g + of_nat sz\<rparr>;
          (case pop (global_free_list g bucket) of
             Some (mem, cdr) \<Rightarrow>
               Some (mem, g\<lparr>global_free_list := (global_free_list g)(bucket := cdr)\<rparr>)
           | None \<Rightarrow>
               do { check (pool_begin g \<le> pool_end g);
                    let g = (if pool_begin g + sz > pool_end g
                             then extend_global_pool (g\<lparr>wasted := wasted g + (pool_end g - pool_begin g)\<rparr>)
                             else g);
                    Some (pool_begin g, g\<lparr>pool_begin := pool_begin g + sz\<rparr>) }) }"

definition global_free :: "frame_cache \<Rightarrow> nat \<Rightarrow> nat \<Rightarrow> frame_cache option" where
  "global_free g mem bucket =
     do { check (bucket < FRAME_MALLOC_NBUCKETS);
          let sz = bucket_to_size bucket;
          let g = g\<lparr>allocated_from_global_pool := allocated_from_global_pool g - of_nat sz\<rparr>;
          Some (g\<lparr>global_free_list := (global_free_list g)(bucket := push (global_free_list g bucket) mem)\<rparr>) }"

fun global_free_all :: "frame_cache \<Rightarrow> nat list \<Rightarrow> nat \<Rightarrow> frame_cache option" where
  "global_free_all g [] bucket = Some g"
| "global_free_all g (q # p) bucket = do { g \<leftarrow> global_free g q bucket; global_free_all g p bucket }"

definition frame_malloc_global_init :: "frame_cache \<Rightarrow> frame_cache" where
  "frame_malloc_global_init g =
     g\<lparr>check_for_leaks := True, pool_list := [], pool_begin := 0, pool_end := 0, batch_size := 8000,
       potential_limit := 4 * 8000, allocated_from_os := 0, allocated_from_global_pool := 0, wasted := 0,
       global_free_list := (\<lambda>i. if i < FRAME_MALLOC_NBUCKETS then [] else global_free_list g i)\<rparr>"

definition count_memory_in_global_list :: "frame_cache \<Rightarrow> nat" where
  "count_memory_in_global_list g =
     (\<Sum>i\<leftarrow>[0..<FRAME_MALLOC_NBUCKETS]. length (global_free_list g i) * bucket_to_size i)"

text \<open>The chunks go back to the system; the two calls of \<open>__cilkrts_bug\<close> stop the process.\<close>

definition frame_malloc_global_cleanup :: "frame_cache \<Rightarrow> frame_cache option" where
  "frame_malloc_global_cleanup g =
     do { check (\<not> (check_for_leaks g \<and> count_memory_in_global_list g > allocated_from_os g));
          let g = g\<lparr>pool_list := []\<rparr>;
          check (\<not> (check_for_leaks g \<and> allocated_from_global_pool g \<noteq> 0));
          Some g }"

subsection \<open>The caches of the workers\<close>

definition upd_cache :: "nat \<Rightarrow> (wcache \<Rightarrow> wcache) \<Rightarrow> frame_cache \<Rightarrow> frame_cache" where
  "upd_cache w f g = g\<lparr>caches := (caches g)(w := f (caches g w))\<rparr>"

definition set_list :: "nat \<Rightarrow> nat list \<Rightarrow> wcache \<Rightarrow> wcache" where
  "set_list bucket xs l = l\<lparr>free_lists := (free_lists l)(bucket := xs)\<rparr>"

definition add_potential :: "nat \<Rightarrow> nat \<Rightarrow> wcache \<Rightarrow> wcache" where
  "add_potential bucket sz l =
     l\<lparr>bucket_potential := (bucket_potential l)(bucket := bucket_potential l bucket + sz)\<rparr>"

definition set_potential :: "nat \<Rightarrow> nat \<Rightarrow> wcache \<Rightarrow> wcache" where
  "set_potential bucket pot l = l\<lparr>bucket_potential := (bucket_potential l)(bucket := pot)\<rparr>"

text \<open>The \<open>do\<close>-\<open>while\<close> loop; \<open>bytes\<close> is \<open>bytes_allocated\<close> before the iteration.\<close>

partial_function (option) allocate_loop ::
  "nat \<Rightarrow> nat \<Rightarrow> nat \<Rightarrow> nat \<Rightarrow> frame_cache \<Rightarrow> frame_cache option" where
  "allocate_loop w bucket sz bytes g =
     do { let g = upd_cache w (add_potential bucket sz) g;
          let bytes = bytes + sz;
          (mem, g) \<leftarrow> global_alloc g bucket;
          let g = upd_cache w (\<lambda>l. set_list bucket (push (free_lists l bucket) mem) l) g;
          if bytes < batch_size g then allocate_loop w bucket sz bytes g else Some g }"

definition allocate_batch :: "nat \<Rightarrow> nat \<Rightarrow> nat \<Rightarrow> frame_cache \<Rightarrow> frame_cache option" where
  "allocate_batch w bucket sz g = allocate_loop w bucket sz 0 g"

text \<open>The counting loop of \<open>gc_bucket\<close>: how many blocks it passes.\<close>

fun gc_count :: "nat list \<Rightarrow> nat \<Rightarrow> nat \<Rightarrow> nat \<Rightarrow> nat" where
  "gc_count [] newpot pot sz = 0"
| "gc_count (p # cdr) newpot pot sz =
     (if 2 * newpot < pot then Suc (gc_count cdr (newpot + sz) pot sz) else 0)"

text \<open>The block \<open>p\<close> where the loop stops stays in the list; the blocks after it go to the pool.\<close>

definition gc_bucket :: "nat \<Rightarrow> nat \<Rightarrow> nat \<Rightarrow> frame_cache \<Rightarrow> frame_cache option" where
  "gc_bucket w bucket sz g =
     do { let xs = free_lists (caches g w) bucket;
          let n = gc_count xs 0 (bucket_potential (caches g w) bucket) sz;
          let g = upd_cache w (set_potential bucket (n * sz)) g;
          if n < length xs
          then do { let g = upd_cache w (set_list bucket (take (Suc n) xs)) g;
                    global_free_all g (drop (Suc n) xs) bucket }
          else Some g }"

text \<open>The field \<open>free_list[bucket]\<close> keeps its old value: only the local variable is popped.\<close>

definition move_bucket_to_global_free_list :: "nat \<Rightarrow> nat \<Rightarrow> frame_cache \<Rightarrow> frame_cache option" where
  "move_bucket_to_global_free_list w bucket g =
     do { g \<leftarrow> global_free_all g (free_lists (caches g w) bucket) bucket;
          Some (upd_cache w (set_potential bucket 0) g) }"

fun bucket_search :: "nat \<Rightarrow> nat \<Rightarrow> nat option" where
  "bucket_search 0 sz = None"
| "bucket_search (Suc n) sz =
     (let i = FRAME_MALLOC_NBUCKETS - Suc n
      in if sz \<le> bucket_to_size i then Some i else bucket_search n sz)"

definition bucket_of_size :: "nat \<Rightarrow> nat option" where
  "bucket_of_size sz = bucket_search FRAME_MALLOC_NBUCKETS sz"

definition frame_malloc_roundup :: "nat \<Rightarrow> nat option" where
  "frame_malloc_roundup sz =
     (if sz > FRAME_MALLOC_MAX_SIZE then Some sz
      else do { bucket \<leftarrow> bucket_of_size sz; Some (bucket_to_size bucket) })"

definition size_of_bucket :: "nat \<Rightarrow> nat option" where
  "size_of_bucket bucket = do { check (bucket < FRAME_MALLOC_NBUCKETS); Some (bucket_to_size bucket) }"

text \<open>The loop of \<open>__cilkrts_frame_malloc\<close>.\<close>

partial_function (option) malloc_loop :: "nat \<Rightarrow> nat \<Rightarrow> nat \<Rightarrow> frame_cache \<Rightarrow> (nat \<times> frame_cache) option" where
  "malloc_loop w bucket sz g =
     (case pop (free_lists (caches g w) bucket) of
        Some (mem, cdr) \<Rightarrow> Some (mem, upd_cache w (set_list bucket cdr) g)
      | None \<Rightarrow> do { g \<leftarrow> allocate_batch w bucket sz g; malloc_loop w bucket sz g })"

definition frame_malloc :: "nat option \<Rightarrow> nat \<Rightarrow> frame_cache \<Rightarrow> (nat \<times> frame_cache) option" where
  "frame_malloc w sz g =
     (case w of
        None \<Rightarrow> Some (os_malloc sz g)
      | Some w \<Rightarrow>
          if sz > FRAME_MALLOC_MAX_SIZE then Some (os_malloc sz g)
          else do { bucket \<leftarrow> bucket_of_size sz;
                    malloc_loop w bucket (bucket_to_size bucket) g })"

definition frame_free :: "nat option \<Rightarrow> nat \<Rightarrow> nat \<Rightarrow> frame_cache \<Rightarrow> frame_cache option" where
  "frame_free w p sz g =
     (case w of
        None \<Rightarrow> Some g
      | Some w \<Rightarrow>
          if sz > FRAME_MALLOC_MAX_SIZE then Some g
          else do { bucket \<leftarrow> bucket_of_size sz;
                    let sz = bucket_to_size bucket;
                    let g = upd_cache w (add_potential bucket sz) g;
                    let g = upd_cache w (\<lambda>l. set_list bucket (push (free_lists l bucket) p) l) g;
                    if bucket_potential (caches g w) bucket > potential_limit g
                    then gc_bucket w bucket sz g
                    else Some g })"

definition frame_malloc_per_worker_init :: "nat \<Rightarrow> frame_cache \<Rightarrow> frame_cache" where
  "frame_malloc_per_worker_init w g =
     upd_cache w (\<lambda>l. \<lparr>free_lists = (\<lambda>i. if i < FRAME_MALLOC_NBUCKETS then [] else free_lists l i),
                       bucket_potential = (\<lambda>i. if i < FRAME_MALLOC_NBUCKETS then 0 else bucket_potential l i)\<rparr>) g"

fun cleanup_buckets :: "nat \<Rightarrow> nat list \<Rightarrow> frame_cache \<Rightarrow> frame_cache option" where
  "cleanup_buckets w [] g = Some g"
| "cleanup_buckets w (i # is) g = do { g \<leftarrow> move_bucket_to_global_free_list w i g; cleanup_buckets w is g }"

definition frame_malloc_per_worker_cleanup :: "nat \<Rightarrow> frame_cache \<Rightarrow> frame_cache option" where
  "frame_malloc_per_worker_cleanup w g = cleanup_buckets w [0..<FRAME_MALLOC_NBUCKETS] g"


subsection \<open>Ownership of memory\<close>

text \<open>
  A block is an address with a size class.  \<open>cover M x\<close> counts the blocks of \<open>M\<close> that contain the byte \<open>x\<close>;
  no byte may be in two blocks, be they free or in use.
\<close>

type_synonym block = "nat \<times> nat"

definition region :: "block \<Rightarrow> nat set" where
  "region p = {fst p..<fst p + bucket_to_size (snd p)}"

definition cover :: "block multiset \<Rightarrow> nat \<Rightarrow> nat" where
  "cover M x = size {#p \<in># M. x \<in> region p#}"

definition total_bytes :: "block multiset \<Rightarrow> nat" where
  "total_bytes M = (\<Sum>p\<in>#M. bucket_to_size (snd p))"

lemma cover_simps [simp]:
  "cover {#} x = 0" "cover (add_mset p M) x = cover M x + (if x \<in> region p then 1 else 0)"
  "cover (M + N) x = cover M x + cover N x"
  by (simp_all add: cover_def)

lemma total_bytes_simps [simp]:
  "total_bytes {#} = 0" "total_bytes (add_mset p M) = bucket_to_size (snd p) + total_bytes M" "total_bytes (M + N) = total_bytes M + total_bytes N"
  by (simp_all add: total_bytes_def)

definition blocks_of :: "nat \<Rightarrow> nat list \<Rightarrow> block multiset" where
  "blocks_of b xs = mset (List.map (\<lambda>a. (a, b)) xs)"

lemma blocks_of_simps [simp]:
  "blocks_of b [] = {#}" "blocks_of b (x # xs) = add_mset (x, b) (blocks_of b xs)"
  "blocks_of b (xs @ ys) = blocks_of b xs + blocks_of b ys"
  by (simp_all add: blocks_of_def)

text \<open>The blocks of a family of free lists.\<close>

definition all_blocks :: "(nat \<Rightarrow> nat list) \<Rightarrow> block multiset" where
  "all_blocks fl = (\<Sum>b<FRAME_MALLOC_NBUCKETS. blocks_of b (fl b))"

lemma all_blocks_upd:
  assumes "b < FRAME_MALLOC_NBUCKETS"
  shows "all_blocks (fl(b := xs)) + blocks_of b (fl b) = all_blocks fl + blocks_of b xs"
proof -
  have "all_blocks f = blocks_of b (f b) + (\<Sum>i\<in>{..<FRAME_MALLOC_NBUCKETS} - {b}. blocks_of i (f i))" for f
    unfolding all_blocks_def using assms by (intro sum.remove) auto
  from this [of fl] this [of "fl(b := xs)"] show ?thesis by simp
qed

definition held :: "frame_cache \<Rightarrow> nat set \<Rightarrow> block multiset" where
  "held g W = (\<Sum>w\<in>W. all_blocks (free_lists (caches g w)))"

lemma held_upd:
  assumes "finite W" "w \<in> W"
  shows "held (upd_cache w f g) W + all_blocks (free_lists (caches g w)) =
         held g W + all_blocks (free_lists (f (caches g w)))"
proof -
  have "held g' W = all_blocks (free_lists (caches g' w)) + (\<Sum>i\<in>W - {w}. all_blocks (free_lists (caches g' i)))" for g'
    unfolding held_def using assms by (intro sum.remove)
  from this [of g] this [of "upd_cache w f g"] show ?thesis by (simp add: upd_cache_def)
qed

text \<open>No byte in two blocks, none in the unused part of the pool or beyond the memory of the process.\<close>

definition placed :: "block multiset \<Rightarrow> nat \<Rightarrow> nat \<Rightarrow> nat \<Rightarrow> bool" where
  "placed T lo hi lim \<longleftrightarrow>
     (\<forall>x. cover T x \<le> 1) \<and> (\<forall>x. lo \<le> x \<and> x < hi \<or> lim \<le> x \<longrightarrow> cover T x = 0) \<and> lo \<le> hi \<and> hi \<le> lim"

definition ginv :: "frame_cache \<Rightarrow> block multiset \<Rightarrow> bool" where
  "ginv g M \<longleftrightarrow>
     placed (all_blocks (global_free_list g) + M) (pool_begin g) (pool_end g) (os_brk g) \<and>
     total_bytes (all_blocks (global_free_list g) + M) + (pool_end g - pool_begin g) \<le> allocated_from_os g \<and>
     allocated_from_global_pool g = of_nat (total_bytes M)"

text \<open>\<open>W\<close>: the workers; \<open>live\<close>: the blocks in use.\<close>

definition fm_inv :: "frame_cache \<Rightarrow> nat set \<Rightarrow> block multiset \<Rightarrow> bool" where
  "fm_inv g W live \<longleftrightarrow> ginv g (held g W + live)"

text \<open>A step of the pool: it leaves the caches and the limits alone.\<close>

definition pool_step :: "frame_cache \<Rightarrow> frame_cache \<Rightarrow> bool" where
  "pool_step g g' \<longleftrightarrow> caches g' = caches g \<and> batch_size g' = batch_size g \<and> potential_limit g' = potential_limit g \<and>
     check_for_leaks g' = check_for_leaks g"

lemma pool_step_trans: "pool_step g g' \<Longrightarrow> pool_step g' g'' \<Longrightarrow> pool_step g g''"
  by (simp add: pool_step_def)

lemma bucket_less: "b < FRAME_MALLOC_NBUCKETS \<longleftrightarrow> b = 0 \<or> b = 1 \<or> b = 2 \<or> b = 3 \<or> b = 4 \<or> b = 5"
  by (auto simp: FRAME_MALLOC_NBUCKETS_def)

lemma bucket_size_bounds:
  assumes "b < FRAME_MALLOC_NBUCKETS"
  shows "64 \<le> bucket_to_size b \<and> bucket_to_size b \<le> 2048"
  using assms unfolding bucket_less by (elim disjE) (simp_all add: bucket_to_size_def bucket_sizes_def)

lemma global_alloc_ok:
  assumes inv: "ginv g M" and b: "b < FRAME_MALLOC_NBUCKETS"
  shows "\<exists>mem g'. global_alloc g b = Some (mem, g') \<and> ginv g' (add_mset (mem, b) M) \<and> pool_step g g'"
proof (cases "global_free_list g b")
  case (Cons p ps)
  let ?g = "g\<lparr>allocated_from_global_pool := allocated_from_global_pool g + of_nat (bucket_to_size b),
              global_free_list := (global_free_list g)(b := ps)\<rparr>"
  have "all_blocks ((global_free_list g)(b := ps)) + add_mset (p, b) (blocks_of b ps) =
      all_blocks (global_free_list g) + blocks_of b ps"
    using all_blocks_upd [OF b, of "global_free_list g" ps] Cons by simp
  then have eq: "all_blocks ((global_free_list g)(b := ps)) + add_mset (p, b) M = all_blocks (global_free_list g) + M"
    by (metis add_right_cancel union_mset_add_mset_left union_mset_add_mset_right)
  then have "ginv ?g (add_mset (p, b) M)"
    using inv unfolding ginv_def by (simp add: eq del: union_mset_add_mset_right)
  moreover have "global_alloc g b = Some (p, ?g)"
    using Cons b by (simp add: global_alloc_def pop_def)
  ultimately show ?thesis by (auto simp: pool_step_def)
next
  case Nil
  let ?sz = "bucket_to_size b"
  have sz: "?sz \<le> FRAME_MALLOC_CHUNK" using bucket_size_bounds [OF b] by (simp add: FRAME_MALLOC_CHUNK_def)
  let ?T = "all_blocks (global_free_list g) + M"
  have place: "placed ?T (pool_begin g) (pool_end g) (os_brk g)"
    and os: "total_bytes ?T + (pool_end g - pool_begin g) \<le> allocated_from_os g"
    and ctr: "allocated_from_global_pool g = of_nat (total_bytes M)"
    using inv by (simp_all add: ginv_def)
  then have T: "\<And>x. cover ?T x \<le> 1" "\<And>x. pool_begin g \<le> x \<and> x < pool_end g \<or> os_brk g \<le> x \<Longrightarrow> cover ?T x = 0"
    and pool: "pool_begin g \<le> pool_end g" "pool_end g \<le> os_brk g"
    unfolding placed_def by blast+
  show ?thesis
  proof (cases "pool_begin g + ?sz > pool_end g")
    case False
    let ?g = "g\<lparr>allocated_from_global_pool := allocated_from_global_pool g + of_nat ?sz, pool_begin := pool_begin g + ?sz\<rparr>"
    have "global_alloc g b = Some (pool_begin g, ?g)"
      using Nil b False pool by (simp add: global_alloc_def pop_def Let_def)
    moreover have "cover (add_mset (pool_begin g, b) ?T) x \<le> 1" for x
      using T(1) [of x] T(2) [of x] False by (auto simp: region_def)
    moreover have "cover (add_mset (pool_begin g, b) ?T) x = 0" if "pool_begin g + ?sz \<le> x \<and> x < pool_end g \<or> os_brk g \<le> x" for x
      using T(2) [of x] False pool that by (auto simp: region_def)
    ultimately show ?thesis
      using pool False ctr os by (auto simp: ginv_def placed_def pool_step_def)
  next
    case True
    let ?g = "g\<lparr>allocated_from_global_pool := allocated_from_global_pool g + of_nat ?sz,
                wasted := wasted g + (pool_end g - pool_begin g), os_brk := os_brk g + FRAME_MALLOC_CHUNK,
                pool_begin := os_brk g + ?sz, pool_end := os_brk g + FRAME_MALLOC_CHUNK,
                allocated_from_os := allocated_from_os g + FRAME_MALLOC_CHUNK, pool_list := os_brk g # pool_list g\<rparr>"
    have "global_alloc g b = Some (os_brk g, ?g)"
      using Nil b True pool by (simp add: global_alloc_def pop_def extend_global_pool_def os_malloc_def Let_def)
    moreover have "cover (add_mset (os_brk g, b) ?T) x \<le> 1" for x
      using T(1) [of x] T(2) [of x] by (auto simp: region_def)
    moreover have "cover (add_mset (os_brk g, b) ?T) x = 0"
      if "os_brk g + ?sz \<le> x \<and> x < os_brk g + FRAME_MALLOC_CHUNK \<or> os_brk g + FRAME_MALLOC_CHUNK \<le> x" for x
      using T(2) [of x] sz that by (auto simp: region_def)
    ultimately show ?thesis
      using sz ctr os by (auto simp: ginv_def placed_def pool_step_def)
  qed
qed

lemma global_free_ok:
  assumes inv: "ginv g (add_mset (mem, b) M)" and b: "b < FRAME_MALLOC_NBUCKETS"
  shows "\<exists>g'. global_free g mem b = Some g' \<and> ginv g' M \<and> pool_step g g'"
proof -
  let ?fl = "(global_free_list g)(b := mem # global_free_list g b)"
  have "all_blocks ?fl + blocks_of b (global_free_list g b) =
      add_mset (mem, b) (all_blocks (global_free_list g)) + blocks_of b (global_free_list g b)"
    using all_blocks_upd [OF b, of "global_free_list g" "mem # global_free_list g b"] by simp
  then have fl: "all_blocks ?fl = add_mset (mem, b) (all_blocks (global_free_list g))" by simp
  have eq: "all_blocks ?fl + M = all_blocks (global_free_list g) + add_mset (mem, b) M" by (simp add: fl)
  show ?thesis
    using inv b unfolding ginv_def
    by (simp add: global_free_def pool_step_def push_def eq del: union_mset_add_mset_right) (simp add: fl)
qed

lemma global_free_all_ok:
  "ginv g (blocks_of b xs + M) \<Longrightarrow> b < FRAME_MALLOC_NBUCKETS \<Longrightarrow>
     \<exists>g'. global_free_all g xs b = Some g' \<and> ginv g' M \<and> pool_step g g'"
proof (induction xs arbitrary: g)
  case Nil
  then show ?case by (simp add: pool_step_def)
next
  case (Cons x xs)
  then obtain g1 where g1: "global_free g x b = Some g1" "ginv g1 (blocks_of b xs + M)" "pool_step g g1"
    using global_free_ok [of g x b "blocks_of b xs + M"] by auto
  from Cons.IH [OF g1(2) Cons.prems(2)] g1 show ?case by (auto intro: pool_step_trans)
qed


subsection \<open>The workers' caches\<close>

lemma caches_upd [simp]: "caches (upd_cache w f g) = (caches g)(w := f (caches g w))"
  by (simp add: upd_cache_def)

lemma ginv_upd_cache [simp]: "ginv (upd_cache w f g) M = ginv g M"
  by (simp add: ginv_def upd_cache_def)

lemma limits_upd_cache [simp]:
  "batch_size (upd_cache w f g) = batch_size g" "potential_limit (upd_cache w f g) = potential_limit g"
  "check_for_leaks (upd_cache w f g) = check_for_leaks g"
  by (simp_all add: upd_cache_def)

lemma held_caches: "caches g' = caches g \<Longrightarrow> held g' W = held g W"
  by (simp add: held_def)

lemma held_same_lists:
  "free_lists (f (caches g w)) = free_lists (caches g w) \<Longrightarrow> held (upd_cache w f g) W = held g W"
  unfolding held_def by (intro sum.cong) auto

lemma free_lists_simps [simp]:
  "free_lists (add_potential b n l) = free_lists l" "free_lists (set_potential b n l) = free_lists l"
  "free_lists (set_list b xs l) = (free_lists l)(b := xs)"
  by (simp_all add: add_potential_def set_potential_def set_list_def)

lemma held_set_list:
  assumes "finite W" "w \<in> W" "b < FRAME_MALLOC_NBUCKETS" "\<And>l. free_lists (f l) = (free_lists l)(b := xs)"
  shows "held (upd_cache w f g) W + blocks_of b (free_lists (caches g w) b) = held g W + blocks_of b xs"
proof -
  have "held (upd_cache w f g) W + all_blocks (free_lists (caches g w)) =
      held g W + all_blocks ((free_lists (caches g w))(b := xs))"
    using held_upd [OF assms(1,2), of f g] assms(4) by simp
  then have "(held (upd_cache w f g) W + blocks_of b (free_lists (caches g w) b)) + all_blocks (free_lists (caches g w)) =
      held g W + (all_blocks ((free_lists (caches g w))(b := xs)) + blocks_of b (free_lists (caches g w) b))"
    by (simp add: ac_simps)
  also have "\<dots> = held g W + (all_blocks (free_lists (caches g w)) + blocks_of b xs)"
    by (simp only: all_blocks_upd [OF assms(3)])
  also have "\<dots> = (held g W + blocks_of b xs) + all_blocks (free_lists (caches g w))"
    by (simp only: ac_simps)
  finally show ?thesis by simp
qed

text \<open>What a step of worker \<open>w\<close> promises about everything else.\<close>

definition worker_step :: "nat \<Rightarrow> frame_cache \<Rightarrow> frame_cache \<Rightarrow> bool" where
  "worker_step w g g' \<longleftrightarrow> (\<forall>v. v \<noteq> w \<longrightarrow> caches g' v = caches g v) \<and> batch_size g' = batch_size g \<and>
     potential_limit g' = potential_limit g \<and> check_for_leaks g' = check_for_leaks g"

lemma allocate_loop_ok:
  assumes W: "finite W" "w \<in> W" and b: "b < FRAME_MALLOC_NBUCKETS"
  shows "fm_inv g W live \<Longrightarrow>
    \<exists>g'. allocate_loop w b (bucket_to_size b) bytes g = Some g' \<and> fm_inv g' W live \<and> worker_step w g g' \<and>
      free_lists (caches g' w) b \<noteq> []"
proof (induction "batch_size g - bytes" arbitrary: g bytes rule: less_induct)
  case less
  let ?sz = "bucket_to_size b"
  let ?g1 = "upd_cache w (add_potential b ?sz) g"
  have "ginv ?g1 (held g W + live)" using less.prems by (simp add: fm_inv_def)
  then obtain mem g2 where g2: "global_alloc ?g1 b = Some (mem, g2)" "ginv g2 (add_mset (mem, b) (held g W + live))"
    "pool_step ?g1 g2" using global_alloc_ok [OF _ b] by blast
  let ?g3 = "upd_cache w (\<lambda>l. set_list b (push (free_lists l b) mem) l) g2"
  have c2: "caches g2 = caches ?g1" using g2(3) by (simp add: pool_step_def)
  have h2: "held g2 W = held g W"
    using held_caches [OF c2] held_same_lists [of "add_potential b ?sz" g w W] by simp
  have "held ?g3 W = add_mset (mem, b) (held g W)"
  proof -
    let ?xs = "free_lists (caches g2 w) b"
    have "?g3 = upd_cache w (set_list b (mem # ?xs)) g2"
      by (simp add: upd_cache_def push_def)
    then have "held ?g3 W + blocks_of b ?xs = held g2 W + blocks_of b (mem # ?xs)"
      using held_set_list [OF W b, of "set_list b (mem # ?xs)" "mem # ?xs" g2] by simp
    then show ?thesis using h2 by simp
  qed
  then have inv3: "fm_inv ?g3 W live" using g2(2) by (simp add: fm_inv_def)
  have lim: "batch_size ?g3 = batch_size g" using g2(3) by (simp add: pool_step_def)
  have ws: "worker_step w g ?g3" using g2(3) c2 by (simp add: worker_step_def pool_step_def)
  have ne: "free_lists (caches ?g3 w) b \<noteq> []" by (simp add: push_def)
  show ?case
  proof (cases "bytes + ?sz < batch_size g")
    case True
    have "0 < ?sz" using bucket_size_bounds [OF b] by simp
    then have "batch_size ?g3 - (bytes + ?sz) < batch_size g - bytes" using True lim by simp
    from less.hyps [OF this inv3] obtain g' where
      "allocate_loop w b ?sz (bytes + ?sz) ?g3 = Some g'" "fm_inv g' W live" "worker_step w ?g3 g'"
      "free_lists (caches g' w) b \<noteq> []" by blast
    moreover have "allocate_loop w b ?sz bytes g = allocate_loop w b ?sz (bytes + ?sz) ?g3"
      using g2(1) True lim by (subst allocate_loop.simps) (simp add: Let_def)
    ultimately show ?thesis using ws by (auto simp: worker_step_def)
  next
    case False
    then have "allocate_loop w b ?sz bytes g = Some ?g3"
      using g2(1) lim by (subst allocate_loop.simps) (simp add: Let_def)
    with inv3 ws ne show ?thesis by blast
  qed
qed

lemma malloc_loop_ok:
  assumes W: "finite W" "w \<in> W" and b: "b < FRAME_MALLOC_NBUCKETS" and inv: "fm_inv g W live"
  shows "\<exists>mem g'. malloc_loop w b (bucket_to_size b) g = Some (mem, g') \<and>
    fm_inv g' W (add_mset (mem, b) live) \<and> worker_step w g g'"
proof -
  have pop_step: "\<exists>mem g'. malloc_loop w b (bucket_to_size b) g = Some (mem, g') \<and>
    fm_inv g' W (add_mset (mem, b) live) \<and> worker_step w g g'"
    if inv: "fm_inv g W live" and ne: "free_lists (caches g w) b \<noteq> []" for g
  proof -
    obtain mem cdr where xs: "free_lists (caches g w) b = mem # cdr" using ne by (cases "free_lists (caches g w) b") auto
    let ?g = "upd_cache w (set_list b cdr) g"
    have "held ?g W + blocks_of b (mem # cdr) = held g W + blocks_of b cdr"
      using held_set_list [OF W b, of "set_list b cdr" cdr g] xs by simp
    then have "add_mset (mem, b) (held ?g W) = held g W" by simp
    then have eq: "held ?g W + add_mset (mem, b) live = held g W + live"
      by (metis union_mset_add_mset_left union_mset_add_mset_right)
    have "fm_inv ?g W (add_mset (mem, b) live)" using inv unfolding fm_inv_def eq by simp
    moreover have "malloc_loop w b (bucket_to_size b) g = Some (mem, ?g)"
      using xs by (subst malloc_loop.simps) (simp add: pop_def)
    ultimately show ?thesis by (auto simp: worker_step_def)
  qed
  show ?thesis
  proof (cases "free_lists (caches g w) b")
    case Nil
    obtain g1 where g1: "allocate_batch w b (bucket_to_size b) g = Some g1" "fm_inv g1 W live" "worker_step w g g1"
      "free_lists (caches g1 w) b \<noteq> []"
      using allocate_loop_ok [OF W b inv, of 0] by (auto simp: allocate_batch_def)
    have "malloc_loop w b (bucket_to_size b) g = malloc_loop w b (bucket_to_size b) g1"
      using Nil g1(1) by (subst malloc_loop.simps) (simp add: pop_def)
    with pop_step [OF g1(2,4)] g1(3) show ?thesis by (auto simp: worker_step_def)
  next
    case (Cons m c)
    with pop_step [OF inv] show ?thesis by simp
  qed
qed

lemma bucket_of_size_ok:
  assumes "sz \<le> FRAME_MALLOC_MAX_SIZE"
  shows "\<exists>b. bucket_of_size sz = Some b \<and> b < FRAME_MALLOC_NBUCKETS \<and> sz \<le> bucket_to_size b \<and>
             (\<forall>b'<b. bucket_to_size b' < sz)"
proof -
  have six: "(6 :: nat) = Suc (Suc (Suc (Suc (Suc (Suc 0)))))" by simp
  have "sz \<le> 64 \<or> 64 < sz \<and> sz \<le> 128 \<or> 128 < sz \<and> sz \<le> 256 \<or> 256 < sz \<and> sz \<le> 512 \<or>
      512 < sz \<and> sz \<le> 1024 \<or> 1024 < sz \<and> sz \<le> 2048"
    using assms by (auto simp: FRAME_MALLOC_MAX_SIZE_def)
  then show ?thesis
    by (elim disjE)
       (auto simp: bucket_of_size_def FRAME_MALLOC_NBUCKETS_def six Let_def bucket_to_size_def bucket_sizes_def
         nth_Cons split: nat.splits)
qed

lemma frame_malloc_ok:
  assumes W: "finite W" "w \<in> W" and sz: "sz \<le> FRAME_MALLOC_MAX_SIZE" and inv: "fm_inv g W live"
  shows "\<exists>mem b g'. frame_malloc (Some w) sz g = Some (mem, g') \<and> bucket_of_size sz = Some b \<and>
    sz \<le> bucket_to_size b \<and> fm_inv g' W (add_mset (mem, b) live) \<and> worker_step w g g'"
proof -
  obtain b where b: "bucket_of_size sz = Some b" "b < FRAME_MALLOC_NBUCKETS" "sz \<le> bucket_to_size b"
    using bucket_of_size_ok [OF sz] by blast
  from malloc_loop_ok [OF W b(2) inv] b sz show ?thesis by (auto simp: frame_malloc_def)
qed

lemma gc_count_le: "gc_count xs n pot sz \<le> length xs"
  by (induction xs arbitrary: n) simp_all

lemma frame_free_ok:
  assumes W: "finite W" "w \<in> W" and b: "bucket_of_size sz = Some b" "b < FRAME_MALLOC_NBUCKETS"
    and sz: "sz \<le> FRAME_MALLOC_MAX_SIZE" and inv: "fm_inv g W (add_mset (p, b) live)"
  shows "\<exists>g'. frame_free (Some w) p sz g = Some g' \<and> fm_inv g' W live \<and> worker_step w g g'"
proof -
  let ?sz = "bucket_to_size b" and ?xs = "free_lists (caches g w) b"
  let ?g1 = "upd_cache w (add_potential b ?sz) g"
  let ?g2 = "upd_cache w (\<lambda>l. set_list b (push (free_lists l b) p) l) ?g1"
  have g2: "?g2 = upd_cache w (\<lambda>l. set_list b (p # ?xs) (add_potential b ?sz l)) g"
    by (simp add: upd_cache_def push_def)
  have "held ?g2 W + blocks_of b ?xs = held g W + blocks_of b (p # ?xs)"
    unfolding g2 using held_set_list [OF W b(2)] by simp
  then have "held ?g2 W = add_mset (p, b) (held g W)" by simp
  then have inv2: "fm_inv ?g2 W live" using inv by (simp add: fm_inv_def)
  have ws2: "worker_step w g ?g2" by (simp add: worker_step_def)
  show ?thesis
  proof (cases "bucket_potential (caches ?g2 w) b > potential_limit ?g2")
    case False
    then have "frame_free (Some w) p sz g = Some ?g2"
      using b(1) sz by (simp add: frame_free_def Let_def)
    with inv2 ws2 show ?thesis by blast
  next
    case True
    then have run: "frame_free (Some w) p sz g = gc_bucket w b ?sz ?g2"
      using b(1) sz by (simp add: frame_free_def Let_def)
    let ?ys = "free_lists (caches ?g2 w) b"
    let ?n = "gc_count ?ys 0 (bucket_potential (caches ?g2 w) b) ?sz"
    let ?g3 = "upd_cache w (set_potential b (?n * ?sz)) ?g2"
    show ?thesis
    proof (cases "?n < length ?ys")
      case False
      then have "gc_bucket w b ?sz ?g2 = Some ?g3"
        by (simp add: gc_bucket_def Let_def)
      moreover have "fm_inv ?g3 W live"
        using inv2 by (simp add: fm_inv_def held_same_lists)
      moreover have "worker_step w g ?g3" using ws2 by (simp add: worker_step_def)
      ultimately show ?thesis using run by auto
    next
      case more: True
      let ?g4 = "upd_cache w (set_list b (take (Suc ?n) ?ys)) ?g3"
      have "held ?g4 W + blocks_of b ?ys = held ?g3 W + blocks_of b (take (Suc ?n) ?ys)"
        using held_set_list [OF W b(2), of "set_list b (take (Suc ?n) ?ys)" "take (Suc ?n) ?ys" ?g3] by simp
      moreover have ys: "blocks_of b ?ys = blocks_of b (take (Suc ?n) ?ys) + blocks_of b (drop (Suc ?n) ?ys)"
        by (simp only: blocks_of_simps(3) [symmetric] append_take_drop_id)
      moreover have "held ?g3 W = held ?g2 W" by (intro held_same_lists) simp
      ultimately have h: "held ?g2 W = held ?g4 W + blocks_of b (drop (Suc ?n) ?ys)"
        by (simp only: union_assoc [symmetric]) (simp add: ac_simps)
      have "ginv ?g4 (held ?g2 W + live)" using inv2 by (simp add: fm_inv_def)
      then have "ginv ?g4 (blocks_of b (drop (Suc ?n) ?ys) + (held ?g4 W + live))"
        unfolding h by (simp add: ac_simps)
      then obtain g' where g': "global_free_all ?g4 (drop (Suc ?n) ?ys) b = Some g'" "ginv g' (held ?g4 W + live)" "pool_step ?g4 g'"
        using global_free_all_ok [OF _ b(2)] by blast
      have "gc_bucket w b ?sz ?g2 = Some g'"
        using more g'(1) by (simp add: gc_bucket_def Let_def)
      moreover have "held g' W = held ?g4 W" using g'(3) by (intro held_caches) (simp add: pool_step_def)
      then have "fm_inv g' W live" using g'(2) by (simp add: fm_inv_def)
      moreover have "worker_step w g g'" using ws2 g'(3) by (simp add: worker_step_def pool_step_def)
      ultimately show ?thesis using run by auto
    qed
  qed
qed


subsection \<open>Start and end\<close>

lemma all_blocks_empty: "(\<And>b. b < FRAME_MALLOC_NBUCKETS \<Longrightarrow> fl b = []) \<Longrightarrow> all_blocks fl = {#}"
  by (simp add: all_blocks_def)

lemma global_init_ok:
  "ginv (frame_malloc_global_init g) {#}"
  by (simp add: ginv_def placed_def frame_malloc_global_init_def all_blocks_empty)

lemma per_worker_init_ok:
  assumes "finite W" "w \<notin> W" "fm_inv g W live"
  shows "fm_inv (frame_malloc_per_worker_init w g) (insert w W) live \<and> worker_step w g (frame_malloc_per_worker_init w g)"
proof -
  let ?g = "frame_malloc_per_worker_init w g"
  have "held ?g (insert w W) = all_blocks (free_lists (caches ?g w)) + held ?g W"
    using assms(1,2) by (simp add: held_def)
  moreover have "all_blocks (free_lists (caches ?g w)) = {#}"
    by (rule all_blocks_empty) (simp add: frame_malloc_per_worker_init_def)
  moreover have "held ?g W = held g W"
    unfolding held_def using assms(2) by (intro sum.cong) (auto simp: frame_malloc_per_worker_init_def)
  ultimately show ?thesis
    using assms(3) by (simp add: fm_inv_def frame_malloc_per_worker_init_def worker_step_def)
qed

lemma cleanup_buckets_ok:
  assumes "w \<notin> W"
  shows "set bs \<subseteq> {..<FRAME_MALLOC_NBUCKETS} \<Longrightarrow> distinct bs \<Longrightarrow>
    ginv g ((\<Sum>b\<leftarrow>bs. blocks_of b (free_lists (caches g w) b)) + (held g W + live)) \<Longrightarrow>
    \<exists>g'. cleanup_buckets w bs g = Some g' \<and> fm_inv g' W live \<and> worker_step w g g'"
proof (induction bs arbitrary: g)
  case Nil
  then show ?case by (simp add: fm_inv_def worker_step_def)
next
  case (Cons i bs)
  let ?rest = "\<lambda>g. (\<Sum>b\<leftarrow>bs. blocks_of b (free_lists (caches g w) b)) + (held g W + live)"
  have "ginv g (blocks_of i (free_lists (caches g w) i) + ?rest g)"
    using Cons.prems(3) by (simp add: ac_simps)
  then obtain g1 where g1: "global_free_all g (free_lists (caches g w) i) i = Some g1" "ginv g1 (?rest g)" "pool_step g g1"
    using global_free_all_ok [of g i "free_lists (caches g w) i"] Cons.prems(1) by auto
  let ?g2 = "upd_cache w (set_potential i 0) g1"
  have c: "caches g1 = caches g" using g1(3) by (simp add: pool_step_def)
  have rest: "?rest ?g2 = ?rest g"
    using held_same_lists [of "set_potential i 0" g1 w W] held_caches [OF c] by (simp add: c)
  have "ginv ?g2 (?rest g)" using g1(2) by simp
  then have "ginv ?g2 (?rest ?g2)" by (simp only: rest)
  from Cons.IH [OF _ _ this] Cons.prems(1,2) obtain g' where
    g': "cleanup_buckets w bs ?g2 = Some g'" "fm_inv g' W live" "worker_step w ?g2 g'" by auto
  have "worker_step w g g'" using g'(3) g1(3) by (simp add: worker_step_def pool_step_def)
  with g' g1(1) show ?case by (simp add: move_bucket_to_global_free_list_def)
qed

lemma all_blocks_list: "all_blocks fl = (\<Sum>b\<leftarrow>[0..<FRAME_MALLOC_NBUCKETS]. blocks_of b (fl b))"
  by (simp add: all_blocks_def interv_sum_list_conv_sum_set_nat atLeast0LessThan)

text \<open>The cleaned worker is no longer one of the holders.\<close>

lemma per_worker_cleanup_ok:
  assumes W: "finite W" "w \<notin> W" and inv: "fm_inv g (insert w W) live"
  shows "\<exists>g'. frame_malloc_per_worker_cleanup w g = Some g' \<and> fm_inv g' W live \<and> worker_step w g g'"
proof -
  have "held g (insert w W) = all_blocks (free_lists (caches g w)) + held g W"
    using W by (simp add: held_def)
  then have "ginv g ((\<Sum>b\<leftarrow>[0..<FRAME_MALLOC_NBUCKETS]. blocks_of b (free_lists (caches g w) b)) + (held g W + live))"
    using inv by (simp add: fm_inv_def all_blocks_list ac_simps)
  then show ?thesis
    unfolding frame_malloc_per_worker_cleanup_def by (intro cleanup_buckets_ok W(2)) auto
qed

lemma count_memory_eq: "count_memory_in_global_list g = total_bytes (all_blocks (global_free_list g))"
proof -
  have block: "total_bytes (blocks_of b xs) = length xs * bucket_to_size b" for b xs
    by (induction xs) simp_all
  have "total_bytes (\<Sum>b\<leftarrow>bs. blocks_of b (fl b)) = (\<Sum>b\<leftarrow>bs. length (fl b) * bucket_to_size b)" for bs fl
    by (induction bs) (simp_all add: block)
  then show ?thesis by (simp add: count_memory_in_global_list_def all_blocks_list)
qed

lemma total_bytes_pos:
  assumes "M \<noteq> {#}" "\<forall>p\<in>#M. snd p < FRAME_MALLOC_NBUCKETS"
  shows "0 < total_bytes M"
  using assms bucket_size_bounds by (cases M) fastforce+

text \<open>When all workers have been cleaned up, the leak check stops the process iff a block is still in use.\<close>

lemma global_cleanup_ok:
  assumes inv: "fm_inv g {} live" and chk: "check_for_leaks g"
    and live: "\<forall>p\<in>#live. snd p < FRAME_MALLOC_NBUCKETS" "total_bytes live < 2 ^ 64"
  shows "frame_malloc_global_cleanup g = None \<longleftrightarrow> live \<noteq> {#}"
proof -
  have g: "total_bytes (all_blocks (global_free_list g)) \<le> allocated_from_os g"
    "allocated_from_global_pool g = of_nat (total_bytes live)"
    using inv by (auto simp: fm_inv_def held_def ginv_def)
  have "allocated_from_global_pool g = 0 \<longleftrightarrow> total_bytes live = 0"
    using unat_of_nat64 [of "total_bytes live"] live(2) g(2) by (auto simp: u64_eq_unat)
  also have "\<dots> \<longleftrightarrow> live = {#}"
    using total_bytes_pos [OF _ live(1)] by fastforce
  finally show ?thesis
    using chk g(1) by (simp add: frame_malloc_global_cleanup_def count_memory_eq)
qed

subsection \<open>Disjoint blocks, and a start state\<close>

lemma cover_member: "p \<in># M \<Longrightarrow> x \<in> region p \<Longrightarrow> 1 \<le> cover M x"
  by (auto dest!: multi_member_split)

lemma fm_inv_disjoint:
  assumes "fm_inv g W (add_mset q live)" "p \<in># live"
  shows "region p \<inter> region q = {}"
proof -
  have "cover (all_blocks (global_free_list g) + (held g W + add_mset q live)) x \<le> 1" for x
    using assms(1) unfolding fm_inv_def ginv_def placed_def by blast
  then have one: "cover live x + (if x \<in> region q then 1 else 0) \<le> 1" for x
    unfolding cover_simps by (meson add_leD2)
  show ?thesis
  proof (rule equals0I)
    fix x assume "x \<in> region p \<inter> region q"
    with cover_member [OF assms(2), of x] one [of x] show False by simp
  qed
qed

lemma frame_malloc_disjoint:
  assumes "finite W" "w \<in> W" "sz \<le> FRAME_MALLOC_MAX_SIZE" "fm_inv g W live"
  shows "\<exists>mem b g'. frame_malloc (Some w) sz g = Some (mem, g') \<and> bucket_of_size sz = Some b \<and>
    sz \<le> bucket_to_size b \<and> fm_inv g' W (add_mset (mem, b) live) \<and> worker_step w g g' \<and>
    (\<forall>p\<in>#live. region p \<inter> region (mem, b) = {})"
  using frame_malloc_ok [OF assms] fm_inv_disjoint by blast

text \<open>The allocator after the initialisation of the pool and of worker 0.\<close>

definition fm_start :: frame_cache where
  "fm_start = frame_malloc_per_worker_init 0 (frame_malloc_global_init
     \<lparr>pool_list = [], pool_begin = 0, pool_end = 0, global_free_list = (\<lambda>_. []), batch_size = 0, potential_limit = 0,
      check_for_leaks = False, allocated_from_os = 0, wasted = 0, allocated_from_global_pool = 0,
      caches = (\<lambda>_. \<lparr>free_lists = (\<lambda>_. []), bucket_potential = (\<lambda>_. 0)\<rparr>), os_brk = 0\<rparr>)"

lemma fm_start_inv: "fm_inv fm_start {0} {#}"
  unfolding fm_start_def
  by (rule per_worker_init_ok [of "{}", THEN conjunct1]) (simp_all add: fm_inv_def held_def global_init_ok)

lemma fm_start_checks: "check_for_leaks fm_start"
  by (simp add: fm_start_def frame_malloc_per_worker_init_def frame_malloc_global_init_def)

end
