(* ===== verification/Reducer_Map.thy ===== *)
theory Reducer_Map
  imports Frame_Malloc "HOL-Library.Multiset"
begin

unbundle bit_operations_syntax

text \<open>
  The maps from reducers to the views of a strand (\<open>runtime/reducer_impl.cpp\<close>): open hashing into buckets that grow, and the
  merge of the maps of two strands at a sync.

  A key is the address of the leftmost view of its reducer, a view is an address, and a store has the values
  of the views; freeing a view takes its value away.  The functions of the monoid are user code, so they are arguments.
  The buckets are not addresses here: the memory for them comes from the frame allocator.
\<close>

subsection \<open>State\<close>

record hyper =
  hb_address :: u64
  hb_view_offset :: u64

record elem =
  el_key :: u64
  el_hb :: hyper
  el_view :: u64

record bucket =
  bk_nmax :: nat
  bk_el :: "elem list"

record cilkred_map =
  rm_nelem :: nat
  rm_nbuckets :: nat
  rm_buckets :: "bucket option list"
  rm_merging :: bool
  rm_is_leftmost :: bool

type_synonym 'v store = "u64 \<Rightarrow> 'v option"

subsection \<open>Sizes\<close>

definition sizeof_bucket :: "nat \<Rightarrow> nat" where
  "sizeof_bucket nmax = 32 + nmax * 24"

definition map_roundup :: "nat \<Rightarrow> nat option" where
  "map_roundup nmax = do { sz \<leftarrow> frame_malloc_roundup (sizeof_bucket nmax); Some ((sz - 32) div 24) }"

definition is_power_of_2 :: "u64 \<Rightarrow> bool" where
  "is_power_of_2 n \<longleftrightarrow> n AND (n - 1) = 0"

definition make_buckets :: "nat \<Rightarrow> cilkred_map \<Rightarrow> cilkred_map option" where
  "make_buckets n m =
     do { check (is_power_of_2 (of_nat n));
          Some (m\<lparr>rm_nbuckets := n, rm_buckets := replicate n None, rm_nelem := 0\<rparr>) }"

definition minsz :: "nat \<Rightarrow> nat" where "minsz nelem = 1 + nelem + nelem div 8"
definition nextsz :: "nat \<Rightarrow> nat" where "nextsz nelem = 2 * nelem"

definition need_rehash_p :: "cilkred_map \<Rightarrow> bool" where
  "need_rehash_p m \<longleftrightarrow> minsz (rm_nelem m) > rm_nbuckets m"

definition hashfun :: "nat \<Rightarrow> u64 \<Rightarrow> nat" where
  "hashfun nb key =
     (let k = key; k = k XOR drop_bit 21 k; k = k XOR drop_bit 8 k; k = k XOR drop_bit 3 k
      in unat (k AND (of_nat nb - 1)))"

definition get_hyperobject_key :: "hyper \<Rightarrow> u64" where
  "get_hyperobject_key hb = hb_address hb + hb_view_offset hb"

definition get_leftmost_view :: "u64 \<Rightarrow> u64" where
  "get_leftmost_view key = key"

subsection \<open>Buckets\<close>

definition no_elem :: elem where
  "no_elem = \<lparr>el_key = 0, el_hb = \<lparr>hb_address = 0, hb_view_offset = 0\<rparr>, el_view = 0\<rparr>"

text \<open>The search for an empty element in front of the last one, and the new bucket if there is none.\<close>

fun find_empty :: "nat \<Rightarrow> elem list \<Rightarrow> nat option" where
  "find_empty (Suc n) (e # es) = (if el_key e = 0 then Some 0 else map_option Suc (find_empty n es))"
| "find_empty _ _ = None"

definition grow_to :: "nat \<Rightarrow> elem list \<Rightarrow> (bucket \<times> nat) option" where
  "grow_to nmax els =
     do { nnmax \<leftarrow> map_roundup (2 * nmax);
          check (nmax \<le> nnmax);
          Some (\<lparr>bk_nmax = nnmax, bk_el = take nmax els @ replicate (Suc nnmax - nmax) no_elem\<rparr>, nmax) }"

definition grow :: "bucket option \<Rightarrow> (bucket \<times> nat) option" where
  "grow bp =
     (case bp of
        Some b \<Rightarrow> (case find_empty (bk_nmax b) (bk_el b) of
                    Some i \<Rightarrow> Some (b, i)
                  | None \<Rightarrow> grow_to (bk_nmax b) (bk_el b))
      | None \<Rightarrow> grow_to 0 [])"

definition insert_no_rehash :: "u64 \<Rightarrow> hyper \<Rightarrow> u64 \<Rightarrow> cilkred_map \<Rightarrow> cilkred_map option" where
  "insert_no_rehash key hb view m =
     do { check (key \<noteq> 0);
          check (view \<noteq> 0);
          let h = hashfun (rm_nbuckets m) key;
          check (h < length (rm_buckets m));
          (b, i) \<leftarrow> grow (rm_buckets m ! h);
          check (i < length (bk_el b));
          let b = b\<lparr>bk_el := (bk_el b)[i := \<lparr>el_key = key, el_hb = hb, el_view = view\<rparr>]\<rparr>;
          Some (m\<lparr>rm_buckets := (rm_buckets m)[h := Some b], rm_nelem := rm_nelem m + 1\<rparr>) }"

text \<open>The elements of a bucket: up to the first key 0.\<close>

fun scan :: "elem list \<Rightarrow> elem list option" where
  "scan [] = None"
| "scan (e # es) = (if el_key e = 0 then Some [] else map_option (Cons e) (scan es))"

fun insert_elems :: "elem list \<Rightarrow> cilkred_map \<Rightarrow> cilkred_map option" where
  "insert_elems [] m = Some m"
| "insert_elems (e # es) m = do { m \<leftarrow> insert_no_rehash (el_key e) (el_hb e) (el_view e) m; insert_elems es m }"

fun insert_buckets :: "bucket option list \<Rightarrow> cilkred_map \<Rightarrow> cilkred_map option" where
  "insert_buckets [] m = Some m"
| "insert_buckets (None # bs) m = insert_buckets bs m"
| "insert_buckets (Some b # bs) m = do { es \<leftarrow> scan (bk_el b); m \<leftarrow> insert_elems es m; insert_buckets bs m }"

definition rehash :: "cilkred_map \<Rightarrow> cilkred_map option" where
  "rehash m =
     do { m' \<leftarrow> make_buckets (nextsz (rm_nbuckets m)) m;
          m' \<leftarrow> insert_buckets (rm_buckets m) m';
          check (rm_nelem m' = rm_nelem m);
          Some m' }"

definition rehash_and_insert :: "u64 \<Rightarrow> hyper \<Rightarrow> u64 \<Rightarrow> cilkred_map \<Rightarrow> cilkred_map option" where
  "rehash_and_insert key hb view m =
     do { m \<leftarrow> (if need_rehash_p m then rehash m else Some m); insert_no_rehash key hb view m }"

text \<open>Where the element with a key is: its bucket and its index there.\<close>

fun lookup_el :: "u64 \<Rightarrow> elem list \<Rightarrow> nat option option" where
  "lookup_el key [] = None"
| "lookup_el key (e # es) =
     (if el_key e = 0 then Some None
      else if el_key e = key then do { check (el_view e \<noteq> 0); Some (Some 0) }
      else map_option (map_option Suc) (lookup_el key es))"

definition rm_lookup :: "u64 \<Rightarrow> cilkred_map \<Rightarrow> (nat \<times> nat) option option" where
  "rm_lookup key m =
     (let h = hashfun (rm_nbuckets m) key in
      if h < length (rm_buckets m)
      then (case rm_buckets m ! h of
              None \<Rightarrow> Some None
            | Some b \<Rightarrow> map_option (map_option (Pair h)) (lookup_el key (bk_el b)))
      else None)"

definition elem_at :: "nat \<times> nat \<Rightarrow> cilkred_map \<Rightarrow> elem option" where
  "elem_at p m = do { b \<leftarrow> rm_buckets m ! fst p; Some (bk_el b ! snd p) }"

definition set_elem :: "nat \<times> nat \<Rightarrow> elem \<Rightarrow> cilkred_map \<Rightarrow> cilkred_map option" where
  "set_elem p e m =
     do { b \<leftarrow> rm_buckets m ! fst p;
          Some (m\<lparr>rm_buckets := (rm_buckets m)[fst p := Some (b\<lparr>bk_el := (bk_el b)[snd p := e]\<rparr>)]\<rparr>) }"

text \<open>The check of a map.\<close>

fun check_buckets :: "bool \<Rightarrow> bucket option list \<Rightarrow> nat option" where
  "check_buckets allow_null [] = Some 0"
| "check_buckets allow_null (None # bs) = check_buckets allow_null bs"
| "check_buckets allow_null (Some b # bs) =
     do { es \<leftarrow> scan (bk_el b);
          check (\<forall>e\<in>set es. allow_null \<or> el_view e \<noteq> 0);
          n \<leftarrow> check_buckets allow_null bs;
          Some (length es + n) }"

definition map_check :: "bool \<Rightarrow> cilkred_map \<Rightarrow> unit option" where
  "map_check allow_null m = do { n \<leftarrow> check_buckets allow_null (rm_buckets m); check (rm_nelem m = n) }"

subsection \<open>Creating and destroying\<close>

definition make_reducer_map :: "cilkred_map option" where
  "make_reducer_map =
     make_buckets 1 \<lparr>rm_nelem = 0, rm_nbuckets = 0, rm_buckets = [], rm_merging = False, rm_is_leftmost = False\<rparr>"

definition set_leftmost_reducer_map :: "bool \<Rightarrow> cilkred_map \<Rightarrow> cilkred_map" where
  "set_leftmost_reducer_map is_leftmost m = m\<lparr>rm_is_leftmost := is_leftmost\<rparr>"

definition el_is_leftmost :: "elem \<Rightarrow> bool" where
  "el_is_leftmost e \<longleftrightarrow> el_key e = el_view e"

text \<open>\<open>elem::destroy\<close>: the view is destroyed and freed unless it is the leftmost one.\<close>

definition destroy_elem :: "elem \<Rightarrow> 'v store \<Rightarrow> 'v store" where
  "destroy_elem e vals = (if \<not> el_is_leftmost e then vals(el_view e := None) else vals)"

definition destroy_elems :: "elem list \<Rightarrow> 'v store \<Rightarrow> 'v store" where
  "destroy_elems es vals = fold (\<lambda>e vals. if el_view e \<noteq> 0 then destroy_elem e vals else vals) es vals"

fun destroy_buckets :: "bucket option list \<Rightarrow> 'v store \<Rightarrow> 'v store option" where
  "destroy_buckets [] vals = Some vals"
| "destroy_buckets (None # bs) vals = destroy_buckets bs vals"
| "destroy_buckets (Some b # bs) vals = do { es \<leftarrow> scan (bk_el b); destroy_buckets bs (destroy_elems es vals) }"

definition destroy_reducer_map :: "cilkred_map \<Rightarrow> 'v store \<Rightarrow> 'v store option" where
  "destroy_reducer_map m vals = destroy_buckets (rm_buckets m) vals"

text \<open>The loop that moves the elements behind a removed one forward.\<close>

fun shift_elems :: "elem list \<Rightarrow> elem list option" where
  "shift_elems (a # b # es) = (if el_key b = 0 then Some (b # b # es) else map_option (Cons b) (shift_elems (b # es)))"
| "shift_elems _ = None"

definition hyper_destroy :: "hyper \<Rightarrow> cilkred_map \<Rightarrow> 'v store \<Rightarrow> (cilkred_map \<times> 'v store) option" where
  "hyper_destroy hb m vals =
     do { check (\<not> rm_merging m);
          p \<leftarrow> rm_lookup (get_hyperobject_key hb) m;
          (h, i) \<leftarrow> p;
          e \<leftarrow> elem_at (h, i) m;
          check (el_is_leftmost e);
          b \<leftarrow> rm_buckets m ! h;
          es \<leftarrow> shift_elems (drop i (bk_el b));
          Some (m\<lparr>rm_buckets := (rm_buckets m)[h := Some (b\<lparr>bk_el := take i (bk_el b) @ es\<rparr>)], rm_nelem := rm_nelem m - 1\<rparr>,
                destroy_elem e vals) }"

text \<open>The map of the worker, or a new one.\<close>

definition the_map :: "cilkred_map option \<Rightarrow> cilkred_map option" where
  "the_map m = (case m of None \<Rightarrow> make_reducer_map | Some m \<Rightarrow> Some m)"

definition hyper_create :: "hyper \<Rightarrow> cilkred_map option \<Rightarrow> cilkred_map option" where
  "hyper_create hb wmap =
     do { let key = get_hyperobject_key hb;
          let view = get_leftmost_view key;
          m \<leftarrow> the_map wmap;
          p \<leftarrow> rm_lookup key m;
          check (p = None);
          check (\<not> rm_merging m);
          rehash_and_insert view hb view m }"

text \<open>\<open>rep\<close> is the address that \<open>allocate_fn\<close> returns.\<close>

definition hyper_lookup :: "(hyper \<Rightarrow> 'v) \<Rightarrow> u64 \<Rightarrow> hyper \<Rightarrow> cilkred_map option \<Rightarrow> 'v store \<Rightarrow> (u64 \<times> cilkred_map \<times> 'v store) option" where
  "hyper_lookup identity_fn rep hb wmap vals =
     do { let key = get_hyperobject_key hb;
          m \<leftarrow> the_map wmap;
          check (\<not> rm_merging m);
          p \<leftarrow> rm_lookup key m;
          (case p of
             Some p \<Rightarrow> do { e \<leftarrow> elem_at p m; Some (el_view e, m, vals) }
           | None \<Rightarrow>
               (let (rep, vals) = (if rm_is_leftmost m then (get_leftmost_view key, vals)
                                   else (rep, vals(rep := Some (identity_fn hb)))) in
                do { m \<leftarrow> rehash_and_insert key hb rep m; Some (rep, m, vals) })) }"

subsection \<open>Merging\<close>

datatype merge_kind = MERGE_UNORDERED | MERGE_INTO_LEFT | MERGE_INTO_RIGHT

text \<open>The same key is in both maps: the values of the views are reduced into the left one.\<close>

definition reduce_views :: "(hyper \<Rightarrow> 'v \<Rightarrow> 'v \<Rightarrow> 'v) \<Rightarrow> hyper \<Rightarrow> u64 \<Rightarrow> u64 \<Rightarrow> 'v store \<Rightarrow> 'v store option" where
  "reduce_views reduce_fn hb left right vals =
     do { x \<leftarrow> vals left; y \<leftarrow> vals right; Some (vals(left := Some (reduce_fn hb x y))) }"

definition merge_elem :: "(hyper \<Rightarrow> 'v \<Rightarrow> 'v \<Rightarrow> 'v) \<Rightarrow> merge_kind \<Rightarrow> bool \<Rightarrow> elem \<Rightarrow> cilkred_map \<times> 'v store \<Rightarrow>
    (elem \<times> cilkred_map \<times> 'v store) option" where
  "merge_elem reduce_fn kind merge_to_leftmost other_el mv =
     (case mv of (m, vals) \<Rightarrow>
      do { let other_view = el_view other_el;
           check (other_view \<noteq> 0);
           let key = el_key other_el;
           let hb = el_hb other_el;
           this_el \<leftarrow> rm_lookup key m;
           (this_el, m) \<leftarrow> (if this_el = None \<and> merge_to_leftmost \<and> get_leftmost_view key \<noteq> other_view
              then do { m \<leftarrow> rehash_and_insert key hb (get_leftmost_view key) m; p \<leftarrow> rm_lookup key m; Some (p, m) }
              else Some (this_el, m));
           (case this_el of
              None \<Rightarrow> do { m \<leftarrow> rehash_and_insert key hb other_view m; Some (other_el\<lparr>el_view := 0\<rparr>, m, vals) }
            | Some p \<Rightarrow>
                do { e \<leftarrow> elem_at p m;
                     (case kind of
                        MERGE_UNORDERED \<Rightarrow> None
                      | MERGE_INTO_RIGHT \<Rightarrow>
                          do { m \<leftarrow> set_elem p (e\<lparr>el_view := other_view\<rparr>) m;
                               vals \<leftarrow> reduce_views reduce_fn hb other_view (el_view e) vals;
                               Some (other_el\<lparr>el_view := el_view e\<rparr>, m, vals) }
                      | MERGE_INTO_LEFT \<Rightarrow>
                          do { vals \<leftarrow> reduce_views reduce_fn hb (el_view e) other_view vals;
                               Some (other_el, m, vals) }) }) })"

fun merge_elems :: "(hyper \<Rightarrow> 'v \<Rightarrow> 'v \<Rightarrow> 'v) \<Rightarrow> merge_kind \<Rightarrow> bool \<Rightarrow> elem list \<Rightarrow> cilkred_map \<times> 'v store \<Rightarrow>
    (elem list \<times> cilkred_map \<times> 'v store) option" where
  "merge_elems reduce_fn kind lm [] mv = None"
| "merge_elems reduce_fn kind lm (e # es) mv =
     (if el_key e = 0 then Some (e # es, mv)
      else do { (e, mv) \<leftarrow> merge_elem reduce_fn kind lm e mv;
                (es, mv) \<leftarrow> merge_elems reduce_fn kind lm es mv;
                Some (e # es, mv) })"

fun merge_buckets :: "(hyper \<Rightarrow> 'v \<Rightarrow> 'v \<Rightarrow> 'v) \<Rightarrow> merge_kind \<Rightarrow> bool \<Rightarrow> bucket option list \<Rightarrow> cilkred_map \<times> 'v store \<Rightarrow>
    (bucket option list \<times> cilkred_map \<times> 'v store) option" where
  "merge_buckets reduce_fn kind lm [] mv = Some ([], mv)"
| "merge_buckets reduce_fn kind lm (None # bs) mv =
     do { (bs, mv) \<leftarrow> merge_buckets reduce_fn kind lm bs mv; Some (None # bs, mv) }"
| "merge_buckets reduce_fn kind lm (Some b # bs) mv =
     do { (es, mv) \<leftarrow> merge_elems reduce_fn kind lm (bk_el b) mv;
          (bs, mv) \<leftarrow> merge_buckets reduce_fn kind lm bs mv;
          Some (Some (b\<lparr>bk_el := es\<rparr>) # bs, mv) }"

definition map_merge :: "(hyper \<Rightarrow> 'v \<Rightarrow> 'v \<Rightarrow> 'v) \<Rightarrow> merge_kind \<Rightarrow> cilkred_map \<Rightarrow> cilkred_map \<Rightarrow> 'v store \<Rightarrow> (cilkred_map \<times> 'v store) option" where
  "map_merge reduce_fn kind this other vals =
     do { check (\<not> rm_is_leftmost other);
          (bs, m, vals) \<leftarrow> merge_buckets reduce_fn kind (rm_is_leftmost this) (rm_buckets other) (this\<lparr>rm_merging := True\<rparr>, vals);
          let m = m\<lparr>rm_is_leftmost := rm_is_leftmost m \<or> rm_is_leftmost other, rm_merging := False\<rparr>;
          vals \<leftarrow> destroy_reducer_map (other\<lparr>rm_buckets := bs\<rparr>) vals;
          Some (m, vals) }"

definition merge_reducer_maps :: "(hyper \<Rightarrow> 'v \<Rightarrow> 'v \<Rightarrow> 'v) \<Rightarrow> cilkred_map option \<Rightarrow> cilkred_map option \<Rightarrow> 'v store \<Rightarrow>
    (cilkred_map option \<times> 'v store) option" where
  "merge_reducer_maps reduce_fn left_map right_map vals =
     (case left_map of
        None \<Rightarrow> Some (right_map, vals)
      | Some l \<Rightarrow> (case right_map of
            None \<Rightarrow> Some (left_map, vals)
          | Some r \<Rightarrow>
              if rm_is_leftmost l \<or> rm_nelem l > rm_nelem r
              then do { (m, vals) \<leftarrow> map_merge reduce_fn MERGE_INTO_LEFT l r vals; Some (Some m, vals) }
              else do { (m, vals) \<leftarrow> map_merge reduce_fn MERGE_INTO_RIGHT r l vals; Some (Some m, vals) }))"

text \<open>The reductions can leave a new map with the worker, which the loop pulls: the maps that it finds after each
  round are \<open>pulled\<close>, and the round after the last of them finds none.\<close>

fun repeated_merge_reducer_maps :: "(hyper \<Rightarrow> 'v \<Rightarrow> 'v \<Rightarrow> 'v) \<Rightarrow> cilkred_map option \<Rightarrow> cilkred_map option \<Rightarrow> cilkred_map list \<Rightarrow> 'v store \<Rightarrow>
    (cilkred_map option \<times> 'v store) option" where
  "repeated_merge_reducer_maps reduce_fn left_map right_map [] vals = merge_reducer_maps reduce_fn left_map right_map vals"
| "repeated_merge_reducer_maps reduce_fn left_map right_map (w_map # pulled) vals =
     do { (left_map, vals) \<leftarrow> merge_reducer_maps reduce_fn left_map right_map vals;
          repeated_merge_reducer_maps reduce_fn left_map (Some w_map) pulled vals }"

end
