(* ===== verification/Reducer_Inv.thy ===== *)
theory Reducer_Inv
  imports Reducer_Map
begin

text \<open>
  A reducer map is a finite map from keys to elements: the invariant, and insertion, growth of buckets, rehashing, lookup and
  removal on it.
\<close>

subsection \<open>The invariant\<close>

text \<open>The elements of a bucket, and of a map: those in front of the first key 0.\<close>

definition live_elems :: "elem list \<Rightarrow> elem list" where
  "live_elems es = takeWhile (\<lambda>e. el_key e \<noteq> 0) es"

definition bucket_elems :: "bucket option \<Rightarrow> elem list" where
  "bucket_elems bp = (case bp of None \<Rightarrow> [] | Some b \<Rightarrow> live_elems (bk_el b))"

definition entries :: "cilkred_map \<Rightarrow> elem list" where
  "entries m = concat (map bucket_elems (rm_buckets m))"

definition zero_tail :: "elem list \<Rightarrow> bool" where
  "zero_tail es \<longleftrightarrow> live_elems es \<noteq> es \<and> (\<forall>e\<in>set (dropWhile (\<lambda>e. el_key e \<noteq> 0) es). el_key e = 0)"

definition bucket_ok :: "nat \<Rightarrow> nat \<Rightarrow> bucket option \<Rightarrow> bool" where
  "bucket_ok nb h bp \<longleftrightarrow> (case bp of None \<Rightarrow> True | Some b \<Rightarrow>
     length (bk_el b) = Suc (bk_nmax b) \<and> 0 < bk_nmax b \<and> zero_tail (bk_el b) \<and>
     (\<forall>e\<in>set (live_elems (bk_el b)). el_view e \<noteq> 0 \<and> hashfun nb (el_key e) = h))"

definition map_ok :: "cilkred_map \<Rightarrow> bool" where
  "map_ok m \<longleftrightarrow> (\<exists>j\<le>60. rm_nbuckets m = 2 ^ j) \<and> length (rm_buckets m) = rm_nbuckets m \<and>
     (\<forall>h<rm_nbuckets m. bucket_ok (rm_nbuckets m) h (rm_buckets m ! h)) \<and>
     rm_nelem m = length (entries m) \<and> distinct (map el_key (entries m))"

definition the_elem_of :: "cilkred_map \<Rightarrow> u64 \<Rightarrow> elem option" where
  "the_elem_of m key = map_of (map (\<lambda>e. (el_key e, e)) (entries m)) key"

lemma live_split:
  assumes "zero_tail es"
  obtains zs where "es = live_elems es @ zs" "zs \<noteq> []" "\<forall>e\<in>set zs. el_key e = 0" "\<forall>e\<in>set (live_elems es). el_key e \<noteq> 0"
proof -
  let ?zs = "dropWhile (\<lambda>e. el_key e \<noteq> 0) es"
  have eq: "es = live_elems es @ ?zs" by (simp add: live_elems_def)
  have nz: "?zs \<noteq> []" using assms unfolding zero_tail_def live_elems_def takeWhile_eq_all_conv dropWhile_eq_Nil_conv by (rule conjunct1)
  have z: "\<forall>e\<in>set ?zs. el_key e = 0" using assms unfolding zero_tail_def by (rule conjunct2)
  have l: "\<forall>e\<in>set (live_elems es). el_key e \<noteq> 0" by (auto simp: live_elems_def dest: set_takeWhileD)
  show ?thesis by (rule that [OF eq nz z l])
qed

lemma live_append:
  assumes "\<forall>e\<in>set xs. el_key e \<noteq> 0" "\<forall>e\<in>set zs. el_key e = 0" "zs \<noteq> []"
  shows "live_elems (xs @ zs) = xs" "zero_tail (xs @ zs)"
proof -
  show l: "live_elems (xs @ zs) = xs" using assms by (cases zs) (simp_all add: live_elems_def takeWhile_append)
  have "dropWhile (\<lambda>e. el_key e \<noteq> 0) (xs @ zs) = zs" using assms by (cases zs) (simp_all add: dropWhile_append)
  then show "zero_tail (xs @ zs)" using l assms(2,3) by (simp add: zero_tail_def)
qed

lemma live_elems_keys: "e \<in> set (live_elems es) \<Longrightarrow> el_key e \<noteq> 0"
  by (auto simp: live_elems_def dest: set_takeWhileD)

lemma entries_keys: "e \<in> set (entries m) \<Longrightarrow> el_key e \<noteq> 0"
  by (auto simp: entries_def bucket_elems_def live_elems_keys split: option.splits)

lemma the_elem_of_iff:
  assumes "distinct (map el_key (entries m))"
  shows "the_elem_of m key = Some e \<longleftrightarrow> e \<in> set (entries m) \<and> el_key e = key"
proof -
  have "distinct (map fst (map (\<lambda>e. (el_key e, e)) (entries m)))" using assms by (simp add: o_def)
  then show ?thesis unfolding the_elem_of_def by (subst map_of_eq_Some_iff) auto
qed

text \<open>Replacing one bucket.\<close>

lemma mset_concat_update:
  "h < length bs \<Longrightarrow> mset (concat (map f (bs[h := x]))) + mset (f (bs ! h)) = mset (concat (map f bs)) + mset (f x)"
proof (induction bs arbitrary: h)
  case (Cons b bs)
  then show ?case by (cases h) (auto simp: ac_simps)
qed simp

lemma mset_entries_update:
  assumes "h < length (rm_buckets m)"
  shows "mset (entries (m\<lparr>rm_buckets := (rm_buckets m)[h := x]\<rparr>)) + mset (bucket_elems (rm_buckets m ! h)) =
         mset (entries m) + mset (bucket_elems x)"
  using mset_concat_update [OF assms, of bucket_elems x] by (simp add: entries_def)

subsection \<open>Hashing\<close>

lemma hashfun_less:
  assumes "j \<le> 60" shows "hashfun (2 ^ j) key < 2 ^ j"
proof -
  have "(of_nat (2 ^ j) - 1 :: u64) = mask j" by (simp add: mask_eq_exp_minus_1)
  moreover have "unat (k AND mask j :: u64) < 2 ^ j" for k
  proof -
    have "k AND mask j = take_bit j k" by (simp add: take_bit_eq_mask)
    then have "unat (k AND mask j) = take_bit j (unat k)" using assms by (simp add: unsigned_take_bit_eq)
    then show ?thesis by simp
  qed
  ultimately show ?thesis by (simp add: hashfun_def Let_def)
qed

lemma power_of_2: "j \<le> 60 \<Longrightarrow> is_power_of_2 (of_nat (2 ^ j))"
proof -
  assume j: "j \<le> 60"
  have "(2 ^ j :: u64) AND mask j = 0"
    by (rule bit_eqI) (auto simp: bit_and_iff bit_mask_iff bit_exp_iff)
  then show ?thesis by (simp add: is_power_of_2_def mask_eq_exp_minus_1)
qed

subsection \<open>Growing a bucket\<close>

lemma map_roundup_ge: "\<exists>r. map_roundup n = Some r \<and> n \<le> r \<and> 0 < r"
proof -
  obtain sz where sz: "frame_malloc_roundup (sizeof_bucket n) = Some sz" "sizeof_bucket n \<le> sz" "64 \<le> sz"
  proof (cases "sizeof_bucket n > FRAME_MALLOC_MAX_SIZE")
    case True
    then show thesis using that [of "sizeof_bucket n"] by (simp add: frame_malloc_roundup_def FRAME_MALLOC_MAX_SIZE_def)
  next
    case False
    then obtain b where b: "bucket_of_size (sizeof_bucket n) = Some b" "b < FRAME_MALLOC_NBUCKETS" "sizeof_bucket n \<le> bucket_to_size b"
      using bucket_of_size_ok [of "sizeof_bucket n"] by auto
    have "64 \<le> bucket_to_size b"
    proof -
      have "b = 0 \<or> b = 1 \<or> b = 2 \<or> b = 3 \<or> b = 4 \<or> b = 5" using b(2) by (auto simp: FRAME_MALLOC_NBUCKETS_def)
      then show ?thesis by (auto simp: bucket_to_size_def bucket_sizes_def)
    qed
    then show thesis using that [of "bucket_to_size b"] b False by (simp add: frame_malloc_roundup_def)
  qed
  have "n \<le> (sz - 32) div 24" using sz(2) by (simp add: sizeof_bucket_def less_eq_div_iff_mult_less_eq)
  moreover have "0 < (sz - 32) div 24" using sz(3) by (simp add: div_greater_zero_iff)
  ultimately show ?thesis using sz(1) by (simp add: map_roundup_def)
qed

lemma find_empty_ok:
  assumes "\<forall>e\<in>set xs. el_key e \<noteq> 0" "\<forall>e\<in>set zs. el_key e = 0" "n < length (xs @ zs)"
  shows "find_empty n (xs @ zs) = (if length xs < n then Some (length xs) else None)"
  using assms
proof (induction xs arbitrary: n)
  case Nil
  then show ?case by (cases n; cases zs) auto
next
  case (Cons x xs)
  then show ?case by (cases n) auto
qed

text \<open>The place that \<open>grow\<close> finds can take any element that belongs into the bucket.\<close>

lemma grow_ok:
  assumes "bucket_ok nb h bp" and e: "el_key e \<noteq> 0" "el_view e \<noteq> 0" "hashfun nb (el_key e) = h"
  shows "\<exists>b i. grow bp = Some (b, i) \<and> i < length (bk_el b) \<and> bucket_ok nb h (Some (b\<lparr>bk_el := (bk_el b)[i := e]\<rparr>)) \<and>
    live_elems ((bk_el b)[i := e]) = bucket_elems bp @ [e]"
proof -
  have new: "\<exists>b i. grow_to nmax els = Some (b, i) \<and> i < length (bk_el b) \<and> bucket_ok nb h (Some (b\<lparr>bk_el := (bk_el b)[i := e]\<rparr>)) \<and>
      live_elems ((bk_el b)[i := e]) = xs @ [e]"
    if xs: "take nmax els = xs" "length xs = nmax" "\<forall>x\<in>set xs. el_key x \<noteq> 0 \<and> el_view x \<noteq> 0 \<and> hashfun nb (el_key x) = h" for nmax els xs
  proof -
    obtain r where r: "map_roundup (2 * nmax) = Some r" "2 * nmax \<le> r" "0 < r" using map_roundup_ge by blast
    then have lt: "nmax < r" by linarith
    let ?b = "\<lparr>bk_nmax = r, bk_el = xs @ replicate (Suc r - nmax) no_elem\<rparr>"
    have upd: "(bk_el ?b)[nmax := e] = (xs @ [e]) @ replicate (r - nmax) no_elem"
      using xs(2) lt by (simp add: list_update_append Suc_diff_le)
    have z: "\<forall>x\<in>set (replicate (r - nmax) no_elem). el_key x = 0" "replicate (r - nmax) no_elem \<noteq> []"
      using lt by (auto simp: no_elem_def)
    have k: "\<forall>x\<in>set (xs @ [e]). el_key x \<noteq> 0" using xs(3) e(1) by auto
    note l = live_append [OF k z]
    have "grow_to nmax els = Some (?b, nmax)" using r lt xs(1) by (simp add: grow_to_def)
    moreover have "bucket_ok nb h (Some (?b\<lparr>bk_el := (bk_el ?b)[nmax := e]\<rparr>))"
      using l xs lt e unfolding upd bucket_ok_def by auto
    moreover have "live_elems ((bk_el ?b)[nmax := e]) = xs @ [e]" unfolding upd by (rule l(1))
    ultimately show ?thesis using lt xs(2) by (intro exI [of _ ?b] exI [of _ nmax]) simp
  qed
  show ?thesis
  proof (cases bp)
    case None
    then show ?thesis using new [of 0 "[]" "[]"] by (simp add: grow_def bucket_elems_def)
  next
    case (Some b)
    then have ok: "length (bk_el b) = Suc (bk_nmax b)" "0 < bk_nmax b" "zero_tail (bk_el b)"
      "\<forall>x\<in>set (live_elems (bk_el b)). el_view x \<noteq> 0 \<and> hashfun nb (el_key x) = h" using assms(1) by (auto simp: bucket_ok_def)
    obtain zs where zs: "bk_el b = live_elems (bk_el b) @ zs" "zs \<noteq> []" "\<forall>x\<in>set zs. el_key x = 0" "\<forall>x\<in>set (live_elems (bk_el b)). el_key x \<noteq> 0"
      by (rule live_split [OF ok(3)])
    define xs where "xs = live_elems (bk_el b)"
    have els: "bk_el b = xs @ zs" "\<forall>x\<in>set xs. el_key x \<noteq> 0" using zs xs_def by auto
    have f: "find_empty (bk_nmax b) (bk_el b) = (if length xs < bk_nmax b then Some (length xs) else None)"
      unfolding els(1) by (rule find_empty_ok) (use els zs(3) ok(1) in auto)
    show ?thesis
    proof (cases "length xs < bk_nmax b")
      case True
      then have "2 \<le> length zs" using ok(1) els(1) by simp
      then obtain z zs' where z: "zs = z # zs'" "zs' \<noteq> []" by (cases zs; cases "drop 1 zs") auto
      have upd: "(bk_el b)[length xs := e] = (xs @ [e]) @ zs'" using els z by simp
      have k: "\<forall>x\<in>set (xs @ [e]). el_key x \<noteq> 0" "\<forall>x\<in>set zs'. el_key x = 0" using els(2) e(1) zs(3) z by auto
      note l = live_append [OF k z(2)]
      have "bucket_ok nb h (Some (b\<lparr>bk_el := (bk_el b)[length xs := e]\<rparr>))"
      proof -
        have "length ((xs @ [e]) @ zs') = Suc (bk_nmax b)" using ok(1) els(1) z(1) by simp
        moreover have "\<forall>x\<in>set (xs @ [e]). el_view x \<noteq> 0 \<and> hashfun nb (el_key x) = h"
          using ok(4) e(2,3) unfolding xs_def by auto
        ultimately show ?thesis using l ok(2) by (simp add: upd bucket_ok_def)
      qed
      moreover have "live_elems ((bk_el b)[length xs := e]) = bucket_elems bp @ [e]"
        unfolding upd l(1) by (simp add: Some bucket_elems_def xs_def)
      moreover have "grow bp = Some (b, length xs)" using f True Some by (simp add: grow_def)
      moreover have "length xs < length (bk_el b)" using True ok(1) by simp
      ultimately show ?thesis by blast
    next
      case False
      have "length xs + length zs = Suc (bk_nmax b)" "0 < length zs" using ok(1) els(1) zs(2) by simp_all
      then have "length xs = bk_nmax b" using False by linarith
      then have t: "take (bk_nmax b) (bk_el b) = xs" using els(1) by simp
      have a: "\<forall>x\<in>set xs. el_key x \<noteq> 0 \<and> el_view x \<noteq> 0 \<and> hashfun nb (el_key x) = h"
        using els(2) ok(4) unfolding xs_def by blast
      note n = new [OF t \<open>length xs = bk_nmax b\<close> a]
      have g: "grow bp = grow_to (bk_nmax b) (bk_el b)" unfolding Some grow_def using f False by simp
      have x: "bucket_elems bp = xs" by (simp add: Some bucket_elems_def xs_def)
      show ?thesis unfolding g x by (rule n)
    qed
  qed
qed

subsection \<open>Changing one bucket\<close>

lemma map_ok_nb:
  assumes "map_ok m"
  obtains j where "j \<le> 60" "rm_nbuckets m = 2 ^ j" "length (rm_buckets m) = 2 ^ j" "\<And>key. hashfun (rm_nbuckets m) key < 2 ^ j"
  using assms hashfun_less unfolding map_ok_def by metis

lemma map_ok_bucket: "map_ok m \<Longrightarrow> h < rm_nbuckets m \<Longrightarrow> bucket_ok (rm_nbuckets m) h (rm_buckets m ! h)"
  by (simp add: map_ok_def)

lemma map_ok_replace:
  assumes m: "map_ok m" "h < rm_nbuckets m" and x: "bucket_ok (rm_nbuckets m) h x"
    and ys: "mset ys + mset (bucket_elems (rm_buckets m ! h)) = mset (entries m) + mset (bucket_elems x)"
      "distinct (map el_key ys)"
  defines "m' \<equiv> m\<lparr>rm_buckets := (rm_buckets m)[h := x], rm_nelem := length ys\<rparr>"
  shows "map_ok m'" "mset (entries m') = mset ys"
proof -
  have h: "h < length (rm_buckets m)" using m by (simp add: map_ok_def)
  have "entries m' = entries (m\<lparr>rm_buckets := (rm_buckets m)[h := x]\<rparr>)" by (simp add: entries_def m'_def)
  then have "mset (entries m') + mset (bucket_elems (rm_buckets m ! h)) = mset ys + mset (bucket_elems (rm_buckets m ! h))"
    using mset_entries_update [OF h, of x] ys(1) by simp
  then show eq: "mset (entries m') = mset ys" by simp
  then have "length (entries m') = length ys" by (rule mset_eq_length)
  moreover have "mset (map el_key (entries m')) = mset (map el_key ys)" using eq by simp
  then have "distinct (map el_key (entries m'))" using ys(2) mset_eq_imp_distinct_iff by blast
  moreover have "\<forall>k<rm_nbuckets m'. bucket_ok (rm_nbuckets m') k (rm_buckets m' ! k)"
    using m x h by (auto simp: m'_def map_ok_def nth_list_update)
  ultimately show "map_ok m'" using m(1) by (simp add: map_ok_def m'_def)
qed

lemma bucket_elems_in: "h < length (rm_buckets m) \<Longrightarrow> e \<in> set (bucket_elems (rm_buckets m ! h)) \<Longrightarrow> e \<in> set (entries m)"
  by (auto simp: entries_def intro!: bexI [of _ "rm_buckets m ! h"])

text \<open>An element is in the bucket of its key.\<close>

lemma entries_bucket:
  assumes "map_ok m" "e \<in> set (entries m)"
  shows "e \<in> set (bucket_elems (rm_buckets m ! hashfun (rm_nbuckets m) (el_key e)))"
proof -
  obtain h where h: "h < length (rm_buckets m)" "e \<in> set (bucket_elems (rm_buckets m ! h))"
    using assms(2) by (auto simp: entries_def set_conv_nth [of "rm_buckets m"])
  then have "bucket_ok (rm_nbuckets m) h (rm_buckets m ! h)" using assms(1) by (simp add: map_ok_def)
  then have "hashfun (rm_nbuckets m) (el_key e) = h" using h(2) by (auto simp: bucket_ok_def bucket_elems_def split: option.splits)
  then show ?thesis using h(2) by simp
qed

lemma entries_view: 
  assumes "map_ok m" "e \<in> set (entries m)" shows "el_view e \<noteq> 0"
proof -
  obtain h where h: "h < length (rm_buckets m)" "e \<in> set (bucket_elems (rm_buckets m ! h))"
    using assms(2) by (auto simp: entries_def set_conv_nth [of "rm_buckets m"])
  then have "bucket_ok (rm_nbuckets m) h (rm_buckets m ! h)" using assms(1) by (simp add: map_ok_def)
  then show ?thesis using h(2) by (auto simp: bucket_ok_def bucket_elems_def split: option.splits)
qed

subsection \<open>Insertion\<close>

lemma insert_no_rehash_ok:
  assumes m: "map_ok m" and k: "key \<noteq> 0" "view \<noteq> 0" "key \<notin> el_key ` set (entries m)"
  shows "\<exists>m'. insert_no_rehash key hb view m = Some m' \<and> map_ok m' \<and>
    mset (entries m') = add_mset \<lparr>el_key = key, el_hb = hb, el_view = view\<rparr> (mset (entries m)) \<and>
    rm_nbuckets m' = rm_nbuckets m \<and> rm_merging m' = rm_merging m \<and> rm_is_leftmost m' = rm_is_leftmost m"
proof -
  let ?e = "\<lparr>el_key = key, el_hb = hb, el_view = view\<rparr>"
  let ?h = "hashfun (rm_nbuckets m) key"
  obtain j where j: "rm_nbuckets m = 2 ^ j" "length (rm_buckets m) = 2 ^ j" "?h < 2 ^ j" using map_ok_nb [OF m] by metis
  then have h: "?h < rm_nbuckets m" "?h < length (rm_buckets m)" by simp_all
  have e: "el_key ?e \<noteq> 0" "el_view ?e \<noteq> 0" "hashfun (rm_nbuckets m) (el_key ?e) = ?h" using k by simp_all
  obtain b i where b: "grow (rm_buckets m ! ?h) = Some (b, i)" "i < length (bk_el b)"
    "bucket_ok (rm_nbuckets m) ?h (Some (b\<lparr>bk_el := (bk_el b)[i := ?e]\<rparr>))"
    "live_elems ((bk_el b)[i := ?e]) = bucket_elems (rm_buckets m ! ?h) @ [?e]"
    using grow_ok [OF map_ok_bucket [OF m h(1)] e] by blast
  have ys: "mset (?e # entries m) + mset (bucket_elems (rm_buckets m ! ?h)) =
      mset (entries m) + mset (bucket_elems (Some (b\<lparr>bk_el := (bk_el b)[i := ?e]\<rparr>)))" "distinct (map el_key (?e # entries m))"
    using b(4) m k(3) by (simp_all add: bucket_elems_def map_ok_def)
  have n: "rm_nelem m + 1 = length (?e # entries m)" using m by (simp add: map_ok_def)
  note r = map_ok_replace [OF m h(1) b(3) ys]
  have "insert_no_rehash key hb view m = Some (m\<lparr>rm_buckets := (rm_buckets m)[?h := Some (b\<lparr>bk_el := (bk_el b)[i := ?e]\<rparr>)], rm_nelem := length (?e # entries m)\<rparr>)"
    unfolding insert_no_rehash_def Let_def using k h b(1,2) using n by simp
  then show ?thesis using r by simp
qed

text \<open>The map as a finite map.\<close>

lemma the_elem_of_ok: "map_ok m \<Longrightarrow> the_elem_of m key = Some e \<longleftrightarrow> e \<in> set (entries m) \<and> el_key e = key"
  by (rule the_elem_of_iff) (simp add: map_ok_def)

lemma the_elem_of_None: "the_elem_of m key = None \<longleftrightarrow> key \<notin> el_key ` set (entries m)"
  by (auto simp: the_elem_of_def map_of_eq_None_iff image_image)

lemma the_elem_of_mset:
  assumes "map_ok m" "map_ok m'" "mset (entries m') = mset (entries m)" shows "the_elem_of m' = the_elem_of m"
proof
  fix key
  have "set (entries m') = set (entries m)" using assms(3) by (rule mset_eq_setD)
  then have "the_elem_of m' key = Some e \<longleftrightarrow> the_elem_of m key = Some e" for e using assms by (simp add: the_elem_of_ok)
  then show "the_elem_of m' key = the_elem_of m key" by (metis not_None_eq)
qed

lemma the_elem_of_add:
  assumes "map_ok m" "map_ok m'" "mset (entries m') = add_mset e (mset (entries m))"
  shows "the_elem_of m' = (the_elem_of m)(el_key e \<mapsto> e)"
proof
  fix key
  have s: "set (entries m') = insert e (set (entries m))" using assms(3) by (metis set_mset_mset set_mset_add_mset_insert)
  have "distinct (map el_key (entries m'))" using assms(2) by (simp add: map_ok_def)
  moreover have "mset (map el_key (entries m')) = mset (map el_key (e # entries m))" using assms(3) by simp
  ultimately have d: "distinct (map el_key (e # entries m))" using mset_eq_imp_distinct_iff by blast
  have "the_elem_of m' key = Some x \<longleftrightarrow> ((the_elem_of m)(el_key e \<mapsto> e)) key = Some x" for x
    using d assms(1,2) by (cases "key = el_key e") (auto simp: the_elem_of_ok s image_iff)
  then show "the_elem_of m' key = ((the_elem_of m)(el_key e \<mapsto> e)) key" by (metis not_None_eq)
qed

subsection \<open>Rehashing\<close>

lemma scan_ok: "zero_tail es \<Longrightarrow> scan es = Some (live_elems es)"
proof (erule live_split)
  fix zs assume *: "es = live_elems es @ zs" "zs \<noteq> []" "\<forall>e\<in>set zs. el_key e = 0" "\<forall>e\<in>set (live_elems es). el_key e \<noteq> 0"
  have "\<forall>e\<in>set xs. el_key e \<noteq> 0 \<Longrightarrow> scan (xs @ zs) = Some xs" for xs
  proof (induction xs)
    case Nil
    obtain z zs' where "zs = z # zs'" using *(2) by (cases zs) auto
    then show ?case using *(3) by simp
  qed simp
  then show "scan es = Some (live_elems es)" using * by metis
qed

lemma bucket_ok_scan: "bucket_ok nb h (Some b) \<Longrightarrow> scan (bk_el b) = Some (live_elems (bk_el b))"
  by (rule scan_ok) (simp add: bucket_ok_def)

lemma insert_elems_append:
  "insert_elems (xs @ ys) m = (case insert_elems xs m of None \<Rightarrow> None | Some m \<Rightarrow> insert_elems ys m)"
  by (induction xs arbitrary: m) (auto simp: bind_eq_None_conv split: option.splits bind_splits)

lemma insert_buckets_elems:
  "\<forall>bp\<in>set bs. \<forall>b. bp = Some b \<longrightarrow> scan (bk_el b) = Some (live_elems (bk_el b)) \<Longrightarrow>
   insert_buckets bs m = insert_elems (concat (map bucket_elems bs)) m"
proof (induction bs arbitrary: m)
  case (Cons bp bs)
  then show ?case by (cases bp) (auto simp: bucket_elems_def insert_elems_append split: option.splits bind_splits)
qed simp

lemma insert_elems_ok:
  assumes "map_ok m" "distinct (map el_key (es @ entries m))" "\<forall>e\<in>set es. el_key e \<noteq> 0 \<and> el_view e \<noteq> 0"
  shows "\<exists>m'. insert_elems es m = Some m' \<and> map_ok m' \<and> mset (entries m') = mset es + mset (entries m) \<and>
    rm_nbuckets m' = rm_nbuckets m \<and> rm_merging m' = rm_merging m \<and> rm_is_leftmost m' = rm_is_leftmost m"
  using assms
proof (induction es arbitrary: m)
  case (Cons e es)
  have k: "el_key e \<noteq> 0" "el_view e \<noteq> 0" "el_key e \<notin> el_key ` set (entries m)" using Cons.prems by auto
  obtain m1 where m1: "insert_no_rehash (el_key e) (el_hb e) (el_view e) m = Some m1" "map_ok m1"
    "mset (entries m1) = add_mset e (mset (entries m))"
    "rm_nbuckets m1 = rm_nbuckets m" "rm_merging m1 = rm_merging m" "rm_is_leftmost m1 = rm_is_leftmost m"
    using insert_no_rehash_ok [OF Cons.prems(1) k, of "el_hb e"] by auto
  have "mset (map el_key (es @ entries m1)) = mset (map el_key ((e # es) @ entries m))" using m1(3) by simp
  then have "distinct (map el_key (es @ entries m1))" using Cons.prems(2) mset_eq_imp_distinct_iff by blast
  then obtain m' where "insert_elems es m1 = Some m'" "map_ok m'" "mset (entries m') = mset es + mset (entries m1)"
    "rm_nbuckets m' = rm_nbuckets m1" "rm_merging m' = rm_merging m1" "rm_is_leftmost m' = rm_is_leftmost m1"
    using Cons.IH [OF m1(2)] Cons.prems(3) by auto
  then show ?case using m1 by simp
qed simp

lemma make_buckets_ok:
  assumes "j \<le> 60"
  shows "\<exists>m'. make_buckets (2 ^ j) m = Some m' \<and> map_ok m' \<and> entries m' = [] \<and> rm_nbuckets m' = 2 ^ j \<and>
    rm_merging m' = rm_merging m \<and> rm_is_leftmost m' = rm_is_leftmost m"
proof -
  have e: "bucket_elems None = []" by (simp add: bucket_elems_def)
  have "concat (map bucket_elems (replicate n None)) = []" for n by (induction n) (simp_all add: e)
  then have "entries (m\<lparr>rm_nbuckets := 2 ^ j, rm_buckets := replicate (2 ^ j) None, rm_nelem := 0\<rparr>) = []" (is "entries ?m = []")
    using e by (simp add: entries_def)
  then have "map_ok ?m" using assms by (auto simp: map_ok_def bucket_ok_def)
  then show ?thesis using power_of_2 [OF assms] \<open>entries ?m = []\<close> by (simp add: make_buckets_def)
qed

lemma rehash_ok:
  assumes m: "map_ok m" "rm_nelem m < 2 ^ 58" "need_rehash_p m"
  shows "\<exists>m'. rehash m = Some m' \<and> map_ok m' \<and> mset (entries m') = mset (entries m) \<and>
    rm_nbuckets m' = 2 * rm_nbuckets m \<and> rm_merging m' = rm_merging m \<and> rm_is_leftmost m' = rm_is_leftmost m"
proof -
  obtain j where j: "j \<le> 60" "rm_nbuckets m = 2 ^ j" using map_ok_nb [OF m(1)] by metis
  have "minsz (rm_nelem m) < 2 ^ 60" using m(2) by (simp add: minsz_def)
  then have "(2::nat) ^ j < 2 ^ 60" using m(3) j(2) by (simp add: need_rehash_p_def)
  then have "j < 60" by (simp only: power_strict_increasing_iff)
  then have j1: "Suc j \<le> 60" by simp
  obtain m1 where m1: "make_buckets (nextsz (rm_nbuckets m)) m = Some m1" "map_ok m1" "entries m1 = []"
    "rm_nbuckets m1 = 2 * rm_nbuckets m" "rm_merging m1 = rm_merging m" "rm_is_leftmost m1 = rm_is_leftmost m"
    using make_buckets_ok [OF j1, of m] j(2) by (auto simp: nextsz_def)
  have "scan (bk_el b) = Some (live_elems (bk_el b))" if b: "Some b \<in> set (rm_buckets m)" for b
  proof -
    obtain h where "h < length (rm_buckets m)" "rm_buckets m ! h = Some b" using iffD1 [OF in_set_conv_nth b] by blast
    then show ?thesis using map_ok_bucket [OF m(1), of h] m(1) bucket_ok_scan by (simp add: map_ok_def)
  qed
  then have ib: "insert_buckets (rm_buckets m) m1 = insert_elems (entries m) m1"
    unfolding entries_def by (intro insert_buckets_elems) auto
  have d: "distinct (map el_key (entries m @ entries m1))" using m(1) m1(3) by (simp add: map_ok_def)
  have v: "\<forall>e\<in>set (entries m). el_key e \<noteq> 0 \<and> el_view e \<noteq> 0" using m(1) entries_keys entries_view by blast
  obtain m' where m': "insert_elems (entries m) m1 = Some m'" "map_ok m'" "mset (entries m') = mset (entries m)"
    "rm_nbuckets m' = rm_nbuckets m1" "rm_merging m' = rm_merging m1" "rm_is_leftmost m' = rm_is_leftmost m1"
    using insert_elems_ok [OF m1(2) d v] m1(3) by auto
  have "rm_nelem m' = rm_nelem m" using m'(2,3) m(1) mset_eq_length by (metis map_ok_def)
  then show ?thesis using m1 m' ib by (simp add: rehash_def)
qed

text \<open>The load of the buckets: one bucket for an element, and eight for nine.\<close>

definition load_ok :: "cilkred_map \<Rightarrow> bool" where
  "load_ok m \<longleftrightarrow> rm_nelem m = 0 \<or> minsz (rm_nelem m - 1) \<le> rm_nbuckets m"

lemma load_double: "load_ok m \<Longrightarrow> 0 < rm_nbuckets m \<Longrightarrow> minsz (rm_nelem m) \<le> 2 * rm_nbuckets m"
  by (cases "rm_nelem m") (auto simp: load_ok_def minsz_def)

lemma rehash_and_insert_ok:
  assumes m: "map_ok m" "rm_nelem m < 2 ^ 58" and k: "key \<noteq> 0" "view \<noteq> 0" "key \<notin> el_key ` set (entries m)"
  obtains m' where "rehash_and_insert key hb view m = Some m'" "map_ok m'"
    "mset (entries m') = add_mset \<lparr>el_key = key, el_hb = hb, el_view = view\<rparr> (mset (entries m))"
    "load_ok m \<longrightarrow> load_ok m'" "rm_merging m' = rm_merging m" "rm_is_leftmost m' = rm_is_leftmost m"
proof -
  obtain m1 where m1: "(if need_rehash_p m then rehash m else Some m) = Some m1" "map_ok m1" "mset (entries m1) = mset (entries m)"
    "rm_merging m1 = rm_merging m" "rm_is_leftmost m1 = rm_is_leftmost m" "load_ok m \<Longrightarrow> minsz (rm_nelem m) \<le> rm_nbuckets m1"
  proof (cases "need_rehash_p m")
    case True
    have "0 < rm_nbuckets m" using map_ok_nb [OF m(1)] by (metis zero_less_numeral zero_less_power)
    note ld = load_double [OF _ this]
    obtain m1 where m1: "rehash m = Some m1" "map_ok m1" "mset (entries m1) = mset (entries m)"
      "rm_nbuckets m1 = 2 * rm_nbuckets m" "rm_merging m1 = rm_merging m" "rm_is_leftmost m1 = rm_is_leftmost m"
      using rehash_ok [OF m True] by blast
    show thesis by (rule that [of m1]) (use m1 True ld in simp_all)
  next
    case False
    then show thesis using that [of m] m(1) by (simp add: need_rehash_p_def)
  qed
  have key: "key \<notin> el_key ` set (entries m1)" using k(3) m1(3) by (metis mset_eq_setD)
  obtain m' where m': "insert_no_rehash key hb view m1 = Some m'" "map_ok m'"
    "mset (entries m') = add_mset \<lparr>el_key = key, el_hb = hb, el_view = view\<rparr> (mset (entries m1))"
    "rm_nbuckets m' = rm_nbuckets m1" "rm_merging m' = rm_merging m1" "rm_is_leftmost m' = rm_is_leftmost m1"
    using insert_no_rehash_ok [OF m1(2) k(1,2) key, of hb] by blast
  have "rm_nelem m' = Suc (length (entries m))"
    using m'(2) mset_eq_length [of "entries m'" "\<lparr>el_key = key, el_hb = hb, el_view = view\<rparr> # entries m"] m'(3) m1(3)
    by (simp add: map_ok_def)
  then have "load_ok m \<longrightarrow> load_ok m'" using m1(6) m'(4) m(1) by (simp add: load_ok_def map_ok_def)
  then show thesis using that [of m'] m' m1 unfolding rehash_and_insert_def by simp
qed

subsection \<open>Lookup\<close>

lemma lookup_el_ok:
  assumes "\<forall>e\<in>set xs. el_key e \<noteq> 0 \<and> el_view e \<noteq> 0" "z # zs' = zs" "el_key z = 0"
  shows "(key \<notin> el_key ` set xs \<longrightarrow> lookup_el key (xs @ zs) = Some None) \<and>
    (key \<in> el_key ` set xs \<longrightarrow> (\<exists>i<length xs. lookup_el key (xs @ zs) = Some (Some i) \<and> el_key (xs ! i) = key))"
  using assms(1)
proof (induction xs)
  case Nil
  show ?case using assms(2,3) by auto
next
  case (Cons x xs)
  show ?case
  proof (cases "el_key x = key")
    case True
    then show ?thesis using Cons.prems by auto
  next
    case False
    have IH: "(key \<notin> el_key ` set xs \<longrightarrow> lookup_el key (xs @ zs) = Some None) \<and>
      (key \<in> el_key ` set xs \<longrightarrow> (\<exists>i<length xs. lookup_el key (xs @ zs) = Some (Some i) \<and> el_key (xs ! i) = key))"
      using Cons by simp
    then show ?thesis
    proof (cases "key \<in> el_key ` set xs")
      case True
      then obtain i where "i < length xs" "lookup_el key (xs @ zs) = Some (Some i)" "el_key (xs ! i) = key" using IH by blast
      then show ?thesis using Cons.prems False True by (auto intro!: exI [of _ "Suc i"])
    next
      case nin: False
      then have "lookup_el key (xs @ zs) = Some None" using IH by blast
      then show ?thesis using Cons.prems False nin by auto
    qed
  qed
qed

lemma rm_lookup_ok:
  assumes m: "map_ok m" and k: "key \<noteq> 0"
  shows "the_elem_of m key = None \<Longrightarrow> rm_lookup key m = Some None"
    and "the_elem_of m key = Some e \<Longrightarrow> \<exists>h i b xs zs. rm_lookup key m = Some (Some (h, i)) \<and> h < rm_nbuckets m \<and>
      rm_buckets m ! h = Some b \<and> bk_el b = xs @ zs \<and> xs = live_elems (bk_el b) \<and> i < length xs \<and> xs ! i = e"
proof -
  let ?h = "hashfun (rm_nbuckets m) key"
  obtain j where j: "rm_nbuckets m = 2 ^ j" "length (rm_buckets m) = 2 ^ j" "?h < 2 ^ j" using map_ok_nb [OF m] by metis
  then have h: "?h < rm_nbuckets m" "?h < length (rm_buckets m)" by simp_all
  have elems: "the_elem_of m key = Some e \<longleftrightarrow> e \<in> set (bucket_elems (rm_buckets m ! ?h)) \<and> el_key e = key" for e
    unfolding the_elem_of_ok [OF m] using entries_bucket [OF m] bucket_elems_in [OF h(2)] by metis
  have lk: "\<exists>xs zs. bk_el b = xs @ zs \<and> xs = live_elems (bk_el b) \<and> (key \<notin> el_key ` set xs \<longrightarrow> lookup_el key (bk_el b) = Some None) \<and>
    (key \<in> el_key ` set xs \<longrightarrow> (\<exists>i<length xs. lookup_el key (bk_el b) = Some (Some i) \<and> el_key (xs ! i) = key))"
    if b: "rm_buckets m ! ?h = Some b" for b
  proof -
    have ok: "bucket_ok (rm_nbuckets m) ?h (Some b)" using map_ok_bucket [OF m h(1)] b by simp
    then have zt: "zero_tail (bk_el b)" and v: "\<forall>e\<in>set (live_elems (bk_el b)). el_key e \<noteq> 0 \<and> el_view e \<noteq> 0"
      using live_elems_keys by (auto simp: bucket_ok_def)
    obtain zs where zs: "bk_el b = live_elems (bk_el b) @ zs" "zs \<noteq> []" "\<forall>x\<in>set zs. el_key x = 0" using live_split [OF zt] by metis
    obtain z zs' where z: "z # zs' = zs" "el_key z = 0" using zs(2,3) by (cases zs) auto
    show ?thesis using lookup_el_ok [OF v z, of key] zs(1) by metis
  qed
  show "rm_lookup key m = Some None" if none: "the_elem_of m key = None"
  proof (cases "rm_buckets m ! ?h")
    case (Some b)
    then obtain xs where "xs = live_elems (bk_el b)" "key \<notin> el_key ` set xs \<longrightarrow> lookup_el key (bk_el b) = Some None" using lk by blast
    moreover have "key \<notin> el_key ` set (live_elems (bk_el b))" using none elems Some by (fastforce simp: bucket_elems_def)
    ultimately show ?thesis using Some h by (simp add: rm_lookup_def)
  qed (use h in \<open>simp add: rm_lookup_def\<close>)
  show "\<exists>h i b xs zs. rm_lookup key m = Some (Some (h, i)) \<and> h < rm_nbuckets m \<and>
      rm_buckets m ! h = Some b \<and> bk_el b = xs @ zs \<and> xs = live_elems (bk_el b) \<and> i < length xs \<and> xs ! i = e"
    if some: "the_elem_of m key = Some e"
  proof -
    have e: "e \<in> set (bucket_elems (rm_buckets m ! ?h))" "el_key e = key" using elems [of e] some by blast+
    then obtain b where b: "rm_buckets m ! ?h = Some b" "e \<in> set (live_elems (bk_el b))" by (cases "rm_buckets m ! ?h") (auto simp: bucket_elems_def)
    obtain xs zs where xs: "bk_el b = xs @ zs" "xs = live_elems (bk_el b)"
      "key \<in> el_key ` set xs \<longrightarrow> (\<exists>i<length xs. lookup_el key (bk_el b) = Some (Some i) \<and> el_key (xs ! i) = key)"
      using lk [OF b(1)] by blast
    have "key \<in> el_key ` set xs" using xs(2) b(2) e(2) by blast
    then obtain i where i: "i < length xs" "lookup_el key (bk_el b) = Some (Some i)" "el_key (xs ! i) = key" using xs(3) by blast
    have "bucket_elems (rm_buckets m ! ?h) = xs" by (simp only: b(1) bucket_elems_def option.case xs(2))
    then have "xs ! i \<in> set (bucket_elems (rm_buckets m ! ?h))" using i(1) nth_mem by metis
    then have "xs ! i = e" using elems [of "xs ! i"] some i(3) by simp
    moreover have "rm_lookup key m = Some (Some (?h, i))" using i(2) b(1) h by (simp add: rm_lookup_def)
    ultimately show ?thesis using i(1) b(1) xs(1,2) h(1) by blast
  qed
qed

end
