(* ===== verification/Reducer_Ops.thy ===== *)
theory Reducer_Ops
  imports Reducer_Inv
begin

text \<open>
  The operations on a reducer as operations on a finite map: storing into an element, creating, looking up and destroying
  a reducer, and the check of a map.
\<close>

subsection \<open>Storing into an element\<close>

lemma length_entries: "map_ok m \<Longrightarrow> rm_nelem m = length (entries m)"
  by (simp add: map_ok_def)

lemma distinct_entries: "map_ok m \<Longrightarrow> distinct (map el_key (entries m))"
  by (simp add: map_ok_def)

lemma same_key: "map_ok m \<Longrightarrow> e \<in> set (entries m) \<Longrightarrow> e' \<in> set (entries m) \<Longrightarrow> el_key e = el_key e' \<Longrightarrow> e = e'"
  using distinct_entries by (auto simp: distinct_map dest: inj_onD)

lemma lookup_at:
  assumes m: "map_ok m" "key \<noteq> 0" "the_elem_of m key = Some e"
  obtains h i b xs zs where "rm_lookup key m = Some (Some (h, i))" "h < rm_nbuckets m" "rm_buckets m ! h = Some b"
    "bk_el b = xs @ e # zs" "i = length xs" "live_elems (bk_el b) = xs @ e # live_elems zs" "zero_tail zs" "\<forall>x\<in>set xs. el_key x \<noteq> 0"
    "elem_at (h, i) m = Some e" "el_key e = key"
proof -
  obtain h i b es zs where l: "rm_lookup key m = Some (Some (h, i))" "h < rm_nbuckets m" "rm_buckets m ! h = Some b"
    "bk_el b = es @ zs" "es = live_elems (bk_el b)" "i < length es" "es ! i = e"
    using rm_lookup_ok(2) [OF m] by blast
  have "bucket_ok (rm_nbuckets m) h (Some b)" using map_ok_bucket [OF m(1) l(2)] l(3) by simp
  then have zt: "zero_tail (bk_el b)" by (simp add: bucket_ok_def)
  obtain zs' where zs': "bk_el b = live_elems (bk_el b) @ zs'" "zs' \<noteq> []" "\<forall>x\<in>set zs'. el_key x = 0"
    "\<forall>x\<in>set (live_elems (bk_el b)). el_key x \<noteq> 0" using live_split [OF zt] by metis
  have zz: "zs' = zs" using zs'(1) l(4,5) by (metis same_append_eq)
  define xs ys where "xs = take i es" and "ys = drop (Suc i) es"
  have "es = take i es @ es ! i # drop (Suc i) es" by (rule id_take_nth_drop [OF l(6)])
  then have es1: "es = xs @ e # ys" unfolding xs_def ys_def l(7) .
  have es2: "length xs = i" using l(6) unfolding xs_def by simp
  note es = es1 es2
  have k: "\<forall>x\<in>set es. el_key x \<noteq> 0" using zs'(4) l(5) by blast
  have y: "live_elems (ys @ zs) = ys" "zero_tail (ys @ zs)"
    by (rule live_append; use k es(1) zs'(2,3) zz in auto)+
  have be: "bk_el b = xs @ e # (ys @ zs)" using l(4) es(1) by simp
  have "live_elems (bk_el b) = xs @ e # live_elems (ys @ zs)" unfolding y(1) by (simp only: l(5) [symmetric] es(1))
  moreover have "elem_at (h, i) m = Some e" using l(3) be es(2) by (auto simp: elem_at_def)
  moreover have "el_key e = key" using m(1,3) by (simp add: the_elem_of_ok)
  ultimately show thesis using that [OF l(1-3) be es(2) [symmetric] _ y(2)] k es(1) by auto
qed

lemma set_elem_ok:
  assumes m: "map_ok m" and l: "h < rm_nbuckets m" "rm_buckets m ! h = Some b" "bk_el b = xs @ e # zs"
      "live_elems (bk_el b) = xs @ e # live_elems zs" "zero_tail zs" "\<forall>x\<in>set xs. el_key x \<noteq> 0"
    and e': "el_key e' = el_key e" "el_key e \<noteq> 0" "el_view e' \<noteq> 0"
  obtains m' where "set_elem (h, length xs) e' m = Some m'" "map_ok m'" "the_elem_of m' = (the_elem_of m)(el_key e \<mapsto> e')"
    "mset (entries m') + {#e#} = mset (entries m) + {#e'#}" "rm_merging m' = rm_merging m" "rm_is_leftmost m' = rm_is_leftmost m"
proof -
  let ?x = "Some (b\<lparr>bk_el := xs @ e' # zs\<rparr>)"
  obtain zs0 where z: "zs = live_elems zs @ zs0" "zs0 \<noteq> []" "\<forall>e\<in>set zs0. el_key e = 0" "\<forall>e\<in>set (live_elems zs). el_key e \<noteq> 0"
    by (rule live_split [OF l(5)])
  have lv: "live_elems ((xs @ e' # live_elems zs) @ zs0) = xs @ e' # live_elems zs" "zero_tail ((xs @ e' # live_elems zs) @ zs0)"
    by (rule live_append; use l(6) e' z in auto)+
  have eq: "xs @ e' # zs = (xs @ e' # live_elems zs) @ zs0" using z(1) by simp
  have lv': "live_elems (xs @ e' # zs) = xs @ e' # live_elems zs" "zero_tail (xs @ e' # zs)" unfolding eq by (rule lv)+
  have ok: "bucket_ok (rm_nbuckets m) h (Some b)" using map_ok_bucket [OF m l(1)] l(2) by simp
  have okx: "bucket_ok (rm_nbuckets m) h ?x"
    using ok l(3,4) e' lv' by (simp add: bucket_ok_def)
  have ein: "e \<in> set (entries m)"
    using bucket_elems_in [of h m e] l m by (simp add: bucket_elems_def map_ok_def)
  obtain as bs where ab: "entries m = as @ e # bs" using split_list [OF ein] by blast
  have ys: "mset (as @ e' # bs) + mset (bucket_elems (rm_buckets m ! h)) = mset (entries m) + mset (bucket_elems ?x)"
    "distinct (map el_key (as @ e' # bs))"
    using l(2,4) lv'(1) ab distinct_entries [OF m] e'(1) by (simp_all add: bucket_elems_def)
  note r = map_ok_replace [OF m l(1) okx ys]
  have n: "length (as @ e' # bs) = rm_nelem m" using length_entries [OF m] ab by simp
  let ?m = "m\<lparr>rm_buckets := (rm_buckets m)[h := ?x], rm_nelem := length (as @ e' # bs)\<rparr>"
  have s: "set_elem (h, length xs) e' m = Some ?m" using l(2,3) n by (simp add: set_elem_def)
  have mm: "mset (entries ?m) + {#e#} = mset (entries m) + {#e'#}" using r(2) ab by simp
  have se: "set (entries ?m) = set as \<union> {e'} \<union> set bs" using r(2) by (metis mset_eq_setD set_append list.set(2) Un_insert_right Un_assoc insert_is_Un)
  have d: "distinct (map el_key (as @ e # bs))" using distinct_entries [OF m] ab by simp
  have "the_elem_of ?m key = ((the_elem_of m)(el_key e \<mapsto> e')) key" for key
  proof -
    have "the_elem_of ?m key = Some x \<longleftrightarrow> ((the_elem_of m)(el_key e \<mapsto> e')) key = Some x" for x
      unfolding the_elem_of_ok [OF r(1)] se
      using d e'(1) by (cases "key = el_key e") (auto simp: the_elem_of_ok [OF m] ab image_iff)
    then show ?thesis by (metis not_None_eq)
  qed
  then have "the_elem_of ?m = (the_elem_of m)(el_key e \<mapsto> e')" by (rule ext)
  then show thesis using that [OF s r(1) _ mm] by simp
qed

subsection \<open>Removing an element\<close>

lemma shift_elems_ok:
  assumes "\<forall>x\<in>set xs. el_key x \<noteq> 0" "el_key z = 0"
  shows "shift_elems (e # xs @ z # zs) = Some (xs @ z # z # zs)"
  using assms by (induction xs arbitrary: e) auto

lemma hyper_destroy_ok:
  assumes m: "map_ok m" "\<not> rm_merging m" and k: "key \<noteq> 0" "key = get_hyperobject_key hb"
    and e: "the_elem_of m key = Some e" "el_view e = key"
  obtains m' where "hyper_destroy hb m vals = Some (m', vals)" "map_ok m'" "the_elem_of m' = (the_elem_of m)(key := None)"
    "rm_nelem m' = rm_nelem m - 1" "rm_merging m' = rm_merging m" "rm_is_leftmost m' = rm_is_leftmost m"
proof -
  obtain h i b xs zs where l: "rm_lookup key m = Some (Some (h, i))" "h < rm_nbuckets m" "rm_buckets m ! h = Some b"
    "bk_el b = xs @ e # zs" "i = length xs" "live_elems (bk_el b) = xs @ e # live_elems zs" "zero_tail zs" "\<forall>x\<in>set xs. el_key x \<noteq> 0"
    "elem_at (h, i) m = Some e" "el_key e = key"
    by (rule lookup_at [OF m(1) k(1) e(1)])
  obtain zs0 where z0: "zs = live_elems zs @ zs0" "zs0 \<noteq> []" "\<forall>e\<in>set zs0. el_key e = 0" "\<forall>e\<in>set (live_elems zs). el_key e \<noteq> 0"
    by (rule live_split [OF l(7)])
  then obtain z zs1 where z: "zs0 = z # zs1" by (cases zs0) auto
  have zz: "zs = live_elems zs @ z # zs1" using z0(1) z by simp
  have sh: "shift_elems (drop i (bk_el b)) = Some (live_elems zs @ z # z # zs1)"
  proof -
    have "drop i (bk_el b) = e # zs" using l(4,5) by simp
    also have "\<dots> = e # live_elems zs @ z # zs1" using zz by simp
    finally show ?thesis using shift_elems_ok [of "live_elems zs" z e zs1] z0(3,4) z by simp
  qed
  let ?els = "xs @ live_elems zs @ z # z # zs1"
  let ?x = "Some (b\<lparr>bk_el := ?els\<rparr>)"
  have lv: "live_elems ((xs @ live_elems zs) @ z # z # zs1) = xs @ live_elems zs" "zero_tail ((xs @ live_elems zs) @ z # z # zs1)"
    by (rule live_append; use l(8) z0(3,4) z in auto)+
  have ok: "bucket_ok (rm_nbuckets m) h (Some b)" using map_ok_bucket [OF m(1) l(2)] l(3) by simp
  have len: "length ?els = length (bk_el b)" using l(4) zz by (metis length_append length_Cons add_Suc_right)
  have okx: "bucket_ok (rm_nbuckets m) h ?x" using ok l(6) lv len by (simp add: bucket_ok_def)
  have ein: "e \<in> set (entries m)" using e(1) m(1) by (simp add: the_elem_of_ok)
  obtain as bs where ab: "entries m = as @ e # bs" using split_list [OF ein] by blast
  have ys: "mset (as @ bs) + mset (bucket_elems (rm_buckets m ! h)) = mset (entries m) + mset (bucket_elems ?x)"
    "distinct (map el_key (as @ bs))"
    using l(3,6) lv(1) ab distinct_entries [OF m(1)] by (simp_all add: bucket_elems_def)
  note r = map_ok_replace [OF m(1) l(2) okx ys]
  have n: "rm_nelem m - 1 = length (as @ bs)" using length_entries [OF m(1)] ab by simp
  let ?m = "m\<lparr>rm_buckets := (rm_buckets m)[h := ?x], rm_nelem := length (as @ bs)\<rparr>"
  have ti: "take i (bk_el b) = xs" using l(4,5) by simp
  have hd: "hyper_destroy hb m vals = Some (?m, vals)"
    using m(2) k(2) l(1,3,9,10) e(2) sh ti n by (simp add: hyper_destroy_def destroy_elem_def el_is_leftmost_def)
  have se: "set (entries ?m) = set (as @ bs)" using r(2) by (rule mset_eq_setD)
  have d: "distinct (map el_key (as @ e # bs))" using distinct_entries [OF m(1)] ab by simp
  have "the_elem_of ?m k = ((the_elem_of m)(key := None)) k" for k
  proof -
    have "the_elem_of ?m k = Some x \<longleftrightarrow> ((the_elem_of m)(key := None)) k = Some x" for x
      unfolding the_elem_of_ok [OF r(1)] se
      using d l(10) by (cases "k = key") (auto simp: the_elem_of_ok [OF m(1)] ab image_iff)
    then show ?thesis by (metis not_None_eq)
  qed
  then have "the_elem_of ?m = (the_elem_of m)(key := None)" by (rule ext)
  then show thesis using that [OF hd r(1)] n by simp
qed

text \<open>A reducer that is not in the map, or whose view there is not the leftmost one, cannot be destroyed.\<close>

lemma hyper_destroy_error:
  assumes "map_ok m" "get_hyperobject_key hb \<noteq> 0" "\<forall>e. the_elem_of m (get_hyperobject_key hb) = Some e \<longrightarrow> el_view e \<noteq> get_hyperobject_key hb"
  shows "hyper_destroy hb m vals = None"
proof (cases "the_elem_of m (get_hyperobject_key hb)")
  case None
  then show ?thesis using rm_lookup_ok(1) [OF assms(1,2)] by (simp add: hyper_destroy_def)
next
  case (Some e)
  obtain h i where "rm_lookup (get_hyperobject_key hb) m = Some (Some (h, i))" "elem_at (h, i) m = Some e" "el_key e = get_hyperobject_key hb"
    by (rule lookup_at [OF assms(1,2) Some])
  then show ?thesis using assms(3) Some by (auto simp: hyper_destroy_def el_is_leftmost_def)
qed

subsection \<open>Creating and looking up\<close>

lemma make_reducer_map_ok:
  "\<exists>m. make_reducer_map = Some m \<and> map_ok m \<and> entries m = [] \<and> load_ok m \<and> \<not> rm_merging m \<and> \<not> rm_is_leftmost m"
  using make_buckets_ok [of 0 "\<lparr>rm_nelem = 0, rm_nbuckets = 0, rm_buckets = [], rm_merging = False, rm_is_leftmost = False\<rparr>"]
  by (auto simp: make_reducer_map_def load_ok_def length_entries)

lemma nonmember: "the_elem_of m key = None \<Longrightarrow> key \<notin> el_key ` set (entries m)"
  by (simp add: the_elem_of_None)

lemma hyper_create_ok:
  assumes m: "map_ok m" "load_ok m" "rm_nelem m < 2 ^ 58" "\<not> rm_merging m" and k: "key \<noteq> 0" "key = get_hyperobject_key hb"
    and none: "the_elem_of m key = None"
  obtains m' where "hyper_create hb (Some m) = Some m'" "map_ok m'" "load_ok m'"
    "the_elem_of m' = (the_elem_of m)(key \<mapsto> \<lparr>el_key = key, el_hb = hb, el_view = key\<rparr>)"
    "rm_merging m' = rm_merging m" "rm_is_leftmost m' = rm_is_leftmost m"
proof -
  obtain m' where m': "rehash_and_insert key hb key m = Some m'" "map_ok m'"
    "mset (entries m') = add_mset \<lparr>el_key = key, el_hb = hb, el_view = key\<rparr> (mset (entries m))"
    "load_ok m \<longrightarrow> load_ok m'" "rm_merging m' = rm_merging m" "rm_is_leftmost m' = rm_is_leftmost m"
    by (rule rehash_and_insert_ok [where hb = hb, OF m(1,3) k(1) k(1) nonmember [OF none]])
  have "hyper_create hb (Some m) = Some m'"
    using m'(1) k(2) none m(4) rm_lookup_ok(1) [OF m(1) k(1) none] by (simp add: hyper_create_def the_map_def get_leftmost_view_def)
  then show thesis using that m'(2) m'(4) m(2) the_elem_of_add [OF m(1) m'(2,3)] m'(5,6) by simp
qed

lemma hyper_lookup_found:
  assumes "map_ok m" "\<not> rm_merging m" "get_hyperobject_key hb \<noteq> 0" "the_elem_of m (get_hyperobject_key hb) = Some e"
  shows "hyper_lookup identity_fn rep hb (Some m) vals = Some (el_view e, m, vals)"
proof -
  obtain h i where "rm_lookup (get_hyperobject_key hb) m = Some (Some (h, i))" "elem_at (h, i) m = Some e"
    by (rule lookup_at [OF assms(1,3,4)])
  then show ?thesis using assms(2) by (simp add: hyper_lookup_def the_map_def)
qed

lemma hyper_lookup_new:
  assumes m: "map_ok m" "load_ok m" "rm_nelem m < 2 ^ 58" "\<not> rm_merging m" and k: "key \<noteq> 0" "key = get_hyperobject_key hb" "rep \<noteq> 0"
    and none: "the_elem_of m key = None"
  defines "view \<equiv> (if rm_is_leftmost m then key else rep)"
  obtains m' where "hyper_lookup identity_fn rep hb (Some m) vals =
      Some (view, m', if rm_is_leftmost m then vals else vals(rep := Some (identity_fn hb)))"
    "map_ok m'" "load_ok m'" "the_elem_of m' = (the_elem_of m)(key \<mapsto> \<lparr>el_key = key, el_hb = hb, el_view = view\<rparr>)"
    "rm_merging m' = rm_merging m" "rm_is_leftmost m' = rm_is_leftmost m"
proof -
  have v: "view \<noteq> 0" using k by (simp add: view_def)
  obtain m' where m': "rehash_and_insert key hb view m = Some m'" "map_ok m'"
    "mset (entries m') = add_mset \<lparr>el_key = key, el_hb = hb, el_view = view\<rparr> (mset (entries m))"
    "load_ok m \<longrightarrow> load_ok m'" "rm_merging m' = rm_merging m" "rm_is_leftmost m' = rm_is_leftmost m"
    by (rule rehash_and_insert_ok [where hb = hb, OF m(1,3) k(1) v nonmember [OF none]])
  have "hyper_lookup identity_fn rep hb (Some m) vals =
      Some (view, m', if rm_is_leftmost m then vals else vals(rep := Some (identity_fn hb)))"
    using m'(1) k(2) none m(4) rm_lookup_ok(1) [OF m(1) k(1) none]
    by (auto simp: hyper_lookup_def the_map_def get_leftmost_view_def view_def Let_def)
  then show thesis using that m'(2) m'(4) m(2) the_elem_of_add [OF m(1) m'(2,3)] m'(5,6) by simp
qed

subsection \<open>The check\<close>

lemma check_buckets_ok:
  "\<forall>bp\<in>set bs. \<forall>b. bp = Some b \<longrightarrow> zero_tail (bk_el b) \<and> (\<forall>e\<in>set (live_elems (bk_el b)). el_view e \<noteq> 0) \<Longrightarrow>
   check_buckets allow_null bs = Some (length (concat (map bucket_elems bs)))"
proof (induction bs)
  case (Cons bp bs)
  then show ?case by (cases bp) (auto simp: bucket_elems_def scan_ok)
qed simp

lemma map_check_ok:
  assumes "map_ok m" shows "map_check allow_null m = Some ()"
proof -
  have "zero_tail (bk_el b) \<and> (\<forall>e\<in>set (live_elems (bk_el b)). el_view e \<noteq> 0)" if b: "Some b \<in> set (rm_buckets m)" for b
  proof -
    obtain h where "h < length (rm_buckets m)" "rm_buckets m ! h = Some b" using iffD1 [OF in_set_conv_nth b] by blast
    then show ?thesis using map_ok_bucket [OF assms, of h] assms by (simp add: map_ok_def bucket_ok_def)
  qed
  then have "check_buckets allow_null (rm_buckets m) = Some (length (entries m))"
    unfolding entries_def by (intro check_buckets_ok) auto
  then show ?thesis using length_entries [OF assms] by (simp add: map_check_def)
qed

end
