(* ===== verification/Reducer_Merge.thy ===== *)
theory Reducer_Merge
  imports Reducer_Ops
begin

text \<open>
  Merging the maps of two strands: every reducer ends with the value of the left strand reduced with the value of the right
  strand, in this order, whichever of the two maps survives.
\<close>

subsection \<open>Values and views\<close>

text \<open>The value of a reducer in a map.\<close>

definition vof :: "cilkred_map \<Rightarrow> 'v store \<Rightarrow> u64 \<Rightarrow> 'v option" where
  "vof m vals key = (case the_elem_of m key of None \<Rightarrow> None | Some e \<Rightarrow> vals (el_view e))"

text \<open>The views are separate objects; a view that is the leftmost one is the one of its own reducer.\<close>

definition apart :: "elem \<Rightarrow> elem \<Rightarrow> bool" where
  "apart x y \<longleftrightarrow> (el_view x = el_key y \<longrightarrow> el_key x = el_key y)"

definition sep :: "'v store \<Rightarrow> elem list \<Rightarrow> bool" where
  "sep vals es \<longleftrightarrow> distinct (map el_view es) \<and> (\<forall>e\<in>set es. vals (el_view e) \<noteq> None) \<and> (\<forall>x\<in>set es. \<forall>y\<in>set es. apart x y)"

lemma apart_refl [simp]: "apart x x"
  by (simp add: apart_def)

lemma sep_Nil [simp]: "sep vals []"
  by (simp add: sep_def)

lemma sep_Cons: "sep vals (e # es) \<longleftrightarrow> el_view e \<notin> el_view ` set es \<and> vals (el_view e) \<noteq> None \<and>
    (\<forall>x\<in>set es. apart e x \<and> apart x e) \<and> sep vals es"
  by (auto simp: sep_def)

lemma sep_mset: "mset es = mset es' \<Longrightarrow> sep vals es = sep vals es'"
proof -
  assume *: "mset es = mset es'"
  then have "mset (map el_view es) = mset (map el_view es')" by simp
  then have "distinct (map el_view es) = distinct (map el_view es')" by (rule mset_eq_imp_distinct_iff)
  then show ?thesis using mset_eq_setD [OF *] by (simp add: sep_def)
qed

lemma sep_dom: "sep vals es \<Longrightarrow> (\<forall>v. vals v \<noteq> None \<longrightarrow> vals' v \<noteq> None) \<Longrightarrow> sep vals' es"
  unfolding sep_def by blast

lemma sep_swap:
  assumes "sep vals (e # es)" "el_key e' = el_key e" "el_view e' = el_view e" shows "sep vals (e' # es)"
proof -
  have "apart e' x = apart e x" "apart x e' = apart x e" for x using assms(2,3) by (simp_all add: apart_def)
  then show ?thesis using assms by (simp add: sep_Cons)
qed

lemma sep_views:
  assumes "sep vals es" "x \<in> set es" "y \<in> set es"
  shows "el_view x = el_view y \<Longrightarrow> x = y" "apart x y" "vals (el_view x) \<noteq> None"
  using assms by (auto simp: sep_def distinct_map dest: inj_onD)

subsection \<open>The loops over the other map\<close>

fun merge_list :: "(hyper \<Rightarrow> 'v \<Rightarrow> 'v \<Rightarrow> 'v) \<Rightarrow> merge_kind \<Rightarrow> bool \<Rightarrow> elem list \<Rightarrow> cilkred_map \<times> 'v store \<Rightarrow>
    (elem list \<times> cilkred_map \<times> 'v store) option" where
  "merge_list reduce_fn kind lm [] mv = Some ([], mv)"
| "merge_list reduce_fn kind lm (e # es) mv =
     do { (e, mv) \<leftarrow> merge_elem reduce_fn kind lm e mv; (es, mv) \<leftarrow> merge_list reduce_fn kind lm es mv; Some (e # es, mv) }"

lemma merge_list_append:
  "merge_list f kind lm (xs @ ys) mv =
     do { (xs, mv) \<leftarrow> merge_list f kind lm xs mv; (ys, mv) \<leftarrow> merge_list f kind lm ys mv; Some (xs @ ys, mv) }"
proof (induction xs arbitrary: mv)
  case (Cons x xs)
  show ?case by (simp add: Cons.IH case_prod_unfold)
qed (simp add: case_prod_unfold)

lemma merge_elem_key: "merge_elem f kind lm e mv = Some (e', mv') \<Longrightarrow> el_key e' = el_key e"
  unfolding merge_elem_def
  by (cases kind) (auto simp: bind_eq_Some_conv Let_def split: prod.splits option.splits if_splits)

lemma merge_list_keys: "merge_list f kind lm es mv = Some (es', mv') \<Longrightarrow> map el_key es' = map el_key es"
  by (induction es arbitrary: mv es' mv') (auto simp: bind_eq_Some_conv dest: merge_elem_key)

lemma merge_elems_list:
  assumes "\<forall>e\<in>set xs. el_key e \<noteq> 0" "el_key z = 0"
  shows "merge_elems f kind lm (xs @ z # zs) mv = map_option (\<lambda>(es, mv). (es @ z # zs, mv)) (merge_list f kind lm xs mv)"
  using assms(1)
proof (induction xs arbitrary: mv)
  case (Cons x xs)
  show ?case using Cons.prems
    by (simp add: Cons.IH case_prod_unfold map_option_bind bind_map_option o_def)
qed (simp add: assms(2))

lemma bucket_elems_simps [simp]: "bucket_elems None = []" "bucket_elems (Some b) = live_elems (bk_el b)"
  by (simp_all add: bucket_elems_def)

lemma scan_append: "\<forall>e\<in>set xs. el_key e \<noteq> 0 \<Longrightarrow> el_key z = 0 \<Longrightarrow> scan (xs @ z # zs) = Some xs"
  by (induction xs) auto

lemma destroy_elems_append: "destroy_elems (xs @ ys) vals = destroy_elems ys (destroy_elems xs vals)"
  by (simp add: destroy_elems_def)

lemma merge_buckets_list:
  fixes mv mv' :: "cilkred_map \<times> 'v store"
  assumes "\<forall>bp\<in>set bs. \<forall>b. bp = Some b \<longrightarrow> zero_tail (bk_el b)"
    and "merge_list f kind lm (concat (map bucket_elems bs)) mv = Some (es, mv')"
  shows "\<exists>bs'. merge_buckets f kind lm bs mv = Some (bs', mv') \<and> (\<forall>vals :: 'v store. destroy_buckets bs' vals = Some (destroy_elems es vals))"
  using assms
proof (induction bs arbitrary: mv es)
  case Nil
  then show ?case by (simp add: destroy_elems_def)
next
  case (Cons bp bs)
  have zt: "\<forall>bp\<in>set bs. \<forall>b. bp = Some b \<longrightarrow> zero_tail (bk_el b)" using Cons.prems(1) by simp
  show ?case
  proof (cases bp)
    case None
    then have *: "merge_list f kind lm (concat (map bucket_elems bs)) mv = Some (es, mv')" using Cons.prems(2) by simp
    obtain bs1 where "merge_buckets f kind lm bs mv = Some (bs1, mv')" "\<forall>vals :: 'v store. destroy_buckets bs1 vals = Some (destroy_elems es vals)"
      using Cons.IH [OF zt *] by (elim exE conjE) (rule that)
    then show ?thesis using None by simp
  next
    case (Some b)
    have ztb: "zero_tail (bk_el b)" using Cons.prems(1) Some by simp
    obtain zs0 where zs: "bk_el b = live_elems (bk_el b) @ zs0" "zs0 \<noteq> []" "\<forall>x\<in>set zs0. el_key x = 0" "\<forall>x\<in>set (live_elems (bk_el b)). el_key x \<noteq> 0"
      by (rule live_split [OF ztb])
    define xs where "xs = live_elems (bk_el b)"
    obtain z zs' where z: "zs0 = z # zs'" "el_key z = 0" using zs(2,3) by (cases zs0) auto
    have b: "bk_el b = xs @ z # zs'" "\<forall>x\<in>set xs. el_key x \<noteq> 0" using zs z unfolding xs_def by simp_all
    obtain xs' mv1 es1 where s: "merge_list f kind lm xs mv = Some (xs', mv1)"
      "merge_list f kind lm (concat (map bucket_elems bs)) mv1 = Some (es1, mv')" "es = xs' @ es1"
      using Cons.prems(2) Some by (auto simp: xs_def [symmetric] merge_list_append bind_eq_Some_conv)
    obtain bs1 where bs1: "merge_buckets f kind lm bs mv1 = Some (bs1, mv')" "\<forall>vals :: 'v store. destroy_buckets bs1 vals = Some (destroy_elems es1 vals)"
      using Cons.IH [OF zt s(2)] by blast
    have "map el_key xs' = map el_key xs" using merge_list_keys [OF s(1)] .
    then have "el_key ` set xs' = el_key ` set xs" by (metis set_map)
    then have k: "\<forall>x\<in>set xs'. el_key x \<noteq> 0" using b(2) by (metis image_iff)
    have "merge_buckets f kind lm (bp # bs) mv = Some (Some (b\<lparr>bk_el := xs' @ z # zs'\<rparr>) # bs1, mv')"
      using merge_elems_list [OF b(2) z(2), of f kind lm zs' mv] s(1) bs1(1) by (simp add: Some b(1))
    moreover have "destroy_buckets (Some (b\<lparr>bk_el := xs' @ z # zs'\<rparr>) # bs1) vals = Some (destroy_elems es vals)" for vals :: "'v store"
      using bs1(2) scan_append [OF k z(2), of zs'] by (simp add: s(3) destroy_elems_append)
    ultimately show ?thesis by blast
  qed
qed

subsection \<open>One element\<close>

text \<open>The value of a reducer after the element \<open>e\<close> of the other map: \<open>x\<close> is its value in this map.\<close>

definition combine :: "(hyper \<Rightarrow> 'v \<Rightarrow> 'v \<Rightarrow> 'v) \<Rightarrow> merge_kind \<Rightarrow> bool \<Rightarrow> 'v store \<Rightarrow> 'v option \<Rightarrow> elem \<Rightarrow> 'v option" where
  "combine f kind lm vals x e =
     (case x of
        Some a \<Rightarrow> do { b \<leftarrow> vals (el_view e); Some (if kind = MERGE_INTO_RIGHT then f (el_hb e) b a else f (el_hb e) a b) }
      | None \<Rightarrow> (if lm \<and> el_key e \<noteq> el_view e then do { a \<leftarrow> vals (el_key e); b \<leftarrow> vals (el_view e); Some (f (el_hb e) a b) }
                else vals (el_view e)))"

text \<open>The element that is left behind can be destroyed.\<close>

definition dead :: "cilkred_map \<Rightarrow> elem list \<Rightarrow> elem \<Rightarrow> bool" where
  "dead m rest e \<longleftrightarrow> el_view e = 0 \<or> el_view e = el_key e \<or>
     el_view e \<notin> el_view ` set (entries m) \<union> el_view ` set rest \<union> el_key ` set rest"

definition step_ok :: "(hyper \<Rightarrow> 'v \<Rightarrow> 'v \<Rightarrow> 'v) \<Rightarrow> merge_kind \<Rightarrow> bool \<Rightarrow> elem \<Rightarrow> elem list \<Rightarrow> cilkred_map \<Rightarrow> 'v store \<Rightarrow>
    elem \<Rightarrow> cilkred_map \<Rightarrow> 'v store \<Rightarrow> bool" where
  "step_ok f kind lm e rest m vals e' m' vals' \<longleftrightarrow> map_ok m' \<and>
     (\<forall>k. vof m' vals' k = (if k = el_key e then combine f kind lm vals (vof m vals k) e else vof m vals k)) \<and>
     rm_is_leftmost m' = rm_is_leftmost m \<and> rm_merging m' = rm_merging m \<and>
     rm_nelem m' \<le> Suc (rm_nelem m) \<and> sep vals' (entries m' @ rest) \<and>
     (\<forall>x\<in>set rest. vals' (el_view x) = vals (el_view x) \<and> vals' (el_key x) = vals (el_key x)) \<and>
     (\<forall>v. vals v \<noteq> None \<longrightarrow> vals' v \<noteq> None) \<and> dead m' rest e' \<and> el_key e' = el_key e \<and>
     el_view ` set (entries m') \<subseteq> el_view ` set (entries m) \<union> {el_view e} \<union> (if lm then {el_key e} else {})"

lemma step_okI:
  assumes "map_ok m'" "vof m' vals' (el_key e) = combine f kind lm vals (vof m vals (el_key e)) e"
    "\<And>k. k \<noteq> el_key e \<Longrightarrow> vof m' vals' k = vof m vals k"
    "rm_is_leftmost m' = rm_is_leftmost m" "rm_merging m' = rm_merging m" "rm_nelem m' \<le> Suc (rm_nelem m)" "sep vals' (entries m' @ rest)"
    "\<And>x. x \<in> set rest \<Longrightarrow> vals' (el_view x) = vals (el_view x) \<and> vals' (el_key x) = vals (el_key x)"
    "\<And>v. vals v \<noteq> None \<Longrightarrow> vals' v \<noteq> None" "dead m' rest e'" "el_key e' = el_key e"
    "el_view ` set (entries m') \<subseteq> el_view ` set (entries m) \<union> {el_view e} \<union> (if lm then {el_key e} else {})"
  shows "step_ok f kind lm e rest m vals e' m' vals'"
  unfolding step_ok_def by (intro conjI allI ballI impI) (use assms in simp_all)

text \<open>The key is not in this map: the element moves.\<close>

lemma move_ok:
  assumes m: "map_ok m" "rm_nelem m < 2 ^ 58" and e: "el_key e \<noteq> 0" "el_view e \<noteq> 0"
    and sep: "sep vals (entries m @ e # rest)" and none: "the_elem_of m (el_key e) = None"
    and lm: "\<not> (lm \<and> get_leftmost_view (el_key e) \<noteq> el_view e)"
  obtains m' where "merge_elem f kind lm e (m, vals) = Some (e\<lparr>el_view := 0\<rparr>, m', vals)"
    "step_ok f kind lm e rest m vals (e\<lparr>el_view := 0\<rparr>) m' vals"
proof -
  obtain m' where m': "rehash_and_insert (el_key e) (el_hb e) (el_view e) m = Some m'" "map_ok m'"
    "mset (entries m') = add_mset \<lparr>el_key = el_key e, el_hb = el_hb e, el_view = el_view e\<rparr> (mset (entries m))"
    "rm_merging m' = rm_merging m" "rm_is_leftmost m' = rm_is_leftmost m"
    by (rule rehash_and_insert_ok [where hb = "el_hb e", OF m e nonmember [OF none]])
  have ms: "mset (entries m') = mset (e # entries m)" using m'(3) by simp
  have el: "the_elem_of m' = (the_elem_of m)(el_key e \<mapsto> e)" using the_elem_of_add [OF m(1) m'(2)] ms by simp
  have se: "set (entries m') = insert e (set (entries m))" using mset_eq_setD [OF ms] by simp
  have "mset (entries m' @ rest) = mset (entries m @ e # rest)" using ms by simp
  then have sep': "sep vals (entries m' @ rest)" using sep sep_mset by blast
  have n: "rm_nelem m' = Suc (rm_nelem m)" using mset_eq_length [OF ms] by (simp add: length_entries m(1) m'(2))
  have "merge_elem f kind lm e (m, vals) = Some (e\<lparr>el_view := 0\<rparr>, m', vals)"
    using e none lm rm_lookup_ok(1) [OF m(1) e(1) none] m'(1) by (auto simp: merge_elem_def Let_def)
  moreover have "step_ok f kind lm e rest m vals (e\<lparr>el_view := 0\<rparr>) m' vals"
    by (rule step_okI) (use m' n sep' none lm in \<open>auto simp: vof_def el combine_def get_leftmost_view_def dead_def se\<close>)
  ultimately show thesis by (rule that)
qed

text \<open>The key is in both maps: the view of the left one gets the product.\<close>

lemma into_left_ok:
  assumes m: "map_ok m" and e: "el_key e \<noteq> 0" "el_view e \<noteq> 0" and d: "\<forall>x\<in>set rest. el_key x \<noteq> el_key e"
    and sep: "sep vals (entries m @ e # rest)" and x: "the_elem_of m (el_key e) = Some x"
  obtains vals' where "merge_elem f MERGE_INTO_LEFT lm e (m, vals) = Some (e, m, vals')"
    "step_ok f MERGE_INTO_LEFT lm e rest m vals e m vals'"
proof -
  obtain h i where l: "rm_lookup (el_key e) m = Some (Some (h, i))" "elem_at (h, i) m = Some x"
    by (rule lookup_at [OF m e(1) x])
  have xin: "x \<in> set (entries m)" "el_key x = el_key e" using x m by (simp_all add: the_elem_of_ok)
  note sv = sep_views [OF sep]
  obtain a b where ab: "vals (el_view x) = Some a" "vals (el_view e) = Some b"
    using sv(3) [of x x] sv(3) [of e e] xin by auto
  define vals' where "vals' = vals(el_view x := Some (f (el_hb e) a b))"
  have "merge_elem f MERGE_INTO_LEFT lm e (m, vals) = Some (e, m, vals')"
    using e l ab by (simp add: merge_elem_def Let_def reduce_views_def vals'_def)
  moreover have "step_ok f MERGE_INTO_LEFT lm e rest m vals e m vals'"
  proof (rule step_okI)
    show "vof m vals' (el_key e) = combine f MERGE_INTO_LEFT lm vals (vof m vals (el_key e)) e"
      using x ab by (simp add: vof_def combine_def vals'_def)
    show "vof m vals' k = vof m vals k" if k: "k \<noteq> el_key e" for k
    proof (cases "the_elem_of m k")
      case (Some y)
      then have "y \<in> set (entries m)" "el_key y = k" using m by (simp_all add: the_elem_of_ok)
      then have "el_view y \<noteq> el_view x" using sv(1) [of y x] xin k by auto
      then show ?thesis using Some by (simp add: vof_def vals'_def)
    qed (simp add: vof_def)
    show "sep vals' (entries m @ rest)"
    proof (rule sep_dom)
      have "mset (e # entries m @ rest) = mset (entries m @ e # rest)" by simp
      then have "sep vals (e # entries m @ rest)" using sep sep_mset by blast
      then show "sep vals (entries m @ rest)" by (simp add: sep_Cons)
    qed (simp add: vals'_def)
    show "vals' (el_view y) = vals (el_view y) \<and> vals' (el_key y) = vals (el_key y)" if y: "y \<in> set rest" for y
    proof -
      have "x \<noteq> y" using d y xin by auto
      then have "el_view x \<noteq> el_view y" using sv(1) [of x y] xin y by auto
      moreover have "el_view x \<noteq> el_key y" using sv(2) [of x y] xin y d by (auto simp: apart_def)
      ultimately show ?thesis by (simp add: vals'_def)
    qed
    show "dead m rest e"
    proof -
      have "el_view e \<notin> el_view ` set rest" "el_view e \<notin> el_view ` set (entries m)"
        using sep by (auto simp: sep_def)
      moreover have "el_view e \<notin> el_key ` set rest" using sv(2) [of e] d by (force simp: apart_def)
      ultimately show ?thesis by (simp add: dead_def)
    qed
  qed (use m in \<open>auto simp: vals'_def\<close>)
  ultimately show thesis by (rule that)
qed

text \<open>The key is in both maps and this map is the right one: the elements are swapped first.\<close>

lemma into_right_ok:
  assumes m: "map_ok m" and e: "el_key e \<noteq> 0" "el_view e \<noteq> 0" and d: "\<forall>x\<in>set rest. el_key x \<noteq> el_key e"
    and sep: "sep vals (entries m @ e # rest)" and x: "the_elem_of m (el_key e) = Some x"
  obtains m' vals' where "merge_elem f MERGE_INTO_RIGHT lm e (m, vals) = Some (e\<lparr>el_view := el_view x\<rparr>, m', vals')"
    "step_ok f MERGE_INTO_RIGHT lm e rest m vals (e\<lparr>el_view := el_view x\<rparr>) m' vals'"
proof -
  obtain h i bk xs zs where l: "rm_lookup (el_key e) m = Some (Some (h, i))" "h < rm_nbuckets m" "rm_buckets m ! h = Some bk"
    "bk_el bk = xs @ x # zs" "i = length xs" "live_elems (bk_el bk) = xs @ x # live_elems zs" "zero_tail zs" "\<forall>x\<in>set xs. el_key x \<noteq> 0"
    "elem_at (h, i) m = Some x" "el_key x = el_key e"
    by (rule lookup_at [OF m e(1) x])
  let ?x = "x\<lparr>el_view := el_view e\<rparr>"
  have x': "el_key ?x = el_key x" "el_key x \<noteq> 0" "el_view ?x \<noteq> 0" using l(10) e by simp_all
  obtain m' where m': "set_elem (h, length xs) ?x m = Some m'" "map_ok m'" "the_elem_of m' = (the_elem_of m)(el_key x \<mapsto> ?x)"
    "mset (entries m') + {#x#} = mset (entries m) + {#?x#}" "rm_merging m' = rm_merging m" "rm_is_leftmost m' = rm_is_leftmost m"
    by (rule set_elem_ok [OF m l(2-4) l(6-8) x'])
  have xin: "x \<in> set (entries m)" using x m by (simp add: the_elem_of_ok)
  obtain as bs where ab: "entries m = as @ x # bs" using split_list [OF xin] by blast
  have ms: "mset (entries m') = mset (?x # as @ bs)" using m'(4) ab by simp
  have se: "set (entries m') = insert ?x (set as \<union> set bs)" using mset_eq_setD [OF ms] by simp
  have n: "rm_nelem m' = rm_nelem m" using mset_eq_length [OF ms] ab by (simp add: length_entries m m'(2))
  note sv = sep_views [OF sep]
  obtain a b where v: "vals (el_view x) = Some a" "vals (el_view e) = Some b"
    using sv(3) [of x x] sv(3) [of e e] xin by auto
  define vals' where "vals' = vals(el_view e := Some (f (el_hb e) b a))"
  have "mset (x # e # as @ bs @ rest) = mset (entries m @ e # rest)" using ab by simp
  then have "sep vals (x # e # as @ bs @ rest)" using sep sep_mset by blast
  then have xs: "el_view x \<notin> el_view ` set (e # as @ bs @ rest)" and se1: "sep vals (e # as @ bs @ rest)"
    unfolding sep_Cons by blast+
  have "merge_elem f MERGE_INTO_RIGHT lm e (m, vals) = Some (e\<lparr>el_view := el_view x\<rparr>, m', vals')"
    using e l(1,5,9) m'(1) v by (simp add: merge_elem_def Let_def reduce_views_def vals'_def)
  moreover have "step_ok f MERGE_INTO_RIGHT lm e rest m vals (e\<lparr>el_view := el_view x\<rparr>) m' vals'"
  proof (rule step_okI)
    show "vof m' vals' (el_key e) = combine f MERGE_INTO_RIGHT lm vals (vof m vals (el_key e)) e"
      using x v l(10) by (simp add: vof_def combine_def vals'_def m'(3))
    show "vof m' vals' k = vof m vals k" if k: "k \<noteq> el_key e" for k
    proof (cases "the_elem_of m k")
      case (Some y)
      then have "y \<in> set (entries m)" "el_key y = k" using m by (simp_all add: the_elem_of_ok)
      then have "el_view y \<noteq> el_view e" using sv(1) [of y e] k by auto
      then show ?thesis using Some k l(10) by (simp add: vof_def vals'_def m'(3))
    next
      case None
      then show ?thesis using k l(10) by (simp add: vof_def m'(3))
    qed
    have "sep vals (?x # as @ bs @ rest)" by (rule sep_swap [OF se1]) (use l(10) in simp_all)
    moreover have "mset (?x # as @ bs @ rest) = mset (entries m' @ rest)" using ms by simp
    ultimately have "sep vals (entries m' @ rest)" using sep_mset by blast
    then show "sep vals' (entries m' @ rest)" by (rule sep_dom) (simp add: vals'_def)
    show "vals' (el_view y) = vals (el_view y) \<and> vals' (el_key y) = vals (el_key y)" if y: "y \<in> set rest" for y
    proof -
      have "e \<noteq> y" using d y by auto
      then have "el_view e \<noteq> el_view y" using sv(1) [of e y] y by auto
      moreover have "el_view e \<noteq> el_key y" using sv(2) [of e y] y d by (auto simp: apart_def)
      ultimately show ?thesis by (simp add: vals'_def)
    qed
    have "el_view x \<noteq> el_key y" if y: "y \<in> set rest" for y
    proof
      assume "el_view x = el_key y"
      then have "el_key x = el_key y" using sv(2) [of x y] xin y unfolding apart_def by simp
      then show False using d y l(10) by metis
    qed
    then have "el_view x \<notin> el_key ` set rest" by blast
    then show "dead m' rest (e\<lparr>el_view := el_view x\<rparr>)" using xs by (auto simp: dead_def se)
  qed (use m' n ab in \<open>auto simp: vals'_def se\<close>)
  ultimately show thesis by (rule that)
qed

text \<open>This map is the leftmost one and the key is not in it: the leftmost view goes into the map first.\<close>

lemma leftmost_ok:
  assumes m: "map_ok m" "rm_nelem m < 2 ^ 58" and e: "el_key e \<noteq> 0" "el_view e \<noteq> 0" and d: "\<forall>x\<in>set rest. el_key x \<noteq> el_key e"
    and sep: "sep vals (entries m @ e # rest)" and none: "the_elem_of m (el_key e) = None"
    and lm: "lm" "get_leftmost_view (el_key e) \<noteq> el_view e" "vals (el_key e) \<noteq> None"
  obtains m' vals' where "merge_elem f MERGE_INTO_LEFT lm e (m, vals) = Some (e, m', vals')"
    "step_ok f MERGE_INTO_LEFT lm e rest m vals e m' vals'"
proof -
  let ?x = "\<lparr>el_key = el_key e, el_hb = el_hb e, el_view = el_key e\<rparr>"
  obtain m' where m': "rehash_and_insert (el_key e) (el_hb e) (el_key e) m = Some m'" "map_ok m'"
    "mset (entries m') = add_mset ?x (mset (entries m))" "rm_merging m' = rm_merging m" "rm_is_leftmost m' = rm_is_leftmost m"
    by (rule rehash_and_insert_ok [where hb = "el_hb e", OF m e(1) e(1) nonmember [OF none]])
  have ms: "mset (entries m') = mset (?x # entries m)" using m'(3) by simp
  have el: "the_elem_of m' = (the_elem_of m)(el_key e \<mapsto> ?x)" using the_elem_of_add [OF m(1) m'(2,3)] by simp
  have se: "set (entries m') = insert ?x (set (entries m))" using mset_eq_setD [OF ms] by simp
  have n: "rm_nelem m' = Suc (rm_nelem m)" using mset_eq_length [OF ms] by (simp add: length_entries m(1) m'(2))
  have ex: "the_elem_of m' (el_key e) = Some ?x" using el by simp
  obtain h i where l: "rm_lookup (el_key e) m' = Some (Some (h, i))" "elem_at (h, i) m' = Some ?x"
    by (rule lookup_at [OF m'(2) e(1) ex])
  note sv = sep_views [OF sep]
  have ne: "el_key e \<noteq> el_view e" using lm(2) by (simp add: get_leftmost_view_def)
  obtain a b where v: "vals (el_key e) = Some a" "vals (el_view e) = Some b" using sv(3) [of e e] lm(3) by auto
  define vals' where "vals' = vals(el_key e := Some (f (el_hb e) a b))"
  have nokey: "\<forall>y\<in>set (entries m). el_key y \<noteq> el_key e" using nonmember [OF none] by (metis image_eqI)
  have free: "el_view y \<noteq> el_key e" if y: "y \<in> set (entries m @ e # rest)" for y
    using sv(2) [of y e] y nokey d ne by (auto simp: apart_def)
  have em: "merge_elem f MERGE_INTO_LEFT lm e (m, vals) = Some (e, m', vals')"
    using e none rm_lookup_ok(1) [OF m(1) e(1) none] m'(1) l lm(1,2) v
    by (simp add: merge_elem_def Let_def reduce_views_def vals'_def get_leftmost_view_def)
  have "mset (e # entries m @ rest) = mset (entries m @ e # rest)" by simp
  then have "sep vals (e # entries m @ rest)" using sep sep_mset by blast
  then have s1: "el_view e \<notin> el_view ` set (entries m @ rest)" "sep vals (entries m @ rest)"
    unfolding sep_Cons by blast+
  have "step_ok f MERGE_INTO_LEFT lm e rest m vals e m' vals'"
  proof (rule step_okI)
    show "vof m' vals' (el_key e) = combine f MERGE_INTO_LEFT lm vals (vof m vals (el_key e)) e"
      using none v lm(1) ne by (simp add: vof_def combine_def vals'_def el)
    show "vof m' vals' k = vof m vals k" if k: "k \<noteq> el_key e" for k
    proof (cases "the_elem_of m k")
      case (Some y)
      then have "y \<in> set (entries m)" using m by (simp add: the_elem_of_ok)
      then have "el_view y \<noteq> el_key e" using free by simp
      then show ?thesis using Some k by (simp add: vof_def vals'_def el)
    qed (use k in \<open>simp add: vof_def el\<close>)
    have ap: "apart ?x y \<and> apart y ?x" if y: "y \<in> set (entries m @ rest)" for y
    proof -
      have "el_view y \<noteq> el_key e" using free y by auto
      moreover have "el_key y \<noteq> el_key e" using y nokey d by auto
      ultimately show ?thesis by (auto simp: apart_def)
    qed
    have fv: "el_view ?x \<notin> el_view ` set (entries m @ rest)"
    proof
      assume "el_view ?x \<in> el_view ` set (entries m @ rest)"
      then obtain y where "y \<in> set (entries m @ rest)" "el_view y = el_key e" by (metis elem.select_convs(3) imageE)
      then show False using free [of y] by simp
    qed
    have "sep vals (?x # entries m @ rest)" unfolding sep_Cons by (intro conjI ballI) (use fv s1(2) v ap in auto)
    moreover have "mset (?x # entries m @ rest) = mset (entries m' @ rest)" using ms by simp
    ultimately have "sep vals (entries m' @ rest)" using sep_mset by blast
    then show "sep vals' (entries m' @ rest)" by (rule sep_dom) (simp add: vals'_def)
    show "vals' (el_view y) = vals (el_view y) \<and> vals' (el_key y) = vals (el_key y)" if y: "y \<in> set rest" for y
      using free [of y] d y by (auto simp: vals'_def)
    have "el_view e \<notin> el_key ` set rest" using sv(2) [of e] d by (force simp: apart_def)
    then show "dead m' rest e" using s1(1) ne by (auto simp: dead_def se)
  qed (use m' n lm(1) in \<open>auto simp: vals'_def se\<close>)
  then show thesis using that em by blast
qed

lemma merge_elem_ok:
  assumes m: "map_ok m" "rm_nelem m < 2 ^ 58" and e: "el_key e \<noteq> 0" "el_view e \<noteq> 0" and d: "\<forall>x\<in>set rest. el_key x \<noteq> el_key e"
    and sep: "sep vals (entries m @ e # rest)" and kind: "kind \<noteq> MERGE_UNORDERED"
    and lm: "lm \<longrightarrow> kind = MERGE_INTO_LEFT \<and> vals (el_key e) \<noteq> None"
  shows "\<exists>e' m' vals'. merge_elem f kind lm e (m, vals) = Some (e', m', vals') \<and> step_ok f kind lm e rest m vals e' m' vals'"
proof (cases "the_elem_of m (el_key e)")
  case (Some x)
  show ?thesis
  proof (cases kind)
    case MERGE_INTO_LEFT
    then show ?thesis using into_left_ok [OF m(1) e d sep Some] by metis
  next
    case MERGE_INTO_RIGHT
    then show ?thesis using into_right_ok [OF m(1) e d sep Some] by metis
  qed (use kind in simp)
next
  case None
  show ?thesis
  proof (cases "lm \<and> get_leftmost_view (el_key e) \<noteq> el_view e")
    case True
    then show ?thesis using leftmost_ok [OF m e d sep None, of lm f] lm by metis
  next
    case False
    then show ?thesis using move_ok [OF m e sep None False] by metis
  qed
qed

subsection \<open>All elements\<close>

lemma dead_step:
  assumes "dead m (rest) e" "el_view ` set (entries m') \<subseteq> el_view ` set (entries m) \<union> el_view ` set rest \<union> el_key ` set rest"
  shows "dead m' [] e"
  using assms by (auto simp: dead_def)

lemma merge_list_ok:
  assumes "map_ok m" "rm_nelem m + length es < 2 ^ 58" "\<forall>e\<in>set es. el_key e \<noteq> 0 \<and> el_view e \<noteq> 0" "distinct (map el_key es)"
    "sep vals (entries m @ es)" "kind \<noteq> MERGE_UNORDERED" "lm \<longrightarrow> kind = MERGE_INTO_LEFT \<and> (\<forall>e\<in>set es. vals (el_key e) \<noteq> None)"
  shows "\<exists>es' m' vals'. merge_list f kind lm es (m, vals) = Some (es', m', vals') \<and> map_ok m' \<and> sep vals' (entries m') \<and>
    rm_is_leftmost m' = rm_is_leftmost m \<and> rm_merging m' = rm_merging m \<and> (\<forall>e\<in>set es'. dead m' [] e) \<and>
    el_view ` set (entries m') \<subseteq> el_view ` set (entries m) \<union> el_view ` set es \<union> el_key ` set es \<and>
    (\<forall>k. vof m' vals' k = (case map_of (map (\<lambda>e. (el_key e, e)) es) k of
        None \<Rightarrow> vof m vals k | Some e \<Rightarrow> combine f kind lm vals (vof m vals k) e))"
  using assms
proof (induction es arbitrary: m vals)
  case (Cons e es)
  have e: "el_key e \<noteq> 0" "el_view e \<noteq> 0" "\<forall>x\<in>set es. el_key x \<noteq> el_key e"
  proof -
    have "el_key e \<notin> el_key ` set es" using Cons.prems(4) by simp
    then show "\<forall>x\<in>set es. el_key x \<noteq> el_key e" by (metis image_eqI)
  qed (use Cons.prems(3) in simp_all)
  have n: "rm_nelem m < 2 ^ 58" using Cons.prems(2) by simp
  have lm: "lm \<longrightarrow> kind = MERGE_INTO_LEFT \<and> vals (el_key e) \<noteq> None" using Cons.prems(7) by simp
  obtain e1 m1 vals1 where s: "merge_elem f kind lm e (m, vals) = Some (e1, m1, vals1)" "step_ok f kind lm e es m vals e1 m1 vals1"
    using merge_elem_ok [OF Cons.prems(1) n e Cons.prems(5,6) lm, of f] by blast
  note st = s(2) [unfolded step_ok_def]
  have m1: "map_ok m1" "sep vals1 (entries m1 @ es)" "rm_nelem m1 \<le> Suc (rm_nelem m)" using st by blast+
  have same: "\<forall>x\<in>set es. vals1 (el_view x) = vals (el_view x) \<and> vals1 (el_key x) = vals (el_key x)" using st by blast
  have v1: "vof m1 vals1 k = (if k = el_key e then combine f kind lm vals (vof m vals k) e else vof m vals k)" for k using st by blast
  have n1: "rm_nelem m1 + length es < 2 ^ 58" using m1(3) Cons.prems(2) by simp
  have k1: "\<forall>x\<in>set es. el_key x \<noteq> 0 \<and> el_view x \<noteq> 0" "distinct (map el_key es)" using Cons.prems(3,4) by simp_all
  have lm1: "lm \<longrightarrow> kind = MERGE_INTO_LEFT \<and> (\<forall>e\<in>set es. vals1 (el_key e) \<noteq> None)" using Cons.prems(7) same by simp
  obtain es' m' vals' where r: "merge_list f kind lm es (m1, vals1) = Some (es', m', vals')" "map_ok m'" "sep vals' (entries m')"
    "rm_is_leftmost m' = rm_is_leftmost m1" "rm_merging m' = rm_merging m1" "\<forall>e\<in>set es'. dead m' [] e"
    "el_view ` set (entries m') \<subseteq> el_view ` set (entries m1) \<union> el_view ` set es \<union> el_key ` set es"
    "\<forall>k. vof m' vals' k = (case map_of (map (\<lambda>e. (el_key e, e)) es) k of
        None \<Rightarrow> vof m1 vals1 k | Some e \<Rightarrow> combine f kind lm vals1 (vof m1 vals1 k) e)"
    using Cons.IH [OF m1(1) n1 k1 m1(2) Cons.prems(6) lm1] by (elim exE conjE) (rule that; assumption)
  have "vof m' vals' k = (case map_of (map (\<lambda>e. (el_key e, e)) (e # es)) k of
      None \<Rightarrow> vof m vals k | Some e \<Rightarrow> combine f kind lm vals (vof m vals k) e)" for k
  proof (cases "map_of (map (\<lambda>e. (el_key e, e)) es) k")
    case None
    then show ?thesis using r(8) v1 by simp
  next
    case (Some x)
    then have x: "x \<in> set es" "el_key x = k" by (auto dest: map_of_SomeD)
    then have "k \<noteq> el_key e" using e(3) by auto
    moreover have c: "vals1 (el_view x) = vals (el_view x)" "vals1 (el_key x) = vals (el_key x)" using same x(1) by blast+
    have "combine f kind lm vals1 y x = combine f kind lm vals y x" for y unfolding combine_def c by (rule refl)
    ultimately show ?thesis using r(8) v1 Some by simp
  qed
  moreover have "dead m' [] e1" by (rule dead_step [OF _ r(7)]) (use st in blast)
  moreover have "el_view ` set (entries m') \<subseteq> el_view ` set (entries m) \<union> el_view ` set (e # es) \<union> el_key ` set (e # es)"
  proof -
    have "el_view ` set (entries m1) \<subseteq> el_view ` set (entries m) \<union> {el_view e} \<union> {el_key e}" using st by (auto split: if_splits)
    then have "el_view ` set (entries m1) \<union> el_view ` set es \<union> el_key ` set es \<subseteq>
        el_view ` set (entries m) \<union> el_view ` set (e # es) \<union> el_key ` set (e # es)" by (simp only: list.set image_insert) blast
    with r(7) show ?thesis by (rule order_trans)
  qed
  moreover have "rm_is_leftmost m1 = rm_is_leftmost m" "rm_merging m1 = rm_merging m" using st by blast+
  ultimately show ?case using s(1) r(1-6) by simp
qed simp

subsection \<open>Two maps\<close>

lemma flags [simp]:
  "entries (m\<lparr>rm_merging := b\<rparr>) = entries m" "entries (m\<lparr>rm_is_leftmost := b\<rparr>) = entries m"
  "map_ok (m\<lparr>rm_merging := b\<rparr>) = map_ok m" "map_ok (m\<lparr>rm_is_leftmost := b\<rparr>) = map_ok m"
  "vof (m\<lparr>rm_merging := b\<rparr>) = vof m" "vof (m\<lparr>rm_is_leftmost := b\<rparr>) = vof m"
  by (auto simp: entries_def map_ok_def vof_def the_elem_of_def fun_eq_iff)

lemma destroy_dead:
  assumes "\<forall>e\<in>set es. dead m [] e" "x \<in> set (entries m)"
  shows "destroy_elems es vals (el_view x) = vals (el_view x)"
  using assms(1)
proof (induction es arbitrary: vals)
  case (Cons e es)
  have "dead m [] e" using Cons.prems by simp
  then have "el_view e = 0 \<or> el_view e = el_key e \<or> el_view e \<noteq> el_view x" using assms(2) by (auto simp: dead_def)
  then have "(if el_view e \<noteq> 0 then destroy_elem e vals else vals) (el_view x) = vals (el_view x)"
    by (auto simp: destroy_elem_def el_is_leftmost_def)
  then show ?case using Cons by (simp add: destroy_elems_def)
qed (simp add: destroy_elems_def)

lemma vof_cong:
  assumes "map_ok m" "\<And>x. x \<in> set (entries m) \<Longrightarrow> vals' (el_view x) = vals (el_view x)"
  shows "vof m vals' = vof m vals"
proof
  fix k show "vof m vals' k = vof m vals k"
  proof (cases "the_elem_of m k")
    case (Some x)
    then have "x \<in> set (entries m)" using assms(1) by (simp add: the_elem_of_ok)
    then show ?thesis using assms(2) Some by (simp add: vof_def)
  qed (simp add: vof_def)
qed

lemma sep_cong:
  assumes "\<And>x. x \<in> set es \<Longrightarrow> vals' (el_view x) = vals (el_view x)" "sep vals es" shows "sep vals' es"
  using assms unfolding sep_def by simp

lemma map_merge_ok:
  assumes "map_ok l" "map_ok r" "\<not> rm_is_leftmost r" "rm_nelem l + rm_nelem r < 2 ^ 58" "sep vals (entries l @ entries r)"
    "kind \<noteq> MERGE_UNORDERED" "rm_is_leftmost l \<longrightarrow> kind = MERGE_INTO_LEFT \<and> (\<forall>e\<in>set (entries r). vals (el_key e) \<noteq> None)"
  shows "\<exists>m vals'. map_merge f kind l r vals = Some (m, vals') \<and> map_ok m \<and> sep vals' (entries m) \<and>
    rm_is_leftmost m = rm_is_leftmost l \<and> \<not> rm_merging m \<and>
    (\<forall>k. vof m vals' k = (case the_elem_of r k of
        None \<Rightarrow> vof l vals k | Some e \<Rightarrow> combine f kind (rm_is_leftmost l) vals (vof l vals k) e))"
proof -
  let ?l = "l\<lparr>rm_merging := True\<rparr>"
  have zt: "\<forall>bp\<in>set (rm_buckets r). \<forall>b. bp = Some b \<longrightarrow> zero_tail (bk_el b)"
  proof (intro ballI allI impI)
    fix bp b assume b: "bp \<in> set (rm_buckets r)" "bp = Some b"
    obtain h where "h < length (rm_buckets r)" "rm_buckets r ! h = bp" using iffD1 [OF in_set_conv_nth b(1)] by blast
    then show "zero_tail (bk_el b)" using map_ok_bucket [OF assms(2), of h] assms(2) b(2) by (simp add: map_ok_def bucket_ok_def)
  qed
  have n: "rm_nelem ?l + length (entries r) < 2 ^ 58" using assms(4) length_entries [OF assms(2)] by simp
  have ev: "\<forall>e\<in>set (entries r). el_key e \<noteq> 0 \<and> el_view e \<noteq> 0" using entries_keys entries_view [OF assms(2)] by blast
  have s: "sep vals (entries ?l @ entries r)" using assms(5) by simp
  have okl: "map_ok ?l" using assms(1) by simp
  obtain es m vals1 where ml: "merge_list f kind (rm_is_leftmost l) (entries r) (?l, vals) = Some (es, m, vals1)" "map_ok m" "sep vals1 (entries m)"
    "rm_is_leftmost m = rm_is_leftmost ?l" "rm_merging m = rm_merging ?l" "\<forall>e\<in>set es. dead m [] e"
    "el_view ` set (entries m) \<subseteq> el_view ` set (entries ?l) \<union> el_view ` set (entries r) \<union> el_key ` set (entries r)"
    "\<forall>k. vof m vals1 k = (case map_of (map (\<lambda>e. (el_key e, e)) (entries r)) k of
        None \<Rightarrow> vof ?l vals k | Some e \<Rightarrow> combine f kind (rm_is_leftmost l) vals (vof ?l vals k) e)"
    using merge_list_ok [OF okl n ev distinct_entries [OF assms(2)] s assms(6,7), of f]
    by (elim exE conjE) (rule that; assumption)
  obtain bs where bs: "merge_buckets f kind (rm_is_leftmost l) (rm_buckets r) (?l, vals) = Some (bs, m, vals1)"
    "\<forall>vals :: 'a store. destroy_buckets bs vals = Some (destroy_elems es vals)"
    using merge_buckets_list [OF zt ml(1) [unfolded entries_def [of r]]] by (elim exE conjE) (rule that)
  let ?m = "m\<lparr>rm_is_leftmost := rm_is_leftmost m \<or> rm_is_leftmost r, rm_merging := False\<rparr>"
  define vals' where "vals' = destroy_elems es vals1"
  have d: "vals' (el_view x) = vals1 (el_view x)" if "x \<in> set (entries m)" for x
    unfolding vals'_def by (rule destroy_dead [OF ml(6) that])
  have "map_merge f kind l r vals = Some (?m, vals')"
    using assms(3) bs by (simp add: map_merge_def destroy_reducer_map_def vals'_def Let_def)
  moreover have "sep vals' (entries m)" by (rule sep_cong [where vals' = vals' and vals = vals1, OF d ml(3)])
  moreover have "vof ?m vals' k = (case the_elem_of r k of
        None \<Rightarrow> vof l vals k | Some e \<Rightarrow> combine f kind (rm_is_leftmost l) vals (vof l vals k) e)" for k
    using ml(8) [unfolded flags] vof_cong [where vals' = vals' and vals = vals1, OF ml(2) d] by (simp add: the_elem_of_def)
  ultimately show ?thesis using ml(2,4) assms(3) by (intro exI [of _ ?m] exI [of _ vals']) simp
qed

text \<open>What the value of a reducer is after a sync: the value of the left strand reduced with that of the right strand.  In
  the leftmost map a reducer that is not there has its leftmost view.\<close>

definition merged_value :: "(hyper \<Rightarrow> 'v \<Rightarrow> 'v \<Rightarrow> 'v) \<Rightarrow> cilkred_map \<Rightarrow> cilkred_map \<Rightarrow> 'v store \<Rightarrow> u64 \<Rightarrow> 'v option" where
  "merged_value f l r vals k =
     (case the_elem_of r k of
        None \<Rightarrow> vof l vals k
      | Some e \<Rightarrow>
          (case (case the_elem_of l k of Some x \<Rightarrow> Some (el_view x)
                 | None \<Rightarrow> if rm_is_leftmost l \<and> el_view e \<noteq> k then Some k else None) of
             None \<Rightarrow> vals (el_view e)
           | Some v \<Rightarrow> do { a \<leftarrow> vals v; b \<leftarrow> vals (el_view e); Some (f (el_hb e) a b) }))"

text \<open>Two maps that can meet at a sync.\<close>

definition mergeable :: "'v store \<Rightarrow> cilkred_map \<Rightarrow> cilkred_map \<Rightarrow> bool" where
  "mergeable vals l r \<longleftrightarrow> map_ok l \<and> map_ok r \<and> \<not> rm_is_leftmost r \<and> rm_nelem l + rm_nelem r < 2 ^ 58 \<and>
     sep vals (entries l @ entries r) \<and> (rm_is_leftmost l \<longrightarrow> (\<forall>e\<in>set (entries r). vals (el_key e) \<noteq> None)) \<and>
     (\<forall>x\<in>set (entries l). \<forall>y\<in>set (entries r). el_key x = el_key y \<longrightarrow> el_hb x = el_hb y)"

lemma merge_reducer_maps_ok:
  assumes "mergeable vals l r"
  shows "\<exists>m vals'. merge_reducer_maps f (Some l) (Some r) vals = Some (Some m, vals') \<and> map_ok m \<and> sep vals' (entries m) \<and>
    rm_is_leftmost m = rm_is_leftmost l \<and> (\<forall>k. vof m vals' k = merged_value f l r vals k)"
proof -
  have a: "map_ok l" "map_ok r" "\<not> rm_is_leftmost r" "rm_nelem l + rm_nelem r < 2 ^ 58" "sep vals (entries l @ entries r)"
    "rm_is_leftmost l \<longrightarrow> (\<forall>e\<in>set (entries r). vals (el_key e) \<noteq> None)"
    "\<forall>x\<in>set (entries l). \<forall>y\<in>set (entries r). el_key x = el_key y \<longrightarrow> el_hb x = el_hb y"
    using assms unfolding mergeable_def by blast+
  have val: "\<exists>v. vals (el_view x) = Some v" if "the_elem_of l k = Some x \<or> the_elem_of r k = Some x" for x k
    using that sep_views(3) [OF a(5), of x x] a(1,2) by (auto simp: the_elem_of_ok)
  show ?thesis
  proof (cases "rm_is_leftmost l \<or> rm_nelem l > rm_nelem r")
    case True
    have lm: "rm_is_leftmost l \<longrightarrow> MERGE_INTO_LEFT = MERGE_INTO_LEFT \<and> (\<forall>e\<in>set (entries r). vals (el_key e) \<noteq> None)" using a(6) by simp
    have ne: "MERGE_INTO_LEFT \<noteq> MERGE_UNORDERED" by simp
    obtain m vals' where m: "map_merge f MERGE_INTO_LEFT l r vals = Some (m, vals')" "map_ok m" "sep vals' (entries m)"
      "rm_is_leftmost m = rm_is_leftmost l" "\<not> rm_merging m"
      "\<forall>k. vof m vals' k = (case the_elem_of r k of
        None \<Rightarrow> vof l vals k | Some e \<Rightarrow> combine f MERGE_INTO_LEFT (rm_is_leftmost l) vals (vof l vals k) e)"
      using map_merge_ok [OF a(1-5) ne lm, of f] by (elim exE conjE) (rule that; assumption)
    have "vof m vals' k = merged_value f l r vals k" for k
    proof (cases "the_elem_of r k")
      case (Some e)
      have ek: "el_key e = k" using Some a(2) by (simp add: the_elem_of_ok)
      show ?thesis
      proof (cases "the_elem_of l k")
        case None
        then show ?thesis using Some m(6) ek by (auto simp: merged_value_def combine_def vof_def)
      next
        case x: (Some x)
        obtain v where "vals (el_view x) = Some v" using val x by blast
        then show ?thesis using Some m(6) x by (simp add: merged_value_def combine_def vof_def)
      qed
    qed (use m(6) in \<open>simp add: merged_value_def\<close>)
    then show ?thesis using True m by (intro exI [of _ m] exI [of _ vals']) (simp add: merge_reducer_maps_def)
  next
    case False
    have "mset (entries l @ entries r) = mset (entries r @ entries l)" by simp
    then have s: "sep vals (entries r @ entries l)" using a(5) sep_mset by blast
    have n: "rm_nelem r + rm_nelem l < 2 ^ 58" "\<not> rm_is_leftmost l" using a(4) False by simp_all
    have lm: "rm_is_leftmost r \<longrightarrow> MERGE_INTO_RIGHT = MERGE_INTO_LEFT \<and> (\<forall>e\<in>set (entries l). vals (el_key e) \<noteq> None)" using a(3) by simp
    have ne: "MERGE_INTO_RIGHT \<noteq> MERGE_UNORDERED" by simp
    obtain m vals' where m: "map_merge f MERGE_INTO_RIGHT r l vals = Some (m, vals')" "map_ok m" "sep vals' (entries m)"
      "rm_is_leftmost m = rm_is_leftmost r" "\<not> rm_merging m"
      "\<forall>k. vof m vals' k = (case the_elem_of l k of
        None \<Rightarrow> vof r vals k | Some e \<Rightarrow> combine f MERGE_INTO_RIGHT (rm_is_leftmost r) vals (vof r vals k) e)"
      using map_merge_ok [OF a(2,1) n(2,1) s ne lm, of f] by (elim exE conjE) (rule that; assumption)
    have "vof m vals' k = merged_value f l r vals k" for k
    proof (cases "the_elem_of l k")
      case None
      then show ?thesis using m(6) n(2) by (auto simp: merged_value_def vof_def split: option.splits)
    next
      case x: (Some x)
      obtain v where v: "vals (el_view x) = Some v" using val x by blast
      show ?thesis
      proof (cases "the_elem_of r k")
        case None
        then show ?thesis using m(6) x v a(3) by (simp add: merged_value_def combine_def vof_def)
      next
        case e: (Some e)
        obtain w where w: "vals (el_view e) = Some w" using val e by blast
        have "el_hb x = el_hb e" using a(7) x e a(1,2) by (simp add: the_elem_of_ok)
        then show ?thesis using m(6) x v e w by (simp add: merged_value_def combine_def vof_def)
      qed
    qed
    then show ?thesis using False m a(3) n(2) by (intro exI [of _ m] exI [of _ vals']) (simp add: merge_reducer_maps_def)
  qed
qed

end
