(* ===== verification/Deque.thy ===== *)
theory Deque
  imports Prelude
begin

text \<open>
  The deque of a worker and the THE protocol (\<open>runtime/scheduler.c\<close>, \<open>runtime/cilk-abi.c\<close>, \<open>runtime/worker_mutex.c\<close>): the
  worker, here the victim, pushes and pops continuations at the tail without a lock; any number of thieves steal at the head,
  one at a time, with the lock of the victim.

  A position is an index into the array of the deque, so \<open>current_ltq\<close> is 0 and \<open>ltq_limit\<close> the length of the array.  Every
  shared variable is read or written in a step of its own, and the steps of the victim and of the thieves interleave; the
  memory is sequentially consistent, which is what the fences of the code are for.  \<open>EXC_INFINITY\<close> is never stored.

  A thief that has won takes the lock of the full frame of the victim, and waits for it with the lock of the victim in its
  hands.  Other workers (and the victim itself, in the runtime) take and release this lock for work of their own, at any time.
  The frame of the victim changes in the course of this; the model has one lock, the one of the frame that the deque points to,
  and whoever holds the lock of the next frame takes it after the change, which is one of the interleavings.
\<close>

subsection \<open>Mutexes\<close>

datatype who = Victim | Thief nat | Other nat

record mutex =
  mx_lock :: bool
  mx_owner :: "who option"

definition mutex_init :: mutex where
  "mutex_init = \<lparr>mx_lock = False, mx_owner = None\<rparr>"

text \<open>\<open>None\<close> is a failed assertion.\<close>

definition mutex_trylock :: "who \<Rightarrow> mutex \<Rightarrow> (bool \<times> mutex) option" where
  "mutex_trylock w m =
     (if mx_lock m then Some (False, m)
      else do { check (mx_owner m = None); Some (True, \<lparr>mx_lock = True, mx_owner = Some w\<rparr>) })"

definition mutex_unlock :: "who \<Rightarrow> mutex \<Rightarrow> mutex option" where
  "mutex_unlock w m = do { check (mx_owner m = Some w); Some (m\<lparr>mx_owner := None, mx_lock := False\<rparr>) }"

subsection \<open>The deque\<close>

record deque =
  de_tail :: int
  de_head :: int
  de_exc :: int
  de_protected_tail :: int
  de_ltq :: "nat option list"

definition deque_init :: "nat \<Rightarrow> deque" where
  "deque_init ltqsize =
     \<lparr>de_tail = 0, de_head = 0, de_exc = 0, de_protected_tail = int ltqsize, de_ltq = replicate ltqsize None\<rparr>"

definition reset_THE_exception :: "'a deque_scheme \<Rightarrow> 'a deque_scheme" where
  "reset_THE_exception d = d\<lparr>de_exc := de_head d\<rparr>"

definition restore_stealing :: "int \<Rightarrow> 'a deque_scheme \<Rightarrow> 'a deque_scheme" where
  "restore_stealing saved_protected_tail d = d\<lparr>de_protected_tail := saved_protected_tail\<rparr>"

definition disallow_stealing :: "int option \<Rightarrow> 'a deque_scheme \<Rightarrow> int \<times> 'a deque_scheme" where
  "disallow_stealing new_protected_tail d =
     (let saved = de_protected_tail d; new = (case new_protected_tail of None \<Rightarrow> 0 | Some p \<Rightarrow> p) in
      (saved, if de_protected_tail d > new then d\<lparr>de_protected_tail := new\<rparr> else d))"

subsection \<open>The victim and its thieves\<close>

text \<open>Why the victim takes its own lock, and where it goes after giving it back.\<close>

datatype purpose = For_check | For_setup
datatype after = To_run | To_stolen

text \<open>Where the victim is: in user code; in \<open>__cilkrts_detach\<close>; in \<open>__cilkrts_undo_detach\<close>; in \<open>__cilkrts_worker_lock\<close>; in
  \<open>__cilkrts_c_THE_exception_check\<close>; in \<open>__cilkrts_worker_unlock\<close>; in the runtime with its strand finished and its parent
  stolen; in \<open>finish_setup_for_execution\<close>.\<close>

datatype vpc = V_run | V_push int | V_pushed int | V_pop int | V_fenced int | V_lock purpose | V_spin purpose | V_reset | V_test
  | V_unlock after | V_release after | V_stolen | V_set_tail | V_set_head | V_set_exc | V_failed | V_overflow

text \<open>Where a thief is: outside; in \<open>worker_trylock_other\<close>; in \<open>random_steal\<close> with the lock; in \<open>increment_E\<close>, \<open>can_steal_from\<close>
  and \<open>decrement_E\<close> of \<open>dekker_protocol\<close>; in \<open>detach_for_steal\<close>, with the assertion, the write of the head, the lock of the
  frame, the read of the continuation and the release of the lock; in \<open>worker_unlock_other\<close>.\<close>

datatype tpc = T_idle | T_steal_lock | T_dns | T_trylock | T_unsteal bool | T_in | T_inc_write int | T_cmp_tail | T_cmp_prot
  | T_dec | T_dec_write int | T_won | T_detach int | T_set_head int | T_frame_lock int | T_take int | T_frame_unlock | T_unlock | T_failed

text \<open>The last five fields are ghosts: continuations are numbered in the order in which they are pushed; \<open>vs_stack\<close> are those that
  the current strand of the victim has detached and not come back to, \<open>vs_stolen\<close> and \<open>vs_loot\<close> those that thieves have detached
  and read, \<open>vs_resumed\<close> those to which the victim has returned.\<close>

record vstate = deque +
  vs_lock :: mutex
  vs_steal_lock :: mutex
  vs_frame_lock :: mutex
  vs_dns :: bool
  vs_pc :: vpc
  vs_thief :: "nat \<Rightarrow> tpc"
  vs_next :: nat
  vs_stack :: "nat list"
  vs_stolen :: "nat list"
  vs_loot :: "nat list"
  vs_resumed :: "nat list"

definition vinit :: "nat \<Rightarrow> vstate" where
  "vinit ltqsize = deque.extend (deque_init ltqsize)
     \<lparr>vs_lock = mutex_init, vs_steal_lock = mutex_init, vs_frame_lock = mutex_init, vs_dns = False, vs_pc = V_run, vs_thief = (\<lambda>_. T_idle), vs_next = 0, vs_stack = [],
      vs_stolen = [], vs_loot = [], vs_resumed = []\<rparr>"

subsection \<open>Steps of the victim\<close>

text \<open>What user code does next: spawn, return from a spawned function, forbid stealing or allow it again, or leave a strand that
  has no continuation left on the deque.\<close>

datatype vact = Detach | Undo_detach | Disallow "int option" | Restore int | Leave

text \<open>The victim goes on with the parent.\<close>

definition resume_parent :: "vstate \<Rightarrow> vstate" where
  "resume_parent s = s\<lparr>vs_resumed := vs_resumed s @ [last (vs_stack s)], vs_stack := butlast (vs_stack s)\<rparr>"

definition detach_step :: "vstate \<Rightarrow> vstate option" where
  "detach_step s =
     (case vs_pc s of
        V_push t \<Rightarrow>
          (if 0 \<le> t \<and> t < int (length (de_ltq s))
           then Some (s\<lparr>de_ltq := (de_ltq s)[nat t := Some (vs_next s)], vs_pc := V_pushed t\<rparr>)
           else Some (s\<lparr>vs_pc := V_overflow\<rparr>))
      | V_pushed t \<Rightarrow> Some (s\<lparr>de_tail := t + 1, vs_stack := vs_stack s @ [vs_next s], vs_next := vs_next s + 1, vs_pc := V_run\<rparr>)
      | _ \<Rightarrow> None)"

definition undo_detach_step :: "vstate \<Rightarrow> vstate option" where
  "undo_detach_step s =
     (case vs_pc s of
        V_pop t \<Rightarrow> Some (s\<lparr>de_tail := t - 1, vs_pc := V_fenced (t - 1)\<rparr>)
      | V_fenced t \<Rightarrow> (if t < de_exc s then Some (s\<lparr>vs_pc := V_lock For_check\<rparr>) else Some ((resume_parent s)\<lparr>vs_pc := V_run\<rparr>))
      | _ \<Rightarrow> None)"

text \<open>A victim that finds the mutex taken spins: it has no step.\<close>

definition worker_lock_step :: "vstate \<Rightarrow> vstate option" where
  "worker_lock_step s =
     (case vs_pc s of
        V_lock p \<Rightarrow> (if vs_dns s then Some (s\<lparr>vs_pc := V_failed\<rparr>) else Some (s\<lparr>vs_dns := True, vs_pc := V_spin p\<rparr>))
      | V_spin p \<Rightarrow>
          (case mutex_trylock Victim (vs_lock s) of
             None \<Rightarrow> Some (s\<lparr>vs_pc := V_failed\<rparr>)
           | Some (ok, m) \<Rightarrow>
               (if ok then Some (s\<lparr>vs_lock := m, vs_pc := (case p of For_check \<Rightarrow> V_reset | For_setup \<Rightarrow> V_set_tail)\<rparr>) else None))
      | _ \<Rightarrow> None)"

definition worker_unlock_step :: "vstate \<Rightarrow> vstate option" where
  "worker_unlock_step s =
     (case vs_pc s of
        V_unlock n \<Rightarrow> (case mutex_unlock Victim (vs_lock s) of
                         None \<Rightarrow> Some (s\<lparr>vs_pc := V_failed\<rparr>)
                       | Some m \<Rightarrow> Some (s\<lparr>vs_lock := m, vs_pc := V_release n\<rparr>))
      | V_release n \<Rightarrow>
          (if \<not> vs_dns s then Some (s\<lparr>vs_pc := V_failed\<rparr>)
           else Some (s\<lparr>vs_dns := False, vs_pc := (case n of To_run \<Rightarrow> V_run | To_stolen \<Rightarrow> V_stolen)\<rparr>))
      | _ \<Rightarrow> None)"

definition THE_exception_check_step :: "vstate \<Rightarrow> vstate option" where
  "THE_exception_check_step s =
     (case vs_pc s of
        V_reset \<Rightarrow> Some ((reset_THE_exception s)\<lparr>vs_pc := V_test\<rparr>)
      | V_test \<Rightarrow>
          (let stolen_p = (\<not> (de_head s < de_tail s + 1)) in
           if stolen_p then Some (s\<lparr>de_tail := de_tail s + 1, vs_pc := V_unlock To_stolen\<rparr>)
           else Some ((resume_parent s)\<lparr>vs_pc := V_unlock To_run\<rparr>))
      | _ \<Rightarrow> None)"

definition finish_setup_step :: "vstate \<Rightarrow> vstate option" where
  "finish_setup_step s =
     (case vs_pc s of
        V_set_tail \<Rightarrow> Some (s\<lparr>de_tail := 0, vs_stack := [], vs_pc := V_set_head\<rparr>)
      | V_set_head \<Rightarrow> Some (s\<lparr>de_head := de_tail s, vs_pc := V_set_exc\<rparr>)
      | V_set_exc \<Rightarrow> Some ((reset_THE_exception s)\<lparr>vs_pc := V_unlock To_run\<rparr>)
      | _ \<Rightarrow> None)"

definition victim_step :: "vact \<Rightarrow> vstate \<Rightarrow> vstate option" where
  "victim_step a s =
     (case vs_pc s of
        V_run \<Rightarrow>
          (case a of
             Detach \<Rightarrow> Some (s\<lparr>vs_pc := V_push (de_tail s)\<rparr>)
           | Undo_detach \<Rightarrow> (if vs_stack s = [] then None else Some (s\<lparr>vs_pc := V_pop (de_tail s)\<rparr>))
           | Disallow p \<Rightarrow> Some (snd (disallow_stealing p s))
           | Restore p \<Rightarrow> Some (restore_stealing p s)
           | Leave \<Rightarrow> (if vs_stack s = [] then Some (s\<lparr>vs_pc := V_lock For_setup\<rparr>) else None))
      | V_push t \<Rightarrow> detach_step s
      | V_pushed t \<Rightarrow> detach_step s
      | V_pop t \<Rightarrow> undo_detach_step s
      | V_fenced t \<Rightarrow> undo_detach_step s
      | V_lock p \<Rightarrow> worker_lock_step s
      | V_spin p \<Rightarrow> worker_lock_step s
      | V_reset \<Rightarrow> THE_exception_check_step s
      | V_test \<Rightarrow> THE_exception_check_step s
      | V_unlock n \<Rightarrow> worker_unlock_step s
      | V_release n \<Rightarrow> worker_unlock_step s
      | V_stolen \<Rightarrow> Some (s\<lparr>vs_pc := V_lock For_setup\<rparr>)
      | V_set_tail \<Rightarrow> finish_setup_step s
      | V_set_head \<Rightarrow> finish_setup_step s
      | V_set_exc \<Rightarrow> finish_setup_step s
      | V_failed \<Rightarrow> None
      | V_overflow \<Rightarrow> None)"

subsection \<open>Steps of a thief\<close>

definition thief_goto :: "nat \<Rightarrow> tpc \<Rightarrow> vstate \<Rightarrow> vstate" where
  "thief_goto i pc s = s\<lparr>vs_thief := (vs_thief s)(i := pc)\<rparr>"

definition worker_trylock_other_step :: "nat \<Rightarrow> vstate \<Rightarrow> vstate option" where
  "worker_trylock_other_step i s =
     (case vs_thief s i of
        T_steal_lock \<Rightarrow>
          (case mutex_trylock (Thief i) (vs_steal_lock s) of
             None \<Rightarrow> Some (thief_goto i T_failed s)
           | Some (ok, m) \<Rightarrow> Some (thief_goto i (if ok then T_dns else T_idle) (s\<lparr>vs_steal_lock := m\<rparr>)))
      | T_dns \<Rightarrow> Some (thief_goto i (if vs_dns s then T_unsteal False else T_trylock) s)
      | T_trylock \<Rightarrow>
          (case mutex_trylock (Thief i) (vs_lock s) of
             None \<Rightarrow> Some (thief_goto i T_failed s)
           | Some (ok, m) \<Rightarrow> Some (thief_goto i (T_unsteal ok) (s\<lparr>vs_lock := m\<rparr>)))
      | T_unsteal ok \<Rightarrow>
          (case mutex_unlock (Thief i) (vs_steal_lock s) of
             None \<Rightarrow> Some (thief_goto i T_failed s)
           | Some m \<Rightarrow> Some (thief_goto i (if ok then T_in else T_idle) (s\<lparr>vs_steal_lock := m\<rparr>)))
      | _ \<Rightarrow> None)"

definition can_steal_tail :: "'a deque_scheme \<Rightarrow> bool" where
  "can_steal_tail d \<longleftrightarrow> de_head d < de_tail d"

definition can_steal_prot :: "'a deque_scheme \<Rightarrow> bool" where
  "can_steal_prot d \<longleftrightarrow> de_head d < de_protected_tail d"

definition dekker_step :: "nat \<Rightarrow> vstate \<Rightarrow> vstate option" where
  "dekker_step i s =
     (case vs_thief s i of
        T_inc_write tmp \<Rightarrow> Some (thief_goto i T_cmp_tail (s\<lparr>de_exc := tmp + 1\<rparr>))
      | T_cmp_tail \<Rightarrow> Some (thief_goto i (if can_steal_tail s then T_cmp_prot else T_dec) s)
      | T_cmp_prot \<Rightarrow> Some (thief_goto i (if can_steal_prot s then T_won else T_dec) s)
      | T_dec \<Rightarrow> Some (thief_goto i (T_dec_write (de_exc s)) s)
      | T_dec_write tmp \<Rightarrow> Some (thief_goto i T_unlock (s\<lparr>de_exc := tmp - 1\<rparr>))
      | _ \<Rightarrow> None)"

text \<open>The continuation that the write of the head takes off the deque, for the ghost \<open>vs_stolen\<close>.\<close>

definition at_head :: "int \<Rightarrow> 'a deque_scheme \<Rightarrow> nat list" where
  "at_head h d = (case de_ltq d ! nat h of None \<Rightarrow> [] | Some sf \<Rightarrow> [sf])"

text \<open>What the thief does with the continuation while it holds the lock of the frame (\<open>unroll_call_stack\<close> and the new full frame,
  whose own lock nobody else has seen yet) is the subject of \<open>Spawn_Tree\<close>; here it reads it, and \<open>unroll_call_stack\<close> asserts
  that it is there.\<close>

definition detach_for_steal_step :: "nat \<Rightarrow> vstate \<Rightarrow> vstate option" where
  "detach_for_steal_step i s =
     (case vs_thief s i of
        T_detach h \<Rightarrow>
          (case (if 0 \<le> h \<and> h < int (length (de_ltq s)) then de_ltq s ! nat h else None) of
             None \<Rightarrow> Some (thief_goto i T_failed s)
           | Some sf \<Rightarrow> Some (thief_goto i (T_set_head h) s))
      | T_set_head h \<Rightarrow> Some (thief_goto i (T_frame_lock h) (s\<lparr>de_head := h + 1, vs_stolen := vs_stolen s @ at_head h s\<rparr>))
      | T_frame_lock h \<Rightarrow>
          (case mutex_trylock (Thief i) (vs_frame_lock s) of
             None \<Rightarrow> Some (thief_goto i T_failed s)
           | Some (ok, m) \<Rightarrow> (if ok then Some (thief_goto i (T_take h) (s\<lparr>vs_frame_lock := m\<rparr>)) else None))
      | T_take h \<Rightarrow>
          (case de_ltq s ! nat h of
             None \<Rightarrow> Some (thief_goto i T_failed s)
           | Some sf \<Rightarrow> Some (thief_goto i T_frame_unlock (s\<lparr>vs_loot := vs_loot s @ [sf]\<rparr>)))
      | T_frame_unlock \<Rightarrow>
          (case mutex_unlock (Thief i) (vs_frame_lock s) of
             None \<Rightarrow> Some (thief_goto i T_failed s)
           | Some m \<Rightarrow> Some (thief_goto i T_unlock (s\<lparr>vs_frame_lock := m\<rparr>)))
      | _ \<Rightarrow> None)"

text \<open>Another worker with business in the frame: it releases the lock if it has it, and takes it if it can.\<close>

definition other_step :: "nat \<Rightarrow> vstate \<Rightarrow> vstate option" where
  "other_step j s =
     (if mx_owner (vs_frame_lock s) = Some (Other j)
      then map_option (\<lambda>m. s\<lparr>vs_frame_lock := m\<rparr>) (mutex_unlock (Other j) (vs_frame_lock s))
      else do { (ok, m) \<leftarrow> mutex_trylock (Other j) (vs_frame_lock s); check ok; Some (s\<lparr>vs_frame_lock := m\<rparr>) })"

text \<open>\<open>go\<close> is what the code decides by other things: the check without the lock and the choice of the victim, its team and its full
  frame, and the record of a replay.\<close>

definition random_steal_step :: "bool \<Rightarrow> nat \<Rightarrow> vstate \<Rightarrow> vstate option" where
  "random_steal_step go i s =
     (case vs_thief s i of
        T_idle \<Rightarrow> (if go then Some (thief_goto i T_steal_lock s) else None)
      | T_in \<Rightarrow> Some (thief_goto i (if go then T_inc_write (de_exc s) else T_unlock) s)
      | T_won \<Rightarrow> Some (thief_goto i (if go then T_detach (de_head s) else T_dec) s)
      | T_unlock \<Rightarrow> (case mutex_unlock (Thief i) (vs_lock s) of
                      None \<Rightarrow> Some (thief_goto i T_failed s)
                    | Some m \<Rightarrow> Some (thief_goto i T_idle (s\<lparr>vs_lock := m\<rparr>)))
      | _ \<Rightarrow> None)"

definition thief_step :: "bool \<Rightarrow> nat \<Rightarrow> vstate \<Rightarrow> vstate option" where
  "thief_step go i s =
     (case vs_thief s i of
        T_steal_lock \<Rightarrow> worker_trylock_other_step i s
      | T_dns \<Rightarrow> worker_trylock_other_step i s
      | T_trylock \<Rightarrow> worker_trylock_other_step i s
      | T_unsteal b \<Rightarrow> worker_trylock_other_step i s
      | T_inc_write t \<Rightarrow> dekker_step i s
      | T_cmp_tail \<Rightarrow> dekker_step i s
      | T_cmp_prot \<Rightarrow> dekker_step i s
      | T_dec \<Rightarrow> dekker_step i s
      | T_dec_write t \<Rightarrow> dekker_step i s
      | T_detach h \<Rightarrow> detach_for_steal_step i s
      | T_set_head h \<Rightarrow> detach_for_steal_step i s
      | T_frame_lock h \<Rightarrow> detach_for_steal_step i s
      | T_take h \<Rightarrow> detach_for_steal_step i s
      | T_frame_unlock \<Rightarrow> detach_for_steal_step i s
      | T_idle \<Rightarrow> random_steal_step go i s
      | T_in \<Rightarrow> random_steal_step go i s
      | T_won \<Rightarrow> random_steal_step go i s
      | T_unlock \<Rightarrow> random_steal_step go i s
      | T_failed \<Rightarrow> None)"

subsection \<open>All interleavings\<close>

inductive dstep :: "vstate \<Rightarrow> vstate \<Rightarrow> bool" where
  victim: "victim_step a s = Some s' \<Longrightarrow> dstep s s'"
| thief: "thief_step go i s = Some s' \<Longrightarrow> dstep s s'"
| other: "other_step j s = Some s' \<Longrightarrow> dstep s s'"

inductive dreach :: "nat \<Rightarrow> vstate \<Rightarrow> bool" for ltqsize :: nat where
  start: "dreach ltqsize (vinit ltqsize)"
| step: "dreach ltqsize s \<Longrightarrow> dstep s s' \<Longrightarrow> dreach ltqsize s'"

text \<open>A schedule of the victim, its thieves and other workers.\<close>

datatype turn = By_victim vact | By_thief bool nat | By_other nat

fun take_turn :: "turn \<Rightarrow> vstate \<Rightarrow> vstate option" where
  "take_turn (By_victim a) s = victim_step a s"
| "take_turn (By_thief go i) s = thief_step go i s"
| "take_turn (By_other j) s = other_step j s"

fun drun :: "turn list \<Rightarrow> vstate \<Rightarrow> vstate option" where
  "drun [] s = Some s"
| "drun (t # sched) s = take_turn t s \<bind> drun sched"

lemma take_turn_dstep: "take_turn t s = Some s' \<Longrightarrow> dstep s s'"
  by (cases t) (auto intro: dstep.intros)

lemma drun_reach: "drun sched s = Some s' \<Longrightarrow> dreach n s \<Longrightarrow> dreach n s'"
  by (induction sched s rule: drun.induct) (auto split: bind_splits intro: dreach.step take_turn_dstep)

end
