(* ===== verification/Deque_Inv.thy ===== *)
theory Deque_Inv
  imports Deque
begin

text \<open>
  The invariant of the THE protocol: whoever holds the lock, where the head, the tail and the exception pointer are, and what
  happened to every continuation that was pushed.
\<close>

subsection \<open>Locks\<close>

fun victim_locked :: "vpc \<Rightarrow> bool" where
  "victim_locked V_reset = True" | "victim_locked V_test = True" | "victim_locked (V_unlock n) = True"
| "victim_locked V_set_tail = True" | "victim_locked V_set_head = True" | "victim_locked V_set_exc = True"
| "victim_locked _ = False"

fun warning :: "vpc \<Rightarrow> bool" where
  "warning (V_spin p) = True" | "warning (V_release n) = True" | "warning pc = victim_locked pc"

fun in_crit :: "tpc \<Rightarrow> bool" where
  "in_crit (T_unsteal b) = b" | "in_crit T_in = True" | "in_crit (T_inc_write e) = True" | "in_crit T_cmp_tail = True"
| "in_crit T_cmp_prot = True" | "in_crit T_dec = True" | "in_crit (T_dec_write e) = True" | "in_crit T_won = True"
| "in_crit (T_detach h) = True" | "in_crit (T_set_head h) = True" | "in_crit (T_frame_lock h) = True" | "in_crit (T_take h) = True"
| "in_crit T_frame_unlock = True" | "in_crit T_unlock = True" | "in_crit _ = False"

fun in_frame :: "tpc \<Rightarrow> bool" where
  "in_frame (T_take h) = True" | "in_frame T_frame_unlock = True" | "in_frame _ = False"

fun competing :: "tpc \<Rightarrow> bool" where
  "competing T_dns = True" | "competing T_trylock = True" | "competing (T_unsteal b) = True" | "competing _ = False"

definition lock_ok :: "vstate \<Rightarrow> bool" where
  "lock_ok s \<longleftrightarrow> mx_lock (vs_lock s) = (mx_owner (vs_lock s) \<noteq> None) \<and>
     mx_lock (vs_steal_lock s) = (mx_owner (vs_steal_lock s) \<noteq> None) \<and>
     (mx_owner (vs_lock s) = Some Victim \<longleftrightarrow> victim_locked (vs_pc s)) \<and>
     (\<forall>i. mx_owner (vs_lock s) = Some (Thief i) \<longleftrightarrow> in_crit (vs_thief s i)) \<and>
     mx_owner (vs_steal_lock s) \<noteq> Some Victim \<and>
     (\<forall>i. mx_owner (vs_steal_lock s) = Some (Thief i) \<longleftrightarrow> competing (vs_thief s i)) \<and>
     mx_lock (vs_frame_lock s) = (mx_owner (vs_frame_lock s) \<noteq> None) \<and> mx_owner (vs_frame_lock s) \<noteq> Some Victim \<and>
     (\<forall>i. mx_owner (vs_frame_lock s) = Some (Thief i) \<longleftrightarrow> in_frame (vs_thief s i)) \<and>
     (\<forall>j. mx_owner (vs_lock s) \<noteq> Some (Other j) \<and> mx_owner (vs_steal_lock s) \<noteq> Some (Other j)) \<and>
     (vs_dns s \<longleftrightarrow> warning (vs_pc s)) \<and> vs_pc s \<noteq> V_failed \<and> (\<forall>i. vs_thief s i \<noteq> T_failed)"

lemmas victim_defs = victim_step_def detach_step_def undo_detach_step_def worker_lock_step_def worker_unlock_step_def
  THE_exception_check_step_def finish_setup_step_def resume_parent_def reset_THE_exception_def disallow_stealing_def
  restore_stealing_def mutex_trylock_def mutex_unlock_def

lemmas thief_defs = thief_step_def worker_trylock_other_step_def dekker_step_def detach_for_steal_step_def random_steal_step_def
  thief_goto_def can_steal_tail_def can_steal_prot_def mutex_trylock_def mutex_unlock_def

lemma lock_ok_init: "lock_ok (vinit n)"
  by (simp add: lock_ok_def vinit_def deque.defs deque_init_def mutex_init_def)

lemma lock_okD:
  assumes "lock_ok s"
  shows "mx_lock (vs_lock s) = (mx_owner (vs_lock s) \<noteq> None)" "mx_lock (vs_steal_lock s) = (mx_owner (vs_steal_lock s) \<noteq> None)"
    "mx_owner (vs_lock s) = Some Victim \<longleftrightarrow> victim_locked (vs_pc s)" "mx_owner (vs_lock s) = Some (Thief i) \<longleftrightarrow> in_crit (vs_thief s i)"
    "mx_owner (vs_steal_lock s) \<noteq> Some Victim" "mx_owner (vs_steal_lock s) = Some (Thief i) \<longleftrightarrow> competing (vs_thief s i)"
    "vs_dns s \<longleftrightarrow> warning (vs_pc s)" "vs_pc s \<noteq> V_failed" "vs_thief s i \<noteq> T_failed"
    "mx_lock (vs_frame_lock s) = (mx_owner (vs_frame_lock s) \<noteq> None)" "mx_owner (vs_frame_lock s) \<noteq> Some Victim"
    "mx_owner (vs_frame_lock s) = Some (Thief i) \<longleftrightarrow> in_frame (vs_thief s i)"
    "mx_owner (vs_lock s) \<noteq> Some (Other j)" "mx_owner (vs_steal_lock s) \<noteq> Some (Other j)"
  using assms by (simp_all add: lock_ok_def)

text \<open>The steps of the victim; no assertion fails.\<close>

lemma victim_cases:
  assumes "lock_ok s" and "victim_step a s = Some s'"
  obtains
    (detach) "vs_pc s = V_run" "s' = s\<lparr>vs_pc := V_push (de_tail s)\<rparr>"
  | (undo) "vs_pc s = V_run" "vs_stack s \<noteq> []" "s' = s\<lparr>vs_pc := V_pop (de_tail s)\<rparr>"
  | (prot) p where "vs_pc s = V_run" "s' = s\<lparr>de_protected_tail := p\<rparr>"
  | (leave) "vs_pc s = V_run" "vs_stack s = []" "s' = s\<lparr>vs_pc := V_lock For_setup\<rparr>"
  | (push) t where "vs_pc s = V_push t" "0 \<le> t" "t < int (length (de_ltq s))"
      "s' = s\<lparr>de_ltq := (de_ltq s)[nat t := Some (vs_next s)], vs_pc := V_pushed t\<rparr>"
  | (overflow) t where "vs_pc s = V_push t" "\<not> (0 \<le> t \<and> t < int (length (de_ltq s)))" "s' = s\<lparr>vs_pc := V_overflow\<rparr>"
  | (pushed) t where "vs_pc s = V_pushed t" "s' = s\<lparr>de_tail := t + 1, vs_stack := vs_stack s @ [vs_next s], vs_next := vs_next s + 1, vs_pc := V_run\<rparr>"
  | (pop) t where "vs_pc s = V_pop t" "s' = s\<lparr>de_tail := t - 1, vs_pc := V_fenced (t - 1)\<rparr>"
  | (slow) t where "vs_pc s = V_fenced t" "t < de_exc s" "s' = s\<lparr>vs_pc := V_lock For_check\<rparr>"
  | (fast) t where "vs_pc s = V_fenced t" "\<not> t < de_exc s" "s' = (resume_parent s)\<lparr>vs_pc := V_run\<rparr>"
  | (warn) p where "vs_pc s = V_lock p" "s' = s\<lparr>vs_dns := True, vs_pc := V_spin p\<rparr>"
  | (locked) p where "vs_pc s = V_spin p" "mx_owner (vs_lock s) = None"
      "s' = s\<lparr>vs_lock := \<lparr>mx_lock = True, mx_owner = Some Victim\<rparr>, vs_pc := (case p of For_check \<Rightarrow> V_reset | For_setup \<Rightarrow> V_set_tail)\<rparr>"
  | (reset) "vs_pc s = V_reset" "s' = s\<lparr>de_exc := de_head s, vs_pc := V_test\<rparr>"
  | (stolen) "vs_pc s = V_test" "\<not> de_head s < de_tail s + 1" "s' = s\<lparr>de_tail := de_tail s + 1, vs_pc := V_unlock To_stolen\<rparr>"
  | (unstolen) "vs_pc s = V_test" "de_head s < de_tail s + 1" "s' = (resume_parent s)\<lparr>vs_pc := V_unlock To_run\<rparr>"
  | (unlock) n where "vs_pc s = V_unlock n" "s' = s\<lparr>vs_lock := (vs_lock s)\<lparr>mx_owner := None, mx_lock := False\<rparr>, vs_pc := V_release n\<rparr>"
  | (release) n where "vs_pc s = V_release n" "s' = s\<lparr>vs_dns := False, vs_pc := (case n of To_run \<Rightarrow> V_run | To_stolen \<Rightarrow> V_stolen)\<rparr>"
  | (to_setup) "vs_pc s = V_stolen" "s' = s\<lparr>vs_pc := V_lock For_setup\<rparr>"
  | (tail) "vs_pc s = V_set_tail" "s' = s\<lparr>de_tail := 0, vs_stack := [], vs_pc := V_set_head\<rparr>"
  | (head) "vs_pc s = V_set_head" "s' = s\<lparr>de_head := de_tail s, vs_pc := V_set_exc\<rparr>"
  | (exc) "vs_pc s = V_set_exc" "s' = s\<lparr>de_exc := de_head s, vs_pc := V_unlock To_run\<rparr>"
proof (cases "vs_pc s")
  case V_run
  show thesis
  proof (cases a)
    case Detach
    show thesis by (rule detach [OF V_run]) (use assms(2) V_run Detach in \<open>simp add: victim_step_def\<close>)
  next
    case Undo_detach
    then have "vs_stack s \<noteq> []" using assms(2) V_run by (auto simp: victim_step_def)
    then show thesis by (rule undo [OF V_run]) (use assms(2) V_run Undo_detach in \<open>simp add: victim_step_def split: if_splits\<close>)
  next
    case (Disallow p)
    have "s' = s\<lparr>de_protected_tail := de_protected_tail s'\<rparr>" using assms(2) V_run Disallow
      by (auto simp: victim_step_def disallow_stealing_def Let_def split: if_splits option.splits)
    then show thesis by (rule prot [OF V_run])
  next
    case (Restore p)
    have "s' = s\<lparr>de_protected_tail := p\<rparr>" using assms(2) V_run Restore by (simp add: victim_step_def restore_stealing_def)
    then show thesis by (rule prot [OF V_run])
  next
    case Leave
    then have "vs_stack s = []" using assms(2) V_run by (auto simp: victim_step_def split: if_splits)
    then show thesis by (rule leave [OF V_run]) (use assms(2) V_run Leave in \<open>simp add: victim_step_def split: if_splits\<close>)
  qed
next
  case (V_push t)
  show thesis
  proof (cases "0 \<le> t \<and> t < int (length (de_ltq s))")
    case True
    show thesis by (rule push [OF V_push]) (use assms(2) V_push True in \<open>simp_all add: victim_step_def detach_step_def\<close>)
  next
    case False
    show thesis by (rule overflow [OF V_push]) (use assms(2) V_push False in \<open>auto simp: victim_step_def detach_step_def split: if_splits\<close>)
  qed
next
  case (V_pushed t)
  show thesis by (rule pushed [OF V_pushed]) (use assms(2) V_pushed in \<open>simp_all add: victim_step_def detach_step_def\<close>)
next
  case (V_pop t)
  show thesis by (rule pop [OF V_pop]) (use assms(2) V_pop in \<open>simp_all add: victim_step_def undo_detach_step_def\<close>)
next
  case (V_fenced t)
  show thesis
  proof (cases "t < de_exc s")
    case True
    show thesis by (rule slow [OF V_fenced]) (use assms(2) V_fenced True in \<open>simp_all add: victim_step_def undo_detach_step_def\<close>)
  next
    case False
    show thesis by (rule fast [OF V_fenced]) (use assms(2) V_fenced False in \<open>auto simp: victim_step_def undo_detach_step_def split: if_splits\<close>)
  qed
next
  case (V_lock p)
  have "\<not> vs_dns s" using lock_okD(7) [OF assms(1)] V_lock by simp
  then show thesis by (intro warn [OF V_lock]) (use assms(2) V_lock in \<open>simp add: victim_step_def worker_lock_step_def\<close>)
next
  case (V_spin p)
  have o: "mx_owner (vs_lock s) = None"
  proof (rule ccontr)
    assume "mx_owner (vs_lock s) \<noteq> None"
    then show False using assms(2) lock_okD(1) [OF assms(1)] V_spin by (simp add: victim_step_def worker_lock_step_def mutex_trylock_def)
  qed
  then have "\<not> mx_lock (vs_lock s)" using lock_okD(1) [OF assms(1)] by simp
  then show thesis by (intro locked [OF V_spin o]) (use assms(2) V_spin o in \<open>simp add: victim_step_def worker_lock_step_def mutex_trylock_def\<close>)
next
  case V_reset
  show thesis by (rule reset [OF V_reset]) (use assms(2) V_reset in \<open>simp_all add: victim_step_def THE_exception_check_step_def reset_THE_exception_def\<close>)
next
  case V_test
  show thesis
  proof (cases "\<not> de_head s < de_tail s + 1")
    case True
    show thesis by (rule stolen [OF V_test]) (use assms(2) V_test True in \<open>simp_all add: victim_step_def THE_exception_check_step_def reset_THE_exception_def Let_def\<close>)
  next
    case False
    show thesis by (rule unstolen [OF V_test]) (use assms(2) V_test False in \<open>auto simp: victim_step_def THE_exception_check_step_def reset_THE_exception_def Let_def split: if_splits\<close>)
  qed
next
  case (V_unlock n)
  have "mx_owner (vs_lock s) = Some Victim" using lock_okD(3) [OF assms(1)] V_unlock by simp
  then show thesis by (intro unlock [OF V_unlock]) (use assms(2) V_unlock in \<open>simp add: victim_step_def worker_unlock_step_def mutex_unlock_def\<close>)
next
  case (V_release n)
  have "vs_dns s" using lock_okD(7) [OF assms(1)] V_release by simp
  then show thesis by (intro release [OF V_release]) (use assms(2) V_release in \<open>simp add: victim_step_def worker_unlock_step_def\<close>)
next
  case V_stolen
  show thesis by (rule to_setup [OF V_stolen]) (use assms(2) V_stolen in \<open>simp_all add: victim_step_def \<close>)
next
  case V_set_tail
  show thesis by (rule tail [OF V_set_tail]) (use assms(2) V_set_tail in \<open>simp_all add: victim_step_def finish_setup_step_def reset_THE_exception_def\<close>)
next
  case V_set_head
  show thesis by (rule head [OF V_set_head]) (use assms(2) V_set_head in \<open>simp_all add: victim_step_def finish_setup_step_def reset_THE_exception_def\<close>)
next
  case V_set_exc
  show thesis by (rule exc [OF V_set_exc]) (use assms(2) V_set_exc in \<open>simp_all add: victim_step_def finish_setup_step_def reset_THE_exception_def\<close>)
next
  case V_failed
  show thesis using assms(2) unfolding victim_step_def V_failed by simp
next
  case V_overflow
  show thesis using assms(2) unfolding victim_step_def V_overflow by simp
qed

lemma lock_ok_victim:
  assumes "lock_ok s" "victim_step a s = Some s'" shows "lock_ok s'"
  by (rule victim_cases [OF assms])
    ((use assms(1) in \<open>simp_all add: lock_ok_def resume_parent_def split: purpose.splits after.splits\<close>), auto)

text \<open>The steps of a thief.\<close>

lemma thief_cases:
  assumes "lock_ok s" and "thief_step go i s = Some s'"
  obtains
    (start) "vs_thief s i = T_idle" "s' = thief_goto i T_steal_lock s"
  | (compete) "vs_thief s i = T_steal_lock" "mx_owner (vs_steal_lock s) = None"
      "s' = thief_goto i T_dns (s\<lparr>vs_steal_lock := \<lparr>mx_lock = True, mx_owner = Some (Thief i)\<rparr>\<rparr>)"
  | (no_compete) "vs_thief s i = T_steal_lock" "s' = thief_goto i T_idle s"
  | (leave_alone) "vs_thief s i = T_dns" "vs_dns s" "s' = thief_goto i (T_unsteal False) s"
  | (disturb) "vs_thief s i = T_dns" "\<not> vs_dns s" "s' = thief_goto i T_trylock s"
  | (lock) "vs_thief s i = T_trylock" "mx_owner (vs_lock s) = None"
      "s' = thief_goto i (T_unsteal True) (s\<lparr>vs_lock := \<lparr>mx_lock = True, mx_owner = Some (Thief i)\<rparr>\<rparr>)"
  | (no_lock) "vs_thief s i = T_trylock" "s' = thief_goto i (T_unsteal False) s"
  | (unsteal) b where "vs_thief s i = T_unsteal b"
      "s' = thief_goto i (if b then T_in else T_idle) (s\<lparr>vs_steal_lock := (vs_steal_lock s)\<lparr>mx_owner := None, mx_lock := False\<rparr>\<rparr>)"
  | (dekker) "vs_thief s i = T_in" "s' = thief_goto i (T_inc_write (de_exc s)) s"
  | (no_dekker) "vs_thief s i = T_in" "s' = thief_goto i T_unlock s"
  | (inc) e where "vs_thief s i = T_inc_write e" "s' = thief_goto i T_cmp_tail (s\<lparr>de_exc := e + 1\<rparr>)"
  | (cmp_tail) "vs_thief s i = T_cmp_tail" "de_head s < de_tail s" "s' = thief_goto i T_cmp_prot s"
  | (lost_tail) "vs_thief s i = T_cmp_tail" "s' = thief_goto i T_dec s"
  | (cmp_prot) "vs_thief s i = T_cmp_prot" "de_head s < de_protected_tail s" "s' = thief_goto i T_won s"
  | (lost_prot) "vs_thief s i = T_cmp_prot" "s' = thief_goto i T_dec s"
  | (dec) "vs_thief s i = T_dec" "s' = thief_goto i (T_dec_write (de_exc s)) s"
  | (dec_write) e where "vs_thief s i = T_dec_write e" "s' = thief_goto i T_unlock (s\<lparr>de_exc := e - 1\<rparr>)"
  | (proceed) "vs_thief s i = T_won" "s' = thief_goto i (T_detach (de_head s)) s"
  | (abort) "vs_thief s i = T_won" "s' = thief_goto i T_dec s"
  | (assert) h sf where "vs_thief s i = T_detach h" "0 \<le> h" "h < int (length (de_ltq s))" "de_ltq s ! nat h = Some sf"
      "s' = thief_goto i (T_set_head h) s"
  | (no_take) h where "vs_thief s i = T_detach h" "\<not> (0 \<le> h \<and> h < int (length (de_ltq s)) \<and> de_ltq s ! nat h \<noteq> None)"
      "s' = thief_goto i T_failed s"
  | (take) h where "vs_thief s i = T_set_head h"
      "s' = thief_goto i (T_frame_lock h) (s\<lparr>de_head := h + 1, vs_stolen := vs_stolen s @ at_head h s\<rparr>)"
  | (frame) h where "vs_thief s i = T_frame_lock h" "mx_owner (vs_frame_lock s) = None"
      "s' = thief_goto i (T_take h) (s\<lparr>vs_frame_lock := \<lparr>mx_lock = True, mx_owner = Some (Thief i)\<rparr>\<rparr>)"
  | (loot) h sf where "vs_thief s i = T_take h" "de_ltq s ! nat h = Some sf" "s' = thief_goto i T_frame_unlock (s\<lparr>vs_loot := vs_loot s @ [sf]\<rparr>)"
  | (no_loot) h where "vs_thief s i = T_take h" "de_ltq s ! nat h = None" "s' = thief_goto i T_failed s"
  | (unframe) "vs_thief s i = T_frame_unlock" "s' = thief_goto i T_unlock (s\<lparr>vs_frame_lock := (vs_frame_lock s)\<lparr>mx_owner := None, mx_lock := False\<rparr>\<rparr>)"
  | (unlock) "vs_thief s i = T_unlock" "s' = thief_goto i T_idle (s\<lparr>vs_lock := (vs_lock s)\<lparr>mx_owner := None, mx_lock := False\<rparr>\<rparr>)"
proof (cases "vs_thief s i")
  case T_steal_lock
  then show thesis using assms(2) lock_okD(2) [OF assms(1)] compete no_compete
    by (auto simp: thief_step_def worker_trylock_other_step_def mutex_trylock_def split: if_splits)
next
  case T_dns
  then show thesis using assms(2) leave_alone disturb
    by (cases "vs_dns s") (auto simp: thief_step_def worker_trylock_other_step_def)
next
  case T_trylock
  then show thesis using assms(2) lock_okD(1) [OF assms(1)] lock no_lock
    by (auto simp: thief_step_def worker_trylock_other_step_def mutex_trylock_def split: if_splits)
next
  case (T_unsteal b)
  then have "mx_owner (vs_steal_lock s) = Some (Thief i)" using lock_okD(6) [OF assms(1), of i] by simp
  then show thesis using assms(2) T_unsteal unsteal
    by (simp add: thief_step_def worker_trylock_other_step_def mutex_unlock_def)
next
  case T_unlock
  then have "mx_owner (vs_lock s) = Some (Thief i)" using lock_okD(4) [OF assms(1), of i] by simp
  then show thesis using assms(2) T_unlock unlock by (simp add: thief_step_def random_steal_step_def mutex_unlock_def)
next
  case T_cmp_tail
  then show thesis using assms(2) cmp_tail lost_tail
    by (cases "de_head s < de_tail s") (simp_all add: thief_step_def dekker_step_def can_steal_tail_def)
next
  case T_cmp_prot
  then show thesis using assms(2) cmp_prot lost_prot
    by (cases "de_head s < de_protected_tail s") (simp_all add: thief_step_def dekker_step_def can_steal_prot_def)
next
  case T_in
  then show thesis using assms(2) dekker no_dekker by (cases go) (simp_all add: thief_step_def random_steal_step_def)
next
  case T_won
  then show thesis using assms(2) proceed abort by (cases go) (simp_all add: thief_step_def random_steal_step_def)
next
  case T_idle
  then show thesis using assms(2) start by (cases go) (simp_all add: thief_step_def random_steal_step_def)
next
  case (T_detach h)
  show thesis
  proof (cases "0 \<le> h \<and> h < int (length (de_ltq s)) \<and> de_ltq s ! nat h \<noteq> None")
    case True
    then obtain sf where sf: "0 \<le> h" "h < int (length (de_ltq s))" "de_ltq s ! nat h = Some sf" by blast
    show thesis by (rule assert [OF T_detach sf]) (use assms(2) T_detach sf in \<open>simp add: thief_step_def detach_for_steal_step_def\<close>)
  next
    case False
    show thesis by (rule no_take [OF T_detach False])
      (use assms(2) T_detach False in \<open>auto simp: thief_step_def detach_for_steal_step_def split: if_splits option.splits\<close>)
  qed
next
  case (T_set_head h)
  show thesis by (rule take [OF T_set_head]) (use assms(2) T_set_head in \<open>simp add: thief_step_def detach_for_steal_step_def\<close>)
next
  case (T_frame_lock h)
  have "mx_owner (vs_frame_lock s) = None" "\<not> mx_lock (vs_frame_lock s)"
    using assms(2) T_frame_lock lock_okD(10) [OF assms(1)]
    by (auto simp: thief_step_def detach_for_steal_step_def mutex_trylock_def split: if_splits)
  then show thesis by (intro frame [OF T_frame_lock])
    (use assms(2) T_frame_lock in \<open>simp_all add: thief_step_def detach_for_steal_step_def mutex_trylock_def\<close>)
next
  case T_frame_unlock
  then have "mx_owner (vs_frame_lock s) = Some (Thief i)" using lock_okD(12) [OF assms(1), of i] by simp
  then show thesis using assms(2) T_frame_unlock unframe by (simp add: thief_step_def detach_for_steal_step_def mutex_unlock_def)
next
  case (T_take h)
  show thesis
  proof (cases "de_ltq s ! nat h")
    case None
    show thesis by (rule no_loot [OF T_take None]) (use assms(2) T_take None in \<open>simp add: thief_step_def detach_for_steal_step_def\<close>)
  next
    case (Some sf)
    show thesis by (rule loot [OF T_take Some]) (use assms(2) T_take Some in \<open>simp add: thief_step_def detach_for_steal_step_def\<close>)
  qed
qed (use assms(2) inc dec dec_write in \<open>simp_all add: thief_step_def dekker_step_def\<close>)

lemma lock_ok_goto:
  assumes "lock_ok s" "in_crit pc = in_crit (vs_thief s i)" "competing pc = competing (vs_thief s i)"
    "in_frame pc = in_frame (vs_thief s i)" "pc \<noteq> T_failed"
  shows "lock_ok (thief_goto i pc s)"
  using assms by (simp add: lock_ok_def thief_goto_def)

lemma lock_ok_data [simp]:
  "lock_ok (s\<lparr>de_exc := e\<rparr>) = lock_ok s" "lock_ok (s\<lparr>de_head := h, vs_stolen := xs\<rparr>) = lock_ok s" "lock_ok (s\<lparr>vs_loot := xs\<rparr>) = lock_ok s"
  by (simp_all add: lock_ok_def)

lemma lock_ok_thief:
  assumes "lock_ok s" "thief_step go i s = Some s'" "vs_thief s' i \<noteq> T_failed" shows "lock_ok s'"
proof (rule thief_cases [OF assms(1,2)])
  assume *: "vs_thief s i = T_steal_lock" "mx_owner (vs_steal_lock s) = None"
    "s' = thief_goto i T_dns (s\<lparr>vs_steal_lock := \<lparr>mx_lock = True, mx_owner = Some (Thief i)\<rparr>\<rparr>)"
  have "\<not> competing (vs_thief s j)" "in_crit T_dns = in_crit (vs_thief s i)" for j using lock_okD(6) [OF assms(1), of j] * by simp_all
  then show ?thesis using assms(1) * by (auto simp: lock_ok_def thief_goto_def)
next
  assume *: "vs_thief s i = T_trylock" "mx_owner (vs_lock s) = None"
    "s' = thief_goto i (T_unsteal True) (s\<lparr>vs_lock := \<lparr>mx_lock = True, mx_owner = Some (Thief i)\<rparr>\<rparr>)"
  have "\<not> in_crit (vs_thief s j)" "competing (T_unsteal True) = competing (vs_thief s i)" for j using lock_okD(4) [OF assms(1), of j] * by simp_all
  moreover have "\<not> victim_locked (vs_pc s)" using lock_okD(3) [OF assms(1)] *(2) by simp
  ultimately show ?thesis using assms(1) * by (auto simp: lock_ok_def thief_goto_def)
next
  fix b assume *: "vs_thief s i = T_unsteal b"
    "s' = thief_goto i (if b then T_in else T_idle) (s\<lparr>vs_steal_lock := (vs_steal_lock s)\<lparr>mx_owner := None, mx_lock := False\<rparr>\<rparr>)"
  have o: "mx_owner (vs_steal_lock s) = Some (Thief i)" using lock_okD(6) [OF assms(1), of i] * by simp
  then have "j \<noteq> i \<Longrightarrow> \<not> competing (vs_thief s j)" for j using lock_okD(6) [OF assms(1), of j] by simp
  then show ?thesis using assms(1) * by (auto simp: lock_ok_def thief_goto_def)
next
  assume *: "vs_thief s i = T_unlock" "s' = thief_goto i T_idle (s\<lparr>vs_lock := (vs_lock s)\<lparr>mx_owner := None, mx_lock := False\<rparr>\<rparr>)"
  have o: "mx_owner (vs_lock s) = Some (Thief i)" using lock_okD(4) [OF assms(1), of i] * by simp
  then have "j \<noteq> i \<Longrightarrow> \<not> in_crit (vs_thief s j)" for j using lock_okD(4) [OF assms(1), of j] by simp
  moreover have "\<not> victim_locked (vs_pc s)" using lock_okD(3) [OF assms(1)] o by simp
  ultimately show ?thesis using assms(1) * by (auto simp: lock_ok_def thief_goto_def)
next
  fix h assume *: "vs_thief s i = T_frame_lock h" "mx_owner (vs_frame_lock s) = None"
    "s' = thief_goto i (T_take h) (s\<lparr>vs_frame_lock := \<lparr>mx_lock = True, mx_owner = Some (Thief i)\<rparr>\<rparr>)"
  have "\<not> in_frame (vs_thief s j)" for j using lock_okD(12) [OF assms(1), of j] *(2) by simp
  then show ?thesis using assms(1) * by (auto simp: lock_ok_def thief_goto_def)
next
  assume *: "vs_thief s i = T_frame_unlock"
    "s' = thief_goto i T_unlock (s\<lparr>vs_frame_lock := (vs_frame_lock s)\<lparr>mx_owner := None, mx_lock := False\<rparr>\<rparr>)"
  have "mx_owner (vs_frame_lock s) = Some (Thief i)" using lock_okD(12) [OF assms(1), of i] * by simp
  then have "j \<noteq> i \<Longrightarrow> \<not> in_frame (vs_thief s j)" for j using lock_okD(12) [OF assms(1), of j] by simp
  then show ?thesis using assms(1) * by (auto simp: lock_ok_def thief_goto_def)
qed (use assms(1,3) in \<open>simp_all add: lock_ok_goto\<close>, simp_all add: thief_goto_def)

text \<open>The steps of another worker.\<close>

lemma other_cases:
  assumes "lock_ok s" and "other_step j s = Some s'"
  obtains
    (lock) "mx_owner (vs_frame_lock s) = None" "s' = s\<lparr>vs_frame_lock := \<lparr>mx_lock = True, mx_owner = Some (Other j)\<rparr>\<rparr>"
  | (unlock) "mx_owner (vs_frame_lock s) = Some (Other j)" "s' = s\<lparr>vs_frame_lock := (vs_frame_lock s)\<lparr>mx_owner := None, mx_lock := False\<rparr>\<rparr>"
proof (cases "mx_owner (vs_frame_lock s) = Some (Other j)")
  case True
  show thesis by (rule unlock [OF True]) (use assms(2) True in \<open>simp add: other_step_def mutex_unlock_def\<close>)
next
  case False
  then have "mx_owner (vs_frame_lock s) = None"
    using assms(2) lock_okD(10) [OF assms(1)] by (auto simp: other_step_def mutex_trylock_def split: if_splits)
  then show thesis using assms(2) lock_okD(10) [OF assms(1)] lock by (simp add: other_step_def mutex_trylock_def)
qed

lemma lock_ok_other:
  assumes "lock_ok s" "other_step j s = Some s'" shows "lock_ok s'"
proof (rule other_cases [OF assms])
  assume *: "mx_owner (vs_frame_lock s) = None" "s' = s\<lparr>vs_frame_lock := \<lparr>mx_lock = True, mx_owner = Some (Other j)\<rparr>\<rparr>"
  then have "\<not> in_frame (vs_thief s i)" for i using lock_okD(12) [OF assms(1), of i] by simp
  then show ?thesis using assms(1) * by (simp add: lock_ok_def)
next
  assume *: "mx_owner (vs_frame_lock s) = Some (Other j)" "s' = s\<lparr>vs_frame_lock := (vs_frame_lock s)\<lparr>mx_owner := None, mx_lock := False\<rparr>\<rparr>"
  then have "\<not> in_frame (vs_thief s i)" for i using lock_okD(12) [OF assms(1), of i] by simp
  then show ?thesis using assms(1) * by (simp add: lock_ok_def)
qed

subsection \<open>Pointers\<close>

text \<open>Where the thief with the lock is.\<close>

definition crit_pc :: "vstate \<Rightarrow> tpc" where
  "crit_pc s = (case mx_owner (vs_lock s) of Some (Thief i) \<Rightarrow> vs_thief s i | _ \<Rightarrow> T_idle)"

text \<open>The thief has raised the exception pointer; the victim has lowered the tail and not decided yet.\<close>

fun raised :: "tpc \<Rightarrow> bool" where
  "raised T_cmp_tail = True" | "raised T_cmp_prot = True" | "raised T_dec = True" | "raised (T_dec_write e) = True"
| "raised T_won = True" | "raised (T_detach h) = True" | "raised (T_set_head h) = True" | "raised _ = False"

fun popping :: "vpc \<Rightarrow> bool" where
  "popping (V_fenced t) = True" | "popping (V_lock For_check) = True" | "popping (V_spin For_check) = True"
| "popping V_reset = True" | "popping V_test = True" | "popping _ = False"

definition level :: "vstate \<Rightarrow> int" where
  "level s = int (length (vs_stack s))"

text \<open>What the local variables of the victim and of the thief with the lock say.\<close>

definition victim_local :: "vstate \<Rightarrow> bool" where
  "victim_local s \<longleftrightarrow>
     (case vs_pc s of
        V_push t \<Rightarrow> t = de_tail s
      | V_pushed t \<Rightarrow> t = de_tail s \<and> 0 \<le> t \<and> t < int (length (de_ltq s)) \<and> de_ltq s ! nat t = Some (vs_next s)
      | V_pop t \<Rightarrow> t = de_tail s \<and> vs_stack s \<noteq> []
      | V_fenced t \<Rightarrow> t = de_tail s
      | V_unlock To_stolen \<Rightarrow> de_head s = level s
      | V_release To_stolen \<Rightarrow> de_head s = level s
      | V_stolen \<Rightarrow> de_head s = level s
      | V_lock For_setup \<Rightarrow> de_head s = level s
      | V_spin For_setup \<Rightarrow> de_head s = level s
      | V_set_tail \<Rightarrow> de_head s = level s
      | V_set_head \<Rightarrow> vs_stack s = []
      | V_set_exc \<Rightarrow> vs_stack s = [] \<and> de_head s = 0
      | _ \<Rightarrow> True)"

definition thief_local :: "vstate \<Rightarrow> tpc \<Rightarrow> bool" where
  "thief_local s pc \<longleftrightarrow>
     (case pc of
        T_inc_write e \<Rightarrow> e = de_exc s
      | T_dec_write e \<Rightarrow> e = de_exc s
      | T_cmp_prot \<Rightarrow> de_head s < level s
      | T_won \<Rightarrow> de_head s < level s
      | T_detach h \<Rightarrow> h = de_head s \<and> h < level s
      | T_set_head h \<Rightarrow> h = de_head s \<and> h < level s
      | T_frame_lock h \<Rightarrow> h = de_head s - 1 \<and> 0 \<le> h
      | T_take h \<Rightarrow> h = de_head s - 1 \<and> 0 \<le> h
      | _ \<Rightarrow> True)"

definition ptr_ok :: "vstate \<Rightarrow> bool" where
  "ptr_ok s \<longleftrightarrow> (popping (vs_pc s) \<longrightarrow> vs_stack s \<noteq> []) \<and>
     de_tail s = (if popping (vs_pc s) then level s - 1 else level s) \<and>
     (vs_pc s \<noteq> V_set_head \<longrightarrow> 0 \<le> de_head s \<and> de_head s \<le> level s) \<and>
     (vs_pc s \<noteq> V_set_head \<and> vs_pc s \<noteq> V_set_exc \<longrightarrow> de_exc s = de_head s + (if raised (crit_pc s) then 1 else 0)) \<and>
     victim_local s \<and> thief_local s (crit_pc s)"

lemma crit_pc_victim: "mx_owner (vs_lock s) = Some Victim \<Longrightarrow> crit_pc s = T_idle"
  by (simp add: crit_pc_def)

lemma crit_pc_none: "mx_owner (vs_lock s) = None \<Longrightarrow> crit_pc s = T_idle"
  by (simp add: crit_pc_def)

lemma crit_pc_thief: "lock_ok s \<Longrightarrow> in_crit (vs_thief s i) \<Longrightarrow> crit_pc s = vs_thief s i"
  using lock_okD(4) [of s i] by (simp add: crit_pc_def)

lemma crit_pc_cong: "vs_lock s' = vs_lock s \<Longrightarrow> vs_thief s' = vs_thief s \<Longrightarrow> crit_pc s' = crit_pc s"
  by (simp only: crit_pc_def)

lemma crit_pc_update [simp]:
  "crit_pc (s\<lparr>de_tail := x_0\<rparr>) = crit_pc s"
  "crit_pc (s\<lparr>de_head := x_1\<rparr>) = crit_pc s"
  "crit_pc (s\<lparr>de_exc := x_2\<rparr>) = crit_pc s"
  "crit_pc (s\<lparr>de_ltq := x_3\<rparr>) = crit_pc s"
  "crit_pc (s\<lparr>de_protected_tail := x_4\<rparr>) = crit_pc s"
  "crit_pc (s\<lparr>vs_stack := x_5\<rparr>) = crit_pc s"
  "crit_pc (s\<lparr>vs_next := x_6\<rparr>) = crit_pc s"
  "crit_pc (s\<lparr>vs_pc := x_7\<rparr>) = crit_pc s"
  "crit_pc (s\<lparr>vs_resumed := x_8\<rparr>) = crit_pc s"
  "crit_pc (s\<lparr>vs_dns := x_9\<rparr>) = crit_pc s"
  "crit_pc (s\<lparr>vs_stolen := x_10\<rparr>) = crit_pc s"
  "crit_pc (s\<lparr>vs_loot := x_11\<rparr>) = crit_pc s"
  "crit_pc (s\<lparr>vs_steal_lock := x_12\<rparr>) = crit_pc s"
  "crit_pc (s\<lparr>vs_frame_lock := x_13\<rparr>) = crit_pc s"
  by (rule crit_pc_cong; simp)+

lemma level_update [simp]:
  "level (s\<lparr>de_tail := x_0\<rparr>) = level s"
  "level (s\<lparr>de_head := x_1\<rparr>) = level s"
  "level (s\<lparr>de_exc := x_2\<rparr>) = level s"
  "level (s\<lparr>de_ltq := x_3\<rparr>) = level s"
  "level (s\<lparr>de_protected_tail := x_4\<rparr>) = level s"
  "level (s\<lparr>vs_next := x_6\<rparr>) = level s"
  "level (s\<lparr>vs_pc := x_7\<rparr>) = level s"
  "level (s\<lparr>vs_resumed := x_8\<rparr>) = level s"
  "level (s\<lparr>vs_dns := x_9\<rparr>) = level s"
  "level (s\<lparr>vs_stolen := x_10\<rparr>) = level s"
  "level (s\<lparr>vs_loot := x_11\<rparr>) = level s"
  "level (s\<lparr>vs_steal_lock := x_12\<rparr>) = level s"
  "level (s\<lparr>vs_frame_lock := x_13\<rparr>) = level s"
  "level (s\<lparr>vs_lock := m\<rparr>) = level s" "level (s\<lparr>vs_stack := xs\<rparr>) = int (length xs)"
  by (simp_all add: level_def)

lemma thief_local_cong: "de_head s' = de_head s \<Longrightarrow> de_exc s' = de_exc s \<Longrightarrow> level s' = level s \<Longrightarrow> thief_local s' pc = thief_local s pc"
  by (simp only: thief_local_def)

lemma thief_local_update [simp]:
  "thief_local (s\<lparr>de_tail := x_0\<rparr>) pc = thief_local s pc"
  "thief_local (s\<lparr>de_ltq := x_3\<rparr>) pc = thief_local s pc"
  "thief_local (s\<lparr>de_protected_tail := x_4\<rparr>) pc = thief_local s pc"
  "thief_local (s\<lparr>vs_next := x_6\<rparr>) pc = thief_local s pc"
  "thief_local (s\<lparr>vs_pc := x_7\<rparr>) pc = thief_local s pc"
  "thief_local (s\<lparr>vs_resumed := x_8\<rparr>) pc = thief_local s pc"
  "thief_local (s\<lparr>vs_dns := x_9\<rparr>) pc = thief_local s pc"
  "thief_local (s\<lparr>vs_stolen := x_10\<rparr>) pc = thief_local s pc"
  "thief_local (s\<lparr>vs_loot := x_11\<rparr>) pc = thief_local s pc"
  "thief_local (s\<lparr>vs_steal_lock := x_12\<rparr>) pc = thief_local s pc"
  "thief_local (s\<lparr>vs_frame_lock := x_13\<rparr>) pc = thief_local s pc"
  by (rule thief_local_cong; simp)+

lemma thief_local_push: "thief_local s pc \<Longrightarrow> thief_local (s\<lparr>vs_stack := vs_stack s @ [x]\<rparr>) pc"
  by (cases pc) (simp_all add: thief_local_def level_def)

lemma thief_local_idle [simp]: "thief_local s T_idle"
  by (simp add: thief_local_def)

lemma level_butlast: "vs_stack s \<noteq> [] \<Longrightarrow> int (length (butlast (vs_stack s))) = level s - 1"
  by (cases "vs_stack s" rule: rev_cases) (simp_all add: level_def)

lemma ptr_ok_init: "ptr_ok (vinit n)"
  by (simp add: ptr_ok_def vinit_def deque.defs deque_init_def mutex_init_def level_def victim_local_def thief_local_def crit_pc_def)

lemma ptr_ok_victim:
  assumes "lock_ok s" "ptr_ok s" "victim_step a s = Some s'" shows "ptr_ok s'"
proof -
  note k = assms(2) [unfolded ptr_ok_def victim_local_def]
  have vc: "victim_locked (vs_pc s) \<Longrightarrow> crit_pc s = T_idle"
    using lock_okD(3) [OF assms(1)] by (simp add: crit_pc_victim)
  show ?thesis
  proof (rule victim_cases [OF assms(1,3)])
    fix t assume *: "vs_pc s = V_fenced t" "\<not> t < de_exc s" "s' = (resume_parent s)\<lparr>vs_pc := V_run\<rparr>"
    have c: "crit_pc s' = crit_pc s" by (rule crit_pc_cong) (simp_all add: * resume_parent_def)
    have l: "level s' = level s - 1" using k level_butlast [of s] by (simp add: * resume_parent_def level_def)
    have h: "de_head s' = de_head s" "de_exc s' = de_exc s" "de_tail s' = de_tail s" by (simp_all add: * resume_parent_def)
    have t: "de_tail s = level s - 1" "t = de_tail s" "de_exc s = de_head s + (if raised (crit_pc s) then 1 else 0)" "0 \<le> de_head s"
      using k *(1) by simp_all
    have "thief_local s' (crit_pc s)"
      using k *(2) t l h by (cases "crit_pc s") (simp_all add: thief_local_def)
    then show ?thesis using t *(2) l c h by (simp add: ptr_ok_def victim_local_def *(3) split: if_splits)
  next
    assume *: "vs_pc s = V_test" "de_head s < de_tail s + 1" "s' = (resume_parent s)\<lparr>vs_pc := V_unlock To_run\<rparr>"
    have c: "crit_pc s = T_idle" using vc * by simp
    have c': "crit_pc s' = crit_pc s" by (rule crit_pc_cong) (simp_all add: * resume_parent_def)
    have l: "level s' = level s - 1" using k level_butlast [of s] by (simp add: * resume_parent_def level_def)
    have h: "de_head s' = de_head s" "de_exc s' = de_exc s" "de_tail s' = de_tail s" by (simp_all add: * resume_parent_def)
    show ?thesis using k * l c c' h by (simp add: ptr_ok_def victim_local_def thief_local_def)
  next
    fix p assume *: "vs_pc s = V_spin p" "mx_owner (vs_lock s) = None"
      "s' = s\<lparr>vs_lock := \<lparr>mx_lock = True, mx_owner = Some Victim\<rparr>, vs_pc := (case p of For_check \<Rightarrow> V_reset | For_setup \<Rightarrow> V_set_tail)\<rparr>"
    have "crit_pc s = T_idle" "crit_pc s' = T_idle" using * by (simp_all add: crit_pc_def)
    then show ?thesis using k * by (cases p) (simp_all add: ptr_ok_def victim_local_def thief_local_def level_def)
  next
    fix n assume *: "vs_pc s = V_unlock n" "s' = s\<lparr>vs_lock := (vs_lock s)\<lparr>mx_owner := None, mx_lock := False\<rparr>, vs_pc := V_release n\<rparr>"
    have "crit_pc s = T_idle" "crit_pc s' = T_idle" using * vc by (simp_all add: crit_pc_def)
    then show ?thesis using k * by (cases n) (simp_all add: ptr_ok_def victim_local_def thief_local_def level_def)
  next
    fix n assume *: "vs_pc s = V_release n" "s' = s\<lparr>vs_dns := False, vs_pc := (case n of To_run \<Rightarrow> V_run | To_stolen \<Rightarrow> V_stolen)\<rparr>"
    then show ?thesis using k by (cases n) (simp_all add: ptr_ok_def victim_local_def)
    next
    fix t assume *: "vs_pc s = V_pushed t" "s' = s\<lparr>de_tail := t + 1, vs_stack := vs_stack s @ [vs_next s], vs_next := vs_next s + 1, vs_pc := V_run\<rparr>"
    have "thief_local (s\<lparr>vs_stack := vs_stack s @ [vs_next s]\<rparr>) (crit_pc s)" using k by (intro thief_local_push) blast
    then have "thief_local s' (crit_pc s)" by (subst thief_local_cong [where s = "s\<lparr>vs_stack := vs_stack s @ [vs_next s]\<rparr>"]) (simp_all add: *)
    then show ?thesis using k * by (simp add: ptr_ok_def victim_local_def level_def)
  next
    fix p assume *: "vs_pc s = V_lock p" "s' = s\<lparr>vs_dns := True, vs_pc := V_spin p\<rparr>"
    then show ?thesis using k by (cases p) (simp_all add: ptr_ok_def victim_local_def)
  qed ((use k vc in \<open>simp_all add: ptr_ok_def victim_local_def\<close>), simp_all add: level_def)
qed

lemma crit_goto: "lock_ok s \<Longrightarrow> in_crit (vs_thief s i) \<Longrightarrow> crit_pc (thief_goto i pc s) = pc"
  using lock_okD(4) [of s i] by (simp add: crit_pc_def thief_goto_def)

lemma crit_goto_other:
  assumes "lock_ok s" "\<not> in_crit (vs_thief s i)" shows "crit_pc (thief_goto i pc s) = crit_pc s"
proof -
  have "mx_owner (vs_lock s) \<noteq> Some (Thief i)" using lock_okD(4) [OF assms(1), of i] assms(2) by simp
  then show ?thesis by (auto simp: crit_pc_def thief_goto_def split: option.splits who.splits)
qed

lemma goto_fields [simp]:
  "vs_pc (thief_goto i pc s) = vs_pc s" "vs_stack (thief_goto i pc s) = vs_stack s" "de_tail (thief_goto i pc s) = de_tail s"
  "de_head (thief_goto i pc s) = de_head s" "de_exc (thief_goto i pc s) = de_exc s" "de_ltq (thief_goto i pc s) = de_ltq s"
  "vs_next (thief_goto i pc s) = vs_next s" "vs_stolen (thief_goto i pc s) = vs_stolen s" "vs_loot (thief_goto i pc s) = vs_loot s"
  "vs_resumed (thief_goto i pc s) = vs_resumed s" "level (thief_goto i pc s) = level s" "vs_dns (thief_goto i pc s) = vs_dns s"
  "vs_thief (thief_goto i pc s) = (vs_thief s)(i := pc)" "vs_lock (thief_goto i pc s) = vs_lock s"
  "at_head h (thief_goto i pc s) = at_head h s"
  by (simp_all add: thief_goto_def level_def at_head_def)

lemma victim_local_goto [simp]: "victim_local (thief_goto i pc s) = victim_local s"
  by (simp only: victim_local_def goto_fields)

lemma thief_local_goto [simp]: "thief_local (thief_goto i pc s) = thief_local s"
  by (intro ext thief_local_cong) simp_all

lemma victim_local_cong:
  "vs_pc s' = vs_pc s \<Longrightarrow> de_tail s' = de_tail s \<Longrightarrow> de_head s' = de_head s \<Longrightarrow> de_ltq s' = de_ltq s \<Longrightarrow> vs_next s' = vs_next s \<Longrightarrow>
   vs_stack s' = vs_stack s \<Longrightarrow> level s' = level s \<Longrightarrow> victim_local s' = victim_local s"
  by (simp only: victim_local_def)

lemma victim_local_thief:
  "victim_local (s\<lparr>de_exc := e\<rparr>) = victim_local s" "victim_local (s\<lparr>vs_loot := xs\<rparr>) = victim_local s"
  "victim_local (s\<lparr>vs_steal_lock := m\<rparr>) = victim_local s" "victim_local (s\<lparr>vs_lock := m\<rparr>) = victim_local s"
  "victim_local (s\<lparr>vs_frame_lock := m\<rparr>) = victim_local s"
  by (rule victim_local_cong; simp add: level_def)+

lemma ptr_ok_goto:
  assumes "lock_ok s" "ptr_ok s" "in_crit (vs_thief s i)" "raised pc = raised (vs_thief s i)" "thief_local s pc"
  shows "ptr_ok (thief_goto i pc s)"
  using assms(2-5) crit_pc_thief [OF assms(1,3)] crit_goto [OF assms(1,3), of pc] by (simp add: ptr_ok_def)

lemma ptr_ok_goto_other:
  assumes "lock_ok s" "ptr_ok s" "\<not> in_crit (vs_thief s i)" shows "ptr_ok (thief_goto i pc s)"
  using assms(2) crit_goto_other [OF assms(1,3), of pc] by (simp add: ptr_ok_def)

lemma ptr_ok_goto_any:
  assumes "lock_ok s" "ptr_ok s" "in_crit (vs_thief s i) \<longrightarrow> raised pc = raised (vs_thief s i) \<and> thief_local s pc"
  shows "ptr_ok (thief_goto i pc s)"
  using assms(3) ptr_ok_goto [OF assms(1,2), of i pc] ptr_ok_goto_other [OF assms(1,2), of i pc] by blast

lemma victim_unlocked: "lock_ok s \<Longrightarrow> in_crit (vs_thief s i) \<Longrightarrow> \<not> victim_locked (vs_pc s)"
  using lock_okD(3) [of s] lock_okD(4) [of s i] by auto

lemma ptr_ok_steal_lock: "ptr_ok (s\<lparr>vs_steal_lock := m\<rparr>) = ptr_ok s" "ptr_ok (s\<lparr>vs_frame_lock := m\<rparr>) = ptr_ok s"
  by (simp_all add: ptr_ok_def victim_local_thief)

lemma ptr_ok_thief:
  assumes "lock_ok s" "ptr_ok s" "thief_step go i s = Some s'" "vs_thief s' i \<noteq> T_failed" shows "ptr_ok s'"
proof -
  note k = assms(2) [unfolded ptr_ok_def]
  have ex: "de_exc s = de_head s + (if raised (vs_thief s i) then 1 else 0)" "0 \<le> de_head s" "de_head s \<le> level s"
    "thief_local s (vs_thief s i)" "\<not> victim_locked (vs_pc s)" if "in_crit (vs_thief s i)"
  proof -
    have u: "\<not> victim_locked (vs_pc s)" by (rule victim_unlocked [OF assms(1) that])
    then have "vs_pc s \<noteq> V_set_head" "vs_pc s \<noteq> V_set_exc" by auto
    then show "de_exc s = de_head s + (if raised (vs_thief s i) then 1 else 0)" "0 \<le> de_head s" "de_head s \<le> level s"
      "thief_local s (vs_thief s i)" "\<not> victim_locked (vs_pc s)" using k u crit_pc_thief [OF assms(1) that] by simp_all
  qed
  have tl: "de_tail s \<le> level s" using k by simp
  show ?thesis
  proof (rule thief_cases [OF assms(1,3)])
    fix e assume *: "vs_thief s i = T_inc_write e" "s' = thief_goto i T_cmp_tail (s\<lparr>de_exc := e + 1\<rparr>)"
    have c: "crit_pc s' = T_cmp_tail" unfolding *(2) by (rule crit_goto) (use assms(1) *(1) in simp_all)
    have "in_crit (vs_thief s i)" using *(1) by simp
    note e = ex [OF this, unfolded *(1)]
    show ?thesis using k e *(2) c by (simp add: ptr_ok_def victim_local_thief thief_local_def)
  next
    fix e assume *: "vs_thief s i = T_dec_write e" "s' = thief_goto i T_unlock (s\<lparr>de_exc := e - 1\<rparr>)"
    have c: "crit_pc s' = T_unlock" unfolding *(2) by (rule crit_goto) (use assms(1) *(1) in simp_all)
    have "in_crit (vs_thief s i)" using *(1) by simp
    note e = ex [OF this, unfolded *(1)]
    show ?thesis using k e *(2) c by (simp add: ptr_ok_def victim_local_thief thief_local_def)
  next
    fix h assume *: "vs_thief s i = T_set_head h"
      "s' = thief_goto i (T_frame_lock h) (s\<lparr>de_head := h + 1, vs_stolen := vs_stolen s @ at_head h s\<rparr>)"
    have c: "crit_pc s' = T_frame_lock h" unfolding *(2) by (rule crit_goto) (use assms(1) *(1) in simp_all)
    have "in_crit (vs_thief s i)" using *(1) by simp
    note e = ex [OF this, unfolded *(1)]
    have h: "h = de_head s" "h < level s" using e(4) by (simp_all add: thief_local_def)
    have np: "vs_pc s \<noteq> V_set_head" "vs_pc s \<noteq> V_set_exc" "vs_pc s \<noteq> V_set_tail" using e(5) by auto
    have nl: "victim_local s'" using k np h unfolding *(2) by (cases "vs_pc s") (simp_all add: victim_local_def split: purpose.splits after.splits)
    show ?thesis using k e(1) np c h nl unfolding *(2) by (simp add: ptr_ok_def thief_local_def)
  next
    fix h sf assume *: "vs_thief s i = T_take h" "s' = thief_goto i T_frame_unlock (s\<lparr>vs_loot := vs_loot s @ [sf]\<rparr>)"
    have c: "crit_pc s' = T_frame_unlock" unfolding *(2) by (rule crit_goto) (use assms(1) *(1) in simp_all)
    have "in_crit (vs_thief s i)" using *(1) by simp
    note e = ex [OF this, unfolded *(1)]
    show ?thesis using k e *(2) c by (simp add: ptr_ok_def victim_local_thief thief_local_def)
  next
    assume *: "vs_thief s i = T_trylock" "mx_owner (vs_lock s) = None"
      "s' = thief_goto i (T_unsteal True) (s\<lparr>vs_lock := \<lparr>mx_lock = True, mx_owner = Some (Thief i)\<rparr>\<rparr>)"
    have c: "crit_pc s = T_idle" "crit_pc s' = T_unsteal True" using * by (simp_all add: crit_pc_def thief_goto_def)
    show ?thesis using k * c by (simp add: ptr_ok_def victim_local_thief thief_local_def)
  next
    assume *: "vs_thief s i = T_unlock" "s' = thief_goto i T_idle (s\<lparr>vs_lock := (vs_lock s)\<lparr>mx_owner := None, mx_lock := False\<rparr>\<rparr>)"
    have c: "crit_pc s = T_unlock" "crit_pc s' = T_idle" using crit_pc_thief [OF assms(1), of i] * by (simp_all add: crit_pc_def thief_goto_def)
    show ?thesis using k * c by (simp add: ptr_ok_def victim_local_thief thief_local_def)
  next
    fix h assume *: "vs_thief s i = T_detach h" "s' = thief_goto i (T_set_head h) s"
    have "in_crit (vs_thief s i)" using *(1) by simp
    note e = ex [OF this, unfolded *(1)]
    show ?thesis unfolding *(2) using e(4) *(1) by (intro ptr_ok_goto [OF assms(1,2)]) (simp_all add: thief_local_def)
  next
    fix h assume *: "vs_thief s i = T_frame_lock h"
      "s' = thief_goto i (T_take h) (s\<lparr>vs_frame_lock := \<lparr>mx_lock = True, mx_owner = Some (Thief i)\<rparr>\<rparr>)"
    have "in_crit (vs_thief s i)" using *(1) by simp
    note e = ex [OF this, unfolded *(1)]
    have "ptr_ok (thief_goto i (T_take h) s)"
      using e(4) *(1) by (intro ptr_ok_goto [OF assms(1,2)]) (simp_all add: thief_local_def)
    moreover have "s' = (thief_goto i (T_take h) s)\<lparr>vs_frame_lock := \<lparr>mx_lock = True, mx_owner = Some (Thief i)\<rparr>\<rparr>"
      unfolding *(2) by (simp add: thief_goto_def)
    ultimately show ?thesis by (simp add: ptr_ok_steal_lock)
  next
    assume *: "vs_thief s i = T_frame_unlock"
      "s' = thief_goto i T_unlock (s\<lparr>vs_frame_lock := (vs_frame_lock s)\<lparr>mx_owner := None, mx_lock := False\<rparr>\<rparr>)"
    have "ptr_ok (thief_goto i T_unlock s)" using *(1) by (intro ptr_ok_goto [OF assms(1,2)]) (simp_all add: thief_local_def)
    moreover have "s' = (thief_goto i T_unlock s)\<lparr>vs_frame_lock := (vs_frame_lock s)\<lparr>mx_owner := None, mx_lock := False\<rparr>\<rparr>"
      unfolding *(2) by (simp add: thief_goto_def)
    ultimately show ?thesis by (simp add: ptr_ok_steal_lock)
  next
    fix b assume *: "vs_thief s i = T_unsteal b"
      "s' = thief_goto i (if b then T_in else T_idle) (s\<lparr>vs_steal_lock := (vs_steal_lock s)\<lparr>mx_owner := None, mx_lock := False\<rparr>\<rparr>)"
    let ?m = "(vs_steal_lock s)\<lparr>mx_owner := None, mx_lock := False\<rparr>"
    have "ptr_ok (thief_goto i (if b then T_in else T_idle) s)"
    proof (cases b)
      case True
      show ?thesis by (rule ptr_ok_goto [OF assms(1,2)]) (use True * in \<open>simp_all add: thief_local_def\<close>)
    next
      case False
      show ?thesis by (rule ptr_ok_goto_other [OF assms(1,2)]) (use False * in simp)
    qed
    moreover have "s' = (thief_goto i (if b then T_in else T_idle) s)\<lparr>vs_steal_lock := ?m\<rparr>" unfolding *(2) by (simp add: thief_goto_def)
    ultimately show ?thesis by (simp add: ptr_ok_steal_lock)
  next
    assume *: "vs_thief s i = T_steal_lock" "s' = thief_goto i T_dns (s\<lparr>vs_steal_lock := \<lparr>mx_lock = True, mx_owner = Some (Thief i)\<rparr>\<rparr>)"
    have "ptr_ok (thief_goto i T_dns s)" by (rule ptr_ok_goto_other [OF assms(1,2)]) (use * in simp)
    moreover have "s' = (thief_goto i T_dns s)\<lparr>vs_steal_lock := \<lparr>mx_lock = True, mx_owner = Some (Thief i)\<rparr>\<rparr>" unfolding *(2) by (simp add: thief_goto_def)
    ultimately show ?thesis by (simp add: ptr_ok_steal_lock)
  next
    assume *: "vs_thief s i = T_cmp_tail" "de_head s < de_tail s" "s' = thief_goto i T_cmp_prot s"
    then show ?thesis unfolding *(3) using tl by (intro ptr_ok_goto [OF assms(1,2)]) (simp_all add: thief_local_def)
  next
    assume *: "vs_thief s i = T_cmp_prot" "s' = thief_goto i T_won s"
    have "in_crit (vs_thief s i)" using *(1) by simp
    note e = ex [OF this, unfolded *(1)]
    show ?thesis unfolding *(2) using e(4) *(1) by (intro ptr_ok_goto [OF assms(1,2)]) (simp_all add: thief_local_def)
  next
    assume *: "vs_thief s i = T_won" "s' = thief_goto i (T_detach (de_head s)) s"
    have "in_crit (vs_thief s i)" using *(1) by simp
    note e = ex [OF this, unfolded *(1)]
    show ?thesis unfolding *(2) using e(4) *(1) by (intro ptr_ok_goto [OF assms(1,2)]) (simp_all add: thief_local_def)
  qed (use assms(4) in \<open>simp_all add: ptr_ok_goto_any [OF assms(1,2)] thief_local_def\<close>)
qed

subsection \<open>Continuations\<close>

text \<open>The continuations of the strand are in the deque, those in front of the head are stolen; every continuation that was pushed
  is still one of the strand, or stolen, or the victim came back to it, and never both.\<close>

definition slots_ok :: "vstate \<Rightarrow> bool" where
  "slots_ok s \<longleftrightarrow> (\<forall>k<length (vs_stack s). k < length (de_ltq s) \<and> de_ltq s ! k = Some (vs_stack s ! k))"

definition ghost_ok :: "vstate \<Rightarrow> bool" where
  "ghost_ok s \<longleftrightarrow> sorted_wrt (<) (vs_stack s) \<and> sorted_wrt (<) (vs_stolen s) \<and> distinct (vs_resumed s) \<and>
     (\<forall>k<length (vs_stack s). vs_stack s ! k \<in> set (vs_stolen s) \<longleftrightarrow> int k < de_head s) \<and>
     (\<forall>x\<in>set (vs_stolen s). \<forall>k<length (vs_stack s). de_head s \<le> int k \<longrightarrow> x < vs_stack s ! k) \<and>
     set (vs_resumed s) \<inter> set (vs_stolen s) = {} \<and> set (vs_resumed s) \<inter> set (vs_stack s) = {} \<and>
     set (vs_resumed s) \<union> set (vs_stolen s) \<union> set (vs_stack s) = {..<vs_next s}"

definition loot_ok :: "vstate \<Rightarrow> bool" where
  "loot_ok s \<longleftrightarrow> (case crit_pc s of
     T_frame_lock h \<Rightarrow> \<exists>sf. 0 \<le> h \<and> nat h < length (vs_stack s) \<and> sf = vs_stack s ! nat h \<and> vs_stolen s = vs_loot s @ [sf]
   | T_take h \<Rightarrow> \<exists>sf. 0 \<le> h \<and> nat h < length (vs_stack s) \<and> sf = vs_stack s ! nat h \<and> vs_stolen s = vs_loot s @ [sf]
   | _ \<Rightarrow> vs_loot s = vs_stolen s)"

lemma ghost_ok_init: "slots_ok (vinit n)" "ghost_ok (vinit n)" "loot_ok (vinit n)"
  by (simp_all add: slots_ok_def ghost_ok_def loot_ok_def vinit_def deque.defs deque_init_def mutex_init_def crit_pc_def)

lemma slots_ok_victim:
  assumes "lock_ok s" "ptr_ok s" "slots_ok s" "victim_step a s = Some s'" shows "slots_ok s'"
proof -
  have tail: "de_tail s = level s" "t = de_tail s" "0 \<le> t \<and> t < int (length (de_ltq s)) \<and> de_ltq s ! nat t = Some (vs_next s)"
    if "vs_pc s = V_pushed t" for t using assms(2) that by (auto simp: ptr_ok_def victim_local_def)
  have push: "t = level s" if "vs_pc s = V_push t" for t using assms(2) that by (simp add: ptr_ok_def victim_local_def)
  show ?thesis
  proof (rule victim_cases [OF assms(1,4)])
    fix t assume *: "vs_pc s = V_push t" "0 \<le> t" "t < int (length (de_ltq s))"
      "s' = s\<lparr>de_ltq := (de_ltq s)[nat t := Some (vs_next s)], vs_pc := V_pushed t\<rparr>"
    have "nat t = length (vs_stack s)" using push [OF *(1)] by (simp add: level_def)
    then show ?thesis using assms(3) *(4) by (simp add: slots_ok_def)
  next
    fix t assume *: "vs_pc s = V_pushed t" "s' = s\<lparr>de_tail := t + 1, vs_stack := vs_stack s @ [vs_next s], vs_next := vs_next s + 1, vs_pc := V_run\<rparr>"
    have t: "nat t = length (vs_stack s)" "nat t < length (de_ltq s)" "de_ltq s ! nat t = Some (vs_next s)"
      using tail [OF *(1)] by (auto simp: level_def)
    show ?thesis using assms(3) t unfolding slots_ok_def *(2) by (auto simp: nth_append less_Suc_eq)
  qed (use assms(3) in \<open>simp_all add: slots_ok_def resume_parent_def nth_butlast\<close>)
qed

lemma stack_last:
  assumes "sorted_wrt (<) (xs :: nat list)" "xs \<noteq> []"
  obtains ys y where "xs = ys @ [y]" "last xs = y" "butlast xs = ys" "y \<notin> set ys" "sorted_wrt (<) ys"
  using assms by (cases xs rule: rev_cases) (auto simp: sorted_wrt_append)

lemma ghost_ok_resume:
  assumes g: "ghost_ok s" and h: "vs_stack s \<noteq> []" "de_head s \<le> level s - 1"
    and s': "vs_stack s' = butlast (vs_stack s)" "vs_resumed s' = vs_resumed s @ [last (vs_stack s)]"
      "vs_stolen s' = vs_stolen s" "de_head s' = de_head s" "vs_next s' = vs_next s"
  shows "ghost_ok s'"
proof -
  have srt: "sorted_wrt (<) (vs_stack s)" using g by (simp add: ghost_ok_def)
  obtain ys y where y: "vs_stack s = ys @ [y]" "last (vs_stack s) = y" "butlast (vs_stack s) = ys" "y \<notin> set ys" "sorted_wrt (<) ys"
    by (rule stack_last [OF srt h(1)])
  have ns: "y \<notin> set (vs_stolen s)"
  proof
    assume "y \<in> set (vs_stolen s)"
    then have "int (length ys) < de_head s" using g y(1) unfolding ghost_ok_def by (metis length_append_singleton lessI nth_append_length)
    then show False using h(2) y(1) by (simp add: level_def)
  qed
  note g' = g [unfolded ghost_ok_def y(1)]
  have a: "\<forall>k<length ys. ys ! k \<in> set (vs_stolen s) \<longleftrightarrow> int k < de_head s"
    using g' by (auto simp: nth_append split: if_splits)
  have b: "\<forall>x\<in>set (vs_stolen s). \<forall>k<length ys. de_head s \<le> int k \<longrightarrow> x < ys ! k"
    using g' by (auto simp: nth_append split: if_splits)
  show ?thesis unfolding ghost_ok_def s' y(2,3) using g' y(4,5) ns a b by auto
qed

lemma ghost_ok_same:
  assumes "ghost_ok s" "vs_stack s' = vs_stack s" "vs_resumed s' = vs_resumed s" "vs_stolen s' = vs_stolen s" "de_head s' = de_head s" "vs_next s' = vs_next s"
  shows "ghost_ok s'"
  using assms by (simp add: ghost_ok_def)

lemma ghost_ok_victim:
  assumes "lock_ok s" "ptr_ok s" "ghost_ok s" "victim_step a s = Some s'" shows "ghost_ok s'"
proof -
  note k = assms(2) [unfolded ptr_ok_def victim_local_def]
  note g = assms(3) [unfolded ghost_ok_def]
  show ?thesis
  proof (rule victim_cases [OF assms(1,4)])
    fix t assume *: "vs_pc s = V_pushed t" "s' = s\<lparr>de_tail := t + 1, vs_stack := vs_stack s @ [vs_next s], vs_next := vs_next s + 1, vs_pc := V_run\<rparr>"
    have lt: "x < vs_next s" if "x \<in> set (vs_resumed s) \<union> set (vs_stolen s) \<union> set (vs_stack s)" for x using g that by auto
    have h: "de_head s \<le> level s" using k *(1) by simp
    have nst: "vs_next s \<notin> set (vs_stolen s)" "vs_next s \<notin> set (vs_resumed s)" using lt by (meson UnI1 UnI2 less_irrefl)+
    have a: "\<forall>j<Suc (length (vs_stack s)). (vs_stack s @ [vs_next s]) ! j \<in> set (vs_stolen s) \<longleftrightarrow> int j < de_head s"
      using g h nst(1) by (auto simp: less_Suc_eq nth_append level_def)
    have b: "\<forall>x\<in>set (vs_stolen s). \<forall>j<Suc (length (vs_stack s)). de_head s \<le> int j \<longrightarrow> x < (vs_stack s @ [vs_next s]) ! j"
      using g lt by (auto simp: less_Suc_eq nth_append)
    have c: "sorted_wrt (<) (vs_stack s @ [vs_next s])" using g lt by (auto simp: sorted_wrt_append)
    have d: "set (vs_resumed s) \<union> set (vs_stolen s) \<union> set (vs_stack s @ [vs_next s]) = {..<vs_next s + 1}" using g by auto
    show ?thesis unfolding ghost_ok_def *(2) using g a b c d nst(2) by simp
  next
    fix t assume *: "vs_pc s = V_fenced t" "\<not> t < de_exc s" "s' = (resume_parent s)\<lparr>vs_pc := V_run\<rparr>"
    have "t = level s - 1" "de_head s \<le> de_exc s" "vs_stack s \<noteq> []" using k *(1) by auto
    then show ?thesis using * by (intro ghost_ok_resume [OF assms(3)]) (simp_all add: resume_parent_def)
  next
    assume *: "vs_pc s = V_test" "de_head s < de_tail s + 1" "s' = (resume_parent s)\<lparr>vs_pc := V_unlock To_run\<rparr>"
    have "de_tail s = level s - 1" "vs_stack s \<noteq> []" using k *(1) by auto
    then show ?thesis using * by (intro ghost_ok_resume [OF assms(3)]) (simp_all add: resume_parent_def)
  next
    assume *: "vs_pc s = V_set_tail" "s' = s\<lparr>de_tail := 0, vs_stack := [], vs_pc := V_set_head\<rparr>"
    have "de_head s = level s" using k *(1) by simp
    then have "set (vs_stack s) \<subseteq> set (vs_stolen s)" using g by (auto simp: in_set_conv_nth level_def)
    then show ?thesis unfolding ghost_ok_def *(2) using g by auto
  next
    assume *: "vs_pc s = V_set_head" "s' = s\<lparr>de_head := de_tail s, vs_pc := V_set_exc\<rparr>"
    have "vs_stack s = []" using k *(1) by simp
    then show ?thesis unfolding ghost_ok_def *(2) using g by simp
  qed ((rule ghost_ok_same [OF assms(3)]; simp)+)
qed

lemma slots_ok_thief:
  assumes "slots_ok s" "lock_ok s" "thief_step go i s = Some s'" shows "slots_ok s'"
  by (rule thief_cases [OF assms(2,3)]) (use assms(1) in \<open>simp_all add: slots_ok_def\<close>)

text \<open>The frame that a thief detaches is the oldest one of the deque.\<close>

lemma detach_head:
  assumes "lock_ok s" "ptr_ok s" "slots_ok s" "vs_thief s i = T_detach h \<or> vs_thief s i = T_set_head h"
  obtains "h = de_head s" "0 \<le> h" "nat h < length (vs_stack s)" "nat h < length (de_ltq s)" "de_ltq s ! nat h = Some (vs_stack s ! nat h)"
proof -
  have c: "in_crit (vs_thief s i)" using assms(4) by auto
  have "thief_local s (vs_thief s i)" "vs_pc s \<noteq> V_set_head"
    using assms(2) crit_pc_thief [OF assms(1) c] victim_unlocked [OF assms(1) c] by (auto simp: ptr_ok_def)
  then have "thief_local s (T_set_head h)" "vs_pc s \<noteq> V_set_head" using assms(4) by (auto simp: thief_local_def)
  then have "h = de_head s" "0 \<le> h" "nat h < length (vs_stack s)" using assms(2) by (auto simp: ptr_ok_def thief_local_def level_def)
  then show thesis using that assms(3) by (simp add: slots_ok_def)
qed

lemma ghost_ok_thief:
  assumes "lock_ok s" "ptr_ok s" "slots_ok s" "ghost_ok s" "thief_step go i s = Some s'" shows "ghost_ok s'"
proof (rule thief_cases [OF assms(1,5)])
  fix h assume at: "vs_thief s i = T_set_head h"
    and s': "s' = thief_goto i (T_frame_lock h) (s\<lparr>de_head := h + 1, vs_stolen := vs_stolen s @ at_head h s\<rparr>)"
  obtain h: "h = de_head s" "0 \<le> h" "nat h < length (vs_stack s)" "de_ltq s ! nat h = Some (vs_stack s ! nat h)"
    by (rule detach_head [OF assms(1-3) disjI2 [OF at]])
  define j where "j = nat h"
  define sf where "sf = vs_stack s ! j"
  have j: "h = int j" "de_head s = int j" "j < length (vs_stack s)" "sf = vs_stack s ! j" using h by (auto simp: j_def sf_def)
  have s'2: "s' = thief_goto i (T_frame_lock h) (s\<lparr>de_head := h + 1, vs_stolen := vs_stolen s @ [sf]\<rparr>)"
    using h by (simp add: s' at_head_def sf_def j_def)
  note g = assms(4) [unfolded ghost_ok_def j(2)]
  have srt: "vs_stack s ! a < vs_stack s ! b" if "a < b" "b < length (vs_stack s)" for a b
    using g that by (simp add: sorted_wrt_iff_nth_less)
  have inj: "vs_stack s ! a = vs_stack s ! b \<longleftrightarrow> a = b" if "a < length (vs_stack s)" "b < length (vs_stack s)" for a b
    using srt [of a b] srt [of b a] that by (cases a b rule: linorder_cases) auto
  have last: "x < sf" if "x \<in> set (vs_stolen s)" for x using g j(3,4) that by simp
  have a: "\<forall>k<length (vs_stack s). vs_stack s ! k \<in> set (vs_stolen s @ [sf]) \<longleftrightarrow> int k < int j + 1"
    using g inj j(3,4) by (auto simp: less_Suc_eq)
  have b: "\<forall>x\<in>set (vs_stolen s @ [sf]). \<forall>k<length (vs_stack s). int j + 1 \<le> int k \<longrightarrow> x < vs_stack s ! k"
    using g srt j(4) by auto
  have c: "sorted_wrt (<) (vs_stolen s @ [sf])" using g last by (auto simp: sorted_wrt_append)
  have d: "sf \<in> set (vs_stack s)" using j(3,4) by simp
  show ?thesis unfolding ghost_ok_def s'2 goto_fields using g a b c d by (auto simp: j(1))
qed (rule ghost_ok_same [OF assms(4)]; simp)+

lemma loot_ok_same:
  assumes "loot_ok s" "crit_pc s' = crit_pc s" "vs_stack s' = vs_stack s" "vs_stolen s' = vs_stolen s" "vs_loot s' = vs_loot s"
  shows "loot_ok s'"
  using assms by (simp only: loot_ok_def)

lemma loot_ok_same':
  assumes "loot_ok s" "vs_lock s' = vs_lock s" "vs_thief s' = vs_thief s" "vs_stack s' = vs_stack s" "vs_stolen s' = vs_stolen s" "vs_loot s' = vs_loot s"
  shows "loot_ok s'"
  by (rule loot_ok_same [OF assms(1) crit_pc_cong]) (use assms in simp_all)

lemma loot_ok_victim:
  assumes "lock_ok s" "ptr_ok s" "loot_ok s" "victim_step a s = Some s'" shows "loot_ok s'"
proof -
  note k = assms(2) [unfolded ptr_ok_def victim_local_def]
  have vc: "victim_locked (vs_pc s) \<Longrightarrow> crit_pc s = T_idle"
    using lock_okD(3) [OF assms(1)] by (simp add: crit_pc_victim)
  show ?thesis
  proof (rule victim_cases [OF assms(1,4)])
    fix t assume *: "vs_pc s = V_pushed t" "s' = s\<lparr>de_tail := t + 1, vs_stack := vs_stack s @ [vs_next s], vs_next := vs_next s + 1, vs_pc := V_run\<rparr>"
    show ?thesis using assms(3) unfolding *(2) by (cases "crit_pc s") (simp_all add: loot_ok_def nth_append)
  next
    fix t assume *: "vs_pc s = V_fenced t" "\<not> t < de_exc s" "s' = (resume_parent s)\<lparr>vs_pc := V_run\<rparr>"
    have c: "crit_pc s' = crit_pc s" by (rule crit_pc_cong) (simp_all add: * resume_parent_def)
    have t: "t = level s - 1" "de_head s \<le> de_exc s" "vs_stack s \<noteq> []" using k *(1) by auto
    have "nat h < length (vs_stack s) - 1" if "crit_pc s = T_take h \<or> crit_pc s = T_frame_lock h" for h
      using t *(2) k that by (auto simp: thief_local_def level_def)
    then show ?thesis using assms(3) c unfolding *(3) by (cases "crit_pc s") (simp_all add: loot_ok_def resume_parent_def nth_butlast)
  next
    assume *: "vs_pc s = V_test" "s' = (resume_parent s)\<lparr>vs_pc := V_unlock To_run\<rparr>"
    have "crit_pc s' = crit_pc s" by (rule crit_pc_cong) (simp_all add: * resume_parent_def)
    then show ?thesis using assms(3) vc * by (simp add: loot_ok_def resume_parent_def)
  next
    fix p assume *: "vs_pc s = V_spin p" "mx_owner (vs_lock s) = None"
      "s' = s\<lparr>vs_lock := \<lparr>mx_lock = True, mx_owner = Some Victim\<rparr>, vs_pc := (case p of For_check \<Rightarrow> V_reset | For_setup \<Rightarrow> V_set_tail)\<rparr>"
    have "crit_pc s = T_idle" "crit_pc s' = T_idle" using * by (simp_all add: crit_pc_def)
    then show ?thesis using assms(3) * by (simp add: loot_ok_def)
  next
    fix n assume *: "vs_pc s = V_unlock n" "s' = s\<lparr>vs_lock := (vs_lock s)\<lparr>mx_owner := None, mx_lock := False\<rparr>, vs_pc := V_release n\<rparr>"
    have "crit_pc s = T_idle" "crit_pc s' = T_idle" using * vc by (simp_all add: crit_pc_def)
    then show ?thesis using assms(3) * by (simp add: loot_ok_def)
  next
    assume *: "vs_pc s = V_set_tail" "s' = s\<lparr>de_tail := 0, vs_stack := [], vs_pc := V_set_head\<rparr>"
    have "crit_pc s = T_idle" using * vc by simp
    then show ?thesis using assms(3) * by (simp add: loot_ok_def)
  qed ((rule loot_ok_same' [OF assms(3)]; simp)+)
qed

lemma loot_ok_thief:
  assumes "lock_ok s" "ptr_ok s" "slots_ok s" "loot_ok s" "thief_step go i s = Some s'" shows "loot_ok s'"
proof -
  have other: "loot_ok (thief_goto i pc s)" if "\<not> in_crit (vs_thief s i)" for pc
    using assms(4) crit_goto_other [OF assms(1) that] unfolding loot_ok_def goto_fields by metis
  have crit: "loot_ok (thief_goto i pc s)" if "in_crit (vs_thief s i)" "\<forall>h. vs_thief s i \<noteq> T_take h" "\<forall>h. vs_thief s i \<noteq> T_frame_lock h"
    "\<forall>h. pc \<noteq> T_take h" "\<forall>h. pc \<noteq> T_frame_lock h" for pc
  proof -
    have "vs_loot s = vs_stolen s" using assms(4) that(2,3) crit_pc_thief [OF assms(1) that(1)] by (cases "vs_thief s i") (simp_all add: loot_ok_def)
    then show ?thesis using crit_goto [OF assms(1) that(1)] that(4,5) by (cases pc) (simp_all add: loot_ok_def)
  qed
  show ?thesis
  proof (rule thief_cases [OF assms(1,5)])
    fix h assume *: "vs_thief s i = T_set_head h"
      "s' = thief_goto i (T_frame_lock h) (s\<lparr>de_head := h + 1, vs_stolen := vs_stolen s @ at_head h s\<rparr>)"
    obtain h: "0 \<le> h" "nat h < length (vs_stack s)" "de_ltq s ! nat h = Some (vs_stack s ! nat h)"
      by (rule detach_head [OF assms(1-3) disjI2 [OF *(1)]])
    have c: "crit_pc s' = T_frame_lock h" unfolding *(2) by (rule crit_goto) (use assms(1) *(1) in simp_all)
    have "vs_loot s = vs_stolen s" using assms(4) crit_pc_thief [OF assms(1), of i] *(1) by (simp add: loot_ok_def)
    then show ?thesis using c h by (simp add: loot_ok_def *(2) at_head_def)
  next
    fix h assume *: "vs_thief s i = T_frame_lock h"
      "s' = thief_goto i (T_take h) (s\<lparr>vs_frame_lock := \<lparr>mx_lock = True, mx_owner = Some (Thief i)\<rparr>\<rparr>)"
    have "crit_pc s' = crit_pc (thief_goto i (T_take h) s)" unfolding *(2) by (rule crit_pc_cong) simp_all
    also have "\<dots> = T_take h" by (rule crit_goto) (use assms(1) *(1) in simp_all)
    finally have c: "crit_pc s' = T_take h" .
    show ?thesis using assms(4) crit_pc_thief [OF assms(1), of i] *(1) c by (simp add: loot_ok_def *(2))
  next
    assume *: "vs_thief s i = T_frame_unlock"
      "s' = thief_goto i T_unlock (s\<lparr>vs_frame_lock := (vs_frame_lock s)\<lparr>mx_owner := None, mx_lock := False\<rparr>\<rparr>)"
    have l: "loot_ok (thief_goto i T_unlock s)" using crit [of T_unlock] *(1) by simp
    show ?thesis unfolding *(2) by (rule loot_ok_same' [OF l]) simp_all
  next
    fix h sf assume *: "vs_thief s i = T_take h" "de_ltq s ! nat h = Some sf" "s' = thief_goto i T_frame_unlock (s\<lparr>vs_loot := vs_loot s @ [sf]\<rparr>)"
    have c: "crit_pc s' = T_frame_unlock" unfolding *(3) by (rule crit_goto) (use assms(1) *(1) in simp_all)
    have "nat h < length (vs_stack s)" "vs_stolen s = vs_loot s @ [vs_stack s ! nat h]"
      using assms(4) crit_pc_thief [OF assms(1), of i] *(1) by (simp_all add: loot_ok_def)
    then show ?thesis using c *(2) assms(3) by (simp add: loot_ok_def *(3) slots_ok_def)
  next
    assume *: "vs_thief s i = T_trylock" "mx_owner (vs_lock s) = None"
      "s' = thief_goto i (T_unsteal True) (s\<lparr>vs_lock := \<lparr>mx_lock = True, mx_owner = Some (Thief i)\<rparr>\<rparr>)"
    have c: "crit_pc s = T_idle" "crit_pc s' = T_unsteal True" using * by (simp_all add: crit_pc_def thief_goto_def)
    then show ?thesis using assms(4) * by (simp add: loot_ok_def)
  next
    assume *: "vs_thief s i = T_unlock" "s' = thief_goto i T_idle (s\<lparr>vs_lock := (vs_lock s)\<lparr>mx_owner := None, mx_lock := False\<rparr>\<rparr>)"
    have c: "crit_pc s = T_unlock" "crit_pc s' = T_idle" using crit_pc_thief [OF assms(1), of i] * by (simp_all add: crit_pc_def thief_goto_def)
    then show ?thesis using assms(4) * by (simp add: loot_ok_def)
  next
    fix b assume *: "vs_thief s i = T_unsteal b"
      "s' = thief_goto i (if b then T_in else T_idle) (s\<lparr>vs_steal_lock := (vs_steal_lock s)\<lparr>mx_owner := None, mx_lock := False\<rparr>\<rparr>)"
    have l: "loot_ok (thief_goto i (if b then T_in else T_idle) s)" using other [of T_idle] crit [of T_in] *(1) by (cases b) simp_all
    show ?thesis unfolding *(2) by (rule loot_ok_same' [OF l]) simp_all
  next
    assume *: "vs_thief s i = T_steal_lock" "s' = thief_goto i T_dns (s\<lparr>vs_steal_lock := \<lparr>mx_lock = True, mx_owner = Some (Thief i)\<rparr>\<rparr>)"
    have l: "loot_ok (thief_goto i T_dns s)" using other [of T_dns] *(1) by simp
    show ?thesis unfolding *(2) by (rule loot_ok_same' [OF l]) simp_all
  next
    fix e assume *: "vs_thief s i = T_inc_write e" "s' = thief_goto i T_cmp_tail (s\<lparr>de_exc := e + 1\<rparr>)"
    have l: "loot_ok (thief_goto i T_cmp_tail s)" using crit [of T_cmp_tail] *(1) by simp
    show ?thesis unfolding *(2) by (rule loot_ok_same' [OF l]) simp_all
  next
    fix e assume *: "vs_thief s i = T_dec_write e" "s' = thief_goto i T_unlock (s\<lparr>de_exc := e - 1\<rparr>)"
    have l: "loot_ok (thief_goto i T_unlock s)" using crit [of T_unlock] *(1) by simp
    show ?thesis unfolding *(2) by (rule loot_ok_same' [OF l]) simp_all
  next
    fix h assume *: "vs_thief s i = T_take h" "de_ltq s ! nat h = None" "s' = thief_goto i T_failed s"
    have "nat h < length (vs_stack s)" using assms(4) crit_pc_thief [OF assms(1), of i] *(1) by (simp add: loot_ok_def)
    then show ?thesis using *(2) assms(3) by (simp add: slots_ok_def)
  qed (use other crit in simp_all)
qed

text \<open>The assertion on the stolen frame holds.\<close>

lemma thief_not_failed:
  assumes "lock_ok s" "ptr_ok s" "slots_ok s" "loot_ok s" "thief_step go i s = Some s'" shows "vs_thief s' i \<noteq> T_failed"
proof (rule thief_cases [OF assms(1,5)])
  fix h assume *: "vs_thief s i = T_detach h" "\<not> (0 \<le> h \<and> h < int (length (de_ltq s)) \<and> de_ltq s ! nat h \<noteq> None)"
  obtain "0 \<le> h" "nat h < length (de_ltq s)" "de_ltq s ! nat h = Some (vs_stack s ! nat h)"
    by (rule detach_head [OF assms(1-3) disjI1 [OF *(1)]])
  then show ?thesis using *(2) by auto
next
  fix h assume *: "vs_thief s i = T_take h" "de_ltq s ! nat h = None"
  have "nat h < length (vs_stack s)" using assms(4) crit_pc_thief [OF assms(1), of i] *(1) by (simp add: loot_ok_def)
  then show ?thesis using *(2) assms(3) by (simp add: slots_ok_def)
qed simp_all

subsection \<open>All reachable states\<close>

text \<open>Another worker only changes the lock of the frame.\<close>

definition but_frame_lock :: "vstate \<Rightarrow> bool" where
  "but_frame_lock s \<longleftrightarrow> ptr_ok s \<and> slots_ok s \<and> ghost_ok s \<and> loot_ok s"

lemma but_frame_lock: "but_frame_lock (s\<lparr>vs_frame_lock := m\<rparr>) = but_frame_lock s"
proof -
  have "loot_ok (s\<lparr>vs_frame_lock := m\<rparr>) = loot_ok s" by (cases "crit_pc s") (simp_all add: loot_ok_def)
  then show ?thesis by (simp add: but_frame_lock_def ptr_ok_steal_lock slots_ok_def ghost_ok_def)
qed

definition deque_inv :: "vstate \<Rightarrow> bool" where
  "deque_inv s \<longleftrightarrow> lock_ok s \<and> ptr_ok s \<and> slots_ok s \<and> ghost_ok s \<and> loot_ok s"

lemma deque_inv_step:
  assumes "deque_inv s" "dstep s s'" shows "deque_inv s'"
proof -
  have k: "lock_ok s" "ptr_ok s" "slots_ok s" "ghost_ok s" "loot_ok s" using assms(1) by (simp_all add: deque_inv_def)
  from assms(2) show ?thesis
  proof cases
    case (victim a)
    then show ?thesis using k lock_ok_victim ptr_ok_victim slots_ok_victim ghost_ok_victim loot_ok_victim by (simp add: deque_inv_def)
  next
    case (thief go i)
    have n: "vs_thief s' i \<noteq> T_failed" by (rule thief_not_failed [OF k(1-3,5) thief])
    show ?thesis unfolding deque_inv_def
      using lock_ok_thief [OF k(1) thief n] ptr_ok_thief [OF k(1,2) thief n] slots_ok_thief [OF k(3,1) thief]
        ghost_ok_thief [OF k(1-4) thief] loot_ok_thief [OF k(1-3,5) thief] by simp
  next
    case (other j)
    have b: "but_frame_lock s" using k by (simp add: but_frame_lock_def)
    have "but_frame_lock s'" by (rule other_cases [OF k(1) other]) (use b in \<open>simp_all add: but_frame_lock\<close>)
    then show ?thesis using lock_ok_other [OF k(1) other] by (simp add: deque_inv_def but_frame_lock_def)
  qed
qed

lemma deque_inv_reach: "dreach n s \<Longrightarrow> deque_inv s"
  by (induction rule: dreach.induct) (simp_all add: deque_inv_def lock_ok_init ptr_ok_init ghost_ok_init, metis deque_inv_def deque_inv_step)

text \<open>What the victim finds out about its parent when it returns is right.\<close>

lemma parent_on_deque:
  assumes "ghost_ok s" "vs_stack s \<noteq> []"
  shows "last (vs_stack s) \<in> set (vs_stolen s) \<longleftrightarrow> level s \<le> de_head s"
proof -
  let ?k = "length (vs_stack s) - 1"
  have "last (vs_stack s) = vs_stack s ! ?k" "?k < length (vs_stack s)" using assms(2) by (simp_all add: last_conv_nth)
  then show ?thesis using assms(1) by (auto simp: ghost_ok_def level_def)
qed

lemma fast_return_ok:
  assumes "deque_inv s" "vs_pc s = V_fenced t" "\<not> t < de_exc s"
  shows "last (vs_stack s) \<notin> set (vs_stolen s)"
proof -
  have p: "ptr_ok s" "ghost_ok s" using assms(1) by (simp_all add: deque_inv_def)
  have "de_head s \<le> de_exc s" "t = level s - 1" "vs_stack s \<noteq> []" using p(1) assms(2) by (auto simp: ptr_ok_def victim_local_def)
  then show ?thesis using parent_on_deque [OF p(2)] assms(3) by simp
qed

lemma slow_return_ok:
  assumes "deque_inv s" "vs_pc s = V_test"
  shows "\<not> de_head s < de_tail s + 1 \<longleftrightarrow> last (vs_stack s) \<in> set (vs_stolen s)"
proof -
  have p: "ptr_ok s" "ghost_ok s" using assms(1) by (simp_all add: deque_inv_def)
  have "de_tail s = level s - 1" "vs_stack s \<noteq> []" using p(1) assms(2) by (auto simp: ptr_ok_def)
  then show ?thesis using parent_on_deque [OF p(2)] by auto
qed

lemma strand_done:
  assumes "deque_inv s" "vs_pc s = V_stolen"
  shows "de_head s = de_tail s" "set (vs_stack s) \<subseteq> set (vs_stolen s)"
proof -
  have p: "ptr_ok s" "ghost_ok s" using assms(1) by (simp_all add: deque_inv_def)
  have h: "de_head s = level s" using p(1) assms(2) by (simp add: ptr_ok_def victim_local_def)
  then show "de_head s = de_tail s" using p(1) assms(2) by (simp add: ptr_ok_def)
  show "set (vs_stack s) \<subseteq> set (vs_stolen s)" using p(2) h by (auto simp: ghost_ok_def level_def in_set_conv_nth)
qed

lemma loot_prefix:
  assumes "deque_inv s" shows "vs_loot s = vs_stolen s \<or> (\<exists>sf. vs_stolen s = vs_loot s @ [sf])"
  using assms by (cases "crit_pc s") (auto simp: deque_inv_def loot_ok_def)

lemma run_once:
  assumes "deque_inv s"
  shows "distinct (vs_resumed s @ vs_loot s) \<and> sorted_wrt (<) (vs_loot s)"
proof -
  have g: "ghost_ok s" using assms by (simp add: deque_inv_def)
  have "distinct (vs_stolen s)" using g by (auto simp: ghost_ok_def strict_sorted_iff)
  then show ?thesis using g loot_prefix [OF assms] by (auto simp: ghost_ok_def sorted_wrt_append)
qed

subsection \<open>Waiting for the lock\<close>

text \<open>The steps that a thief that holds the lock, or is about to take it, has left until the lock is free again.\<close>

fun lock_steps_left :: "tpc \<Rightarrow> nat" where
  "lock_steps_left (T_unsteal b) = (if b then 12 else 0)" | "lock_steps_left T_in = 11" | "lock_steps_left (T_inc_write e) = 10" | "lock_steps_left T_cmp_tail = 9"
| "lock_steps_left T_cmp_prot = 8" | "lock_steps_left T_won = 7" | "lock_steps_left T_dec = 3" | "lock_steps_left (T_dec_write e) = 2"
| "lock_steps_left (T_detach h) = 6" | "lock_steps_left (T_set_head h) = 5" | "lock_steps_left (T_frame_lock h) = 4" | "lock_steps_left (T_take h) = 3"
| "lock_steps_left T_frame_unlock = 2" | "lock_steps_left T_unlock = 1" | "lock_steps_left _ = 0"

definition competitor :: "vstate \<Rightarrow> tpc" where
  "competitor s = (case mx_owner (vs_steal_lock s) of Some (Thief i) \<Rightarrow> vs_thief s i | _ \<Rightarrow> T_idle)"

definition waiting :: "vstate \<Rightarrow> nat" where
  "waiting s = lock_steps_left (crit_pc s) + (if competitor s = T_trylock then 13 else 0)"

definition ahead :: "vstate \<Rightarrow> nat \<Rightarrow> bool" where
  "ahead s i \<longleftrightarrow> in_crit (vs_thief s i) \<or> vs_thief s i = T_trylock"

lemma lock_steps_left_le: "lock_steps_left pc \<le> 12"
  by (cases pc) simp_all

lemma crit_pc_steps: "crit_pc s \<noteq> T_idle \<Longrightarrow> lock_ok s \<Longrightarrow> in_crit (crit_pc s) \<and> 0 < lock_steps_left (crit_pc s)"
proof -
  assume *: "crit_pc s \<noteq> T_idle" "lock_ok s"
  then obtain i where i: "mx_owner (vs_lock s) = Some (Thief i)" by (auto simp: crit_pc_def split: option.splits who.splits)
  then have "in_crit (vs_thief s i)" using lock_okD(4) [OF *(2), of i] by simp
  then show ?thesis using i by (cases "vs_thief s i") (auto simp: crit_pc_def)
qed

lemma competitor_goto:
  assumes "lock_ok s"
  shows "competing (vs_thief s i) \<Longrightarrow> competitor (thief_goto i pc s) = pc"
    "\<not> competing (vs_thief s i) \<Longrightarrow> competitor (thief_goto i pc s) = competitor s"
proof -
  show "competing (vs_thief s i) \<Longrightarrow> competitor (thief_goto i pc s) = pc"
    using lock_okD(6) [OF assms, of i] by (simp add: competitor_def thief_goto_def)
  assume "\<not> competing (vs_thief s i)"
  then have "mx_owner (vs_steal_lock s) \<noteq> Some (Thief i)" using lock_okD(6) [OF assms, of i] by simp
  then show "competitor (thief_goto i pc s) = competitor s"
    by (auto simp: competitor_def thief_goto_def split: option.splits who.splits)
qed

lemma competitor_is: "lock_ok s \<Longrightarrow> competing (vs_thief s i) \<Longrightarrow> competitor s = vs_thief s i"
  using lock_okD(6) [of s i] by (simp add: competitor_def)

lemma competitor_cong: "vs_steal_lock s' = vs_steal_lock s \<Longrightarrow> vs_thief s' = vs_thief s \<Longrightarrow> competitor s' = competitor s"
  by (simp only: competitor_def)

lemma competitor_update [simp]:
  "competitor (s\<lparr>de_exc := e\<rparr>) = competitor s" "competitor (s\<lparr>de_head := h, vs_stolen := xs\<rparr>) = competitor s"
  "competitor (s\<lparr>vs_frame_lock := f\<rparr>) = competitor s" "competitor (s\<lparr>vs_loot := xs\<rparr>) = competitor s" "competitor (s\<lparr>vs_lock := m\<rparr>) = competitor s"
  by (rule competitor_cong; simp)+

lemma crit_pc_take [simp]: "crit_pc (s\<lparr>de_head := h, vs_stolen := xs\<rparr>) = crit_pc s"
  by (rule crit_pc_cong; simp)

lemma waiting_goto:
  assumes "lock_ok s" "lock_ok s0" "s' = thief_goto i pc s0" "vs_thief s0 = vs_thief s" "crit_pc s0 = crit_pc s" "competitor s0 = competitor s"
    "in_crit (vs_thief s i)" "\<not> competing (vs_thief s i)" "lock_steps_left pc < lock_steps_left (vs_thief s i)"
  shows "waiting s' < waiting s"
proof -
  have "crit_pc s' = pc" unfolding assms(3) by (rule crit_goto [OF assms(2)]) (use assms in simp)
  moreover have "competitor s' = competitor s" unfolding assms(3) using competitor_goto(2) [OF assms(2), of i pc] assms by simp
  ultimately show ?thesis using crit_pc_thief [OF assms(1,7)] assms(9) by (simp add: waiting_def)
qed

lemma waiting_cong: "vs_lock s' = vs_lock s \<Longrightarrow> vs_steal_lock s' = vs_steal_lock s \<Longrightarrow> vs_thief s' = vs_thief s \<Longrightarrow> waiting s' = waiting s"
  unfolding waiting_def using crit_pc_cong [of s' s] competitor_cong [of s' s] by presburger

lemma waiting_step:
  assumes "lock_ok s" "vs_dns s" "thief_step go i s = Some s'" "vs_thief s' i \<noteq> T_failed"
  shows "waiting s' \<le> waiting s \<and> (ahead s i \<longrightarrow> waiting s' < waiting s)"
proof -
  have dec: "waiting s' \<le> waiting s \<and> (ahead s i \<longrightarrow> waiting s' < waiting s)" if "waiting s' < waiting s" using that by simp
  note go = dec [OF waiting_goto [OF assms(1)]]
  have out: "waiting (thief_goto i pc s) \<le> waiting s \<and> (ahead s i \<longrightarrow> waiting (thief_goto i pc s) < waiting s)"
    if "\<not> ahead s i" "competing (vs_thief s i) \<Longrightarrow> pc \<noteq> T_trylock" for pc
  proof -
    have "crit_pc (thief_goto i pc s) = crit_pc s" by (rule crit_goto_other [OF assms(1)]) (use that in \<open>simp add: ahead_def\<close>)
    then show ?thesis using that competitor_goto [OF assms(1), of i pc] by (cases "competing (vs_thief s i)") (simp_all add: waiting_def)
  qed
  show ?thesis
  proof (rule thief_cases [OF assms(1,3)])
    assume *: "vs_thief s i = T_steal_lock" "mx_owner (vs_steal_lock s) = None"
      "s' = thief_goto i T_dns (s\<lparr>vs_steal_lock := \<lparr>mx_lock = True, mx_owner = Some (Thief i)\<rparr>\<rparr>)"
    have "crit_pc s' = crit_pc (thief_goto i T_dns s)" unfolding *(3) by (rule crit_pc_cong) simp_all
    also have "\<dots> = crit_pc s" by (rule crit_goto_other [OF assms(1)]) (use * in simp)
    finally have "crit_pc s' = crit_pc s" .
    moreover have "competitor s' = T_dns" unfolding *(3) by (simp add: competitor_def thief_goto_def)
    ultimately show ?thesis using * by (simp add: waiting_def ahead_def)
  next
    assume *: "vs_thief s i = T_trylock" "mx_owner (vs_lock s) = None"
      "s' = thief_goto i (T_unsteal True) (s\<lparr>vs_lock := \<lparr>mx_lock = True, mx_owner = Some (Thief i)\<rparr>\<rparr>)"
    have "crit_pc s = T_idle" "crit_pc s' = T_unsteal True" using * by (simp_all add: crit_pc_def thief_goto_def)
    moreover have c: "competitor s = T_trylock" using competitor_is [OF assms(1), of i] * by simp
    moreover have "competitor s' = T_unsteal True"
      using lock_okD(6) [OF assms(1), of i] *(1) unfolding *(3) by (simp add: competitor_def thief_goto_def)
    ultimately show ?thesis by (simp add: waiting_def)
  next
    assume *: "vs_thief s i = T_trylock" "s' = thief_goto i (T_unsteal False) s"
    have "crit_pc s' = crit_pc s" unfolding *(2) by (rule crit_goto_other [OF assms(1)]) (use * in simp)
    moreover have "competitor s = T_trylock" using competitor_is [OF assms(1), of i] * by simp
    moreover have "competitor s' = T_unsteal False" unfolding *(2) by (rule competitor_goto(1) [OF assms(1)]) (use * in simp)
    ultimately show ?thesis by (simp add: waiting_def)
  next
    fix b assume *: "vs_thief s i = T_unsteal b"
      "s' = thief_goto i (if b then T_in else T_idle) (s\<lparr>vs_steal_lock := (vs_steal_lock s)\<lparr>mx_owner := None, mx_lock := False\<rparr>\<rparr>)"
    have c: "competitor s' = T_idle" unfolding *(2) by (simp add: competitor_def thief_goto_def)
    have e: "crit_pc s' = crit_pc (thief_goto i (if b then T_in else T_idle) s)" unfolding *(2) by (rule crit_pc_cong) simp_all
    show ?thesis
    proof (cases b)
      case True
      have "crit_pc s' = T_in" "crit_pc s = T_unsteal True"
        using e True * crit_goto [OF assms(1), of i T_in] crit_pc_thief [OF assms(1), of i] by simp_all
      then show ?thesis using c by (simp add: waiting_def)
    next
      case False
      have "crit_pc s' = crit_pc s" using e False * crit_goto_other [OF assms(1), of i T_idle] by simp
      then show ?thesis using c False * by (simp add: waiting_def ahead_def)
    qed
  next
    assume *: "vs_thief s i = T_unlock" "s' = thief_goto i T_idle (s\<lparr>vs_lock := (vs_lock s)\<lparr>mx_owner := None, mx_lock := False\<rparr>\<rparr>)"
    have "crit_pc s = T_unlock" "crit_pc s' = T_idle" using crit_pc_thief [OF assms(1), of i] * by (simp_all add: crit_pc_def thief_goto_def)
    moreover have "competitor s' = competitor (thief_goto i T_idle s)" unfolding *(2) by (rule competitor_cong) (simp_all add: thief_goto_def)
    then have "competitor s' = competitor s" using competitor_goto(2) [OF assms(1), of i T_idle] * by simp
    ultimately show ?thesis by (simp add: waiting_def)
  next
    fix h assume *: "vs_thief s i = T_set_head h" "s' = thief_goto i (T_frame_lock h) (s\<lparr>de_head := h + 1, vs_stolen := vs_stolen s @ at_head h s\<rparr>)"
    show ?thesis by (rule go [OF _ *(2)]) (use assms(1) *(1) in simp_all)
  next
    fix h assume *: "vs_thief s i = T_frame_lock h"
      "s' = thief_goto i (T_take h) (s\<lparr>vs_frame_lock := \<lparr>mx_lock = True, mx_owner = Some (Thief i)\<rparr>\<rparr>)"
    have e: "waiting s' = waiting (thief_goto i (T_take h) s)" unfolding *(2) by (rule waiting_cong) (simp_all add: thief_goto_def)
    have "waiting (thief_goto i (T_take h) s) < waiting s"
      by (rule waiting_goto [OF assms(1) assms(1) refl]) (use *(1) in simp_all)
    then show ?thesis by (intro dec) (simp only: e)
  next
    fix h assume *: "vs_thief s i = T_detach h" "s' = thief_goto i (T_set_head h) s"
    show ?thesis by (rule go [OF _ *(2)]) (use assms(1) *(1) in simp_all)
  next
    assume *: "vs_thief s i = T_frame_unlock"
      "s' = thief_goto i T_unlock (s\<lparr>vs_frame_lock := (vs_frame_lock s)\<lparr>mx_owner := None, mx_lock := False\<rparr>\<rparr>)"
    have e: "waiting s' = waiting (thief_goto i T_unlock s)" unfolding *(2) by (rule waiting_cong) (simp_all add: thief_goto_def)
    have "waiting (thief_goto i T_unlock s) < waiting s"
      by (rule waiting_goto [OF assms(1) assms(1) refl]) (use *(1) in simp_all)
    then show ?thesis by (intro dec) (simp only: e)
  next
    fix h sf assume *: "vs_thief s i = T_take h" "s' = thief_goto i T_frame_unlock (s\<lparr>vs_loot := vs_loot s @ [sf]\<rparr>)"
    show ?thesis by (rule go [OF _ *(2)]) (use assms(1) *(1) in simp_all)
  next
    fix e assume *: "vs_thief s i = T_inc_write e" "s' = thief_goto i T_cmp_tail (s\<lparr>de_exc := e + 1\<rparr>)"
    show ?thesis by (rule go [OF _ *(2)]) (use assms(1) *(1) in simp_all)
  next
    fix e assume *: "vs_thief s i = T_dec_write e" "s' = thief_goto i T_unlock (s\<lparr>de_exc := e - 1\<rparr>)"
    show ?thesis by (rule go [OF _ *(2)]) (use assms(1) *(1) in simp_all)
  next
    assume *: "vs_thief s i = T_idle" "s' = thief_goto i T_steal_lock s"
    show ?thesis unfolding *(2) by (rule out) (use *(1) in \<open>simp_all add: ahead_def\<close>)
  next
    assume *: "vs_thief s i = T_steal_lock" "s' = thief_goto i T_idle s"
    show ?thesis unfolding *(2) by (rule out) (use *(1) in \<open>simp_all add: ahead_def\<close>)
  next
    assume *: "vs_thief s i = T_dns" "s' = thief_goto i (T_unsteal False) s"
    show ?thesis unfolding *(2) by (rule out) (use *(1) in \<open>simp_all add: ahead_def\<close>)
  qed (use assms(2,4) go [OF assms(1)] in \<open>simp_all\<close>)
qed

lemma waiting_bound:
  assumes "lock_ok s" shows "waiting s \<le> 24"
proof (cases "competitor s = T_trylock \<and> lock_steps_left (crit_pc s) = 12")
  case True
  then have "crit_pc s = T_unsteal True" by (cases "crit_pc s") (auto split: if_splits)
  then obtain i where i: "mx_owner (vs_lock s) = Some (Thief i)" "vs_thief s i = T_unsteal True"
    by (auto simp: crit_pc_def split: option.splits who.splits)
  then have "competitor s = T_unsteal True" using competitor_is [OF assms, of i] by simp
  then show ?thesis using True by simp
next
  case False
  then show ?thesis using lock_steps_left_le [of "crit_pc s"] by (auto simp: waiting_def)
qed

text \<open>Someone can go on: the victim takes the lock, or a thief ahead of it has a step, or the thief with the lock waits for the lock of
  the frame and the worker that has it can give it back.\<close>

definition someone_moves :: "vact \<Rightarrow> vstate \<Rightarrow> bool" where
  "someone_moves a s \<longleftrightarrow> victim_step a s \<noteq> None \<or> (\<exists>i. ahead s i \<and> (\<forall>go. thief_step go i s \<noteq> None)) \<or>
     (\<exists>i h j. vs_thief s i = T_frame_lock h \<and> mx_owner (vs_frame_lock s) = Some (Other j) \<and> other_step j s \<noteq> None)"

lemma thief_can:
  assumes "lock_ok s" "ahead s i"
  shows "(\<forall>go. thief_step go i s \<noteq> None) \<or>
    (\<exists>h j. vs_thief s i = T_frame_lock h \<and> mx_owner (vs_frame_lock s) = Some (Other j) \<and> other_step j s \<noteq> None)"
proof (cases "\<exists>h. vs_thief s i = T_frame_lock h")
  case False
  then show ?thesis using assms(2) unfolding ahead_def
    by (cases "vs_thief s i") (auto simp: thief_defs split: option.splits if_splits)
next
  case True
  then obtain h where h: "vs_thief s i = T_frame_lock h" by blast
  show ?thesis
  proof (cases "mx_owner (vs_frame_lock s)")
    case None
    then have "thief_step go i s \<noteq> None" for go
      using h lock_okD(10) [OF assms(1)] by (simp add: thief_step_def detach_for_steal_step_def mutex_trylock_def)
    then show ?thesis by blast
  next
    case (Some w)
    show ?thesis
    proof (cases w)
      case Victim
      then show ?thesis using Some lock_okD(11) [OF assms(1)] by simp
    next
      case (Thief k)
      then have "in_frame (vs_thief s k)" using Some lock_okD(12) [OF assms(1), of k] by simp
      then have "in_crit (vs_thief s k)" "k \<noteq> i" using h by (cases "vs_thief s k"; auto)+
      moreover have "in_crit (vs_thief s i)" using h by simp
      ultimately show ?thesis using lock_okD(4) [OF assms(1), of k] lock_okD(4) [OF assms(1), of i] by simp
    next
      case (Other j)
      then have "other_step j s \<noteq> None" using Some by (simp add: other_step_def mutex_unlock_def)
      then show ?thesis using h Some Other by blast
    qed
  qed
qed

lemma waiting_progress:
  assumes "lock_ok s" "vs_pc s = V_spin p"
  shows "someone_moves a s"
proof (cases "waiting s = 0")
  case True
  then have "crit_pc s = T_idle" using crit_pc_steps [OF _ assms(1)] by (force simp: waiting_def)
  have "mx_owner (vs_lock s) = None"
  proof (cases "mx_owner (vs_lock s)")
    case (Some x)
    then show ?thesis
    proof (cases x)
      case Victim
      then show ?thesis using Some lock_okD(3) [OF assms(1)] assms(2) by simp
    next
      case (Thief i)
      then have "in_crit (vs_thief s i)" "crit_pc s = vs_thief s i" using Some lock_okD(4) [OF assms(1), of i] by (simp_all add: crit_pc_def)
      then show ?thesis using \<open>crit_pc s = T_idle\<close> by simp
    next
      case (Other j)
      then show ?thesis using Some lock_okD(13) [OF assms(1)] by simp
    qed
  qed simp
  then have "victim_step a s \<noteq> None"
    using lock_okD(1) [OF assms(1)] assms(2) by (simp add: victim_step_def worker_lock_step_def mutex_trylock_def)
  then show ?thesis by (simp add: someone_moves_def)
next
  case False
  have "\<exists>i. ahead s i"
  proof (cases "crit_pc s = T_idle")
    case True
    then have "competitor s = T_trylock" using False by (auto simp: waiting_def split: if_splits)
    then obtain i where "vs_thief s i = T_trylock" by (auto simp: competitor_def split: option.splits who.splits)
    then show ?thesis by (auto simp: ahead_def)
  next
    case nidle: False
    then obtain i where "mx_owner (vs_lock s) = Some (Thief i)" by (auto simp: crit_pc_def split: option.splits who.splits)
    then show ?thesis using lock_okD(4) [OF assms(1), of i] by (auto simp: ahead_def)
  qed
  then show ?thesis using thief_can [OF assms(1)] unfolding someone_moves_def by blast
qed

text \<open>A schedule of the thieves and the other workers while the victim waits, with the number of the steps of thieves that are
  ahead of it.\<close>

fun wait_run :: "turn list \<Rightarrow> vstate \<Rightarrow> (nat \<times> vstate) option" where
  "wait_run [] s = Some (0, s)"
| "wait_run (By_victim a # sched) s = None"
| "wait_run (By_thief go i # sched) s =
     do { s' \<leftarrow> thief_step go i s; (k, s'') \<leftarrow> wait_run sched s'; Some ((if ahead s i then 1 else 0) + k, s'') }"
| "wait_run (By_other j # sched) s = other_step j s \<bind> wait_run sched"

lemma thief_keeps_victim:
  assumes "lock_ok s" "thief_step go i s = Some s'" shows "vs_pc s' = vs_pc s" "vs_dns s' = vs_dns s"
  by (rule thief_cases [OF assms], simp_all)+

lemma other_keeps:
  assumes "lock_ok s" "other_step j s = Some s'" shows "vs_pc s' = vs_pc s" "vs_dns s' = vs_dns s" "waiting s' = waiting s"
  by (rule other_cases [OF assms]; simp add: waiting_def)+

lemma wait_run_waiting:
  assumes "deque_inv s" "vs_dns s" "wait_run sched s = Some (k, s')"
  shows "deque_inv s' \<and> vs_pc s' = vs_pc s \<and> k + waiting s' \<le> waiting s"
  using assms
proof (induction sched arbitrary: s k)
  case (Cons t sched)
  have l: "lock_ok s" using Cons.prems(1) by (simp add: deque_inv_def)
  show ?case
  proof (cases t)
    case (By_thief go i)
    then obtain s1 k1 where s1: "thief_step go i s = Some s1" "wait_run sched s1 = Some (k1, s')"
      "k = (if ahead s i then 1 else 0) + k1" using Cons.prems(3) by (auto simp: bind_eq_Some_conv)
    have inv: "deque_inv s1" by (rule deque_inv_step [OF Cons.prems(1) dstep.thief [OF s1(1)]])
    have v: "vs_pc s1 = vs_pc s" "vs_dns s1" using thief_keeps_victim [OF l s1(1)] Cons.prems(2) by simp_all
    have "vs_thief s1 i \<noteq> T_failed" using inv by (simp add: deque_inv_def lock_ok_def)
    from waiting_step [OF l Cons.prems(2) s1(1) this] Cons.IH [OF inv v(2) s1(2)] v(1) show ?thesis by (auto simp: s1(3))
  next
    case (By_other j)
    then obtain s1 where s1: "other_step j s = Some s1" "wait_run sched s1 = Some (k, s')"
      using Cons.prems(3) by (auto simp: bind_eq_Some_conv)
    have inv: "deque_inv s1" by (rule deque_inv_step [OF Cons.prems(1) dstep.other [OF s1(1)]])
    from Cons.IH [OF inv _ s1(2)] other_keeps [OF l s1(1)] Cons.prems(2) show ?thesis by simp
  qed (use Cons.prems in simp)
qed simp

lemma victim_waits:
  assumes "deque_inv s" "vs_pc s = V_spin p" "wait_run sched s = Some (k, s')"
  shows "k \<le> 24 \<and> someone_moves a s'"
proof -
  have d: "lock_ok s" "vs_dns s" using assms(1,2) by (simp_all add: deque_inv_def lock_ok_def)
  have run: "deque_inv s'" "vs_pc s' = V_spin p" "k + waiting s' \<le> waiting s"
    using wait_run_waiting [OF assms(1) d(2) assms(3)] assms(2) by simp_all
  have "lock_ok s'" using run(1) by (simp add: deque_inv_def)
  from waiting_progress [OF this run(2), of a] waiting_bound [OF d(1)] run(3) show ?thesis by simp
qed

end
