(* ===== verification/Spawn_Tree.thy ===== *)
theory Spawn_Tree
  imports Prelude
begin

text \<open>
  The tree of full frames and the reducer protocol (\<open>runtime/scheduler.c\<close>, \<open>runtime/full_frame.h\<close>): a thief promotes the stack
  frames it steals to full frames and puts the interrupted child to the left of the continuation; a child that returns, and a
  parent that stalls at a sync, reduce their reducer maps into the map to their left; the last one to arrive resumes the parent.

  A reducer map is a value, and \<open>mrg\<close> the reduction of two of them (\<open>Reducer_Merge\<close> has the maps themselves); \<open>None\<close> is the
  \<open>NULL\<close> map.  The steps that the code makes under the lock of the parent frame are one step, and the reductions, which it
  makes without the lock, are steps of their own.  Exceptions, fibers, pipelines and replay are left out: the strands return
  normally, no frame is the control frame of a pipeline, and reduce functions do not spawn.
\<close>

subsection \<open>Full frames\<close>

record 'm full_frame =
  ff_join_counter :: int
  ff_is_call_child :: bool
  ff_parent :: ptr
  ff_left_sibling :: ptr
  ff_right_sibling :: ptr
  ff_rightmost_child :: ptr
  ff_children_reducer_map :: "'m option"
  ff_right_reducer_map :: "'m option"

type_synonym 'm frames = "nat \<Rightarrow> 'm full_frame option"

definition make_full_frame :: "'m full_frame" where
  "make_full_frame = \<lparr>ff_join_counter = 0, ff_is_call_child = False, ff_parent = None, ff_left_sibling = None, ff_right_sibling = None,
     ff_rightmost_child = None, ff_children_reducer_map = None, ff_right_reducer_map = None\<rparr>"

definition destroy_full_frame :: "nat \<Rightarrow> 'm frames \<Rightarrow> 'm frames option" where
  "destroy_full_frame a h = do {
     ff \<leftarrow> h a;
     check (ff_children_reducer_map ff = None);
     check (ff_right_reducer_map ff = None);
     Some (h(a := None)) }"

definition on_frame :: "nat \<Rightarrow> ('m full_frame \<Rightarrow> 'm full_frame) \<Rightarrow> 'm frames \<Rightarrow> 'm frames option" where
  "on_frame a f h = do { ff \<leftarrow> h a; Some (h(a \<mapsto> f ff)) }"

definition double_link :: "ptr \<Rightarrow> ptr \<Rightarrow> 'm frames \<Rightarrow> 'm frames option" where
  "double_link left_ff right_ff h = do {
     h \<leftarrow> (case left_ff of None \<Rightarrow> Some h | Some a \<Rightarrow> on_frame a (ff_right_sibling_update (\<lambda>_. right_ff)) h);
     (case right_ff of None \<Rightarrow> Some h | Some a \<Rightarrow> on_frame a (ff_left_sibling_update (\<lambda>_. left_ff)) h) }"

definition push_child :: "nat \<Rightarrow> nat \<Rightarrow> 'm frames \<Rightarrow> 'm frames option" where
  "push_child parent_ff child_ff h = do {
     p \<leftarrow> h parent_ff;
     h \<leftarrow> double_link (ff_rightmost_child p) (Some child_ff) h;
     h \<leftarrow> double_link (Some child_ff) None h;
     on_frame parent_ff (ff_rightmost_child_update (\<lambda>_. Some child_ff)) h }"

definition unlink_child :: "nat \<Rightarrow> nat \<Rightarrow> 'm frames \<Rightarrow> 'm frames option" where
  "unlink_child parent_ff child_ff h = do {
     c \<leftarrow> h child_ff;
     h \<leftarrow> double_link (ff_left_sibling c) (ff_right_sibling c) h;
     c \<leftarrow> h child_ff;
     h \<leftarrow> (if ff_right_sibling c = None
          then do { p \<leftarrow> h parent_ff;
                    check (ff_rightmost_child p = Some child_ff);
                    on_frame parent_ff (ff_rightmost_child_update (\<lambda>_. ff_left_sibling c)) h }
          else Some h);
     on_frame child_ff (\<lambda>ff. ff\<lparr>ff_left_sibling := None, ff_right_sibling := None\<rparr>) h }"

definition incjoin :: "nat \<Rightarrow> 'm frames \<Rightarrow> 'm frames option" where
  "incjoin a = on_frame a (\<lambda>ff. ff\<lparr>ff_join_counter := ff_join_counter ff + 1\<rparr>)"

definition decjoin :: "nat \<Rightarrow> 'm frames \<Rightarrow> (int \<times> 'm frames) option" where
  "decjoin a h = do {
     ff \<leftarrow> h a;
     check (ff_join_counter ff > 0);
     Some (ff_join_counter ff - 1, h(a \<mapsto> ff\<lparr>ff_join_counter := ff_join_counter ff - 1\<rparr>)) }"

definition make_child :: "nat \<Rightarrow> bool \<Rightarrow> nat \<Rightarrow> 'm frames \<Rightarrow> 'm frames option" where
  "make_child parent_ff is_call child_ff h = do {
     check (h child_ff = None);
     h \<leftarrow> Some (h(child_ff \<mapsto> make_full_frame\<lparr>ff_parent := Some parent_ff\<rparr>));
     h \<leftarrow> push_child parent_ff child_ff h;
     h \<leftarrow> on_frame child_ff (ff_is_call_child_update (\<lambda>_. is_call)) h;
     incjoin parent_ff h }"

subsection \<open>The maps to the left\<close>

text \<open>A \<open>struct cilkred_map **\<close>: the address of one of the two maps of a full frame.\<close>

datatype map_ptr = Children_of nat | Right_of nat

fun read_map :: "map_ptr \<Rightarrow> 'm frames \<Rightarrow> 'm option option" where
  "read_map (Children_of a) h = map_option ff_children_reducer_map (h a)"
| "read_map (Right_of a) h = map_option ff_right_reducer_map (h a)"

fun write_map :: "map_ptr \<Rightarrow> 'm option \<Rightarrow> 'm frames \<Rightarrow> 'm frames option" where
  "write_map (Children_of a) v h = on_frame a (ff_children_reducer_map_update (\<lambda>_. v)) h"
| "write_map (Right_of a) v h = on_frame a (ff_right_reducer_map_update (\<lambda>_. v)) h"

definition compute_left_ptrs_for_spawn_return :: "nat \<Rightarrow> 'm frames \<Rightarrow> map_ptr option" where
  "compute_left_ptrs_for_spawn_return a h = do {
     ff \<leftarrow> h a;
     (case ff_left_sibling ff of
        Some l \<Rightarrow> Some (Right_of l)
      | None \<Rightarrow> do { parent_ff \<leftarrow> ff_parent ff; Some (Children_of parent_ff) }) }"

definition compute_left_ptrs_for_sync :: "nat \<Rightarrow> 'm frames \<Rightarrow> map_ptr option" where
  "compute_left_ptrs_for_sync a h = do {
     ff \<leftarrow> h a;
     (case ff_rightmost_child ff of
        Some k \<Rightarrow> do { kf \<leftarrow> h k; check (ff_parent kf = Some a); Some (Right_of k) }
      | None \<Rightarrow> Some (Children_of a)) }"

text \<open>\<open>repeated_merge_reducer_maps\<close>, of maps that may be \<open>NULL\<close>.\<close>

fun merge_maps :: "('m \<Rightarrow> 'm \<Rightarrow> 'm) \<Rightarrow> 'm option \<Rightarrow> 'm option \<Rightarrow> 'm option" where
  "merge_maps mrg None right_map = right_map"
| "merge_maps mrg left_map None = left_map"
| "merge_maps mrg (Some left_map) (Some right_map) = Some (mrg left_map right_map)"

text \<open>Return from a spawn with the lock of the parent: the cases of the left map, the map of the worker and the right map.  The first
  component of the result is where the slow path starts, if it is needed.\<close>

definition fast_path_reductions_for_spawn_return ::
    "nat \<Rightarrow> 'm option \<Rightarrow> 'm frames \<Rightarrow> (map_ptr option \<times> 'm option \<times> 'm frames) option" where
  "fast_path_reductions_for_spawn_return a reducer_map h = do {
     left_ptr \<leftarrow> compute_left_ptrs_for_spawn_return a h;
     left_map \<leftarrow> read_map left_ptr h;
     ff \<leftarrow> h a;
     case_value \<leftarrow> Some ((if left_map \<noteq> None then 1 else 0) + (if reducer_map \<noteq> None then 2 else 0) +
                        (if ff_right_reducer_map ff \<noteq> None then 4 else (0 :: nat)));
     (if case_value \<ge> 2 then
        (if case_value = 2 then do { h \<leftarrow> write_map left_ptr reducer_map h; Some (None, None, h) }
         else if case_value = 4 then do {
           h \<leftarrow> write_map left_ptr (ff_right_reducer_map ff) h;
           h \<leftarrow> on_frame a (ff_right_reducer_map_update (\<lambda>_. None)) h;
           Some (None, reducer_map, h) }
         else Some (Some left_ptr, reducer_map, h))
      else Some (None, reducer_map, h)) }"

text \<open>One turn of the loop of the slow path: \<open>None\<close> when it is finished, the three maps to reduce when it gives the lock back.\<close>

definition slow_path_turn :: "nat \<Rightarrow> map_ptr \<Rightarrow> 'm option \<Rightarrow> 'm frames \<Rightarrow> (('m option \<times> 'm option \<times> 'm option) option \<times> 'm frames) option" where
  "slow_path_turn a left_ptr reducer_map h = do {
     left_map \<leftarrow> read_map left_ptr h;
     (reducer_map, h) \<leftarrow>
       (if left_map = None then do { h \<leftarrow> write_map left_ptr reducer_map h; Some (None, h) } else Some (reducer_map, h));
     ff \<leftarrow> h a;
     (reducer_map, h) \<leftarrow>
       (if reducer_map = None then do { h \<leftarrow> on_frame a (ff_right_reducer_map_update (\<lambda>_. None)) h; Some (ff_right_reducer_map ff, h) }
        else Some (reducer_map, h));
     (if reducer_map = None then Some (None, h)
      else do {
        left_map \<leftarrow> read_map left_ptr h;
        h \<leftarrow> write_map left_ptr None h;
        ff \<leftarrow> h a;
        h \<leftarrow> on_frame a (ff_right_reducer_map_update (\<lambda>_. None)) h;
        Some (Some (left_map, reducer_map, ff_right_reducer_map ff), h) }) }"

text \<open>One turn of the loop of the slow path of a sync, with the same result.\<close>

definition sync_turn :: "nat \<Rightarrow> 'm option \<Rightarrow> 'm frames \<Rightarrow> (('m option \<times> 'm option) option \<times> 'm frames) option" where
  "sync_turn a middle_map h = do {
     left_ptr \<leftarrow> compute_left_ptrs_for_sync a h;
     left_map \<leftarrow> read_map left_ptr h;
     h \<leftarrow> write_map left_ptr None h;
     (left_map, middle_map) \<leftarrow> Some (if left_map = None then (middle_map, None) else (left_map, middle_map));
     (if middle_map = None then do { h \<leftarrow> write_map left_ptr left_map h; Some (None, h) }
      else Some (Some (left_map, middle_map), h)) }"

subsection \<open>Strands\<close>

text \<open>Where the strand of a full frame is: \<open>F_loot\<close>: being stolen, nobody runs it; \<open>F_next\<close>: pushed to a worker by
  \<open>__cilkrts_push_next_frame\<close>; \<open>F_run\<close>: in user code; \<open>F_called\<close>: its call child runs.  A return from a spawn: \<open>F_merge\<close>: the reduction of
  three maps; \<open>F_relock\<close>: about to take the lock again; \<open>F_unlinked\<close>: out of the tree, before \<open>do_return_from_spawn\<close>.  A sync:
  \<open>F_sync\<close>: about to take the lock with the map to reduce; \<open>F_sync_merge\<close>: the reduction of two maps; \<open>F_synced\<close>: before \<open>do_sync\<close>;
  \<open>F_stalled\<close>: suspended.\<close>

datatype 'm fpc = F_loot | F_next | F_run | F_called
  | F_merge "'m option" "'m option" "'m option" | F_relock | F_unlinked
  | F_sync "'m option" | F_sync_merge "'m option" "'m option" | F_synced | F_stalled

text \<open>\<open>tr_map\<close> is the \<open>reducer_map\<close> of the worker that runs the frame and \<open>tr_unsynched\<close> the flag \<open>CILK_FRAME_UNSYNCHED\<close> of its stack
  frame.  Ghosts: \<open>tr_strands\<close> are the strands of the program in their serial order, \<open>tr_cur\<close> is the last strand of a frame and
  \<open>tr_upd\<close> the updates that a strand has made to the reducers.  A strand starts with a stolen continuation and after a sync.\<close>

record 'm spawn_tree =
  tr_frame :: "'m frames"
  tr_pc :: "nat \<Rightarrow> 'm fpc"
  tr_map :: "nat \<Rightarrow> 'm option"
  tr_unsynched :: "nat \<Rightarrow> bool"
  tr_strands :: "nat list"
  tr_cur :: "nat \<Rightarrow> nat"
  tr_upd :: "nat \<Rightarrow> 'm list"

definition the_root :: nat where
  "the_root = 0"

definition tr_init :: "'m spawn_tree" where
  "tr_init = \<lparr>tr_frame = [the_root \<mapsto> make_full_frame\<lparr>ff_join_counter := 1\<rparr>], tr_pc = (\<lambda>_. F_run), tr_map = (\<lambda>_. None),
     tr_unsynched = (\<lambda>_. False), tr_strands = [0], tr_cur = (\<lambda>_. 0), tr_upd = (\<lambda>_. [])\<rparr>"

definition frames_do :: "('m frames \<Rightarrow> 'm frames option) \<Rightarrow> 'm spawn_tree \<Rightarrow> 'm spawn_tree option" where
  "frames_do f s = do { h \<leftarrow> f (tr_frame s); Some (s\<lparr>tr_frame := h\<rparr>) }"

definition goto :: "nat \<Rightarrow> 'm fpc \<Rightarrow> 'm spawn_tree \<Rightarrow> 'm spawn_tree" where
  "goto a pc s = s\<lparr>tr_pc := (tr_pc s)(a := pc)\<rparr>"

definition push_next_frame :: "nat \<Rightarrow> 'm spawn_tree \<Rightarrow> 'm spawn_tree option" where
  "push_next_frame a s = do { s \<leftarrow> frames_do (incjoin a) s; Some (goto a F_next s) }"

subsection \<open>Stealing\<close>

text \<open>The victim no longer refers to its full frame.\<close>

definition leave_parent :: "nat \<Rightarrow> 'm spawn_tree \<Rightarrow> 'm spawn_tree option" where
  "leave_parent a s = do { (n, h) \<leftarrow> decjoin a (tr_frame s); Some (goto a F_loot (s\<lparr>tr_frame := h\<rparr>)) }"

text \<open>A call child takes the place of its parent, with the map and the strand.\<close>

definition promote_call :: "nat \<Rightarrow> nat \<Rightarrow> 'm spawn_tree \<Rightarrow> 'm spawn_tree option" where
  "promote_call a c s = do {
     s \<leftarrow> frames_do (make_child a True c) s;
     Some (goto c F_loot (goto a F_called (s\<lparr>tr_map := (tr_map s)(c := tr_map s a, a := None),
       tr_unsynched := (tr_unsynched s)(c := False), tr_cur := (tr_cur s)(c := tr_cur s a)\<rparr>))) }"

text \<open>\<open>call_stack\<close> are the addresses of the full frames made for the call stack above \<open>a\<close>, the oldest first.\<close>

fun unroll_call_stack :: "nat \<Rightarrow> nat list \<Rightarrow> 'm spawn_tree \<Rightarrow> (nat \<times> 'm spawn_tree) option" where
  "unroll_call_stack a [] s = Some (a, s\<lparr>tr_unsynched := (tr_unsynched s)(a := True)\<rparr>)"
| "unroll_call_stack a (c # call_stack) s = do { s \<leftarrow> promote_call a c s; unroll_call_stack c call_stack s }"

text \<open>In the serial order a new strand of a frame comes right after the last one.\<close>

fun insert_after :: "nat \<Rightarrow> nat \<Rightarrow> nat list \<Rightarrow> nat list" where
  "insert_after a b [] = []"
| "insert_after a b (x # xs) = (if x = a then x # b # xs else x # insert_after a b xs)"

definition new_strand :: "nat \<Rightarrow> 'm spawn_tree \<Rightarrow> 'm spawn_tree" where
  "new_strand a s = (let new = length (tr_strands s) in
     s\<lparr>tr_strands := insert_after (tr_cur s a) new (tr_strands s), tr_cur := (tr_cur s)(a := new), tr_upd := (tr_upd s)(new := [])\<rparr>)"

text \<open>The victim goes on with the child, the map and the strand; the loot has no map and a new strand.\<close>

definition promote_child :: "nat \<Rightarrow> nat \<Rightarrow> 'm spawn_tree \<Rightarrow> 'm spawn_tree option" where
  "promote_child loot c s = do {
     old \<leftarrow> Some (tr_cur s loot);
     s \<leftarrow> Some (new_strand loot s);
     s \<leftarrow> frames_do (make_child loot False c) s;
     s \<leftarrow> frames_do (incjoin c) s;
     Some (goto c F_run (s\<lparr>tr_map := (tr_map s)(c := tr_map s loot, loot := None), tr_unsynched := (tr_unsynched s)(c := False),
       tr_cur := (tr_cur s)(c := old)\<rparr>)) }"

definition detach_for_steal :: "nat \<Rightarrow> nat list \<Rightarrow> nat \<Rightarrow> 'm spawn_tree \<Rightarrow> 'm spawn_tree option" where
  "detach_for_steal a call_stack c s = do {
     s \<leftarrow> leave_parent a s;
     (loot, s) \<leftarrow> unroll_call_stack a call_stack s;
     s \<leftarrow> push_next_frame loot s;
     promote_child loot c s }"

text \<open>The worker pops the frame and sets it up.\<close>

definition setup_for_execution :: "nat \<Rightarrow> 'm spawn_tree \<Rightarrow> 'm spawn_tree option" where
  "setup_for_execution a s = do {
     ff \<leftarrow> tr_frame s a;
     s \<leftarrow> (if tr_unsynched s a then Some s
          else do {
            check (ff_rightmost_child ff = None);
            s \<leftarrow> (if ff_children_reducer_map ff = None then Some s
                 else do {
                   check (tr_map s a = None);
                   h \<leftarrow> on_frame a (ff_children_reducer_map_update (\<lambda>_. None)) (tr_frame s);
                   Some (s\<lparr>tr_map := (tr_map s)(a := ff_children_reducer_map ff), tr_frame := h\<rparr>) });
            Some (new_strand a s) });
     Some (goto a F_run s) }"

subsection \<open>Joining\<close>

definition finish_provably_good_steal :: "nat \<Rightarrow> 'm spawn_tree \<Rightarrow> 'm spawn_tree option" where
  "finish_provably_good_steal a s = push_next_frame a (s\<lparr>tr_unsynched := (tr_unsynched s)(a := False)\<rparr>)"

definition provably_good_steal :: "nat \<Rightarrow> 'm spawn_tree \<Rightarrow> 'm spawn_tree option" where
  "provably_good_steal a s = do {
     (n, h) \<leftarrow> decjoin a (tr_frame s);
     s \<leftarrow> Some (s\<lparr>tr_frame := h\<rparr>);
     (if n = 0 then finish_provably_good_steal a s else Some s) }"

text \<open>A spawned child returns to its stolen parent.\<close>

definition spawn_return_turn :: "nat \<Rightarrow> map_ptr \<Rightarrow> 'm spawn_tree \<Rightarrow> 'm spawn_tree option" where
  "spawn_return_turn a left_ptr s = do {
     (todo, h) \<leftarrow> slow_path_turn a left_ptr (tr_map s a) (tr_frame s);
     s \<leftarrow> Some (s\<lparr>tr_frame := h, tr_map := (tr_map s)(a := None)\<rparr>);
     (case todo of
        Some (l, m, r) \<Rightarrow> Some (goto a (F_merge l m r) s)
      | None \<Rightarrow> do {
          ff \<leftarrow> tr_frame s a;
          parent_ff \<leftarrow> ff_parent ff;
          s \<leftarrow> frames_do (unlink_child parent_ff a) s;
          Some (goto a F_unlinked s) }) }"

definition spawn_return_start :: "nat \<Rightarrow> 'm spawn_tree \<Rightarrow> 'm spawn_tree option" where
  "spawn_return_start a s = do {
     (left_ptr, reducer_map, h) \<leftarrow> fast_path_reductions_for_spawn_return a (tr_map s a) (tr_frame s);
     s \<leftarrow> Some (s\<lparr>tr_frame := h, tr_map := (tr_map s)(a := reducer_map)\<rparr>);
     (case left_ptr of
        Some left_ptr \<Rightarrow> spawn_return_turn a left_ptr s
      | None \<Rightarrow> do {
          ff \<leftarrow> tr_frame s a;
          parent_ff \<leftarrow> ff_parent ff;
          s \<leftarrow> frames_do (unlink_child parent_ff a) s;
          Some (goto a F_unlinked s) }) }"

definition spawn_return_merge :: "('m \<Rightarrow> 'm \<Rightarrow> 'm) \<Rightarrow> nat \<Rightarrow> 'm option \<Rightarrow> 'm option \<Rightarrow> 'm option \<Rightarrow> 'm spawn_tree \<Rightarrow> 'm spawn_tree option" where
  "spawn_return_merge mrg a l m r s = do {
     left_map \<leftarrow> Some (merge_maps mrg (merge_maps mrg l m) r);
     check (tr_map s a = None);
     Some (goto a F_relock (s\<lparr>tr_map := (tr_map s)(a := left_map)\<rparr>)) }"

definition spawn_return_again :: "nat \<Rightarrow> 'm spawn_tree \<Rightarrow> 'm spawn_tree option" where
  "spawn_return_again a s = do {
     left_ptr \<leftarrow> compute_left_ptrs_for_spawn_return a (tr_frame s);
     spawn_return_turn a left_ptr s }"

definition do_return_from_spawn :: "nat \<Rightarrow> 'm spawn_tree \<Rightarrow> 'm spawn_tree option" where
  "do_return_from_spawn a s = do {
     check (tr_map s a = None);
     ff \<leftarrow> tr_frame s a;
     check (\<not> ff_is_call_child ff);
     parent_ff \<leftarrow> ff_parent ff;
     (n, h) \<leftarrow> decjoin a (tr_frame s);
     s \<leftarrow> provably_good_steal parent_ff (s\<lparr>tr_frame := h\<rparr>);
     frames_do (destroy_full_frame a) s }"

text \<open>A called child returns.\<close>

definition cilkrts_return :: "nat \<Rightarrow> 'm spawn_tree \<Rightarrow> 'm spawn_tree option" where
  "cilkrts_return a s = do {
     ff \<leftarrow> tr_frame s a;
     check (ff_join_counter ff = 1);
     check (ff_is_call_child ff);
     parent_ff \<leftarrow> ff_parent ff;
     (n, h) \<leftarrow> decjoin a (tr_frame s);
     ff \<leftarrow> h a;
     p \<leftarrow> h parent_ff;
     check (ff_is_call_child ff);
     check (ff_join_counter ff = 0);
     check (ff_rightmost_child ff = None);
     check (ff_rightmost_child p = Some a);
     check (ff_children_reducer_map ff = None);
     check (ff_right_reducer_map ff = None);
     h \<leftarrow> unlink_child parent_ff a h;
     (n, h) \<leftarrow> decjoin parent_ff h;
     s \<leftarrow> push_next_frame parent_ff (s\<lparr>tr_frame := h\<rparr>);
     s \<leftarrow> frames_do (destroy_full_frame a) s;
     Some (s\<lparr>tr_map := (tr_map s)(parent_ff := tr_map s a, a := None), tr_cur := (tr_cur s)(parent_ff := tr_cur s a)\<rparr>) }"

text \<open>A parent stalls at a sync.\<close>

definition sync_start :: "nat \<Rightarrow> 'm spawn_tree \<Rightarrow> 'm spawn_tree option" where
  "sync_start a s =
     (if tr_map s a = None then Some (goto a F_synced s)
      else Some (goto a (F_sync (tr_map s a)) (s\<lparr>tr_map := (tr_map s)(a := None)\<rparr>)))"

definition sync_reduce :: "nat \<Rightarrow> 'm option \<Rightarrow> 'm spawn_tree \<Rightarrow> 'm spawn_tree option" where
  "sync_reduce a middle_map s = do {
     (todo, h) \<leftarrow> sync_turn a middle_map (tr_frame s);
     s \<leftarrow> Some (s\<lparr>tr_frame := h\<rparr>);
     (case todo of None \<Rightarrow> Some (goto a F_synced s) | Some (l, m) \<Rightarrow> Some (goto a (F_sync_merge l m) s)) }"

definition sync_merge :: "('m \<Rightarrow> 'm \<Rightarrow> 'm) \<Rightarrow> nat \<Rightarrow> 'm option \<Rightarrow> 'm option \<Rightarrow> 'm spawn_tree \<Rightarrow> 'm spawn_tree option" where
  "sync_merge mrg a l m s = Some (goto a (F_sync (merge_maps mrg l m)) s)"

definition do_sync :: "nat \<Rightarrow> 'm spawn_tree \<Rightarrow> 'm spawn_tree option" where
  "do_sync a s = do {
     check (tr_map s a = None);
     check (tr_unsynched s a);
     provably_good_steal a (goto a F_stalled s) }"

subsection \<open>All executions\<close>

text \<open>\<open>Update\<close>: user code reduces a value into the reducers from the right.  User code syncs before it returns.\<close>

datatype 'm action = Update nat 'm | Steal nat "nat list" nat | Setup nat | Spawn_return nat | Return_merge nat | Return_again nat
  | Return_done nat | Call_return nat | Sync nat | Sync_reduce nat | Sync_merge nat | Sync_done nat

fun enabled :: "'m action \<Rightarrow> 'm spawn_tree \<Rightarrow> bool" where
  "enabled (Update a x) s = (tr_frame s a \<noteq> None \<and> tr_pc s a = F_run)"
| "enabled (Steal a call_stack c) s =
     (tr_frame s a \<noteq> None \<and> tr_pc s a = F_run \<and> distinct (call_stack @ [c]) \<and> (\<forall>b\<in>set (call_stack @ [c]). tr_frame s b = None))"
| "enabled (Setup a) s = (tr_frame s a \<noteq> None \<and> tr_pc s a = F_next)"
| "enabled (Spawn_return a) s =
     (case tr_frame s a of None \<Rightarrow> False
      | Some ff \<Rightarrow> tr_pc s a = F_run \<and> \<not> tr_unsynched s a \<and> ff_parent ff \<noteq> None \<and> \<not> ff_is_call_child ff)"
| "enabled (Return_merge a) s = (tr_frame s a \<noteq> None \<and> (case tr_pc s a of F_merge l m r \<Rightarrow> True | _ \<Rightarrow> False))"
| "enabled (Return_again a) s = (tr_frame s a \<noteq> None \<and> tr_pc s a = F_relock)"
| "enabled (Return_done a) s = (tr_frame s a \<noteq> None \<and> tr_pc s a = F_unlinked)"
| "enabled (Call_return a) s =
     (case tr_frame s a of None \<Rightarrow> False
      | Some ff \<Rightarrow> tr_pc s a = F_run \<and> \<not> tr_unsynched s a \<and> ff_parent ff \<noteq> None \<and> ff_is_call_child ff)"
| "enabled (Sync a) s = (tr_frame s a \<noteq> None \<and> tr_pc s a = F_run \<and> tr_unsynched s a)"
| "enabled (Sync_reduce a) s = (tr_frame s a \<noteq> None \<and> (case tr_pc s a of F_sync m \<Rightarrow> True | _ \<Rightarrow> False))"
| "enabled (Sync_merge a) s = (tr_frame s a \<noteq> None \<and> (case tr_pc s a of F_sync_merge l m \<Rightarrow> True | _ \<Rightarrow> False))"
| "enabled (Sync_done a) s = (tr_frame s a \<noteq> None \<and> tr_pc s a = F_synced)"

definition update_reducer :: "('m \<Rightarrow> 'm \<Rightarrow> 'm) \<Rightarrow> nat \<Rightarrow> 'm \<Rightarrow> 'm spawn_tree \<Rightarrow> 'm spawn_tree" where
  "update_reducer mrg a x s =
     s\<lparr>tr_map := (tr_map s)(a := merge_maps mrg (tr_map s a) (Some x)),
       tr_upd := (tr_upd s)(tr_cur s a := tr_upd s (tr_cur s a) @ [x])\<rparr>"

fun tstep :: "('m \<Rightarrow> 'm \<Rightarrow> 'm) \<Rightarrow> 'm action \<Rightarrow> 'm spawn_tree \<Rightarrow> 'm spawn_tree option" where
  "tstep mrg (Update a x) s = Some (update_reducer mrg a x s)"
| "tstep mrg (Steal a call_stack c) s = detach_for_steal a call_stack c s"
| "tstep mrg (Setup a) s = setup_for_execution a s"
| "tstep mrg (Spawn_return a) s = spawn_return_start a s"
| "tstep mrg (Return_merge a) s = (case tr_pc s a of F_merge l m r \<Rightarrow> spawn_return_merge mrg a l m r s | _ \<Rightarrow> None)"
| "tstep mrg (Return_again a) s = spawn_return_again a s"
| "tstep mrg (Return_done a) s = do_return_from_spawn a s"
| "tstep mrg (Call_return a) s = cilkrts_return a s"
| "tstep mrg (Sync a) s = sync_start a s"
| "tstep mrg (Sync_reduce a) s = (case tr_pc s a of F_sync m \<Rightarrow> sync_reduce a m s | _ \<Rightarrow> None)"
| "tstep mrg (Sync_merge a) s = (case tr_pc s a of F_sync_merge l m \<Rightarrow> sync_merge mrg a l m s | _ \<Rightarrow> None)"
| "tstep mrg (Sync_done a) s = do_sync a s"

inductive treach :: "('m \<Rightarrow> 'm \<Rightarrow> 'm) \<Rightarrow> 'm spawn_tree \<Rightarrow> bool" for mrg :: "'m \<Rightarrow> 'm \<Rightarrow> 'm" where
  start: "treach mrg tr_init"
| step: "treach mrg s \<Longrightarrow> enabled a s \<Longrightarrow> tstep mrg a s = Some s' \<Longrightarrow> treach mrg s'"

fun trun :: "('m \<Rightarrow> 'm \<Rightarrow> 'm) \<Rightarrow> 'm action list \<Rightarrow> 'm spawn_tree \<Rightarrow> 'm spawn_tree option" where
  "trun mrg [] s = Some s"
| "trun mrg (a # as) s = do { check (enabled a s); s \<leftarrow> tstep mrg a s; trun mrg as s }"

lemma trun_reach: "trun mrg as s = Some s' \<Longrightarrow> treach mrg s \<Longrightarrow> treach mrg s'"
  by (induction as arbitrary: s) (auto split: bind_splits if_splits intro: treach.step)

end
