(* ===== verification/Spawn_Links.thy ===== *)
theory Spawn_Links
  imports Spawn_Tree
begin

text \<open>
  The shape of the tree of full frames: the serial order of the places where a reducer map can be, and how the links of the
  frames represent it.  A frame has three places: the map of its children, at the left of all of them, the map of its worker, at
  the right of all its children, and its right map, after the frame itself.
\<close>

subsection \<open>Neighbours in a list\<close>

fun adj :: "'a list \<Rightarrow> 'a \<Rightarrow> 'a \<Rightarrow> bool" where
  "adj [] a b \<longleftrightarrow> False"
| "adj [x] a b \<longleftrightarrow> False"
| "adj (x # y # zs) a b \<longleftrightarrow> (x = a \<and> y = b) \<or> adj (y # zs) a b"

lemma adj_append: "adj (us @ x # vs) a b \<longleftrightarrow> adj (us @ [x]) a b \<or> adj (x # vs) a b"
  by (induction us rule: induct_list012) auto

lemma adj_split: "adj xs a b \<longleftrightarrow> (\<exists>us vs. xs = us @ a # b # vs)"
proof
  show "adj xs a b \<Longrightarrow> \<exists>us vs. xs = us @ a # b # vs"
  proof (induction xs rule: induct_list012)
    case (3 x y zs)
    show ?case
    proof (cases "x = a \<and> y = b")
      case True
      then have "x # y # zs = [] @ a # b # zs" by simp
      then show ?thesis by blast
    next
      case False
      then obtain us vs where "y # zs = us @ a # b # vs" using 3 by auto
      then have "x # y # zs = (x # us) @ a # b # vs" by simp
      then show ?thesis by blast
    qed
  qed simp_all
  show "adj xs a b" if ex: "\<exists>us vs. xs = us @ a # b # vs"
  proof -
    obtain us vs where "xs = us @ a # b # vs" using ex by blast
    then show ?thesis using adj_append [of us a "b # vs" a b] by simp
  qed
qed

lemma adj_set: "adj xs a b \<Longrightarrow> a \<in> set xs \<and> b \<in> set xs"
  unfolding adj_split by (elim exE) simp

lemma adj_memL: "adj xs a b \<Longrightarrow> a \<in> set xs" and adj_memR: "adj xs a b \<Longrightarrow> b \<in> set xs"
  using adj_set [of xs a b] by simp_all

lemma adj_init: "adj (xs @ [y]) a b \<Longrightarrow> a \<in> set xs"
  by (induction xs rule: induct_list012) auto

lemma adj_tail: "adj (y # xs) a b \<Longrightarrow> b \<in> set xs"
  by (induction xs arbitrary: y) auto

lemma distinct_split_unique:
  "distinct (us @ a # vs) \<Longrightarrow> us @ a # vs = us' @ a # vs' \<Longrightarrow> us = us' \<and> vs = vs'"
proof (induction us arbitrary: us')
  case Nil
  then show ?case by (cases us') auto
next
  case (Cons x us)
  show ?case
  proof (cases us')
    case Nil
    then show ?thesis using Cons.prems by auto
  next
    case (Cons y zs)
    then have "us @ a # vs = zs @ a # vs'" "y = x" using Cons.prems(2) by simp_all
    then show ?thesis using Cons.IH [of zs] Cons.prems(1) Cons by simp
  qed
qed

lemma adj_right_unique:
  assumes "distinct xs" "adj xs a b" "adj xs a c" shows "b = c"
proof -
  obtain us vs where 1: "xs = us @ a # b # vs" using assms(2) unfolding adj_split by blast
  obtain us' vs' where 2: "xs = us' @ a # c # vs'" using assms(3) unfolding adj_split by blast
  have "us = us' \<and> b # vs = c # vs'"
    by (rule distinct_split_unique [of us a "b # vs" us' "c # vs'"]) (use assms(1) 1 in simp, use 1 2 in \<open>rule trans [OF sym]\<close>)
  then show ?thesis by simp
qed

lemma adj_left_unique:
  assumes "distinct xs" "adj xs a c" "adj xs b c" shows "a = b"
proof -
  obtain us vs where 1: "xs = us @ a # c # vs" using assms(2) unfolding adj_split by blast
  obtain us' vs' where 2: "xs = us' @ b # c # vs'" using assms(3) unfolding adj_split by blast
  have "us @ [a] = us' @ [b]"
    using distinct_split_unique [of "us @ [a]" c vs "us' @ [b]" vs'] assms(1) 1 2 by simp
  then show ?thesis by simp
qed

lemma adj_irrefl: "distinct xs \<Longrightarrow> adj xs a b \<Longrightarrow> a \<noteq> b"
  unfolding adj_split by (elim exE) simp

lemma adj_last: "distinct (xs @ [y]) \<Longrightarrow> \<not> adj (xs @ [y]) y b"
  using adj_init by fastforce

lemma adj_first: "distinct (y # xs) \<Longrightarrow> \<not> adj (y # xs) a y"
  using adj_tail by fastforce

lemma adj_insert:
  assumes "distinct (us @ q # m # vs)" "adj (us @ q # m # vs) a b" "b \<noteq> m" shows "adj (us @ q # ds @ m # vs) a b"
proof -
  have "adj (us @ [q]) a b \<or> adj (q # m # vs) a b" using assms(2) adj_append [of us q "m # vs"] by simp
  then have "adj (us @ [q]) a b \<or> adj (m # vs) a b" using assms(3) by simp
  then show ?thesis using adj_append [of "us @ q # ds" m vs a b] adj_append [of us q "ds @ m # vs" a b] by auto
qed

lemma adj_insert_new: "adj (us @ q # d # ds @ m # vs) q d" "adj (d # ds) a b \<Longrightarrow> adj (us @ q # d # ds @ m # vs) a b"
  "adj (us @ q # d # ds @ m # vs) (last (d # ds)) m"
proof -
  show "adj (us @ q # d # ds @ m # vs) q d" unfolding adj_split by blast
  have e: "us @ q # d # ds @ m # vs = (us @ [q]) @ (d # ds) @ m # vs" by simp
  have "d # ds = butlast (d # ds) @ [last (d # ds)]" by simp
  then have "us @ q # d # ds @ m # vs = ((us @ [q]) @ butlast (d # ds)) @ last (d # ds) # m # vs"
    unfolding e by (metis append.assoc append_Cons append_Nil)
  then show "adj (us @ q # d # ds @ m # vs) (last (d # ds)) m" unfolding adj_split by blast
  assume "adj (d # ds) a b"
  then obtain xs ys where "d # ds = xs @ a # b # ys" unfolding adj_split by blast
  then have "us @ q # d # ds @ m # vs = ((us @ [q]) @ xs) @ a # b # (ys @ m # vs)" unfolding e by simp
  then show "adj (us @ q # d # ds @ m # vs) a b" unfolding adj_split by blast
qed

lemma adj_remove:
  assumes "adj (us @ q # ds @ m # vs) a b" "a \<notin> set ds" "b \<notin> set ds" shows "adj (us @ q # m # vs) a b"
proof -
  have "adj (us @ [q]) a b \<or> adj (q # ds @ [m]) a b \<or> adj (m # vs) a b"
    using assms(1) adj_append [of "us @ q # ds" m vs a b] adj_append [of us q "ds @ [m]" a b] by auto
  moreover have "a = q \<and> b = m" if *: "adj (q # ds @ [m]) a b"
    using adj_init [of "q # ds" m a b] adj_tail [OF *] * assms(2,3) by simp
  ultimately show ?thesis using adj_append [of us q "m # vs" a b] by auto
qed

fun bef :: "'a list \<Rightarrow> 'a \<Rightarrow> 'a \<Rightarrow> bool" where
  "bef [] a b \<longleftrightarrow> False"
| "bef (x # xs) a b \<longleftrightarrow> (x = a \<and> b \<in> set xs) \<or> bef xs a b"

lemma bef_append: "bef (xs @ ys) a b \<longleftrightarrow> bef xs a b \<or> bef ys a b \<or> a \<in> set xs \<and> b \<in> set ys"
  by (induction xs) auto

lemma bef_set: "bef xs a b \<Longrightarrow> a \<in> set xs \<and> b \<in> set xs"
  by (induction xs) auto

lemma bef_not_adj: "distinct xs \<Longrightarrow> bef xs a b \<Longrightarrow> \<not> adj xs b a"
  by (induction xs rule: induct_list012) (auto dest: bef_set adj_memL adj_memR)

lemma bef_insert: "bef (us @ vs) a b \<Longrightarrow> bef (us @ ds @ vs) a b"
  by (auto simp: bef_append)

lemma bef_remove: "bef (us @ ds @ vs) a b \<Longrightarrow> a \<notin> set ds \<Longrightarrow> b \<notin> set ds \<Longrightarrow> bef (us @ vs) a b"
  by (auto simp: bef_append dest: bef_set)

subsection \<open>The links of the frames\<close>

record links =
  lk_call :: bool
  lk_parent :: ptr
  lk_left :: ptr
  lk_right :: ptr
  lk_last :: ptr

definition links_of :: "'m full_frame \<Rightarrow> links" where
  "links_of ff = \<lparr>lk_call = ff_is_call_child ff, lk_parent = ff_parent ff, lk_left = ff_left_sibling ff,
     lk_right = ff_right_sibling ff, lk_last = ff_rightmost_child ff\<rparr>"

lemma links_of_sel [simp]:
  "lk_call (links_of ff) = ff_is_call_child ff" "lk_parent (links_of ff) = ff_parent ff" "lk_left (links_of ff) = ff_left_sibling ff"
  "lk_right (links_of ff) = ff_right_sibling ff" "lk_last (links_of ff) = ff_rightmost_child ff"
  by (simp_all add: links_of_def)

lemma links_of_update [simp]:
  "links_of (ff\<lparr>ff_join_counter := n\<rparr>) = links_of ff" "links_of (ff\<lparr>ff_children_reducer_map := v\<rparr>) = links_of ff"
  "links_of (ff\<lparr>ff_right_reducer_map := v\<rparr>) = links_of ff"
  "links_of (ff\<lparr>ff_rightmost_child := q\<rparr>) = (links_of ff)\<lparr>lk_last := q\<rparr>" "links_of (ff\<lparr>ff_left_sibling := q\<rparr>) = (links_of ff)\<lparr>lk_left := q\<rparr>"
  "links_of (ff\<lparr>ff_right_sibling := q\<rparr>) = (links_of ff)\<lparr>lk_right := q\<rparr>" "links_of (ff\<lparr>ff_is_call_child := b\<rparr>) = (links_of ff)\<lparr>lk_call := b\<rparr>"
  "links_of (ff\<lparr>ff_parent := q\<rparr>) = (links_of ff)\<lparr>lk_parent := q\<rparr>"
  by (simp_all add: links_of_def)

text \<open>The three places of a frame.\<close>

datatype place = SC (owner: nat) | SM (owner: nat) | SR (owner: nat)

fun place_end :: "nat \<Rightarrow> ptr \<Rightarrow> place" where
  "place_end x None = SC x" | "place_end x (Some c) = SR c"

fun place_after :: "nat \<Rightarrow> ptr \<Rightarrow> place" where
  "place_after p None = SM p" | "place_after p (Some r) = SC r"

definition node_ok :: "(nat \<Rightarrow> links option) \<Rightarrow> place list \<Rightarrow> nat \<Rightarrow> links \<Rightarrow> bool" where
  "node_ok L ord x k \<longleftrightarrow> adj ord (SM x) (SR x) \<and> adj ord (place_end x (lk_last k)) (SM x) \<and>
     (\<forall>p. lk_parent k = Some p \<longrightarrow> adj ord (place_end p (lk_left k)) (SC x) \<and> adj ord (SR x) (place_after p (lk_right k))) \<and>
     (\<forall>l. lk_left k = Some l \<longrightarrow> map_option lk_parent (L l) = Some (lk_parent k)) \<and>
     (\<forall>c. lk_last k = Some c \<longrightarrow> map_option lk_parent (L c) = Some (Some x)) \<and>
     bef ord (SC x) (SR x) \<and> lk_parent k \<noteq> Some x"

text \<open>\<open>U\<close> are the frames that have been unlinked and not destroyed yet.\<close>

definition links_ok :: "(nat \<Rightarrow> links option) \<Rightarrow> nat set \<Rightarrow> place list \<Rightarrow> bool" where
  "links_ok L U ord \<longleftrightarrow> distinct ord \<and> L the_root \<noteq> None \<and> the_root \<notin> U \<and> (\<exists>zs. ord = SC the_root # zs @ [SR the_root]) \<and>
     (\<forall>pl\<in>set ord. L (owner pl) \<noteq> None \<and> owner pl \<notin> U) \<and>
     (\<forall>x k. L x = Some k \<longrightarrow> (lk_parent k = None \<longleftrightarrow> x = the_root)) \<and>
     (\<forall>x k p. L x = Some k \<longrightarrow> lk_parent k = Some p \<longrightarrow> L p \<noteq> None) \<and>
     (\<forall>x k. L x = Some k \<longrightarrow> x \<notin> U \<longrightarrow> node_ok L ord x k)"

lemma links_okD:
  assumes "links_ok L U ord"
  shows "distinct ord" "L the_root \<noteq> None" "the_root \<notin> U" "\<exists>zs. ord = SC the_root # zs @ [SR the_root]"
    "pl \<in> set ord \<Longrightarrow> L (owner pl) \<noteq> None \<and> owner pl \<notin> U" "L x = Some k \<Longrightarrow> lk_parent k = None \<longleftrightarrow> x = the_root"
    "L x = Some k \<Longrightarrow> lk_parent k = Some p \<Longrightarrow> L p \<noteq> None" "L x = Some k \<Longrightarrow> x \<notin> U \<Longrightarrow> node_ok L ord x k"
  using assms unfolding links_ok_def by blast+

lemma node_okD:
  assumes "node_ok L ord x k"
  shows "adj ord (SM x) (SR x)" "adj ord (place_end x (lk_last k)) (SM x)"
    "lk_parent k = Some p \<Longrightarrow> adj ord (place_end p (lk_left k)) (SC x)" "lk_parent k = Some p \<Longrightarrow> adj ord (SR x) (place_after p (lk_right k))"
    "lk_left k = Some l \<Longrightarrow> map_option lk_parent (L l) = Some (lk_parent k)" "lk_last k = Some c \<Longrightarrow> map_option lk_parent (L c) = Some (Some x)"
    "bef ord (SC x) (SR x)" "lk_parent k \<noteq> Some x"
  using assms unfolding node_ok_def by blast+

lemma node_okI:
  assumes "adj ord (SM x) (SR x)" "adj ord (place_end x (lk_last k)) (SM x)"
    "\<And>p. lk_parent k = Some p \<Longrightarrow> adj ord (place_end p (lk_left k)) (SC x) \<and> adj ord (SR x) (place_after p (lk_right k))"
    "\<And>l. lk_left k = Some l \<Longrightarrow> map_option lk_parent (L l) = Some (lk_parent k)"
    "\<And>c. lk_last k = Some c \<Longrightarrow> map_option lk_parent (L c) = Some (Some x)"
    "bef ord (SC x) (SR x)" "lk_parent k \<noteq> Some x"
  shows "node_ok L ord x k"
  unfolding node_ok_def using assms by (intro conjI allI impI) simp_all

lemma links_init: "links_ok [the_root \<mapsto> \<lparr>lk_call = False, lk_parent = None, lk_left = None, lk_right = None, lk_last = None\<rparr>] {} [SC the_root, SM the_root, SR the_root]"
  unfolding links_ok_def node_ok_def by simp

text \<open>What the links say about the neighbours.\<close>

lemma left_of_right:
  assumes ok: "links_ok L U ord" and x: "L x = Some k" "x \<notin> U" "lk_parent k = Some p" "lk_right k = Some r"
  obtains rk where "L r = Some rk" "r \<notin> U" "r \<noteq> x" "lk_left rk = Some x" "lk_parent rk = Some p"
proof -
  have a: "adj ord (SR x) (SC r)" using node_okD(4) [OF links_okD(8) [OF ok x(1,2)] x(3)] x(4) by simp
  from links_okD(5) [OF ok adj_memR [OF a]] obtain rk where r: "L r = Some rk" "r \<notin> U" by auto
  obtain zs where z: "ord = SC the_root # zs" using links_okD(4) [OF ok] by blast
  have "r \<noteq> the_root" using a adj_first [of "SC the_root" zs] links_okD(1) [OF ok] unfolding z by blast
  then obtain q where q: "lk_parent rk = Some q" using links_okD(6) [OF ok r(1)] by auto
  note n = links_okD(8) [OF ok r]
  have "place_end q (lk_left rk) = SR x" by (rule adj_left_unique [OF links_okD(1) [OF ok] node_okD(3) [OF n q] a])
  then have left: "lk_left rk = Some x" by (cases "lk_left rk") simp_all
  moreover have "r \<noteq> x" using bef_not_adj [OF links_okD(1) [OF ok] node_okD(7) [OF n]] a by auto
  moreover have "lk_parent rk = Some p" using node_okD(5) [OF n left] x(1,3) by simp
  ultimately show ?thesis using that r by blast
qed

lemma last_when_no_right:
  assumes ok: "links_ok L U ord" and x: "L x = Some k" "x \<notin> U" "lk_parent k = Some p" "lk_right k = None"
  obtains pk where "L p = Some pk" "p \<notin> U" "p \<noteq> x" "lk_last pk = Some x"
proof -
  have a: "adj ord (SR x) (SM p)" using node_okD(4) [OF links_okD(8) [OF ok x(1,2)] x(3)] x(4) by simp
  from links_okD(5) [OF ok adj_memR [OF a]] obtain pk where r: "L p = Some pk" "p \<notin> U" by auto
  note n = links_okD(8) [OF ok r]
  have "place_end p (lk_last pk) = SR x" by (rule adj_left_unique [OF links_okD(1) [OF ok] node_okD(2) [OF n] a])
  then have "lk_last pk = Some x" by (cases "lk_last pk") simp_all
  moreover have "p \<noteq> x" using x node_okD(8) [OF links_okD(8) [OF ok x(1,2)]] by auto
  ultimately show ?thesis using that r by blast
qed

lemma right_of_left:
  assumes ok: "links_ok L U ord" and x: "L x = Some k" "x \<notin> U" "lk_parent k = Some p" "lk_left k = Some l"
  obtains lk where "L l = Some lk" "l \<notin> U" "l \<noteq> x" "lk_right lk = Some x" "lk_parent lk = Some p" "l \<noteq> p"
proof -
  note nx = links_okD(8) [OF ok x(1,2)]
  have a: "adj ord (SR l) (SC x)" using node_okD(3) [OF nx x(3)] x(4) by simp
  from links_okD(5) [OF ok adj_memL [OF a]] obtain lk where l: "L l = Some lk" "l \<notin> U" by auto
  note n = links_okD(8) [OF ok l]
  have q: "lk_parent lk = Some p" using node_okD(5) [OF nx x(4)] l(1) x(3) by simp
  have "place_after p (lk_right lk) = SC x" by (rule adj_right_unique [OF links_okD(1) [OF ok] node_okD(4) [OF n q] a])
  then have "lk_right lk = Some x" by (cases "lk_right lk") simp_all
  moreover have "l \<noteq> p" using node_okD(8) [OF n] q by auto
  moreover have "l \<noteq> x" using bef_not_adj [OF links_okD(1) [OF ok] node_okD(7) [OF nx]] a by auto
  ultimately show ?thesis using that l q by blast
qed

lemma no_right_of_last:
  assumes ok: "links_ok L U ord" and x: "L x = Some k" "x \<notin> U" "lk_last k = Some c"
  obtains ck where "L c = Some ck" "c \<notin> U" "c \<noteq> x" "lk_right ck = None" "lk_parent ck = Some x"
proof -
  note nx = links_okD(8) [OF ok x(1,2)]
  have a: "adj ord (SR c) (SM x)" using node_okD(2) [OF nx] x(3) by simp
  from links_okD(5) [OF ok adj_memL [OF a]] obtain ck where l: "L c = Some ck" "c \<notin> U" by auto
  note n = links_okD(8) [OF ok l]
  have q: "lk_parent ck = Some x" using node_okD(6) [OF nx x(3)] l(1) by simp
  have "place_after x (lk_right ck) = SM x" by (rule adj_right_unique [OF links_okD(1) [OF ok] node_okD(4) [OF n q] a])
  then have "lk_right ck = None" by (cases "lk_right ck") simp_all
  moreover have "c \<noteq> x" using node_okD(8) [OF n] q by auto
  ultimately show ?thesis using that l q by blast
qed

subsection \<open>A new child\<close>

definition add_child :: "nat \<Rightarrow> bool \<Rightarrow> nat \<Rightarrow> (nat \<Rightarrow> links option) \<Rightarrow> nat \<Rightarrow> links option" where
  "add_child p b c L = (\<lambda>x.
     if x = c then Some \<lparr>lk_call = b, lk_parent = Some p, lk_left = lk_last (the (L p)), lk_right = None, lk_last = None\<rparr>
     else if x = p then Some ((the (L p))\<lparr>lk_last := Some c\<rparr>)
     else if lk_last (the (L p)) = Some x then Some ((the (L x))\<lparr>lk_right := Some c\<rparr>) else L x)"

lemma add_child_parent: "L c = None \<Longrightarrow> L p = Some pk \<Longrightarrow> (\<And>l. lk_last pk = Some l \<Longrightarrow> L l \<noteq> None) \<Longrightarrow> x \<noteq> c \<Longrightarrow>
    map_option lk_parent (add_child p b c L x) = map_option lk_parent (L x)"
  by (auto simp: add_child_def)

lemma links_add_child:
  assumes ok: "links_ok L U (us @ place_end p (lk_last pk) # SM p # vs)" and p: "L p = Some pk" "p \<notin> U" and c: "L c = None" "c \<notin> U"
  shows "links_ok (add_child p b c L) U (us @ place_end p (lk_last pk) # SC c # SM c # SR c # SM p # vs)"
    (is "links_ok ?L U ?new")
proof -
  let ?q = "place_end p (lk_last pk)"
  let ?ord = "us @ ?q # SM p # vs"
  have d: "distinct ?ord" by (rule links_okD(1) [OF ok])
  have pc: "p \<noteq> c" using p(1) c(1) by auto
  have notin: "pl \<notin> set ?ord" if "owner pl = c" for pl using links_okD(5) [OF ok, of pl] that c(1) by auto
  have dist: "distinct ?new" using d notin [of "SC c"] notin [of "SM c"] notin [of "SR c"] by auto
  have last: "\<exists>lk. L l = Some lk \<and> l \<notin> U \<and> l \<noteq> p \<and> lk_right lk = None \<and> lk_parent lk = Some p" if "lk_last pk = Some l" for l
    using no_right_of_last [OF ok p that] by metis
  then have par: "map_option lk_parent (?L x) = map_option lk_parent (L x)" if "x \<noteq> c" for x
    using add_child_parent [OF c(1) p(1) _ that] by blast
  have ins: "adj ?new x y" if "adj ?ord x y" "y \<noteq> SM p" for x y
    using adj_insert [OF d that, of "[SC c, SM c, SR c]"] by simp
  have insb: "bef ?new x y" if "bef ?ord x y" for x y
    using bef_insert [of "us @ [?q]" "SM p # vs" x y "[SC c, SM c, SR c]"] that by simp
  have new: "adj ?new ?q (SC c)" "adj ?new (SC c) (SM c)" "adj ?new (SM c) (SR c)" "adj ?new (SR c) (SM p)"
    using adj_insert_new(1,3) [of us ?q "SC c" "[SM c, SR c]" "SM p" vs]
      adj_insert_new(2) [of "SC c" "[SM c, SR c]" _ _ us ?q "SM p" vs] by simp_all
  have node: "node_ok ?L ?new x k" if x: "?L x = Some k" "x \<notin> U" for x k
  proof (cases "x = c")
    case True
    have k: "k = \<lparr>lk_call = b, lk_parent = Some p, lk_left = lk_last pk, lk_right = None, lk_last = None\<rparr>"
      using x(1) p(1) by (simp add: add_child_def True)
    have "map_option lk_parent (?L l) = Some (Some p)" if "lk_last pk = Some l" for l
      using last [OF that] par [of l] c(1) by (cases "l = c") auto
    then show ?thesis using new pc by (auto simp: node_ok_def k True bef_append)
  next
    case xc: False
    obtain k0 where k0: "L x = Some k0" using x(1) xc p(1) last by (auto simp: add_child_def split: if_splits)
    note n = links_okD(8) [OF ok k0 x(2)]
    have kp: "lk_parent k = lk_parent k0" "lk_left k = lk_left k0"
      using x(1) xc p(1) k0 by (auto simp: add_child_def split: if_splits)
    have 1: "adj ?new (SM x) (SR x)" by (rule ins [OF node_okD(1) [OF n]]) simp
    have 2: "adj ?new (place_end x (lk_last k)) (SM x)"
    proof (cases "x = p")
      case True
      then have "lk_last k = Some c" using x(1) xc by (auto simp: add_child_def)
      then show ?thesis using new(4) True by simp
    next
      case False
      then have "lk_last k = lk_last k0" using x(1) xc k0 by (auto simp: add_child_def split: if_splits)
      then show ?thesis using ins [OF node_okD(2) [OF n]] False by simp
    qed
    have 3: "adj ?new (place_end q (lk_left k)) (SC x) \<and> adj ?new (SR x) (place_after q (lk_right k))" if q: "lk_parent k = Some q" for q
    proof
      have q0: "lk_parent k0 = Some q" using q kp by simp
      show "adj ?new (place_end q (lk_left k)) (SC x)" using ins [OF node_okD(3) [OF n q0]] kp by simp
      note a = node_okD(4) [OF n q0]
      show "adj ?new (SR x) (place_after q (lk_right k))"
      proof (cases "lk_last pk = Some x")
        case True
        then have "x \<noteq> p" using last by blast
        then have "lk_right k = Some c" using x(1) xc True p(1) by (auto simp: add_child_def)
        then show ?thesis using new(1) True by simp
      next
        case False
        then have r: "lk_right k = lk_right k0" using x(1) xc k0 p(1) by (auto simp: add_child_def split: if_splits)
        have "place_after q (lk_right k0) \<noteq> SM p"
        proof
          assume e: "place_after q (lk_right k0) = SM p"
          have "adj ?ord ?q (SM p)" unfolding adj_split by blast
          then have "?q = SR x" using adj_left_unique [OF d] a unfolding e by blast
          then show False using False by (cases "lk_last pk") simp_all
        qed
        then show ?thesis using ins [OF a] r by simp
      qed
    qed
    have 4: "map_option lk_parent (?L l) = Some (lk_parent k)" if "lk_left k = Some l" for l
    proof -
      have "map_option lk_parent (L l) = Some (lk_parent k0)" using node_okD(5) [OF n] that kp by simp
      then show ?thesis using par [of l] c(1) kp by (cases "l = c") auto
    qed
    have 5: "map_option lk_parent (?L l) = Some (Some x)" if "lk_last k = Some l" for l
    proof (cases "x = p")
      case True
      then have "l = c" using x(1) xc that by (auto simp: add_child_def)
      then show ?thesis by (simp add: add_child_def True)
    next
      case False
      then have "lk_last k0 = Some l" using x(1) xc k0 that by (auto simp: add_child_def split: if_splits)
      from node_okD(6) [OF n this] show ?thesis using par [of l] c(1) by (cases "l = c") auto
    qed
    have "lk_parent k \<noteq> Some x" using node_okD(8) [OF n] kp by simp
    with 1 2 3 4 5 insb [OF node_okD(7) [OF n]] show ?thesis by (rule node_okI)
  qed
  have dom: "?L x \<noteq> None \<longleftrightarrow> x = c \<or> L x \<noteq> None" for x using p(1) last by (auto simp: add_child_def)
  have par': "lk_parent k = None \<longleftrightarrow> x = the_root" "lk_parent k = Some q \<Longrightarrow> ?L q \<noteq> None" if x: "?L x = Some k" for x k q
  proof -
    have "(lk_parent k = None \<longleftrightarrow> x = the_root) \<and> (\<forall>q. lk_parent k = Some q \<longrightarrow> L q \<noteq> None)"
    proof (cases "x = c")
      case True
      then show ?thesis using x p c(1) links_okD(2) [OF ok] by (auto simp: add_child_def)
    next
      case False
      then have "map_option lk_parent (L x) = Some (lk_parent k)" using par [of x] x by simp
      then obtain k0 where k0: "L x = Some k0" "lk_parent k0 = lk_parent k" by auto
      show ?thesis using links_okD(6,7) [OF ok k0(1)] k0(2) by metis
    qed
    then show "lk_parent k = None \<longleftrightarrow> x = the_root" "lk_parent k = Some q \<Longrightarrow> ?L q \<noteq> None" using dom by blast+
  qed
  obtain zs where z: "?ord = SC the_root # zs @ [SR the_root]" using links_okD(4) [OF ok] by blast
  have "us @ [?q] \<noteq> []" "SM p # vs \<noteq> []" by simp_all
  then obtain us' vs' where uv: "us @ [?q] = SC the_root # us'" "SM p # vs = vs' @ [SR the_root]"
    using z by (metis append_butlast_last_id append_eq_Cons_conv append.assoc append_Cons append_Nil last_appendR last_snoc last_ConsR list.distinct(1) list.sel(1) hd_append2 list.exhaust_sel)
  then have "?new = SC the_root # (us' @ [SC c, SM c, SR c] @ vs') @ [SR the_root]"
    by (metis append.assoc append_Cons append_Nil)
  then have ends: "\<exists>zs. ?new = SC the_root # zs @ [SR the_root]" by blast
  have mem: "?L (owner pl) \<noteq> None \<and> owner pl \<notin> U" if "pl \<in> set ?new" for pl
    using that links_okD(5) [OF ok, of pl] dom [of "owner pl"] c(2) by auto
  show ?thesis unfolding links_ok_def
    using dist ends mem par' node links_okD(2,3) [OF ok] dom [of the_root] by blast
qed

end
