(* ===== verification/Spawn_Unlink.thy ===== *)
theory Spawn_Unlink
  imports Spawn_Links
begin

text \<open>Removing a child from the list of its siblings, and destroying a frame.\<close>

definition remove_child :: "nat \<Rightarrow> links \<Rightarrow> nat \<Rightarrow> (nat \<Rightarrow> links option) \<Rightarrow> nat \<Rightarrow> links option" where
  "remove_child p ck c L = (\<lambda>x.
     if x = c then Some (ck\<lparr>lk_left := None, lk_right := None\<rparr>)
     else if lk_left ck = Some x then Some ((the (L x))\<lparr>lk_right := lk_right ck\<rparr>)
     else if lk_right ck = Some x then Some ((the (L x))\<lparr>lk_left := lk_left ck\<rparr>)
     else if x = p \<and> lk_right ck = None then Some ((the (L p))\<lparr>lk_last := lk_left ck\<rparr>) else L x)"

lemma place_ends: "place_end p q \<noteq> SM x" "place_end p q = SC x \<longleftrightarrow> q = None \<and> p = x" "place_end p q = SR x \<longleftrightarrow> q = Some x"
  "place_after p q \<noteq> SR x" "place_after p q = SM x \<longleftrightarrow> q = None \<and> p = x" "place_after p q = SC x \<longleftrightarrow> q = Some x"
  by (cases q; simp)+

lemma links_remove_child:
  assumes ok: "links_ok L U (us @ place_end p (lk_left ck) # SC c # SM c # SR c # place_after p (lk_right ck) # vs)"
    and c: "L c = Some ck" "c \<notin> U" "lk_parent ck = Some p" "lk_last ck = None"
  shows "links_ok (remove_child p ck c L) (insert c U) (us @ place_end p (lk_left ck) # place_after p (lk_right ck) # vs)"
    (is "links_ok ?L ?U ?new")
proof -
  let ?q = "place_end p (lk_left ck)"
  let ?m = "place_after p (lk_right ck)"
  let ?ord = "us @ ?q # SC c # SM c # SR c # ?m # vs"
  have d: "distinct ?ord" by (rule links_okD(1) [OF ok])
  note nc = links_okD(8) [OF ok c(1,2)]
  have pc: "p \<noteq> c" using node_okD(8) [OF nc] c(3) by auto
  have dist: "distinct ?new" using d by simp
  have newpair: "adj ?new ?q ?m" unfolding adj_split by blast
  have rem: "adj ?new x y" if "adj ?ord x y" "owner x \<noteq> c" "owner y \<noteq> c" for x y
    using adj_remove [of us ?q "[SC c, SM c, SR c]" ?m vs x y] that by (cases x; cases y) auto
  have mid: "adj ?ord ?q (SC c)" "adj ?ord (SC c) (SM c)" "adj ?ord (SM c) (SR c)" "adj ?ord (SR c) ?m"
    using adj_insert_new(1,3) [of us ?q "SC c" "[SM c, SR c]" ?m vs]
      adj_insert_new(2) [of "SC c" "[SM c, SR c]" _ _ us ?q ?m vs] by simp_all
  have left: "\<exists>lk. L l = Some lk \<and> l \<notin> U \<and> l \<noteq> c \<and> lk_right lk = Some c \<and> lk_parent lk = Some p \<and> l \<noteq> p" if "lk_left ck = Some l" for l
    using right_of_left [OF ok c(1-3) that] by metis
  have right: "\<exists>rk. L r = Some rk \<and> r \<notin> U \<and> r \<noteq> c \<and> lk_left rk = Some c \<and> lk_parent rk = Some p" if "lk_right ck = Some r" for r
    using left_of_right [OF ok c(1-3) that] by metis
  have last: "\<exists>pk. L p = Some pk \<and> p \<notin> U \<and> lk_last pk = Some c" if "lk_right ck = None"
    using last_when_no_right [OF ok c(1-3) that] by metis
  have rp: "r \<noteq> p" if "lk_right ck = Some r" for r
    using right [OF that] node_okD(8) [OF links_okD(8) [OF ok]] by metis
  have lr: "l \<noteq> r" if sib: "lk_left ck = Some l" "lk_right ck = Some r" for l r
  proof
    assume "l = r"
    then have "adj ?new (SR l) (SC l)" using newpair sib by simp
    moreover obtain lk where "L l = Some lk" "l \<notin> U" "l \<noteq> c" using left [OF sib(1)] by blast
    then have "bef ?new (SC l) (SR l)"
      using bef_remove [of "us @ [?q]" "[SC c, SM c, SR c]" "?m # vs" "SC l" "SR l"] node_okD(7) [OF links_okD(8) [OF ok]] by simp
    ultimately show False using bef_not_adj [OF dist] by blast
  qed
  have par: "map_option lk_parent (?L x) = map_option lk_parent (L x)" for x
    using c(1) left right last by (auto simp: remove_child_def)
  have no_kid: "lk_parent k \<noteq> Some c" if x: "L x = Some k" "x \<notin> U" "lk_left k = None \<or> lk_right k = None" for x k
  proof
    assume q: "lk_parent k = Some c"
    note n = links_okD(8) [OF ok x(1,2)]
    show False
    proof (cases "lk_left k")
      case None
      then have "adj ?ord (SC c) (SC x)" using node_okD(3) [OF n q] by simp
      then show False using adj_right_unique [OF d mid(2)] by blast
    next
      case (Some a)
      then have "adj ?ord (SR x) (SM c)" using node_okD(4) [OF n q] x(3) by simp
      then show False using adj_left_unique [OF d mid(2)] by blast
    qed
  qed
  have node: "node_ok ?L ?new x k" if x: "?L x = Some k" "x \<notin> ?U" for x k
  proof -
    have xc: "x \<noteq> c" "x \<notin> U" using x(2) by simp_all
    obtain k0 where k0: "L x = Some k0" using x(1) xc left right last by (auto simp: remove_child_def split: if_splits)
    note n = links_okD(8) [OF ok k0 xc(2)]
    have kp: "lk_parent k = lk_parent k0" using par [of x] x(1) k0 by simp
    have kl: "lk_left k = (if lk_right ck = Some x then lk_left ck else lk_left k0)"
      using x(1) xc k0 lr by (auto simp: remove_child_def split: if_splits)
    have kr: "lk_right k = (if lk_left ck = Some x then lk_right ck else lk_right k0)"
      using x(1) xc k0 lr by (auto simp: remove_child_def split: if_splits)
    have kk: "lk_last k = (if x = p \<and> lk_right ck = None then lk_left ck else lk_last k0)"
      using x(1) xc k0 left rp by (auto simp: remove_child_def split: if_splits)
    have 2: "adj ?new (place_end x (lk_last k)) (SM x)"
    proof (cases "x = p \<and> lk_right ck = None")
      case True
      then show ?thesis using newpair kk by simp
    next
      case False
      have "lk_last k0 \<noteq> Some c"
      proof
        assume e: "lk_last k0 = Some c"
        then have "x = p" using node_okD(6) [OF n e] c(1,3) by simp
        moreover have "adj ?ord (SR c) (SM x)" using node_okD(2) [OF n] e by simp
        then have "?m = SM x" using adj_right_unique [OF d] mid(4) by blast
        ultimately show False using False by (simp add: place_ends)
      qed
      then have "owner (place_end x (lk_last k0)) \<noteq> c" using xc by (cases "lk_last k0") auto
      then show ?thesis using rem [OF node_okD(2) [OF n]] xc kk False by simp
    qed
    have 3: "adj ?new (place_end q (lk_left k)) (SC x)" if q: "lk_parent k = Some q" for q
    proof (cases "lk_right ck = Some x")
      case True
      then have "q = p" using right kp k0 q by fastforce
      then show ?thesis using newpair True kl by simp
    next
      case False
      have q0: "lk_parent k0 = Some q" using q kp by simp
      have "lk_left k0 \<noteq> Some c"
      proof
        assume "lk_left k0 = Some c"
        then have "adj ?ord (SR c) (SC x)" using node_okD(3) [OF n q0] by simp
        then have "?m = SC x" using adj_right_unique [OF d] mid(4) by blast
        then show False using False by (simp add: place_ends)
      qed
      then have "owner (place_end q (lk_left k0)) \<noteq> c" using no_kid [OF k0 xc(2)] q0 by (cases "lk_left k0") auto
      then show ?thesis using rem [OF node_okD(3) [OF n q0]] xc False kl by simp
    qed
    have 4: "adj ?new (SR x) (place_after q (lk_right k))" if q: "lk_parent k = Some q" for q
    proof (cases "lk_left ck = Some x")
      case True
      then have "q = p" using left kp k0 q by fastforce
      then show ?thesis using newpair True kr by simp
    next
      case False
      have q0: "lk_parent k0 = Some q" using q kp by simp
      have "lk_right k0 \<noteq> Some c"
      proof
        assume "lk_right k0 = Some c"
        then have "adj ?ord (SR x) (SC c)" using node_okD(4) [OF n q0] by simp
        then have "?q = SR x" using adj_left_unique [OF d] mid(1) by blast
        then show False using False by (simp add: place_ends)
      qed
      then have "owner (place_after q (lk_right k0)) \<noteq> c" using no_kid [OF k0 xc(2)] q0 by (cases "lk_right k0") auto
      then show ?thesis using rem [OF node_okD(4) [OF n q0]] xc False kr by simp
    qed
    have 5: "map_option lk_parent (?L l) = Some (lk_parent k)" if l: "lk_left k = Some l" for l
    proof (cases "lk_right ck = Some x")
      case True
      then have "lk_left ck = Some l" "lk_parent k = Some p" using l kl right [OF True] k0 kp by auto
      then show ?thesis using par [of l] left by fastforce
    next
      case False
      then show ?thesis using par [of l] node_okD(5) [OF n, of l] l kl kp by simp
    qed
    have 6: "map_option lk_parent (?L l) = Some (Some x)" if l: "lk_last k = Some l" for l
    proof (cases "x = p \<and> lk_right ck = None")
      case True
      then have "lk_left ck = Some l" using l kk by simp
      then show ?thesis using par [of l] left True by fastforce
    next
      case False
      then have "lk_last k0 = Some l" using l kk by (simp split: if_splits)
      then show ?thesis using par [of l] node_okD(6) [OF n, of l] by simp
    qed
    have 7: "bef ?new (SC x) (SR x)"
      using bef_remove [of "us @ [?q]" "[SC c, SM c, SR c]" "?m # vs" "SC x" "SR x"] node_okD(7) [OF n] xc by simp
    have "lk_parent k \<noteq> Some x" using node_okD(8) [OF n] kp by simp
    with rem [OF node_okD(1) [OF n]] 2 3 4 5 6 7 xc show ?thesis by (intro node_okI) simp_all
  qed
  have dom: "?L x = None \<longleftrightarrow> L x = None" for x using par [of x] by (metis option.map_disc_iff)
  have par': "(lk_parent k = None \<longleftrightarrow> x = the_root) \<and> (\<forall>q. lk_parent k = Some q \<longrightarrow> ?L q \<noteq> None)" if x: "?L x = Some k" for x k
  proof -
    obtain k0 where k0: "L x = Some k0" "lk_parent k0 = lk_parent k" using par [of x] x by (cases "L x") auto
    show ?thesis using links_okD(6,7) [OF ok k0(1)] k0(2) dom by metis
  qed
  have croot: "c \<noteq> the_root" using links_okD(6) [OF ok c(1)] c(3) by auto
  obtain zs where z: "?ord = SC the_root # zs @ [SR the_root]" using links_okD(4) [OF ok] by blast
  have "\<exists>us'. us @ [?q] = SC the_root # us'" using z by (cases us) auto
  moreover have "\<exists>vs'. ?m # vs = vs' @ [SR the_root]"
  proof -
    have "last ?ord = SR the_root" unfolding z by simp
    then have "last (?m # vs) = SR the_root" by simp
    then show ?thesis by (metis append_butlast_last_id list.distinct(1))
  qed
  ultimately obtain us' vs' where uv: "us @ [?q] = SC the_root # us'" "?m # vs = vs' @ [SR the_root]" by blast
  then have "?new = SC the_root # (us' @ vs') @ [SR the_root]" by (metis append.assoc append_Cons append_Nil)
  then have ends: "\<exists>zs. ?new = SC the_root # zs @ [SR the_root]" by blast
  have mem: "?L (owner pl) \<noteq> None \<and> owner pl \<notin> ?U" if pl: "pl \<in> set ?new" for pl
  proof -
    have "SC c \<notin> set ?new" "SM c \<notin> set ?new" "SR c \<notin> set ?new" using d by auto
    then have "pl \<noteq> SC c" "pl \<noteq> SM c" "pl \<noteq> SR c" using pl by metis+
    then have "owner pl \<noteq> c" by (cases pl) auto
    then show ?thesis using pl links_okD(5) [OF ok, of pl] dom [of "owner pl"] by auto
  qed
  show ?thesis unfolding links_ok_def
    using dist ends mem par' node links_okD(2,3) [OF ok] dom [of the_root] croot by auto
qed

lemma links_destroy:
  assumes ok: "links_ok L U ord" and c: "c \<in> U" "\<And>x k. L x = Some k \<Longrightarrow> lk_parent k \<noteq> Some c"
  shows "links_ok (L(c := None)) (U - {c}) ord"
proof -
  have croot: "c \<noteq> the_root" using c(1) links_okD(3) [OF ok] by auto
  have own: "owner pl \<noteq> c" if "pl \<in> set ord" for pl using links_okD(5) [OF ok that] c(1) by auto
  have node: "node_ok (L(c := None)) ord x k" if x: "L x = Some k" "x \<notin> U" for x k
  proof -
    note n = links_okD(8) [OF ok x]
    have "(L(c := None)) l = L l" if l: "lk_left k = Some l" for l
    proof (cases "lk_parent k")
      case None
      then obtain lk where "L l = Some lk" "lk_parent lk = None" using node_okD(5) [OF n l] by auto
      then have "l = the_root" using links_okD(6) [OF ok] by blast
      then show ?thesis using croot by simp
    next
      case (Some q)
      have "l \<noteq> c" using own [OF adj_memL [OF node_okD(3) [OF n Some]]] l by simp
      then show ?thesis by simp
    qed
    moreover have "(L(c := None)) l = L l" if "lk_last k = Some l" for l
      using own [OF adj_memL [OF node_okD(2) [OF n]]] that by simp
    ultimately show ?thesis using node_okD [OF n] by (intro node_okI) simp_all
  qed
  show ?thesis unfolding links_ok_def using links_okD [OF ok] own croot c(2) node by auto
qed

end
