(* ===== verification/Spawn_Inv.thy ===== *)
theory Spawn_Inv
  imports Spawn_Unlink
begin

text \<open>The invariant of the tree of full frames: links, join counters, control, and the values of the reducer maps.\<close>

subsection \<open>The operations on frames\<close>

definition lks :: "'m frames \<Rightarrow> nat \<Rightarrow> links option" where
  "lks h = (\<lambda>x. map_option links_of (h x))"

lemma lks_None [simp]: "lks h x = None \<longleftrightarrow> h x = None"
  by (simp add: lks_def)

lemma lks_Some: "h x = Some ff \<Longrightarrow> lks h x = Some (links_of ff)"
  by (simp add: lks_def)

lemma lks_SomeD: "lks h x = Some k \<Longrightarrow> \<exists>ff. h x = Some ff \<and> links_of ff = k"
  by (auto simp: lks_def)

lemma lks_same: "h x = Some ff \<Longrightarrow> links_of ff' = links_of ff \<Longrightarrow> lks (h(x \<mapsto> ff')) = lks h"
  by (auto simp: lks_def)

lemma on_frame_Some [simp]: "h a = Some ff \<Longrightarrow> on_frame a f h = Some (h(a \<mapsto> f ff))"
  by (simp add: on_frame_def)

definition new_frame :: "bool \<Rightarrow> nat \<Rightarrow> ptr \<Rightarrow> 'm full_frame" where
  "new_frame b p l = \<lparr>ff_join_counter = 0, ff_is_call_child = b, ff_parent = Some p, ff_left_sibling = l, ff_right_sibling = None,
     ff_rightmost_child = None, ff_children_reducer_map = None, ff_right_reducer_map = None\<rparr>"

definition with_child :: "nat \<Rightarrow> bool \<Rightarrow> nat \<Rightarrow> 'm frames \<Rightarrow> 'm frames" where
  "with_child p b c h = (\<lambda>x.
     if x = c then Some (new_frame b p (ff_rightmost_child (the (h p))))
     else if x = p then Some ((the (h p))\<lparr>ff_rightmost_child := Some c, ff_join_counter := ff_join_counter (the (h p)) + 1\<rparr>)
     else if ff_rightmost_child (the (h p)) = Some x then Some ((the (h x))\<lparr>ff_right_sibling := Some c\<rparr>) else h x)"

lemma make_child_eq:
  assumes "h c = None" "h p = Some pf" "\<And>l. ff_rightmost_child pf = Some l \<Longrightarrow> \<exists>lf. h l = Some lf \<and> l \<noteq> p"
  shows "make_child p b c h = Some (with_child p b c h)"
proof (cases "ff_rightmost_child pf")
  case None
  then show ?thesis using assms(1,2)
    by (auto simp: make_child_def push_child_def double_link_def incjoin_def make_full_frame_def new_frame_def with_child_def fun_eq_iff)
next
  case (Some l)
  then obtain lf where lf: "h l = Some lf" "l \<noteq> p" using assms(3) by blast
  then have "l \<noteq> c" "p \<noteq> c" using assms(1,2) by auto
  then show ?thesis using assms(1,2) Some lf
    by (auto simp: make_child_def push_child_def double_link_def incjoin_def make_full_frame_def new_frame_def with_child_def fun_eq_iff)
qed

lemma lks_with_child:
  assumes "h c = None" "h p = Some pf" "\<And>l. ff_rightmost_child pf = Some l \<Longrightarrow> \<exists>lf. h l = Some lf \<and> l \<noteq> p"
  shows "lks (with_child p b c h) = add_child p b c (lks h)"
proof
  fix x
  show "lks (with_child p b c h) x = add_child p b c (lks h) x"
  proof (cases "ff_rightmost_child pf = Some x")
    case True
    then obtain lf where "h x = Some lf" "x \<noteq> p" using assms(3) by blast
    then show ?thesis using assms(1,2) True by (auto simp: lks_def add_child_def with_child_def)
  next
    case False
    then show ?thesis using assms(2) by (simp add: lks_def add_child_def with_child_def new_frame_def links_of_def)
  qed
qed

definition without_child :: "nat \<Rightarrow> nat \<Rightarrow> 'm frames \<Rightarrow> 'm frames" where
  "without_child p c h = (let cf = the (h c) in (\<lambda>x.
     if x = c then Some (cf\<lparr>ff_left_sibling := None, ff_right_sibling := None\<rparr>)
     else if ff_left_sibling cf = Some x then Some ((the (h x))\<lparr>ff_right_sibling := ff_right_sibling cf\<rparr>)
     else if ff_right_sibling cf = Some x then Some ((the (h x))\<lparr>ff_left_sibling := ff_left_sibling cf\<rparr>)
     else if x = p \<and> ff_right_sibling cf = None then Some ((the (h p))\<lparr>ff_rightmost_child := ff_left_sibling cf\<rparr>) else h x))"

lemma unlink_child_eq:
  assumes c: "h c = Some cf" and p: "p \<noteq> c" "ff_right_sibling cf = None \<Longrightarrow> \<exists>pf. h p = Some pf \<and> ff_rightmost_child pf = Some c"
    and l: "\<And>l. ff_left_sibling cf = Some l \<Longrightarrow> \<exists>lf. h l = Some lf \<and> l \<noteq> c \<and> l \<noteq> p"
    and r: "\<And>r. ff_right_sibling cf = Some r \<Longrightarrow> \<exists>rf. h r = Some rf \<and> r \<noteq> c \<and> ff_left_sibling cf \<noteq> Some r"
  shows "unlink_child p c h = Some (without_child p c h)"
proof (cases "ff_left_sibling cf")
  case None
  show ?thesis
  proof (cases "ff_right_sibling cf")
    case None
    then show ?thesis using c p \<open>ff_left_sibling cf = None\<close> by (auto simp: unlink_child_def double_link_def fun_eq_iff without_child_def)
  next
    case (Some b)
    then obtain rf where "h b = Some rf" "b \<noteq> c" using r by blast
    then show ?thesis using c Some \<open>ff_left_sibling cf = None\<close> by (auto simp: unlink_child_def double_link_def fun_eq_iff without_child_def)
  qed
next
  case left: (Some a)
  then obtain lf where lf: "h a = Some lf" "a \<noteq> c" "a \<noteq> p" using l by blast
  show ?thesis
  proof (cases "ff_right_sibling cf")
    case None
    then show ?thesis using c p left lf by (auto simp: unlink_child_def double_link_def fun_eq_iff without_child_def)
  next
    case (Some b)
    then obtain rf where "h b = Some rf" "b \<noteq> c" "a \<noteq> b" using r left by blast
    then show ?thesis using c Some left lf by (auto simp: unlink_child_def double_link_def fun_eq_iff without_child_def)
  qed
qed

lemma lks_without_child:
  assumes "h c = Some cf" "p \<noteq> c" "ff_right_sibling cf = None \<Longrightarrow> \<exists>pf. h p = Some pf \<and> ff_rightmost_child pf = Some c"
    "\<And>l. ff_left_sibling cf = Some l \<Longrightarrow> \<exists>lf. h l = Some lf \<and> l \<noteq> c \<and> l \<noteq> p"
    "\<And>r. ff_right_sibling cf = Some r \<Longrightarrow> \<exists>rf. h r = Some rf \<and> r \<noteq> c \<and> ff_left_sibling cf \<noteq> Some r"
  shows "lks (without_child p c h) = remove_child p (links_of cf) c (lks h)"
proof
  fix x
  have "h x \<noteq> None" if "ff_left_sibling cf = Some x \<or> ff_right_sibling cf = Some x \<or> x = p \<and> ff_right_sibling cf = None"
    using that assms(3-5) by blast
  then show "lks (without_child p c h) x = remove_child p (links_of cf) c (lks h) x"
    using assms(1) by (auto simp: lks_def remove_child_def without_child_def)
qed

subsection \<open>The invariant of the tree\<close>

definition kids :: "(nat \<Rightarrow> links option) \<Rightarrow> nat \<Rightarrow> nat set" where
  "kids L x = {c. \<exists>k. L c = Some k \<and> lk_parent k = Some x}"

definition unlinked :: "'m spawn_tree \<Rightarrow> nat set" where
  "unlinked s = {x. tr_frame s x \<noteq> None \<and> tr_pc s x = F_unlinked}"

text \<open>Whether the strand of a frame counts in its join counter; whether it is in a return from a spawn, at a sync, or without a map in
  its worker.\<close>

fun own :: "'m fpc \<Rightarrow> int" where
  "own F_loot = 0" | "own F_called = 0" | "own F_stalled = 0" | "own _ = 1"

fun returning :: "'m fpc \<Rightarrow> bool" where
  "returning (F_merge l m r) = True" | "returning F_relock = True" | "returning F_unlinked = True" | "returning _ = False"

fun syncing :: "'m fpc \<Rightarrow> bool" where
  "syncing (F_sync m) = True" | "syncing (F_sync_merge l m) = True" | "syncing F_synced = True" | "syncing F_stalled = True" | "syncing _ = False"

fun emptied :: "'m fpc \<Rightarrow> bool" where
  "emptied F_called = True" | "emptied (F_merge l m r) = True" | "emptied F_unlinked = True" | "emptied (F_sync m) = True"
| "emptied (F_sync_merge l m) = True" | "emptied F_synced = True" | "emptied F_stalled = True" | "emptied _ = False"

lemma own_range: "own pc = 0 \<or> own pc = 1"
  by (cases pc) simp_all

definition frame_ok :: "(nat \<Rightarrow> links option) \<Rightarrow> (nat \<Rightarrow> 'm fpc) \<Rightarrow> (nat \<Rightarrow> bool) \<Rightarrow> (nat \<Rightarrow> 'm option) \<Rightarrow> nat \<Rightarrow> links \<Rightarrow> bool" where
  "frame_ok L pc uns mp x k \<longleftrightarrow>
     (lk_call k \<longrightarrow> (\<exists>p pk. lk_parent k = Some p \<and> L p = Some pk \<and> pc p = F_called \<and> lk_last pk = Some x)) \<and>
     (pc x = F_called \<longrightarrow> (\<exists>c ck. lk_last k = Some c \<and> L c = Some ck \<and> lk_call ck)) \<and>
     (\<forall>p. lk_parent k = Some p \<longrightarrow> \<not> uns p \<longrightarrow> lk_call k) \<and>
     (returning (pc x) \<longrightarrow> \<not> uns x \<and> lk_parent k \<noteq> None \<and> \<not> lk_call k) \<and>
     (syncing (pc x) \<longrightarrow> uns x) \<and> (emptied (pc x) \<longrightarrow> mp x = None)"

definition tree_ok :: "'m spawn_tree \<Rightarrow> place list \<Rightarrow> bool" where
  "tree_ok s ord \<longleftrightarrow> links_ok (lks (tr_frame s)) (unlinked s) ord \<and> finite (dom (tr_frame s)) \<and>
     (\<forall>x ff. tr_frame s x = Some ff \<longrightarrow> ff_join_counter ff = own (tr_pc s x) + int (card (kids (lks (tr_frame s)) x)) \<and>
        (tr_pc s x = F_stalled \<longrightarrow> ff_join_counter ff \<noteq> 0)) \<and>
     (\<forall>x k. lks (tr_frame s) x = Some k \<longrightarrow> frame_ok (lks (tr_frame s)) (tr_pc s) (tr_unsynched s) (tr_map s) x k)"

lemma tree_okD:
  assumes "tree_ok s ord"
  shows "links_ok (lks (tr_frame s)) (unlinked s) ord" "finite (dom (tr_frame s))"
    "tr_frame s x = Some ff \<Longrightarrow> ff_join_counter ff = own (tr_pc s x) + int (card (kids (lks (tr_frame s)) x))"
    "tr_frame s x = Some ff \<Longrightarrow> tr_pc s x = F_stalled \<Longrightarrow> ff_join_counter ff \<noteq> 0"
    "lks (tr_frame s) x = Some k \<Longrightarrow> frame_ok (lks (tr_frame s)) (tr_pc s) (tr_unsynched s) (tr_map s) x k"
  using assms unfolding tree_ok_def by blast+

lemma frame_okD:
  assumes "frame_ok L pc uns mp x k"
  shows "lk_call k \<Longrightarrow> \<exists>p pk. lk_parent k = Some p \<and> L p = Some pk \<and> pc p = F_called \<and> lk_last pk = Some x"
    "pc x = F_called \<Longrightarrow> \<exists>c ck. lk_last k = Some c \<and> L c = Some ck \<and> lk_call ck"
    "lk_parent k = Some p \<Longrightarrow> \<not> uns p \<Longrightarrow> lk_call k"
    "returning (pc x) \<Longrightarrow> \<not> uns x \<and> lk_parent k \<noteq> None \<and> \<not> lk_call k"
    "syncing (pc x) \<Longrightarrow> uns x" "emptied (pc x) \<Longrightarrow> mp x = None"
  using assms unfolding frame_ok_def by blast+

lemma frame_okI:
  assumes "lk_call k \<Longrightarrow> \<exists>p pk. lk_parent k = Some p \<and> L p = Some pk \<and> pc p = F_called \<and> lk_last pk = Some x"
    "pc x = F_called \<Longrightarrow> \<exists>c ck. lk_last k = Some c \<and> L c = Some ck \<and> lk_call ck"
    "\<And>p. lk_parent k = Some p \<Longrightarrow> \<not> uns p \<Longrightarrow> lk_call k"
    "returning (pc x) \<Longrightarrow> \<not> uns x \<and> lk_parent k \<noteq> None \<and> \<not> lk_call k"
    "syncing (pc x) \<Longrightarrow> uns x" "emptied (pc x) \<Longrightarrow> mp x = None"
  shows "frame_ok L pc uns mp x k"
  unfolding frame_ok_def using assms by blast

lemma kids_finite: "finite (dom h) \<Longrightarrow> finite (kids (lks h) x)"
  by (rule finite_subset [of _ "dom h"]) (auto simp: kids_def lks_def)

text \<open>A synched frame has no child, unless it waits for its call child.\<close>

lemma no_kids:
  assumes "tree_ok s ord" "tr_pc s x \<noteq> F_called" "\<not> tr_unsynched s x" shows "kids (lks (tr_frame s)) x = {}"
proof (rule ccontr)
  assume "kids (lks (tr_frame s)) x \<noteq> {}"
  then obtain c k where c: "lks (tr_frame s) c = Some k" "lk_parent k = Some x" by (auto simp: kids_def)
  note f = tree_okD(5) [OF assms(1) c(1)]
  have "lk_call k" by (rule frame_okD(3) [OF f c(2) assms(3)])
  then show False using frame_okD(1) [OF f] c(2) assms(2) by auto
qed

lemma last_in_kids:
  assumes "tree_ok s ord" "tr_frame s x = Some ff" "tr_pc s x \<noteq> F_unlinked" "ff_rightmost_child ff = Some c"
  shows "c \<in> kids (lks (tr_frame s)) x"
proof -
  have "x \<notin> unlinked s" using assms(3) by (simp add: unlinked_def)
  from no_right_of_last [OF tree_okD(1) [OF assms(1)] lks_Some [of "tr_frame s", OF assms(2)] this, of c] show ?thesis
    using assms(4) by (auto simp: kids_def)
qed

text \<open>Steps that change neither the links nor the parent of a call.\<close>

lemma tree_ok_local:
  assumes ok: "tree_ok s ord" and x: "tr_frame s x = Some ff"
    and L: "lks (tr_frame s') = lks (tr_frame s)"
    and J: "\<And>y g g'. tr_frame s y = Some g \<Longrightarrow> tr_frame s' y = Some g' \<Longrightarrow>
      ff_join_counter g' = ff_join_counter g + (if y = x then own q - own (tr_pc s x) else 0)"
    and s': "tr_pc s' = (tr_pc s)(x := q)" "tr_map s' = (tr_map s)(x := v)" "tr_unsynched s' = (tr_unsynched s)(x := b)"
    and q: "tr_pc s x \<noteq> F_called" "q \<noteq> F_called" "q = F_unlinked \<longleftrightarrow> tr_pc s x = F_unlinked"
    and b: "\<not> b \<Longrightarrow> \<not> tr_unsynched s x \<or> kids (lks (tr_frame s)) x = {}"
    and conds: "returning q \<Longrightarrow> \<not> b \<and> ff_parent ff \<noteq> None \<and> \<not> ff_is_call_child ff" "syncing q \<Longrightarrow> b" "emptied q \<Longrightarrow> v = None"
      "q = F_stalled \<Longrightarrow> ff_join_counter ff - own (tr_pc s x) \<noteq> 0"
  shows "tree_ok s' ord"
proof -
  have dom: "tr_frame s' y = None \<longleftrightarrow> tr_frame s y = None" for y using L by (metis lks_None)
  have U: "unlinked s' = unlinked s" using q(3) dom by (auto simp: unlinked_def s'(1))
  have fin: "finite (dom (tr_frame s'))" using tree_okD(2) [OF ok] dom by (simp add: dom_def)
  have join: "ff_join_counter g' = own (tr_pc s' y) + int (card (kids (lks (tr_frame s)) y)) \<and> (tr_pc s' y = F_stalled \<longrightarrow> ff_join_counter g' \<noteq> 0)"
    if g': "tr_frame s' y = Some g'" for y g'
  proof -
    obtain g where g: "tr_frame s y = Some g" using g' dom [of y] by (cases "tr_frame s y") auto
    show ?thesis using J [OF g g'] tree_okD(3,4) [OF ok g] x g conds(4) by (auto simp: s'(1))
  qed
  have frame: "frame_ok (lks (tr_frame s)) (tr_pc s') (tr_unsynched s') (tr_map s') y k" if k: "lks (tr_frame s) y = Some k" for y k
  proof -
    note f = tree_okD(5) [OF ok k]
    have kx: "k = links_of ff" if "y = x" using k x that by (simp add: lks_def)
    show ?thesis
    proof (rule frame_okI)
      show "\<exists>p pk. lk_parent k = Some p \<and> lks (tr_frame s) p = Some pk \<and> tr_pc s' p = F_called \<and> lk_last pk = Some y" if c: "lk_call k"
      proof -
        obtain p pk where *: "lk_parent k = Some p" "lks (tr_frame s) p = Some pk" "tr_pc s p = F_called" "lk_last pk = Some y"
          using frame_okD(1) [OF f c] by blast
        moreover have "p \<noteq> x" using *(3) q(1) by auto
        ultimately show ?thesis by (simp add: s'(1))
      qed
      show "\<exists>c ck. lk_last k = Some c \<and> lks (tr_frame s) c = Some ck \<and> lk_call ck" if "tr_pc s' y = F_called"
        using that frame_okD(2) [OF f] q(2) by (simp add: s'(1) split: if_splits)
      show "lk_call k" if p: "lk_parent k = Some p" "\<not> tr_unsynched s' p" for p
      proof (cases "p = x \<and> kids (lks (tr_frame s)) x = {}")
        case True
        then show ?thesis using p(1) k by (auto simp: kids_def)
      next
        case False
        then have "\<not> tr_unsynched s p" using p(2) b by (auto simp: s'(3) split: if_splits)
        then show ?thesis by (rule frame_okD(3) [OF f p(1)])
      qed
      show "returning (tr_pc s' y) \<Longrightarrow> \<not> tr_unsynched s' y \<and> lk_parent k \<noteq> None \<and> \<not> lk_call k"
        using frame_okD(4) [OF f] conds(1) kx by (auto simp: s' split: if_splits)
      show "syncing (tr_pc s' y) \<Longrightarrow> tr_unsynched s' y" using frame_okD(5) [OF f] conds(2) by (auto simp: s' split: if_splits)
      show "emptied (tr_pc s' y) \<Longrightarrow> tr_map s' y = None" using frame_okD(6) [OF f] conds(3) by (auto simp: s' split: if_splits)
    qed
  qed
  show ?thesis unfolding tree_ok_def L U using tree_okD(1) [OF ok] fin join frame by blast
qed

text \<open>A new child.\<close>

lemma add_child_facts:
  assumes ok: "links_ok L U ord" and p: "L p = Some pk" "p \<notin> U" and c: "L c = None"
  shows "add_child p b c L c = Some \<lparr>lk_call = b, lk_parent = Some p, lk_left = lk_last pk, lk_right = None, lk_last = None\<rparr>"
    "add_child p b c L p = Some (pk\<lparr>lk_last := Some c\<rparr>)"
    "x \<noteq> c \<Longrightarrow> map_option lk_parent (add_child p b c L x) = map_option lk_parent (L x)"
    "x \<noteq> c \<Longrightarrow> map_option lk_call (add_child p b c L x) = map_option lk_call (L x)"
    "x \<noteq> c \<Longrightarrow> x \<noteq> p \<Longrightarrow> map_option lk_last (add_child p b c L x) = map_option lk_last (L x)"
    "kids (add_child p b c L) x = (if x = p then insert c (kids L p) else kids L x)"
proof -
  have pc: "p \<noteq> c" using p(1) c by auto
  have l: "L l \<noteq> None \<and> l \<noteq> p" if last: "lk_last pk = Some l" for l
  proof -
    obtain ck where "L l = Some ck" "l \<noteq> p" by (rule no_right_of_last [OF ok p last]) blast
    then show ?thesis by simp
  qed
  show "add_child p b c L c = Some \<lparr>lk_call = b, lk_parent = Some p, lk_left = lk_last pk, lk_right = None, lk_last = None\<rparr>"
    "add_child p b c L p = Some (pk\<lparr>lk_last := Some c\<rparr>)"
    using p(1) pc by (simp_all add: add_child_def)
  show par: "map_option lk_parent (add_child p b c L x) = map_option lk_parent (L x)" if "x \<noteq> c" for x
    using that p(1) l by (auto simp: add_child_def)
  show "map_option lk_call (add_child p b c L x) = map_option lk_call (L x)" if "x \<noteq> c"
    using that p(1) l by (auto simp: add_child_def)
  show "map_option lk_last (add_child p b c L x) = map_option lk_last (L x)" if "x \<noteq> c" "x \<noteq> p"
    using that p(1) l by (auto simp: add_child_def)
  have kid: "y \<in> kids L' x \<longleftrightarrow> map_option lk_parent (L' y) = Some (Some x)" for L' y x by (auto simp: kids_def)
  have "y \<in> kids (add_child p b c L) x \<longleftrightarrow> y \<in> (if x = p then insert c (kids L p) else kids L x)" for y
  proof (cases "y = c")
    case True
    then show ?thesis using c p(1) by (auto simp: kid add_child_def)
  next
    case False
    then show ?thesis using par [OF False] by (cases "x = p") (simp_all add: kid)
  qed
  then show "kids (add_child p b c L) x = (if x = p then insert c (kids L p) else kids L x)" by blast
qed

lemma tree_ok_add_child:
  assumes ok: "tree_ok s (us @ place_end p (ff_rightmost_child pf) # SM p # vs)" and p: "tr_frame s p = Some pf" and c: "tr_frame s c = None"
    and L: "lks (tr_frame s') = add_child p b c (lks (tr_frame s))"
    and J: "\<And>y g g'. tr_frame s y = Some g \<Longrightarrow> tr_frame s' y = Some g' \<Longrightarrow>
      ff_join_counter g' = ff_join_counter g + (if y = p then 1 + own q - own (tr_pc s p) else 0)"
    and Jc: "\<And>g. tr_frame s' c = Some g \<Longrightarrow> ff_join_counter g = own r"
    and s': "tr_pc s' = (tr_pc s)(p := q, c := r)" "tr_map s' = (tr_map s)(c := tr_map s p, p := None)"
      "tr_unsynched s' = (tr_unsynched s)(c := False)"
    and q: "tr_pc s p \<noteq> F_called" "tr_pc s p \<noteq> F_unlinked" "b \<longleftrightarrow> q = F_called" "\<not> b \<Longrightarrow> tr_unsynched s p \<and> q = tr_pc s p" "q = F_stalled \<Longrightarrow> False"
    and r: "r = F_loot \<or> r = F_run"
  shows "tree_ok s' (us @ place_end p (ff_rightmost_child pf) # SC c # SM c # SR c # SM p # vs)"
proof -
  let ?L = "lks (tr_frame s)"
  have pk: "?L p = Some (links_of pf)" using p by (simp add: lks_def)
  have pU: "p \<notin> unlinked s" using q(2) by (simp add: unlinked_def)
  have cL: "?L c = None" using c by simp
  have cp: "c \<noteq> p" using p c by auto
  note links = tree_okD(1) [OF ok]
  note A = add_child_facts [OF links pk pU cL]
  have "tr_frame s' y = None \<longleftrightarrow> y \<noteq> c \<and> tr_frame s y = None" for y
  proof (cases "y = c")
    case True
    then show ?thesis using A(1) [of b] L by (metis lks_None option.distinct(1))
  next
    case False
    then show ?thesis using A(3) [OF False, of b] L by (metis lks_None map_option_is_None)
  qed
  note dom = this
  have "q \<noteq> F_unlinked" using q(2-4) by (cases b) auto
  moreover have "r \<noteq> F_unlinked" using r by auto
  ultimately have pcs: "tr_pc s' y = F_unlinked \<longleftrightarrow> y \<noteq> c \<and> tr_pc s y = F_unlinked" for y using q(2) by (simp add: s'(1))
  have "y \<in> unlinked s' \<longleftrightarrow> y \<in> unlinked s" for y by (cases "y = c") (simp_all add: unlinked_def dom pcs c)
  then have U: "unlinked s' = unlinked s" by (rule set_eqI)
  have "y \<in> dom (tr_frame s') \<longleftrightarrow> y \<in> insert c (dom (tr_frame s))" for y by (simp add: domIff dom)
  then have "dom (tr_frame s') = insert c (dom (tr_frame s))" by (rule set_eqI)
  then have fin: "finite (dom (tr_frame s'))" using tree_okD(2) [OF ok] by simp
  have links': "links_ok (lks (tr_frame s')) (unlinked s') (us @ place_end p (ff_rightmost_child pf) # SC c # SM c # SR c # SM p # vs)"
  proof -
    have "c \<notin> unlinked s" using c by (simp add: unlinked_def)
    from links_add_child [OF _ pk pU cL this, of us vs b] links show ?thesis unfolding L U links_of_sel by blast
  qed
  have join: "ff_join_counter g' = own (tr_pc s' y) + int (card (kids (lks (tr_frame s')) y)) \<and> (tr_pc s' y = F_stalled \<longrightarrow> ff_join_counter g' \<noteq> 0)"
    if g': "tr_frame s' y = Some g'" for y g'
  proof (cases "y = c")
    case True
    have "lk_parent k \<noteq> Some c" if "?L x = Some k" for x k using links_okD(7) [OF links that, of c] cL by blast
    then have "kids ?L c = {}" unfolding kids_def by blast
    then show ?thesis using Jc g' True r cp by (auto simp: L A(6) s'(1))
  next
    case False
    then obtain g where g: "tr_frame s y = Some g" using g' dom [of y] by (cases "tr_frame s y") auto
    show ?thesis
    proof (cases "y = p")
      case True
      have "c \<notin> kids ?L p" using c by (simp add: kids_def lks_def)
      then have "card (kids (lks (tr_frame s')) p) = Suc (card (kids ?L p))"
        using kids_finite [OF tree_okD(2) [OF ok]] by (simp add: L A(6))
      then show ?thesis using J [OF g g'] tree_okD(3) [OF ok g] True cp q(5) by (auto simp: s'(1))
    next
      case yp: False
      then show ?thesis using J [OF g g'] tree_okD(3,4) [OF ok g] False by (simp add: s'(1) L A(6))
    qed
  qed
  have frame: "frame_ok (lks (tr_frame s')) (tr_pc s') (tr_unsynched s') (tr_map s') y k" if k: "lks (tr_frame s') y = Some k" for y k
  proof (cases "y = c")
    case True
    then have kc: "lk_call k = b" "lk_parent k = Some p" "lk_last k = None" using k A(1) [of b] by (auto simp: L)
    show ?thesis
    proof (rule frame_okI)
      show "\<exists>p pk. lk_parent k = Some p \<and> lks (tr_frame s') p = Some pk \<and> tr_pc s' p = F_called \<and> lk_last pk = Some y" if "lk_call k"
        using that kc A(2) q(3) cp True by (simp add: s'(1) L)
      show "lk_call k" if "lk_parent k = Some p'" "\<not> tr_unsynched s' p'" for p'
        using that kc q(4) cp by (auto simp: s'(3))
    qed (use True r in \<open>auto simp: s'\<close>)
  next
    case False
    then have "map_option lk_call (?L y) = Some (lk_call k)" "map_option lk_parent (?L y) = Some (lk_parent k)"
      using A(3,4) [OF False, of b] k by (simp_all add: L)
    then obtain k0 where k0: "?L y = Some k0" "lk_call k0 = lk_call k" "lk_parent k0 = lk_parent k" by auto
    note f = tree_okD(5) [OF ok k0(1)]
    have lastk: "lk_last k = (if y = p then Some c else lk_last k0)"
      using A(2) [of b] A(5) [OF False, of b] k k0(1) by (auto simp: L split: if_splits)
    show ?thesis
    proof (rule frame_okI)
      show "\<exists>p pk. lk_parent k = Some p \<and> lks (tr_frame s') p = Some pk \<and> tr_pc s' p = F_called \<and> lk_last pk = Some y" if cl: "lk_call k"
      proof -
        obtain p' pk' where *: "lk_parent k0 = Some p'" "?L p' = Some pk'" "tr_pc s p' = F_called" "lk_last pk' = Some y"
          using frame_okD(1) [OF f] cl k0 by auto
        have "p' \<noteq> p" "p' \<noteq> c" using *(2,3) q(1) c by (auto simp: lks_def)
        moreover from this have "map_option lk_last (lks (tr_frame s') p') = Some (Some y)" using A(5) [of p' b] * by (simp add: L)
        then obtain pk2 where "lks (tr_frame s') p' = Some pk2" "lk_last pk2 = Some y" by auto
        ultimately show ?thesis using *(1,3) k0(3) by (simp add: s'(1))
      qed
      show "\<exists>d dk. lk_last k = Some d \<and> lks (tr_frame s') d = Some dk \<and> lk_call dk" if cl: "tr_pc s' y = F_called"
      proof (cases "y = p")
        case True
        then have "b" using cl q(3) cp by (simp add: s'(1))
        then show ?thesis using lastk True A(1) by (simp add: L)
      next
        case yp: False
        then have "tr_pc s y = F_called" using cl False by (simp add: s'(1))
        then obtain d dk where d: "lk_last k0 = Some d" "?L d = Some dk" "lk_call dk" using frame_okD(2) [OF f] by blast
        then have "d \<noteq> c" using c by (auto simp: lks_def)
        then have "map_option lk_call (lks (tr_frame s') d) = Some True" using A(4) [of d b] d by (simp add: L)
        then show ?thesis using lastk yp d(1) by auto
      qed
      show "lk_call k" if "lk_parent k = Some p'" "\<not> tr_unsynched s' p'" for p'
      proof -
        have "p' \<noteq> c" using links_okD(7) [OF links k0(1)] that(1) k0(3) c by auto
        then show ?thesis using frame_okD(3) [OF f] that k0 by (simp add: s'(3))
      qed
      have q': "y = p \<Longrightarrow> q = F_called \<or> q = tr_pc s p" using q(3,4) by blast
      show "returning (tr_pc s' y) \<Longrightarrow> \<not> tr_unsynched s' y \<and> lk_parent k \<noteq> None \<and> \<not> lk_call k"
        using frame_okD(4) [OF f] k0 False q' by (auto simp: s' split: if_splits)
      show "syncing (tr_pc s' y) \<Longrightarrow> tr_unsynched s' y" using frame_okD(5) [OF f] False q' by (auto simp: s' split: if_splits)
      show "emptied (tr_pc s' y) \<Longrightarrow> tr_map s' y = None" using frame_okD(6) [OF f] False q' by (auto simp: s' split: if_splits)
    qed
  qed
  show ?thesis unfolding tree_ok_def using links' fin join frame by blast
qed

text \<open>A child leaves the list.\<close>

lemma remove_child_facts:
  assumes ok: "links_ok L U ord" and c: "L c = Some ck" "c \<notin> U" "lk_parent ck = Some p" and pU: "p \<notin> U"
  shows "p \<noteq> c" "L p \<noteq> None" "remove_child p ck c L c = Some (ck\<lparr>lk_left := None, lk_right := None\<rparr>)"
    "map_option lk_parent (remove_child p ck c L x) = map_option lk_parent (L x)"
    "map_option lk_call (remove_child p ck c L x) = map_option lk_call (L x)"
    "x \<noteq> p \<Longrightarrow> map_option lk_last (remove_child p ck c L x) = map_option lk_last (L x)"
    "L p = Some pk \<Longrightarrow> map_option lk_last (remove_child p ck c L p) = Some (if lk_last pk = Some c then lk_left ck else lk_last pk)"
    "kids (remove_child p ck c L) x = kids L x"
proof -
  note n = links_okD(8) [OF ok c(1,2)]
  show pc: "p \<noteq> c" using node_okD(8) [OF n] c(3) by auto
  show "L p \<noteq> None" by (rule links_okD(7) [OF ok c(1,3)])
  show "remove_child p ck c L c = Some (ck\<lparr>lk_left := None, lk_right := None\<rparr>)" by (simp add: remove_child_def)
  have left: "L l \<noteq> None \<and> l \<noteq> p" if sib: "lk_left ck = Some l" for l
  proof -
    obtain lk where "L l = Some lk" "l \<noteq> p" by (rule right_of_left [OF ok c sib]) blast
    then show ?thesis by simp
  qed
  have right: "L r \<noteq> None \<and> r \<noteq> p" if sib: "lk_right ck = Some r" for r
  proof -
    obtain rk where rk: "L r = Some rk" "r \<notin> U" "lk_parent rk = Some p" by (rule left_of_right [OF ok c sib]) blast
    then show ?thesis using node_okD(8) [OF links_okD(8) [OF ok rk(1,2)]] by auto
  qed
  have last: "\<exists>pk. L p = Some pk \<and> lk_last pk = Some c" if "lk_right ck = None"
    using last_when_no_right [OF ok c that] by metis
  have not_last: "lk_last pk \<noteq> Some c" if sib: "lk_right ck = Some r" and pk: "L p = Some pk" for r pk
  proof
    assume l: "lk_last pk = Some c"
    obtain ck' where "L c = Some ck'" "lk_right ck' = None" by (rule no_right_of_last [OF ok pk pU l]) blast
    then show False using c(1) sib by simp
  qed
  show par: "map_option lk_parent (remove_child p ck c L x) = map_option lk_parent (L x)" for x
    using c(1) left right last by (auto simp: remove_child_def)
  show "map_option lk_call (remove_child p ck c L x) = map_option lk_call (L x)"
    using c(1) left right last by (auto simp: remove_child_def)
  show "map_option lk_last (remove_child p ck c L x) = map_option lk_last (L x)" if "x \<noteq> p"
    using that c(1) left right by (auto simp: remove_child_def)
  show "map_option lk_last (remove_child p ck c L p) = Some (if lk_last pk = Some c then lk_left ck else lk_last pk)" if "L p = Some pk"
    using that pc left right last not_last by (cases "lk_right ck") (auto simp: remove_child_def)
  have kid: "y \<in> kids L' x \<longleftrightarrow> map_option lk_parent (L' y) = Some (Some x)" for L' y x by (auto simp: kids_def)
  show "kids (remove_child p ck c L) x = kids L x" by (rule set_eqI) (simp only: kid par)
qed

lemma parent_linked:
  assumes ok: "tree_ok s ord" and c: "tr_frame s c = Some cf" "ff_parent cf = Some p" shows "p \<notin> unlinked s"
proof
  assume "p \<in> unlinked s"
  then obtain pf where p: "tr_frame s p = Some pf" "tr_pc s p = F_unlinked" by (auto simp: unlinked_def)
  have "\<not> tr_unsynched s p" using frame_okD(4) [OF tree_okD(5) [OF ok lks_Some [of "tr_frame s", OF p(1)]]] p(2) by simp
  from no_kids [OF ok _ this] have "kids (lks (tr_frame s)) p = {}" using p(2) by simp
  moreover have "c \<in> kids (lks (tr_frame s)) p" using c by (simp add: kids_def lks_def)
  ultimately show False by simp
qed

lemma tree_ok_unlink:
  assumes ok: "tree_ok s (us @ place_end p (ff_left_sibling cf) # SC c # SM c # SR c # place_after p (ff_right_sibling cf) # vs)"
    and c: "tr_frame s c = Some cf" "ff_parent cf = Some p" "\<not> ff_is_call_child cf"
    and pc: "tr_pc s c \<noteq> F_unlinked" "tr_pc s c \<noteq> F_called" "own (tr_pc s c) = 1" "\<not> tr_unsynched s c"
    and L: "lks (tr_frame s') = remove_child p (links_of cf) c (lks (tr_frame s))"
    and J: "\<And>y g g'. tr_frame s y = Some g \<Longrightarrow> tr_frame s' y = Some g' \<Longrightarrow> ff_join_counter g' = ff_join_counter g"
    and s': "tr_pc s' = (tr_pc s)(c := F_unlinked)" "tr_map s' = (tr_map s)(c := None)" "tr_unsynched s' = tr_unsynched s"
  shows "tree_ok s' (us @ place_end p (ff_left_sibling cf) # place_after p (ff_right_sibling cf) # vs)"
proof -
  let ?L = "lks (tr_frame s)"
  have ck: "?L c = Some (links_of cf)" using c(1) by (simp add: lks_def)
  have cU: "c \<notin> unlinked s" using pc(1) by (simp add: unlinked_def)
  note links = tree_okD(1) [OF ok]
  note A = remove_child_facts [OF links ck cU _ parent_linked [OF ok c(1,2)], unfolded links_of_sel, OF c(2)]
  have last: "ff_rightmost_child cf = None"
    using last_in_kids [OF ok c(1) pc(1)] no_kids [OF ok pc(2,4)] by (cases "ff_rightmost_child cf") auto
  have dom: "tr_frame s' y = None \<longleftrightarrow> tr_frame s y = None" for y using A(4) [of y] L by (metis lks_None map_option_is_None)
  have "y \<in> unlinked s' \<longleftrightarrow> y \<in> insert c (unlinked s)" for y using c(1) by (cases "y = c") (simp_all add: unlinked_def dom s'(1))
  then have U: "unlinked s' = insert c (unlinked s)" by (rule set_eqI)
  have fin: "finite (dom (tr_frame s'))" using tree_okD(2) [OF ok] dom by (simp add: dom_def)
  have "links_ok ?L (unlinked s) (us @ place_end p (lk_left (links_of cf)) # SC c # SM c # SR c # place_after p (lk_right (links_of cf)) # vs)"
    using links by simp
  from links_remove_child [OF this ck cU] c(2) last
  have links': "links_ok (lks (tr_frame s')) (unlinked s') (us @ place_end p (ff_left_sibling cf) # place_after p (ff_right_sibling cf) # vs)"
    by (simp add: L U)
  have join: "ff_join_counter g' = own (tr_pc s' y) + int (card (kids (lks (tr_frame s')) y)) \<and> (tr_pc s' y = F_stalled \<longrightarrow> ff_join_counter g' \<noteq> 0)"
    if g': "tr_frame s' y = Some g'" for y g'
  proof -
    obtain g where g: "tr_frame s y = Some g" using g' dom [of y] by (cases "tr_frame s y") auto
    show ?thesis using J [OF g g'] tree_okD(3,4) [OF ok g] pc(3) by (simp add: s'(1) L A(8))
  qed
  have frame: "frame_ok (lks (tr_frame s')) (tr_pc s') (tr_unsynched s') (tr_map s') y k" if k: "lks (tr_frame s') y = Some k" for y k
  proof -
    have "map_option lk_call (?L y) = Some (lk_call k)" "map_option lk_parent (?L y) = Some (lk_parent k)"
      using A(4,5) [of y] k by (simp_all add: L)
    then obtain k0 where k0: "?L y = Some k0" "lk_call k0 = lk_call k" "lk_parent k0 = lk_parent k" by auto
    note f = tree_okD(5) [OF ok k0(1)]
    show ?thesis
    proof (rule frame_okI)
      show "\<exists>p pk. lk_parent k = Some p \<and> lks (tr_frame s') p = Some pk \<and> tr_pc s' p = F_called \<and> lk_last pk = Some y" if cl: "lk_call k"
      proof -
        obtain p' pk' where *: "lk_parent k0 = Some p'" "?L p' = Some pk'" "tr_pc s p' = F_called" "lk_last pk' = Some y"
          using frame_okD(1) [OF f] cl k0 by auto
        have "p' \<noteq> c" using *(3) pc(2) by auto
        have "y \<noteq> c" using k0 ck cl c(3) by auto
        then have "map_option lk_last (lks (tr_frame s') p') = Some (Some y)"
          using A(6) [of p'] A(7) [of pk'] * by (cases "p' = p") (simp_all add: L)
        then obtain pk2 where "lks (tr_frame s') p' = Some pk2" "lk_last pk2 = Some y" by auto
        then show ?thesis using *(1,3) k0(3) \<open>p' \<noteq> c\<close> by (simp add: s'(1))
      qed
      show "\<exists>d dk. lk_last k = Some d \<and> lks (tr_frame s') d = Some dk \<and> lk_call dk" if cl: "tr_pc s' y = F_called"
      proof -
        have y: "y \<noteq> c" "tr_pc s y = F_called" using cl by (auto simp: s'(1) split: if_splits)
        then obtain d dk where d: "lk_last k0 = Some d" "?L d = Some dk" "lk_call dk" using frame_okD(2) [OF f] by blast
        then have "d \<noteq> c" using ck c(3) by auto
        then have "lk_last k = Some d" using A(6) [of y] A(7) [of k0] k k0(1) d(1) by (cases "y = p") (auto simp: L)
        moreover have "map_option lk_call (lks (tr_frame s') d) = Some True" using A(5) [of d] d by (simp add: L)
        ultimately show ?thesis by auto
      qed
      show "lk_call k" if "lk_parent k = Some p'" "\<not> tr_unsynched s' p'" for p'
        using frame_okD(3) [OF f] that k0 by (simp add: s'(3))
      show "returning (tr_pc s' y) \<Longrightarrow> \<not> tr_unsynched s' y \<and> lk_parent k \<noteq> None \<and> \<not> lk_call k"
      proof (cases "y = c")
        case True
        then have "k0 = links_of cf" using k0(1) ck by simp
        then have "lk_parent k = Some p" "\<not> lk_call k" using k0(2,3) c(2,3) by auto
        then show ?thesis using True pc(4) by (simp add: s'(3))
      next
        case False
        then show "returning (tr_pc s' y) \<Longrightarrow> \<not> tr_unsynched s' y \<and> lk_parent k \<noteq> None \<and> \<not> lk_call k"
          using frame_okD(4) [OF f] k0 by (simp add: s')
      qed
      show "syncing (tr_pc s' y) \<Longrightarrow> tr_unsynched s' y" using frame_okD(5) [OF f] by (auto simp: s' split: if_splits)
      show "emptied (tr_pc s' y) \<Longrightarrow> tr_map s' y = None" using frame_okD(6) [OF f] by (auto simp: s' split: if_splits)
    qed
  qed
  show ?thesis unfolding tree_ok_def using links' fin join frame by blast
qed

text \<open>An unlinked child is destroyed, and its parent goes on if it was the last one that it waited for.\<close>

lemma tree_ok_destroy:
  assumes ok: "tree_ok s ord" and c: "tr_frame s c = Some cf" "tr_pc s c = F_unlinked" "ff_parent cf = Some p" and p: "tr_frame s p = Some pf"
    and L: "lks (tr_frame s') = (lks (tr_frame s))(c := None)"
    and J: "\<And>y g g'. tr_frame s y = Some g \<Longrightarrow> tr_frame s' y = Some g' \<Longrightarrow>
      ff_join_counter g' = ff_join_counter g + (if y = p then own q - own (tr_pc s p) - 1 else 0)"
    and s': "tr_pc s' = (tr_pc s)(p := q)" "tr_map s' = tr_map s" "tr_unsynched s' = (tr_unsynched s)(p := b)"
    and q: "q = tr_pc s p \<and> b = tr_unsynched s p \<and> ff_join_counter pf \<noteq> 1 \<or>
      q = F_next \<and> tr_pc s p = F_stalled \<and> \<not> b \<and> ff_join_counter pf = 1"
  shows "tree_ok s' ord"
proof -
  let ?L = "lks (tr_frame s)"
  note links = tree_okD(1) [OF ok]
  have ck: "?L c = Some (links_of cf)" using c(1) by (simp add: lks_def)
  have cU: "c \<in> unlinked s" using c(1,2) by (simp add: unlinked_def)
  have pU: "p \<notin> unlinked s" by (rule parent_linked [OF ok c(1,3)])
  then have pc: "p \<noteq> c" using cU by auto
  note fc = tree_okD(5) [OF ok ck]
  have ret: "\<not> tr_unsynched s c" "\<not> ff_is_call_child cf" using frame_okD(4) [OF fc] c(2) by simp_all
  have nokids: "kids ?L c = {}" using no_kids [OF ok _ ret(1)] c(2) by simp
  have nopar: "lk_parent k \<noteq> Some c" if "?L x = Some k" for x k using nokids that by (auto simp: kids_def)
  have dom: "tr_frame s' y = None \<longleftrightarrow> y = c \<or> tr_frame s y = None" for y using L by (metis fun_upd_apply lks_None)
  have qU: "q \<noteq> F_unlinked" using q pU p by (auto simp: unlinked_def)
  have "y \<in> unlinked s' \<longleftrightarrow> y \<in> unlinked s - {c}" for y using p qU pU by (cases "y = p") (auto simp: unlinked_def dom s'(1))
  then have U: "unlinked s' = unlinked s - {c}" by (rule set_eqI)
  have "dom (tr_frame s') \<subseteq> dom (tr_frame s)" by (rule subsetI) (simp add: domIff dom)
  then have fin: "finite (dom (tr_frame s'))" using tree_okD(2) [OF ok] finite_subset by blast
  have links': "links_ok (lks (tr_frame s')) (unlinked s') ord" unfolding L U by (rule links_destroy [OF links cU nopar])
  have cp: "c \<in> kids ?L p" using ck c(3) by (simp add: kids_def)
  have kids': "kids (lks (tr_frame s')) y = (if y = p then kids ?L p - {c} else kids ?L y)" for y
  proof -
    have "kids (lks (tr_frame s')) y = kids ?L y - {c}" unfolding L kids_def by auto
    moreover have "c \<in> kids ?L y \<longleftrightarrow> y = p" using ck c(3) by (auto simp: kids_def)
    ultimately show ?thesis by auto
  qed
  note fk = kids_finite [OF tree_okD(2) [OF ok]]
  have join: "ff_join_counter g' = own (tr_pc s' y) + int (card (kids (lks (tr_frame s')) y)) \<and> (tr_pc s' y = F_stalled \<longrightarrow> ff_join_counter g' \<noteq> 0)"
    if g': "tr_frame s' y = Some g'" for y g'
  proof -
    obtain g where g: "tr_frame s y = Some g" using g' dom [of y] by (cases "tr_frame s y") auto
    show ?thesis
    proof (cases "y = p")
      case True
      have "0 < card (kids ?L p)" using cp fk by (auto simp: card_gt_0_iff)
      then have "int (card (kids (lks (tr_frame s')) p)) = int (card (kids ?L p)) - 1" using cp by (simp add: kids')
      then show ?thesis using J [OF g g'] tree_okD(3) [OF ok g] True q g p by (auto simp: s'(1))
    next
      case False
      then show ?thesis using J [OF g g'] tree_okD(3,4) [OF ok g] by (simp add: s'(1) kids')
    qed
  qed
  have last_kid: "kids ?L p = {c}" if "tr_pc s p = F_stalled" "ff_join_counter pf = 1"
  proof -
    have "card (kids ?L p) = 1" using tree_okD(3) [OF ok p] that by simp
    then show ?thesis using cp by (metis card_1_singletonE singletonD)
  qed
  have frame: "frame_ok (lks (tr_frame s')) (tr_pc s') (tr_unsynched s') (tr_map s') y k" if k: "lks (tr_frame s') y = Some k" for y k
  proof -
    have yc: "y \<noteq> c" and k0: "?L y = Some k" using k by (auto simp: L split: if_splits)
    note f = tree_okD(5) [OF ok k0]
    show ?thesis
    proof (rule frame_okI)
      show "\<exists>p pk. lk_parent k = Some p \<and> lks (tr_frame s') p = Some pk \<and> tr_pc s' p = F_called \<and> lk_last pk = Some y" if cl: "lk_call k"
      proof -
        obtain p' pk' where *: "lk_parent k = Some p'" "?L p' = Some pk'" "tr_pc s p' = F_called" "lk_last pk' = Some y"
          using frame_okD(1) [OF f cl] by blast
        then have "p' \<noteq> c" "p' = p \<longrightarrow> q = F_called" using c(2) q by auto
        then show ?thesis using * by (auto simp: L s'(1))
      qed
      show "\<exists>d dk. lk_last k = Some d \<and> lks (tr_frame s') d = Some dk \<and> lk_call dk" if cl: "tr_pc s' y = F_called"
      proof -
        have "tr_pc s y = F_called" using cl q by (auto simp: s'(1) split: if_splits)
        then obtain d dk where d: "lk_last k = Some d" "?L d = Some dk" "lk_call dk" using frame_okD(2) [OF f] by blast
        then have "d \<noteq> c" using ck ret(2) by auto
        then show ?thesis using d by (simp add: L)
      qed
      show "lk_call k" if pp: "lk_parent k = Some p'" "\<not> tr_unsynched s' p'" for p'
      proof (cases "p' = p \<and> tr_pc s p = F_stalled \<and> ff_join_counter pf = 1")
        case True
        then have "y \<in> kids ?L p" using pp(1) k0 by (auto simp: kids_def)
        then show ?thesis using last_kid True yc by auto
      next
        case False
        then have "\<not> tr_unsynched s p'" using pp(2) q by (auto simp: s'(3) split: if_splits)
        then show ?thesis by (rule frame_okD(3) [OF f pp(1)])
      qed
      show "returning (tr_pc s' y) \<Longrightarrow> \<not> tr_unsynched s' y \<and> lk_parent k \<noteq> None \<and> \<not> lk_call k"
        using frame_okD(4) [OF f] q by (auto simp: s' split: if_splits)
      show "syncing (tr_pc s' y) \<Longrightarrow> tr_unsynched s' y" using frame_okD(5) [OF f] q by (auto simp: s' split: if_splits)
      show "emptied (tr_pc s' y) \<Longrightarrow> tr_map s' y = None" using frame_okD(6) [OF f] q by (auto simp: s' split: if_splits)
    qed
  qed
  show ?thesis unfolding tree_ok_def using links' fin join frame by blast
qed

text \<open>A called child is unlinked and destroyed, and its parent goes on.\<close>

lemma call_child_facts:
  assumes ok: "tree_ok s ord" and c: "tr_frame s c = Some cf" "ff_parent cf = Some p" "ff_is_call_child cf" "tr_pc s c \<noteq> F_unlinked"
  shows "tr_pc s p = F_called" "\<exists>pf. tr_frame s p = Some pf \<and> ff_rightmost_child pf = Some c" "ff_right_sibling cf = None"
proof -
  have ck: "lks (tr_frame s) c = Some (links_of cf)" using c(1) by (simp add: lks_def)
  obtain pk where pk: "lks (tr_frame s) p = Some pk" "tr_pc s p = F_called" "lk_last pk = Some c"
    using frame_okD(1) [OF tree_okD(5) [OF ok ck]] c(2,3) by auto
  show "tr_pc s p = F_called" by (rule pk(2))
  show "\<exists>pf. tr_frame s p = Some pf \<and> ff_rightmost_child pf = Some c" using lks_SomeD [OF pk(1)] pk(3) by auto
  have "p \<notin> unlinked s" using pk(2) by (simp add: unlinked_def)
  from no_right_of_last [OF tree_okD(1) [OF ok] pk(1) this pk(3)] obtain ck' where "lks (tr_frame s) c = Some ck'" "lk_right ck' = None" by blast
  then show "ff_right_sibling cf = None" using ck by auto
qed

lemma tree_ok_call_return:
  assumes ok: "tree_ok s (us @ place_end p (ff_left_sibling cf) # SC c # SM c # SR c # SM p # vs)"
    and c: "tr_frame s c = Some cf" "ff_parent cf = Some p" "ff_is_call_child cf"
    and pc: "tr_pc s c = F_run" "\<not> tr_unsynched s c"
    and L: "lks (tr_frame s') = (remove_child p (links_of cf) c (lks (tr_frame s)))(c := None)"
    and J: "\<And>y g g'. tr_frame s y = Some g \<Longrightarrow> tr_frame s' y = Some g' \<Longrightarrow> ff_join_counter g' = ff_join_counter g"
    and s': "tr_pc s' = (tr_pc s)(p := F_next)" "tr_map s' = (tr_map s)(p := v, c := None)" "tr_unsynched s' = tr_unsynched s"
  shows "tree_ok s' (us @ place_end p (ff_left_sibling cf) # SM p # vs)"
proof -
  let ?L = "lks (tr_frame s)"
  have ck: "?L c = Some (links_of cf)" using c(1) by (simp add: lks_def)
  have cU: "c \<notin> unlinked s" using pc(1) by (simp add: unlinked_def)
  have pU: "p \<notin> unlinked s" by (rule parent_linked [OF ok c(1,2)])
  note links = tree_okD(1) [OF ok]
  have linkp: "lk_parent (links_of cf) = Some p" using c(2) by simp
  note A = remove_child_facts [OF links ck cU linkp pU]
  have "tr_pc s c \<noteq> F_unlinked" using pc(1) by simp
  note call = call_child_facts [OF ok c this]
  obtain pf where p: "tr_frame s p = Some pf" "ff_rightmost_child pf = Some c" using call(2) by blast
  have pk: "?L p = Some (links_of pf)" using p(1) by (simp add: lks_def)
  have nokids: "kids ?L c = {}" using no_kids [OF ok _ pc(2)] pc(1) by simp
  have last: "ff_rightmost_child cf = None"
    using last_in_kids [OF ok c(1)] nokids pc(1) by (cases "ff_rightmost_child cf") auto
  have dom: "tr_frame s' y = None \<longleftrightarrow> y = c \<or> tr_frame s y = None" for y
    using A(4) [of y] L by (metis fun_upd_apply lks_None map_option_is_None)
  have "y \<in> unlinked s' \<longleftrightarrow> y \<in> insert c (unlinked s) - {c}" for y
    using cU pU p(1) A(1) by (cases "y = p") (auto simp: unlinked_def dom s'(1))
  then have U: "unlinked s' = insert c (unlinked s) - {c}" by (rule set_eqI)
  have "dom (tr_frame s') \<subseteq> dom (tr_frame s)" by (rule subsetI) (simp add: domIff dom)
  then have fin: "finite (dom (tr_frame s'))" using tree_okD(2) [OF ok] finite_subset by blast
  let ?R = "remove_child p (links_of cf) c ?L"
  have "links_ok ?L (unlinked s) (us @ place_end p (lk_left (links_of cf)) # SC c # SM c # SR c # place_after p (lk_right (links_of cf)) # vs)"
    using links call(3) by simp
  from links_remove_child [OF this ck cU linkp] last call(3)
  have R: "links_ok ?R (insert c (unlinked s)) (us @ place_end p (ff_left_sibling cf) # SM p # vs)" by simp
  have nopar: "lk_parent k \<noteq> Some c" if "?R x = Some k" for x k
  proof
    assume "lk_parent k = Some c"
    then have "x \<in> kids ?R c" using that by (simp add: kids_def)
    then show False using A(8) [of c] nokids by simp
  qed
  have links': "links_ok (lks (tr_frame s')) (unlinked s') (us @ place_end p (ff_left_sibling cf) # SM p # vs)"
    unfolding L U by (rule links_destroy [OF R _ nopar]) simp
  have cp: "c \<in> kids ?L p" using ck linkp by (simp add: kids_def)
  have kids': "kids (lks (tr_frame s')) y = (if y = p then kids ?L p - {c} else kids ?L y)" for y
  proof -
    have "kids (lks (tr_frame s')) y = kids ?R y - {c}" unfolding L kids_def by auto
    moreover have "c \<in> kids ?L y \<longleftrightarrow> y = p" using ck linkp by (auto simp: kids_def)
    ultimately show ?thesis by (auto simp: A(8))
  qed
  have join: "ff_join_counter g' = own (tr_pc s' y) + int (card (kids (lks (tr_frame s')) y)) \<and> (tr_pc s' y = F_stalled \<longrightarrow> ff_join_counter g' \<noteq> 0)"
    if g': "tr_frame s' y = Some g'" for y g'
  proof -
    obtain g where g: "tr_frame s y = Some g" using g' dom [of y] by (cases "tr_frame s y") auto
    show ?thesis
    proof (cases "y = p")
      case True
      have "0 < card (kids ?L p)" using cp kids_finite [OF tree_okD(2) [OF ok]] by (auto simp: card_gt_0_iff)
      then have "int (card (kids (lks (tr_frame s')) p)) = int (card (kids ?L p)) - 1" using cp by (simp add: kids')
      then show ?thesis using J [OF g g'] tree_okD(3) [OF ok g] True call(1) by (simp add: s'(1))
    next
      case False
      then show ?thesis using J [OF g g'] tree_okD(3,4) [OF ok g] by (simp add: s'(1) kids')
    qed
  qed
  have frame: "frame_ok (lks (tr_frame s')) (tr_pc s') (tr_unsynched s') (tr_map s') y k" if k: "lks (tr_frame s') y = Some k" for y k
  proof -
    have yc: "y \<noteq> c" and Rk: "?R y = Some k" using k by (auto simp: L split: if_splits)
    then have "map_option lk_call (?L y) = Some (lk_call k)" "map_option lk_parent (?L y) = Some (lk_parent k)"
      using A(4,5) [of y] by simp_all
    then obtain k0 where k0: "?L y = Some k0" "lk_call k0 = lk_call k" "lk_parent k0 = lk_parent k" by auto
    note f = tree_okD(5) [OF ok k0(1)]
    have only: "lk_last k' \<noteq> Some y" if "?L p = Some k'" for k' using that pk p(2) yc by auto
    show ?thesis
    proof (rule frame_okI)
      show "\<exists>p pk. lk_parent k = Some p \<and> lks (tr_frame s') p = Some pk \<and> tr_pc s' p = F_called \<and> lk_last pk = Some y" if cl: "lk_call k"
      proof -
        obtain p' pk' where *: "lk_parent k0 = Some p'" "?L p' = Some pk'" "tr_pc s p' = F_called" "lk_last pk' = Some y"
          using frame_okD(1) [OF f] cl k0 by auto
        have "p' \<noteq> c" "p' \<noteq> p" using * pc(1) only by auto
        moreover from this have "map_option lk_last (?R p') = Some (Some y)" using A(6) [of p'] * by simp
        ultimately show ?thesis using *(1,3) k0(3) by (auto simp: s'(1) L)
      qed
      show "\<exists>d dk. lk_last k = Some d \<and> lks (tr_frame s') d = Some dk \<and> lk_call dk" if cl: "tr_pc s' y = F_called"
      proof -
        have y: "y \<noteq> p" "tr_pc s y = F_called" using cl by (auto simp: s'(1) split: if_splits)
        then obtain d dk where d: "lk_last k0 = Some d" "?L d = Some dk" "lk_call dk" using frame_okD(2) [OF f] by blast
        have "y \<notin> unlinked s" using y(2) by (simp add: unlinked_def)
        have "lk_parent dk = Some y"
          using node_okD(6) [OF links_okD(8) [OF links k0(1) \<open>y \<notin> unlinked s\<close>] d(1)] d(2) by simp
        then have "d \<noteq> c" using y(1) d(2) ck linkp by auto
        moreover have "lk_last k = Some d" using A(6) [OF y(1)] Rk k0(1) d(1) by simp
        moreover have "map_option lk_call (?R d) = Some True" using A(5) [of d] d by simp
        ultimately show ?thesis by (auto simp: L)
      qed
      show "lk_call k" if "lk_parent k = Some p'" "\<not> tr_unsynched s' p'" for p'
        using frame_okD(3) [OF f] that k0 by (simp add: s'(3))
      show "returning (tr_pc s' y) \<Longrightarrow> \<not> tr_unsynched s' y \<and> lk_parent k \<noteq> None \<and> \<not> lk_call k"
        using frame_okD(4) [OF f] k0 by (simp add: s' split: if_splits)
      show "syncing (tr_pc s' y) \<Longrightarrow> tr_unsynched s' y" using frame_okD(5) [OF f] by (simp add: s' split: if_splits)
      show "emptied (tr_pc s' y) \<Longrightarrow> tr_map s' y = None" using frame_okD(6) [OF f] by (simp add: s' split: if_splits)
    qed
  qed
  show ?thesis unfolding tree_ok_def using links' fin join frame by blast
qed

end
