(* ===== verification/Spawn_Values.thy ===== *)
theory Spawn_Values
  imports Spawn_Inv
begin

text \<open>
  The values of the reducer maps: every place holds the product of the updates of a segment of the strands, and the segments of
  the places, in the serial order of the places, are the strands in their serial order.  Every step keeps this.
\<close>

subsection \<open>Products\<close>

definition assoc_merge :: "('m \<Rightarrow> 'm \<Rightarrow> 'm) \<Rightarrow> bool" where
  "assoc_merge mrg \<longleftrightarrow> (\<forall>a b c. mrg (mrg a b) c = mrg a (mrg b c))"

fun product :: "('m \<Rightarrow> 'm \<Rightarrow> 'm) \<Rightarrow> 'm list \<Rightarrow> 'm option" where
  "product mrg [] = None"
| "product mrg (x # xs) = merge_maps mrg (Some x) (product mrg xs)"

lemma merge_maps_None [simp]: "merge_maps mrg v None = v"
  by (cases v) simp_all

lemma merge_maps_eq_None [simp]: "merge_maps mrg a b = None \<longleftrightarrow> a = None \<and> b = None"
  by (cases a; cases b) simp_all

lemma merge_maps_assoc: "assoc_merge mrg \<Longrightarrow> merge_maps mrg (merge_maps mrg a b) c = merge_maps mrg a (merge_maps mrg b c)"
  by (cases a; cases b; cases c) (simp_all add: assoc_merge_def)

lemma product_append: "assoc_merge mrg \<Longrightarrow> product mrg (xs @ ys) = merge_maps mrg (product mrg xs) (product mrg ys)"
  by (induction xs) (simp_all add: merge_maps_assoc)

subsection \<open>Places, values and segments\<close>

fun held :: "('m \<Rightarrow> 'm \<Rightarrow> 'm) \<Rightarrow> 'm fpc \<Rightarrow> 'm option \<Rightarrow> 'm option" where
  "held mrg (F_merge l m r) v = merge_maps mrg (merge_maps mrg l m) r"
| "held mrg (F_sync m) v = m"
| "held mrg (F_sync_merge l m) v = merge_maps mrg l m"
| "held mrg pc v = v"

fun val :: "('m \<Rightarrow> 'm \<Rightarrow> 'm) \<Rightarrow> 'm spawn_tree \<Rightarrow> place \<Rightarrow> 'm option" where
  "val mrg s (SC x) = Option.bind (tr_frame s x) ff_children_reducer_map"
| "val mrg s (SM x) = held mrg (tr_pc s x) (tr_map s x)"
| "val mrg s (SR x) = Option.bind (tr_frame s x) ff_right_reducer_map"

definition updates :: "'m spawn_tree \<Rightarrow> nat list \<Rightarrow> 'm list" where
  "updates s ids = concat (map (tr_upd s) ids)"

lemma updates_simps [simp]: "updates s [] = []" "updates s (xs @ ys) = updates s xs @ updates s ys"
  by (simp_all add: updates_def)

definition segments :: "(place \<Rightarrow> nat list) \<Rightarrow> place list \<Rightarrow> nat list" where
  "segments seg ord = concat (map seg ord)"

lemma segments_simps [simp]:
  "segments seg [] = []" "segments seg (pl # ord) = seg pl @ segments seg ord" "segments seg (us @ vs) = segments seg us @ segments seg vs"
  by (simp_all add: segments_def)

lemma segments_cong: "(\<And>pl. pl \<in> set ord \<Longrightarrow> seg' pl = seg pl) \<Longrightarrow> segments seg' ord = segments seg ord"
  unfolding segments_def by (metis map_eq_conv)

definition values_ok :: "('m \<Rightarrow> 'm \<Rightarrow> 'm) \<Rightarrow> 'm spawn_tree \<Rightarrow> place list \<Rightarrow> (place \<Rightarrow> nat list) \<Rightarrow> bool" where
  "values_ok mrg s ord seg \<longleftrightarrow> (\<forall>pl\<in>set ord. val mrg s pl = product mrg (updates s (seg pl))) \<and> segments seg ord = tr_strands s \<and>
     distinct (tr_strands s) \<and> set (tr_strands s) = {..<length (tr_strands s)}"

lemma values_okD:
  assumes "values_ok mrg s ord seg"
  shows "pl \<in> set ord \<Longrightarrow> val mrg s pl = product mrg (updates s (seg pl))" "segments seg ord = tr_strands s" "distinct (tr_strands s)"
    "set (tr_strands s) = {..<length (tr_strands s)}"
  using assms unfolding values_ok_def by blast+

text \<open>A step moves segments between neighbours and may add or remove places.\<close>

lemma values_ok_block:
  assumes ok: "values_ok mrg s (us @ ps @ vs) seg"
    and seg: "\<And>pl. pl \<in> set us \<union> set vs \<Longrightarrow> seg' pl = seg pl" "segments seg' ps' = segments seg ps"
    and val: "\<And>pl. pl \<in> set us \<union> set vs \<Longrightarrow> val mrg s' pl = val mrg s pl"
      "\<And>pl. pl \<in> set ps' \<Longrightarrow> val mrg s' pl = product mrg (updates s (seg' pl))"
    and same: "tr_strands s' = tr_strands s" "tr_upd s' = tr_upd s"
  shows "values_ok mrg s' (us @ ps' @ vs) seg'"
proof -
  have u: "updates s' ids = updates s ids" for ids by (simp add: updates_def same)
  have "segments seg' (us @ ps' @ vs) = segments seg (us @ ps @ vs)"
    using segments_cong [of us seg' seg] segments_cong [of vs seg' seg] seg by simp
  moreover have "val mrg s' pl = product mrg (updates s (seg' pl))" if "pl \<in> set (us @ ps' @ vs)" for pl
  proof (cases "pl \<in> set ps'")
    case False
    then have "pl \<in> set us \<union> set vs" using that by auto
    then show ?thesis using values_okD(1) [OF ok, of pl] seg(1) val(1) by auto
  qed (rule val(2))
  ultimately show ?thesis using values_okD(2-4) [OF ok] by (simp add: values_ok_def same u)
qed

text \<open>The strands up to a place.\<close>

definition upto_place :: "place list \<Rightarrow> (place \<Rightarrow> nat list) \<Rightarrow> place \<Rightarrow> nat list" where
  "upto_place ord seg pl = segments seg (takeWhile (\<lambda>q. q \<noteq> pl) ord) @ seg pl"

lemma upto_place_eq: "pl \<notin> set us \<Longrightarrow> upto_place (us @ pl # vs) seg pl = segments seg us @ seg pl"
proof -
  assume "pl \<notin> set us"
  then have "takeWhile (\<lambda>q. q \<noteq> pl) (us @ pl # vs) = us" by (induction us) auto
  then show ?thesis by (simp add: upto_place_def)
qed

lemma upto_place_block:
  assumes pl: "pl \<in> set us \<union> set vs" and d: "distinct (us @ ps @ vs)" "distinct (us @ ps' @ vs)"
    and seg: "\<And>q. q \<in> set us \<union> set vs \<Longrightarrow> seg' q = seg q" "segments seg' ps' = segments seg ps"
  shows "upto_place (us @ ps' @ vs) seg' pl = upto_place (us @ ps @ vs) seg pl"
proof (cases "pl \<in> set us")
  case True
  then obtain xs ys where us: "us = xs @ pl # ys" using split_list by metis
  then have "pl \<notin> set xs" using d(1) by auto
  moreover have "segments seg' xs = segments seg xs" using seg(1) us by (intro segments_cong) simp
  ultimately show ?thesis
    using upto_place_eq [of pl xs "ys @ ps' @ vs" seg'] upto_place_eq [of pl xs "ys @ ps @ vs" seg] seg(1) [OF pl] by (simp add: us)
next
  case False
  then obtain xs ys where vs: "vs = xs @ pl # ys" using pl split_list by (metis UnE)
  then have n: "pl \<notin> set (us @ ps @ xs)" "pl \<notin> set (us @ ps' @ xs)" using d by auto
  have "segments seg' us = segments seg us" "segments seg' xs = segments seg xs" using seg(1) vs by (auto intro: segments_cong)
  then show ?thesis
    using upto_place_eq [OF n(1), of ys seg] upto_place_eq [OF n(2), of ys seg'] seg(2) seg(1) [OF pl] by (simp add: vs)
qed

definition place_ok :: "'m fpc \<Rightarrow> bool \<Rightarrow> nat \<Rightarrow> bool \<Rightarrow> nat list \<Rightarrow> nat list \<Rightarrow> nat list \<Rightarrow> nat list \<Rightarrow> bool" where
  "place_ok pc uns cur call pre sc sm sr \<longleftrightarrow> (pc \<noteq> F_called \<and> \<not> returning pc \<longrightarrow> pre \<noteq> [] \<and> last pre = cur) \<and> (pc = F_run \<or> pc = F_next \<and> uns \<longrightarrow> sm \<noteq> []) \<and>
     (pc = F_called \<or> pc = F_synced \<or> pc = F_stalled \<longrightarrow> sm = []) \<and> (call \<longrightarrow> sr = []) \<and>
     (\<not> uns \<longrightarrow> pc \<noteq> F_next \<longrightarrow> sc = []) \<and> (\<not> uns \<longrightarrow> pc = F_next \<longrightarrow> sc = [] \<or> sm = [])"

definition strand_ok :: "'m spawn_tree \<Rightarrow> place list \<Rightarrow> (place \<Rightarrow> nat list) \<Rightarrow> nat \<Rightarrow> bool" where
  "strand_ok s ord seg x \<longleftrightarrow> (case tr_frame s x of None \<Rightarrow> True
     | Some ff \<Rightarrow> tr_pc s x = F_unlinked \<or>
         place_ok (tr_pc s x) (tr_unsynched s x) (tr_cur s x) (ff_is_call_child ff \<or> x = the_root) (upto_place ord seg (SM x))
           (seg (SC x)) (seg (SM x)) (seg (SR x)))"

definition active :: "'m spawn_tree \<Rightarrow> nat \<Rightarrow> bool" where
  "active s x \<longleftrightarrow> tr_frame s x \<noteq> None \<and> tr_pc s x \<noteq> F_called \<and> \<not> returning (tr_pc s x)"

lemma activeD:
  assumes "active s x" shows "tr_pc s x \<noteq> F_unlinked" "tr_pc s x \<noteq> F_called" "\<not> returning (tr_pc s x)" "\<exists>ff. tr_frame s x = Some ff"
  using assms by (cases "tr_pc s x"; auto simp: active_def)+

definition strands_apart :: "'m spawn_tree \<Rightarrow> bool" where
  "strands_apart s \<longleftrightarrow> (\<forall>x y. active s x \<longrightarrow> active s y \<longrightarrow> tr_cur s x = tr_cur s y \<longrightarrow> x = y)"

text \<open>The maps of an unlinked frame have been taken.\<close>

definition tidy :: "'m spawn_tree \<Rightarrow> bool" where
  "tidy s \<longleftrightarrow> (\<forall>x. tr_frame s x \<noteq> None \<longrightarrow> tr_pc s x = F_unlinked \<longrightarrow> Option.bind (tr_frame s x) ff_children_reducer_map = None \<and>
     Option.bind (tr_frame s x) ff_right_reducer_map = None)"

lemma tidyI:
  assumes "\<And>x ff. tr_frame s x = Some ff \<Longrightarrow> tr_pc s x = F_unlinked \<Longrightarrow> ff_children_reducer_map ff = None \<and> ff_right_reducer_map ff = None"
  shows "tidy s"
  using assms unfolding tidy_def by auto

lemma tidyD: "tidy s \<Longrightarrow> tr_frame s x = Some ff \<Longrightarrow> tr_pc s x = F_unlinked \<Longrightarrow> ff_children_reducer_map ff = None \<and> ff_right_reducer_map ff = None"
  unfolding tidy_def by (metis bind.bind_lunit option.distinct(1))

lemma tidy_same:
  assumes "tidy s" and "\<And>x. tr_frame s' x \<noteq> None \<Longrightarrow> tr_pc s' x = F_unlinked \<Longrightarrow> tr_frame s x \<noteq> None \<and> tr_pc s x = F_unlinked \<and>
    Option.bind (tr_frame s' x) ff_children_reducer_map = Option.bind (tr_frame s x) ff_children_reducer_map \<and>
    Option.bind (tr_frame s' x) ff_right_reducer_map = Option.bind (tr_frame s x) ff_right_reducer_map"
  shows "tidy s'"
  using assms unfolding tidy_def by metis

definition tree_inv :: "('m \<Rightarrow> 'm \<Rightarrow> 'm) \<Rightarrow> 'm spawn_tree \<Rightarrow> place list \<Rightarrow> (place \<Rightarrow> nat list) \<Rightarrow> bool" where
  "tree_inv mrg s ord seg \<longleftrightarrow> tree_ok s ord \<and> values_ok mrg s ord seg \<and> (\<forall>x. strand_ok s ord seg x) \<and> strands_apart s \<and> tidy s"

text \<open>Frames that a step does not touch.\<close>

lemma place_ok_same:
  assumes "place_ok pc uns cur call pre sc sm sr" "sc' = sc \<or> uns" "sr' = sr \<or> \<not> call"
  shows "place_ok pc uns cur call pre sc' sm sr'"
  using assms(1) unfolding place_ok_def using assms(2,3) by (elim conjE) (intro conjI; blast)

lemma strand_okI:
  assumes "\<And>ff. tr_frame s x = Some ff \<Longrightarrow> tr_pc s x \<noteq> F_unlinked \<Longrightarrow>
      place_ok (tr_pc s x) (tr_unsynched s x) (tr_cur s x) (ff_is_call_child ff \<or> x = the_root) (upto_place ord seg (SM x))
        (seg (SC x)) (seg (SM x)) (seg (SR x))"
  shows "strand_ok s ord seg x"
  using assms by (cases "tr_frame s x") (auto simp: strand_ok_def)

lemma strand_okD:
  assumes "strand_ok s ord seg x" "tr_frame s x = Some ff" "tr_pc s x \<noteq> F_unlinked"
  shows "place_ok (tr_pc s x) (tr_unsynched s x) (tr_cur s x) (ff_is_call_child ff \<or> x = the_root) (upto_place ord seg (SM x))
    (seg (SC x)) (seg (SM x)) (seg (SR x))"
  using assms by (simp add: strand_ok_def)

lemma strand_ok_same:
  assumes ok: "strand_ok s ord seg x"
    and same: "map_option ff_is_call_child (tr_frame s' x) = map_option ff_is_call_child (tr_frame s x)" "tr_pc s' x = tr_pc s x"
      "tr_unsynched s' x = tr_unsynched s x" "tr_cur s' x = tr_cur s x"
    and places: "\<And>ff. tr_frame s x = Some ff \<Longrightarrow> tr_pc s x \<noteq> F_unlinked \<Longrightarrow> upto_place ord' seg' (SM x) = upto_place ord seg (SM x) \<and>
      seg' (SM x) = seg (SM x) \<and> (seg' (SC x) = seg (SC x) \<or> tr_unsynched s x) \<and>
      (seg' (SR x) = seg (SR x) \<or> \<not> (ff_is_call_child ff \<or> x = the_root))"
  shows "strand_ok s' ord' seg' x"
proof (rule strand_okI)
  fix ff' assume f': "tr_frame s' x = Some ff'" "tr_pc s' x \<noteq> F_unlinked"
  then obtain ff where f: "tr_frame s x = Some ff" "ff_is_call_child ff = ff_is_call_child ff'"
    using same(1) by (cases "tr_frame s x") auto
  have pc: "tr_pc s x \<noteq> F_unlinked" using f'(2) same(2) by simp
  note p = places [OF f(1) pc]
  from strand_okD [OF ok f(1) pc] show "place_ok (tr_pc s' x) (tr_unsynched s' x) (tr_cur s' x) (ff_is_call_child ff' \<or> x = the_root)
      (upto_place ord' seg' (SM x)) (seg' (SC x)) (seg' (SM x)) (seg' (SR x))"
    unfolding same(2-4) f(2) [symmetric] using p by (metis place_ok_same)
qed

subsection \<open>Updates and set-up\<close>

lemma tree_invD:
  assumes "tree_inv mrg s ord seg"
  shows "tree_ok s ord" "values_ok mrg s ord seg" "strand_ok s ord seg x" "links_ok (lks (tr_frame s)) (unlinked s) ord" "distinct ord"
    "active s x \<Longrightarrow> active s y \<Longrightarrow> tr_cur s x = tr_cur s y \<Longrightarrow> x = y" "tidy s"
  using assms tree_okD(1) links_okD(1) unfolding tree_inv_def strands_apart_def by blast+

lemma tree_node:
  assumes "tree_ok s ord" "tr_frame s x = Some ff" "tr_pc s x \<noteq> F_unlinked"
  shows "node_ok (lks (tr_frame s)) ord x (links_of ff)"
  using links_okD(8) [OF tree_okD(1) [OF assms(1)] lks_Some [of "tr_frame s", OF assms(2)]] assms(3) by (simp add: unlinked_def)

lemma place_in:
  assumes "tree_ok s ord" "tr_frame s x = Some ff" "tr_pc s x \<noteq> F_unlinked" shows "SM x \<in> set ord"
  by (rule adj_memL [OF node_okD(1) [OF tree_node [OF assms]]])

lemma segments_disjoint:
  assumes "distinct (segments seg ord)" "distinct ord" "a \<in> set ord" "b \<in> set ord" "a \<noteq> b" "i \<in> set (seg a)" shows "i \<notin> set (seg b)"
  using assms
proof (induction ord)
  case (Cons pl ord)
  have "set (seg q) \<subseteq> set (segments seg ord)" if "q \<in> set ord" for q using that by (auto simp: segments_def)
  then show ?case using Cons by auto
qed simp

lemma seg_subset: "pl \<in> set ord \<Longrightarrow> set (seg pl) \<subseteq> set (segments seg ord)"
  by (auto simp: segments_def)

lemma updates_other: "i \<notin> set ids \<Longrightarrow> tr_upd s' = (tr_upd s)(i := xs) \<Longrightarrow> updates s' ids = updates s ids"
  unfolding updates_def by (intro arg_cong [of _ _ concat] map_cong) auto

lemma update_step:
  assumes inv: "tree_inv mrg s ord seg" and en: "enabled (Update x v) s" and assoc: "assoc_merge mrg"
  shows "tree_inv mrg (update_reducer mrg x v s) ord seg"
proof -
  let ?s = "update_reducer mrg x v s"
  obtain ff where x: "tr_frame s x = Some ff" "tr_pc s x = F_run" using en by auto
  note ok = tree_invD(1) [OF inv]
  note vals = tree_invD(2) [OF inv]
  have fields: "tr_frame ?s = tr_frame s" "tr_pc ?s = tr_pc s" "tr_map ?s = (tr_map s)(x := merge_maps mrg (tr_map s x) (Some v))"
    "tr_unsynched ?s = tr_unsynched s" "tr_strands ?s = tr_strands s" "tr_cur ?s = tr_cur s"
    "tr_upd ?s = (tr_upd s)(tr_cur s x := tr_upd s (tr_cur s x) @ [v])" by (simp_all add: update_reducer_def)
  have "tree_ok ?s ord"
    by (rule tree_ok_local [OF ok x(1), where q = "tr_pc s x" and b = "tr_unsynched s x" and v = "tr_map ?s x"]) (simp_all add: fields, simp_all add: x(2))
  moreover have "strands_apart ?s" using tree_invD(6) [OF inv] by (simp add: strands_apart_def active_def fields)
  moreover have "tidy ?s" using tree_invD(7) [OF inv] by (simp add: tidy_def fields)
  moreover have strand: "strand_ok ?s ord seg y" for y by (rule strand_ok_same [OF tree_invD(3) [OF inv, of y]]) (simp_all add: fields)
  moreover have "values_ok mrg ?s ord seg"
  proof -
    have p: "place_ok (tr_pc s x) (tr_unsynched s x) (tr_cur s x) (ff_is_call_child ff \<or> x = the_root) (upto_place ord seg (SM x)) (seg (SC x)) (seg (SM x)) (seg (SR x))"
      by (rule strand_okD [OF tree_invD(3) [OF inv] x(1)]) (simp add: x(2))
    then have "seg (SM x) \<noteq> []" "last (upto_place ord seg (SM x)) = tr_cur s x" by (simp_all add: place_ok_def x(2))
    then have last: "seg (SM x) \<noteq> []" "last (seg (SM x)) = tr_cur s x" by (simp_all add: upto_place_def)
    then obtain ids where ids: "seg (SM x) = ids @ [tr_cur s x]" by (metis append_butlast_last_id)
    have smx: "SM x \<in> set ord" by (rule place_in [OF ok x(1)]) (simp add: x(2))
    have d: "distinct (segments seg ord)" using values_okD(2,3) [OF vals] by simp
    have "val mrg ?s pl = product mrg (updates ?s (seg pl))" if pl: "pl \<in> set ord" for pl
    proof (cases "pl = SM x")
      case True
      have "tr_cur s x \<notin> set ids"
        using d smx seg_subset [OF smx, of seg] ids by (metis distinct_append distinct.simps(2) not_distinct_conv_prefix segments_simps(2,3) split_list)
      then have "updates ?s (seg pl) = updates s (seg pl) @ [v]"
        using updates_other [of "tr_cur s x" ids ?s s] by (simp add: True ids fields) (simp add: updates_def fields)
      then show ?thesis using values_okD(1) [OF vals pl] assoc by (simp add: True fields x(2) product_append)
    next
      case False
      have "tr_cur s x \<notin> set (seg pl)"
        by (rule segments_disjoint [OF d tree_invD(5) [OF inv] smx pl]) (use False ids in auto)
      then have "updates ?s (seg pl) = updates s (seg pl)" by (rule updates_other) (simp add: fields)
      moreover have "val mrg ?s pl = val mrg s pl" using False by (cases pl) (simp_all add: fields)
      ultimately show ?thesis using values_okD(1) [OF vals pl] by simp
    qed
    then show ?thesis using values_okD(2-4) [OF vals] by (simp add: values_ok_def fields)
  qed
  ultimately show ?thesis by (simp add: tree_inv_def)
qed

lemma insert_after_last: "distinct (xs @ ys) \<Longrightarrow> xs \<noteq> [] \<Longrightarrow> insert_after (last xs) n (xs @ ys) = xs @ n # ys"
  by (induction xs) (auto split: if_splits)

lemma new_strand_step:
  assumes inv: "tree_inv mrg s ord seg" and x: "tr_frame s x = Some ff" "active s x"
    and pc: "tr_pc s x \<noteq> F_synced" "tr_pc s x \<noteq> F_stalled" "\<not> tr_unsynched s x \<Longrightarrow> tr_pc s x = F_next \<Longrightarrow> seg (SC x) = []"
  shows "tree_inv mrg (new_strand x s) ord (seg(SM x := seg (SM x) @ [length (tr_strands s)]))"
proof -
  let ?n = "length (tr_strands s)"
  let ?s = "new_strand x s"
  let ?seg = "seg(SM x := seg (SM x) @ [?n])"
  note ok = tree_invD(1) [OF inv]
  note vals = tree_invD(2) [OF inv]
  have fields: "tr_frame ?s = tr_frame s" "tr_pc ?s = tr_pc s" "tr_map ?s = tr_map s" "tr_unsynched ?s = tr_unsynched s"
    "tr_strands ?s = insert_after (tr_cur s x) ?n (tr_strands s)" "tr_cur ?s = (tr_cur s)(x := ?n)" "tr_upd ?s = (tr_upd s)(?n := [])"
    by (simp_all add: new_strand_def Let_def)
  have xpc: "tr_pc s x \<noteq> F_unlinked" "tr_pc s x \<noteq> F_called" "\<not> returning (tr_pc s x)" using activeD [OF x(2)] by simp_all
  have smx: "SM x \<in> set ord" by (rule place_in [OF ok x(1) xpc(1)])
  then obtain us vs where ord: "ord = us @ SM x # vs" using split_list by metis
  have dord: "distinct ord" by (rule tree_invD(5) [OF inv])
  then have smx': "SM x \<notin> set us" "SM x \<notin> set vs" by (auto simp: ord)
  have p: "place_ok (tr_pc s x) (tr_unsynched s x) (tr_cur s x) (ff_is_call_child ff \<or> x = the_root) (upto_place ord seg (SM x)) (seg (SC x)) (seg (SM x)) (seg (SR x))"
    by (rule strand_okD [OF tree_invD(3) [OF inv] x(1) xpc(1)])
  let ?pre = "segments seg us @ seg (SM x)"
  have upto: "upto_place ord seg (SM x) = ?pre" unfolding ord by (rule upto_place_eq [OF smx'(1)])
  have pre: "?pre \<noteq> []" "last ?pre = tr_cur s x" using p xpc(2,3) unfolding place_ok_def upto by blast+
  have strands: "tr_strands s = ?pre @ segments seg vs" using values_okD(2) [OF vals] by (simp add: ord)
  have ds: "distinct (?pre @ segments seg vs)" using values_okD(3) [OF vals] strands by simp
  have segus: "segments ?seg us = segments seg us" "segments ?seg vs = segments seg vs" using smx' by (auto intro!: segments_cong)
  have ins: "insert_after (tr_cur s x) ?n (tr_strands s) = ?pre @ ?n # segments seg vs"
    using insert_after_last [OF ds pre(1), of ?n] unfolding pre(2) strands [symmetric] .
  have nnew: "?n \<notin> set (tr_strands s)" using values_okD(4) [OF vals] by simp
  have cur_in: "tr_cur s y \<in> set (tr_strands s)" if y: "active s y" for y
  proof -
    obtain g where g: "tr_frame s y = Some g" "tr_pc s y \<noteq> F_unlinked" "tr_pc s y \<noteq> F_called" "\<not> returning (tr_pc s y)"
      using activeD [OF y] by blast
    have "upto_place ord seg (SM y) \<noteq> []" "last (upto_place ord seg (SM y)) = tr_cur s y"
      using strand_okD [OF tree_invD(3) [OF inv] g(1,2)] g(3,4) by (simp_all add: place_ok_def)
    then have "tr_cur s y \<in> set (upto_place ord seg (SM y))" by (metis last_in_set)
    moreover have "SM y \<in> set ord" by (rule place_in [OF ok g(1,2)])
    then obtain us' vs' where o: "ord = us' @ SM y # vs'" using split_list by metis
    then have "SM y \<notin> set us'" using dord by auto
    then have "set (upto_place ord seg (SM y)) \<subseteq> set (segments seg ord)" unfolding o by (auto simp: upto_place_eq)
    ultimately show ?thesis using values_okD(2) [OF vals] by auto
  qed
  have tree: "tree_ok ?s ord"
    by (rule tree_ok_local [OF ok x(1), where q = "tr_pc s x" and b = "tr_unsynched s x" and v = "tr_map s x"])
      (use tree_okD(4) [OF ok x(1)] frame_okD(4-6) [OF tree_okD(5) [OF ok lks_Some [of "tr_frame s", OF x(1)]]] xpc pc in \<open>auto simp: fields\<close>)
  have apart: "strands_apart ?s"
    unfolding strands_apart_def
  proof (intro allI impI)
    fix y z assume *: "active ?s y" "active ?s z" "tr_cur ?s y = tr_cur ?s z"
    then have a: "active s y" "active s z" by (simp_all add: active_def fields)
    show "y = z" using *(3) tree_invD(6) [OF inv a] cur_in [OF a(1)] cur_in [OF a(2)] nnew by (auto simp: fields split: if_splits)
  qed
  have strand: "strand_ok ?s ord ?seg y" for y
  proof (cases "y = x")
    case True
    have "upto_place ord ?seg (SM x) = ?pre @ [?n]" unfolding ord upto_place_eq [OF smx'(1)] segus(1) by simp
    then show ?thesis unfolding True using p pc xpc by (intro strand_okI) (simp add: fields place_ok_def x(1))
  next
    case False
    show ?thesis
    proof (rule strand_okI)
      fix g assume g: "tr_frame ?s y = Some g" "tr_pc ?s y \<noteq> F_unlinked"
      then have g': "tr_frame s y = Some g" "tr_pc s y \<noteq> F_unlinked" by (simp_all add: fields)
      have py: "place_ok (tr_pc s y) (tr_unsynched s y) (tr_cur s y) (ff_is_call_child g \<or> y = the_root) (upto_place ord seg (SM y)) (seg (SC y)) (seg (SM y)) (seg (SR y))"
        by (rule strand_okD [OF tree_invD(3) [OF inv] g'])
      have upto_y: "upto_place ord ?seg (SM y) \<noteq> [] \<and> last (upto_place ord ?seg (SM y)) = tr_cur s y" if called: "tr_pc s y \<noteq> F_called" "\<not> returning (tr_pc s y)"
      proof -
        have old: "upto_place ord seg (SM y) \<noteq> []" "last (upto_place ord seg (SM y)) = tr_cur s y" using py called by (simp_all add: place_ok_def)
        have "SM y \<in> set ord" by (rule place_in [OF ok g'])
        then consider "SM y \<in> set us" | "SM y \<in> set vs" using False by (auto simp: ord)
        then show ?thesis
        proof cases
          case 1
          then obtain xs ys where us: "us = xs @ SM y # ys" using split_list by metis
          have n: "SM y \<notin> set xs" using dord unfolding ord us by auto
          have "segments ?seg xs = segments seg xs" using smx'(1) us by (auto intro!: segments_cong)
          then have "upto_place ord ?seg (SM y) = upto_place ord seg (SM y)"
            using upto_place_eq [OF n, of "ys @ SM x # vs"] False by (simp add: ord us)
          then show ?thesis using old by simp
        next
          case 2
          then obtain xs ys where vs: "vs = xs @ SM y # ys" using split_list by metis
          have n: "SM y \<notin> set (us @ SM x # xs)" using dord unfolding ord vs by auto
          have "segments ?seg xs = segments seg xs" using smx'(2) vs by (auto intro!: segments_cong)
          then have e: "upto_place ord ?seg (SM y) = (?pre @ [?n]) @ segments seg xs @ seg (SM y)"
            using upto_place_eq [OF n, of ys ?seg] False segus(1) by (simp add: ord vs)
          have e0: "upto_place ord seg (SM y) = ?pre @ segments seg xs @ seg (SM y)"
            using upto_place_eq [OF n, of ys seg] by (simp add: ord vs)
          have "active s y" using g' called by (simp add: active_def)
          then have "tr_cur s y \<noteq> tr_cur s x" using tree_invD(6) [OF inv _ x(2)] False by blast
          then have "segments seg xs @ seg (SM y) \<noteq> []" using old(2) pre(2) unfolding e0 by auto
          then show ?thesis using old(2) unfolding e e0 by (metis append_is_Nil_conv last_appendR)
        qed
      qed
      show "place_ok (tr_pc ?s y) (tr_unsynched ?s y) (tr_cur ?s y) (ff_is_call_child g \<or> y = the_root) (upto_place ord ?seg (SM y)) (?seg (SC y)) (?seg (SM y)) (?seg (SR y))"
        using py upto_y False by (simp add: fields place_ok_def)
    qed
  qed
  have valok: "values_ok mrg ?s ord ?seg" unfolding values_ok_def
  proof (intro conjI ballI)
    fix pl assume pl: "pl \<in> set ord"
    have old: "updates ?s (seg pl) = updates s (seg pl)"
      by (rule updates_other [of ?n]) (use seg_subset [OF pl, of seg] nnew values_okD(2) [OF vals] in \<open>auto simp: fields\<close>)
    have "val mrg ?s pl = val mrg s pl" by (cases pl) (simp_all add: fields)
    moreover have "updates ?s [?n] = []" by (simp add: updates_def fields)
    ultimately show "val mrg ?s pl = product mrg (updates ?s (?seg pl))" using values_okD(1) [OF vals pl] old by (cases "pl = SM x") simp_all
  next
    show "segments ?seg ord = tr_strands ?s" using segus by (simp add: fields ins ord)
    have "distinct (?pre @ ?n # segments seg vs)" using ds nnew arg_cong [OF strands, of set] by auto
    then show "distinct (tr_strands ?s)" by (simp only: fields ins)
    have "length (?pre @ segments seg vs) = ?n" by (simp only: strands)
    then have len: "length (tr_strands ?s) = Suc ?n" by (simp only: fields ins) simp
    have "set (tr_strands s) = set (?pre @ segments seg vs)" by (simp only: strands)
    then have "set (tr_strands ?s) = insert ?n (set (tr_strands s))" by (simp only: fields ins) auto
    also have "\<dots> = {..<length (tr_strands ?s)}" unfolding values_okD(4) [OF vals] len by (rule lessThan_Suc [symmetric])
    finally show "set (tr_strands ?s) = {..<length (tr_strands ?s)}" .
  qed
  have "tidy ?s" using tree_invD(7) [OF inv] by (simp add: tidy_def fields)
  then show ?thesis using tree strand valok apart by (simp add: tree_inv_def)
qed

text \<open>Steps that move segments inside a block of places.\<close>

lemma tree_inv_block:
  assumes inv: "tree_inv mrg s (us @ ps @ vs) seg" and tree: "tree_ok s' (us @ ps' @ vs)" and apart: "strands_apart s'" and tidy: "tidy s'"
    and same: "\<And>y. y \<notin> X \<Longrightarrow> map_option ff_is_call_child (tr_frame s' y) = map_option ff_is_call_child (tr_frame s y) \<and>
      tr_pc s' y = tr_pc s y \<and> tr_unsynched s' y = tr_unsynched s y \<and> tr_cur s' y = tr_cur s y"
      "tr_strands s' = tr_strands s" "tr_upd s' = tr_upd s"
    and seg: "\<And>pl. pl \<in> set us \<union> set vs \<Longrightarrow> seg' pl = seg pl" "segments seg' ps' = segments seg ps"
    and val: "\<And>pl. pl \<in> set us \<union> set vs \<Longrightarrow> val mrg s' pl = val mrg s pl"
      "\<And>pl. pl \<in> set ps' \<Longrightarrow> val mrg s' pl = product mrg (updates s (seg' pl))"
    and places: "\<And>y g. y \<notin> X \<Longrightarrow> tr_frame s y = Some g \<Longrightarrow> tr_pc s y \<noteq> F_unlinked \<Longrightarrow>
      SM y \<in> set us \<union> set vs \<and> (seg' (SC y) = seg (SC y) \<or> tr_unsynched s y) \<and>
      (seg' (SR y) = seg (SR y) \<or> \<not> (ff_is_call_child g \<or> y = the_root))"
    and X: "\<And>y. y \<in> X \<Longrightarrow> strand_ok s' (us @ ps' @ vs) seg' y"
  shows "tree_inv mrg s' (us @ ps' @ vs) seg'"
proof -
  have d: "distinct (us @ ps @ vs)" "distinct (us @ ps' @ vs)" by (rule tree_invD(5) [OF inv], rule links_okD(1) [OF tree_okD(1) [OF tree]])
  have "strand_ok s' (us @ ps' @ vs) seg' y" for y
  proof (cases "y \<in> X")
    case False
    note same' = same(1) [OF False]
    show ?thesis
    proof (rule strand_ok_same [OF tree_invD(3) [OF inv, of y]])
      fix g assume g: "tr_frame s y = Some g" "tr_pc s y \<noteq> F_unlinked"
      note p = places [OF False g]
      then have "upto_place (us @ ps' @ vs) seg' (SM y) = upto_place (us @ ps @ vs) seg (SM y)"
        using upto_place_block [OF _ d seg] by blast
      then show "upto_place (us @ ps' @ vs) seg' (SM y) = upto_place (us @ ps @ vs) seg (SM y) \<and> seg' (SM y) = seg (SM y) \<and>
          (seg' (SC y) = seg (SC y) \<or> tr_unsynched s y) \<and> (seg' (SR y) = seg (SR y) \<or> \<not> (ff_is_call_child g \<or> y = the_root))"
        using p seg(1) by blast
    qed (use same' in blast)+
  qed (rule X)
  moreover have "values_ok mrg s' (us @ ps' @ vs) seg'"
    by (rule values_ok_block [OF tree_invD(2) [OF inv] seg val same(2,3)])
  ultimately show ?thesis using tree apart tidy by (simp add: tree_inv_def)
qed

lemma strands_apart_mono:
  assumes "strands_apart s" "\<And>y. active s' y \<Longrightarrow> active s y" "\<And>y. active s' y \<Longrightarrow> tr_cur s' y = tr_cur s y" shows "strands_apart s'"
  using assms unfolding strands_apart_def by metis

text \<open>The control of one frame changes, and nothing else.\<close>

lemma tree_inv_goto:
  assumes inv: "tree_inv mrg s ord seg" and x: "tr_frame s x = Some ff" "tr_pc s x \<noteq> F_unlinked" "active s' x \<Longrightarrow> active s x"
    and tree: "tree_ok s' ord" and q: "q \<noteq> F_unlinked"
    and s': "\<And>y. map_option ff_is_call_child (tr_frame s' y) = map_option ff_is_call_child (tr_frame s y)"
      "\<And>y. Option.bind (tr_frame s' y) ff_children_reducer_map = Option.bind (tr_frame s y) ff_children_reducer_map"
      "\<And>y. Option.bind (tr_frame s' y) ff_right_reducer_map = Option.bind (tr_frame s y) ff_right_reducer_map"
      "tr_pc s' = (tr_pc s)(x := q)" "tr_unsynched s' = (tr_unsynched s)(x := b)" "tr_cur s' = tr_cur s" "tr_strands s' = tr_strands s" "tr_upd s' = tr_upd s"
      "\<And>y. y \<noteq> x \<Longrightarrow> tr_map s' y = tr_map s y"
    and val: "held mrg q (tr_map s' x) = held mrg (tr_pc s x) (tr_map s x)"
    and p: "\<And>pre call sc sm sr. place_ok (tr_pc s x) (tr_unsynched s x) (tr_cur s x) call pre sc sm sr \<Longrightarrow> sm = seg (SM x) \<Longrightarrow> sc = seg (SC x) \<Longrightarrow>
      place_ok q b (tr_cur s x) call pre sc sm sr"
  shows "tree_inv mrg s' ord seg"
proof -
  note xU = x(2)
  have smx: "SM x \<in> set ord" by (rule place_in [OF tree_invD(1) [OF inv] x(1) xU])
  then obtain us vs where ord: "ord = us @ [SM x] @ vs" using split_list by (metis append_Cons append_Nil)
  have other: "SM y \<in> set us \<union> set vs" if "y \<noteq> x" "tr_frame s y = Some g" "tr_pc s y \<noteq> F_unlinked" for y g
    using place_in [OF tree_invD(1) [OF inv] that(2,3)] that(1) by (auto simp: ord)
  have d: "SM x \<notin> set us \<union> set vs" using tree_invD(5) [OF inv] by (auto simp: ord)
  have dom: "tr_frame s' y = None \<longleftrightarrow> tr_frame s y = None" for y using s'(1) [of y] by (metis map_option_is_None)
  have v: "val mrg s' pl = val mrg s pl" for pl
  proof (cases pl)
    case (SM y)
    then show ?thesis using val s'(9) [of y] by (cases "y = x") (simp_all add: s'(4))
  qed (simp_all add: s'(2,3))
  have apart: "strands_apart s'"
  proof (rule strands_apart_mono [of s])
    show "active s y" if "active s' y" for y using that x(3) dom [of y] by (cases "y = x") (simp_all add: active_def s'(4))
  qed (use inv in \<open>simp_all add: tree_inv_def s'(6)\<close>)
  have strand: "strand_ok s' (us @ [SM x] @ vs) seg x"
  proof (rule strand_okI)
    fix ff' assume "tr_frame s' x = Some ff'"
    then have call: "ff_is_call_child ff' = ff_is_call_child ff" using s'(1) [of x] x(1) by simp
    from strand_okD [OF tree_invD(3) [OF inv] x(1) xU]
    show "place_ok (tr_pc s' x) (tr_unsynched s' x) (tr_cur s' x) (ff_is_call_child ff' \<or> x = the_root)
        (upto_place (us @ [SM x] @ vs) seg (SM x)) (seg (SC x)) (seg (SM x)) (seg (SR x))"
      unfolding s'(4,5,6) fun_upd_same call ord [symmetric] by (rule p [OF _ refl refl])
  qed
  have "val mrg s' (SM x) = product mrg (updates s (seg (SM x)))" unfolding v by (rule values_okD(1) [OF tree_invD(2) [OF inv] smx])
  moreover have "tidy s'"
    by (rule tidy_same [OF tree_invD(7) [OF inv]]) (use s'(2,3) q dom in \<open>simp add: s'(4) split: if_splits\<close>)
  ultimately show ?thesis unfolding ord
    by (intro tree_inv_block [OF inv [unfolded ord] tree [unfolded ord] apart, where X = "{x}"])
      (use s' v other strand in \<open>simp_all\<close>)
qed

lemma adj_block: "adj ord a b \<Longrightarrow> \<exists>us vs. ord = us @ [a, b] @ vs"
  unfolding adj_split by simp

lemma node_values:
  assumes inv: "tree_inv mrg s ord seg" and x: "tr_frame s x = Some ff" "tr_pc s x \<noteq> F_unlinked"
  shows "ff_children_reducer_map ff = product mrg (updates s (seg (SC x)))" "held mrg (tr_pc s x) (tr_map s x) = product mrg (updates s (seg (SM x)))"
    "ff_right_reducer_map ff = product mrg (updates s (seg (SR x)))"
proof -
  note vals = tree_invD(2) [OF inv]
  note n = tree_node [OF tree_invD(1) [OF inv] x]
  have c: "SC x \<in> set ord" using bef_set [OF node_okD(7) [OF n]] by simp
  from values_okD(1) [OF vals c] show "ff_children_reducer_map ff = product mrg (updates s (seg (SC x)))" using x(1) by simp
  from values_okD(1) [OF vals adj_memL [OF node_okD(1) [OF n]]]
  show "held mrg (tr_pc s x) (tr_map s x) = product mrg (updates s (seg (SM x)))" by simp
  from values_okD(1) [OF vals adj_memR [OF node_okD(1) [OF n]]]
  show "ff_right_reducer_map ff = product mrg (updates s (seg (SR x)))" using x(1) by simp
qed

lemma no_last:
  assumes ok: "tree_ok s ord" and x: "tr_frame s x = Some ff" "tr_pc s x \<noteq> F_unlinked" "tr_pc s x \<noteq> F_called" "\<not> tr_unsynched s x"
  shows "ff_rightmost_child ff = None"
  using last_in_kids [OF ok x(1,2)] no_kids [OF ok x(3,4)] by (cases "ff_rightmost_child ff") auto

lemma setup_step:
  assumes inv: "tree_inv mrg s ord seg" and en: "enabled (Setup x) s" and assoc: "assoc_merge mrg"
  shows "\<exists>s' seg'. setup_for_execution x s = Some s' \<and> tree_inv mrg s' ord seg'"
proof -
  obtain ff where x: "tr_frame s x = Some ff" "tr_pc s x = F_next" using en by auto
  have xU: "tr_pc s x \<noteq> F_unlinked" "tr_pc s x \<noteq> F_called" "active s x" using x by (simp_all add: active_def)
  have run: "tree_inv mrg (goto x F_run s1) ord seg1"
    if s1: "tree_inv mrg s1 ord seg1" "tr_frame s1 x = Some f1" "tr_pc s1 x = F_next" "seg1 (SM x) \<noteq> []" "\<not> tr_unsynched s1 x \<longrightarrow> seg1 (SC x) = []" for s1 seg1 f1
  proof (rule tree_inv_goto [OF s1(1,2), where q = F_run and b = "tr_unsynched s1 x"])
    show "active s1 x" using s1(2,3) by (simp add: active_def)
    show "tree_ok (goto x F_run s1) ord"
      by (rule tree_ok_local [OF tree_invD(1) [OF s1(1)] s1(2), where q = F_run and b = "tr_unsynched s1 x" and v = "tr_map s1 x"])
        (simp_all add: goto_def s1(3))
    show "place_ok F_run (tr_unsynched s1 x) (tr_cur s1 x) call pre sc sm sr"
      if "place_ok (tr_pc s1 x) (tr_unsynched s1 x) (tr_cur s1 x) call pre sc sm sr" "sm = seg1 (SM x)" "sc = seg1 (SC x)" for pre call sc sm sr
      using that s1(3-5) by (simp add: place_ok_def)
  qed (simp_all add: goto_def s1(3))
  note p = strand_okD [OF tree_invD(3) [OF inv] x(1) xU(1)]
  show ?thesis
  proof (cases "tr_unsynched s x")
    case True
    then have "seg (SM x) \<noteq> []" using p x(2) by (simp add: place_ok_def)
    from run [OF inv x this] True show ?thesis using x(1) by (auto simp: setup_for_execution_def)
  next
    case False
    note ok = tree_invD(1) [OF inv]
    have last: "ff_rightmost_child ff = None" by (rule no_last [OF ok x(1) xU(1,2) False])
    note vals = node_values [OF inv x(1) xU(1)]
    have one: "seg (SC x) = [] \<or> seg (SM x) = []" using p x(2) False by (simp add: place_ok_def)
    let ?m = "merge_maps mrg (ff_children_reducer_map ff) (tr_map s x)"
    let ?s = "s\<lparr>tr_map := (tr_map s)(x := ?m), tr_frame := (tr_frame s)(x \<mapsto> ff\<lparr>ff_children_reducer_map := None\<rparr>)\<rparr>"
    let ?seg = "seg(SC x := [], SM x := seg (SC x) @ seg (SM x))"
    have "adj ord (SC x) (SM x)" using node_okD(2) [OF tree_node [OF ok x(1) xU(1)]] last by simp
    then obtain us vs where ord: "ord = us @ [SC x, SM x] @ vs" using adj_block by metis
    have d: "distinct (us @ [SC x, SM x] @ vs)" using tree_invD(5) [OF inv] by (simp add: ord)
    have tree: "tree_ok ?s (us @ [SC x, SM x] @ vs)" unfolding ord [symmetric]
      by (rule tree_ok_local [OF ok x(1), where q = "tr_pc s x" and b = "tr_unsynched s x" and v = ?m])
        (use x in \<open>auto simp: lks_same split: if_splits\<close>)
    have "tree_inv mrg ?s (us @ [SC x, SM x] @ vs) ?seg"
    proof (rule tree_inv_block [OF inv [unfolded ord] tree, where X = "{x}"])
      show "strands_apart ?s"
        by (rule strands_apart_mono [of s]) (use inv x(1) in \<open>auto simp: tree_inv_def active_def split: if_splits\<close>)
      show "tidy ?s" by (rule tidy_same [OF tree_invD(7) [OF inv]]) (use x in \<open>auto split: if_splits\<close>)
      show "val mrg ?s pl = val mrg s pl" if "pl \<in> set us \<union> set vs" for pl
        using that d x(1) by (cases pl) auto
      show "val mrg ?s pl = product mrg (updates s (?seg pl))" if "pl \<in> set [SC x, SM x]" for pl
        using that vals x(2) assoc by (auto simp: product_append)
      show "SM y \<in> set us \<union> set vs \<and> (?seg (SC y) = seg (SC y) \<or> tr_unsynched s y) \<and> (?seg (SR y) = seg (SR y) \<or> \<not> (ff_is_call_child g \<or> y = the_root))"
        if "y \<notin> {x}" "tr_frame s y = Some g" "tr_pc s y \<noteq> F_unlinked" for y g
        using place_in [OF ok that(2,3)] that(1) by (simp add: ord)
      show "strand_ok ?s (us @ [SC x, SM x] @ vs) ?seg y" if "y \<in> {x}" for y
      proof -
        have n: "SM x \<notin> set (us @ [SC x])" "SM x \<notin> set us" using d by auto
        have "segments ?seg us = segments seg us" using d by (intro segments_cong) auto
        then have "upto_place (us @ [SC x, SM x] @ vs) ?seg (SM x) = upto_place ord seg (SM x)"
          using upto_place_eq [OF n(1), of vs] by (simp add: ord)
        then show ?thesis using that p x False by (intro strand_okI) (auto simp: place_ok_def)
      qed
    qed (use d x in \<open>auto\<close>)
    then have inv': "tree_inv mrg ?s ord ?seg" by (simp add: ord)
    have eq: "setup_for_execution x s = Some (goto x F_run (new_strand x ?s))"
    proof (cases "ff_children_reducer_map ff")
      case None
      then have "?s = s" using x(1) by (simp add: fun_upd_idem)
      then show ?thesis using x(1) False last None by (simp add: setup_for_execution_def)
    next
      case (Some c)
      then have "seg (SC x) \<noteq> []" using vals(1) by auto
      then have "tr_map s x = None" using one vals(2) x(2) by simp
      then show ?thesis using x(1) False last Some by (simp add: setup_for_execution_def)
    qed
    have "tree_inv mrg (new_strand x ?s) ord (?seg(SM x := ?seg (SM x) @ [length (tr_strands ?s)]))"
      by (rule new_strand_step [OF inv', of x "ff\<lparr>ff_children_reducer_map := None\<rparr>"]) (use x in \<open>simp_all add: active_def\<close>)
    from run [OF this] eq show ?thesis using x by (auto simp: new_strand_def Let_def)
  qed
qed

subsection \<open>Reading and writing the maps to the left\<close>

fun ptr_place :: "map_ptr \<Rightarrow> place" where
  "ptr_place (Children_of a) = SC a" | "ptr_place (Right_of a) = SR a"

fun put_map :: "map_ptr \<Rightarrow> 'm option \<Rightarrow> 'm frames \<Rightarrow> 'm frames" where
  "put_map (Children_of a) v h = h(a \<mapsto> (the (h a))\<lparr>ff_children_reducer_map := v\<rparr>)"
| "put_map (Right_of a) v h = h(a \<mapsto> (the (h a))\<lparr>ff_right_reducer_map := v\<rparr>)"

fun map_at :: "place \<Rightarrow> 'm frames \<Rightarrow> 'm option" where
  "map_at (SC a) h = Option.bind (h a) ff_children_reducer_map"
| "map_at (SR a) h = Option.bind (h a) ff_right_reducer_map"
| "map_at (SM a) h = None"

lemma put_map_facts:
  assumes "h (owner (ptr_place q)) = Some g"
  shows "write_map q v h = Some (put_map q v h)" "read_map q h = Some (map_at (ptr_place q) h)" "lks (put_map q v h) = lks h"
    "map_option ff_join_counter (put_map q v h y) = map_option ff_join_counter (h y)"
    "map_at pl (put_map q v h) = (if pl = ptr_place q then v else map_at pl h)"
  using assms by (cases q; cases pl; auto simp: lks_same)+

lemma map_at_val: "pl \<noteq> SM (owner pl) \<Longrightarrow> val mrg s pl = map_at pl (tr_frame s)"
  by (cases pl) simp_all

lemma full_frame_same [simp]:
  "ff_children_reducer_map ff = v \<Longrightarrow> ff\<lparr>ff_children_reducer_map := v\<rparr> = ff" "ff_right_reducer_map ff = v \<Longrightarrow> ff\<lparr>ff_right_reducer_map := v\<rparr> = ff"
  by auto

lemma fast_path_spec:
  assumes a: "h a = Some ff" and q: "compute_left_ptrs_for_spawn_return a h = Some q" "h (owner (ptr_place q)) = Some g" "owner (ptr_place q) \<noteq> a"
  shows "fast_path_reductions_for_spawn_return a w h = Some (Some q, w, h) \<or> fast_path_reductions_for_spawn_return a w h =
      Some (None, None, put_map q (merge_maps mrg (merge_maps mrg (map_at (ptr_place q) h) w) (ff_right_reducer_map ff)) (put_map (Right_of a) None h))"
proof (cases q)
  case (Children_of p)
  then have g: "h p = Some g" "p \<noteq> a" using q by simp_all
  have tw: "h(p := u, a := v) = h(a := v, p := u)" for u v using g(2) by (rule fun_upd_twist)
  have id: "h(a \<mapsto> ff) = h" "h(p \<mapsto> g) = h" "h(a := v, p \<mapsto> g) = h(a := v)" for v using a g by (simp_all add: fun_upd_idem)
  show ?thesis using assms \<open>q = Children_of p\<close> g
    by (cases "ff_children_reducer_map g"; cases w; cases "ff_right_reducer_map ff")
      (simp_all add: fast_path_reductions_for_spawn_return_def tw id)
next
  case (Right_of l)
  then have g: "h l = Some g" "l \<noteq> a" using q by simp_all
  have tw: "h(l := u, a := v) = h(a := v, l := u)" for u v using g(2) by (rule fun_upd_twist)
  have id: "h(a \<mapsto> ff) = h" "h(l \<mapsto> g) = h" "h(a := v, l \<mapsto> g) = h(a := v)" for v using a g by (simp_all add: fun_upd_idem)
  show ?thesis using assms \<open>q = Right_of l\<close> g
    by (cases "ff_right_reducer_map g"; cases w; cases "ff_right_reducer_map ff")
      (simp_all add: fast_path_reductions_for_spawn_return_def tw id)
qed

lemma slow_turn_spec:
  assumes a: "h a = Some ff" and q: "h (owner (ptr_place q)) = Some g" "owner (ptr_place q) \<noteq> a"
  shows "slow_path_turn a q w h =
      Some (None, put_map q (merge_maps mrg (merge_maps mrg (map_at (ptr_place q) h) w) (ff_right_reducer_map ff)) (put_map (Right_of a) None h)) \<or>
    (\<exists>l m r. slow_path_turn a q w h = Some (Some (l, m, r), put_map q None (put_map (Right_of a) None h)) \<and>
      merge_maps mrg (merge_maps mrg l m) r = merge_maps mrg (merge_maps mrg (map_at (ptr_place q) h) w) (ff_right_reducer_map ff))"
proof -
  define hs where "hs v X = put_map q v (h(a \<mapsto> X))" for v X
  have rd: "read_map q (hs v X) = Some v" and wr: "write_map q u (hs v X) = Some (hs u X)" and frame: "hs v X a = Some X"
    and upd: "(hs v X)(a \<mapsto> Y) = hs v Y" for v u X Y
    using q by (cases q; simp add: hs_def fun_upd_twist)+
  have h: "h = hs (map_at (ptr_place q) h) ff"
    using a q by (cases q) (simp_all add: hs_def fun_upd_idem)
  have right: "put_map q v (put_map (Right_of a) None h) = hs v (ff\<lparr>ff_right_reducer_map := None\<rparr>)" for v
    using a by (simp add: hs_def)
  have on: "on_frame a f (hs v X) = Some (hs v (f X))" for f v X by (simp add: frame upd)
  note turn = slow_path_turn_def rd wr frame on
  have "slow_path_turn a q w (hs L ff) = Some (None, hs (merge_maps mrg (merge_maps mrg L w) (ff_right_reducer_map ff)) (ff\<lparr>ff_right_reducer_map := None\<rparr>)) \<or>
    (\<exists>l m r. slow_path_turn a q w (hs L ff) = Some (Some (l, m, r), hs None (ff\<lparr>ff_right_reducer_map := None\<rparr>)) \<and>
      merge_maps mrg (merge_maps mrg l m) r = merge_maps mrg (merge_maps mrg L w) (ff_right_reducer_map ff))" for L
    by (cases L; cases w; cases "ff_right_reducer_map ff") (simp_all add: turn)
  from this [of "map_at (ptr_place q) h"] show ?thesis unfolding right h [symmetric] .
qed

lemma sync_turn_spec:
  assumes q: "compute_left_ptrs_for_sync a h = Some q" "h (owner (ptr_place q)) = Some g"
  shows "sync_turn a w h = Some (None, put_map q (merge_maps mrg (map_at (ptr_place q) h) w) h) \<or>
    (\<exists>l m. sync_turn a w h = Some (Some (l, m), put_map q None h) \<and> merge_maps mrg l m = merge_maps mrg (map_at (ptr_place q) h) w)"
proof -
  define hs where "hs v = put_map q v h" for v
  have rd: "read_map q (hs v) = Some v" and wr: "write_map q u (hs v) = Some (hs u)" for v u
    using q(2) by (cases q; simp add: hs_def)+
  have h: "h = hs (map_at (ptr_place q) h)"
    using q(2) by (cases q) (simp_all add: hs_def fun_upd_idem)
  note turn = sync_turn_def rd wr
  have "sync_turn a w (hs L) = Some (None, hs (merge_maps mrg L w)) \<or>
    (\<exists>l m. sync_turn a w (hs L) = Some (Some (l, m), hs None) \<and> merge_maps mrg l m = merge_maps mrg L w)"
    if "compute_left_ptrs_for_sync a (hs L) = Some q" for L
    using that by (cases L; cases w) (simp_all add: turn)
  from this [of "map_at (ptr_place q) h"] q(1) show ?thesis unfolding hs_def [symmetric] h [symmetric] by simp
qed

subsection \<open>Unlinking a child\<close>

lemma adj_bef: "adj xs a b \<Longrightarrow> bef xs a b"
  by (induction xs rule: induct_list012) (auto dest: adj_memR)

lemma bef_trans: "distinct xs \<Longrightarrow> bef xs a b \<Longrightarrow> bef xs b c \<Longrightarrow> bef xs a c"
  by (induction xs) (auto dest: bef_set)

lemma bef_irrefl: "distinct xs \<Longrightarrow> \<not> bef xs a a"
  by (induction xs) (auto dest: bef_set)

lemma left_neq_right:
  assumes ok: "links_ok L U ord" and c: "L c = Some ck" "c \<notin> U" "lk_parent ck = Some p" and l: "lk_left ck = Some l"
  shows "lk_right ck \<noteq> Some l"
proof
  assume r: "lk_right ck = Some l"
  note d = links_okD(1) [OF ok]
  note n = links_okD(8) [OF ok c(1,2)]
  obtain lk where lk: "L l = Some lk" "l \<notin> U" by (rule right_of_left [OF ok c l])
  have "bef ord (SR l) (SC c)" using adj_bef [OF node_okD(3) [OF n c(3)]] l by simp
  moreover have "bef ord (SC c) (SR c)" by (rule node_okD(7) [OF n])
  moreover have "bef ord (SR c) (SC l)" using adj_bef [OF node_okD(4) [OF n c(3)]] r by simp
  moreover have "bef ord (SC l) (SR l)" by (rule node_okD(7) [OF links_okD(8) [OF ok lk]])
  ultimately have "bef ord (SR l) (SR l)" using bef_trans [OF d] by meson
  then show False using bef_irrefl [OF d] by simp
qed

lemma without_child_data:
  assumes "h c = Some cf" "p \<noteq> c" "ff_right_sibling cf = None \<Longrightarrow> \<exists>pf. h p = Some pf \<and> ff_rightmost_child pf = Some c"
    "\<And>l. ff_left_sibling cf = Some l \<Longrightarrow> \<exists>lf. h l = Some lf \<and> l \<noteq> c \<and> l \<noteq> p"
    "\<And>r. ff_right_sibling cf = Some r \<Longrightarrow> \<exists>rf. h r = Some rf \<and> r \<noteq> c \<and> ff_left_sibling cf \<noteq> Some r"
  shows "map_option ff_join_counter (without_child p c h y) = map_option ff_join_counter (h y)"
    "map_option ff_is_call_child (without_child p c h y) = map_option ff_is_call_child (h y)"
    "map_option ff_children_reducer_map (without_child p c h y) = map_option ff_children_reducer_map (h y)"
    "map_option ff_right_reducer_map (without_child p c h y) = map_option ff_right_reducer_map (h y)"
proof -
  have "h y \<noteq> None" if "ff_left_sibling cf = Some y \<or> ff_right_sibling cf = Some y \<or> y = p \<and> ff_right_sibling cf = None"
    using that assms(3-5) by blast
  then show "map_option ff_join_counter (without_child p c h y) = map_option ff_join_counter (h y)"
    "map_option ff_is_call_child (without_child p c h y) = map_option ff_is_call_child (h y)"
    "map_option ff_children_reducer_map (without_child p c h y) = map_option ff_children_reducer_map (h y)"
    "map_option ff_right_reducer_map (without_child p c h y) = map_option ff_right_reducer_map (h y)"
    using assms(1) by (auto simp: without_child_def)
qed

lemma unlink_ok:
  assumes ok: "tree_ok s ord" and L: "lks h = lks (tr_frame s)" and c: "h c = Some cf" "tr_pc s c \<noteq> F_unlinked" "ff_parent cf = Some p"
  shows "unlink_child p c h = Some (without_child p c h)"
    "lks (without_child p c h) = remove_child p (links_of cf) c (lks h)"
    "map_option ff_join_counter (without_child p c h y) = map_option ff_join_counter (h y)"
    "map_option ff_is_call_child (without_child p c h y) = map_option ff_is_call_child (h y)"
    "map_option ff_children_reducer_map (without_child p c h y) = map_option ff_children_reducer_map (h y)"
    "map_option ff_right_reducer_map (without_child p c h y) = map_option ff_right_reducer_map (h y)"
proof -
  note links = tree_okD(1) [OF ok, folded L]
  obtain cf' where cf': "tr_frame s c = Some cf'" "links_of cf' = links_of cf"
    using fun_cong [OF L, of c] c(1) by (cases "tr_frame s c") (simp_all add: lks_def)
  have "ff_parent cf' = Some p" using arg_cong [OF cf'(2), of lk_parent] c(3) by simp
  note pU = parent_linked [OF ok cf'(1) this]
  have ck: "lks h c = Some (links_of cf)" "c \<notin> unlinked s" "lk_parent (links_of cf) = Some p"
    using c by (simp_all add: lks_def unlinked_def)
  note A = remove_child_facts [OF links ck pU]
  have last: "\<exists>pf. h p = Some pf \<and> ff_rightmost_child pf = Some c" if "ff_right_sibling cf = None"
  proof -
    have "lk_right (links_of cf) = None" using that by simp
    then obtain pk where "lks h p = Some pk" "lk_last pk = Some c" by (rule last_when_no_right [OF links ck])
    then show ?thesis using lks_SomeD by fastforce
  qed
  have left: "\<exists>lf. h l = Some lf \<and> l \<noteq> c \<and> l \<noteq> p" if "ff_left_sibling cf = Some l" for l
  proof -
    have "lk_left (links_of cf) = Some l" using that by simp
    then obtain lk where "lks h l = Some lk" "l \<noteq> c" "l \<noteq> p" by (rule right_of_left [OF links ck])
    then show ?thesis using lks_SomeD by fastforce
  qed
  have right: "\<exists>rf. h r = Some rf \<and> r \<noteq> c \<and> ff_left_sibling cf \<noteq> Some r" if "ff_right_sibling cf = Some r" for r
  proof -
    have r: "lk_right (links_of cf) = Some r" using that by simp
    then obtain rk where "lks h r = Some rk" "r \<noteq> c" by (rule left_of_right [OF links ck])
    moreover have "ff_left_sibling cf \<noteq> Some r" using left_neq_right [OF links ck, of r] r by auto
    ultimately show ?thesis using lks_SomeD by fastforce
  qed
  show "unlink_child p c h = Some (without_child p c h)"
    by (rule unlink_child_eq [OF c(1) A(1) last left right])
  show "lks (without_child p c h) = remove_child p (links_of cf) c (lks h)"
    by (rule lks_without_child [OF c(1) A(1) last left right])
  note data = without_child_data [OF c(1) A(1) last left right, of y]
  show "map_option ff_join_counter (without_child p c h y) = map_option ff_join_counter (h y)"
    "map_option ff_is_call_child (without_child p c h y) = map_option ff_is_call_child (h y)"
    "map_option ff_children_reducer_map (without_child p c h y) = map_option ff_children_reducer_map (h y)"
    "map_option ff_right_reducer_map (without_child p c h y) = map_option ff_right_reducer_map (h y)"
    using data by blast+
qed

end
