(* ===== verification/Spawn_Return.thy ===== *)
theory Spawn_Return
  imports Spawn_Values
begin

text \<open>The return of a spawned child: its reductions, the way out of the tree, and the last child of a stalled parent.\<close>

subsection \<open>The places of a child\<close>

lemma adj_next:
  assumes "distinct (us @ b # vs)" "adj (us @ b # vs) b c" shows "\<exists>vs'. vs = c # vs'"
proof -
  obtain us' vs' where "us @ b # vs = us' @ b # c # vs'" using assms(2) unfolding adj_split by blast
  then show ?thesis using distinct_split_unique [OF assms(1), of us' "c # vs'"] by blast
qed

lemma child_block:
  assumes ok: "tree_ok s ord" and c: "tr_frame s c = Some cf" "tr_pc s c \<noteq> F_unlinked" "ff_parent cf = Some p"
    and last: "ff_rightmost_child cf = None"
  shows "\<exists>us vs. ord = us @ place_end p (ff_left_sibling cf) # SC c # SM c # SR c # place_after p (ff_right_sibling cf) # vs"
proof -
  note n = tree_node [OF ok c(1,2)]
  note d = links_okD(1) [OF tree_okD(1) [OF ok]]
  let ?A = "place_end p (ff_left_sibling cf)"
  have a: "adj ord ?A (SC c)" "adj ord (SC c) (SM c)" "adj ord (SM c) (SR c)" "adj ord (SR c) (place_after p (ff_right_sibling cf))"
    using node_okD(1-4) [OF n] c(3) last by simp_all
  obtain us vs where 1: "ord = us @ ?A # SC c # vs" using a(1) unfolding adj_split by blast
  obtain vs1 where 2: "vs = SM c # vs1" using adj_next [of "us @ [?A]" "SC c" vs] a(2) d 1 by auto
  obtain vs2 where 3: "vs1 = SR c # vs2" using adj_next [of "us @ [?A, SC c]" "SM c" vs1] a(3) d 1 2 by auto
  obtain vs3 where 4: "vs2 = place_after p (ff_right_sibling cf) # vs3" using adj_next [of "us @ [?A, SC c, SM c]" "SR c" vs2] a(4) d 1 2 3 by auto
  show ?thesis using 1 2 3 4 by auto
qed

lemma lks_data:
  assumes "lks h = lks h'" shows "map_option ff_is_call_child (h y) = map_option ff_is_call_child (h' y)" "h y = None \<longleftrightarrow> h' y = None"
proof -
  have "map_option links_of (h y) = map_option links_of (h' y)" using fun_cong [OF assms, of y] by (simp add: lks_def)
  then have "map_option lk_call (map_option links_of (h y)) = map_option lk_call (map_option links_of (h' y))" by (simp only:)
  then show "map_option ff_is_call_child (h y) = map_option ff_is_call_child (h' y)" by (simp add: option.map_comp o_def)
  show "h y = None \<longleftrightarrow> h' y = None" using fun_cong [OF assms, of y] by (cases "h y"; cases "h' y") (simp_all add: lks_def)
qed

text \<open>The map to the left of a child.\<close>

lemma left_ptr_spawn:
  assumes ok: "tree_ok s ord" and c: "tr_frame s c = Some cf" "tr_pc s c \<noteq> F_unlinked" "ff_parent cf = Some p"
  obtains q g where "compute_left_ptrs_for_spawn_return c (tr_frame s) = Some q" "ptr_place q = place_end p (ff_left_sibling cf)"
    "tr_frame s (owner (ptr_place q)) = Some g" "owner (ptr_place q) \<noteq> c"
proof -
  have ck: "lks (tr_frame s) c = Some (links_of cf)" "c \<notin> unlinked s" "lk_parent (links_of cf) = Some p"
    using c by (simp_all add: lks_def unlinked_def)
  note links = tree_okD(1) [OF ok]
  show ?thesis
  proof (cases "ff_left_sibling cf")
    case None
    note A = remove_child_facts [OF links ck parent_linked [OF ok c(1,3)]]
    obtain pf where "tr_frame s p = Some pf" using A(2) lks_None by (metis not_None_eq)
    then show ?thesis using that [of "Children_of p"] None c A(1) by (simp add: compute_left_ptrs_for_spawn_return_def)
  next
    case (Some l)
    then have "lk_left (links_of cf) = Some l" by simp
    then obtain lk where "lks (tr_frame s) l = Some lk" "l \<noteq> c" by (rule right_of_left [OF links ck])
    then obtain lf where "tr_frame s l = Some lf" "l \<noteq> c" using lks_SomeD by blast
    then show ?thesis using that [of "Right_of l"] Some c by (simp add: compute_left_ptrs_for_spawn_return_def)
  qed
qed

text \<open>The place to the left may hold a segment whatever its frame does.\<close>

lemma left_place_free:
  assumes ok: "tree_ok s ord" and c: "tr_frame s c = Some cf" "tr_pc s c \<noteq> F_unlinked" "ff_parent cf = Some p" "\<not> ff_is_call_child cf"
  shows "place_end p (ff_left_sibling cf) = SC y \<Longrightarrow> tr_unsynched s y"
    "place_end p (ff_left_sibling cf) = SR y \<Longrightarrow> tr_frame s y = Some g \<Longrightarrow> \<not> (ff_is_call_child g \<or> y = the_root)"
proof -
  have ck: "lks (tr_frame s) c = Some (links_of cf)" "c \<notin> unlinked s" "lk_parent (links_of cf) = Some p"
    using c by (simp_all add: lks_def unlinked_def)
  note links = tree_okD(1) [OF ok]
  show "tr_unsynched s y" if y: "place_end p (ff_left_sibling cf) = SC y"
  proof (rule ccontr)
    assume "\<not> tr_unsynched s y"
    moreover have "y = p" using y by (cases "ff_left_sibling cf") simp_all
    ultimately show False using frame_okD(3) [OF tree_okD(5) [OF ok ck(1)] ck(3)] c(4) by simp
  qed
  show "\<not> (ff_is_call_child g \<or> y = the_root)" if y: "place_end p (ff_left_sibling cf) = SR y" "tr_frame s y = Some g"
  proof -
    have "lk_left (links_of cf) = Some y" using y(1) by (cases "ff_left_sibling cf") simp_all
    then obtain yk where yk: "lks (tr_frame s) y = Some yk" "y \<notin> unlinked s" "lk_right yk = Some c" "lk_parent yk = Some p"
      by (rule right_of_left [OF links ck])
    have k: "yk = links_of g" using yk(1) y(2) by (simp add: lks_def)
    have "y \<noteq> the_root" using links_okD(6) [OF links yk(1)] yk(4) by auto
    moreover have "\<not> ff_is_call_child g"
    proof
      assume "ff_is_call_child g"
      moreover have "tr_pc s y \<noteq> F_unlinked" "ff_parent g = Some p" using yk(2,4) k y(2) by (auto simp: unlinked_def)
      ultimately have "ff_right_sibling g = None" using call_child_facts(3) [OF ok y(2)] by blast
      then show False using yk(3) k by simp
    qed
    ultimately show ?thesis by simp
  qed
qed

subsection \<open>The reductions\<close>

text \<open>A write of the left map and the reset of the right map.\<close>

lemma put_maps_facts:
  assumes "h c = Some cf" "h (owner (ptr_place q)) = Some g" "owner (ptr_place q) \<noteq> c" and h'_def: "h' = put_map q v (put_map (Right_of c) None h)"
  shows "lks h' = lks h" "map_option ff_join_counter (h' y) = map_option ff_join_counter (h y)"
    "map_at pl h' = (if pl = ptr_place q then v else if pl = SR c then None else map_at pl h)"
    "\<exists>cf'. h' c = Some cf' \<and> links_of cf' = links_of cf"
proof -
  let ?r = "put_map (Right_of c) None h"
  have 1: "h (owner (ptr_place (Right_of c))) = Some cf" using assms(1) by simp
  have 2: "?r (owner (ptr_place q)) = Some g" using assms(2,3) by simp
  note r = put_map_facts(3-5) [where h = h and q = "Right_of c" and g = cf and v = None, OF 1]
  note l = put_map_facts(3-5) [where h = ?r and q = q and g = g and v = v, OF 2, folded h'_def]
  show L: "lks h' = lks h" using l(1) r(1) by simp
  show "map_option ff_join_counter (h' y) = map_option ff_join_counter (h y)" using l(2) r(2) by simp
  show "map_at pl h' = (if pl = ptr_place q then v else if pl = SR c then None else map_at pl h)" using l(3) r(3) by simp
  show "\<exists>cf'. h' c = Some cf' \<and> links_of cf' = links_of cf"
    using fun_cong [OF L, of c] assms(1) by (cases "h' c") (simp_all add: lks_def)
qed

text \<open>The situation of a spawned child that returns.\<close>

definition returns :: "'m spawn_tree \<Rightarrow> nat \<Rightarrow> 'm full_frame \<Rightarrow> nat \<Rightarrow> bool" where
  "returns s c cf p \<longleftrightarrow> tr_frame s c = Some cf \<and> (tr_pc s c = F_run \<or> tr_pc s c = F_relock) \<and> \<not> tr_unsynched s c \<and>
     ff_parent cf = Some p \<and> \<not> ff_is_call_child cf"

lemma returnsD:
  assumes "returns s c cf p"
  shows "tr_frame s c = Some cf" "tr_pc s c \<noteq> F_unlinked" "ff_parent cf = Some p" "\<not> ff_is_call_child cf" "\<not> tr_unsynched s c"
    "tr_pc s c \<noteq> F_called" "own (tr_pc s c) = 1" "held mrg (tr_pc s c) v = v" "tr_pc s c \<noteq> F_next"
  using assms unfolding returns_def by auto

lemma return_values:
  assumes inv: "tree_inv mrg s ord seg" and ret: "returns s c cf p" and assoc: "assoc_merge mrg"
    and ord: "ord = us @ A # SC c # SM c # SR c # vs" and A: "A = SC (owner A) \<or> A = SR (owner A)"
  shows "seg (SC c) = []"
    "merge_maps mrg (merge_maps mrg (map_at A (tr_frame s)) (tr_map s c)) (ff_right_reducer_map cf) =
      product mrg (updates s (seg A @ seg (SM c) @ seg (SR c)))"
proof -
  note r = returnsD [OF ret]
  show "seg (SC c) = []" using strand_okD [OF tree_invD(3) [OF inv] r(1,2)] r(5,9) by (simp add: place_ok_def)
  have "map_at A (tr_frame s) = val mrg s A" using A by (cases A) auto
  also have "\<dots> = product mrg (updates s (seg A))" by (rule values_okD(1) [OF tree_invD(2) [OF inv]]) (simp add: ord)
  finally show "merge_maps mrg (merge_maps mrg (map_at A (tr_frame s)) (tr_map s c)) (ff_right_reducer_map cf) =
      product mrg (updates s (seg A @ seg (SM c) @ seg (SR c)))"
    using node_values(2,3) [OF inv r(1,2)] r(8) assoc by (simp add: product_append merge_maps_assoc)
qed

text \<open>Three maps are taken, to be reduced without the lock.\<close>

lemma return_take:
  assumes inv: "tree_inv mrg s ord seg" and ret: "returns s c cf p" and assoc: "assoc_merge mrg"
    and q: "ptr_place q = place_end p (ff_left_sibling cf)" "tr_frame s (owner (ptr_place q)) = Some g" "owner (ptr_place q) \<noteq> c"
    and h: "h' = put_map q None (put_map (Right_of c) None (tr_frame s))"
    and m: "merge_maps mrg (merge_maps mrg l m) r =
      merge_maps mrg (merge_maps mrg (map_at (ptr_place q) (tr_frame s)) (tr_map s c)) (ff_right_reducer_map cf)"
  shows "\<exists>seg'. tree_inv mrg (goto c (F_merge l m r) (s\<lparr>tr_frame := h', tr_map := (tr_map s)(c := None)\<rparr>)) ord seg'"
proof -
  note R = returnsD [OF ret]
  note ok = tree_invD(1) [OF inv]
  let ?A = "place_end p (ff_left_sibling cf)"
  let ?s = "goto c (F_merge l m r) (s\<lparr>tr_frame := h', tr_map := (tr_map s)(c := None)\<rparr>)"
  obtain us vs where "ord = us @ ?A # SC c # SM c # SR c # vs" using child_block [OF ok R(1-3) no_last [OF ok R(1,2,6,5)]] by blast
  then have ord: "ord = us @ [?A, SC c, SM c, SR c] @ vs" by simp
  have d: "distinct (us @ [?A, SC c, SM c, SR c] @ vs)" using tree_invD(5) [OF inv] by (simp add: ord)
  note H = put_maps_facts [OF R(1) q(2,3) h]
  let ?S = "seg ?A @ seg (SM c) @ seg (SR c)"
  let ?seg = "seg(?A := [], SC c := [], SM c := ?S, SR c := [])"
  have A: "?A = SC (owner ?A) \<or> ?A = SR (owner ?A)" by (cases "ff_left_sibling cf") simp_all
  have Ac: "owner ?A \<noteq> c" "?A \<noteq> SM y" for y using q by (auto simp: place_ends)
  have A': "?A \<noteq> SC c" "?A \<noteq> SR c" using Ac(1) by (metis place.sel(1), metis place.sel(3))
  have ord': "ord = us @ ?A # SC c # SM c # SR c # vs" by (simp add: ord)
  note V = return_values [OF inv ret assoc ord' A]
  have fields: "tr_frame ?s = h'" "tr_pc ?s = (tr_pc s)(c := F_merge l m r)" "tr_map ?s = (tr_map s)(c := None)" "tr_unsynched ?s = tr_unsynched s"
    "tr_strands ?s = tr_strands s" "tr_cur ?s = tr_cur s" "tr_upd ?s = tr_upd s" by (simp_all add: goto_def)
  have tree: "tree_ok ?s (us @ [?A, SC c, SM c, SR c] @ vs)" unfolding ord [symmetric]
  proof (rule tree_ok_local [OF ok R(1), where q = "F_merge l m r" and b = "tr_unsynched s c" and v = None])
    show "ff_join_counter g' = ff_join_counter g + (if y = c then own (F_merge l m r) - own (tr_pc s c) else 0)"
      if "tr_frame s y = Some g" "tr_frame ?s y = Some g'" for y g g'
      using H(2) [of y] that R(7) by (simp add: fields)
    show "tr_unsynched ?s = (tr_unsynched s)(c := tr_unsynched s c)" by (simp add: fields)
  qed (use R H(1) in \<open>simp_all add: fields\<close>)
  have "tree_inv mrg ?s (us @ [?A, SC c, SM c, SR c] @ vs) ?seg"
  proof (rule tree_inv_block [OF inv [unfolded ord] tree, where X = "{c}"])
    show "strands_apart ?s"
      by (rule strands_apart_mono [of s]) (use inv lks_data(2) [OF H(1)] in \<open>auto simp: tree_inv_def active_def fields split: if_splits\<close>)
    show "tidy ?s"
    proof (rule tidy_same [OF tree_invD(7) [OF inv]])
      fix y assume y: "tr_frame ?s y \<noteq> None" "tr_pc ?s y = F_unlinked"
      then have y': "y \<noteq> c" "tr_pc s y = F_unlinked" "tr_frame s y \<noteq> None" using lks_data(2) [OF H(1)] by (auto simp: fields split: if_splits)
      then have "owner ?A \<noteq> y" using links_okD(5) [OF tree_invD(4) [OF inv], of ?A] by (auto simp: ord unlinked_def)
      then have "ptr_place q \<noteq> SC y" "ptr_place q \<noteq> SR y" unfolding q(1) by (metis place.sel(1), metis place.sel(3))
      then show "tr_frame s y \<noteq> None \<and> tr_pc s y = F_unlinked \<and>
          Option.bind (tr_frame ?s y) ff_children_reducer_map = Option.bind (tr_frame s y) ff_children_reducer_map \<and>
          Option.bind (tr_frame ?s y) ff_right_reducer_map = Option.bind (tr_frame s y) ff_right_reducer_map"
        using y' H(3) [of "SC y"] H(3) [of "SR y"] by (auto simp: fields)
    qed
    show "map_option ff_is_call_child (tr_frame ?s y) = map_option ff_is_call_child (tr_frame s y) \<and> tr_pc ?s y = tr_pc s y \<and>
        tr_unsynched ?s y = tr_unsynched s y \<and> tr_cur ?s y = tr_cur s y" if "y \<notin> {c}" for y
      using that lks_data(1) [OF H(1)] by (simp add: fields)
    show "val mrg ?s pl = val mrg s pl" if "pl \<in> set us \<union> set vs" for pl
    proof -
      have n: "pl \<noteq> ?A" "pl \<noteq> SR c" "pl \<noteq> SM c" using that d by auto
      then have "map_at pl h' = map_at pl (tr_frame s)" using H(3) [of pl] q(1) by simp
      then show ?thesis using n by (cases pl) (simp_all add: fields)
    qed
    show "val mrg ?s pl = product mrg (updates s (?seg pl))" if "pl \<in> set [?A, SC c, SM c, SR c]" for pl
    proof -
      have 1: "map_at ?A h' = None" "map_at (SR c) h' = None" "map_at (SC c) h' = map_at (SC c) (tr_frame s)"
        using H(3) q(1) A' by simp_all
      have 2: "map_at (SC c) (tr_frame s) = None" using node_values(1) [OF inv R(1,2)] V(1) R(1) by simp
      have 3: "val mrg ?s (SM c) = product mrg (updates s ?S)" using V(2) m q(1) by (simp add: fields)
      have "val mrg ?s ?A = None" using 1(1) map_at_val [of ?A mrg ?s] A Ac(2) by (metis fields(1))
      moreover have "val mrg ?s (SC c) = None" "val mrg ?s (SR c) = None" using 1 2 by (simp_all add: fields)
      ultimately show ?thesis using that 3 A' Ac(2) [of c] by auto
    qed
    show "SM y \<in> set us \<union> set vs \<and> (?seg (SC y) = seg (SC y) \<or> tr_unsynched s y) \<and> (?seg (SR y) = seg (SR y) \<or> \<not> (ff_is_call_child g \<or> y = the_root))"
      if y: "y \<notin> {c}" "tr_frame s y = Some g" "tr_pc s y \<noteq> F_unlinked" for y g
    proof -
      have "SM y \<in> set us \<union> set vs" using place_in [OF ok y(2,3)] y(1) not_sym [OF Ac(2) [of y]] by (simp add: ord)
      then show ?thesis using left_place_free [OF ok R(1-4), of y] y(1,2) by auto
    qed
    show "strand_ok ?s (us @ [?A, SC c, SM c, SR c] @ vs) ?seg y" if "y \<in> {c}" for y
      using that R by (intro strand_okI) (simp add: fields place_ok_def)
    show "?seg pl = seg pl" if "pl \<in> set us \<union> set vs" for pl using that d by auto
    show "segments ?seg [?A, SC c, SM c, SR c] = segments seg [?A, SC c, SM c, SR c]" using A' Ac(2) [of c] V(1) by simp
  qed (simp_all only: fields)
  then show ?thesis unfolding ord [symmetric] by blast
qed

text \<open>The map to the left takes everything and the child leaves the tree.\<close>

lemma return_finish:
  assumes inv: "tree_inv mrg s ord seg" and ret: "returns s c cf p" and assoc: "assoc_merge mrg"
    and q: "ptr_place q = place_end p (ff_left_sibling cf)" "tr_frame s (owner (ptr_place q)) = Some g" "owner (ptr_place q) \<noteq> c"
    and h: "h' = put_map q (merge_maps mrg (merge_maps mrg (map_at (ptr_place q) (tr_frame s)) (tr_map s c)) (ff_right_reducer_map cf))
      (put_map (Right_of c) None (tr_frame s))"
  shows "\<exists>cf'. h' c = Some cf' \<and> ff_parent cf' = Some p" "unlink_child p c h' = Some (without_child p c h')"
    "\<exists>ord' seg'. tree_inv mrg (goto c F_unlinked (s\<lparr>tr_frame := without_child p c h', tr_map := (tr_map s)(c := None)\<rparr>)) ord' seg'"
proof -
  note R = returnsD [OF ret]
  note ok = tree_invD(1) [OF inv]
  note H = put_maps_facts [OF R(1) q(2,3) h]
  obtain cf' where cf': "h' c = Some cf'" "links_of cf' = links_of cf" using H(4) by blast
  have par: "ff_parent cf' = Some p" using arg_cong [OF cf'(2), of lk_parent] R(3) by simp
  show "\<exists>cf'. h' c = Some cf' \<and> ff_parent cf' = Some p" using cf'(1) par by blast
  note W = unlink_ok [OF ok H(1) cf'(1) R(2) par]
  show "unlink_child p c h' = Some (without_child p c h')" by (rule W(1))
  let ?A = "place_end p (ff_left_sibling cf)"
  let ?B = "place_after p (ff_right_sibling cf)"
  let ?s = "goto c F_unlinked (s\<lparr>tr_frame := without_child p c h', tr_map := (tr_map s)(c := None)\<rparr>)"
  obtain us vs where ord': "ord = us @ ?A # SC c # SM c # SR c # ?B # vs"
    using child_block [OF ok R(1-3) no_last [OF ok R(1,2,6,5)]] by blast
  then have ord: "ord = us @ [?A, SC c, SM c, SR c] @ ?B # vs" by simp
  have d: "distinct (us @ [?A, SC c, SM c, SR c] @ ?B # vs)" using tree_invD(5) [OF inv] by (simp add: ord)
  let ?S = "seg ?A @ seg (SM c) @ seg (SR c)"
  let ?seg = "seg(?A := ?S)"
  have A: "?A = SC (owner ?A) \<or> ?A = SR (owner ?A)" by (cases "ff_left_sibling cf") simp_all
  have Ac: "owner ?A \<noteq> c" "?A \<noteq> SM y" for y using q by (auto simp: place_ends)
  note V = return_values [OF inv ret assoc ord' A]
  have fields: "tr_frame ?s = without_child p c h'" "tr_pc ?s = (tr_pc s)(c := F_unlinked)" "tr_map ?s = (tr_map s)(c := None)"
    "tr_unsynched ?s = tr_unsynched s" "tr_strands ?s = tr_strands s" "tr_cur ?s = tr_cur s" "tr_upd ?s = tr_upd s"
    by (simp_all add: goto_def)
  have J: "map_option ff_join_counter (without_child p c h' y) = map_option ff_join_counter (tr_frame s y)" for y
    using W(3) [of y] H(2) [of y] by simp
  have C: "map_option ff_is_call_child (without_child p c h' y) = map_option ff_is_call_child (tr_frame s y)" for y
    using W(4) [of y] lks_data(1) [OF H(1)] by simp
  have M: "map_at pl (without_child p c h') = (if pl = ?A then product mrg (updates s ?S) else if pl = SR c then None else map_at pl (tr_frame s))" for pl
  proof -
    have "map_at pl (without_child p c h') = map_at pl h'"
      using W(5) [of "owner pl"] W(6) [of "owner pl"] by (cases pl; cases "h' (owner pl)"; cases "without_child p c h' (owner pl)") simp_all
    then show ?thesis using H(3) [of pl] V(2) q(1) by simp
  qed
  have dom: "without_child p c h' y = None \<longleftrightarrow> tr_frame s y = None" for y using J [of y] by (metis map_option_is_None)
  have tree: "tree_ok ?s (us @ [?A] @ ?B # vs)" unfolding append_Cons append_Nil
  proof (rule tree_ok_unlink [OF ok [unfolded ord'] R(1,3,4,2,6,7,5)])
    show "lks (tr_frame ?s) = remove_child p (links_of cf) c (lks (tr_frame s))" using W(2) H(1) cf'(2) by (simp add: fields)
    show "ff_join_counter g' = ff_join_counter g" if "tr_frame s y = Some g" "tr_frame ?s y = Some g'" for y g g'
      using J [of y] that by (simp add: fields)
  qed (simp_all add: fields)
  have "tree_inv mrg ?s (us @ [?A] @ ?B # vs) ?seg"
  proof (rule tree_inv_block [OF inv [unfolded ord] tree, where X = "{c}"])
    show "strands_apart ?s"
      by (rule strands_apart_mono [of s]) (use inv in \<open>simp_all add: tree_inv_def active_def fields dom split: if_splits\<close>)
    show "tidy ?s"
    proof (rule tidyI)
      fix y ff assume y: "tr_frame ?s y = Some ff" "tr_pc ?s y = F_unlinked"
      show "ff_children_reducer_map ff = None \<and> ff_right_reducer_map ff = None"
      proof (cases "y = c")
        case True
        have "map_at (SC c) (tr_frame s) = None" using node_values(1) [OF inv R(1,2)] V(1) R(1) by simp
        moreover have "?A \<noteq> SC c" "?A \<noteq> SR c" using Ac(1) by (metis place.sel(1), metis place.sel(3))
        ultimately show ?thesis using M [of "SC c"] M [of "SR c"] y(1) True by (simp add: fields split: if_splits)
      next
        case False
        then obtain g where g: "tr_frame s y = Some g" "tr_pc s y = F_unlinked" using y dom [of y] by (cases "tr_frame s y") (auto simp: fields)
        then have "owner ?A \<noteq> y" using links_okD(5) [OF tree_invD(4) [OF inv], of ?A] by (auto simp: ord unlinked_def)
        then have "?A \<noteq> SC y" "?A \<noteq> SR y" by (metis place.sel(1), metis place.sel(3))
        then show ?thesis using tidyD [OF tree_invD(7) [OF inv] g] g(1) M [of "SC y"] M [of "SR y"] y(1) False by (simp add: fields)
      qed
    qed
    show "map_option ff_is_call_child (tr_frame ?s y) = map_option ff_is_call_child (tr_frame s y) \<and> tr_pc ?s y = tr_pc s y \<and>
        tr_unsynched ?s y = tr_unsynched s y \<and> tr_cur ?s y = tr_cur s y" if "y \<notin> {c}" for y
      using that C by (simp add: fields)
    show "val mrg ?s pl = val mrg s pl" if "pl \<in> set us \<union> set (?B # vs)" for pl
    proof -
      have n: "pl \<noteq> ?A" "pl \<noteq> SR c" "pl \<noteq> SM c" using that d by auto
      then show ?thesis using M [of pl] by (cases pl) (simp_all add: fields)
    qed
    show "val mrg ?s pl = product mrg (updates s (?seg pl))" if "pl \<in> set [?A]" for pl
      using that M [of ?A] map_at_val [of ?A mrg ?s] A Ac(2) by (metis empty_iff empty_set fields(1) fun_upd_same set_ConsD)
    show "SM y \<in> set us \<union> set (?B # vs) \<and> (?seg (SC y) = seg (SC y) \<or> tr_unsynched s y) \<and> (?seg (SR y) = seg (SR y) \<or> \<not> (ff_is_call_child g \<or> y = the_root))"
      if y: "y \<notin> {c}" "tr_frame s y = Some g" "tr_pc s y \<noteq> F_unlinked" for y g
    proof -
      have "SM y \<in> set us \<union> set (?B # vs)" using place_in [OF ok y(2,3)] y(1) not_sym [OF Ac(2) [of y]] by (simp add: ord)
      then show ?thesis using left_place_free [OF ok R(1-4), of y] y(1,2) by auto
    qed
    show "strand_ok ?s (us @ [?A] @ ?B # vs) ?seg y" if "y \<in> {c}" for y
      using that by (intro strand_okI) (simp add: fields)
    show "?seg pl = seg pl" if "pl \<in> set us \<union> set (?B # vs)" for pl using that d by auto
    show "segments ?seg [?A] = segments seg [?A, SC c, SM c, SR c]" using V(1) by simp
  qed (simp_all only: fields)
  then show "\<exists>ord' seg'. tree_inv mrg ?s ord' seg'" by blast
qed

subsection \<open>The steps\<close>

lemma spawn_return_turn_step:
  assumes inv: "tree_inv mrg s ord seg" and ret: "returns s c cf p" and assoc: "assoc_merge mrg"
    and q: "ptr_place q = place_end p (ff_left_sibling cf)" "tr_frame s (owner (ptr_place q)) = Some g" "owner (ptr_place q) \<noteq> c"
  shows "\<exists>s' ord' seg'. spawn_return_turn c q s = Some s' \<and> tree_inv mrg s' ord' seg'"
proof -
  note R = returnsD [OF ret]
  let ?v = "merge_maps mrg (merge_maps mrg (map_at (ptr_place q) (tr_frame s)) (tr_map s c)) (ff_right_reducer_map cf)"
  have "slow_path_turn c q (tr_map s c) (tr_frame s) = Some (None, put_map q ?v (put_map (Right_of c) None (tr_frame s))) \<or>
    (\<exists>l m r. slow_path_turn c q (tr_map s c) (tr_frame s) = Some (Some (l, m, r), put_map q None (put_map (Right_of c) None (tr_frame s))) \<and>
      merge_maps mrg (merge_maps mrg l m) r = ?v)"
    by (rule slow_turn_spec [OF R(1) q(2,3)])
  then show ?thesis
  proof (elim disjE exE conjE)
    assume t: "slow_path_turn c q (tr_map s c) (tr_frame s) = Some (None, put_map q ?v (put_map (Right_of c) None (tr_frame s)))"
    define h' where "h' = put_map q ?v (put_map (Right_of c) None (tr_frame s))"
    note F = return_finish [OF inv ret assoc q h'_def]
    have "spawn_return_turn c q s = Some (goto c F_unlinked (s\<lparr>tr_frame := without_child p c h', tr_map := (tr_map s)(c := None)\<rparr>))"
      using F(1,2) t [folded h'_def] by (auto simp: spawn_return_turn_def frames_do_def goto_def)
    then show ?thesis using F(3) by auto
  next
    fix l m r
    assume t: "slow_path_turn c q (tr_map s c) (tr_frame s) = Some (Some (l, m, r), put_map q None (put_map (Right_of c) None (tr_frame s)))"
      and m: "merge_maps mrg (merge_maps mrg l m) r = ?v"
    define h' where "h' = put_map q None (put_map (Right_of c) None (tr_frame s))"
    have "spawn_return_turn c q s = Some (goto c (F_merge l m r) (s\<lparr>tr_frame := h', tr_map := (tr_map s)(c := None)\<rparr>))"
      using t [folded h'_def] by (simp add: spawn_return_turn_def)
    then show ?thesis using return_take [OF inv ret assoc q h'_def m] by auto
  qed
qed

lemma spawn_return_step:
  assumes inv: "tree_inv mrg s ord seg" and en: "enabled (Spawn_return c) s" and assoc: "assoc_merge mrg"
  shows "\<exists>s' ord' seg'. spawn_return_start c s = Some s' \<and> tree_inv mrg s' ord' seg'"
proof -
  obtain cf p where ret: "returns s c cf p" using en by (auto simp: returns_def split: option.splits)
  note R = returnsD [OF ret]
  note ok = tree_invD(1) [OF inv]
  obtain q g where q0: "compute_left_ptrs_for_spawn_return c (tr_frame s) = Some q"
    and q: "ptr_place q = place_end p (ff_left_sibling cf)" "tr_frame s (owner (ptr_place q)) = Some g" "owner (ptr_place q) \<noteq> c"
    by (rule left_ptr_spawn [OF ok R(1-3)])
  let ?v = "merge_maps mrg (merge_maps mrg (map_at (ptr_place q) (tr_frame s)) (tr_map s c)) (ff_right_reducer_map cf)"
  define h' where "h' = put_map q ?v (put_map (Right_of c) None (tr_frame s))"
  from fast_path_spec [where h = "tr_frame s" and w = "tr_map s c" and mrg = mrg, OF R(1) q0 q(2,3), folded h'_def]
  show ?thesis
  proof
    assume "fast_path_reductions_for_spawn_return c (tr_map s c) (tr_frame s) = Some (Some q, tr_map s c, tr_frame s)"
    then have "spawn_return_start c s = spawn_return_turn c q s" by (simp add: spawn_return_start_def)
    then show ?thesis using spawn_return_turn_step [OF inv ret assoc q] by simp
  next
    assume t: "fast_path_reductions_for_spawn_return c (tr_map s c) (tr_frame s) = Some (None, None, h')"
    note F = return_finish [OF inv ret assoc q h'_def]
    have "spawn_return_start c s = Some (goto c F_unlinked (s\<lparr>tr_frame := without_child p c h', tr_map := (tr_map s)(c := None)\<rparr>))"
      using F(1,2) t by (auto simp: spawn_return_start_def frames_do_def goto_def)
    then show ?thesis using F(3) by auto
  qed
qed

lemma returning_frame:
  assumes "tree_inv mrg s ord seg" "tr_frame s c = Some cf" "returning (tr_pc s c)"
  obtains p where "ff_parent cf = Some p" "\<not> ff_is_call_child cf" "\<not> tr_unsynched s c"
  using frame_okD(4) [OF tree_okD(5) [OF tree_invD(1) [OF assms(1)] lks_Some [of "tr_frame s", OF assms(2)]] assms(3)] that by auto

lemma return_again_step:
  assumes inv: "tree_inv mrg s ord seg" and en: "enabled (Return_again c) s" and assoc: "assoc_merge mrg"
  shows "\<exists>s' ord' seg'. spawn_return_again c s = Some s' \<and> tree_inv mrg s' ord' seg'"
proof -
  obtain cf where c: "tr_frame s c = Some cf" "tr_pc s c = F_relock" using en by auto
  then obtain p where "ff_parent cf = Some p" "\<not> ff_is_call_child cf" "\<not> tr_unsynched s c" using returning_frame [OF inv c(1)] by auto
  then have ret: "returns s c cf p" using c by (simp add: returns_def)
  obtain q g where "compute_left_ptrs_for_spawn_return c (tr_frame s) = Some q"
    and q: "ptr_place q = place_end p (ff_left_sibling cf)" "tr_frame s (owner (ptr_place q)) = Some g" "owner (ptr_place q) \<noteq> c"
    by (rule left_ptr_spawn [OF tree_invD(1) [OF inv] returnsD(1-3) [OF ret]])
  then show ?thesis using spawn_return_turn_step [OF inv ret assoc q] by (simp add: spawn_return_again_def)
qed

lemma return_merge_step:
  assumes inv: "tree_inv mrg s ord seg" and c: "tr_frame s c = Some cf" "tr_pc s c = F_merge l m r"
  shows "\<exists>s'. spawn_return_merge mrg c l m r s = Some s' \<and> tree_inv mrg s' ord seg"
proof -
  note ok = tree_invD(1) [OF inv]
  note f = tree_okD(5) [OF ok lks_Some [of "tr_frame s", OF c(1)]]
  have mp: "tr_map s c = None" "\<not> tr_unsynched s c" "ff_parent cf \<noteq> None" "\<not> ff_is_call_child cf"
    using frame_okD(4,6) [OF f] c(2) by simp_all
  let ?v = "merge_maps mrg (merge_maps mrg l m) r"
  let ?s = "goto c F_relock (s\<lparr>tr_map := (tr_map s)(c := ?v)\<rparr>)"
  have "tree_inv mrg ?s ord seg"
  proof (rule tree_inv_goto [OF inv c(1), where q = F_relock and b = "tr_unsynched s c"])
    show "tree_ok ?s ord"
      by (rule tree_ok_local [OF ok c(1), where q = F_relock and b = "tr_unsynched s c" and v = ?v])
        (use mp in \<open>simp_all add: goto_def c(2) fun_upd_idem\<close>)
    show "active ?s c \<Longrightarrow> active s c" by (simp add: active_def goto_def)
    show "place_ok F_relock (tr_unsynched s c) (tr_cur s c) call pre sc sm sr"
      if "place_ok (tr_pc s c) (tr_unsynched s c) (tr_cur s c) call pre sc sm sr" for call pre sc sm sr
      using that by (simp add: place_ok_def c(2))
  qed (use c(2) in \<open>simp_all add: goto_def\<close>)
  then show ?thesis using mp(1) by (simp add: spawn_return_merge_def)
qed

end
