(* ===== verification/Spawn_Join.thy ===== *)
theory Spawn_Join
  imports Spawn_Return
begin

text \<open>The end of a return from a spawn, the return of a called child, and the sync.\<close>

subsection \<open>The last child of a stalled parent\<close>

lemma return_done_step:
  assumes inv: "tree_inv mrg s ord seg" and en: "enabled (Return_done c) s" and loot: "\<And>x. tr_pc s x \<noteq> F_loot"
  shows "\<exists>s'. do_return_from_spawn c s = Some s' \<and> tree_inv mrg s' ord seg"
proof -
  obtain cf where c: "tr_frame s c = Some cf" "tr_pc s c = F_unlinked" using en by auto
  note ok = tree_invD(1) [OF inv]
  note links = tree_okD(1) [OF ok]
  note L = lks_Some [of "tr_frame s", OF c(1)]
  obtain p where p: "ff_parent cf = Some p" "\<not> ff_is_call_child cf" "\<not> tr_unsynched s c" by (rule returning_frame [OF inv c(1)]) (simp_all add: c(2))
  have "lks (tr_frame s) p \<noteq> None" by (rule links_okD(7) [OF links L]) (simp add: p(1))
  then obtain pf where pf: "tr_frame s p = Some pf" unfolding lks_None by blast
  have pU: "tr_pc s p \<noteq> F_unlinked" using parent_linked [OF ok c(1) p(1)] pf by (simp add: unlinked_def)
  then have pc: "p \<noteq> c" using c(2) by auto
  have kid: "c \<in> kids (lks (tr_frame s)) p" using L p(1) by (simp add: kids_def)
  then have card: "card (kids (lks (tr_frame s)) p) > 0" using kids_finite [OF tree_okD(2) [OF ok]] by (auto simp: card_gt_0_iff)
  have jp: "ff_join_counter pf > 0" using tree_okD(3) [OF ok pf] card own_range [of "tr_pc s p"] by auto
  have jc: "ff_join_counter cf > 0" using tree_okD(3) [OF ok c(1)] c(2) by simp
  have mapc: "tr_map s c = None" using frame_okD(6) [OF tree_okD(5) [OF ok L]] c(2) by simp
  have tidy: "ff_children_reducer_map cf = None" "ff_right_reducer_map cf = None" using tidyD [OF tree_invD(7) [OF inv] c] by simp_all
  have stalled: "tr_pc s p = F_stalled" if one: "ff_join_counter pf = 1"
  proof -
    have "own (tr_pc s p) = 0" "card (kids (lks (tr_frame s)) p) = 1" using tree_okD(3) [OF ok pf] card own_range [of "tr_pc s p"] one by auto
    then have k: "kids (lks (tr_frame s)) p = {c}" using kid by (metis card_1_singletonE singletonD)
    have "tr_pc s p \<noteq> F_called"
    proof
      assume called: "tr_pc s p = F_called"
      then obtain d dk where d: "lk_last (links_of pf) = Some d" "lks (tr_frame s) d = Some dk" "lk_call dk"
        using frame_okD(2) [OF tree_okD(5) [OF ok lks_Some [of "tr_frame s", OF pf]]] by blast
      then have "d = c" using last_in_kids [OF ok pf pU] k by simp
      then show False using d(2,3) L p(2) by auto
    qed
    then show ?thesis using \<open>own (tr_pc s p) = 0\<close> loot [of p] by (cases "tr_pc s p") simp_all
  qed
  define t where "t q b v = s\<lparr>tr_frame := (tr_frame s)(p \<mapsto> pf\<lparr>ff_join_counter := v\<rparr>, c := None), tr_pc := (tr_pc s)(p := q),
    tr_unsynched := (tr_unsynched s)(p := b)\<rparr>" for q b v
  have inv': "tree_inv mrg (t q b v) ord seg"
    if q: "q = tr_pc s p \<and> b = tr_unsynched s p \<and> ff_join_counter pf \<noteq> 1 \<and> v = ff_join_counter pf - 1 \<or>
      q = F_next \<and> tr_pc s p = F_stalled \<and> \<not> b \<and> ff_join_counter pf = 1 \<and> v = 1" for q b v
  proof -
    have fields: "tr_frame (t q b v) = (tr_frame s)(p \<mapsto> pf\<lparr>ff_join_counter := v\<rparr>, c := None)" "tr_pc (t q b v) = (tr_pc s)(p := q)"
      "tr_map (t q b v) = tr_map s" "tr_unsynched (t q b v) = (tr_unsynched s)(p := b)"
      "tr_strands (t q b v) = tr_strands s" "tr_cur (t q b v) = tr_cur s" "tr_upd (t q b v) = tr_upd s" by (simp_all add: t_def)
    have qU: "q \<noteq> F_unlinked" using q pU by auto
    have tree: "tree_ok (t q b v) ord"
    proof (rule tree_ok_destroy [OF ok c p(1) pf])
      show "lks (tr_frame (t q b v)) = (lks (tr_frame s))(c := None)" unfolding fields using pf pc by (auto simp: lks_def)
      show "ff_join_counter g' = ff_join_counter g + (if y = p then own q - own (tr_pc s p) - 1 else 0)"
        if "tr_frame s y = Some g" "tr_frame (t q b v) y = Some g'" for y g g'
        using that pf q pc by (auto simp: fields split: if_splits)
      show "q = tr_pc s p \<and> b = tr_unsynched s p \<and> ff_join_counter pf \<noteq> 1 \<or> q = F_next \<and> tr_pc s p = F_stalled \<and> \<not> b \<and> ff_join_counter pf = 1"
        using q by blast
    qed (simp_all add: fields)
    have out: "owner pl \<noteq> c" if "pl \<in> set ord" for pl using links_okD(5) [OF links that] c by (auto simp: unlinked_def)
    have act: "active s y" if "active (t q b v) y" for y
      using that q pf by (cases "y = p") (auto simp: active_def fields split: if_splits)
    have same: "val mrg (t q b v) pl = val mrg s pl" if pl: "pl \<in> set ord" for pl
    proof -
      have "held mrg q u = held mrg (tr_pc s p) u" for u using q by auto
      then show ?thesis using out [OF pl] pf by (cases pl) (auto simp: fields)
    qed
    have "tree_inv mrg (t q b v) (ord @ [] @ []) seg"
    proof (rule tree_inv_block [where s = s and ps = "[]" and seg = seg and X = "{c, p}"])
      show "tree_inv mrg s (ord @ [] @ []) seg" "tree_ok (t q b v) (ord @ [] @ [])" using inv tree by simp_all
      show "strands_apart (t q b v)" by (rule strands_apart_mono [of s]) (use inv act in \<open>simp_all add: tree_inv_def fields\<close>)
      show "tidy (t q b v)" by (rule tidy_same [OF tree_invD(7) [OF inv]]) (use qU in \<open>auto simp: fields split: if_splits\<close>)
      show "SM y \<in> set ord \<union> set [] \<and> (seg (SC y) = seg (SC y) \<or> tr_unsynched s y) \<and> (seg (SR y) = seg (SR y) \<or> \<not> (ff_is_call_child g \<or> y = the_root))"
        if "tr_frame s y = Some g" "tr_pc s y \<noteq> F_unlinked" for y g using place_in [OF ok that] by simp
      show "strand_ok (t q b v) (ord @ [] @ []) seg y" if y: "y \<in> {c, p}" for y
      proof (cases "y = p")
        case True
        have "place_ok (tr_pc s p) (tr_unsynched s p) (tr_cur s p) (ff_is_call_child pf \<or> p = the_root) (upto_place ord seg (SM p))
            (seg (SC p)) (seg (SM p)) (seg (SR p))" by (rule strand_okD [OF tree_invD(3) [OF inv] pf pU])
        then have "place_ok q b (tr_cur s p) (ff_is_call_child pf \<or> p = the_root) (upto_place ord seg (SM p)) (seg (SC p)) (seg (SM p)) (seg (SR p))"
          using q by (elim disjE) (simp_all add: place_ok_def)
        then show ?thesis using True pc by (intro strand_okI) (auto simp: fields)
      next
        case False
        then show ?thesis using y by (intro strand_okI) (simp add: fields)
      qed
    qed (use same in \<open>simp_all add: fields\<close>)
    then show ?thesis by simp
  qed
  show ?thesis
  proof (cases "ff_join_counter pf = 1")
    case True
    have "do_return_from_spawn c s = Some (t F_next False 1)"
      using c p pf pc jp jc mapc tidy True
      by (simp add: do_return_from_spawn_def decjoin_def provably_good_steal_def finish_provably_good_steal_def push_next_frame_def incjoin_def
          destroy_full_frame_def frames_do_def goto_def t_def fun_upd_twist)
    then show ?thesis using inv' [of F_next False 1] stalled [OF True] True by auto
  next
    case False
    have "do_return_from_spawn c s = Some (t (tr_pc s p) (tr_unsynched s p) (ff_join_counter pf - 1))"
      using c p pf pc jp jc mapc tidy False
      by (simp add: do_return_from_spawn_def decjoin_def provably_good_steal_def destroy_full_frame_def frames_do_def t_def fun_upd_twist)
    then show ?thesis using inv' [of "tr_pc s p" "tr_unsynched s p" "ff_join_counter pf - 1"] False by auto
  qed
qed

subsection \<open>The return of a called child\<close>

lemma call_return_step:
  assumes inv: "tree_inv mrg s ord seg" and en: "enabled (Call_return c) s"
  shows "\<exists>s' ord' seg'. cilkrts_return c s = Some s' \<and> tree_inv mrg s' ord' seg'"
proof -
  obtain cf p where c: "tr_frame s c = Some cf" "tr_pc s c = F_run" "\<not> tr_unsynched s c" "ff_parent cf = Some p" "ff_is_call_child cf"
    using en by (auto split: option.splits)
  note ok = tree_invD(1) [OF inv]
  have cU: "tr_pc s c \<noteq> F_unlinked" "tr_pc s c \<noteq> F_called" using c(2) by simp_all
  note call = call_child_facts [OF ok c(1,4,5) cU(1)]
  obtain pf where p: "tr_frame s p = Some pf" "ff_rightmost_child pf = Some c" using call(2) by blast
  have pU: "tr_pc s p \<noteq> F_unlinked" using call(1) by simp
  have pc: "p \<noteq> c" using call(1) c(2) by auto
  have last: "ff_rightmost_child cf = None" by (rule no_last [OF ok c(1) cU c(3)])
  have jc: "ff_join_counter cf = 1" using tree_okD(3) [OF ok c(1)] no_kids [OF ok cU(2) c(3)] c(2) by simp
  have "c \<in> kids (lks (tr_frame s)) p" using c(1,4) by (simp add: kids_def lks_def)
  then have "card (kids (lks (tr_frame s)) p) > 0" using kids_finite [OF tree_okD(2) [OF ok]] by (auto simp: card_gt_0_iff)
  then have jp: "ff_join_counter pf > 0" using tree_okD(3) [OF ok p(1)] call(1) by simp
  have placec: "seg (SC c) = []" "seg (SM c) \<noteq> []" "seg (SR c) = []" "last (upto_place ord seg (SM c)) = tr_cur s c"
    using strand_okD [OF tree_invD(3) [OF inv] c(1) cU(1)] c(2,3,5) by (simp_all add: place_ok_def)
  note placep = strand_okD [OF tree_invD(3) [OF inv] p(1) pU, unfolded call(1)]
  then have smp: "seg (SM p) = []" by (simp add: place_ok_def)
  have maps: "ff_children_reducer_map cf = None" "ff_right_reducer_map cf = None"
    using node_values(1,3) [OF inv c(1) cU(1)] placec(1,3) by simp_all
  define h1 where "h1 = (tr_frame s)(c \<mapsto> cf\<lparr>ff_join_counter := 0\<rparr>)"
  have h1: "h1 c = Some (cf\<lparr>ff_join_counter := 0\<rparr>)" "h1 p = Some pf" "lks h1 = lks (tr_frame s)"
    using p(1) pc c(1) by (simp_all add: h1_def lks_same)
  have par: "ff_parent (cf\<lparr>ff_join_counter := 0\<rparr>) = Some p" using c(4) by simp
  note W = unlink_ok [OF ok h1(3,1) cU(1) par]
  define h2 where "h2 = without_child p c h1"
  obtain cc where cc: "h2 c = Some cc" "ff_children_reducer_map cc = None" "ff_right_reducer_map cc = None"
    using W(5,6) [of c] h1(1) maps by (auto simp: h2_def)
  obtain g where g: "h2 p = Some g" "ff_join_counter g = ff_join_counter pf"
    using W(3) [of p] h1(2) by (auto simp: h2_def)
  define t where "t = s\<lparr>tr_frame := h2(c := None), tr_pc := (tr_pc s)(p := F_next), tr_map := (tr_map s)(p := tr_map s c, c := None),
    tr_cur := (tr_cur s)(p := tr_cur s c)\<rparr>"
  have fields: "tr_frame t = h2(c := None)" "tr_pc t = (tr_pc s)(p := F_next)" "tr_map t = (tr_map s)(p := tr_map s c, c := None)"
    "tr_unsynched t = tr_unsynched s" "tr_strands t = tr_strands s" "tr_cur t = (tr_cur s)(p := tr_cur s c)" "tr_upd t = tr_upd s"
    by (simp_all add: t_def)
  have "g\<lparr>ff_join_counter := ff_join_counter pf\<rparr> = g" unfolding g(2) [symmetric] by simp
  then have "(h2(p \<mapsto> g\<lparr>ff_join_counter := ff_join_counter pf\<rparr>))(c := None) = h2(c := None)" using g(1) by (simp add: fun_upd_idem)
  then have eq: "cilkrts_return c s = Some t"
    using c p(2) pc jc jp last maps h1(1,2) W(1) cc g
    by (simp add: cilkrts_return_def decjoin_def push_next_frame_def incjoin_def destroy_full_frame_def frames_do_def goto_def t_def
        h1_def [symmetric] h2_def [symmetric] full_frame.surjective)
  have J: "map_option ff_join_counter (h2 y) = map_option ff_join_counter (h1 y)" and C: "map_option ff_is_call_child (h2 y) = map_option ff_is_call_child (h1 y)"
    and M: "map_at pl h2 = map_at pl h1" for y pl
    using W(3,4) [of y] W(5,6) [of "owner pl"] by (cases pl; cases "h1 (owner pl)"; cases "h2 (owner pl)"; simp add: h2_def)+
  let ?A = "place_end p (ff_left_sibling cf)"
  obtain us vs where ord': "ord = us @ ?A # SC c # SM c # SR c # SM p # vs"
    using child_block [OF ok c(1) cU(1) c(4) last] call(3) by auto
  then have ord: "ord = (us @ [?A]) @ [SC c, SM c, SR c, SM p] @ vs" by simp
  have d: "distinct ((us @ [?A]) @ [SC c, SM c, SR c, SM p] @ vs)" using tree_invD(5) [OF inv] by (simp add: ord')
  let ?seg = "seg(SM p := seg (SM c))"
  have tree: "tree_ok t (us @ ?A # SM p # vs)"
  proof (rule tree_ok_call_return [OF ok [unfolded ord'] c(1,4,5,2,3)])
    have "lks (h2(c := None)) = (lks h2)(c := None)" by (auto simp: lks_def)
    also have "lks h2 = remove_child p (links_of cf) c (lks (tr_frame s))" unfolding h2_def W(2) h1(3) by simp
    finally show "lks (tr_frame t) = (remove_child p (links_of cf) c (lks (tr_frame s)))(c := None)" unfolding fields(1) .
    show "ff_join_counter g' = ff_join_counter g" if "tr_frame s y = Some g" "tr_frame t y = Some g'" for y g g'
      using J [of y] that by (auto simp: fields h1_def split: if_splits)
  qed (simp_all add: fields)
  have dom: "tr_frame t y = None \<longleftrightarrow> y = c \<or> tr_frame s y = None" for y
    using J [of y] by (cases "y = c"; cases "h2 y"; cases "h1 y") (auto simp: fields h1_def)
  have call_same: "map_option ff_is_call_child (tr_frame t y) = map_option ff_is_call_child (tr_frame s y)" if "y \<noteq> c" for y
    using C [of y] that by (simp add: fields h1_def)
  have map_same: "map_at pl (tr_frame t) = map_at pl (tr_frame s)" if "owner pl \<noteq> c" for pl
    using M [of pl] that by (cases pl) (simp_all add: fields h1_def)
  have actc: "active s c" using c(1,2) by (simp add: active_def)
  have act: "active s y \<and> y \<noteq> c" if "active t y" "y \<noteq> p" for y using that unfolding active_def dom by (simp add: fields)
  have "tree_inv mrg t ((us @ [?A]) @ [SM p] @ vs) ?seg"
  proof (rule tree_inv_block [OF inv [unfolded ord], where X = "{c, p}"])
    show "tree_ok t ((us @ [?A]) @ [SM p] @ vs)" using tree by simp
    show "strands_apart t" unfolding strands_apart_def
    proof (intro allI impI)
      fix y z assume a: "active t y" "active t z" "tr_cur t y = tr_cur t z"
      show "y = z"
      proof (rule ccontr)
        assume n: "y \<noteq> z"
        consider "y = p" | "z = p" | "y \<noteq> p" "z \<noteq> p" by blast
        then show False
        proof cases
          case 1
          then have "active s z" "z \<noteq> c" "tr_cur s c = tr_cur s z" using a(3) act [OF a(2)] n by (auto simp: fields)
          then show False using tree_invD(6) [OF inv actc] by blast
        next
          case 2
          then have "active s y" "y \<noteq> c" "tr_cur s c = tr_cur s y" using a(3) act [OF a(1)] n by (auto simp: fields)
          then show False using tree_invD(6) [OF inv actc] by blast
        next
          case 3
          then have "active s y" "active s z" "tr_cur s y = tr_cur s z" using a(3) act [OF a(1)] act [OF a(2)] by (auto simp: fields)
          then show False using tree_invD(6) [OF inv] n by blast
        qed
      qed
    qed
    show "tidy t"
    proof (rule tidy_same [OF tree_invD(7) [OF inv]])
      fix y assume y: "tr_frame t y \<noteq> None" "tr_pc t y = F_unlinked"
      then have n: "y \<noteq> c" "y \<noteq> p" "tr_frame s y \<noteq> None" "tr_pc s y = F_unlinked" unfolding dom by (auto simp: fields split: if_splits)
      then show "tr_frame s y \<noteq> None \<and> tr_pc s y = F_unlinked \<and>
          Option.bind (tr_frame t y) ff_children_reducer_map = Option.bind (tr_frame s y) ff_children_reducer_map \<and>
          Option.bind (tr_frame t y) ff_right_reducer_map = Option.bind (tr_frame s y) ff_right_reducer_map"
        using map_same [of "SC y"] map_same [of "SR y"] by simp
    qed
    show "map_option ff_is_call_child (tr_frame t y) = map_option ff_is_call_child (tr_frame s y) \<and> tr_pc t y = tr_pc s y \<and>
        tr_unsynched t y = tr_unsynched s y \<and> tr_cur t y = tr_cur s y" if "y \<notin> {c, p}" for y
      using that call_same [of y] by (simp add: fields)
    show "val mrg t pl = val mrg s pl" if pl: "pl \<in> set (us @ [?A]) \<union> set vs" for pl
    proof -
      have "pl \<noteq> SC c" "pl \<noteq> SM c" "pl \<noteq> SR c" and n: "pl \<noteq> SM p" using pl d by auto
      then have "owner pl \<noteq> c" by (cases pl) auto
      then show ?thesis using n map_same [of pl] by (cases pl) (simp_all add: fields)
    qed
    show "val mrg t pl = product mrg (updates s (?seg pl))" if "pl \<in> set [SM p]" for pl
      using that node_values(2) [OF inv c(1) cU(1)] c(2) pc by (simp add: fields)
    show "SM y \<in> set (us @ [?A]) \<union> set vs \<and> (?seg (SC y) = seg (SC y) \<or> tr_unsynched s y) \<and> (?seg (SR y) = seg (SR y) \<or> \<not> (ff_is_call_child g \<or> y = the_root))"
      if y: "y \<notin> {c, p}" "tr_frame s y = Some g" "tr_pc s y \<noteq> F_unlinked" for y g
      using place_in [OF ok y(2,3)] y(1) by (auto simp: ord)
    show "strand_ok t ((us @ [?A]) @ [SM p] @ vs) ?seg y" if y: "y \<in> {c, p}" for y
    proof (cases "y = p")
      case True
      have n: "SM p \<notin> set (us @ [?A])" "SM c \<notin> set (us @ [?A, SC c])" using d by auto
      have "segments ?seg (us @ [?A]) = segments seg (us @ [?A])" using n(1) by (intro segments_cong) auto
      then have "upto_place ((us @ [?A]) @ [SM p] @ vs) ?seg (SM p) = upto_place ord seg (SM c)"
        using upto_place_eq [OF n(1), of vs ?seg] upto_place_eq [OF n(2), of "SR c # SM p # vs" seg] placec(1) by (simp add: ord')
      moreover have "upto_place ord seg (SM c) \<noteq> []" using placec(2) by (simp add: upto_place_def)
      ultimately have "place_ok F_next (tr_unsynched s p) (tr_cur s c) (ff_is_call_child pf \<or> p = the_root)
          (upto_place ((us @ [?A]) @ [SM p] @ vs) ?seg (SM p)) (seg (SC p)) (seg (SM c)) (seg (SR p))"
        using placep placec by (simp add: place_ok_def)
      then show ?thesis using True call_same [of p] pc p(1) by (intro strand_okI) (auto simp: fields)
    next
      case False
      then show ?thesis using y by (intro strand_okI) (simp add: fields)
    qed
    show "?seg pl = seg pl" if "pl \<in> set (us @ [?A]) \<union> set vs" for pl using that d by auto
    show "segments ?seg [SM p] = segments seg [SC c, SM c, SR c, SM p]" using placec smp by simp
  qed (simp_all only: fields)
  then show ?thesis using eq by blast
qed

end
