(* ===== verification/Spawn_Sync.thy ===== *)
theory Spawn_Sync
  imports Spawn_Join
begin

text \<open>A frame stalls at a sync: it reduces its map into the map to its left and goes on when no child is left.\<close>

lemma left_ptr_sync:
  assumes ok: "tree_ok s ord" and x: "tr_frame s x = Some ff" "tr_pc s x \<noteq> F_unlinked"
  obtains q g where "compute_left_ptrs_for_sync x (tr_frame s) = Some q" "ptr_place q = place_end x (ff_rightmost_child ff)"
    "tr_frame s (owner (ptr_place q)) = Some g"
proof (cases "ff_rightmost_child ff")
  case None
  then show ?thesis using that [of "Children_of x" ff] x by (simp add: compute_left_ptrs_for_sync_def)
next
  case (Some k)
  have "lks (tr_frame s) x = Some (links_of ff)" "x \<notin> unlinked s" "lk_last (links_of ff) = Some k"
    using x Some by (simp_all add: lks_def unlinked_def)
  then obtain ck where "lks (tr_frame s) k = Some ck" "lk_parent ck = Some x" by (rule no_right_of_last [OF tree_okD(1) [OF ok]])
  then obtain g where "tr_frame s k = Some g" "ff_parent g = Some x" using lks_SomeD by fastforce
  then show ?thesis using that [of "Right_of k" g] Some x by (simp add: compute_left_ptrs_for_sync_def)
qed

lemma last_place_free:
  assumes ok: "tree_ok s ord" and x: "tr_frame s x = Some ff" "tr_pc s x \<noteq> F_unlinked" "tr_pc s x \<noteq> F_called"
  shows "place_end x (ff_rightmost_child ff) = SC y \<Longrightarrow> y = x"
    "place_end x (ff_rightmost_child ff) = SR y \<Longrightarrow> tr_frame s y = Some g \<Longrightarrow> y \<noteq> x \<and> \<not> (ff_is_call_child g \<or> y = the_root)"
proof -
  show "place_end x (ff_rightmost_child ff) = SC y \<Longrightarrow> y = x" by (cases "ff_rightmost_child ff") simp_all
  assume y: "place_end x (ff_rightmost_child ff) = SR y" "tr_frame s y = Some g"
  have "lks (tr_frame s) x = Some (links_of ff)" "x \<notin> unlinked s" "lk_last (links_of ff) = Some y"
    using x y by (simp_all add: lks_def unlinked_def place_ends)
  then obtain ck where ck: "lks (tr_frame s) y = Some ck" "lk_parent ck = Some x" "y \<noteq> x" by (rule no_right_of_last [OF tree_okD(1) [OF ok]])
  have "y \<noteq> the_root" using links_okD(6) [OF tree_okD(1) [OF ok] ck(1)] ck(2) by auto
  moreover have "\<not> lk_call ck" using frame_okD(1) [OF tree_okD(5) [OF ok ck(1)]] ck(2) x(3) by auto
  moreover have "ck = links_of g" using ck(1) y(2) by (simp add: lks_def)
  ultimately show "y \<noteq> x \<and> \<not> (ff_is_call_child g \<or> y = the_root)" using ck(3) by simp
qed

text \<open>The map of a frame and the map to its left change hands.\<close>

lemma sync_move:
  assumes inv: "tree_inv mrg s ord seg" and x: "tr_frame s x = Some ff" "tr_unsynched s x" "tr_pc s x = F_run \<or> (\<exists>w. tr_pc s x = F_sync w)"
    and q: "ptr_place q = place_end x (ff_rightmost_child ff)" "tr_frame s (owner (ptr_place q)) = Some g"
    and seg: "sA @ sM = seg (ptr_place q) @ seg (SM x)" "v = product mrg (updates s sA)" "held mrg pc None = product mrg (updates s sM)"
    and pc: "pc = F_synced \<and> sM = [] \<or> (\<exists>l m. pc = F_sync_merge l m)"
  shows "\<exists>seg'. tree_inv mrg (goto x pc (s\<lparr>tr_frame := put_map q v (tr_frame s), tr_map := (tr_map s)(x := None)\<rparr>)) ord seg'"
proof -
  let ?t = "goto x pc (s\<lparr>tr_frame := put_map q v (tr_frame s), tr_map := (tr_map s)(x := None)\<rparr>)"
  let ?h = "put_map q v (tr_frame s)"
  note ok = tree_invD(1) [OF inv]
  have xU: "tr_pc s x \<noteq> F_unlinked" "tr_pc s x \<noteq> F_called" "own (tr_pc s x) = 1" "\<not> returning (tr_pc s x)" using x(3) by auto
  have fields: "tr_frame ?t = ?h" "tr_pc ?t = (tr_pc s)(x := pc)" "tr_map ?t = (tr_map s)(x := None)" "tr_unsynched ?t = tr_unsynched s"
    "tr_strands ?t = tr_strands s" "tr_cur ?t = tr_cur s" "tr_upd ?t = tr_upd s" by (simp_all add: goto_def)
  note H = put_map_facts(3-5) [where h = "tr_frame s" and q = q and v = v, OF q(2)]
  let ?A = "place_end x (ff_rightmost_child ff)"
  have "adj ord ?A (SM x)" using node_okD(2) [OF tree_node [OF ok x(1) xU(1)]] by simp
  then obtain us vs where ord: "ord = us @ [?A, SM x] @ vs" using adj_block by metis
  have d: "distinct (us @ [?A, SM x] @ vs)" using tree_invD(5) [OF inv] by (simp add: ord)
  let ?seg = "seg(?A := sA, SM x := sM)"
  have AM: "?A \<noteq> SM y" for y by (simp add: place_ends)
  have pcs: "pc \<noteq> F_called" "pc \<noteq> F_unlinked" "own pc = 1" "\<not> returning pc" "pc \<noteq> F_stalled"
    using pc by auto
  have frame: "frame_ok (lks (tr_frame s)) (tr_pc s) (tr_unsynched s) (tr_map s) x (links_of ff)"
    by (rule tree_okD(5) [OF ok lks_Some [of "tr_frame s", OF x(1)]])
  have tree: "tree_ok ?t ord"
  proof (rule tree_ok_local [OF ok x(1), where q = pc and b = True and v = None])
    show "ff_join_counter g' = ff_join_counter g + (if y = x then own pc - own (tr_pc s x) else 0)"
      if "tr_frame s y = Some g" "tr_frame ?t y = Some g'" for y g g'
      using H(2) [of y] that xU(3) pcs(3) by (simp add: fields)
    show "tr_unsynched ?t = (tr_unsynched s)(x := True)" using x(2) by (simp add: fields fun_upd_idem)
  qed (use H(1) xU pcs in \<open>simp_all add: fields\<close>)
  have act: "active s y" if "active ?t y" for y
    using that xU(2,4) lks_data(2) [OF H(1)] unfolding active_def fields by (cases "y = x") simp_all
  have "tree_inv mrg ?t (us @ [?A, SM x] @ vs) ?seg"
  proof (rule tree_inv_block [OF inv [unfolded ord] tree [unfolded ord], where X = "{x}"])
    show "strands_apart ?t" by (rule strands_apart_mono [of s]) (use inv act in \<open>simp_all add: tree_inv_def fields\<close>)
    show "tidy ?t"
    proof (rule tidy_same [OF tree_invD(7) [OF inv]])
      fix y assume y: "tr_frame ?t y \<noteq> None" "tr_pc ?t y = F_unlinked"
      then have y': "tr_pc s y = F_unlinked" "tr_frame s y \<noteq> None" using lks_data(2) [OF H(1)] pcs(2) unfolding fields by (auto split: if_splits)
      then have "owner ?A \<noteq> y" using links_okD(5) [OF tree_invD(4) [OF inv], of ?A] by (auto simp: ord unlinked_def)
      then have "ptr_place q \<noteq> SC y" "ptr_place q \<noteq> SR y" unfolding q(1) by (metis place.sel(1), metis place.sel(3))
      then show "tr_frame s y \<noteq> None \<and> tr_pc s y = F_unlinked \<and>
          Option.bind (tr_frame ?t y) ff_children_reducer_map = Option.bind (tr_frame s y) ff_children_reducer_map \<and>
          Option.bind (tr_frame ?t y) ff_right_reducer_map = Option.bind (tr_frame s y) ff_right_reducer_map"
        using y' H(3) [of "SC y"] H(3) [of "SR y"] by (auto simp: fields)
    qed
    show "map_option ff_is_call_child (tr_frame ?t y) = map_option ff_is_call_child (tr_frame s y) \<and> tr_pc ?t y = tr_pc s y \<and>
        tr_unsynched ?t y = tr_unsynched s y \<and> tr_cur ?t y = tr_cur s y" if "y \<notin> {x}" for y
      using that lks_data(1) [OF H(1)] by (simp add: fields)
    show "val mrg ?t pl = val mrg s pl" if "pl \<in> set us \<union> set vs" for pl
    proof -
      have n: "pl \<noteq> ?A" "pl \<noteq> SM x" using that d by auto
      then have "map_at pl ?h = map_at pl (tr_frame s)" using H(3) [of pl] q(1) by simp
      then show ?thesis using n by (cases pl) (simp_all add: fields)
    qed
    show "val mrg ?t pl = product mrg (updates s (?seg pl))" if "pl \<in> set [?A, SM x]" for pl
    proof (cases "pl = SM x")
      case True
      then show ?thesis using seg(3) by (simp add: fields)
    next
      case False
      then have A: "pl = ?A" using that by simp
      have "pl \<noteq> SM (owner pl)" unfolding A by (rule AM)
      then have "val mrg ?t pl = map_at pl ?h" using map_at_val [of pl mrg ?t] by (simp add: fields)
      then show ?thesis using H(3) [of pl] q(1) A seg(2) AM by simp
    qed
    show "SM y \<in> set us \<union> set vs \<and> (?seg (SC y) = seg (SC y) \<or> tr_unsynched s y) \<and> (?seg (SR y) = seg (SR y) \<or> \<not> (ff_is_call_child g \<or> y = the_root))"
      if y: "y \<notin> {x}" "tr_frame s y = Some g" "tr_pc s y \<noteq> F_unlinked" for y g
    proof -
      have "SM y \<in> set us \<union> set vs" using place_in [OF ok y(2,3)] y(1) not_sym [OF AM [of y]] by (simp add: ord)
      then show ?thesis using last_place_free [OF ok x(1) xU(1,2), of y] y(1,2) by auto
    qed
    show "strand_ok ?t (us @ [?A, SM x] @ vs) ?seg y" if "y \<in> {x}" for y
    proof (rule strand_okI)
      fix f assume "tr_frame ?t y = Some f"
      then have call: "ff_is_call_child f = ff_is_call_child ff" using that lks_data(1) [OF H(1), of x] x(1) by (simp add: fields)
      have n: "SM x \<notin> set (us @ [?A])" using d by auto
      have "segments ?seg us = segments seg us" using d by (intro segments_cong) auto
      then have pre: "upto_place (us @ [?A, SM x] @ vs) ?seg (SM x) = upto_place ord seg (SM x)"
        using upto_place_eq [OF n, of vs] seg(1) q(1) AM by (simp add: ord)
      have "?A \<noteq> SR x" using last_place_free(2) [OF ok x(1) xU(1,2) _ x(1)] by blast
      then have sr: "?seg (SR x) = seg (SR x)" by simp
      have p: "place_ok (tr_pc s x) (tr_unsynched s x) (tr_cur s x) (ff_is_call_child ff \<or> x = the_root) (upto_place ord seg (SM x)) (seg (SC x)) (seg (SM x)) (seg (SR x))"
        by (rule strand_okD [OF tree_invD(3) [OF inv] x(1) xU(1)])
      have "place_ok pc True (tr_cur s x) (ff_is_call_child ff \<or> x = the_root) (upto_place ord seg (SM x)) (?seg (SC x)) sM (seg (SR x))"
        using p pc xU(2,4) x(2) unfolding place_ok_def by auto
      moreover have "y = x" using that by simp
      ultimately show "place_ok (tr_pc ?t y) (tr_unsynched ?t y) (tr_cur ?t y) (ff_is_call_child f \<or> y = the_root)
          (upto_place (us @ [?A, SM x] @ vs) ?seg (SM y)) (?seg (SC y)) (?seg (SM y)) (?seg (SR y))"
        using x(2) unfolding fields call pre [symmetric] sr [symmetric] by simp
    qed
    show "?seg pl = seg pl" if "pl \<in> set us \<union> set vs" for pl using that d by auto
    show "segments ?seg [?A, SM x] = segments seg [?A, SM x]" using seg(1) q(1) AM by simp
  qed (simp_all only: fields)
  then show ?thesis unfolding ord [symmetric] by blast
qed

lemma put_map_same: "h (owner (ptr_place q)) = Some g \<Longrightarrow> put_map q (map_at (ptr_place q) h) h = h"
  by (cases q) (simp_all add: fun_upd_idem)

lemma left_value:
  assumes inv: "tree_inv mrg s ord seg" and x: "tr_frame s x = Some ff" "tr_pc s x \<noteq> F_unlinked" and q: "ptr_place q = place_end x (ff_rightmost_child ff)"
  shows "map_at (ptr_place q) (tr_frame s) = product mrg (updates s (seg (ptr_place q)))"
proof -
  have "ptr_place q \<in> set ord" unfolding q using node_okD(2) [OF tree_node [OF tree_invD(1) [OF inv] x]] adj_memL by fastforce
  from values_okD(1) [OF tree_invD(2) [OF inv] this] show ?thesis using map_at_val [of "ptr_place q" mrg s] by (cases q) simp_all
qed

lemma sync_start_step:
  assumes inv: "tree_inv mrg s ord seg" and en: "enabled (Sync x) s" and assoc: "assoc_merge mrg"
  shows "\<exists>s' seg'. sync_start x s = Some s' \<and> tree_inv mrg s' ord seg'"
proof -
  obtain ff where x: "tr_frame s x = Some ff" "tr_pc s x = F_run" "tr_unsynched s x" using en by auto
  note ok = tree_invD(1) [OF inv]
  have xU: "tr_pc s x \<noteq> F_unlinked" using x(2) by simp
  show ?thesis
  proof (cases "tr_map s x")
    case None
    obtain q g where "compute_left_ptrs_for_sync x (tr_frame s) = Some q" and q: "ptr_place q = place_end x (ff_rightmost_child ff)"
      "tr_frame s (owner (ptr_place q)) = Some g" by (rule left_ptr_sync [OF ok x(1) xU])
    let ?v = "map_at (ptr_place q) (tr_frame s)"
    have empty: "product mrg (updates s (seg (SM x))) = None" using node_values(2) [OF inv x(1) xU] x(2) None by simp
    have "\<exists>seg'. tree_inv mrg (goto x F_synced (s\<lparr>tr_frame := put_map q ?v (tr_frame s), tr_map := (tr_map s)(x := None)\<rparr>)) ord seg'"
    proof (rule sync_move [OF inv x(1,3) disjI1 [OF x(2)] q])
      show "(seg (ptr_place q) @ seg (SM x)) @ [] = seg (ptr_place q) @ seg (SM x)" by simp
      show "?v = product mrg (updates s (seg (ptr_place q) @ seg (SM x)))"
        using left_value [OF inv x(1) xU q(1)] empty assoc by (simp add: product_append)
    qed simp_all
    moreover have "(tr_map s)(x := None) = tr_map s" using None by (simp add: fun_upd_idem)
    ultimately have "\<exists>seg'. tree_inv mrg (goto x F_synced s) ord seg'" unfolding put_map_same [where h = "tr_frame s" and q = q, OF q(2)] by simp
    then show ?thesis using None by (simp add: sync_start_def)
  next
    case (Some m)
    let ?t = "goto x (F_sync (tr_map s x)) (s\<lparr>tr_map := (tr_map s)(x := None)\<rparr>)"
    have "tree_inv mrg ?t ord seg"
    proof (rule tree_inv_goto [OF inv x(1) xU, where q = "F_sync (tr_map s x)" and b = "tr_unsynched s x"])
      show "tree_ok ?t ord"
      proof (rule tree_ok_local [OF ok x(1), where q = "F_sync (tr_map s x)" and b = "tr_unsynched s x" and v = None])
        show "tr_unsynched ?t = (tr_unsynched s)(x := tr_unsynched s x)" by (simp add: goto_def)
      qed (use x in \<open>simp_all add: goto_def\<close>)
      show "active s x" using x by (simp add: active_def)
      show "place_ok (F_sync (tr_map s x)) (tr_unsynched s x) (tr_cur s x) call pre sc sm sr"
        if "place_ok (tr_pc s x) (tr_unsynched s x) (tr_cur s x) call pre sc sm sr" for call pre sc sm sr
        using that x(3) by (simp add: place_ok_def x(2))
      show "tr_unsynched ?t = (tr_unsynched s)(x := tr_unsynched s x)" by (simp add: goto_def)
    qed (use x in \<open>simp_all add: goto_def\<close>)
    then show ?thesis using Some by (auto simp: sync_start_def)
  qed
qed

lemma sync_reduce_step:
  assumes inv: "tree_inv mrg s ord seg" and x: "tr_frame s x = Some ff" "tr_pc s x = F_sync w" and assoc: "assoc_merge mrg"
  shows "\<exists>s' seg'. sync_reduce x w s = Some s' \<and> tree_inv mrg s' ord seg'"
proof -
  note ok = tree_invD(1) [OF inv]
  have xU: "tr_pc s x \<noteq> F_unlinked" using x(2) by simp
  note f = tree_okD(5) [OF ok lks_Some [of "tr_frame s", OF x(1)]]
  have uns: "tr_unsynched s x" "tr_map s x = None" using frame_okD(5,6) [OF f] x(2) by simp_all
  obtain q g where q0: "compute_left_ptrs_for_sync x (tr_frame s) = Some q" and q: "ptr_place q = place_end x (ff_rightmost_child ff)"
    "tr_frame s (owner (ptr_place q)) = Some g" by (rule left_ptr_sync [OF ok x(1) xU])
  let ?L = "map_at (ptr_place q) (tr_frame s)"
  have w: "w = product mrg (updates s (seg (SM x)))" using node_values(2) [OF inv x(1) xU] x(2) by simp
  note L = left_value [OF inv x(1) xU q(1)]
  have LW: "merge_maps mrg ?L w = product mrg (updates s (seg (ptr_place q) @ seg (SM x)))" using L w assoc by (simp add: product_append)
  have m: "(tr_map s)(x := None) = tr_map s" using uns(2) by (simp add: fun_upd_idem)
  have pc: "tr_pc s x = F_run \<or> (\<exists>w. tr_pc s x = F_sync w)" using x(2) by simp
  note move = sync_move [OF inv x(1) uns(1) pc q]
  have "sync_turn x w (tr_frame s) = Some (None, put_map q (merge_maps mrg ?L w) (tr_frame s)) \<or>
    (\<exists>l m. sync_turn x w (tr_frame s) = Some (Some (l, m), put_map q None (tr_frame s)) \<and> merge_maps mrg l m = merge_maps mrg ?L w)"
    by (rule sync_turn_spec [OF q0 q(2)])
  then show ?thesis
  proof (elim disjE exE conjE)
    assume t: "sync_turn x w (tr_frame s) = Some (None, put_map q (merge_maps mrg ?L w) (tr_frame s))"
    have "\<exists>seg'. tree_inv mrg (goto x F_synced (s\<lparr>tr_frame := put_map q (merge_maps mrg ?L w) (tr_frame s), tr_map := (tr_map s)(x := None)\<rparr>)) ord seg'"
    proof (rule move)
      show "(seg (ptr_place q) @ seg (SM x)) @ [] = seg (ptr_place q) @ seg (SM x)" by simp
    qed (use LW in simp_all)
    then show ?thesis using t by (simp add: sync_reduce_def m)
  next
    fix l r assume t: "sync_turn x w (tr_frame s) = Some (Some (l, r), put_map q None (tr_frame s))" and lr: "merge_maps mrg l r = merge_maps mrg ?L w"
    have "\<exists>seg'. tree_inv mrg (goto x (F_sync_merge l r) (s\<lparr>tr_frame := put_map q None (tr_frame s), tr_map := (tr_map s)(x := None)\<rparr>)) ord seg'"
    proof (rule move)
      show "[] @ seg (ptr_place q) @ seg (SM x) = seg (ptr_place q) @ seg (SM x)" by simp
    qed (use LW lr in simp_all)
    then show ?thesis using t by (simp add: sync_reduce_def m)
  qed
qed

lemma sync_merge_step:
  assumes inv: "tree_inv mrg s ord seg" and x: "tr_frame s x = Some ff" "tr_pc s x = F_sync_merge l m"
  shows "\<exists>s'. sync_merge mrg x l m s = Some s' \<and> tree_inv mrg s' ord seg"
proof -
  note ok = tree_invD(1) [OF inv]
  note f = tree_okD(5) [OF ok lks_Some [of "tr_frame s", OF x(1)]]
  have uns: "tr_unsynched s x" "tr_map s x = None" using frame_okD(5,6) [OF f] x(2) by simp_all
  let ?q = "F_sync (merge_maps mrg l m)"
  have "tree_inv mrg (goto x ?q s) ord seg"
  proof (rule tree_inv_goto [OF inv x(1), where q = ?q and b = "tr_unsynched s x"])
    show "tree_ok (goto x ?q s) ord"
      by (rule tree_ok_local [OF ok x(1), where q = ?q and b = "tr_unsynched s x" and v = "tr_map s x"])
        (use x uns in \<open>simp_all add: goto_def fun_upd_idem\<close>)
    show "active s x" using x by (simp add: active_def)
    show "place_ok ?q (tr_unsynched s x) (tr_cur s x) call pre sc sm sr"
      if "place_ok (tr_pc s x) (tr_unsynched s x) (tr_cur s x) call pre sc sm sr" for call pre sc sm sr
      using that uns(1) by (simp add: place_ok_def x(2))
  qed (use x in \<open>simp_all add: goto_def\<close>)
  then show ?thesis by (simp add: sync_merge_def)
qed

lemma sync_done_step:
  assumes inv: "tree_inv mrg s ord seg" and en: "enabled (Sync_done x) s"
  shows "\<exists>s'. do_sync x s = Some s' \<and> tree_inv mrg s' ord seg"
proof -
  obtain ff where x: "tr_frame s x = Some ff" "tr_pc s x = F_synced" using en by auto
  note ok = tree_invD(1) [OF inv]
  have xU: "tr_pc s x \<noteq> F_unlinked" using x(2) by simp
  note f = tree_okD(5) [OF ok lks_Some [of "tr_frame s", OF x(1)]]
  have uns: "tr_unsynched s x" "tr_map s x = None" using frame_okD(5,6) [OF f] x(2) by simp_all
  let ?n = "card (kids (lks (tr_frame s)) x)"
  have j: "ff_join_counter ff = 1 + int ?n" using tree_okD(3) [OF ok x(1)] x(2) by simp
  define t where "t pc b v = s\<lparr>tr_frame := (tr_frame s)(x \<mapsto> ff\<lparr>ff_join_counter := v\<rparr>), tr_pc := (tr_pc s)(x := pc),
    tr_unsynched := (tr_unsynched s)(x := b)\<rparr>" for pc b v
  have inv': "tree_inv mrg (t pc b v) ord seg"
    if q: "pc = F_stalled \<and> b \<and> ?n \<noteq> 0 \<and> v = int ?n \<or> pc = F_next \<and> \<not> b \<and> ?n = 0 \<and> v = 1" for pc b v
  proof (rule tree_inv_goto [OF inv x(1) xU, where q = pc and b = b])
    have fields: "tr_frame (t pc b v) = (tr_frame s)(x \<mapsto> ff\<lparr>ff_join_counter := v\<rparr>)" "tr_pc (t pc b v) = (tr_pc s)(x := pc)"
      "tr_map (t pc b v) = tr_map s" "tr_unsynched (t pc b v) = (tr_unsynched s)(x := b)" by (simp_all add: t_def)
    show "tree_ok (t pc b v) ord"
    proof (rule tree_ok_local [OF ok x(1), where q = pc and b = b and v = "tr_map s x"])
      show "lks (tr_frame (t pc b v)) = lks (tr_frame s)" using x(1) by (simp add: fields lks_same)
      show "ff_join_counter g' = ff_join_counter g + (if y = x then own pc - own (tr_pc s x) else 0)"
        if g: "tr_frame s y = Some g" "tr_frame (t pc b v) y = Some g'" for y g g'
      proof (cases "y = x")
        case True
        then show ?thesis using g(1) g(2) [unfolded fields] x j q by (elim disjE) auto
      next
        case False
        then show ?thesis using g by (simp add: fields)
      qed
      show "\<not> b \<Longrightarrow> \<not> tr_unsynched s x \<or> kids (lks (tr_frame s)) x = {}" using q kids_finite [OF tree_okD(2) [OF ok], of x] by (elim disjE) simp_all
      show "tr_pc s x \<noteq> F_called" "pc \<noteq> F_called" "pc = F_unlinked \<longleftrightarrow> tr_pc s x = F_unlinked" using x(2) q by auto
      show "returning pc \<Longrightarrow> \<not> b \<and> ff_parent ff \<noteq> None \<and> \<not> ff_is_call_child ff" "syncing pc \<Longrightarrow> b" using q by auto
      show "emptied pc \<Longrightarrow> tr_map s x = None" using uns(2) by simp
      show "pc = F_stalled \<Longrightarrow> ff_join_counter ff - own (tr_pc s x) \<noteq> 0" using q j x(2) by auto
    qed (simp_all add: fields)
    show "active s x" using x by (simp add: active_def)
    show "place_ok pc b (tr_cur s x) call pre sc sm sr"
      if "place_ok (tr_pc s x) (tr_unsynched s x) (tr_cur s x) call pre sc sm sr" for call pre sc sm sr
      using that q unfolding x(2) by (elim disjE) (simp_all add: place_ok_def)
  qed (use q x in \<open>auto simp: t_def\<close>)
  show ?thesis
  proof (cases "?n = 0")
    case True
    have "do_sync x s = Some (t F_next False 1)" using x uns j True
      by (simp add: do_sync_def provably_good_steal_def decjoin_def finish_provably_good_steal_def push_next_frame_def incjoin_def frames_do_def
          goto_def t_def)
    then show ?thesis using inv' [of F_next False 1] True by auto
  next
    case False
    have "do_sync x s = Some (t F_stalled True (int ?n))" using x uns j False
      by (simp add: do_sync_def provably_good_steal_def decjoin_def goto_def t_def fun_upd_idem)
    then show ?thesis using inv' [of F_stalled True "int ?n"] False by auto
  qed
qed

end
