(* ===== verification/Spawn_Steal.thy ===== *)
theory Spawn_Steal
  imports Spawn_Sync
begin

text \<open>A thief promotes the stack frames it has taken to full frames.\<close>

subsection \<open>A new child\<close>

lemma with_child_data:
  assumes "h c = None" "h p = Some pf" "\<forall>l. ff_rightmost_child pf = Some l \<longrightarrow> (\<exists>lf. h l = Some lf \<and> l \<noteq> p)"
  shows "with_child p b c h c = Some (new_frame b p (ff_rightmost_child pf))"
    "y \<noteq> c \<Longrightarrow> map_option ff_join_counter (with_child p b c h y) = map_option (\<lambda>g. ff_join_counter g + (if y = p then 1 else 0)) (h y)"
    "y \<noteq> c \<Longrightarrow> map_option ff_is_call_child (with_child p b c h y) = map_option ff_is_call_child (h y)"
    "y \<noteq> c \<Longrightarrow> map_option ff_children_reducer_map (with_child p b c h y) = map_option ff_children_reducer_map (h y)"
    "y \<noteq> c \<Longrightarrow> map_option ff_right_reducer_map (with_child p b c h y) = map_option ff_right_reducer_map (h y)"
proof -
  show "with_child p b c h c = Some (new_frame b p (ff_rightmost_child pf))" using assms(2) by (simp add: with_child_def)
  have l: "\<exists>lf. h y = Some lf \<and> y \<noteq> p" if "ff_rightmost_child pf = Some y" for y using assms(3) that by blast
  show "y \<noteq> c \<Longrightarrow> map_option ff_join_counter (with_child p b c h y) = map_option (\<lambda>g. ff_join_counter g + (if y = p then 1 else 0)) (h y)"
    "y \<noteq> c \<Longrightarrow> map_option ff_is_call_child (with_child p b c h y) = map_option ff_is_call_child (h y)"
    "y \<noteq> c \<Longrightarrow> map_option ff_children_reducer_map (with_child p b c h y) = map_option ff_children_reducer_map (h y)"
    "y \<noteq> c \<Longrightarrow> map_option ff_right_reducer_map (with_child p b c h y) = map_option ff_right_reducer_map (h y)"
    using l [of y] assms(2) by (auto simp: with_child_def)
qed

lemma last_allocated:
  assumes ok: "tree_ok s ord" and p: "tr_frame s p = Some pf" "tr_pc s p \<noteq> F_unlinked" and l: "ff_rightmost_child pf = Some l"
  shows "\<exists>lf. tr_frame s l = Some lf \<and> l \<noteq> p"
proof -
  have "lks (tr_frame s) p = Some (links_of pf)" "p \<notin> unlinked s" "lk_last (links_of pf) = Some l"
    using p l by (simp_all add: lks_def unlinked_def)
  then obtain ck where ck: "lks (tr_frame s) l = Some ck" "l \<noteq> p" by (rule no_right_of_last [OF tree_okD(1) [OF ok]])
  then show ?thesis using lks_SomeD by blast
qed

text \<open>The child takes over the first part of the segment of its parent, and the map.\<close>

lemma add_child_step:
  assumes inv: "tree_inv mrg s ord seg" and assoc: "assoc_merge mrg" and p: "tr_frame s p = Some pf" and c: "tr_frame s c = None"
    and pc: "b \<and> tr_pc s p = F_loot \<and> q = F_called \<and> r = F_loot \<and> Y = [] \<or>
      \<not> b \<and> tr_pc s p = F_next \<and> tr_unsynched s p \<and> q = F_next \<and> r = F_run \<and> Y \<noteq> []"
    and seg: "seg (SM p) = X @ Y" "X \<noteq> []" "last X = k" "product mrg (updates s Y) = None"
    and apart: "\<And>y. active s y \<Longrightarrow> (b \<Longrightarrow> y \<noteq> p) \<Longrightarrow> tr_cur s y \<noteq> k"
    and t: "tr_frame t = (with_child p b c (tr_frame s))(c \<mapsto> (new_frame b p (ff_rightmost_child pf))\<lparr>ff_join_counter := own r\<rparr>)"
      "tr_pc t = (tr_pc s)(p := q, c := r)" "tr_map t = (tr_map s)(c := tr_map s p, p := None)" "tr_unsynched t = (tr_unsynched s)(c := False)"
      "tr_cur t = (tr_cur s)(c := k)" "tr_strands t = tr_strands s" "tr_upd t = tr_upd s"
  shows "\<exists>ord' seg'. tree_inv mrg t ord' seg' \<and> seg' (SM c) = X"
proof -
  note ok = tree_invD(1) [OF inv]
  have pU: "tr_pc s p \<noteq> F_unlinked" "tr_pc s p \<noteq> F_called" "own q = own (tr_pc s p)" using pc by auto
  have cp: "c \<noteq> p" using p c by auto
  have child: "\<exists>lf. tr_frame s l = Some lf \<and> l \<noteq> p" if "ff_rightmost_child pf = Some l" for l by (rule last_allocated [OF ok p pU(1) that])
  then have child': "\<forall>l. ff_rightmost_child pf = Some l \<longrightarrow> (\<exists>lf. tr_frame s l = Some lf \<and> l \<noteq> p)" by blast
  note D = with_child_data [OF c p child']
  have K: "lks (with_child p b c (tr_frame s)) = add_child p b c (lks (tr_frame s))" by (rule lks_with_child [OF c p child])
  let ?A = "place_end p (ff_rightmost_child pf)"
  have "adj ord ?A (SM p)" using node_okD(2) [OF tree_node [OF ok p pU(1)]] by simp
  then obtain us vs where "ord = us @ [?A, SM p] @ vs" using adj_block by metis
  then have ord: "ord = (us @ [?A]) @ [SM p] @ vs" by simp
  have d: "distinct ((us @ [?A]) @ [SM p] @ vs)" using tree_invD(5) [OF inv] by (simp add: ord)
  have out: "owner pl \<noteq> c" if "pl \<in> set ord" for pl using links_okD(5) [OF tree_invD(4) [OF inv] that] c by auto
  have AM: "?A \<noteq> SM y" for y by (simp add: place_ends)
  let ?seg = "seg(SC c := [], SM c := X, SR c := [], SM p := Y)"
  have same: "map_option f (tr_frame t y) = map_option f (with_child p b c (tr_frame s) y)" if "y \<noteq> c" for y and f :: "'a full_frame \<Rightarrow> 'd"
    using that by (simp add: t(1))
  have call: "map_option ff_is_call_child (tr_frame t y) = map_option ff_is_call_child (tr_frame s y)" if "y \<noteq> c" for y
    using same [OF that, of ff_is_call_child] D(3) [OF that, of b] by simp
  have dom: "tr_frame t y = None \<longleftrightarrow> y \<noteq> c \<and> tr_frame s y = None" for y
    using call [of y] by (cases "y = c"; cases "tr_frame t y"; cases "tr_frame s y") (simp_all add: t(1))
  have maps: "map_at pl (tr_frame t) = map_at pl (tr_frame s)" if "owner pl \<noteq> c" for pl
    using same [OF that, of ff_children_reducer_map] same [OF that, of ff_right_reducer_map] D(4,5) [OF that, of b]
    by (cases pl; cases "tr_frame t (owner pl)"; cases "tr_frame s (owner pl)") simp_all
  have tree: "tree_ok t (us @ ?A # SC c # SM c # SR c # SM p # vs)"
  proof (rule tree_ok_add_child [where s = s and p = p and pf = pf and c = c and b = b and q = q and r = r])
    show "tree_ok s (us @ ?A # SM p # vs)" using ok by (simp add: ord)
    show "tr_frame s p = Some pf" "tr_frame s c = None" by (rule p, rule c)
    have "lks (tr_frame t) = lks (with_child p b c (tr_frame s))"
      unfolding t(1) by (rule lks_same [where h = "with_child p b c (tr_frame s)" and x = c, OF D(1)]) (simp add: new_frame_def links_of_def)
    then show "lks (tr_frame t) = add_child p b c (lks (tr_frame s))" using K by simp
    show "ff_join_counter g' = ff_join_counter g + (if y = p then 1 + own q - own (tr_pc s p) else 0)"
      if "tr_frame s y = Some g" "tr_frame t y = Some g'" for y g g'
    proof -
      have "y \<noteq> c" using that(1) c by auto
      then show ?thesis using same [of y ff_join_counter] D(2) [of y b] that pU(3) by (simp split: if_splits)
    qed
    show "ff_join_counter g = own r" if "tr_frame t c = Some g" for g using that by (auto simp: t(1))
    show "b \<longleftrightarrow> q = F_called" "\<not> b \<Longrightarrow> tr_unsynched s p \<and> q = tr_pc s p" "q = F_stalled \<Longrightarrow> False" "r = F_loot \<or> r = F_run" using pc by auto
  qed (use pU t in simp_all)
  have q: "held mrg q None = None" "q \<noteq> F_unlinked" "r \<noteq> F_unlinked" "held mrg r u = u" "held mrg (tr_pc s p) u = u" for u using pc by auto
  have act: "active s y \<and> (b \<longrightarrow> y \<noteq> p)" if y: "active t y" "y \<noteq> c" for y
  proof (cases "y = p")
    case True
    then show ?thesis using y pc p cp by (auto simp: active_def t(2))
  next
    case False
    then show ?thesis using y unfolding active_def dom t(2) by simp
  qed
  have "tree_inv mrg t ((us @ [?A]) @ [SC c, SM c, SR c, SM p] @ vs) ?seg"
  proof (rule tree_inv_block [OF inv [unfolded ord], where X = "{c, p}"])
    show "tree_ok t ((us @ [?A]) @ [SC c, SM c, SR c, SM p] @ vs)" using tree by simp
    show "strands_apart t" unfolding strands_apart_def
    proof (intro allI impI)
      fix y z assume a: "active t y" "active t z" "tr_cur t y = tr_cur t z"
      have nk: "tr_cur t x \<noteq> k" if "active t x" "x \<noteq> c" for x using act [OF that] apart that(2) by (simp add: t(5))
      show "y = z"
      proof (cases "y = c \<or> z = c")
        case True
        moreover have "tr_cur t c = k" by (simp add: t(5))
        ultimately show ?thesis using nk a by metis
      next
        case False
        then have "active s y" "active s z" "tr_cur s y = tr_cur s z" using act a by (auto simp: t(5))
        then show ?thesis by (rule tree_invD(6) [OF inv])
      qed
    qed
    show "tidy t"
    proof (rule tidy_same [OF tree_invD(7) [OF inv]])
      fix y assume y: "tr_frame t y \<noteq> None" "tr_pc t y = F_unlinked"
      then have n: "y \<noteq> c" "y \<noteq> p" using q(2,3) cp by (auto simp: t(2) split: if_splits)
      then have "tr_frame s y \<noteq> None" "tr_pc s y = F_unlinked" using y unfolding dom t(2) by simp_all
      then show "tr_frame s y \<noteq> None \<and> tr_pc s y = F_unlinked \<and>
          Option.bind (tr_frame t y) ff_children_reducer_map = Option.bind (tr_frame s y) ff_children_reducer_map \<and>
          Option.bind (tr_frame t y) ff_right_reducer_map = Option.bind (tr_frame s y) ff_right_reducer_map"
        using n maps [of "SC y"] maps [of "SR y"] by simp
    qed
    show "map_option ff_is_call_child (tr_frame t y) = map_option ff_is_call_child (tr_frame s y) \<and> tr_pc t y = tr_pc s y \<and>
        tr_unsynched t y = tr_unsynched s y \<and> tr_cur t y = tr_cur s y" if "y \<notin> {c, p}" for y
      using that call [of y] t by simp
    show "val mrg t pl = val mrg s pl" if pl: "pl \<in> set (us @ [?A]) \<union> set vs" for pl
    proof -
      have "owner pl \<noteq> c" "pl \<noteq> SM p" using pl d out [of pl] by (auto simp: ord)
      then show ?thesis using maps [of pl] t by (cases pl) simp_all
    qed
    show "val mrg t pl = product mrg (updates s (?seg pl))" if "pl \<in> set [SC c, SM c, SR c, SM p]" for pl
    proof -
      have "tr_map s p = product mrg (updates s (X @ Y))" using node_values(2) [OF inv p pU(1)] q(5) seg(1) by simp
      then have "tr_map s p = product mrg (updates s X)" using seg(4) assoc by (simp add: product_append)
      then show ?thesis using that q cp t seg(4) by (auto simp: new_frame_def)
    qed
    show "SM y \<in> set (us @ [?A]) \<union> set vs \<and> (?seg (SC y) = seg (SC y) \<or> tr_unsynched s y) \<and> (?seg (SR y) = seg (SR y) \<or> \<not> (ff_is_call_child g \<or> y = the_root))"
      if y: "y \<notin> {c, p}" "tr_frame s y = Some g" "tr_pc s y \<noteq> F_unlinked" for y g
      using place_in [OF ok y(2,3)] y(1) by (auto simp: ord)
    show "strand_ok t ((us @ [?A]) @ [SC c, SM c, SR c, SM p] @ vs) ?seg y" if y: "y \<in> {c, p}" for y
    proof -
      have o: "SC c \<notin> set ord" "SM c \<notin> set ord" "SR c \<notin> set ord" using out by fastforce+
      have segus: "segments ?seg (us @ [?A]) = segments seg (us @ [?A])" using o d by (intro segments_cong) (auto simp: ord)
      have n: "SM p \<notin> set (us @ [?A])" "SM p \<notin> set (us @ [?A, SC c, SM c, SR c])" "SM c \<notin> set (us @ [?A, SC c])"
        using d o cp by (auto simp: ord)
      have old: "upto_place ord seg (SM p) = segments seg (us @ [?A]) @ X @ Y" using upto_place_eq [OF n(1), of vs seg] seg(1) by (simp add: ord)
      have newp: "upto_place ((us @ [?A]) @ [SC c, SM c, SR c, SM p] @ vs) ?seg (SM p) = segments seg (us @ [?A]) @ X @ Y"
        using upto_place_eq [OF n(2), of vs ?seg] segus cp by simp
      have newc: "upto_place ((us @ [?A]) @ [SC c, SM c, SR c, SM p] @ vs) ?seg (SM c) = segments seg (us @ [?A]) @ X"
        using upto_place_eq [OF n(3), of "SR c # SM p # vs" ?seg] segus cp by simp
      note P = strand_okD [OF tree_invD(3) [OF inv] p pU(1), unfolded old]
      show ?thesis
      proof (cases "y = c")
        case True
        have "place_ok r False k call (segments seg (us @ [?A]) @ X) [] X []" for call using pc seg(2,3) by (elim disjE) (simp_all add: place_ok_def)
        then show ?thesis unfolding True using cp by (intro strand_okI) (simp add: t newc [simplified])
      next
        case False
        then have y: "y = p" using y by simp
        have "place_ok q (tr_unsynched s p) (tr_cur s p) (ff_is_call_child pf \<or> p = the_root) (segments seg (us @ [?A]) @ X @ Y) (seg (SC p)) Y (seg (SR p))"
          using P pc seg(1) by (elim disjE) (simp_all add: place_ok_def)
        moreover have "ff_is_call_child g = ff_is_call_child pf" if "tr_frame t p = Some g" for g using call [of p] cp p that by simp
        ultimately show ?thesis unfolding y using cp by (intro strand_okI) (simp add: t newp [simplified])
      qed
    qed
    show "?seg pl = seg pl" if "pl \<in> set (us @ [?A]) \<union> set vs" for pl
    proof -
      have "owner pl \<noteq> c" "pl \<noteq> SM p" using that d out [of pl] by (auto simp: ord)
      then show ?thesis by auto
    qed
    show "segments ?seg [SC c, SM c, SR c, SM p] = segments seg [SM p]" using seg(1) cp by simp
  qed (simp_all only: t)
  moreover have "?seg (SM c) = X" using cp by simp
  ultimately show ?thesis by blast
qed

subsection \<open>The theft\<close>

text \<open>The counter and the control of one frame change.\<close>

lemma recount_step:
  assumes inv: "tree_inv mrg s ord seg" and x: "tr_frame s x = Some ff" "tr_pc s x \<noteq> F_unlinked"
    and pc: "tr_pc s x = F_run \<and> q = F_loot \<and> b = tr_unsynched s x \<or> tr_pc s x = F_loot \<and> q = F_loot \<and> b \<or>
      tr_pc s x = F_loot \<and> q = F_next \<and> b \<and> tr_unsynched s x \<and> seg (SM x) \<noteq> []"
    and t: "t = s\<lparr>tr_frame := (tr_frame s)(x \<mapsto> ff\<lparr>ff_join_counter := ff_join_counter ff + own q - own (tr_pc s x)\<rparr>),
      tr_pc := (tr_pc s)(x := q), tr_unsynched := (tr_unsynched s)(x := b)\<rparr>"
  shows "tree_inv mrg t ord seg"
proof -
  note ok = tree_invD(1) [OF inv]
  have fields: "tr_frame t = (tr_frame s)(x \<mapsto> ff\<lparr>ff_join_counter := ff_join_counter ff + own q - own (tr_pc s x)\<rparr>)"
    "tr_pc t = (tr_pc s)(x := q)" "tr_unsynched t = (tr_unsynched s)(x := b)" "tr_map t = tr_map s" "tr_cur t = tr_cur s"
    "tr_strands t = tr_strands s" "tr_upd t = tr_upd s" by (simp_all add: t)
  show ?thesis
  proof (rule tree_inv_goto [OF inv x, where q = q and b = b])
    show "tree_ok t ord"
    proof (rule tree_ok_local [OF ok x(1), where q = q and b = b and v = "tr_map s x"])
      show "lks (tr_frame t) = lks (tr_frame s)" using x(1) by (simp add: fields lks_same)
      show "ff_join_counter g' = ff_join_counter g + (if y = x then own q - own (tr_pc s x) else 0)"
        if g: "tr_frame s y = Some g" "tr_frame t y = Some g'" for y g g'
        using g(1) g(2) [unfolded fields] x(1) by (cases "y = x") auto
      show "\<not> b \<Longrightarrow> \<not> tr_unsynched s x \<or> kids (lks (tr_frame s)) x = {}" using pc by blast
      show "tr_pc s x \<noteq> F_called" "q \<noteq> F_called" "q = F_unlinked \<longleftrightarrow> tr_pc s x = F_unlinked" using pc by auto
      show "returning q \<Longrightarrow> \<not> b \<and> ff_parent ff \<noteq> None \<and> \<not> ff_is_call_child ff" "syncing q \<Longrightarrow> b" "emptied q \<Longrightarrow> tr_map s x = None"
        "q = F_stalled \<Longrightarrow> ff_join_counter ff - own (tr_pc s x) \<noteq> 0" using pc by auto
    qed (simp_all add: fields)
    show "active s x" using pc x by (auto simp: active_def)
    show "q \<noteq> F_unlinked" "held mrg q (tr_map t x) = held mrg (tr_pc s x) (tr_map s x)" using pc by (auto simp: fields)
    show "place_ok q b (tr_cur s x) call pre sc sm sr"
      if "place_ok (tr_pc s x) (tr_unsynched s x) (tr_cur s x) call pre sc sm sr" "sm = seg (SM x)" for call pre sc sm sr
      using that pc by (elim disjE) (simp_all add: place_ok_def)
    show "map_option ff_is_call_child (tr_frame t y) = map_option ff_is_call_child (tr_frame s y)"
      "Option.bind (tr_frame t y) ff_children_reducer_map = Option.bind (tr_frame s y) ff_children_reducer_map"
      "Option.bind (tr_frame t y) ff_right_reducer_map = Option.bind (tr_frame s y) ff_right_reducer_map" for y
      using x(1) by (simp_all add: fields)
  qed (simp_all add: fields)
qed

text \<open>What unrolling the call stack keeps: the frame at its end is the loot.\<close>

definition loot_ok :: "('m \<Rightarrow> 'm \<Rightarrow> 'm) \<Rightarrow> 'm spawn_tree \<Rightarrow> nat \<Rightarrow> bool" where
  "loot_ok mrg s a \<longleftrightarrow> (\<exists>ord seg. tree_inv mrg s ord seg \<and> tr_frame s a \<noteq> None \<and> tr_pc s a = F_loot \<and> seg (SM a) \<noteq> [])"

lemma loot_okI: "tree_inv mrg s ord seg \<Longrightarrow> tr_frame s a = Some ff \<Longrightarrow> tr_pc s a = F_loot \<Longrightarrow> seg (SM a) \<noteq> [] \<Longrightarrow> loot_ok mrg s a"
  unfolding loot_ok_def by blast

lemma promote_call_step:
  assumes ok: "loot_ok mrg s a" and c: "tr_frame s c = None" and assoc: "assoc_merge mrg"
  shows "\<exists>s'. promote_call a c s = Some s' \<and> loot_ok mrg s' c \<and> (\<forall>y. y \<noteq> c \<longrightarrow> tr_frame s y = None \<longrightarrow> tr_frame s' y = None) \<and>
    tr_pc s' = (tr_pc s)(a := F_called, c := F_loot)"
proof -
  obtain ord seg ff where inv: "tree_inv mrg s ord seg" and a: "tr_frame s a = Some ff" "tr_pc s a = F_loot" "seg (SM a) \<noteq> []"
    using ok unfolding loot_ok_def by blast
  note tok = tree_invD(1) [OF inv]
  have aU: "tr_pc s a \<noteq> F_unlinked" using a(2) by simp
  have child: "\<exists>lf. tr_frame s l = Some lf \<and> l \<noteq> a" if "ff_rightmost_child ff = Some l" for l by (rule last_allocated [OF tok a(1) aU that])
  let ?h = "with_child a True c (tr_frame s)"
  let ?s = "goto c F_loot (goto a F_called (s\<lparr>tr_frame := ?h, tr_map := (tr_map s)(c := tr_map s a, a := None),
       tr_unsynched := (tr_unsynched s)(c := False), tr_cur := (tr_cur s)(c := tr_cur s a)\<rparr>))"
  have "make_child a True c (tr_frame s) = Some ?h" by (rule make_child_eq [OF c a(1) child])
  then have eq: "promote_call a c s = Some ?s" by (simp add: promote_call_def frames_do_def)
  have "place_ok (tr_pc s a) (tr_unsynched s a) (tr_cur s a) (ff_is_call_child ff \<or> a = the_root) (upto_place ord seg (SM a)) (seg (SC a)) (seg (SM a)) (seg (SR a))"
    by (rule strand_okD [OF tree_invD(3) [OF inv] a(1) aU])
  then have last: "last (seg (SM a)) = tr_cur s a" using a(2,3) by (simp add: place_ok_def upto_place_def)
  have acta: "active s a" using a by (simp add: active_def)
  have ca: "c \<noteq> a" using a(1) c by auto
  have hc: "?h c = Some (new_frame True a (ff_rightmost_child ff))" using a(1) by (simp add: with_child_def)
  have "\<exists>ord' seg'. tree_inv mrg ?s ord' seg' \<and> seg' (SM c) = seg (SM a)"
  proof (rule add_child_step [OF inv assoc a(1) c, where b = True and q = F_called and r = F_loot and Y = "[]" and k = "tr_cur s a"])
    show "tr_cur s y \<noteq> tr_cur s a" if "active s y" "True \<Longrightarrow> y \<noteq> a" for y using tree_invD(6) [OF inv that(1) acta] that(2) by blast
    have "(new_frame True a (ff_rightmost_child ff))\<lparr>ff_join_counter := own F_loot\<rparr> = new_frame True a (ff_rightmost_child ff)"
      by (simp add: new_frame_def)
    then have e: "?h(c \<mapsto> (new_frame True a (ff_rightmost_child ff))\<lparr>ff_join_counter := own F_loot\<rparr>) = ?h" using hc by (metis fun_upd_triv)
    show "tr_frame ?s = (with_child a True c (tr_frame s))(c \<mapsto> (new_frame True a (ff_rightmost_child ff))\<lparr>ff_join_counter := own F_loot\<rparr>)"
      unfolding e by (simp add: goto_def)
  qed (use a last in \<open>simp_all add: goto_def\<close>)
  then obtain ord' seg' where new: "tree_inv mrg ?s ord' seg'" "seg' (SM c) = seg (SM a)" by blast
  have "loot_ok mrg ?s c" by (rule loot_okI [OF new(1)]) (use hc a(3) new(2) in \<open>simp_all add: goto_def\<close>)
  moreover have "tr_frame ?s y = None" if "y \<noteq> c" "tr_frame s y = None" for y
    using that a(1) child [of y] by (auto simp: goto_def with_child_def)
  moreover have "tr_pc ?s = (tr_pc s)(a := F_called, c := F_loot)" by (simp add: goto_def)
  ultimately show ?thesis using eq by blast
qed

lemma unroll_call_stack_step:
  assumes "loot_ok mrg s a" "distinct cs" "\<And>c. c \<in> set cs \<Longrightarrow> tr_frame s c = None" "assoc_merge mrg"
  shows "\<exists>loot s'. unroll_call_stack a cs s = Some (loot, s') \<and> loot_ok mrg s' loot \<and> tr_unsynched s' loot \<and>
    (\<forall>y. y \<notin> set cs \<longrightarrow> tr_frame s y = None \<longrightarrow> tr_frame s' y = None) \<and> (\<forall>y. tr_pc s' y = F_loot \<longrightarrow> y = loot \<or> y \<noteq> a \<and> tr_pc s y = F_loot)"
  using assms
proof (induction cs arbitrary: a s)
  case Nil
  obtain ord seg ff where inv: "tree_inv mrg s ord seg" and a: "tr_frame s a = Some ff" "tr_pc s a = F_loot" "seg (SM a) \<noteq> []"
    using Nil(1) unfolding loot_ok_def by blast
  let ?t = "s\<lparr>tr_unsynched := (tr_unsynched s)(a := True)\<rparr>"
  have "tree_inv mrg ?t ord seg"
    by (rule recount_step [OF inv a(1), where q = F_loot and b = True]) (use a in \<open>simp_all add: fun_upd_idem\<close>)
  then have "loot_ok mrg ?t a" using a unfolding loot_ok_def by auto
  then show ?case by simp
next
  case (Cons c cs)
  obtain s1 where s1: "promote_call a c s = Some s1" "loot_ok mrg s1 c" "\<forall>y. y \<noteq> c \<longrightarrow> tr_frame s y = None \<longrightarrow> tr_frame s1 y = None"
    "tr_pc s1 = (tr_pc s)(a := F_called, c := F_loot)"
    using promote_call_step [OF Cons.prems(1), of c] Cons.prems(3,4) by auto
  have "tr_frame s1 d = None" if "d \<in> set cs" for d using that Cons.prems(2) Cons.prems(3) [of d] s1(3) by (cases "d = c") simp_all
  from Cons.IH [OF s1(2) _ this Cons.prems(4)] Cons.prems(2)
  obtain loot s' where s': "unroll_call_stack c cs s1 = Some (loot, s')" "loot_ok mrg s' loot" "tr_unsynched s' loot"
    "\<forall>y. y \<notin> set cs \<longrightarrow> tr_frame s1 y = None \<longrightarrow> tr_frame s' y = None" "\<forall>y. tr_pc s' y = F_loot \<longrightarrow> y = loot \<or> y \<noteq> c \<and> tr_pc s1 y = F_loot"
    by auto
  have "y = loot \<or> y \<noteq> a \<and> tr_pc s y = F_loot" if "tr_pc s' y = F_loot" for y
  proof -
    have "y = loot \<or> y \<noteq> c \<and> tr_pc s1 y = F_loot" using s'(5) that by blast
    then show ?thesis by (cases "y = a"; cases "y = c") (simp_all add: s1(4))
  qed
  moreover have "unroll_call_stack a (c # cs) s = Some (loot, s')" using s1(1) s'(1) by simp
  moreover have "\<forall>y. y \<notin> set (c # cs) \<longrightarrow> tr_frame s y = None \<longrightarrow> tr_frame s' y = None" using s1(3) s'(4) by simp
  ultimately show ?case using s'(2,3) by blast
qed

text \<open>The victim goes on with the child.\<close>

lemma promote_child_step:
  assumes inv: "tree_inv mrg s ord seg" and l: "tr_frame s l = Some ff" "tr_pc s l = F_next" "tr_unsynched s l" "seg (SM l) \<noteq> []"
    and c: "tr_frame s c = None" and assoc: "assoc_merge mrg"
  shows "\<exists>s' ord' seg'. promote_child l c s = Some s' \<and> tree_inv mrg s' ord' seg' \<and> tr_pc s' = (tr_pc s)(c := F_run)"
proof -
  let ?n = "length (tr_strands s)"
  let ?s1 = "new_strand l s"
  note ok = tree_invD(1) [OF inv]
  have act: "active s l" using l by (simp add: active_def)
  have lU: "tr_pc s l \<noteq> F_unlinked" using l(2) by simp
  have f1: "tr_frame ?s1 = tr_frame s" "tr_pc ?s1 = tr_pc s" "tr_map ?s1 = tr_map s" "tr_unsynched ?s1 = tr_unsynched s"
    "tr_cur ?s1 = (tr_cur s)(l := ?n)" "tr_upd ?s1 = (tr_upd s)(?n := [])" by (simp_all add: new_strand_def Let_def)
  have inv1: "tree_inv mrg ?s1 ord (seg(SM l := seg (SM l) @ [?n]))"
    by (rule new_strand_step [OF inv l(1) act]) (use l in simp_all)
  have "place_ok (tr_pc s l) (tr_unsynched s l) (tr_cur s l) (ff_is_call_child ff \<or> l = the_root) (upto_place ord seg (SM l)) (seg (SC l)) (seg (SM l)) (seg (SR l))"
    by (rule strand_okD [OF tree_invD(3) [OF inv] l(1) lU])
  then have last: "last (seg (SM l)) = tr_cur s l" using l by (simp add: place_ok_def upto_place_def)
  have "SM l \<in> set ord" by (rule place_in [OF ok l(1) lU])
  then have "tr_cur s l \<in> set (tr_strands s)"
    using last l(4) seg_subset [of "SM l" ord seg] values_okD(2) [OF tree_invD(2) [OF inv]] last_in_set [OF l(4)] by auto
  then have old: "tr_cur s l \<noteq> ?n" using values_okD(4) [OF tree_invD(2) [OF inv]] by auto
  have child: "\<exists>lf. tr_frame s k = Some lf \<and> k \<noteq> l" if "ff_rightmost_child ff = Some k" for k by (rule last_allocated [OF ok l(1) lU that])
  let ?h = "with_child l False c (tr_frame s)"
  let ?cf = "(new_frame False l (ff_rightmost_child ff))\<lparr>ff_join_counter := 1\<rparr>"
  have hc: "?h c = Some (new_frame False l (ff_rightmost_child ff))" using l(1) by (simp add: with_child_def)
  define t where "t = ?s1\<lparr>tr_frame := ?h(c \<mapsto> ?cf), tr_map := (tr_map s)(c := tr_map s l, l := None), tr_unsynched := (tr_unsynched s)(c := False),
    tr_cur := (tr_cur ?s1)(c := tr_cur s l), tr_pc := (tr_pc s)(c := F_run)\<rparr>"
  have make: "make_child l False c (tr_frame s) = Some ?h" by (rule make_child_eq [OF c l(1) child])
  have inc: "incjoin c ?h = Some (?h(c \<mapsto> ?cf))" using hc by (simp add: incjoin_def new_frame_def)
  have eq: "promote_child l c s = Some t"
    using make inc by (simp add: promote_child_def frames_do_def f1 goto_def t_def)
  have "\<exists>ord' seg'. tree_inv mrg t ord' seg' \<and> seg' (SM c) = seg (SM l)"
  proof (rule add_child_step [OF inv1 assoc, where p = l and pf = ff and c = c and b = False and q = F_next and r = F_run and Y = "[?n]" and k = "tr_cur s l"])
    show "tr_cur ?s1 y \<noteq> tr_cur s l" if y: "active ?s1 y" for y
    proof (cases "y = l")
      case True
      then show ?thesis using old by (simp add: f1)
    next
      case False
      have "active s y" using y by (simp add: active_def f1)
      then show ?thesis using tree_invD(6) [OF inv _ act, of y] False by (auto simp: f1)
    qed
    show "product mrg (updates ?s1 [?n]) = None" by (simp add: updates_def f1)
    show "tr_pc t = (tr_pc ?s1)(l := F_next, c := F_run)" using l(2) by (simp add: t_def f1 fun_upd_idem)
  qed (use l c last in \<open>simp_all add: t_def f1\<close>)
  then show ?thesis using eq by (auto simp: t_def)
qed

lemma steal_step:
  assumes inv: "tree_inv mrg s ord seg" and en: "enabled (Steal a cs c) s" and assoc: "assoc_merge mrg" and loot: "\<And>y. tr_pc s y \<noteq> F_loot"
  shows "\<exists>s' ord' seg'. detach_for_steal a cs c s = Some s' \<and> tree_inv mrg s' ord' seg' \<and> (\<forall>y. tr_pc s' y \<noteq> F_loot)"
proof -
  obtain ff where a: "tr_frame s a = Some ff" "tr_pc s a = F_run" and cs: "distinct cs" "c \<notin> set cs" "\<And>b. b \<in> set cs \<Longrightarrow> tr_frame s b = None" "tr_frame s c = None"
    using en by auto
  have aU: "tr_pc s a \<noteq> F_unlinked" using a(2) by simp
  have j: "ff_join_counter ff > 0" using tree_okD(3) [OF tree_invD(1) [OF inv] a(1)] a(2) by simp
  let ?s1 = "s\<lparr>tr_frame := (tr_frame s)(a \<mapsto> ff\<lparr>ff_join_counter := ff_join_counter ff - 1\<rparr>), tr_pc := (tr_pc s)(a := F_loot)\<rparr>"
  have leave: "leave_parent a s = Some ?s1" using a j by (simp add: leave_parent_def decjoin_def goto_def)
  have inv1: "tree_inv mrg ?s1 ord seg"
    by (rule recount_step [OF inv a(1) aU, where q = F_loot and b = "tr_unsynched s a"]) (use a in simp_all)
  have "seg (SM a) \<noteq> []" using strand_okD [OF tree_invD(3) [OF inv] a(1) aU] a(2) by (simp add: place_ok_def)
  then have "loot_ok mrg ?s1 a" by (intro loot_okI [OF inv1]) simp_all
  moreover have "tr_frame ?s1 b = None" if "b \<in> set cs" for b using cs(3) [OF that] a(1) by auto
  ultimately obtain l s2 where s2: "unroll_call_stack a cs ?s1 = Some (l, s2)" "loot_ok mrg s2 l" "tr_unsynched s2 l"
    "\<forall>y. y \<notin> set cs \<longrightarrow> tr_frame ?s1 y = None \<longrightarrow> tr_frame s2 y = None" "\<forall>y. tr_pc s2 y = F_loot \<longrightarrow> y = l \<or> y \<noteq> a \<and> tr_pc ?s1 y = F_loot"
    using unroll_call_stack_step [of mrg ?s1 a cs] cs(1) assoc by blast
  obtain ord2 seg2 lf where inv2: "tree_inv mrg s2 ord2 seg2" and l: "tr_frame s2 l = Some lf" "tr_pc s2 l = F_loot" "seg2 (SM l) \<noteq> []"
    using s2(2) unfolding loot_ok_def by blast
  have lU: "tr_pc s2 l \<noteq> F_unlinked" using l(2) by simp
  let ?s3 = "s2\<lparr>tr_frame := (tr_frame s2)(l \<mapsto> lf\<lparr>ff_join_counter := ff_join_counter lf + 1\<rparr>), tr_pc := (tr_pc s2)(l := F_next)\<rparr>"
  have push: "push_next_frame l s2 = Some ?s3" using l(1) by (simp add: push_next_frame_def frames_do_def incjoin_def goto_def)
  have inv3: "tree_inv mrg ?s3 ord2 seg2"
    by (rule recount_step [OF inv2 l(1) lU, where q = F_next and b = True]) (use l s2(3) in \<open>simp_all add: fun_upd_idem\<close>)
  have "c \<noteq> a" using cs(4) a(1) by auto
  then have "tr_frame s2 c = None" using s2(4) cs(2,4) by simp
  then have c3: "tr_frame ?s3 c = None" using l(1) by auto
  have l3: "tr_frame ?s3 l = Some (lf\<lparr>ff_join_counter := ff_join_counter lf + 1\<rparr>)" "tr_pc ?s3 l = F_next" "tr_unsynched ?s3 l"
    using s2(3) by simp_all
  obtain s' ord' seg' where s': "promote_child l c ?s3 = Some s'" "tree_inv mrg s' ord' seg'" "tr_pc s' = (tr_pc ?s3)(c := F_run)"
    using promote_child_step [OF inv3 l3 l(3) c3 assoc] by blast
  have "tr_pc s2 y \<noteq> F_loot" if "y \<noteq> l" for y
  proof
    assume "tr_pc s2 y = F_loot"
    then have "y \<noteq> a" "tr_pc ?s1 y = F_loot" using s2(5) that by blast+
    then show False using loot [of y] by simp
  qed
  then have "tr_pc s' y \<noteq> F_loot" for y unfolding s'(3) by (cases "y = l"; cases "y = c") simp_all
  moreover have "detach_for_steal a cs c s = Some s'" using leave s2(1) push s'(1) by (simp add: detach_for_steal_def)
  ultimately show ?thesis using s'(2) by blast
qed

end
