(* ===== verification/Spawn_Reach.thy ===== *)
theory Spawn_Reach
  imports Spawn_Steal
begin

text \<open>Every step of every execution keeps the invariant; what it says of the reachable states.\<close>

subsection \<open>All steps\<close>

lemma tree_inv_init: "tree_inv mrg tr_init [SC the_root, SM the_root, SR the_root] (\<lambda>pl. if pl = SM the_root then [0] else [])"
proof -
  let ?seg = "\<lambda>pl. if pl = SM the_root then [0 :: nat] else []"
  have L: "lks (tr_frame tr_init) = [the_root \<mapsto> \<lparr>lk_call = False, lk_parent = None, lk_left = None, lk_right = None, lk_last = None\<rparr>]"
    by (auto simp: lks_def tr_init_def make_full_frame_def links_of_def)
  have U: "unlinked tr_init = {}" by (simp add: unlinked_def tr_init_def)
  have kids: "kids [the_root \<mapsto> \<lparr>lk_call = False, lk_parent = None, lk_left = None, lk_right = None, lk_last = None\<rparr>] x = {}" for x
    by (auto simp: kids_def)
  have "tree_ok tr_init [SC the_root, SM the_root, SR the_root]"
    unfolding tree_ok_def L U using links_init by (auto simp: tr_init_def make_full_frame_def kids frame_ok_def)
  moreover have "values_ok mrg tr_init [SC the_root, SM the_root, SR the_root] ?seg"
    by (auto simp: values_ok_def tr_init_def make_full_frame_def updates_def)
  moreover have "strand_ok tr_init [SC the_root, SM the_root, SR the_root] ?seg x" for x
    by (auto simp: strand_ok_def tr_init_def place_ok_def upto_place_def)
  moreover have "strands_apart tr_init" "tidy tr_init" by (auto simp: strands_apart_def active_def tr_init_def tidy_def)
  ultimately show ?thesis unfolding tree_inv_def by blast
qed

definition tree_state :: "('m \<Rightarrow> 'm \<Rightarrow> 'm) \<Rightarrow> 'm spawn_tree \<Rightarrow> bool" where
  "tree_state mrg s \<longleftrightarrow> (\<exists>ord seg. tree_inv mrg s ord seg) \<and> (\<forall>y. tr_pc s y \<noteq> F_loot)"

text \<open>Outside of a theft no frame is left in the hands of a thief.\<close>

lemma no_loot_turn: "spawn_return_turn a q s = Some s' \<Longrightarrow> tr_pc s' y = F_loot \<Longrightarrow> tr_pc s y = F_loot"
  by (auto simp: spawn_return_turn_def frames_do_def goto_def split: bind_splits if_splits option.splits prod.splits)

lemma no_loot_push: "push_next_frame a s = Some s' \<Longrightarrow> tr_pc s' y = F_loot \<Longrightarrow> tr_pc s y = F_loot"
  by (auto simp: push_next_frame_def frames_do_def goto_def split: bind_splits if_splits)

lemma no_loot_good: "provably_good_steal a s = Some s' \<Longrightarrow> tr_pc s' y = F_loot \<Longrightarrow> tr_pc s y = F_loot"
  by (auto simp: provably_good_steal_def finish_provably_good_steal_def split: bind_splits if_splits prod.splits dest!: no_loot_push [where y = y])

lemma no_loot_step:
  assumes step: "tstep mrg a s = Some s'" and loot: "\<And>y. tr_pc s y \<noteq> F_loot" and a: "\<And>x cs c. a \<noteq> Steal x cs c"
  shows "tr_pc s' y \<noteq> F_loot"
proof (cases a)
  case (Update x v)
  then show ?thesis using step loot by (auto simp: bind_Some_iff update_reducer_def)
next
  case (Steal x cs c)
  then show ?thesis using a by simp
next
  case (Setup x)
  then show ?thesis using step loot [of y] by (auto simp: bind_Some_iff setup_for_execution_def new_strand_def Let_def goto_def split: if_splits)
next
  case (Spawn_return x)
  then show ?thesis using step loot [of y]
    by (auto simp: bind_Some_iff spawn_return_start_def frames_do_def goto_def split: if_splits option.splits prod.splits dest!: no_loot_turn [where y = y])
next
  case (Return_merge x)
  then show ?thesis using step loot [of y] by (auto simp: bind_Some_iff spawn_return_merge_def goto_def split: if_splits fpc.splits)
next
  case (Return_again x)
  then show ?thesis using step loot [of y] by (auto simp: bind_Some_iff spawn_return_again_def split: dest!: no_loot_turn [where y = y])
next
  case (Return_done x)
  then show ?thesis using step loot [of y]
    by (auto simp: bind_Some_iff do_return_from_spawn_def frames_do_def split: if_splits prod.splits dest!: no_loot_good [where y = y])
next
  case (Call_return x)
  then show ?thesis using step loot [of y]
    by (auto simp: bind_Some_iff cilkrts_return_def frames_do_def split: if_splits prod.splits dest!: no_loot_push [where y = y])
next
  case (Sync x)
  then show ?thesis using step loot [of y] by (auto simp: bind_Some_iff sync_start_def goto_def split: if_splits)
next
  case (Sync_reduce x)
  then show ?thesis using step loot [of y] by (auto simp: bind_Some_iff sync_reduce_def goto_def split: if_splits fpc.splits option.splits prod.splits)
next
  case (Sync_merge x)
  then show ?thesis using step loot [of y] by (auto simp: bind_Some_iff sync_merge_def goto_def split: if_splits fpc.splits)
next
  case (Sync_done x)
  then show ?thesis using step loot [of y] no_loot_good [of x "goto x F_stalled s" s' y]
    by (auto simp: bind_Some_iff do_sync_def goto_def split: if_splits)
qed

text \<open>An enabled step fails no assertion and keeps the invariant.\<close>

lemma tree_step:
  assumes st: "tree_state mrg s" and en: "enabled a s" and assoc: "assoc_merge mrg"
  shows "\<exists>s'. tstep mrg a s = Some s' \<and> tree_state mrg s'"
proof -
  obtain ord seg where inv: "tree_inv mrg s ord seg" and loot: "\<And>y. tr_pc s y \<noteq> F_loot" using st by (auto simp: tree_state_def)
  show ?thesis
  proof (cases "\<exists>x cs c. a = Steal x cs c")
    case True
    then show ?thesis using steal_step [OF inv _ assoc loot] en by (auto simp: tree_state_def)
  next
    case False
    have "\<exists>s' ord' seg'. tstep mrg a s = Some s' \<and> tree_inv mrg s' ord' seg'"
    proof (cases a)
      case (Update x v)
      then show ?thesis using update_step [OF inv _ assoc, of x v] en by auto
    next
      case (Steal x cs c)
      then show ?thesis using False by simp
    next
      case (Setup x)
      then show ?thesis using setup_step [OF inv _ assoc, of x] en by auto
    next
      case (Spawn_return x)
      then show ?thesis using spawn_return_step [OF inv _ assoc, of x] en by auto
    next
      case (Return_merge x)
      then obtain ff l m r where "tr_frame s x = Some ff" "tr_pc s x = F_merge l m r" using en by (auto split: fpc.splits)
      then show ?thesis using return_merge_step [OF inv] Return_merge by fastforce
    next
      case (Return_again x)
      then show ?thesis using return_again_step [OF inv _ assoc, of x] en by auto
    next
      case (Return_done x)
      then show ?thesis using return_done_step [OF inv _ loot, of x] en by auto
    next
      case (Call_return x)
      then show ?thesis using call_return_step [OF inv, of x] en by auto
    next
      case (Sync x)
      then show ?thesis using sync_start_step [OF inv _ assoc, of x] en by auto
    next
      case (Sync_reduce x)
      then obtain ff w where "tr_frame s x = Some ff" "tr_pc s x = F_sync w" using en by (auto split: fpc.splits)
      then show ?thesis using sync_reduce_step [OF inv _ _ assoc] Sync_reduce by fastforce
    next
      case (Sync_merge x)
      then obtain ff l m where "tr_frame s x = Some ff" "tr_pc s x = F_sync_merge l m" using en by (auto split: fpc.splits)
      then show ?thesis using sync_merge_step [OF inv] Sync_merge by fastforce
    next
      case (Sync_done x)
      then show ?thesis using sync_done_step [OF inv, of x] en by auto
    qed
    then show ?thesis using no_loot_step [OF _ loot] False unfolding tree_state_def by blast
  qed
qed

lemma tree_state_reach: "treach mrg s \<Longrightarrow> assoc_merge mrg \<Longrightarrow> tree_state mrg s"
proof (induction rule: treach.induct)
  case start
  show ?case using tree_inv_init [of mrg] unfolding tree_state_def by (auto simp: tr_init_def)
next
  case (step s a s')
  then show ?case using tree_step [of mrg s a] by fastforce
qed

end
