(* ===== verification/Spawn_Result.thy ===== *)
theory Spawn_Result
  imports Spawn_Reach
begin

text \<open>What the invariant says: the values of the reducer maps, the shape of the tree, and that the runtime never gets stuck.\<close>

subsection \<open>Values\<close>

lemma running_value:
  assumes inv: "tree_inv mrg s ord seg" and x: "tr_frame s x = Some ff" "tr_pc s x = F_run"
  shows "\<exists>us ids vs. tr_strands s = us @ ids @ vs \<and> ids \<noteq> [] \<and> last ids = tr_cur s x \<and> tr_map s x = product mrg (updates s ids)"
proof -
  have xU: "tr_pc s x \<noteq> F_unlinked" using x(2) by simp
  have "SM x \<in> set ord" by (rule place_in [OF tree_invD(1) [OF inv] x(1) xU])
  then obtain us vs where ord: "ord = us @ SM x # vs" using split_list by metis
  have "seg (SM x) \<noteq> []" "last (upto_place ord seg (SM x)) = tr_cur s x"
    using strand_okD [OF tree_invD(3) [OF inv] x(1) xU] x(2) by (simp_all add: place_ok_def)
  then have p: "seg (SM x) \<noteq> []" "last (seg (SM x)) = tr_cur s x" by (simp_all add: upto_place_def)
  have "tr_strands s = segments seg us @ seg (SM x) @ segments seg vs" using values_okD(2) [OF tree_invD(2) [OF inv]] by (simp add: ord)
  moreover have "tr_map s x = product mrg (updates s (seg (SM x)))" using node_values(2) [OF inv x(1) xU] x(2) by simp
  ultimately show ?thesis using p by blast
qed

lemma root_value:
  assumes inv: "tree_inv mrg s ord seg" and r: "tr_pc s the_root = F_run" "\<not> tr_unsynched s the_root"
  shows "tr_map s the_root = product mrg (updates s (tr_strands s))"
proof -
  note ok = tree_invD(1) [OF inv]
  note links = tree_invD(4) [OF inv]
  obtain ff where x: "tr_frame s the_root = Some ff" using links_okD(2) [OF links] unfolding lks_None by blast
  have xU: "tr_pc s the_root \<noteq> F_unlinked" "tr_pc s the_root \<noteq> F_called" using r(1) by simp_all
  have last: "ff_rightmost_child ff = None" by (rule no_last [OF ok x xU r(2)])
  note n = tree_node [OF ok x xU(1)]
  note d = tree_invD(5) [OF inv]
  obtain zs where zs: "ord = SC the_root # zs @ [SR the_root]" using links_okD(4) [OF links] by blast
  have "\<exists>vs. zs @ [SR the_root] = SM the_root # vs"
    using adj_next [of "[]" "SC the_root" "zs @ [SR the_root]" "SM the_root"] node_okD(2) [OF n] last d zs by simp
  then obtain vs where vs: "zs @ [SR the_root] = SM the_root # vs" by blast
  then have "\<exists>ws. vs = SR the_root # ws" using adj_next [of "[SC the_root]" "SM the_root" vs "SR the_root"] node_okD(1) [OF n] d zs by simp
  then obtain ws where ws: "vs = SR the_root # ws" by blast
  have "zs @ [SR the_root] = [SM the_root] @ SR the_root # ws" using vs ws by simp
  then have "ws = []" using d zs distinct_split_unique [of zs "SR the_root" "[]" "[SM the_root]" ws] by simp
  then have ord: "ord = [SC the_root, SM the_root, SR the_root]" using zs vs ws by simp
  have "seg (SC the_root) = []" "seg (SR the_root) = []"
    using strand_okD [OF tree_invD(3) [OF inv] x xU(1)] r by (simp_all add: place_ok_def)
  then have "seg (SM the_root) = tr_strands s" using values_okD(2) [OF tree_invD(2) [OF inv]] by (simp add: ord)
  then show ?thesis using node_values(2) [OF inv x xU(1)] r(1) by simp
qed

subsection \<open>The shape of the tree\<close>

lemma tree_shape:
  assumes inv: "tree_inv mrg s ord seg" and x: "tr_frame s x = Some ff"
  shows "ff_join_counter ff = own (tr_pc s x) + int (card {c. \<exists>cf. tr_frame s c = Some cf \<and> ff_parent cf = Some x}) \<and>
    (tr_pc s x = F_stalled \<longrightarrow> (\<exists>c cf. tr_frame s c = Some cf \<and> ff_parent cf = Some x)) \<and>
    (\<not> tr_unsynched s x \<longrightarrow> tr_pc s x \<noteq> F_called \<longrightarrow> (\<forall>c cf. tr_frame s c = Some cf \<longrightarrow> ff_parent cf \<noteq> Some x))"
proof -
  note ok = tree_invD(1) [OF inv]
  have k: "kids (lks (tr_frame s)) x = {c. \<exists>cf. tr_frame s c = Some cf \<and> ff_parent cf = Some x}"
    by (rule set_eqI) (auto simp: kids_def lks_def)
  note j = tree_okD(3) [OF ok x]
  have "kids (lks (tr_frame s)) x \<noteq> {}" if st: "tr_pc s x = F_stalled"
  proof
    assume "kids (lks (tr_frame s)) x = {}"
    then show False using j tree_okD(4) [OF ok x st] st by simp
  qed
  moreover have "kids (lks (tr_frame s)) x = {}" if "\<not> tr_unsynched s x" "tr_pc s x \<noteq> F_called" by (rule no_kids [OF ok that(2,1)])
  ultimately show ?thesis using j unfolding k by blast
qed

subsection \<open>Progress\<close>

fun runtime_action :: "'m action \<Rightarrow> bool" where
  "runtime_action (Update a x) = False" | "runtime_action (Steal a call_stack c) = False" | "runtime_action _ = True"

lemma linked_kid_last:
  assumes ok: "links_ok L U ord" and c: "ord = us @ SR c # vs" "L c = Some ck" "c \<notin> U" "lk_parent ck = Some x"
  shows "\<exists>xk. L x = Some xk \<and> lk_last xk \<noteq> None"
  using c
proof (induction "length vs" arbitrary: us vs c ck rule: less_induct)
  case less
  show ?case
  proof (cases "lk_right ck")
    case None
    obtain pk where "L x = Some pk" "lk_last pk = Some c" by (rule last_when_no_right [OF ok less.prems(2-4) None])
    then show ?thesis by auto
  next
    case (Some r)
    obtain rk where r: "L r = Some rk" "r \<notin> U" "lk_parent rk = Some x" by (rule left_of_right [OF ok less.prems(2-4) Some])
    note d = links_okD(1) [OF ok]
    have "adj ord (SR c) (SC r)" using node_okD(4) [OF links_okD(8) [OF ok less.prems(2,3)] less.prems(4)] Some by simp
    then have "bef ord (SR c) (SR r)" using bef_trans [OF d adj_bef node_okD(7) [OF links_okD(8) [OF ok r(1,2)]]] by blast
    then have b: "bef (us @ SR c # vs) (SR c) (SR r)" using less.prems(1) by simp
    have n: "SR c \<notin> set us" "SR c \<notin> set vs" using d less.prems(1) by auto
    have "SR r \<in> set vs" using b n by (auto simp: bef_append dest: bef_set)
    then obtain us' vs' where vs: "vs = us' @ SR r # vs'" using split_list by metis
    show ?thesis by (rule less.hyps [of vs' "us @ SR c # us'" r rk]) (use vs less.prems(1) r in simp_all)
  qed
qed

text \<open>Some frame is not suspended: its strand has work for the runtime, or it is the root, back in user code with all children joined.\<close>

lemma runtime_progress:
  assumes inv: "tree_inv mrg s ord seg" and loot: "\<And>y. tr_pc s y \<noteq> F_loot"
  shows "(\<exists>a. runtime_action a \<and> enabled a s) \<or> tr_pc s the_root = F_run \<and> \<not> tr_unsynched s the_root"
proof -
  note ok = tree_invD(1) [OF inv]
  note links = tree_invD(4) [OF inv]
  note d = tree_invD(5) [OF inv]
  obtain rf where "tr_frame s the_root = Some rf" using links_okD(2) [OF links] unfolding lks_None by blast
  moreover from this have "tr_pc s the_root \<noteq> F_unlinked" using links_okD(3) [OF links] by (simp add: unlinked_def)
  ultimately have "SM the_root \<in> set ord" by (rule place_in [OF ok])
  then have "\<exists>pl\<in>set ord. pl = SM (owner pl)" by force
  from split_list_first_prop [OF this] obtain us pl vs where first: "ord = us @ pl # vs" "pl = SM (owner pl)" "\<forall>q\<in>set us. q \<noteq> SM (owner q)"
    by blast
  define x where "x = owner pl"
  have ord: "ord = us @ SM x # vs" and us: "SM y \<notin> set us" for y using first by (auto simp: x_def)
  have "SM x \<in> set ord" by (simp add: ord)
  from links_okD(5) [OF links this] have "tr_frame s x \<noteq> None" "x \<notin> unlinked s" unfolding lks_None by simp_all
  then obtain ff where x: "tr_frame s x = Some ff" "tr_pc s x \<noteq> F_unlinked" by (auto simp: unlinked_def)
  have lx: "lks (tr_frame s) x = Some (links_of ff)" "x \<notin> unlinked s" using x by (simp_all add: lks_def unlinked_def)
  have last: "ff_rightmost_child ff = None"
  proof (rule ccontr)
    assume "ff_rightmost_child ff \<noteq> None"
    then obtain c where c: "lk_last (links_of ff) = Some c" by auto
    then obtain ck where ck: "lks (tr_frame s) c = Some ck" "c \<notin> unlinked s" "c \<noteq> x" by (rule no_right_of_last [OF links lx])
    have "adj ord (SR c) (SM x)" using node_okD(2) [OF links_okD(8) [OF links lx]] c by simp
    then have "bef ord (SM c) (SM x)" using bef_trans [OF d adj_bef [OF node_okD(1) [OF links_okD(8) [OF links ck(1,2)]]] adj_bef] by blast
    moreover have "SM x \<notin> set vs" "SM c \<noteq> SM x" using d ck(3) by (auto simp: ord)
    ultimately show False using us [of c] by (auto simp: ord bef_append dest: bef_set)
  qed
  then have "tr_pc s x \<noteq> F_called" using frame_okD(2) [OF tree_okD(5) [OF ok lx(1)]] by auto
  moreover have "\<exists>a. runtime_action a \<and> enabled a s" if st: "tr_pc s x = F_stalled"
  proof -
    have "ff_join_counter ff \<noteq> 0" by (rule tree_okD(4) [OF ok x(1) st])
    then have "card (kids (lks (tr_frame s)) x) \<noteq> 0" using tree_okD(3) [OF ok x(1)] st by simp
    then have "kids (lks (tr_frame s)) x \<noteq> {}" by auto
    then obtain c ck where c: "lks (tr_frame s) c = Some ck" "lk_parent ck = Some x" by (auto simp: kids_def)
    have "c \<in> unlinked s"
    proof (rule ccontr)
      assume cU: "c \<notin> unlinked s"
      obtain us' vs' where "ord = us' @ SR c # vs'" using split_list [OF adj_memR [OF node_okD(1) [OF links_okD(8) [OF links c(1) cU]]]] by blast
      from linked_kid_last [OF links this c(1) cU c(2)] show False using lx(1) last by auto
    qed
    then have "enabled (Return_done c) s" by (auto simp: unlinked_def)
    then show ?thesis by (intro exI [of _ "Return_done c"]) simp
  qed
  moreover have "(\<exists>a. runtime_action a \<and> enabled a s) \<or> tr_pc s the_root = F_run \<and> \<not> tr_unsynched s the_root" if run: "tr_pc s x = F_run"
  proof (cases "tr_unsynched s x")
    case True
    then show ?thesis using x run by (intro disjI1 exI [of _ "Sync x"]) simp
  next
    case synched: False
    show ?thesis
    proof (cases "ff_parent ff")
      case None
      then have "x = the_root" using links_okD(6) [OF links lx(1)] by simp
      then show ?thesis using run synched by simp
    next
      case (Some p)
      have "enabled (if ff_is_call_child ff then Call_return x else Spawn_return x) s" using x run synched Some by simp
      then show ?thesis by (intro disjI1 exI [of _ "if ff_is_call_child ff then Call_return x else Spawn_return x"]) simp
    qed
  qed
  moreover have "\<exists>a. runtime_action a \<and> enabled a s" if "tr_pc s x = F_next" using x that by (intro exI [of _ "Setup x"]) simp
  moreover have "\<exists>a. runtime_action a \<and> enabled a s" if "tr_pc s x = F_merge l m r" for l m r using x that by (intro exI [of _ "Return_merge x"]) simp
  moreover have "\<exists>a. runtime_action a \<and> enabled a s" if "tr_pc s x = F_relock" using x that by (intro exI [of _ "Return_again x"]) simp
  moreover have "\<exists>a. runtime_action a \<and> enabled a s" if "tr_pc s x = F_sync m" for m using x that by (intro exI [of _ "Sync_reduce x"]) simp
  moreover have "\<exists>a. runtime_action a \<and> enabled a s" if "tr_pc s x = F_sync_merge l m" for l m using x that by (intro exI [of _ "Sync_merge x"]) simp
  moreover have "\<exists>a. runtime_action a \<and> enabled a s" if "tr_pc s x = F_synced" using x that by (intro exI [of _ "Sync_done x"]) simp
  ultimately show ?thesis using loot [of x] x(2) by (cases "tr_pc s x") blast+
qed

end
