(* ===== verification/Spec2Isabelle.thy ===== *)
theory Spec2Isabelle
  imports Pipe_Race Omrd_Batch Frame_Malloc Reducer_Merge Deque_Inv Spawn_Result
begin

text \<open>
  PRacer is a determinacy-race detector for pipelined Cilk programs: a runtime (\<open>batched-piper/runtime\<close>, Intel's Cilk Plus
  with pipelines and batched operations) and a tool (\<open>rdtool\<close>) whose hooks the compiled program calls.  The tool keeps two
  total orders of the stages that have begun, asks them whether two accesses are parallel, and remembers in a shadow memory, for
  each four bytes, the last writer and the left-most and right-most readers.  This development models the data structures of
  the tool, its hooks and its concurrency, and the parts of the runtime below it that can be checked without machine stacks:
  the frame allocator, the reducer maps, the deques, and the tree of full frames.

  How the parts interact.  An access (\<open>instrumentation.cpp\<close>) is cut into slots of the shadow memory (\<open>shadow_mem.h\<close>), each slot
  checks the access against its history (\<open>mem_access.h\<close>, \<open>mem_access.cpp\<close>), which asks two order-maintenance structures
  (\<open>om/\<close>, \<open>omrd.cpp\<close>); the hooks of the pipeline macros (\<open>piper_rd.h\<close>) insert the stages into these; an insertion that finds
  no label makes the worker join a batch that relabels (\<open>omrd.cpp\<close> with the batches of \<open>batcher.c\<close>).  Below, a worker pushes
  continuations on its deque, thieves take them and promote them to full frames (\<open>scheduler.c\<close>, \<open>cilk-abi.c\<close>), and returning
  children merge their reducer maps (\<open>reducer_impl.cpp\<close>).

  \<^bold>\<open>Conventions.\<close>  \<open>Prelude\<close>: pointers are \<open>nat option\<close>, objects live in stores of type \<open>nat \<Rightarrow> 'a option\<close>, machine integers
  are words of their width; \<open>None\<close> as a result is a stop of the process (a failed assertion, \<open>abort\<close>, a read of \<open>NULL\<close> or of
  freed memory), a \<open>NULL\<close> that the code returns is a value.  Loops take fuel where the code follows pointers; the properties say
  that enough fuel gives the result, and how much is enough.  \<open>om_assert\<close> is
  empty in the default build (\<open>TOOL_DEBUG\<close> is 0); those on the state of the tool stop the model too, those on the arguments of
  an access (\<open>Race_Check\<close>) do not.

  \<^bold>\<open>Order maintenance\<close> (\<open>rdtool/src/om\<close>).  \<open>Om_Labels\<close>: the 64-bit labels, \<open>get_new_label\<close>, \<open>label_is_invalid\<close>.  \<open>Blist\<close>: the
  doubly linked bottom lists of \<open>blist.c\<close>, with insertion.  \<open>Blist_Split\<close>: \<open>split\<close> cuts a full list into lists of 64 nodes.
  \<open>Om_Tree\<close>: the tree over the lists and \<open>om_relabel.c\<close>; \<open>Om_Tree_Inv\<close> its invariant (labels are positions in a binary trie of
  depth 64).  \<open>Om\<close>: \<open>om.c\<close>; \<open>Om_Order\<close> and \<open>Om_Update\<close> relate a state to the list of its nodes (\<open>om_rep\<close>), show that
  \<open>om_precedes\<close> compares positions, that \<open>om_insert\<close> inserts after its base or reports a full list, and that relabelling keeps
  the order and makes room.  \<open>Om_X86\<close>: the shift \<open>1 << h\<close> of an \<open>int\<close> is a parameter with a law, met by its meaning on x86-64.
  \<open>Om_Life\<close>: creation, the check of the lists, size, destruction, and a client with its abstract specification, insertion into a list.
  \<open>Om_Demo\<close>: a short run.  Bounds: fewer than \<open>2 ^ 31\<close> nodes; relabelling may be repeated, the loop of one call ends.

  \<^bold>\<open>Detector\<close> (\<open>rdtool\<close>).  \<open>Arrays\<close>: the growing arrays of \<open>stack.h\<close> and \<open>list.cpp\<close>.  \<open>Race_Check\<close>: the access history, over the
  interface (locale) \<open>two_orders\<close> of a client that can ask two orders, and the specification of a race, two accesses with a
  common byte (\<open>racy_bytes\<close>); an access is checked as a whole, without the locks of the block.  The detector is exact for
  accesses of whole slots; what it misses of smaller and misaligned ones are properties of their own.  \<open>Race_Om\<close> interprets the
  locale on \<open>om_precedes\<close>.  \<open>Shadow_Mem\<close>: the two-level table, as functions and as interleaved compare-and-swap steps, and the
  calls of instrumented code.  \<open>Two_D_Order\<close>: why two orders are enough for a two-dimensional dag.  \<open>Pipe_Rd\<close>: the hooks and
  the ring of iterations; \<open>Pipe_Ring\<close>, \<open>Pipe_Dag\<close>, \<open>Pipe_Order\<close>: the ring keeps the last iterations, \<open>getLeftDependency\<close>
  finds the dependencies of the dag, the hooks keep both orders; \<open>Pipe_Race\<close> puts it all together: the detector finds a race
  exactly if the dag leaves two accesses with a common byte unordered.  \<open>Omrd\<close>: insertion with heavy leaves and the relabelling
  batch; \<open>Omrd_Batch\<close>: all interleavings of workers that insert, lock, join a batch, relabel and query, with a relabel id of 64
  bits.  Bounds: addresses below \<open>2 ^ 48\<close>, sizes below \<open>2 ^ 32\<close> (\<open>uint32_t\<close>), fewer than \<open>2 ^ 64\<close> steps during a query, a
  throttling limit of at least 1 and one round of the pipeline.

  \<^bold>\<open>Runtime\<close> (\<open>batched-piper/runtime\<close>).  \<open>Frame_Malloc\<close>: the frame allocator and who owns each block.  \<open>Reducer_Map\<close>, \<open>Reducer_Inv\<close>,
  \<open>Reducer_Ops\<close>, \<open>Reducer_Merge\<close>: the hash maps from reducers to views as finite maps, and the merge of two maps in the serial
  order (fewer than \<open>2 ^ 58\<close> elements).  \<open>Deque\<close>, \<open>Deque_Inv\<close>: the THE protocol between a victim and its thieves, every access
  to a shared variable a step, in a sequentially consistent memory; the invariant says who holds the lock and what became of
  every continuation.  A winning thief also takes the lock of the full frame, which other workers take and release at any time;
  the thieves ahead of a waiting victim take at most 24 steps together.  \<open>Spawn_Tree\<close>: full frames, stealing, returning, the sync and the reductions; \<open>Spawn_Links\<close>,
  \<open>Spawn_Unlink\<close>: the links as the order of the places where reducer maps are kept; \<open>Spawn_Inv\<close>: the invariant of links, join
  counters and control; \<open>Spawn_Values\<close>: every place holds the product of a segment of the strands; \<open>Spawn_Return\<close>, \<open>Spawn_Join\<close>,
  \<open>Spawn_Sync\<close>, \<open>Spawn_Steal\<close>: each step keeps this; \<open>Spawn_Reach\<close>, \<open>Spawn_Result\<close>: so do all executions, and what follows.

  \<^bold>\<open>Properties.\<close>  This theory states them: first the whole detector and the runtime protocols, then the components.  A property
  with hypotheses is followed by a witness, the property applied to a concrete run or state.

  \<^bold>\<open>Not modelled.\<close>  Fibers, context switches, signals and the exception ABI are platform code.  The pipeline scheduler
  (\<open>piper_sched.cpp\<close>) rests on these and on weak memory orders; the detector only needs that stages run in an order legal for the
  dag, which is a hypothesis of its properties.  The scheduling loop picks victims at random; the models let any worker do any
  enabled step.  Weak memory is out of scope: all interleavings are sequentially consistent.  The fork-join variant of the
  detector (\<open>shadow_stack.cpp\<close>, \<open>tsan.cpp\<close>) drives the same order maintenance, shadow memory and race check from other hooks;
  its hooks are not modelled.  Record and replay, pedigrees, statistics, printing and the C++ reducer templates keep no state
  that the modelled parts read.
\<close>

subsection \<open>Concrete runs and states for the examples\<close>

text \<open>\<open>om_count\<close> of the root is the number of nodes.\<close>

theorem om_count_counts:
  assumes "om_rep self h xss" and "length (concat xss) \<le> fuel"
  shows "om_count fuel h (om_root self) = Some (of_nat (length (concat xss)))"
  using assms by (rule om_count_ok)

theorem om_count_counts_witness:
  "\<exists>self h b. demo_run = Some (self, 2, Some b, h) \<and> om_count 2 h (om_root self) = Some 2"
proof -
  obtain self h b where d: "demo_run = Some (self, 2, Some b, h)" "om_x86 self h [[2, b]]" "b \<noteq> 2" using demo_x86 by blast
  then show ?thesis using om_count_counts [of self h "[[2, b]]" 2] by (auto simp: om_x86_def)
qed

lemma ADDR_TO_KEY_112: "ADDR_TO_KEY 112 = 7"
  by (simp add: ADDR_TO_KEY_def LOG_KEY_SIZE_def)

lemma demo_legal: "legal_run (\<lambda>i. [(0, False), (1, True)]) 2 [0, 1, 0, 1] (\<lambda>_. 0)"
  by (simp add: legal_def full_dep_def one_more_def upto_stage_def)

lemma demo_pipeline: "pipeline_ok (\<lambda>i. [(0, False), (1, True)])"
  by (simp add: pipeline_ok_def)

lemma demo_executed: "executed (stages_after [0, 1, 0, 1] (\<lambda>_. 0)) = {(0, 0), (0, 1), (1, 0), (1, 1)}"
proof -
  have "k < (2 :: nat) \<longleftrightarrow> k = 0 \<or> k = 1" for k by linarith
  then show ?thesis by (auto simp: executed_def one_more_def numeral_2_eq_2 less_Suc_eq split: if_splits)
qed

lemma demo_precedes:
  "precedes (full_dep (\<lambda>i. [(0, False), (1, True)])) s t \<Longrightarrow> fst s \<le> fst t \<and> snd s \<le> snd t"
proof (induction rule: tranclp_induct)
  case (base t)
  then show ?case by (cases rule: edge.cases) (auto simp: full_dep_def upto_stage_def less_Suc_eq split: if_splits)
next
  case (step t u)
  have "fst t \<le> fst u \<and> snd t \<le> snd u"
    using step.hyps(2) by (cases rule: edge.cases) (auto simp: full_dep_def upto_stage_def less_Suc_eq split: if_splits)
  with step.IH show ?case by auto
qed

definition one_reducer :: "u64 \<Rightarrow> cilkred_map" where
  "one_reducer view = \<lparr>rm_nelem = 1, rm_nbuckets = 1,
     rm_buckets = [Some \<lparr>bk_nmax = 1, bk_el = [\<lparr>el_key = 8, el_hb = \<lparr>hb_address = 8, hb_view_offset = 0\<rparr>, el_view = view\<rparr>, no_elem]\<rparr>],
     rm_merging = False, rm_is_leftmost = False\<rparr>"

lemma one_reducer_entries: "entries (one_reducer view) = [\<lparr>el_key = 8, el_hb = \<lparr>hb_address = 8, hb_view_offset = 0\<rparr>, el_view = view\<rparr>]"
  by (simp add: one_reducer_def entries_def live_elems_def no_elem_def)

lemma one_reducer_ok: "view \<noteq> 0 \<Longrightarrow> map_ok (one_reducer view)"
proof -
  assume v: "view \<noteq> 0"
  have "hashfun 1 key = 0" for key by (simp add: hashfun_def Let_def)
  then have "bucket_ok 1 0 (rm_buckets (one_reducer view) ! 0)"
    using v by (simp add: one_reducer_def bucket_ok_def zero_tail_def live_elems_def no_elem_def)
  then show ?thesis unfolding map_ok_def one_reducer_entries
    by (simp add: one_reducer_def exI [of _ "0 :: nat"])
qed

lemma one_reducer_elem: "the_elem_of (one_reducer view) key =
    (if key = 8 then Some \<lparr>el_key = 8, el_hb = \<lparr>hb_address = 8, hb_view_offset = 0\<rparr>, el_view = view\<rparr> else None)"
  by (simp add: the_elem_of_def one_reducer_entries)

definition steal_schedule :: "turn list" where
  "steal_schedule = replicate 3 (By_victim Detach) @ replicate 16 (By_thief True 0)"

definition fast_schedule :: "turn list" where
  "fast_schedule = replicate 3 (By_victim Detach) @ replicate 2 (By_victim Undo_detach)"

definition slow_schedule :: "turn list" where
  "slow_schedule = steal_schedule @ replicate 6 (By_victim Undo_detach)"

definition wait_schedule :: "turn list" where
  "wait_schedule = replicate 3 (By_victim Detach) @ replicate 12 (By_thief True 0) @ [By_other 5] @ replicate 4 (By_victim Undo_detach)"

definition spawn_schedule :: "nat list action list" where
  "spawn_schedule = [Update 0 [1], Steal 0 [] 1, Setup 0, Update 1 [2], Update 0 [3], Steal 0 [5] 2, Setup 5, Update 5 [6], Update 2 [4],
     Sync 5, Sync_reduce 5, Sync_done 5, Spawn_return 1, Return_done 1, Spawn_return 2, Return_merge 2, Return_again 2, Return_done 2,
     Setup 5, Call_return 5, Setup 0, Sync 0, Sync_reduce 0, Sync_merge 0, Sync_reduce 0, Sync_done 0, Setup 0]"

definition stalled_schedule :: "nat list action list" where
  "stalled_schedule = take 12 spawn_schedule"

lemma append_assoc_merge: "assoc_merge (@)"
  by (simp add: assoc_merge_def)

subsection \<open>The properties\<close>

text \<open>C1. The whole detector on one pipeline.  The stages of a program are executed in any order that respects its dag and the throttling limit; the hooks put them into the two order-maintenance structures and hand out their nodes.  Then the instrumented accesses of the stages, in any order that respects the dag, all succeed, and a race is found exactly if two accesses with a common byte, not both reads, are by stages of which neither precedes the other in the dag.  The accesses are to whole slots: four, eight or sixteen bytes from a multiple of four on within a block of sixteen bytes.\<close>

theorem pipeline_races_found:
  assumes "pipeline_ok prog" and "1 \<le> L" and "legal_run prog L is (\<lambda>_. 0)"
    and "2 * length is + 3 < 2 ^ 31" and "2 * length is + 5 \<le> fuel"
    and "\<forall>a\<in>set as. sa_stage a \<in> executed (stages_after is (\<lambda>_. 0)) \<and> well_aligned a"
    and "sorted_wrt (\<lambda>a b. \<not> precedes (full_dep prog) (sa_stage b) (sa_stage a)) as"
  shows "\<exists>st0 ns st rs g. cilkPipeWhileBegin (int L) = Some st0 \<and>
    run_stages fuel frame_address prog is (\<lambda>_. 0) st0 = Some (ns, st) \<and>
    detector_run (om_query (english_of st)) (om_query (hebrew_of st)) (map (sa_call (strand_nodes ns)) as) = Some (rs, g) \<and>
    (rs \<noteq> [] \<longleftrightarrow> dag_race prog as)"
  using assms by (rule detector_of_pipeline)

theorem pipeline_races_found_witness:
  "\<exists>st0 ns st rs g. cilkPipeWhileBegin 2 = Some st0 \<and>
    run_stages 13 0 (\<lambda>i. [(0, False), (1, True)]) [0, 1, 0, 1] (\<lambda>_. 0) st0 = Some (ns, st) \<and>
    detector_run (om_query (english_of st)) (om_query (hebrew_of st))
      (map (sa_call (strand_nodes ns))
        [\<lparr>sa_stage = (0, 1), sa_entry = Tsan_write4, sa_addr = 68, sa_rip = 1\<rparr>,
         \<lparr>sa_stage = (1, 0), sa_entry = Tsan_read8, sa_addr = 64, sa_rip = 2\<rparr>]) = Some (rs, g) \<and>
    rs \<noteq> []"
proof -
  let ?a = "\<lparr>sa_stage = (0, 1), sa_entry = Tsan_write4, sa_addr = 68, sa_rip = 1\<rparr> :: stage_access"
  let ?b = "\<lparr>sa_stage = (1, 0), sa_entry = Tsan_read8, sa_addr = 64, sa_rip = 2\<rparr> :: stage_access"
  let ?prog = "\<lambda>i. [(0, False), (1, True)] :: (int \<times> bool) list"
  have in_run: "\<forall>a\<in>set [?a, ?b]. sa_stage a \<in> executed (stages_after [0, 1, 0, 1] (\<lambda>_. 0)) \<and> well_aligned a"
    unfolding demo_executed by (simp add: well_aligned_def whole_slots_def)
  have len: "2 * length [0, 1, 0, 1 :: nat] + 3 < 2 ^ 31" "2 * length [0, 1, 0, 1 :: nat] + 5 \<le> 13" by simp_all
  have un: "\<not> precedes (full_dep ?prog) (0, 1) (1, 0)" "\<not> precedes (full_dep ?prog) (1, 0) (0, 1)"
    using demo_precedes [of "(0, 1)" "(1, 0)"] demo_precedes [of "(1, 0)" "(0, 1)"] by auto
  then have srt: "sorted_wrt (\<lambda>a b. \<not> precedes (full_dep ?prog) (sa_stage b) (sa_stage a)) [?a, ?b]" by simp
  have "68 \<in> bytes_of 68 4 \<inter> bytes_of 64 8" by (simp add: bytes_of_def)
  then have "conflict ?a ?b" by (auto simp: conflict_def)
  then have race: "dag_race ?prog [?a, ?b]"
    unfolding dag_race_def using un by (intro exI [of _ 0] exI [of _ 1]) (simp add: unrelated_def)
  show ?thesis
    using pipeline_races_found [OF demo_pipeline _ demo_legal len in_run srt, of 0] race by simp
qed

text \<open>C2. In every execution of the scheduler, with any number of thieves, the reducer map of a running frame is the reduction, in the serial order of the program, of the updates of consecutive strands that end with its own; and when the root runs with all its children joined, its map is the reduction of all updates of all strands in their serial order. The reduction need only be associative.\<close>

theorem reducers_serial_order:
  assumes "assoc_merge mrg" and "treach mrg s"
  shows "(\<forall>x. tr_frame s x \<noteq> None \<longrightarrow> tr_pc s x = F_run \<longrightarrow>
      (\<exists>us ids vs. tr_strands s = us @ ids @ vs \<and> ids \<noteq> [] \<and> last ids = tr_cur s x \<and> tr_map s x = product mrg (updates s ids))) \<and>
    (tr_pc s the_root = F_run \<longrightarrow> \<not> tr_unsynched s the_root \<longrightarrow> tr_map s the_root = product mrg (updates s (tr_strands s)))"
proof -
  obtain ord seg where inv: "tree_inv mrg s ord seg" using tree_state_reach [OF assms(2,1)] by (auto simp: tree_state_def)
  show ?thesis using running_value [OF inv] root_value [OF inv] by blast
qed

theorem reducers_serial_order_witness:
  "\<exists>s. trun (@) spawn_schedule tr_init = Some s \<and> tr_map s the_root = Some [1, 2, 3, 4, 6] \<and>
    tr_map s the_root = product (@) (updates s (tr_strands s))"
proof -
  have "map_option (\<lambda>s. (tr_pc s the_root, tr_unsynched s the_root, tr_map s the_root)) (trun (@) spawn_schedule tr_init) =
    Some (F_run, False, Some [1, 2, 3, 4, 6])" by code_simp
  then obtain s where s: "trun (@) spawn_schedule tr_init = Some s" "tr_pc s the_root = F_run" "\<not> tr_unsynched s the_root"
    "tr_map s the_root = Some [1, 2, 3, 4, 6]" by auto
  then show ?thesis using reducers_serial_order [OF append_assoc_merge trun_reach [OF s(1) treach.start]] by blast
qed

text \<open>C3. In every interleaving of the steps of a victim and its thieves no assertion of the protocol fails, no continuation is run twice (neither stolen twice, nor resumed by the victim twice, nor both), the thieves take the oldest continuation first, and every continuation pushed has been resumed, has been stolen or is still to be returned to.\<close>

theorem deque_runs_once:
  assumes "dreach ltqsize s"
  shows "vs_pc s \<noteq> V_failed \<and> (\<forall>i. vs_thief s i \<noteq> T_failed) \<and> distinct (vs_resumed s @ vs_loot s) \<and> sorted_wrt (<) (vs_loot s) \<and>
    set (vs_resumed s) \<union> set (vs_stolen s) \<union> set (vs_stack s) = {..<vs_next s}"
  using deque_inv_reach [OF assms] run_once [OF deque_inv_reach [OF assms]] by (simp add: deque_inv_def lock_ok_def ghost_ok_def)

theorem deque_runs_once_witness:
  "\<exists>s. drun steal_schedule (vinit 2) = Some s \<and> vs_loot s = [0] \<and> vs_next s = 1 \<and> distinct (vs_resumed s @ vs_loot s)"
proof -
  have "map_option (\<lambda>s. (vs_loot s, vs_next s)) (drun steal_schedule (vinit 2)) = Some ([0], 1)" by code_simp
  then obtain s where s: "drun steal_schedule (vinit 2) = Some s" "vs_loot s = [0]" "vs_next s = 1" by auto
  then show ?thesis using deque_runs_once [OF drun_reach [OF s(1) dreach.start]] by blast
qed

text \<open>C4. The calls of instrumented code start from a thread that has enabled the checks.  They are by strands with nodes of their own in both order-maintenance structures, are executed in an order that respects these, and access whole slots: four, eight or sixteen bytes from a multiple of four on within a block of sixteen bytes.  All of them succeed, and a race is found exactly if two accesses with a common byte, not both reads, are by strands whose order in the two structures differs.\<close>

theorem detector_exact:
  assumes "strands_ok E H xs ys S"
    and "\<forall>c\<in>set cs. unat (call_addr c) < 2 ^ 48 \<and> whole_slots (call_addr c) (tsan_size (call_entry c)) \<and> (call_down c, call_right c) \<in> S"
    and "in_order (\<lambda>s. place xs (fst s)) (\<lambda>s. place ys (snd s)) (as_history (map call_access cs))"
  shows "\<exists>rs g. detector_run (om_query E) (om_query H) cs = Some (rs, g) \<and>
     (rs \<noteq> [] \<longleftrightarrow> racy_bytes (\<lambda>s. place xs (fst s)) (\<lambda>s. place ys (snd s)) (map call_access cs))"
  using assms by (rule detector_on_om)

theorem detector_exact_witness:
  "\<exists>self h b rs g. demo_run = Some (self, 2, Some b, h) \<and>
     detector_run (om_query (self, h)) (om_query (self, h))
       [\<lparr>call_entry = Tsan_write4, call_addr = 68, call_rip = 1, call_down = Some 2, call_right = Some b\<rparr>,
        \<lparr>call_entry = Tsan_read8, call_addr = 64, call_rip = 2, call_down = Some b, call_right = Some 2\<rparr>] = Some (rs, g) \<and>
     rs \<noteq> []"
proof -
  obtain self h b where d: "demo_run = Some (self, 2, Some b, h)" "om_x86 self h [[2, b]]" "b \<noteq> 2"
    using demo_x86 by blast
  let ?c1 = "\<lparr>call_entry = Tsan_write4, call_addr = 68, call_rip = 1, call_down = Some 2, call_right = Some b\<rparr>"
  let ?c2 = "\<lparr>call_entry = Tsan_read8, call_addr = 64, call_rip = 2, call_down = Some b, call_right = Some 2\<rparr>"
  let ?S = "{(Some 2, Some b), (Some b, Some (2 :: nat))}" and ?xs = "[2, b]"
  let ?E = "\<lambda>s :: ptr \<times> ptr. place ?xs (fst s)" and ?H = "\<lambda>s :: ptr \<times> ptr. place ?xs (snd s)"
  have ok: "strands_ok (self, h) (self, h) ?xs ?xs ?S"
    using d(2,3) by (auto simp: strands_ok_def om_orders_def om_x86_def intro!: exI [of _ "[[2, b]]"])
  have pl: "place ?xs (Some 2) = 0" "place ?xs (Some b) = 1" using d(3) by (simp_all add: place_def)
  have par: "parallel ?E ?H (Some 2, Some b) (Some b, Some 2)" by (simp add: parallel_def pl)
  have pre: "\<forall>c\<in>set [?c1, ?c2]. unat (call_addr c) < 2 ^ 48 \<and> whole_slots (call_addr c) (tsan_size (call_entry c)) \<and>
      (call_down c, call_right c) \<in> ?S"
    by (simp add: whole_slots_def)
  have ord: "in_order ?E ?H (as_history (map call_access [?c1, ?c2]))"
    by (simp add: in_order_def as_history_def call_access_def ac_strand_def prec_def pl)
  have "68 \<in> bytes_of 68 4 \<inter> bytes_of 64 8" by (simp add: bytes_of_def)
  then have "racy_bytes ?E ?H (map call_access [?c1, ?c2])" using par
    unfolding racy_bytes_def by (intro exI [of _ 0] exI [of _ 1]) (auto simp: call_access_def ac_strand_def)
  with detector_exact [OF ok pre ord] d(1) show ?thesis by blast
qed

text \<open>C5. Progress and preservation for the tree of full frames: in every reachable state every enabled step runs through (no assertion fails, no pointer is null), a join counter counts the children and the running strand of its frame, a frame that is stalled at a sync waits for at least one child, a synched frame that is not in a call has none, and some step of the runtime itself is enabled unless the root runs with everything joined.\<close>

theorem spawn_tree_sound:
  assumes "assoc_merge mrg" and "treach mrg s"
  shows "(\<forall>a. enabled a s \<longrightarrow> tstep mrg a s \<noteq> None) \<and>
    (\<forall>x ff. tr_frame s x = Some ff \<longrightarrow>
      ff_join_counter ff = own (tr_pc s x) + int (card {c. \<exists>cf. tr_frame s c = Some cf \<and> ff_parent cf = Some x}) \<and>
      (tr_pc s x = F_stalled \<longrightarrow> (\<exists>c cf. tr_frame s c = Some cf \<and> ff_parent cf = Some x)) \<and>
      (\<not> tr_unsynched s x \<longrightarrow> tr_pc s x \<noteq> F_called \<longrightarrow> (\<forall>c cf. tr_frame s c = Some cf \<longrightarrow> ff_parent cf \<noteq> Some x))) \<and>
    ((\<exists>a. runtime_action a \<and> enabled a s) \<or> tr_pc s the_root = F_run \<and> \<not> tr_unsynched s the_root)"
proof -
  have st: "tree_state mrg s" by (rule tree_state_reach [OF assms(2,1)])
  then obtain ord seg where inv: "tree_inv mrg s ord seg" and loot: "\<And>y. tr_pc s y \<noteq> F_loot" by (auto simp: tree_state_def)
  have "tstep mrg a s \<noteq> None" if "enabled a s" for a using tree_step [OF st that assms(1)] by auto
  then show ?thesis using tree_shape [OF inv] runtime_progress [OF inv loot] by blast
qed

theorem spawn_tree_sound_witness:
  "\<exists>s. trun (@) stalled_schedule tr_init = Some s \<and> tr_pc s 5 = F_stalled \<and> (\<exists>c cf. tr_frame s c = Some cf \<and> ff_parent cf = Some 5)"
proof -
  have "map_option (\<lambda>s. (tr_pc s 5, tr_frame s 5 \<noteq> None)) (trun (@) stalled_schedule tr_init) = Some (F_stalled, True)" by code_simp
  then obtain s ff where s: "trun (@) stalled_schedule tr_init = Some s" "tr_pc s 5 = F_stalled" "tr_frame s 5 = Some ff" by auto
  then show ?thesis using spawn_tree_sound [OF append_assoc_merge trun_reach [OF s(1) treach.start]] by blast
qed

text \<open>C6. The concrete structure refines the abstract order: every insertion and every relabelling of a client either leaves the order alone or adds one fresh node to it.\<close>

theorem om_client_refines_order:
  assumes "client_rep s xs" and "om_step s s'"
  shows "\<exists>ys. client_rep s' ys \<and> order_step xs ys"
  using assms by (rule om_step_simulation)

theorem om_client_refines_order_witness:
  "\<exists>self h b self' h' ys. demo_run = Some (self, 2, Some b, h) \<and>
     om_step ({2, b}, self, h) ({2, b}, self', h') \<and> client_rep ({2, b}, self', h') ys \<and> order_step [2, b] ys"
proof -
  obtain self h b where d: "demo_run = Some (self, 2, Some b, h)" "client_rep ({2, b}, self, h) [2, b]" "b \<noteq> 2"
    using demo_client by blast
  obtain self' h' where s: "om_step ({2, b}, self, h) ({2, b}, self', h')" using demo_relabel [OF d(2,3)] by blast
  from om_client_refines_order [OF d(2) s] s d(1) show ?thesis by blast
qed

text \<open>C7. An answer of \<open>om_precedes\<close> about two nodes that the client holds stays the same, whatever sequence of insertions and relabellings follows.\<close>

theorem om_answers_never_change:
  assumes "client_rep (hs, self, h) xs" and "om_step\<^sup>*\<^sup>* (hs, self, h) (hs', self', h')" and "x \<in> hs" and "y \<in> hs"
  shows "om_precedes self' h' (Some x) (Some y) = om_precedes self h (Some x) (Some y)"
  using assms by (rule om_precedes_stable)

theorem om_answers_never_change_witness:
  "\<exists>self h b self' h'. demo_run = Some (self, 2, Some b, h) \<and>
     om_relabel 2 x86_shl (leaf_addrs (om_root self)) (self, h) = Some (self', h') \<and>
     om_precedes self' h' (Some 2) (Some b) = Some True"
proof -
  obtain self h b where d: "demo_run = Some (self, 2, Some b, h)" "client_rep ({2, b}, self, h) [2, b]" "b \<noteq> 2"
    using demo_client by blast
  obtain self' h' where r: "om_relabel 2 x86_shl (leaf_addrs (om_root self)) (self, h) = Some (self', h')"
    and s: "om_step ({2, b}, self, h) ({2, b}, self', h')"
    using demo_relabel [OF d(2,3)] by blast
  from s have "om_step\<^sup>*\<^sup>* ({2, b}, self, h) ({2, b}, self', h')" by (rule r_into_rtranclp)
  from om_answers_never_change [OF d(2) this, of 2 b] client_precedes [OF d(2), of 2 b]
  have "om_precedes self' h' (Some 2) (Some b) = Some True" by (simp add: before_def)
  with r d(1) show ?thesis by blast
qed

text \<open>C8. On x86-64, relabelling any set of lists of a structure with fewer than \<open>2 ^ 31\<close> nodes succeeds: no assertion fails, the order is kept, after every node of a relabelled list there is a gap of at least \<open>2 ^ 58\<close> labels, and no relabelled list is marked as heavy any more.\<close>

theorem om_relabel_always_succeeds:
  assumes "om_x86 self h xss" and "concat xss \<noteq> []" and "length (concat xss) < 2 ^ 31" and "length (concat xss) \<le> fuel"
    and "distinct heavy" and "set heavy \<subseteq> set (leaf_addrs (om_root self))"
  shows "\<exists>self' h' xss'. om_relabel fuel x86_shl heavy (self, h) = Some (self', h') \<and> om_x86 self' h' xss' \<and>
     concat xss' = concat xss \<and>
     (\<forall>a\<in>set heavy. \<forall>xs. listed self h a xs \<longrightarrow> (\<forall>b\<in>set xs. roomy h' xss' b)) \<and>
     unmarks heavy (self, h) (self', h')"
  using assms by (rule om_relabel_x86)

theorem om_relabel_always_succeeds_witness:
  "\<exists>self h b self' h' xss'. demo_run = Some (self, 2, Some b, h) \<and>
     om_relabel 2 x86_shl (leaf_addrs (om_root self)) (self, h) = Some (self', h') \<and> om_x86 self' h' xss' \<and>
     concat xss' = [2, b]"
proof -
  obtain self h b where d: "demo_run = Some (self, 2, Some b, h)" "om_x86 self h [[2, b]]"
    using demo_x86 by blast
  have l: "distinct (leaf_addrs (om_root self))" using d(2) by (simp add: om_x86_def om_rep_def om_mid_def)
  obtain self' h' xss' where
    "om_relabel 2 x86_shl (leaf_addrs (om_root self)) (self, h) = Some (self', h')" "om_x86 self' h' xss'" "concat xss' = [2, b]"
    using om_relabel_always_succeeds [OF d(2) _ _ _ l subset_refl, of 2] by auto
  with d(1) show ?thesis by blast
qed

text \<open>C9. However the workers interleave, no assertion of the batch code fails: the worker that has won the relabel mutex finds the batch lock free (\<open>cilk_set_next_batch_owner\<close>), when it has all worker locks there is no owner of an earlier batch, and \<open>insert_failed\<close> is clear at the end of \<open>slow_path\<close>.\<close>

theorem batch_assertions_hold:
  assumes "(bstep p)\<^sup>*\<^sup>* (binit r) s" and "fst r = rd_globals_init" and "w < p"
  shows "wpc_of s w \<noteq> Failed"
  using assms breach_not_failed unfolding breach_def by blast

theorem batch_assertions_hold_witness:
  "\<exists>s. (bstep 1)\<^sup>*\<^sup>* (binit full_state) s \<and> wpc_of s 0 = Relabelling Slow \<and> wpc_of s 0 \<noteq> Failed"
proof -
  obtain s where s: "breach 1 full_state s" "wpc_of s 0 = Relabelling Slow" using run_to_relabelling by blast
  have g: "fst full_state = rd_globals_init" by (simp add: full_state_def)
  from batch_assertions_hold [OF s(1) [unfolded breach_def] g, of 0] s show ?thesis by (auto simp: breach_def)
qed

text \<open>C10. An insertion that no other worker disturbs returns after at most one batch: no assertion fails, the new node is fresh and stands right after its base, everything else stays as it is in both orders, and afterwards the list is marked as heavy or there is room after the node.\<close>

theorem insert_needs_one_batch:
  assumes "rd_rep s xs" and "xs e = pre @ b # post"
    and "Suc (length (xs e)) < 2 ^ 31" and "length (xs True) \<le> fuel" and "length (xs False) \<le> fuel"
  shows "\<exists>n s'. omrd_insert 1 fuel e b s = Some (n, s') \<and> n \<notin> set (xs e) \<and> rd_rep s' (xs(e := pre @ b # n # post)) \<and>
     (list_heavy (m_heap (ds_of e s')) n = Some True \<or> is_heavy (fst s') (m_heap (ds_of e s')) n = Some False)"
  using assms by (rule omrd_insert_ok)

theorem insert_needs_one_batch_witness:
  "\<exists>s a n s'. rd_new = Some s \<and> omrd_insert 1 1 True a s = Some (n, s') \<and> n \<noteq> a"
proof -
  obtain s a b where s: "rd_new = Some s" "rd_rep s (\<lambda>e. if e then [a] else [b])" using rd_new_ok by blast
  have l: "(\<lambda>e. if e then [a] else [b]) True = [] @ a # []" by simp
  from insert_needs_one_batch [OF s(2) l, of 1] s(1) show ?thesis by fastforce
qed

text \<open>C11. While a worker relabels, \<open>g_relabel_id\<close> is odd, and every other worker is outside of its critical section and owns no batch.\<close>

theorem relabelling_excludes_inserts:
  assumes "(bstep p)\<^sup>*\<^sup>* (binit r) s" and "fst r = rd_globals_init" and "w < p" and "wpc_of s w = Relabelling k"
  shows "odd (g_relabel_id (fst (rd s))) \<and> (\<forall>v. v < p \<and> v \<noteq> w \<longrightarrow> (\<forall>e. wpc_of s v \<noteq> Section e) \<and> \<not> must_own (wpc_of s v))"
proof -
  have reach: "breach p r s" using assms(1) by (simp add: breach_def)
  have id: "odd (g_relabel_id (fst (rd s)))"
    using breach_odd [OF reach assms(2,3,4)] .
  from breach_relabelling [OF reach assms(2,3,4)] id show ?thesis by blast
qed

theorem relabelling_excludes_inserts_witness:
  "\<exists>s. (bstep 1)\<^sup>*\<^sup>* (binit full_state) s \<and> wpc_of s 0 = Relabelling Slow \<and> odd (g_relabel_id (fst (rd s)))"
proof -
  obtain s where s: "breach 1 full_state s" "wpc_of s 0 = Relabelling Slow" using run_to_relabelling by blast
  have g: "fst full_state = rd_globals_init" by (simp add: full_state_def)
  from relabelling_excludes_inserts [OF s(1) [unfolded breach_def] g _ s(2)] s show ?thesis by (auto simp: breach_def)
qed

text \<open>C12. A query that \<open>QUERY_END\<close> accepts, because the relabel id was even at its start and is the same at its end, ran without relabelling: no worker relabels in any state in between.  The id is a \<open>size_t\<close>, which comes round to the same value after \<open>2 ^ 64\<close> increments; the query takes fewer steps of the workers than that.\<close>

theorem valid_query_undisturbed:
  assumes "(bstep p)\<^sup>*\<^sup>* (binit r) s0" and "fst r = rd_globals_init"
    and "(bstep p ^^ m) s0 s" and "(bstep p ^^ n) s s1" and "m + n < 2 ^ 64"
    and "query_valid (g_relabel_id (fst (rd s0))) (g_relabel_id (fst (rd s1)))" and "w < p"
  shows "\<not> relabelling (wpc_of s w)"
  using query_undisturbed [OF assms(1) [folded breach_def] assms(2-7)] .

theorem valid_query_undisturbed_witness:
  "\<exists>s. (bstep 1 ^^ 7) (binit full_state) s \<and> wpc_of s 0 = Relabel_Begin Slow \<and>
     query_valid (g_relabel_id (fst (rd (binit full_state)))) (g_relabel_id (fst (rd s))) \<and> \<not> relabelling (wpc_of s 0)"
proof -
  obtain s where s: "(bstep 1 ^^ 7) (binit full_state) s" "wpc_of s 0 = Relabel_Begin Slow"
    "fst (rd s) = rd_globals_init\<lparr>g_batch_in_progress := 1\<rparr>" using run_to_begin by blast
  have g: "fst full_state = rd_globals_init" by (simp add: full_state_def)
  have z: "(bstep 1 ^^ 0) s s" by simp
  have v: "query_valid (g_relabel_id (fst (rd (binit full_state)))) (g_relabel_id (fst (rd s)))"
    by (simp add: query_valid_def binit_def g s(3) rd_globals_init_def)
  have "\<not> relabelling (wpc_of s 0)"
    by (rule valid_query_undisturbed [OF rtranclp.rtrancl_refl g s(1) z _ v]) simp_all
  with s v show ?thesis by blast
qed

text \<open>C13. The locks, the batches and the waiting never block each other for good: in every state that the workers reach without an error, if one of them is inside an insertion, then a worker inside an insertion can take a step.\<close>

theorem batches_never_block:
  assumes "(bstep p)\<^sup>*\<^sup>* (binit r) s" and "fst r = rd_globals_init" and "\<forall>v. v < p \<longrightarrow> wpc_of s v \<noteq> Crashed"
    and "w < p" and "wpc_of s w \<noteq> Idle"
  shows "\<exists>v<p. wpc_of s v \<noteq> Idle \<and> (\<exists>s'. wstep p v s s')"
  using assms breach_progress unfolding breach_def can_step_def by blast

theorem batches_never_block_witness:
  "\<exists>s. (bstep 1)\<^sup>*\<^sup>* (binit full_state) s \<and> wpc_of s 0 = Relabelling Slow \<and> (\<exists>v<1. wpc_of s v \<noteq> Idle \<and> (\<exists>s'. wstep 1 v s s'))"
proof -
  obtain s where s: "breach 1 full_state s" "wpc_of s 0 = Relabelling Slow" using run_to_relabelling by blast
  have g: "fst full_state = rd_globals_init" by (simp add: full_state_def)
  have "\<exists>v<1. wpc_of s v \<noteq> Idle \<and> (\<exists>s'. wstep 1 v s s')"
    by (rule batches_never_block [OF s(1) [unfolded breach_def] g, of 0]) (use s(2) in auto)
  then show ?thesis using s by (auto simp: breach_def)
qed

text \<open>C14. After any legal execution of a pipeline program, \<open>isSerial\<close> returns for two executed stages that are still in the ring, and its answer is whether one of them precedes the other in the dag of the program.\<close>

theorem isSerial_is_dag_order:
  assumes "pipeline_ok prog" and "1 \<le> L" and "legal_run prog L is (\<lambda>_. 0)"
    and "2 * length is + 3 < 2 ^ 31" and "2 * length is + 5 \<le> fuel"
    and "k < stages_after is (\<lambda>_. 0) i" and "\<forall>r. 0 < stages_after is (\<lambda>_. 0) r \<longrightarrow> r \<le> i + L"
    and "n < stages_after is (\<lambda>_. 0) j" and "\<forall>r. 0 < stages_after is (\<lambda>_. 0) r \<longrightarrow> r \<le> j + L"
  shows "\<exists>st0 ns st. cilkPipeWhileBegin (int L) = Some st0 \<and>
    run_stages fuel frame_address prog is (\<lambda>_. 0) st0 = Some (ns, st) \<and>
    isSerial (int i + 1) (fst (prog i ! k)) (int j + 1) (fst (prog j ! n)) st =
      Some (precedes (full_dep prog) (i, k) (j, n) \<or> precedes (full_dep prog) (j, n) (i, k))"
  using assms by (rule isSerial_of_pipeline)

theorem isSerial_is_dag_order_witness:
  "\<exists>st0 ns st. cilkPipeWhileBegin 2 = Some st0 \<and>
    run_stages 13 0 (\<lambda>i. [(0, False), (1, True)]) [0, 1, 0, 1] (\<lambda>_. 0) st0 = Some (ns, st) \<and> isSerial 1 1 2 1 st = Some True"
proof -
  let ?prog = "\<lambda>i. [(0, False), (1, True)] :: (int \<times> bool) list"
  have len: "2 * length [0, 1, 0, 1 :: nat] + 3 < 2 ^ 31" "2 * length [0, 1, 0, 1 :: nat] + 5 \<le> 13" by simp_all
  have d: "stages_after [0, 1, 0, 1] (\<lambda>_. 0) = (\<lambda>i. if i = 0 then 2 else if i = 1 then 2 else 0)"
    by (auto simp: one_more_def fun_eq_iff)
  have a: "1 < stages_after [0, 1, 0, 1] (\<lambda>_. 0) 0" "\<forall>r. 0 < stages_after [0, 1, 0, 1] (\<lambda>_. 0) r \<longrightarrow> r \<le> 0 + 2"
    and b: "1 < stages_after [0, 1, 0, 1] (\<lambda>_. 0) 1" "\<forall>r. 0 < stages_after [0, 1, 0, 1] (\<lambda>_. 0) r \<longrightarrow> r \<le> 1 + 2"
    unfolding d by auto
  have "edge (full_dep ?prog) (0, 1) (Suc 0, 1)" by (rule edge.right) (simp add: full_dep_def upto_stage_def)
  then have "precedes (full_dep ?prog) (0, 1) (1, 1)" by auto
  then show ?thesis
    using isSerial_is_dag_order [OF demo_pipeline _ demo_legal len a b, of 0] by simp
qed

text \<open>C15. A sync merges the reducer maps of two strands: every reducer gets the value of the left strand reduced with the value of the right one, in this order, whichever of the two maps survives; a reducer of one map only keeps its value, and in the leftmost map a missing reducer starts with its leftmost view.\<close>

theorem reducer_merge_in_order:
  assumes "mergeable vals l r"
  shows "\<exists>m vals'. merge_reducer_maps f (Some l) (Some r) vals = Some (Some m, vals') \<and> map_ok m \<and> sep vals' (entries m) \<and>
    rm_is_leftmost m = rm_is_leftmost l \<and> (\<forall>k. vof m vals' k = merged_value f l r vals k)"
  using assms by (rule merge_reducer_maps_ok)

theorem reducer_merge_in_order_witness:
  "\<exists>m vals'. merge_reducer_maps (\<lambda>_. (@)) (Some (one_reducer 16)) (Some (one_reducer 24)) ((\<lambda>_. None)(16 \<mapsto> [1 :: nat], 24 \<mapsto> [2])) =
     Some (Some m, vals') \<and> vof m vals' 8 = Some [1, 2]"
proof -
  let ?vals = "(\<lambda>_. None)(16 \<mapsto> [1 :: nat], 24 \<mapsto> [2]) :: nat list store"
  have "mergeable ?vals (one_reducer 16) (one_reducer 24)"
    unfolding mergeable_def one_reducer_entries
    by (intro conjI) (simp_all add: one_reducer_ok sep_def apart_def, simp_all add: one_reducer_def)
  from reducer_merge_in_order [OF this, of "\<lambda>_. (@)"]
  show ?thesis by (auto simp: merged_value_def one_reducer_elem)
qed

text \<open>C16. \<open>om_precedes\<close> compares the positions of two nodes in the order, whether they lie in the same list or in different ones.\<close>

theorem om_precedes_compares_positions:
  assumes "om_rep self h xss" and "k < length (concat xss)" and "k' < length (concat xss)"
  shows "om_precedes self h (Some (concat xss ! k)) (Some (concat xss ! k')) = Some (k < k')"
  using assms by (rule om_precedes_order)

theorem om_precedes_compares_positions_witness:
  "\<exists>self h b. demo_run = Some (self, 2, Some b, h) \<and> om_precedes self h (Some 2) (Some b) = Some True \<and>
     om_precedes self h (Some b) (Some 2) = Some False"
proof -
  obtain self h b where d: "demo_run = Some (self, 2, Some b, h)" "om_rep self h [[2, b]]"
    using demo_x86 by (auto simp: om_x86_def)
  from om_precedes_compares_positions [OF d(2), of 0 1] om_precedes_compares_positions [OF d(2), of 1 0]
  have "om_precedes self h (Some 2) (Some b) = Some True" "om_precedes self h (Some b) (Some 2) = Some False" by simp_all
  with d(1) show ?thesis by blast
qed

text \<open>C17. \<open>om_insert\<close> either finds no free label and leaves the state as it was, or puts a fresh node directly after its base.\<close>

theorem om_insert_after_base:
  assumes "om_rep self h xss" and "concat xss = pre @ b # post"
  shows "om_insert self b h = Some (None, h) \<or>
    (\<exists>n h' xss'. om_insert self b h = Some (Some n, h') \<and> om_rep self h' xss' \<and>
       concat xss' = pre @ b # n # post \<and> nodes h n = None)"
  using assms by (rule om_insert_order)

theorem om_insert_after_base_witness:
  "\<exists>self h b. demo_run = Some (self, 2, Some b, h) \<and>
     (om_insert self b h = Some (None, h) \<or>
      (\<exists>n h' xss'. om_insert self b h = Some (Some n, h') \<and> om_rep self h' xss' \<and> concat xss' = [2] @ b # n # [] \<and> nodes h n = None))"
proof -
  obtain self h b where d: "demo_run = Some (self, 2, Some b, h)" "om_rep self h [[2, b]]"
    using demo_x86 by (auto simp: om_x86_def)
  have "concat [[2, b]] = [2] @ b # []" by simp
  note ins = om_insert_after_base [OF d(2) this]
  show ?thesis by (rule exI [of _ self], rule exI [of _ h], rule exI [of _ b], rule conjI [OF d(1) ins])
qed

text \<open>C18. However the compare-and-swaps of concurrent insertions into the shadow memory interleave, all insertions of one key that return have returned the same value: the one in the slot, which was there before or is the value of one of them.\<close>

theorem shadow_inserts_agree:
  assumes "threads_run arg ((\<lambda>_. Load_Dir), s0) (pcs, s)" and "pcs t = Returned v"
  shows "shadow_map s (fst (arg t)) = Some v \<and> (\<forall>u w. fst (arg u) = fst (arg t) \<longrightarrow> pcs u = Returned w \<longrightarrow> w = v) \<and>
    (shadow_map s0 (fst (arg t)) = Some v \<or> shadow_map s0 (fst (arg t)) = None \<and> (\<exists>u. arg u = (fst (arg t), v)))"
  by (rule conjI [OF threads_agree(1) [OF assms] conjI [OF threads_agree(2,3) [OF assms]]])

theorem shadow_inserts_agree_witness:
  "\<exists>pcs s. threads_run (\<lambda>t. (7, t)) ((\<lambda>_. Load_Dir), shadow_new) (pcs, s) \<and> pcs 3 = Returned 3 \<and> shadow_map s 7 = Some 3"
proof -
  obtain pcs s where r: "threads_run (\<lambda>t. (7, t)) ((\<lambda>_. Load_Dir), shadow_new) (pcs, s)" "pcs 3 = Returned 3"
    using insert_alone [of "\<lambda>t. (7, t)" 3] key_ok_addr [of 112] unfolding fst_conv snd_conv ADDR_TO_KEY_112 by auto
  have "shadow_map s 7 = Some 3" using shadow_inserts_agree [OF r] by simp
  with r show ?thesis by blast
qed

text \<open>C19. Allocating a frame ends, and yields a block of the class of the size that overlaps no block in use, no free block and no memory still in the pool.\<close>

theorem frame_malloc_fresh_block:
  assumes "finite W" and "w \<in> W" and "sz \<le> FRAME_MALLOC_MAX_SIZE" and "fm_inv g W live"
  shows "\<exists>mem b g'. frame_malloc (Some w) sz g = Some (mem, g') \<and> bucket_of_size sz = Some b \<and>
    sz \<le> bucket_to_size b \<and> fm_inv g' W (add_mset (mem, b) live) \<and> worker_step w g g' \<and>
    (\<forall>p\<in>#live. region p \<inter> region (mem, b) = {})"
  using assms by (rule frame_malloc_disjoint)

theorem frame_malloc_fresh_block_witness:
  "\<exists>mem g'. frame_malloc (Some 0) 100 fm_start = Some (mem, g') \<and> fm_inv g' {0} {#(mem, 1)#}"
proof -
  have "bucket_of_size 100 = Some 1" by code_simp
  with frame_malloc_fresh_block [OF _ _ _ fm_start_inv, of 0 100] show ?thesis
    by (auto simp: FRAME_MALLOC_MAX_SIZE_def)
qed

text \<open>C20. Freeing a block in use keeps the ownership invariant of all blocks, also when it moves the surplus of the free list to the pool.\<close>

theorem frame_free_keeps_ownership:
  assumes "finite W" and "w \<in> W" and "bucket_of_size sz = Some b" and "b < FRAME_MALLOC_NBUCKETS"
    and "sz \<le> FRAME_MALLOC_MAX_SIZE" and "fm_inv g W (add_mset (p, b) live)"
  shows "\<exists>g'. frame_free (Some w) p sz g = Some g' \<and> fm_inv g' W live \<and> worker_step w g g'"
  using assms by (rule frame_free_ok)

theorem frame_free_keeps_ownership_witness:
  "\<exists>mem g1 g2. frame_malloc (Some 0) 100 fm_start = Some (mem, g1) \<and> frame_free (Some 0) mem 100 g1 = Some g2 \<and>
     fm_inv g2 {0} {#}"
proof -
  have b: "bucket_of_size 100 = Some 1" by code_simp
  then obtain mem g1 where m: "frame_malloc (Some 0) 100 fm_start = Some (mem, g1)" "fm_inv g1 {0} {#(mem, 1)#}"
    using frame_malloc_ok [OF _ _ _ fm_start_inv, of 0 100] by (auto simp: FRAME_MALLOC_MAX_SIZE_def)
  from frame_free_keeps_ownership [OF _ _ b _ _ m(2), of 0] m(1) show ?thesis
    by (auto simp: FRAME_MALLOC_MAX_SIZE_def FRAME_MALLOC_NBUCKETS_def)
qed

text \<open>C21. A victim that has raised \<open>do_not_steal\<close> waits for its lock for a bounded number of steps: however many thieves and other workers there are and however they are scheduled, at most 24 of their steps are steps of a thief that holds the lock or was about to take it.  At every moment the victim can take the lock, or such a thief can go on, or such a thief waits for the lock of the full frame, which another worker has and can release.\<close>

theorem victim_lock_terminates:
  assumes "dreach ltqsize s" and "vs_pc s = V_spin p" and "wait_run sched s = Some (k, s')"
  shows "k \<le> 24 \<and>
    (victim_step a s' \<noteq> None \<or> (\<exists>i. ahead s' i \<and> (\<forall>go. thief_step go i s' \<noteq> None)) \<or>
     (\<exists>i h j. vs_thief s' i = T_frame_lock h \<and> mx_owner (vs_frame_lock s') = Some (Other j) \<and> other_step j s' \<noteq> None))"
  using victim_waits [OF deque_inv_reach [OF assms(1)] assms(2,3), of a] unfolding someone_moves_def .

theorem victim_lock_terminates_witness:
  "\<exists>s k s'. drun wait_schedule (vinit 2) = Some s \<and> vs_thief s 0 = T_frame_lock 0 \<and> thief_step True 0 s = None \<and>
     wait_run (By_other 5 # replicate 4 (By_thief True 0)) s = Some (k, s') \<and> k = 4 \<and> k \<le> 24 \<and>
     (victim_step Leave s' \<noteq> None \<or> (\<exists>i. ahead s' i \<and> (\<forall>go. thief_step go i s' \<noteq> None)) \<or>
      (\<exists>i h j. vs_thief s' i = T_frame_lock h \<and> mx_owner (vs_frame_lock s') = Some (Other j) \<and> other_step j s' \<noteq> None))"
proof -
  have "map_option (\<lambda>s. (vs_pc s, vs_thief s 0, thief_step True 0 s = None,
      map_option fst (wait_run (By_other 5 # replicate 4 (By_thief True 0)) s))) (drun wait_schedule (vinit 2)) =
    Some (V_spin For_check, T_frame_lock 0, True, Some 4)"
    by code_simp
  then obtain s s' where s: "drun wait_schedule (vinit 2) = Some s" "vs_pc s = V_spin For_check"
    "vs_thief s 0 = T_frame_lock 0" "thief_step True 0 s = None"
    "wait_run (By_other 5 # replicate 4 (By_thief True 0)) s = Some (4, s')"
    by auto
  from victim_lock_terminates [OF drun_reach [OF s(1) dreach.start] s(2,5), of Leave] s show ?thesis by blast
qed

text \<open>C22. A spawned function returns: the fast path, without the lock, is taken only when the parent has not been stolen; on the slow path the test of the THE exception check is true exactly when it has been; and the victim leaves its strand only with an empty deque and with every continuation of the strand in the hands of thieves.\<close>

theorem return_decision_right:
  assumes "dreach ltqsize s"
  shows "(\<forall>t. vs_pc s = V_fenced t \<longrightarrow> \<not> t < de_exc s \<longrightarrow> last (vs_stack s) \<notin> set (vs_stolen s)) \<and>
    (vs_pc s = V_test \<longrightarrow> (\<not> de_head s < de_tail s + 1 \<longleftrightarrow> last (vs_stack s) \<in> set (vs_stolen s))) \<and>
    (vs_pc s = V_stolen \<longrightarrow> de_head s = de_tail s \<and> set (vs_stack s) \<subseteq> set (vs_stolen s))"
  using deque_inv_reach [OF assms] fast_return_ok slow_return_ok strand_done by blast

theorem return_decision_right_witness:
  "(\<exists>s. drun fast_schedule (vinit 2) = Some s \<and> vs_pc s = V_fenced 0 \<and> last (vs_stack s) \<notin> set (vs_stolen s)) \<and>
   (\<exists>s. drun slow_schedule (vinit 2) = Some s \<and> vs_pc s = V_test \<and> last (vs_stack s) \<in> set (vs_stolen s))"
proof -
  have "map_option (\<lambda>s. (vs_pc s, de_exc s)) (drun fast_schedule (vinit 2)) = Some (V_fenced 0, 0)" by code_simp
  then obtain s where s: "drun fast_schedule (vinit 2) = Some s" "vs_pc s = V_fenced 0" "de_exc s = 0" by auto
  then have "last (vs_stack s) \<notin> set (vs_stolen s)" using return_decision_right [OF drun_reach [OF s(1) dreach.start]] by simp
  moreover have "map_option (\<lambda>s. (vs_pc s, de_head s, de_tail s)) (drun slow_schedule (vinit 2)) = Some (V_test, 1, 0)" by code_simp
  then obtain s' where s': "drun slow_schedule (vinit 2) = Some s'" "vs_pc s' = V_test" "de_head s' = 1" "de_tail s' = 0" by auto
  then have "last (vs_stack s') \<in> set (vs_stolen s')" using return_decision_right [OF drun_reach [OF s'(1) dreach.start]] by simp
  ultimately show ?thesis using s s' by blast
qed

text \<open>C23. A batch relabels the heavy lists of both structures without failing: the orders stay, no list is marked afterwards but those of no leaf, and every node of a list that was marked has a gap of at least \<open>2 ^ 58\<close> labels after it.\<close>

theorem batch_makes_room:
  assumes "rd_rep s xs" and "length (xs True) \<le> fuel" and "length (xs False) \<le> fuel"
  shows "\<exists>s'. batch_relabel fuel s = Some s' \<and> rd_rep s' xs \<and>
     (\<forall>b\<in>set (xs e). list_heavy (m_heap (ds_of e s)) b = Some True \<longrightarrow> wide (ds_of e s') b)"
  using assms by (rule batch_rep)

theorem batch_makes_room_witness:
  "\<exists>s a b s'. rd_new = Some s \<and> batch_relabel 1 s = Some s' \<and> rd_rep s' (\<lambda>e. if e then [a] else [b])"
proof -
  obtain s a b where s: "rd_new = Some s" "rd_rep s (\<lambda>e. if e then [a] else [b])" using rd_new_ok by blast
  from batch_makes_room [OF s(2), of 1] s(1) show ?thesis by fastforce
qed

text \<open>C24. The ring of iterations with at least two slots: the slot that \<open>insertStageFrameList\<close> takes for the next iteration is the one that \<open>getStageFrameList\<close> asks for it, and the lists of the \<open>throttleLimit\<close> iterations before it are still found.\<close>

theorem ring_keeps_last_iterations:
  assumes "ring_rep n m it"
  shows "\<exists>index it'. insertStageFrameList (int m + 1) it = Some (index, it') \<and> ring_rep n (Suc m) it' \<and>
    getStageFrameList (int m + 1) it' = Some stage_list_new \<and>
    (\<forall>j. j < m \<longrightarrow> Suc m \<le> j + n \<longrightarrow> getStageFrameList (int j + 1) it' = getStageFrameList (int j + 1) it)"
proof -
  obtain it' where it': "insertStageFrameList (int m + 1) it = Some (int (m mod n), it')" "ring_rep n (Suc m) it'"
    "it_p it' = (it_p it)[m mod n := Some stage_list_new]" using insertStageFrameList_ring [OF assms] by blast
  have n: "m mod n < length (it_p it)" using assms by (auto simp: ring_rep_def)
  have "getStageFrameList (int j + 1) it' = getStageFrameList (int j + 1) it" if j: "j < m" "Suc m \<le> j + n" for j
  proof -
    have "j mod n \<noteq> m mod n" using j by (intro slots_differ [of _ "Suc m"]) auto
    then show ?thesis using getStageFrameList_ring [OF it'(2), of j] getStageFrameList_ring [OF assms, of j] it'(3) by simp
  qed
  moreover have "getStageFrameList (int m + 1) it' = Some stage_list_new"
    using getStageFrameList_ring [OF it'(2), of m] it'(3) n by simp
  ultimately show ?thesis using it'(1,2) by blast
qed

theorem ring_keeps_last_iterations_witness:
  "\<exists>it index it'. iterations_new 1 = Some it \<and> insertStageFrameList 1 it = Some (index, it') \<and>
     getStageFrameList 1 it' = Some stage_list_new"
proof -
  obtain it where "iterations_new 1 = Some it" "ring_rep (nat 1 + 1) 0 it" using iterations_new_ring [of 1] by auto
  then show ?thesis using ring_keeps_last_iterations [of "nat 1 + 1" 0 it] by auto
qed

text \<open>C25. Insertion, with growth of the bucket and rehashing, refines the update of a finite map: it succeeds for a new key below 2^58 elements, adds exactly the new element, keeps the invariant (distinct keys, every element in the bucket of its key, the last element of a bucket empty), passes the consistency check and keeps the load bound.\<close>

theorem reducer_insert_refines_map:
  assumes "map_ok m" and "load_ok m" and "rm_nelem m < 2 ^ 58" and "key \<noteq> 0" and "view \<noteq> 0" and "the_elem_of m key = None"
  shows "\<exists>m'. rehash_and_insert key hb view m = Some m' \<and> map_ok m' \<and> load_ok m' \<and> map_check False m' = Some () \<and>
    the_elem_of m' = (the_elem_of m)(key \<mapsto> \<lparr>el_key = key, el_hb = hb, el_view = view\<rparr>)"
proof -
  obtain m' where m': "rehash_and_insert key hb view m = Some m'" "map_ok m'"
    "mset (entries m') = add_mset \<lparr>el_key = key, el_hb = hb, el_view = view\<rparr> (mset (entries m))" "load_ok m \<longrightarrow> load_ok m'"
    by (rule rehash_and_insert_ok [where hb = hb, OF assms(1,3-5) nonmember [OF assms(6)]])
  then show ?thesis using the_elem_of_add [OF assms(1) m'(2,3)] map_check_ok [OF m'(2)] assms(2) by simp
qed

theorem reducer_insert_refines_map_witness:
  "\<exists>m'. rehash_and_insert 32 \<lparr>hb_address = 32, hb_view_offset = 0\<rparr> 40 (one_reducer 16) = Some m' \<and> map_check False m' = Some ()"
proof -
  have "load_ok (one_reducer 16)" "rm_nelem (one_reducer 16) < 2 ^ 58" by (simp_all add: one_reducer_def load_ok_def minsz_def)
  then show ?thesis
    using reducer_insert_refines_map [of "one_reducer 16" 32 40 "\<lparr>hb_address = 32, hb_view_offset = 0\<rparr>"] one_reducer_ok [of 16]
    by (auto simp: one_reducer_elem)
qed

text \<open>C26. For the keys of 48-bit addresses the two-level table is a map: \<open>find\<close> looks a key up, \<open>insert\<close> adds it unless it is there and returns what is there afterwards, \<open>erase\<close> removes it, and none goes out of bounds.\<close>

theorem shadow_memory_is_map:
  assumes "unat address < 2 ^ 48"
  shows "shadow_find (ADDR_TO_KEY address) s = Some (shadow_map s (ADDR_TO_KEY address)) \<and>
    (\<exists>s'. shadow_insert (ADDR_TO_KEY address) v s =
        Some (case shadow_map s (ADDR_TO_KEY address) of None \<Rightarrow> v | Some u \<Rightarrow> u, s') \<and>
      shadow_map s' = (case shadow_map s (ADDR_TO_KEY address) of None \<Rightarrow> (shadow_map s)(ADDR_TO_KEY address \<mapsto> v)
                       | Some u \<Rightarrow> shadow_map s)) \<and>
    (\<exists>s'. shadow_erase (ADDR_TO_KEY address) s = Some s' \<and> shadow_map s' = (shadow_map s)(ADDR_TO_KEY address := None))"
proof -
  note k = key_ok_addr [OF assms]
  show ?thesis by (rule conjI [OF shadow_find_ok [OF k] conjI [OF shadow_insert_ok [OF k] shadow_erase_ok [OF k]]])
qed

theorem shadow_memory_is_map_witness:
  "shadow_find (ADDR_TO_KEY 4096) (shadow_new :: nat shadow_dir) = Some None"
proof -
  have "shadow_map (shadow_new :: nat shadow_dir) k = None" for k
    by (simp add: shadow_map_def slot_value_def shadow_new_def)
  with shadow_memory_is_map [of 4096 "shadow_new :: nat shadow_dir" 0] show ?thesis by simp
qed

text \<open>C27. \<open>split\<close> cuts a list into sublists of at most 64 nodes, in order, with labels \<open>2 ^ 58\<close> apart; it frees the header of the old list and touches no other list.\<close>

theorem om_split_into_chunks:
  assumes "blist_rep h l xs" and "brk_ok h" and "xs \<noteq> []" and "length xs \<le> fuel"
    and "blists h l = Some L" and "bl_above L = Some a" and "below a = Some l"
  shows "\<exists>sn h'. split fuel below l h = Some (sn, h') \<and>
     list_all2 (\<lambda>(a, b) c. filled h' b a c) sn (chunks 64 xs) \<and>
     (\<forall>(a, b)\<in>set sn. brk h \<le> a \<and> a < brk h' \<and> brk h \<le> b \<and> b < brk h') \<and>
     distinct (map fst sn) \<and> distinct (map snd sn) \<and>
     tls h' = tls h \<union> fst ` set sn \<and> brk h \<le> brk h' \<and> brk_ok h' \<and>
     (\<forall>x. x \<notin> set xs \<longrightarrow> nodes h' x = nodes h x) \<and>
     (\<forall>l'. l' \<noteq> l \<and> l' \<notin> snd ` set sn \<longrightarrow> blists h' l' = blists h l') \<and> blists h' l = None"
  using assms by (rule split_rep)

theorem om_split_into_chunks_witness:
  "\<exists>self h b l sn h'. demo_run = Some (self, 2, Some b, h) \<and> split 2 (leaf_below (om_root self)) l h = Some (sn, h') \<and>
     list_all2 (\<lambda>(a, b) c. filled h' b a c) sn (chunks 64 [2, b])"
proof -
  obtain self h b where d: "demo_run = Some (self, 2, Some b, h)" "om_rep self h [[2, b]]"
    using demo_x86 by (auto simp: om_x86_def)
  obtain a l L where l: "(a, l) \<in> set (plain (om_root self))" "blist_rep h l [2, b]" "blists h l = Some L" "bl_above L = Some a"
    using om_rep_leaf [OF d(2), of 0] by (metis length_greater_0_conv list.distinct(1) nth_Cons_0)
  have "leaf_below (om_root self) a = Some l" "brk_ok h"
    using leaf_below_plain [OF l(1)] d(2) by (auto simp: om_rep_def om_mid_def)
  then obtain sn h' where "split 2 (leaf_below (om_root self)) l h = Some (sn, h')"
    "list_all2 (\<lambda>(a, b) c. filled h' b a c) sn (chunks 64 [2, b])"
    using om_split_into_chunks [OF l(2) _ _ _ l(3,4), of 2 "leaf_below (om_root self)"] by auto
  with d(1) show ?thesis by blast
qed

text \<open>C28. Once every worker has returned its free lists, the leak check of the global cleanup stops the process exactly if a block is still in use.\<close>

theorem leak_check_exact:
  assumes "fm_inv g {} live" and "check_for_leaks g"
    and "\<forall>p\<in>#live. snd p < FRAME_MALLOC_NBUCKETS" and "total_bytes live < 2 ^ 64"
  shows "frame_malloc_global_cleanup g = None \<longleftrightarrow> live \<noteq> {#}"
  using assms by (rule global_cleanup_ok)

theorem leak_check_exact_witness:
  "\<exists>mem g1 g2. frame_malloc (Some 0) 100 fm_start = Some (mem, g1) \<and>
     frame_malloc_per_worker_cleanup 0 g1 = Some g2 \<and> frame_malloc_global_cleanup g2 = None"
proof -
  have b: "bucket_of_size 100 = Some 1" by code_simp
  then obtain mem g1 where m: "frame_malloc (Some 0) 100 fm_start = Some (mem, g1)" "fm_inv g1 {0} {#(mem, 1)#}"
    "worker_step 0 fm_start g1"
    using frame_malloc_ok [OF _ _ _ fm_start_inv, of 0 100] by (auto simp: FRAME_MALLOC_MAX_SIZE_def)
  then obtain g2 where g2: "frame_malloc_per_worker_cleanup 0 g1 = Some g2" "fm_inv g2 {} {#(mem, 1)#}" "worker_step 0 g1 g2"
    using per_worker_cleanup_ok [of "{}" 0 g1 "{#(mem, 1)#}"] by auto
  have "check_for_leaks g2" using m(3) g2(3) fm_start_checks by (simp add: worker_step_def)
  moreover have "bucket_to_size 1 = 128" by code_simp
  ultimately show ?thesis
    using leak_check_exact [OF g2(2)] m(1) g2(1) by (auto simp: FRAME_MALLOC_NBUCKETS_def)
qed

text \<open>C29. Round trip of a reducer: after \<open>hyper_create\<close> a lookup returns its leftmost view and changes nothing, and \<open>hyper_destroy\<close> then gives back the finite map from before the creation.\<close>

theorem reducer_create_destroy_roundtrip:
  assumes "map_ok m" and "load_ok m" and "rm_nelem m < 2 ^ 58" and "\<not> rm_merging m"
    and "key = get_hyperobject_key hb" and "key \<noteq> 0" and "the_elem_of m key = None"
  shows "\<exists>m1 m2. hyper_create hb (Some m) = Some m1 \<and>
    hyper_lookup identity_fn rep hb (Some m1) vals = Some (get_leftmost_view key, m1, vals) \<and>
    hyper_destroy hb m1 vals = Some (m2, vals) \<and> map_ok m2 \<and> the_elem_of m2 = the_elem_of m"
proof -
  let ?e = "\<lparr>el_key = key, el_hb = hb, el_view = key\<rparr>"
  obtain m1 where m1: "hyper_create hb (Some m) = Some m1" "map_ok m1" "load_ok m1" "the_elem_of m1 = (the_elem_of m)(key \<mapsto> ?e)"
    "rm_merging m1 = rm_merging m" by (rule hyper_create_ok [OF assms(1-4,6,5,7)])
  have e: "the_elem_of m1 key = Some ?e" "el_view ?e = key" using m1(4) by simp_all
  have nm: "\<not> rm_merging m1" using m1(5) assms(4) by simp
  have k: "get_hyperobject_key hb \<noteq> 0" "the_elem_of m1 (get_hyperobject_key hb) = Some ?e" using assms(5,6) e(1) by simp_all
  obtain m2 where m2: "hyper_destroy hb m1 vals = Some (m2, vals)" "map_ok m2" "the_elem_of m2 = (the_elem_of m1)(key := None)"
    by (rule hyper_destroy_ok [where vals = vals, OF m1(2) nm assms(6,5) e])
  have "the_elem_of m2 = the_elem_of m" using m2(3) m1(4) assms(7) by (simp add: fun_upd_idem)
  then show ?thesis using m1(1) m2(1,2) hyper_lookup_found [OF m1(2) nm k, of identity_fn rep vals]
    by (simp add: get_leftmost_view_def)
qed

theorem reducer_create_destroy_roundtrip_witness:
  "\<exists>m1 m2. hyper_create \<lparr>hb_address = 32, hb_view_offset = 0\<rparr> (Some (one_reducer 16)) = Some m1 \<and>
    hyper_destroy \<lparr>hb_address = 32, hb_view_offset = 0\<rparr> m1 (\<lambda>_. None :: nat option) = Some (m2, \<lambda>_. None) \<and>
    the_elem_of m2 = the_elem_of (one_reducer 16)"
proof -
  have "load_ok (one_reducer 16)" "rm_nelem (one_reducer 16) < 2 ^ 58" "\<not> rm_merging (one_reducer 16)"
    by (simp_all add: one_reducer_def load_ok_def minsz_def)
  then show ?thesis
    using reducer_create_destroy_roundtrip [of "one_reducer 16" 32 "\<lparr>hb_address = 32, hb_view_offset = 0\<rparr>" "\<lambda>_. 0" 48 "\<lambda>_. None :: nat option"]
      one_reducer_ok [of 16] by (auto simp: one_reducer_elem get_hyperobject_key_def)
qed

text \<open>C30. Round trip of the watermarks: what \<open>setHighWatermark\<close> stores for an iteration in the ring, \<open>getHighWatermark\<close> returns for it, and the watermarks of the other iterations in the ring do not change.\<close>

theorem watermark_roundtrip:
  assumes "ring_rep n m it" and "j < m" and "m \<le> j + n"
  shows "\<exists>it'. setHighWatermark (int j + 1) w it = Some it' \<and> getHighWatermark (int j + 1) it' = Some w \<and>
    (\<forall>k. k \<noteq> j \<longrightarrow> k < m \<longrightarrow> m \<le> k + n \<longrightarrow> getHighWatermark (int k + 1) it' = getHighWatermark (int k + 1) it)"
  using setHighWatermark_ring [OF assms, of w] by blast

theorem watermark_roundtrip_witness:
  "\<exists>it index it1 it2. iterations_new 1 = Some it \<and> insertStageFrameList 1 it = Some (index, it1) \<and>
     setHighWatermark 1 7 it1 = Some it2 \<and> getHighWatermark 1 it2 = Some 7"
proof -
  obtain it where it: "iterations_new 1 = Some it" "ring_rep (nat 1 + 1) 0 it" using iterations_new_ring [of 1] by auto
  obtain it1 where "insertStageFrameList 1 it = Some (0, it1)" "ring_rep (nat 1 + 1) (Suc 0) it1"
    using insertStageFrameList_ring [OF it(2)] by auto
  then show ?thesis using it(1) watermark_roundtrip [of "nat 1 + 1" "Suc 0" it1 0 7] by auto
qed

text \<open>C31. An insertion leaves, between its base and the new node, at least half of the label gap there was, and there is room exactly as long as the gap is at least two.\<close>

theorem om_insert_halves_gap:
  assumes "blist_rep h l (us @ b # vs)" and "brk_ok h" and "2 \<le> gap h b vs"
  shows "\<exists>n h'. bl_insert l b h = Some (Some n, h') \<and> blist_rep h' l (us @ b # n # vs) \<and>
     gap h b vs div 2 \<le> gap h' b (n # vs)"
  using assms by (rule bl_insert_gap)

theorem om_insert_halves_gap_witness:
  "\<exists>self h0 h l n h'. om_create empty_bheap = Some (self, h0) \<and> om_insert_initial self h0 = Some (2, h) \<and>
     bl_insert l 2 h = Some (Some n, h') \<and> blist_rep h' l [2, n]"
proof -
  obtain self h0 h l where d: "om_create empty_bheap = Some (self, h0)" "om_insert_initial self h0 = Some (2, h)"
    "blist_rep h l [2]" "brk_ok h" "2 \<le> gap h 2 []"
    using demo_gap by blast
  obtain n h' where "bl_insert l 2 h = Some (Some n, h')" "blist_rep h' l [2, n]"
    using om_insert_halves_gap [of h l "[]" 2 "[]"] d(3-5) by auto
  with d(1,2) show ?thesis by blast
qed

text \<open>C32. An insertion into the shadow memory is wait-free.  In every schedule of the loads and compare-and-swaps of any number of insertions, a thread whose key is that of a 48-bit address takes at most six steps, has returned after six, and as long as it has not returned the schedule can go on with a step of it.\<close>

theorem shadow_insert_wait_free:
  assumes "threads_sched arg ((\<lambda>_. Load_Dir), s0) ts (pcs, s)" and "key_ok (fst (arg t))"
  shows "count_list ts t \<le> 6 \<and> (count_list ts t = 6 \<longrightarrow> (\<exists>v. pcs t = Returned v)) \<and>
    ((\<nexists>v. pcs t = Returned v) \<longrightarrow>
      (\<exists>p s'. threads_sched arg ((\<lambda>_. Load_Dir), s0) (ts @ [t]) (pcs(t := p), s')))"
  using assms by (rule threads_sched_bounded)

theorem shadow_insert_wait_free_witness:
  "\<exists>pcs s. threads_sched (\<lambda>t. (7, t)) ((\<lambda>_. Load_Dir), shadow_new) [3, 3, 3, 3, 3, 3] (pcs, s) \<and> (\<exists>v. pcs 3 = Returned v)"
proof -
  have k: "key_ok (fst (7, 3 :: nat))" using key_ok_addr [of 112] by (simp add: ADDR_TO_KEY_112)
  then obtain pcs s where r: "threads_sched (\<lambda>t. (7, t)) ((\<lambda>_. Load_Dir), shadow_new) [3, 3, 3, 3, 3, 3] (pcs, s)"
    using insert_alone_sched [of "\<lambda>t. (7, t)" 3] by auto
  have "\<exists>v. pcs 3 = Returned v" using shadow_insert_wait_free [OF r, of 3] k by simp
  with r show ?thesis by blast
qed

text \<open>C33. \<open>om_destroy\<close> frees exactly the nodes, lists and tree nodes of the structure, each of them once.\<close>

theorem om_destroy_frees_all:
  assumes "om_rep self h xss" and "length (concat xss) \<le> fuel"
  shows "om_destroy fuel self h = Some (after_destroy (om_root self) xss h)"
  using assms by (rule om_destroy_ok)

theorem om_destroy_frees_all_witness:
  "\<exists>self h b h'. demo_run = Some (self, 2, Some b, h) \<and> om_destroy 2 self h = Some h' \<and> nodes h' 2 = None"
proof -
  obtain self h b where d: "demo_run = Some (self, 2, Some b, h)" "om_rep self h [[2, b]]"
    using demo_x86 by (auto simp: om_x86_def)
  have "om_destroy 2 self h = Some (after_destroy (om_root self) [[2, b]] h)"
    using om_destroy_frees_all [OF d(2), of 2] by simp
  moreover have "nodes (after_destroy (om_root self) [[2, b]] h) 2 = None" by (simp add: after_destroy_def)
  ultimately show ?thesis using d(1) by blast
qed

text \<open>C34. After every sequence of insertions and relabellings the lists of the structure are sound as the code checks it: for every leaf the assertions of \<open>bl_verify\<close> on its list hold, its labels increase strictly and its links agree in both directions, and the list points back to the leaf.\<close>

theorem client_lists_verify:
  assumes "client_rep s xs" and "om_step\<^sup>*\<^sup>* s (hs, self, h)" and "card hs \<le> fuel"
    and "(a, b) \<in> set (leaf_seq (om_root self))"
  shows "bl_verify fuel h b = Some 0 \<and> (\<exists>L. blists h b = Some L \<and> bl_above L = Some a)"
  using assms by (rule client_lists_ok)

theorem client_lists_verify_witness:
  "\<exists>self h b self' h'. demo_run = Some (self, 2, Some b, h) \<and>
     om_relabel 2 x86_shl (leaf_addrs (om_root self)) (self, h) = Some (self', h') \<and>
     leaf_seq (om_root self') \<noteq> [] \<and> (\<forall>p\<in>set (leaf_seq (om_root self')). bl_verify 2 h' (snd p) = Some 0)"
proof -
  obtain self h b where d: "demo_run = Some (self, 2, Some b, h)" "client_rep ({2, b}, self, h) [2, b]" "b \<noteq> 2"
    using demo_client by blast
  obtain self' h' where r: "om_relabel 2 x86_shl (leaf_addrs (om_root self)) (self, h) = Some (self', h')"
    and s: "om_step ({2, b}, self, h) ({2, b}, self', h')"
    using demo_relabel [OF d(2,3)] by blast
  have step: "om_step\<^sup>*\<^sup>* ({2, b}, self, h) ({2, b}, self', h')" using s by (rule r_into_rtranclp)
  have "bl_verify 2 h' y = Some 0" if "(x, y) \<in> set (leaf_seq (om_root self'))" for x y
    using client_lists_verify [OF d(2) step _ that, of 2] d(3) by simp
  then have "\<forall>p\<in>set (leaf_seq (om_root self')). bl_verify 2 h' (snd p) = Some 0" by (metis prod.collapse)
  moreover have "leaf_seq (om_root self') \<noteq> []"
  proof -
    obtain ys where "client_rep ({2, b}, self', h') ys" using client_rep_steps [OF d(2) step] by blast
    then obtain xss where "om_rep self' h' xss" "set (concat xss) = {2, b}" by (auto simp: client_rep_def om_x86_def)
    then show ?thesis by (auto simp: om_rep_def om_mid_def)
  qed
  ultimately show ?thesis using d(1) r by blast
qed

text \<open>C35. What \<open>record_mem_helper\<close> does on its path for a block without history, whether its insertion wins or loses against another thread, is what a check of the access against the history of the block does, with an empty history where there is none.\<close>

theorem first_access_equivalence:
  assumes "key_ok (key_of a)" and "fits a"
  shows "map_option (map_prod id shadow_map) (record_mem_insert qe qh a s) = block_access qe qh a (shadow_map s)"
  using record_mem_insert_eq [OF assms(1), of qe qh s] mem_list_new_fits [OF assms(2)] by (auto split: option.splits)

theorem first_access_equivalence_witness:
  "\<exists>s. record_mem_insert (\<lambda>x y. Some True) (\<lambda>x y. Some True)
     \<lparr>ac_read = True, ac_inst = 1, ac_addr = 64, ac_size = 8, ac_estrand = Some 1, ac_hstrand = Some 2\<rparr> shadow_new = Some ([], s) \<and>
     shadow_map s (ADDR_TO_KEY 64) \<noteq> None"
proof -
  let ?a = "\<lparr>ac_read = True, ac_inst = 1, ac_addr = 64, ac_size = 8, ac_estrand = Some 1, ac_hstrand = Some 2\<rparr>"
  let ?q = "\<lambda>x y. Some True"
  have k: "key_ok (key_of ?a)" using key_ok_addr [of 64] by (simp add: key_of_def)
  have f: "fits ?a" using grains_fit [of 64 8] by (simp add: fits_def ac_grains_def)
  obtain m where "mem_list_new 64 True (Some 1) (Some 2) 1 8 = Some m" using mem_list_new_fits [OF f] by auto
  then have "block_access ?q ?q ?a (shadow_map shadow_new) = Some ([], (shadow_map shadow_new)(ADDR_TO_KEY 64 \<mapsto> m))"
    using check_new [of ?q ?q ?a] by (simp add: block_access_def shadow_map_def slot_value_def shadow_new_def)
  with first_access_equivalence [OF k f, of ?q ?q shadow_new] show ?thesis by auto
qed

text \<open>C36. For every size up to the maximum, \<open>bucket_of_size\<close> is the smallest class that holds it, and rounding up yields its size.\<close>

theorem bucket_of_size_smallest:
  assumes "sz \<le> FRAME_MALLOC_MAX_SIZE"
  shows "\<exists>b. bucket_of_size sz = Some b \<and> b < FRAME_MALLOC_NBUCKETS \<and> sz \<le> bucket_to_size b \<and>
     (\<forall>b'<b. bucket_to_size b' < sz) \<and> frame_malloc_roundup sz = Some (bucket_to_size b)"
  using bucket_of_size_ok [OF assms] assms by (auto simp: frame_malloc_roundup_def)

theorem bucket_of_size_smallest_witness:
  "bucket_of_size 129 = Some 2 \<and> frame_malloc_roundup 129 = Some 256"
proof -
  have "bucket_of_size 129 = Some 2" by code_simp
  moreover have "bucket_to_size 2 = 256" by code_simp
  ultimately show ?thesis using bucket_of_size_smallest [of 129] by (auto simp: FRAME_MALLOC_MAX_SIZE_def)
qed

text \<open>C37. An access of fewer than four bytes finds no race with anything and leaves no trace in the history.\<close>

theorem small_accesses_invisible:
  assumes "unat mem_size < 4"
  shows "check_races_and_update qe qh is_read inst_addr address mem_size e h m = Some ([], m)"
  using assms by (rule small_access_ignored)

theorem small_accesses_invisible_witness:
  "check_races_and_update (\<lambda>x y. Some True) (\<lambda>x y. Some False) False 1 64 2 (Some 1) (Some 2) (mem_list_empty 64) =
     Some ([], mem_list_empty 64)"
  by (rule small_accesses_invisible) simp

text \<open>C38. A read or a write whose first slot and number of slots reach past the four slots of its block leaves the bounds of the arrays.  Sizes are those of the code, less than \<open>2 ^ 32\<close>.\<close>

theorem unaligned_access_stops:
  assumes "wf_list m" and "unat mem_size < 2 ^ 32" and "4 < unat address mod 16 div 4 + unat mem_size div 4"
  shows "check_races_and_update qe qh is_read inst_addr address mem_size e h m = None"
  using assms by (rule unaligned_access_out)

theorem unaligned_access_stops_witness:
  "check_races_and_update (\<lambda>x y. Some True) (\<lambda>x y. Some True) True 1 76 8 (Some 1) (Some 2) (mem_list_empty 64) = None \<and>
   check_races_and_update (\<lambda>x y. Some True) (\<lambda>x y. Some True) False 1 68 16 (Some 1) (Some 2) (mem_list_empty 64) = None"
  by (rule conjI; rule unaligned_access_stops; simp add: wf_list_def mem_list_empty_def)



text \<open>C40. \<open>om_memsize\<close> is determined by the numbers of lists and of nodes.\<close>

theorem om_memsize_counts:
  assumes "om_rep self h xss" and "length (concat xss) \<le> fuel"
  shows "om_memsize fuel self h = Some (160 * length xss + 48 * length (concat xss) - 32)"
  using assms by (rule om_memsize_ok)

theorem om_memsize_counts_witness:
  "\<exists>self h b. demo_run = Some (self, 2, Some b, h) \<and> om_memsize 2 self h = Some 224"
proof -
  obtain self h b where d: "demo_run = Some (self, 2, Some b, h)" "om_rep self h [[2, b]]"
    using demo_x86 by (auto simp: om_x86_def)
  from om_memsize_counts [OF d(2), of 2] have "om_memsize 2 self h = Some 224" by simp
  with d(1) show ?thesis by blast
qed

end
